(* ===== verification/Prelude.thy ===== *)
theory Prelude
  imports Main "HOL-Library.Word"
begin

unbundle bit_operations_syntax

text \<open>
  Shared vocabulary of the development: the machine types of \<^verbatim>\<open>lib/stdint.h\<close>, the outcome of
  kernel code that may stop (an \<^verbatim>\<open>ASSERT\<close> or \<^verbatim>\<open>PANIC\<close> of \<^verbatim>\<open>kernel/debug.h\<close>, or an
  access to memory the object does not own), sequencing of such code, and generic lemmas on
  lists and words that several components use.
\<close>

section \<open>Machine types\<close>

type_synonym byte = "8 word"
type_synonym u16 = "16 word"
type_synonym u32 = "32 word"
type_synonym u64 = "64 word"

section \<open>Outcomes of kernel code\<close>

text \<open>
  \<open>Panic c\<close> is \<^verbatim>\<open>panic_spin\<close> with condition text \<open>c\<close>: the kernel prints the text and spins with
  interrupts off, so nothing after it happens. \<open>Fault m\<close> is an access the C code makes to memory
  that the object \<open>m\<close> does not own (an index out of range, a null pointer, a freed block).
\<close>

datatype kerror = Panic string | Fault string

type_synonym 'a res = "kerror + 'a"

definition rbind :: "'e + 'a \<Rightarrow> ('a \<Rightarrow> 'e + 'b) \<Rightarrow> 'e + 'b" where
  "rbind m f = (case m of Inl e \<Rightarrow> Inl e | Inr x \<Rightarrow> f x)"

definition kassert :: "bool \<Rightarrow> string \<Rightarrow> unit res" where
  "kassert c msg = (if c then Inr () else Inl (Panic msg))"

named_theorems res_simps \<open>evaluation of outcomes\<close>

lemma rbind_Inl [simp]: "rbind (Inl e) f = Inl e"
  by (simp add: rbind_def)

lemma rbind_Inr [simp]: "rbind (Inr x) f = f x"
  by (simp add: rbind_def)

lemma rbind_eq_Inr [res_simps]: "rbind m f = Inr y \<longleftrightarrow> (\<exists>x. m = Inr x \<and> f x = Inr y)"
  by (cases m) simp_all

lemma rbind_eq_Inl [res_simps]:
  "rbind m f = Inl e \<longleftrightarrow> m = Inl e \<or> (\<exists>x. m = Inr x \<and> f x = Inl e)"
  by (cases m) auto

lemma rbind_cong [fundef_cong]:
  "m = m' \<Longrightarrow> (\<And>x. m' = Inr x \<Longrightarrow> f x = f' x) \<Longrightarrow> rbind m f = rbind m' f'"
  by (cases m') simp_all

lemma rbind_assoc: "rbind (rbind m f) g = rbind m (\<lambda>x. rbind (f x) g)"
  by (cases m) simp_all

lemma rbind_if: "rbind (if c then a else b) f = (if c then rbind a f else rbind b f)"
  by simp

lemma kassert_True [simp]: "kassert True msg = Inr ()"
  by (simp add: kassert_def)

lemma kassert_False [simp]: "kassert False msg = Inl (Panic msg)"
  by (simp add: kassert_def)

lemma kassert_eq_Inr [res_simps]: "kassert c msg = Inr u \<longleftrightarrow> c"
  by (simp add: kassert_def)

lemma kassert_eq_Inl [res_simps]: "kassert c msg = Inl e \<longleftrightarrow> \<not> c \<and> e = Panic msg"
  by (auto simp: kassert_def)

section \<open>Generic lemmas\<close>

lemma nth_list_update_if:
  "i < length xs \<Longrightarrow> xs[i := v] ! j = (if i = j then v else xs ! j)"
  by (simp add: nth_list_update)

lemma div_mod_8_eq: "(i::nat) = j \<longleftrightarrow> i div 8 = j div 8 \<and> i mod 8 = j mod 8"
  by (metis div_mult_mod_eq)

lemma div_8_less: "(i::nat) < 8 * n \<longleftrightarrow> i div 8 < n"
  by presburger

end
