(* ===== verification/Bitmap.thy ===== *)
theory Bitmap
  imports Prelude
begin

text \<open>
  The bitmap of \<^verbatim>\<open>lib/kernel/bitmap.c\<close>, the allocator behind process ids, physical frames,
  virtual pages, disk blocks and inodes. \<open>bytes_len\<close> is the size the code knows; \<open>bits\<close> is
  the memory that can be reached through the pointer \<^verbatim>\<open>bits\<close>, which may be longer (the pool
  structures place other fields right behind the bit array). An access outside \<open>bits\<close> is a
  \<open>Fault\<close>. Sizes are \<open>nat\<close>: every index the loops form is below \<open>8 * bytes_len\<close> plus the
  requested count, far below $2^{64}$.
\<close>

section \<open>Data and operations\<close>

record bitmap =
  bytes_len :: nat
  bits :: "byte list"

definition bitmap_init :: "bitmap \<Rightarrow> bitmap res" where
  "bitmap_init b =
     (if bytes_len b \<le> length (bits b)
      then Inr (b\<lparr>bits := replicate (bytes_len b) 0 @ drop (bytes_len b) (bits b)\<rparr>)
      else Inl (Fault ''bitmap''))"

definition bitmap_read :: "bitmap \<Rightarrow> nat \<Rightarrow> bool res" where
  "bitmap_read b idx =
     (let byte_idx = idx div 8; bit_idx = idx mod 8
      in if byte_idx < length (bits b)
         then Inr (drop_bit bit_idx (bits b ! byte_idx) AND 1 = 1)
         else Inl (Fault ''bitmap''))"

definition bitmap_set :: "bitmap \<Rightarrow> nat \<Rightarrow> bool \<Rightarrow> bitmap res" where
  "bitmap_set b idx value =
     (let byte_idx = idx div 8; bit_idx = idx mod 8
      in if byte_idx < length (bits b)
         then Inr (b\<lparr>bits := (bits b)[byte_idx :=
                (if value then (bits b ! byte_idx) OR push_bit bit_idx 1
                 else (bits b ! byte_idx) AND NOT (push_bit bit_idx 1))]\<rparr>)
         else Inl (Fault ''bitmap''))"

text \<open>The loop \<^verbatim>\<open>for (i = 0; i != 8 * bytes_len; ++i)\<close> runs over the list of its indices.\<close>

fun first_clear_bit :: "bitmap \<Rightarrow> nat list \<Rightarrow> (bitmap \<times> int) res" where
  "first_clear_bit b [] = Inr (b, -1)"
| "first_clear_bit b (i # is) =
     rbind (bitmap_read b i) (\<lambda>r.
       if \<not> r then rbind (bitmap_set b i True) (\<lambda>b'. Inr (b', int i))
       else first_clear_bit b is)"

definition bitmap_alloc_a_bit :: "bitmap \<Rightarrow> (bitmap \<times> int) res" where
  "bitmap_alloc_a_bit b = first_clear_bit b [0..<8 * bytes_len b]"

text \<open>
  \<open>clear_run b i js\<close> is the inner loop of \<^verbatim>\<open>bitmap_alloc\<close>: how many of the bits \<open>i + j\<close> are
  clear before the first set one. \<open>fill_run\<close> is the loop that sets the run found.
\<close>

fun clear_run :: "bitmap \<Rightarrow> nat \<Rightarrow> nat \<Rightarrow> nat list \<Rightarrow> nat res" where
  "clear_run b i cnt [] = Inr cnt"
| "clear_run b i cnt (j # js) =
     rbind (bitmap_read b (i + j)) (\<lambda>r. if r then Inr j else clear_run b i cnt js)"

fun fill_run :: "bitmap \<Rightarrow> nat \<Rightarrow> nat list \<Rightarrow> bitmap res" where
  "fill_run b i [] = Inr b"
| "fill_run b i (k # ks) = rbind (bitmap_set b (i + k) True) (\<lambda>b'. fill_run b' i ks)"

function bitmap_alloc_from :: "bitmap \<Rightarrow> nat \<Rightarrow> nat \<Rightarrow> (bitmap \<times> int) res" where
  "bitmap_alloc_from b cnt i =
     (if i < 8 * bytes_len b then
        rbind (bitmap_read b i) (\<lambda>r.
          if \<not> r then
            rbind (clear_run b i cnt [0..<cnt]) (\<lambda>j.
              if j = cnt then rbind (fill_run b i [0..<cnt]) (\<lambda>b'. Inr (b', int i))
              else bitmap_alloc_from b cnt (Suc (i + j)))
          else bitmap_alloc_from b cnt (Suc i))
      else Inr (b, -1))"
  by pat_completeness auto
termination
  by (relation "measure (\<lambda>(b, cnt, i). 8 * bytes_len b - i)") auto

declare bitmap_alloc_from.simps [simp del]

definition bitmap_alloc :: "bitmap \<Rightarrow> nat \<Rightarrow> (bitmap \<times> int) res" where
  "bitmap_alloc b cnt = bitmap_alloc_from b cnt 0"

fun free_run :: "bitmap \<Rightarrow> nat \<Rightarrow> nat list \<Rightarrow> bitmap res" where
  "free_run b idx [] = Inr b"
| "free_run b idx (i # is) =
     rbind (bitmap_read b (idx + i)) (\<lambda>r.
     rbind (kassert r ''bitmap_read(btmp, idx + i) == 1'') (\<lambda>_.
     rbind (bitmap_set b (idx + i) False) (\<lambda>b'. free_run b' idx is)))"

definition bitmap_free :: "bitmap \<Rightarrow> nat \<Rightarrow> nat \<Rightarrow> bitmap res" where
  "bitmap_free b idx cnt = free_run b idx [0..<cnt]"

section \<open>The abstraction: the set of used indices\<close>

definition used_bits :: "bitmap \<Rightarrow> nat set" where
  "used_bits b = {i. i < 8 * length (bits b) \<and> bit (bits b ! (i div 8)) (i mod 8)}"

lemma used_bits_code [code]:
  "used_bits b = set (filter (\<lambda>i. bit (bits b ! (i div 8)) (i mod 8)) [0..<8 * length (bits b)])"
  by (auto simp: used_bits_def)

definition bitmap_wf :: "bitmap \<Rightarrow> bool" where
  "bitmap_wf b \<longleftrightarrow> bytes_len b \<le> length (bits b)"

definition same_shape :: "bitmap \<Rightarrow> bitmap \<Rightarrow> bool" where
  "same_shape b c \<longleftrightarrow> bytes_len b = bytes_len c \<and> length (bits b) = length (bits c)"

lemma same_shape_refl [simp]: "same_shape b b"
  by (simp add: same_shape_def)

lemma same_shape_trans [trans]: "same_shape a b \<Longrightarrow> same_shape b c \<Longrightarrow> same_shape a c"
  by (simp add: same_shape_def)

lemma same_shape_wf: "same_shape b c \<Longrightarrow> bitmap_wf b = bitmap_wf c"
  by (simp add: same_shape_def bitmap_wf_def)

lemma used_bits_bound: "i \<in> used_bits b \<Longrightarrow> i < 8 * length (bits b)"
  by (simp add: used_bits_def)

lemma and_one_eq_one: "(drop_bit n (w :: byte) AND 1 = 1) = bit w n"
  by (simp add: and_one_eq bit_iff_odd_drop_bit odd_iff_mod_2_eq_one)

lemma bitmap_read_in [simp]:
  "i < 8 * length (bits b) \<Longrightarrow> bitmap_read b i = Inr (i \<in> used_bits b)"
  by (simp add: bitmap_read_def used_bits_def and_one_eq_one div_8_less [symmetric])

lemma bitmap_read_out:
  "\<not> i < 8 * length (bits b) \<Longrightarrow> bitmap_read b i = Inl (Fault ''bitmap'')"
  by (simp add: bitmap_read_def div_8_less [symmetric])

lemma bitmap_read_eq_Inr:
  "bitmap_read b i = Inr r \<longleftrightarrow> i < 8 * length (bits b) \<and> r = (i \<in> used_bits b)"
  by (cases "i < 8 * length (bits b)") (auto simp: bitmap_read_out)

lemma bit_set_byte:
  "m < 8 \<Longrightarrow> bit ((w :: byte) OR 2 ^ n) m = (bit w m \<or> m = n)"
  by (auto simp: bit_simps)

lemma bit_clear_byte:
  "m < 8 \<Longrightarrow> bit ((w :: byte) AND NOT (2 ^ n)) m = (bit w m \<and> m \<noteq> n)"
  by (auto simp: bit_simps)

lemma bitmap_set_used:
  assumes "i < 8 * length (bits b)"
  shows "\<exists>b'. bitmap_set b i v = Inr b' \<and> same_shape b b' \<and>
    used_bits b' = (if v then insert i (used_bits b) else used_bits b - {i})"
proof -
  let ?w = "if v then (bits b ! (i div 8)) OR push_bit (i mod 8) 1
            else (bits b ! (i div 8)) AND NOT (push_bit (i mod 8) 1)"
  let ?b = "b\<lparr>bits := (bits b)[i div 8 := ?w]\<rparr>"
  have r: "bitmap_set b i v = Inr ?b"
    using assms by (simp add: bitmap_set_def div_8_less Let_def)
  have "j \<in> used_bits ?b \<longleftrightarrow> j \<in> (if v then insert i (used_bits b) else used_bits b - {i})" for j
    using assms
    by (auto simp: used_bits_def div_8_less nth_list_update_if bit_set_byte bit_clear_byte
        div_mod_8_eq [of j i] split: if_splits)
  then have "used_bits ?b = (if v then insert i (used_bits b) else used_bits b - {i})"
    by blast
  with r show ?thesis by (simp add: same_shape_def)
qed

lemma bitmap_set_out: "\<not> i < 8 * length (bits b) \<Longrightarrow> bitmap_set b i v = Inl (Fault ''bitmap'')"
  by (simp add: bitmap_set_def div_8_less [symmetric] Let_def)

lemma bitmap_set_InrD:
  assumes "bitmap_set b i v = Inr b'"
  shows "i < 8 * length (bits b)" "same_shape b b'"
    "used_bits b' = (if v then insert i (used_bits b) else used_bits b - {i})"
proof -
  show i: "i < 8 * length (bits b)"
    using assms bitmap_set_out [of i b v] by (cases "i < 8 * length (bits b)") auto
  show "same_shape b b'" "used_bits b' = (if v then insert i (used_bits b) else used_bits b - {i})"
    using bitmap_set_used [OF i, of v] assms by auto
qed

section \<open>Allocation of one bit\<close>

lemma first_clear_bit_find:
  "\<forall>i \<in> set is. i < 8 * length (bits b) \<Longrightarrow> first_clear_bit b is =
     (case find (\<lambda>i. i \<notin> used_bits b) is of None \<Rightarrow> Inr (b, -1)
      | Some i \<Rightarrow> rbind (bitmap_set b i True) (\<lambda>b'. Inr (b', int i)))"
  by (induction "is") auto

lemma bitmap_alloc_a_bit_find:
  "bitmap_wf b \<Longrightarrow> bitmap_alloc_a_bit b =
     (case find (\<lambda>i. i \<notin> used_bits b) [0..<8 * bytes_len b] of None \<Rightarrow> Inr (b, -1)
      | Some i \<Rightarrow> rbind (bitmap_set b i True) (\<lambda>b'. Inr (b', int i)))"
  unfolding bitmap_alloc_a_bit_def by (rule first_clear_bit_find) (auto simp: bitmap_wf_def)

lemma bitmap_alloc_a_bit_full:
  assumes "bitmap_wf b" "{..<8 * bytes_len b} \<subseteq> used_bits b"
  shows "bitmap_alloc_a_bit b = Inr (b, -1)"
proof -
  have "find (\<lambda>i. i \<notin> used_bits b) [0..<8 * bytes_len b] = None"
    using assms(2) by (auto simp: find_None_iff)
  with assms(1) show ?thesis by (simp add: bitmap_alloc_a_bit_find)
qed

lemma bitmap_alloc_a_bit_free:
  assumes "bitmap_wf b" "\<not> {..<8 * bytes_len b} \<subseteq> used_bits b"
  shows "\<exists>b' i. bitmap_alloc_a_bit b = Inr (b', int i) \<and> i < 8 * bytes_len b \<and>
    i \<notin> used_bits b \<and> {..<i} \<subseteq> used_bits b \<and> same_shape b b' \<and>
    used_bits b' = insert i (used_bits b)"
proof -
  have "find (\<lambda>i. i \<notin> used_bits b) [0..<8 * bytes_len b] \<noteq> None"
    using assms(2) by (auto simp: find_None_iff)
  then obtain i where f: "find (\<lambda>i. i \<notin> used_bits b) [0..<8 * bytes_len b] = Some i"
    by blast
  then have i: "i < 8 * bytes_len b" "i \<notin> used_bits b" "{..<i} \<subseteq> used_bits b"
    by (auto simp: find_Some_iff)
  with assms(1) obtain b' where "bitmap_set b i True = Inr b'" "same_shape b b'"
      "used_bits b' = insert i (used_bits b)"
    using bitmap_set_used [of i b True] by (auto simp: bitmap_wf_def)
  with assms(1) f i show ?thesis by (auto simp: bitmap_alloc_a_bit_find)
qed

lemma bitmap_alloc_a_bit_cases:
  assumes "bitmap_wf b"
  obtains (full) "bitmap_alloc_a_bit b = Inr (b, -1)" "{..<8 * bytes_len b} \<subseteq> used_bits b"
  | (free) b' i where "bitmap_alloc_a_bit b = Inr (b', int i)" "i < 8 * bytes_len b"
      "i \<notin> used_bits b" "{..<i} \<subseteq> used_bits b" "same_shape b b'"
      "used_bits b' = insert i (used_bits b)"
  using bitmap_alloc_a_bit_full [OF assms] bitmap_alloc_a_bit_free [OF assms] by blast

section \<open>Allocation and release of a run\<close>

definition run_of :: "nat \<Rightarrow> nat \<Rightarrow> nat set" where
  "run_of i cnt = {i..<i + cnt}"

definition run_clear :: "bitmap \<Rightarrow> nat \<Rightarrow> nat \<Rightarrow> bool" where
  "run_clear b i cnt \<longleftrightarrow> run_of i cnt \<inter> used_bits b = {}"

lemma run_of_iff: "x \<in> run_of i cnt \<longleftrightarrow> (\<exists>k < cnt. x = i + k)"
  by (auto simp: run_of_def nat_le_iff_add)

lemma run_clear_iff: "run_clear b i cnt \<longleftrightarrow> (\<forall>k < cnt. i + k \<notin> used_bits b)"
  unfolding run_clear_def disjoint_iff run_of_iff by blast

lemma clear_run_find:
  "\<forall>j \<in> set js. i + j < 8 * length (bits b) \<Longrightarrow> clear_run b i cnt js =
     Inr (case find (\<lambda>j. i + j \<in> used_bits b) js of None \<Rightarrow> cnt | Some j \<Rightarrow> j)"
  by (induction js) auto

lemma fill_run_spec:
  "\<forall>k \<in> set ks. i + k < 8 * length (bits b) \<Longrightarrow>
   \<exists>b'. fill_run b i ks = Inr b' \<and> same_shape b b' \<and>
     used_bits b' = used_bits b \<union> (\<lambda>k. i + k) ` set ks"
proof (induction ks arbitrary: b)
  case Nil
  then show ?case by simp
next
  case (Cons k ks)
  then obtain b1 where b1: "bitmap_set b (i + k) True = Inr b1" "same_shape b b1"
      "used_bits b1 = insert (i + k) (used_bits b)"
    using bitmap_set_used [of "i + k" b True] by auto
  with Cons.prems have "\<forall>k \<in> set ks. i + k < 8 * length (bits b1)"
    by (simp add: same_shape_def)
  then obtain b2 where "fill_run b1 i ks = Inr b2" "same_shape b1 b2"
      "used_bits b2 = used_bits b1 \<union> (\<lambda>k. i + k) ` set ks"
    using Cons.IH by blast
  with b1 show ?case by (auto simp: same_shape_def)
qed

lemma fill_run_InrD:
  "fill_run b i ks = Inr b' \<Longrightarrow> same_shape b b' \<and>
     used_bits b' = used_bits b \<union> (\<lambda>k. i + k) ` set ks"
proof (induction ks arbitrary: b)
  case Nil
  then show ?case by simp
next
  case (Cons k ks)
  then obtain b1 where "bitmap_set b (i + k) True = Inr b1" "fill_run b1 i ks = Inr b'"
    by (auto simp: rbind_eq_Inr)
  with Cons.IH [of b1] bitmap_set_InrD [of b "i + k" True b1] show ?case
    by (auto simp: same_shape_def)
qed

lemma clear_run_InrD:
  "clear_run b i cnt js = Inr j \<Longrightarrow> j = cnt \<and> (\<forall>k \<in> set js. i + k \<notin> used_bits b) \<or> j \<in> set js"
  by (induction js) (auto simp: rbind_eq_Inr bitmap_read_eq_Inr split: if_splits)

lemma image_add_run: "(\<lambda>k. i + k) ` set [0..<cnt] = run_of i cnt"
  by (auto simp: run_of_def)

lemma fill_run_upt:
  "fill_run b i [0..<cnt] = Inr b' \<Longrightarrow> same_shape b b' \<and>
     used_bits b' = used_bits b \<union> run_of i cnt"
  using fill_run_InrD [of b i "[0..<cnt]" b'] unfolding image_add_run by simp

text \<open>Soundness: a run that is returned was clear and is marked used, nothing else changes.\<close>

lemma bitmap_alloc_from_sound:
  "bitmap_alloc_from b cnt i = Inr (b', r) \<Longrightarrow>
    (r = -1 \<and> b' = b) \<or>
    (\<exists>k. r = int k \<and> i \<le> k \<and> k < 8 * bytes_len b \<and> run_clear b k cnt \<and>
       same_shape b b' \<and> used_bits b' = used_bits b \<union> run_of k cnt)"
proof (induction b cnt i rule: bitmap_alloc_from.induct)
  case (1 b cnt i)
  show ?case
  proof (cases "i < 8 * bytes_len b")
    case False
    with "1.prems" show ?thesis by (simp add: bitmap_alloc_from.simps [of b cnt i])
  next
    case in_range: True
    with "1.prems" obtain u where u: "bitmap_read b i = Inr u"
      by (auto simp: bitmap_alloc_from.simps [of b cnt i] rbind_eq_Inr)
    show ?thesis
    proof (cases u)
      case True
      with in_range u "1.prems" have "bitmap_alloc_from b cnt (Suc i) = Inr (b', r)"
        by (simp add: bitmap_alloc_from.simps [of b cnt i])
      from "1.IH"(2) [OF in_range u _ this] True show ?thesis by auto
    next
      case False
      with in_range u "1.prems" obtain j where j: "clear_run b i cnt [0..<cnt] = Inr j"
        by (auto simp: bitmap_alloc_from.simps [of b cnt i] rbind_eq_Inr)
      show ?thesis
      proof (cases "j = cnt")
        case True
        with in_range u False j "1.prems" obtain b1 where "fill_run b i [0..<cnt] = Inr b1"
            "b' = b1" "r = int i"
          by (auto simp: bitmap_alloc_from.simps [of b cnt i] rbind_eq_Inr)
        with fill_run_upt [of b i cnt b1] True clear_run_InrD [OF j] in_range
        show ?thesis by (auto simp: run_clear_iff)
      next
        case neq: False
        with in_range u False j "1.prems"
        have "bitmap_alloc_from b cnt (Suc (i + j)) = Inr (b', r)"
          by (simp add: bitmap_alloc_from.simps [of b cnt i])
        from "1.IH"(1) [OF in_range u _ j neq this] False show ?thesis by auto
      qed
    qed
  qed
qed

text \<open>Completeness and first fit: when a clear run lies inside the map, the lowest one is taken.\<close>

lemma bitmap_alloc_from_complete:
  assumes "bitmap_wf b" "0 < cnt" "k + cnt \<le> 8 * bytes_len b" "run_clear b k cnt" "i \<le> k"
  shows "\<exists>b' i0. bitmap_alloc_from b cnt i = Inr (b', int i0) \<and> i \<le> i0 \<and> i0 \<le> k \<and>
    run_clear b i0 cnt \<and> (\<forall>m. i \<le> m \<and> m < i0 \<longrightarrow> \<not> run_clear b m cnt) \<and>
    same_shape b b' \<and> used_bits b' = used_bits b \<union> run_of i0 cnt"
  using assms
proof (induction b cnt i rule: bitmap_alloc_from.induct)
  case (1 b cnt i)
  from "1.prems" have in_range: "i < 8 * bytes_len b" and mem: "8 * bytes_len b \<le> 8 * length (bits b)"
    by (auto simp: bitmap_wf_def)
  then have u: "bitmap_read b i = Inr (i \<in> used_bits b)" by simp
  show ?case
  proof (cases "i \<in> used_bits b")
    case True
    with "1.prems"(2,4) have "i \<noteq> k" by (auto simp: run_clear_iff)
    with "1.prems" have "Suc i \<le> k" by simp
    from "1.IH"(2) [OF in_range u _ "1.prems"(1,2,3,4) this] True in_range u obtain b' i0 where
      *: "bitmap_alloc_from b cnt i = Inr (b', int i0)" "Suc i \<le> i0" "i0 \<le> k" "run_clear b i0 cnt"
      "\<forall>m. Suc i \<le> m \<and> m < i0 \<longrightarrow> \<not> run_clear b m cnt"
      "same_shape b b'" "used_bits b' = used_bits b \<union> run_of i0 cnt"
      by (auto simp: bitmap_alloc_from.simps [of b cnt i])
    moreover from True "1.prems"(2) have "\<not> run_clear b i cnt"
      by (auto simp: run_clear_iff)
    ultimately have "\<forall>m. i \<le> m \<and> m < i0 \<longrightarrow> \<not> run_clear b m cnt"
      by (metis Suc_leI le_neq_implies_less)
    with * show ?thesis by (intro exI [of _ b'] exI [of _ i0]) simp
  next
    case False
    from "1.prems" mem have js: "\<forall>j \<in> set [0..<cnt]. i + j < 8 * length (bits b)" by auto
    let ?f = "find (\<lambda>j. i + j \<in> used_bits b) [0..<cnt]"
    show ?thesis
    proof (cases ?f)
      case None
      then have "run_clear b i cnt"
        by (auto simp: find_None_iff run_clear_iff)
      moreover from js obtain b' where "fill_run b i [0..<cnt] = Inr b'"
        using fill_run_spec [of "[0..<cnt]" i b] by blast
      moreover from fill_run_upt [OF this] have "same_shape b b'"
          "used_bits b' = used_bits b \<union> run_of i cnt" by simp_all
      ultimately show ?thesis
        using None False in_range u clear_run_find [OF js] "1.prems"(5)
        by (intro exI [of _ b'] exI [of _ i]) (auto simp: bitmap_alloc_from.simps [of b cnt i])
    next
      case (Some j)
      then have j: "j < cnt" "i + j \<in> used_bits b" by (auto simp: find_Some_iff)
      have cr: "clear_run b i cnt [0..<cnt] = Inr j" using Some clear_run_find [OF js] by simp
      from j "1.prems"(4,5) have k: "Suc (i + j) \<le> k"
        by (cases "i + j < k") (auto simp: run_clear_iff dest!: spec [of _ "i + j - k"])
      from "1.IH"(1) [OF in_range u _ cr _ "1.prems"(1,2,3,4) k] False j in_range u cr obtain b' i0 where
        *: "bitmap_alloc_from b cnt i = Inr (b', int i0)" "Suc (i + j) \<le> i0" "i0 \<le> k" "run_clear b i0 cnt"
        "\<forall>m. Suc (i + j) \<le> m \<and> m < i0 \<longrightarrow> \<not> run_clear b m cnt"
        "same_shape b b'" "used_bits b' = used_bits b \<union> run_of i0 cnt"
        by (auto simp: bitmap_alloc_from.simps [of b cnt i])
      moreover have "\<not> run_clear b m cnt" if "i \<le> m" "m \<le> i + j" for m
        using that j by (auto simp: run_clear_iff intro!: exI [of _ "i + j - m"])
      ultimately have "\<forall>m. i \<le> m \<and> m < i0 \<longrightarrow> \<not> run_clear b m cnt"
        by (metis not_less_eq_eq)
      with * show ?thesis by (intro exI [of _ b'] exI [of _ i0]) simp
    qed
  qed
qed

lemma free_run_spec:
  "\<lbrakk> distinct ks; \<forall>k \<in> set ks. idx + k \<in> used_bits b \<rbrakk> \<Longrightarrow>
   \<exists>b'. free_run b idx ks = Inr b' \<and> same_shape b b' \<and>
     used_bits b' = used_bits b - (\<lambda>k. idx + k) ` set ks"
proof (induction ks arbitrary: b)
  case Nil
  then show ?case by simp
next
  case (Cons k ks)
  then have k: "idx + k < 8 * length (bits b)" by (auto dest: used_bits_bound)
  then obtain b1 where b1: "bitmap_set b (idx + k) False = Inr b1" "same_shape b b1"
      "used_bits b1 = used_bits b - {idx + k}"
    using bitmap_set_used [of "idx + k" b False] by auto
  with Cons.prems have "\<forall>k \<in> set ks. idx + k \<in> used_bits b1" by auto
  then obtain b2 where "free_run b1 idx ks = Inr b2" "same_shape b1 b2"
      "used_bits b2 = used_bits b1 - (\<lambda>k. idx + k) ` set ks"
    using Cons.IH [of b1] Cons.prems by auto
  with b1 k Cons.prems show ?case by (auto simp: same_shape_def)
qed

lemma bitmap_free_used:
  "run_of idx cnt \<subseteq> used_bits b \<Longrightarrow>
   \<exists>b'. bitmap_free b idx cnt = Inr b' \<and> same_shape b b' \<and> used_bits b' = used_bits b - run_of idx cnt"
  using free_run_spec [of "[0..<cnt]" idx b] unfolding image_add_run bitmap_free_def
  by (auto simp: subset_iff run_of_iff)

section \<open>The interface its clients use\<close>

text \<open>
  Process ids, physical frames, disk blocks and inode numbers are all handed out through
  \<^verbatim>\<open>bitmap_alloc_a_bit\<close> and taken back by clearing one bit. The clients rely on these laws.
\<close>

locale index_pool =
  fixes acquire :: "'p \<Rightarrow> ('p \<times> int) res"
    and release :: "'p \<Rightarrow> nat \<Rightarrow> 'p res"
    and used :: "'p \<Rightarrow> nat set"
    and capacity :: "'p \<Rightarrow> nat"
    and ok :: "'p \<Rightarrow> bool"
  assumes acquire_full: "ok p \<Longrightarrow> {..<capacity p} \<subseteq> used p \<Longrightarrow> acquire p = Inr (p, -1)"
    and acquire_free: "ok p \<Longrightarrow> \<not> {..<capacity p} \<subseteq> used p \<Longrightarrow>
      \<exists>p' i. acquire p = Inr (p', int i) \<and> i < capacity p \<and> i \<notin> used p \<and> {..<i} \<subseteq> used p \<and>
        ok p' \<and> capacity p' = capacity p \<and> used p' = insert i (used p)"
    and release_used: "ok p \<Longrightarrow> i < capacity p \<Longrightarrow>
      \<exists>p'. release p i = Inr p' \<and> ok p' \<and> capacity p' = capacity p \<and> used p' = used p - {i}"
begin

lemma acquire_cases:
  assumes "ok p"
  obtains (full) "acquire p = Inr (p, -1)" "{..<capacity p} \<subseteq> used p"
  | (free) p' i where "acquire p = Inr (p', int i)" "i < capacity p" "i \<notin> used p"
      "{..<i} \<subseteq> used p" "ok p'" "capacity p' = capacity p" "used p' = insert i (used p)"
  using acquire_full [OF assms] acquire_free [OF assms] by blast

lemma acquire_index:
  assumes "ok p" "acquire p = Inr (p', r)" "0 \<le> r"
  shows "nat r < capacity p \<and> nat r \<notin> used p \<and> ok p' \<and> capacity p' = capacity p \<and>
    used p' = insert (nat r) (used p)"
  using assms(1) by (cases rule: acquire_cases) (use assms(2,3) in auto)

lemma acquire_minus_one:
  assumes "ok p" "acquire p = Inr (p', r)"
  shows "r = -1 \<longleftrightarrow> {..<capacity p} \<subseteq> used p"
  using assms(1) by (cases rule: acquire_cases) (use assms(2) in auto)

lemma two_acquires_distinct:
  assumes "ok p" "acquire p = Inr (p1, r1)" "0 \<le> r1" "acquire p1 = Inr (p2, r2)" "0 \<le> r2"
  shows "r1 \<noteq> r2"
  using acquire_index [OF assms(1-3)] acquire_index [of p1 p2 r2] assms(4,5) by auto

lemma release_undoes_acquire:
  assumes "ok p" "acquire p = Inr (p1, int i)"
  shows "\<exists>p2. release p1 i = Inr p2 \<and> used p2 = used p \<and> ok p2 \<and> capacity p2 = capacity p"
  using acquire_index [OF assms] release_used [of p1 i] by auto

end

interpretation bm: index_pool bitmap_alloc_a_bit "\<lambda>b i. bitmap_set b i False" used_bits
  "\<lambda>b. 8 * bytes_len b" bitmap_wf
proof unfold_locales
  fix p :: bitmap
  assume "bitmap_wf p" "{..<8 * bytes_len p} \<subseteq> used_bits p"
  then show "bitmap_alloc_a_bit p = Inr (p, -1)" by (rule bitmap_alloc_a_bit_full)
next
  fix p :: bitmap
  assume "bitmap_wf p" "\<not> {..<8 * bytes_len p} \<subseteq> used_bits p"
  then show "\<exists>p' i. bitmap_alloc_a_bit p = Inr (p', int i) \<and> i < 8 * bytes_len p \<and>
      i \<notin> used_bits p \<and> {..<i} \<subseteq> used_bits p \<and> bitmap_wf p' \<and>
      8 * bytes_len p' = 8 * bytes_len p \<and> used_bits p' = insert i (used_bits p)"
    using bitmap_alloc_a_bit_free same_shape_wf unfolding same_shape_def by metis
next
  fix p :: bitmap and i
  assume "bitmap_wf p" "i < 8 * bytes_len p"
  then show "\<exists>p'. bitmap_set p i False = Inr p' \<and> bitmap_wf p' \<and>
      8 * bytes_len p' = 8 * bytes_len p \<and> used_bits p' = used_bits p - {i}"
    using bitmap_set_used [of i p False] by (auto simp: bitmap_wf_def same_shape_def)
qed

lemma bitmap_alloc_from_skip:
  assumes "bitmap_wf b" "i \<le> k" "k \<le> 8 * bytes_len b" "{i..<k} \<subseteq> used_bits b"
  shows "bitmap_alloc_from b cnt i = bitmap_alloc_from b cnt k"
  using assms(2,4)
proof (induction i rule: inc_induct)
  case base
  then show ?case by simp
next
  case (step i)
  then have "bitmap_read b i = Inr True" "i < 8 * bytes_len b"
    using assms(1,3) by (auto simp: bitmap_wf_def)
  moreover have "{Suc i..<k} \<subseteq> used_bits b" using step.prems by auto
  ultimately show ?case using step.IH by (simp add: bitmap_alloc_from.simps [of b cnt i])
qed

section \<open>Properties\<close>

text \<open>
  C4. \<^verbatim>\<open>bitmap_alloc\<close> is a first-fit allocator: if some run of \<open>cnt\<close> clear bits lies inside the
  map, it returns the lowest index where such a run starts, marks exactly that run used, and
  leaves every other bit and the size of the map alone.
\<close>
theorem bitmap_alloc_first_fit:
  assumes "bitmap_wf b" "0 < cnt" "k + cnt \<le> 8 * bytes_len b" "run_clear b k cnt"
  shows "\<exists>b' i. bitmap_alloc b cnt = Inr (b', int i) \<and> i \<le> k \<and> run_clear b i cnt \<and>
    (\<forall>m < i. \<not> run_clear b m cnt) \<and> same_shape b b' \<and> used_bits b' = used_bits b \<union> run_of i cnt"
  using bitmap_alloc_from_complete [OF assms, of 0] by (auto simp: bitmap_alloc_def)

theorem bitmap_alloc_first_fit_witness:
  "\<exists>b' i. bitmap_alloc \<lparr>bytes_len = 1, bits = [0x13]\<rparr> 3 = Inr (b', int i) \<and> i \<le> 5 \<and>
     run_clear \<lparr>bytes_len = 1, bits = [0x13]\<rparr> i 3 \<and>
     (\<forall>m < i. \<not> run_clear \<lparr>bytes_len = 1, bits = [0x13]\<rparr> m 3) \<and>
     same_shape \<lparr>bytes_len = 1, bits = [0x13]\<rparr> b' \<and>
     used_bits b' = used_bits \<lparr>bytes_len = 1, bits = [0x13]\<rparr> \<union> run_of i 3"
  by (rule bitmap_alloc_first_fit) code_simp+

text \<open>
  \<^verbatim>\<open>bitmap_alloc\<close> checks the start of a run against the size of the map but not its end. When
  only the last bit of the map is clear and the bits stored behind the map happen to be clear,
  a request for several bits succeeds with that last index and sets bits outside the map.
\<close>
theorem bitmap_alloc_overruns:
  assumes "bitmap_wf b" "0 < bytes_len b" "1 < cnt" "k = 8 * bytes_len b - 1"
    and "{..<k} \<subseteq> used_bits b" "run_clear b k cnt" "k + cnt \<le> 8 * length (bits b)"
  shows "\<exists>b'. bitmap_alloc b cnt = Inr (b', int k) \<and>
    used_bits b' \<inter> {8 * bytes_len b..} = (used_bits b \<inter> {8 * bytes_len b..}) \<union> {Suc k..<k + cnt} \<and>
    8 * bytes_len b \<in> used_bits b' \<and> 8 * bytes_len b \<notin> used_bits b"
proof -
  have k: "k < 8 * bytes_len b" "8 * bytes_len b = Suc k" using assms(2,4) by auto
  have clear: "\<forall>j < cnt. k + j \<notin> used_bits b" using assms(6) by (simp add: run_clear_iff)
  have "k \<notin> used_bits b" using clear assms(3) by (auto dest: spec [of _ 0])
  moreover have "find (\<lambda>j. k + j \<in> used_bits b) [0..<cnt] = None"
    using clear by (auto simp: find_None_iff)
  then have "clear_run b k cnt [0..<cnt] = Inr cnt"
    using assms(7) by (simp add: clear_run_find)
  moreover obtain b' where b': "fill_run b k [0..<cnt] = Inr b'"
    using fill_run_spec [of "[0..<cnt]" k b] assms(7) by auto
  moreover have "bitmap_read b k = Inr (k \<in> used_bits b)"
    using assms(1) k by (intro bitmap_read_in) (simp add: bitmap_wf_def)
  ultimately have "bitmap_alloc_from b cnt k = Inr (b', int k)"
    using k(1) by (simp add: bitmap_alloc_from.simps [of b cnt k])
  then have run: "bitmap_alloc b cnt = Inr (b', int k)"
    using bitmap_alloc_from_skip [of b 0 k cnt] assms(1,5) k(1)
    by (simp add: bitmap_alloc_def atLeast0LessThan)
  have used: "used_bits b' = used_bits b \<union> run_of k cnt" using fill_run_upt [OF b'] by blast
  have out: "Suc k \<notin> used_bits b" using clear assms(3) by (auto dest: spec [of _ 1])
  have "Suc k \<in> used_bits b'" using used assms(3) by (simp add: run_of_def)
  moreover have "used_bits b' \<inter> {Suc k..} = (used_bits b \<inter> {Suc k..}) \<union> {Suc k..<k + cnt}"
  proof -
    have "run_of k cnt \<inter> {Suc k..} = {Suc k..<k + cnt}" by (auto simp: run_of_def)
    then show ?thesis unfolding used Int_Un_distrib2 by (rule arg_cong)
  qed
  ultimately show ?thesis unfolding k(2) using run out by (intro exI [of _ b'] conjI)
qed

theorem bitmap_alloc_overruns_witness:
  "\<exists>b'. bitmap_alloc \<lparr>bytes_len = 1, bits = [0x7F, 0]\<rparr> 2 = Inr (b', int 7) \<and>
     used_bits b' \<inter> {8 * bytes_len \<lparr>bytes_len = 1, bits = [0x7F, 0]\<rparr>..} =
       (used_bits \<lparr>bytes_len = 1, bits = [0x7F, 0]\<rparr> \<inter>
         {8 * bytes_len \<lparr>bytes_len = 1, bits = [0x7F, 0]\<rparr>..}) \<union> {Suc 7..<7 + 2} \<and>
     8 * bytes_len \<lparr>bytes_len = 1, bits = [0x7F, 0]\<rparr> \<in> used_bits b' \<and>
     8 * bytes_len \<lparr>bytes_len = 1, bits = [0x7F, 0]\<rparr> \<notin> used_bits \<lparr>bytes_len = 1, bits = [0x7F, 0]\<rparr>"
  by (rule bitmap_alloc_overruns) code_simp+

text \<open>
  Single-bit allocation and release are inverse: releasing the index \<^verbatim>\<open>bitmap_alloc_a_bit\<close>
  just returned gives back a bitmap with exactly the original used set.
\<close>
theorem bitmap_bit_roundtrip:
  assumes "bitmap_wf b" "bitmap_alloc_a_bit b = Inr (b1, int i)"
  shows "i < 8 * bytes_len b \<and> i \<notin> used_bits b \<and>
    (\<exists>b2. bitmap_set b1 i False = Inr b2 \<and> used_bits b2 = used_bits b)"
  using bm.release_undoes_acquire [OF assms] bm.acquire_index [OF assms] by auto

theorem bitmap_bit_roundtrip_witness:
  "0 < 8 * bytes_len \<lparr>bytes_len = 1, bits = [0xFE]\<rparr> \<and> 0 \<notin> used_bits \<lparr>bytes_len = 1, bits = [0xFE]\<rparr> \<and>
    (\<exists>b2. bitmap_set \<lparr>bytes_len = 1, bits = [0xFF]\<rparr> 0 False = Inr b2 \<and>
      used_bits b2 = used_bits \<lparr>bytes_len = 1, bits = [0xFE]\<rparr>)"
  by (rule bitmap_bit_roundtrip) code_simp+

end
