(* ===== verification/IList.thy ===== *)
theory IList
  imports Prelude
begin

text \<open>
  The intrusive doubly linked list of \<^verbatim>\<open>lib/kernel/list.c\<close>, over an explicit store from
  addresses to \<^verbatim>\<open>struct list_elem\<close>. A \<^verbatim>\<open>struct list\<close> is the pair of addresses of its two
  sentinel elements; elements live inside other structures (threads, memory blocks, inodes,
  partitions), which is why the store is shared and an operation on one element is visible in
  every list that contains it. An access through an address that holds no element is a \<open>Fault\<close>.
  Loops that follow \<^verbatim>\<open>next\<close> pointers need not end on an arbitrary store, so they are
  \<^theory_text>\<open>partial_function (option)\<close>: \<open>None\<close> is "does not return".
\<close>

section \<open>Data and operations\<close>

type_synonym addr = nat

definition NULL :: addr where "NULL = 0"

record list_elem =
  prev_of :: addr
  next_of :: addr

type_synonym store = "addr \<rightharpoonup> list_elem"

record klist =
  head_at :: addr
  tail_at :: addr

definition deref :: "store \<Rightarrow> addr \<Rightarrow> list_elem res" where
  "deref h a = (case h a of None \<Rightarrow> Inl (Fault ''list_elem'') | Some e \<Rightarrow> Inr e)"

definition set_prev :: "store \<Rightarrow> addr \<Rightarrow> addr \<Rightarrow> store res" where
  "set_prev h a v = rbind (deref h a) (\<lambda>e. Inr (h(a \<mapsto> e\<lparr>prev_of := v\<rparr>)))"

definition set_next :: "store \<Rightarrow> addr \<Rightarrow> addr \<Rightarrow> store res" where
  "set_next h a v = rbind (deref h a) (\<lambda>e. Inr (h(a \<mapsto> e\<lparr>next_of := v\<rparr>)))"

definition list_init :: "store \<Rightarrow> klist \<Rightarrow> store res" where
  "list_init h l =
     rbind (set_prev h (head_at l) NULL) (\<lambda>h.
     rbind (set_next h (head_at l) (tail_at l)) (\<lambda>h.
     rbind (set_prev h (tail_at l) (head_at l)) (\<lambda>h.
     set_next h (tail_at l) NULL)))"

definition list_insert :: "store \<Rightarrow> addr \<Rightarrow> addr \<Rightarrow> store res" where
  "list_insert h before elem =
     rbind (deref h before) (\<lambda>b.
     rbind (set_prev h elem (prev_of b)) (\<lambda>h.
     rbind (set_next h elem before) (\<lambda>h.
     rbind (deref h elem) (\<lambda>e.
     rbind (set_next h (prev_of e) elem) (\<lambda>h.
     set_prev h before elem)))))"

definition list_remove :: "store \<Rightarrow> addr \<Rightarrow> store res" where
  "list_remove h elem =
     rbind (deref h elem) (\<lambda>e.
     rbind (set_next h (prev_of e) (next_of e)) (\<lambda>h.
     rbind (deref h elem) (\<lambda>e.
     set_prev h (next_of e) (prev_of e))))"

partial_function (option) find_from :: "store \<Rightarrow> addr \<Rightarrow> addr \<Rightarrow> addr \<Rightarrow> bool res option" where
  "find_from h stop elem pelem =
     (if elem = stop then Some (Inr False)
      else if elem = pelem then Some (Inr True)
      else case h elem of
        None \<Rightarrow> Some (Inl (Fault ''list_elem''))
      | Some e \<Rightarrow> find_from h stop (next_of e) pelem)"

definition elem_find :: "store \<Rightarrow> klist \<Rightarrow> addr \<Rightarrow> bool res option" where
  "elem_find h l pelem =
     (case h (head_at l) of None \<Rightarrow> Some (Inl (Fault ''list_elem''))
      | Some e \<Rightarrow> find_from h (tail_at l) (next_of e) pelem)"

definition list_push :: "store \<Rightarrow> klist \<Rightarrow> addr \<Rightarrow> store res" where
  "list_push h l elem = rbind (deref h (head_at l)) (\<lambda>e. list_insert h (next_of e) elem)"

definition list_append :: "store \<Rightarrow> klist \<Rightarrow> addr \<Rightarrow> store res" where
  "list_append h l elem = list_insert h (tail_at l) elem"

definition list_pop :: "store \<Rightarrow> klist \<Rightarrow> (store \<times> addr) res" where
  "list_pop h l =
     rbind (deref h (head_at l)) (\<lambda>e.
     rbind (list_remove h (next_of e)) (\<lambda>h'. Inr (h', next_of e)))"

definition list_empty :: "store \<Rightarrow> klist \<Rightarrow> bool res" where
  "list_empty h l = rbind (deref h (head_at l)) (\<lambda>e. Inr (next_of e = tail_at l))"

text \<open>
  The callback of \<^verbatim>\<open>list_traversal\<close> may change other state (\<^verbatim>\<open>init_adopt_a_child\<close> does), so it
  takes and returns a state; it does not relink the list it walks.
\<close>

partial_function (option) traverse_from ::
  "store \<Rightarrow> addr \<Rightarrow> ('s \<Rightarrow> addr \<Rightarrow> bool \<times> 's) \<Rightarrow> 's \<Rightarrow> addr \<Rightarrow> (addr \<times> 's) res option" where
  "traverse_from h stop func s elem =
     (if elem = stop then Some (Inr (NULL, s))
      else if fst (func s elem) then Some (Inr (elem, snd (func s elem)))
      else case h elem of
        None \<Rightarrow> Some (Inl (Fault ''list_elem''))
      | Some e \<Rightarrow> traverse_from h stop func (snd (func s elem)) (next_of e))"

definition list_traversal ::
  "store \<Rightarrow> klist \<Rightarrow> ('s \<Rightarrow> addr \<Rightarrow> bool \<times> 's) \<Rightarrow> 's \<Rightarrow> (addr \<times> 's) res option" where
  "list_traversal h l func s =
     (case h (head_at l) of None \<Rightarrow> Some (Inl (Fault ''list_elem''))
      | Some e \<Rightarrow> traverse_from h (tail_at l) func s (next_of e))"

partial_function (option) len_from :: "store \<Rightarrow> addr \<Rightarrow> addr \<Rightarrow> nat \<Rightarrow> nat res option" where
  "len_from h stop elem len =
     (if elem = stop then Some (Inr len)
      else case h elem of
        None \<Rightarrow> Some (Inl (Fault ''list_elem''))
      | Some e \<Rightarrow> len_from h stop (next_of e) (Suc len))"

definition list_len :: "store \<Rightarrow> klist \<Rightarrow> nat res option" where
  "list_len h l =
     (case h (head_at l) of None \<Rightarrow> Some (Inl (Fault ''list_elem''))
      | Some e \<Rightarrow> len_from h (tail_at l) (next_of e) 0)"

section \<open>The abstraction: the sequence of elements\<close>

text \<open>
  \<open>links h p xs t\<close>: from element \<open>p\<close> the \<^verbatim>\<open>next\<close> pointers lead through \<open>xs\<close> to \<open>t\<close>, and the
  \<^verbatim>\<open>prev\<close> pointers lead back.
\<close>

definition nxt :: "store \<Rightarrow> addr \<Rightarrow> addr option" where
  "nxt h a = map_option next_of (h a)"

definition prv :: "store \<Rightarrow> addr \<Rightarrow> addr option" where
  "prv h a = map_option prev_of (h a)"

fun links :: "store \<Rightarrow> addr \<Rightarrow> addr list \<Rightarrow> addr \<Rightarrow> bool" where
  "links h p [] t = (nxt h p = Some t \<and> prv h t = Some p)"
| "links h p (x # xs) t = (nxt h p = Some x \<and> prv h x = Some p \<and> links h x xs t)"

definition dlist :: "store \<Rightarrow> klist \<Rightarrow> addr list \<Rightarrow> bool" where
  "dlist h l xs \<longleftrightarrow> links h (head_at l) xs (tail_at l) \<and> distinct (head_at l # tail_at l # xs)"

lemma links_append:
  "links h p (xs @ y # ys) t \<longleftrightarrow> links h p xs y \<and> links h y ys t"
  by (induction xs arbitrary: p) auto

lemma links_first: "links h p xs t \<Longrightarrow> nxt h p = Some (hd (xs @ [t]))"
  by (cases xs) auto

lemma links_last: "links h p xs t \<Longrightarrow> prv h t = Some (last (p # xs))"
  by (induction xs arbitrary: p) auto

lemma links_frame_next:
  "a \<notin> set (p # xs) \<Longrightarrow> h a = Some e \<Longrightarrow> links (h(a \<mapsto> e\<lparr>next_of := v\<rparr>)) p xs t = links h p xs t"
  by (induction xs arbitrary: p) (auto simp: nxt_def prv_def)

lemma links_frame_prev:
  "a \<notin> set (xs @ [t]) \<Longrightarrow> h a = Some e \<Longrightarrow> links (h(a \<mapsto> e\<lparr>prev_of := v\<rparr>)) p xs t = links h p xs t"
  by (induction xs arbitrary: p) (auto simp: nxt_def prv_def)

lemma links_frame_other:
  "a \<notin> set (p # xs @ [t]) \<Longrightarrow> links (h(a := e)) p xs t = links h p xs t"
  by (induction xs arbitrary: p) (auto simp: nxt_def prv_def)

lemma links_mem: "links h p xs t \<Longrightarrow> a \<in> set (p # xs @ [t]) \<Longrightarrow> \<exists>e. h a = Some e"
  by (induction xs arbitrary: p) (auto simp: nxt_def prv_def)

lemma links_cong:
  "\<lbrakk> links h p xs t; \<forall>a \<in> set (p # xs). nxt h' a = nxt h a; \<forall>a \<in> set (xs @ [t]). prv h' a = prv h a \<rbrakk>
   \<Longrightarrow> links h' p xs t"
  by (induction xs arbitrary: p) auto

lemma links_new_end:
  "\<lbrakk> links h p xs t; distinct (p # xs);
     \<forall>a \<in> set (p # xs) - {last (p # xs)}. nxt h' a = nxt h a; \<forall>a \<in> set xs. prv h' a = prv h a;
     nxt h' (last (p # xs)) = Some e; prv h' e = Some (last (p # xs)) \<rbrakk> \<Longrightarrow> links h' p xs e"
  by (induction xs arbitrary: p) (auto split: if_splits, metis Diff_iff insertI1 last_in_set singletonD)

lemma nxt_upd [simp]:
  "nxt (h(a \<mapsto> e)) b = (if b = a then Some (next_of e) else nxt h b)"
  by (simp add: nxt_def)

lemma prv_upd [simp]:
  "prv (h(a \<mapsto> e)) b = (if b = a then Some (prev_of e) else prv h b)"
  by (simp add: prv_def)

lemma deref_Inr [simp]: "h a = Some e \<Longrightarrow> deref h a = Inr e"
  by (simp add: deref_def)

lemma nxt_SomeD: "nxt h a = Some b \<Longrightarrow> \<exists>e. h a = Some e \<and> next_of e = b"
  by (auto simp: nxt_def)

lemma prv_SomeD: "prv h a = Some b \<Longrightarrow> \<exists>e. h a = Some e \<and> prev_of e = b"
  by (auto simp: prv_def)

section \<open>Correctness of the operations\<close>

lemma list_init_dlist:
  assumes "head_at l \<noteq> tail_at l" "h (head_at l) \<noteq> None" "h (tail_at l) \<noteq> None"
  shows "\<exists>h'. list_init h l = Inr h' \<and> dlist h' l [] \<and>
    (\<forall>a. a \<noteq> head_at l \<and> a \<noteq> tail_at l \<longrightarrow> h' a = h a)"
proof -
  from assms obtain e f where "h (head_at l) = Some e" "h (tail_at l) = Some f" by auto
  with assms(1) show ?thesis
    by (auto simp: list_init_def set_prev_def set_next_def dlist_def)
qed

lemma list_insert_links:
  assumes "links h p0 (xs @ ys) t" "distinct (p0 # t # xs @ ys)" "elem \<notin> set (p0 # t # xs @ ys)"
    and "h elem = Some e0" "before = hd (ys @ [t])"
  shows "\<exists>h'. list_insert h before elem = Inr h' \<and> links h' p0 (xs @ elem # ys) t \<and>
    (\<forall>a. a \<noteq> elem \<and> a \<noteq> last (p0 # xs) \<and> a \<noteq> before \<longrightarrow> h' a = h a) \<and> dom h' = dom h"
proof -
  let ?p = "last (p0 # xs)"
  have to_before: "links h p0 xs before"
    using assms(1,5) by (cases ys) (auto simp: links_append)
  have p: "?p \<in> set (p0 # xs)" by (metis last_in_set list.distinct(1))
  have b: "before \<in> set (t # ys)" using assms(5) by (cases ys) auto
  have neq: "?p \<noteq> before" "elem \<noteq> ?p" "elem \<noteq> before"
    using p b assms(2,3) by auto
  obtain eb where eb: "h before = Some eb" "prev_of eb = ?p"
    using links_last [OF to_before] by (blast dest: prv_SomeD)
  obtain ep where ep: "h ?p = Some ep"
    using links_mem [OF to_before, of ?p] p by auto
  have prv_p: "prv h ?p = Some (prev_of ep)" and nxt_b: "nxt h before = Some (next_of eb)"
    using ep eb by (simp_all add: prv_def nxt_def)
  let ?h = "h(elem \<mapsto> e0\<lparr>prev_of := ?p, next_of := before\<rparr>, ?p \<mapsto> ep\<lparr>next_of := elem\<rparr>,
              before \<mapsto> eb\<lparr>prev_of := elem\<rparr>)"
  have run: "list_insert h before elem = Inr ?h"
    using neq eb ep assms(4) by (simp add: list_insert_def set_prev_def set_next_def)
  have "links ?h p0 xs elem"
    by (rule links_new_end [OF to_before]) (use assms(2,3) neq b prv_p nxt_b in auto)
  moreover have "links ?h elem ys t"
  proof (cases ys)
    case Nil
    with assms(5) neq show ?thesis by simp
  next
    case (Cons y ys')
    with assms(1) have "links h y ys' t" by (simp add: links_append)
    then have "links ?h y ys' t"
      by (rule links_cong) (use Cons assms(2,3,5) neq p prv_p nxt_b in auto)
    with Cons assms(5) neq show ?thesis by simp
  qed
  ultimately have "links ?h p0 (xs @ elem # ys) t" by (simp add: links_append)
  with run eb(1) ep assms(4) show ?thesis by auto
qed

lemma list_remove_links:
  assumes "links h p0 (xs @ elem # ys) t" "distinct (p0 # t # xs @ elem # ys)"
  shows "\<exists>h'. list_remove h elem = Inr h' \<and> links h' p0 (xs @ ys) t \<and>
    (\<forall>a. a \<noteq> last (p0 # xs) \<and> a \<noteq> hd (ys @ [t]) \<longrightarrow> h' a = h a) \<and> dom h' = dom h"
proof -
  let ?p = "last (p0 # xs)" and ?b = "hd (ys @ [t])"
  have to_elem: "links h p0 xs elem" and from_elem: "links h elem ys t"
    using assms(1) by (simp_all add: links_append)
  have p: "?p \<in> set (p0 # xs)" by (metis last_in_set list.distinct(1))
  have b: "?b \<in> set (t # ys)" by (cases ys) auto
  have neq: "?p \<noteq> ?b" "elem \<noteq> ?p" "elem \<noteq> ?b" using p b assms(2) by auto
  obtain e where e: "h elem = Some e" "prev_of e = ?p" "next_of e = ?b"
    using links_last [OF to_elem] links_first [OF from_elem] by (auto dest!: prv_SomeD nxt_SomeD)
  obtain ep where ep: "h ?p = Some ep" using links_mem [OF to_elem, of ?p] p by auto
  obtain eb where eb: "h ?b = Some eb" using links_mem [OF from_elem, of ?b] b by auto
  have prv_p: "prv h ?p = Some (prev_of ep)" and nxt_b: "nxt h ?b = Some (next_of eb)"
    using ep eb by (simp_all add: prv_def nxt_def)
  let ?h = "h(?p \<mapsto> ep\<lparr>next_of := ?b\<rparr>, ?b \<mapsto> eb\<lparr>prev_of := ?p\<rparr>)"
  have run: "list_remove h elem = Inr ?h"
    using neq e ep eb by (simp add: list_remove_def set_prev_def set_next_def)
  have new: "links ?h p0 xs ?b"
    by (rule links_new_end [OF to_elem]) (use assms(2) neq b prv_p nxt_b in auto)
  have "links ?h p0 (xs @ ys) t"
  proof (cases ys)
    case Nil
    with new show ?thesis by simp
  next
    case (Cons y ys')
    with from_elem have "links h y ys' t" by simp
    then have "links ?h y ys' t"
      by (rule links_cong) (use Cons assms(2) neq p prv_p nxt_b in auto)
    with new Cons show ?thesis by (simp add: links_append)
  qed
  with run ep eb show ?thesis by auto
qed

lemma find_from_links:
  "\<lbrakk> links h p xs stop; stop \<notin> set xs \<rbrakk> \<Longrightarrow>
   find_from h stop (hd (xs @ [stop])) e = Some (Inr (e \<in> set xs))"
proof (induction xs arbitrary: p)
  case Nil
  then show ?case by (simp add: find_from.simps)
next
  case (Cons x xs)
  then have rest: "links h x xs stop" by simp
  then obtain ex where "h x = Some ex" "next_of ex = hd (xs @ [stop])"
    using links_first by (blast dest: nxt_SomeD)
  with Cons.IH [OF rest] Cons.prems(2) show ?case
    by (auto simp: find_from.simps [of h stop x])
qed

lemma len_from_links:
  "\<lbrakk> links h p xs stop; stop \<notin> set xs \<rbrakk> \<Longrightarrow>
   len_from h stop (hd (xs @ [stop])) n = Some (Inr (n + length xs))"
proof (induction xs arbitrary: p n)
  case Nil
  then show ?case by (simp add: len_from.simps)
next
  case (Cons x xs)
  then have rest: "links h x xs stop" by simp
  then obtain ex where "h x = Some ex" "next_of ex = hd (xs @ [stop])"
    using links_first by (blast dest: nxt_SomeD)
  with Cons.IH [OF rest] Cons.prems(2) show ?case
    by (auto simp: len_from.simps [of h stop x])
qed

text \<open>The walk over an abstract sequence that \<^verbatim>\<open>list_traversal\<close> performs.\<close>

fun walk :: "('s \<Rightarrow> addr \<Rightarrow> bool \<times> 's) \<Rightarrow> 's \<Rightarrow> addr list \<Rightarrow> addr \<times> 's" where
  "walk func s [] = (NULL, s)"
| "walk func s (x # xs) =
     (if fst (func s x) then (x, snd (func s x)) else walk func (snd (func s x)) xs)"

lemma traverse_from_links:
  "\<lbrakk> links h p xs stop; stop \<notin> set xs \<rbrakk> \<Longrightarrow>
   traverse_from h stop func s (hd (xs @ [stop])) = Some (Inr (walk func s xs))"
proof (induction xs arbitrary: p s)
  case Nil
  then show ?case by (simp add: traverse_from.simps)
next
  case (Cons x xs)
  then have rest: "links h x xs stop" by simp
  then obtain ex where "h x = Some ex" "next_of ex = hd (xs @ [stop])"
    using links_first by (blast dest: nxt_SomeD)
  with Cons.IH [OF rest] Cons.prems(2) show ?case
    by (auto simp: traverse_from.simps [of h stop func s x])
qed

section \<open>The operations on a well-formed list\<close>

definition linkable :: "store \<Rightarrow> klist \<Rightarrow> addr \<Rightarrow> bool" where
  "linkable h l e \<longleftrightarrow> h e \<noteq> None \<and> e \<noteq> head_at l \<and> e \<noteq> tail_at l"

lemma dlist_distinct: "dlist h l xs \<Longrightarrow> distinct xs"
  by (simp add: dlist_def)

lemma dlist_mem: "dlist h l xs \<Longrightarrow> a \<in> set xs \<Longrightarrow> \<exists>e. h a = Some e"
  unfolding dlist_def by (metis Un_iff insert_iff links_mem list.set(2) set_append)

lemma dlist_head: "dlist h l xs \<Longrightarrow> \<exists>e. h (head_at l) = Some e \<and> next_of e = hd (xs @ [tail_at l])"
  using links_first by (fastforce simp: dlist_def dest: nxt_SomeD)

lemma list_insert_dlist:
  assumes "dlist h l (xs @ ys)" "linkable h l e" "e \<notin> set (xs @ ys)" "before = hd (ys @ [tail_at l])"
  shows "\<exists>h'. list_insert h before e = Inr h' \<and> dlist h' l (xs @ e # ys) \<and> dom h' = dom h"
proof -
  from assms(2) obtain e0 where e0: "h e = Some e0" by (auto simp: linkable_def)
  have "links h (head_at l) (xs @ ys) (tail_at l)"
    "distinct (head_at l # tail_at l # xs @ ys)" "e \<notin> set (head_at l # tail_at l # xs @ ys)"
    using assms(1,2,3) by (auto simp: dlist_def linkable_def)
  from list_insert_links [OF this e0 assms(4)] assms(1,2,3) show ?thesis
    by (auto simp: dlist_def linkable_def)
qed

lemma list_push_dlist:
  assumes "dlist h l xs" "linkable h l e" "e \<notin> set xs"
  shows "\<exists>h'. list_push h l e = Inr h' \<and> dlist h' l (e # xs) \<and> dom h' = dom h"
  using list_insert_dlist [of h l "[]" xs e "hd (xs @ [tail_at l])"] dlist_head [OF assms(1)] assms
  by (auto simp: list_push_def)

lemma list_append_dlist:
  assumes "dlist h l xs" "linkable h l e" "e \<notin> set xs"
  shows "\<exists>h'. list_append h l e = Inr h' \<and> dlist h' l (xs @ [e]) \<and> dom h' = dom h"
  using list_insert_dlist [of h l xs "[]" e "tail_at l"] assms
  by (auto simp: list_append_def)

lemma list_remove_dlist:
  assumes "dlist h l (xs @ e # ys)"
  shows "\<exists>h'. list_remove h e = Inr h' \<and> dlist h' l (xs @ ys) \<and> dom h' = dom h"
  using list_remove_links [of h "head_at l" xs e ys "tail_at l"] assms
  by (auto simp: dlist_def)

lemma list_pop_dlist:
  assumes "dlist h l (x # xs)"
  shows "\<exists>h'. list_pop h l = Inr (h', x) \<and> dlist h' l xs \<and> dom h' = dom h"
  using list_remove_dlist [of h l "[]" x xs] dlist_head [OF assms] assms
  by (auto simp: list_pop_def)

lemma list_empty_dlist: "dlist h l xs \<Longrightarrow> list_empty h l = Inr (xs = [])"
  using dlist_head [of h l xs] by (cases xs) (auto simp: list_empty_def dlist_def)

lemma elem_find_dlist: "dlist h l xs \<Longrightarrow> elem_find h l e = Some (Inr (e \<in> set xs))"
  using dlist_head [of h l xs] find_from_links [of h "head_at l" xs "tail_at l" e]
  by (auto simp: elem_find_def dlist_def)

lemma list_len_dlist: "dlist h l xs \<Longrightarrow> list_len h l = Some (Inr (length xs))"
  using dlist_head [of h l xs] len_from_links [of h "head_at l" xs "tail_at l" 0]
  by (auto simp: list_len_def dlist_def)

lemma list_traversal_dlist: "dlist h l xs \<Longrightarrow> list_traversal h l func s = Some (Inr (walk func s xs))"
  using dlist_head [of h l xs] traverse_from_links [of h "head_at l" xs "tail_at l" func s]
  by (auto simp: list_traversal_def dlist_def)

section \<open>The interface its clients use\<close>

text \<open>
  What the scheduler, the semaphores, the block lists of the heap and the open-inode list rely
  on: each operation acts on the sequence of elements. The other theories keep such a list as
  its sequence, which the lemma \<open>exec_sim\<close> of this locale justifies for any run of operations.
\<close>

datatype qop = QPush addr | QAppend addr | QPop | QRemove addr

fun q_enabled :: "addr list \<Rightarrow> qop \<Rightarrow> bool" where
  "q_enabled xs (QPush e) = (e \<notin> set xs)"
| "q_enabled xs (QAppend e) = (e \<notin> set xs)"
| "q_enabled xs QPop = (xs \<noteq> [])"
| "q_enabled xs (QRemove e) = (e \<in> set xs)"

fun q_apply :: "addr list \<Rightarrow> qop \<Rightarrow> addr list" where
  "q_apply xs (QPush e) = e # xs"
| "q_apply xs (QAppend e) = xs @ [e]"
| "q_apply xs QPop = tl xs"
| "q_apply xs (QRemove e) = remove1 e xs"

fun q_run :: "addr list \<Rightarrow> qop list \<Rightarrow> addr list" where
  "q_run xs [] = xs"
| "q_run xs (op # ops) = q_run (q_apply xs op) ops"

fun q_legal :: "addr list \<Rightarrow> qop list \<Rightarrow> bool" where
  "q_legal xs [] = True"
| "q_legal xs (op # ops) = (q_enabled xs op \<and> q_legal (q_apply xs op) ops)"

fun q_elems :: "qop list \<Rightarrow> addr set" where
  "q_elems [] = {}"
| "q_elems (QPush e # ops) = insert e (q_elems ops)"
| "q_elems (QAppend e # ops) = insert e (q_elems ops)"
| "q_elems (_ # ops) = q_elems ops"

fun list_exec :: "store \<Rightarrow> klist \<Rightarrow> qop \<Rightarrow> store res" where
  "list_exec h l (QPush e) = list_push h l e"
| "list_exec h l (QAppend e) = list_append h l e"
| "list_exec h l QPop = rbind (list_pop h l) (\<lambda>(h', _). Inr h')"
| "list_exec h l (QRemove e) = list_remove h e"

fun list_run :: "store \<Rightarrow> klist \<Rightarrow> qop list \<Rightarrow> store res" where
  "list_run h l [] = Inr h"
| "list_run h l (op # ops) = rbind (list_exec h l op) (\<lambda>h'. list_run h' l ops)"

locale elem_queue =
  fixes holds :: "'h \<Rightarrow> 'l \<Rightarrow> addr list \<Rightarrow> bool"
    and fresh :: "'h \<Rightarrow> 'l \<Rightarrow> addr \<Rightarrow> bool"
    and exec :: "'h \<Rightarrow> 'l \<Rightarrow> qop \<Rightarrow> 'h res"
    and pop :: "'h \<Rightarrow> 'l \<Rightarrow> ('h \<times> addr) res"
  assumes exec_ok: "holds h l xs \<Longrightarrow> q_enabled xs op \<Longrightarrow> \<forall>e \<in> q_elems [op]. fresh h l e \<Longrightarrow>
      \<exists>h'. exec h l op = Inr h' \<and> holds h' l (q_apply xs op) \<and> (\<forall>e. fresh h' l e = fresh h l e)"
    and pop_first: "holds h l (x # xs) \<Longrightarrow>
      \<exists>h'. pop h l = Inr (h', x) \<and> holds h' l xs \<and> (\<forall>e. fresh h' l e = fresh h l e)"
begin

fun exec_all :: "'h \<Rightarrow> 'l \<Rightarrow> qop list \<Rightarrow> 'h res" where
  "exec_all h l [] = Inr h"
| "exec_all h l (op # ops) = rbind (exec h l op) (\<lambda>h'. exec_all h' l ops)"

lemma q_elems_Cons: "q_elems (op # ops) = q_elems [op] \<union> q_elems ops"
  by (cases op) auto

lemma exec_sim:
  "\<lbrakk> holds h l xs; q_legal xs ops; \<forall>e \<in> q_elems ops. fresh h l e \<rbrakk> \<Longrightarrow>
   \<exists>h'. exec_all h l ops = Inr h' \<and> holds h' l (q_run xs ops) \<and> (\<forall>e. fresh h' l e = fresh h l e)"
proof (induction ops arbitrary: h xs)
  case Nil
  then show ?case by auto
next
  case (Cons op ops)
  from Cons.prems have "q_enabled xs op" "\<forall>e \<in> q_elems [op]. fresh h l e" "\<forall>e \<in> q_elems ops. fresh h l e"
    using q_elems_Cons [of op ops] by auto
  with Cons.prems(1) obtain h1 where "exec h l op = Inr h1" "holds h1 l (q_apply xs op)"
      "\<forall>e. fresh h1 l e = fresh h l e"
    using exec_ok by blast
  with Cons.IH [of h1 "q_apply xs op"] Cons.prems show ?case
    using \<open>\<forall>e \<in> q_elems ops. fresh h l e\<close> by auto
qed

text \<open>First in, first out: elements appended to an empty list are popped in the same order.\<close>

lemma q_run_append: "q_run xs (map QAppend es) = xs @ es"
  by (induction es arbitrary: xs) auto

lemma q_legal_append: "distinct es \<Longrightarrow> set xs \<inter> set es = {} \<Longrightarrow> q_legal xs (map QAppend es)"
  by (induction es arbitrary: xs) auto

lemma q_elems_append: "q_elems (map QAppend es) = set es"
  by (induction es) auto

lemma fifo:
  assumes "holds h l []" "distinct (e # es)" "\<forall>x \<in> set (e # es). fresh h l x"
  shows "\<exists>h1 h2. exec_all h l (map QAppend (e # es)) = Inr h1 \<and> pop h1 l = Inr (h2, e) \<and> holds h2 l es"
proof -
  have "q_legal [] (map QAppend (e # es))" using assms(2) by (intro q_legal_append) auto
  moreover have "\<forall>x \<in> q_elems (map QAppend (e # es)). fresh h l x"
    using assms(3) by (simp only: q_elems_append)
  ultimately obtain h1 where "exec_all h l (map QAppend (e # es)) = Inr h1"
      "holds h1 l (q_run [] (map QAppend (e # es)))"
    using exec_sim [OF assms(1)] by blast
  then show ?thesis using pop_first [of h1 l e es] by (simp only: q_run_append append_Nil) blast
qed

end

lemma list_exec_ok:
  assumes "dlist h l xs" "q_enabled xs op" "\<forall>e \<in> q_elems [op]. linkable h l e"
  shows "\<exists>h'. list_exec h l op = Inr h' \<and> dlist h' l (q_apply xs op) \<and> dom h' = dom h"
proof (cases op)
  case (QPush e)
  with assms list_push_dlist [of h l xs e] show ?thesis by auto
next
  case (QAppend e)
  with assms list_append_dlist [of h l xs e] show ?thesis by auto
next
  case QPop
  with assms show ?thesis by (cases xs) (auto dest!: list_pop_dlist)
next
  case (QRemove e)
  with assms(2) obtain ys zs where "xs = ys @ e # zs" "e \<notin> set ys"
    by (auto dest: split_list_first)
  with assms(1) QRemove list_remove_dlist [of h l ys e zs] show ?thesis
    by (simp add: remove1_append)
qed

lemma linkable_dom: "dom h' = dom h \<Longrightarrow> linkable h' l e = linkable h l e"
  by (auto simp: linkable_def dom_def)

interpretation kq: elem_queue dlist linkable list_exec list_pop
proof unfold_locales
  fix h l xs op
  assume "dlist h l xs" "q_enabled xs op" "\<forall>e \<in> q_elems [op]. linkable h l e"
  then show "\<exists>h'. list_exec h l op = Inr h' \<and> dlist h' l (q_apply xs op) \<and>
      (\<forall>e. linkable h' l e = linkable h l e)"
    using list_exec_ok linkable_dom by metis
next
  fix h l x xs
  assume "dlist h l (x # xs)"
  then show "\<exists>h'. list_pop h l = Inr (h', x) \<and> dlist h' l xs \<and> (\<forall>e. linkable h' l e = linkable h l e)"
    using list_pop_dlist linkable_dom by metis
qed

lemma list_run_exec_all: "list_run h l ops = kq.exec_all h l ops"
  by (induction ops arbitrary: h) auto

section \<open>Properties\<close>

text \<open>A store for the witnesses: a list with sentinels 1 and 2, and three elements 10, 11, 12.\<close>

definition demo_store :: store where
  "demo_store = [1 \<mapsto> \<lparr>prev_of = 0, next_of = 2\<rparr>, 2 \<mapsto> \<lparr>prev_of = 1, next_of = 0\<rparr>,
     10 \<mapsto> \<lparr>prev_of = 0, next_of = 0\<rparr>, 11 \<mapsto> \<lparr>prev_of = 0, next_of = 0\<rparr>, 12 \<mapsto> \<lparr>prev_of = 0, next_of = 0\<rparr>]"

definition demo_klist :: klist where
  "demo_klist = \<lparr>head_at = 1, tail_at = 2\<rparr>"

lemma demo_dlist: "dlist demo_store demo_klist []"
  by (simp add: dlist_def demo_store_def demo_klist_def nxt_def prv_def)

text \<open>
  C7. The pointer code refines sequences: any legal run of \<^verbatim>\<open>list_push\<close>, \<^verbatim>\<open>list_append\<close>,
  \<^verbatim>\<open>list_pop\<close> and \<^verbatim>\<open>list_remove\<close> on a well-formed list, over elements that are allocated and
  not sentinels, succeeds and leaves a well-formed list whose sequence is the one the abstract
  operations compute.
\<close>
theorem list_ops_refine_sequences:
  assumes "dlist h l xs" "q_legal xs ops" "\<forall>e \<in> q_elems ops. linkable h l e"
  shows "\<exists>h'. list_run h l ops = Inr h' \<and> dlist h' l (q_run xs ops)"
  using kq.exec_sim [OF assms] by (auto simp: list_run_exec_all)

theorem list_ops_refine_sequences_witness:
  "\<exists>h'. list_run demo_store demo_klist [QAppend 10, QPush 11, QAppend 12, QRemove 10, QPop] = Inr h' \<and>
     dlist h' demo_klist (q_run [] [QAppend 10, QPush 11, QAppend 12, QRemove 10, QPop])"
  by (rule list_ops_refine_sequences [OF demo_dlist])
     (simp_all add: linkable_def demo_store_def demo_klist_def)

text \<open>
  C8. The loops of \<^verbatim>\<open>elem_find\<close>, \<^verbatim>\<open>list_len\<close> and \<^verbatim>\<open>list_traversal\<close> return on every well-formed
  list: membership, the length, and the first element at which the callback answers true, with
  the callback run once on each element before it in order.
\<close>
theorem list_searches_return:
  assumes "dlist h l xs"
  shows "elem_find h l e = Some (Inr (e \<in> set xs)) \<and> list_len h l = Some (Inr (length xs)) \<and>
    list_empty h l = Inr (xs = []) \<and> list_traversal h l func s = Some (Inr (walk func s xs))"
  by (simp add: elem_find_dlist [OF assms] list_len_dlist [OF assms] list_empty_dlist [OF assms]
      list_traversal_dlist [OF assms])

theorem list_searches_return_witness:
  "elem_find demo_store demo_klist 10 = Some (Inr (10 \<in> set ([] :: addr list))) \<and>
   list_len demo_store demo_klist = Some (Inr (length ([] :: addr list))) \<and>
   list_empty demo_store demo_klist = Inr (([] :: addr list) = []) \<and>
   list_traversal demo_store demo_klist (\<lambda>n a. (a = 10, n + 1)) (0 :: nat) =
     Some (Inr (walk (\<lambda>n a. (a = 10, n + 1)) 0 []))"
  by (rule list_searches_return [OF demo_dlist])

end
