(* ===== verification/Sched.thy ===== *)
theory Sched
  imports Bitmap
begin

text \<open>
  The scheduler of \<^verbatim>\<open>thread/thread.c\<close>, the interrupt flag of \<^verbatim>\<open>kernel/intr.c\<close> and the timer
  tick of \<^verbatim>\<open>device/timer.c\<close>. A thread is named by the address of its \<^verbatim>\<open>task_struct\<close> page (a
  \<open>tid\<close>). The two list links of a thread are \<open>General t\<close> (\<^verbatim>\<open>general_tag\<close>, in the ready list or
  in a semaphore's waiters) and \<open>AllTag t\<close> (\<^verbatim>\<open>all_list_tag\<close>); lists are kept as the sequence of
  their links, as theory \<open>IList\<close> justifies. \<^verbatim>\<open>switch_to\<close> (assembly) is the change of
  \<open>current\<close>: what a function does after a call that switches away is a separate definition,
  executed when the thread is current again.
\<close>

section \<open>Data\<close>

datatype intr_stat = intr_off | intr_on

datatype task_stat =
  TASK_RUNNING | TASK_READY | TASK_BLOCKED | TASK_HANGING | TASK_WAITING | TASK_DIED

type_synonym tid = nat
type_synonym pid_t = "16 word"

datatype tag = General tid | AllTag tid

record task =
  name :: string
  stat :: task_stat
  prio :: byte
  ticks :: byte
  pid :: pid_t
  parent_pid :: pid_t
  pml4 :: "nat option"
  exit_status :: byte
  fd_table :: "int list"
  cwd_i_no :: nat
  istack_magic :: u64
  stack_magic :: u64

definition STACK_MAGIC :: u64 where "STACK_MAGIC = 0x474d575a5a46594c"

definition MAX_FILES_OPEN_PER_PROC :: nat where "MAX_FILES_OPEN_PER_PROC = 8"

definition TASK_NAME_LEN :: nat where "TASK_NAME_LEN = 20"

text \<open>
  Semaphores and locks (\<^verbatim>\<open>thread/sync.h\<close>) are addressed by name: every lock has a semaphore,
  and each disk channel has one of its own.
\<close>

type_synonym lock_id = nat

datatype sema_id = LockSema lock_id | DiskDone nat

record semaphore =
  sval :: byte
  waiters :: "tag list"

record klock =
  holder :: "tid option"
  holder_repeat_nr :: u64

record sched =
  tasks :: "tid \<rightharpoonup> task"
  current :: tid
  main_thread :: tid
  idle_thread :: tid
  init_proc :: tid
  all_threads_list :: "tag list"
  ready_threads_list :: "tag list"
  intr :: intr_stat
  ist2 :: tid \<comment> \<open>the thread whose interrupt stack \<^verbatim>\<open>tss.ist2\<close> points to\<close>
  timer_ticks :: u64
  semas :: "sema_id \<Rightarrow> semaphore"
  locks :: "lock_id \<Rightarrow> klock"
  pid_bitmap :: bitmap
  pages_freed :: "nat list" \<comment> \<open>kernel pages handed to \<^verbatim>\<open>free_pages\<close>, latest first\<close>

section \<open>Interrupt flag\<close>

definition set_intr_stat :: "intr_stat \<Rightarrow> 'a sched_scheme \<Rightarrow> intr_stat \<times> 'a sched_scheme" where
  "set_intr_stat new s =
     (let old = intr s
      in if old \<noteq> new then (case new of intr_off \<Rightarrow> (old, s\<lparr>intr := intr_off\<rparr>)
                                | intr_on \<Rightarrow> (old, s\<lparr>intr := intr_on\<rparr>))
         else (old, s))"

lemma set_intr_stat_simp [simp]: "set_intr_stat new s = (intr s, s\<lparr>intr := new\<rparr>)"
  by (cases new; cases "intr s") (simp_all add: set_intr_stat_def)

section \<open>Threads\<close>

definition the_task :: "'a sched_scheme \<Rightarrow> tid \<Rightarrow> task res" where
  "the_task s t = (case tasks s t of None \<Rightarrow> Inl (Fault ''task_struct'') | Some k \<Rightarrow> Inr k)"

definition put_task :: "tid \<Rightarrow> task \<Rightarrow> 'a sched_scheme \<Rightarrow> 'a sched_scheme" where
  "put_task t k s = s\<lparr>tasks := (tasks s)(t \<mapsto> k)\<rparr>"

definition running_thread :: "'a sched_scheme \<Rightarrow> tid" where
  "running_thread s = current s"

definition suspendable :: "task_stat \<Rightarrow> bool" where
  "suspendable st \<longleftrightarrow> st = TASK_BLOCKED \<or> st = TASK_HANGING \<or> st = TASK_WAITING"

definition thread_unblock :: "tid \<Rightarrow> 'a sched_scheme \<Rightarrow> 'a sched_scheme res" where
  "thread_unblock pthread s =
     rbind (the_task s pthread) (\<lambda>k.
     rbind (kassert (suspendable (stat k)) ''pthread->stat'') (\<lambda>_.
     let (old_stat, s) = set_intr_stat intr_off s
     in rbind (kassert (General pthread \<notin> set (ready_threads_list s)) ''!elem_find(&ready_threads_list)'') (\<lambda>_.
        let s = s\<lparr>ready_threads_list := General pthread # ready_threads_list s\<rparr>;
            s = put_task pthread (k\<lparr>stat := TASK_READY\<rparr>) s
        in Inr (snd (set_intr_stat old_stat s)))))"

text \<open>
  The three parts of \<^verbatim>\<open>schedule\<close>: put a still running thread back at the tail of the ready list,
  wake the idle thread if nothing is ready, switch to the head of the ready list.
\<close>

definition requeue_current :: "'a sched_scheme \<Rightarrow> 'a sched_scheme res" where
  "requeue_current s =
     rbind (the_task s (current s)) (\<lambda>cur.
       if stat cur = TASK_RUNNING then
         rbind (kassert (General (current s) \<notin> set (ready_threads_list s)) ''!elem_find(&ready_threads_list)'') (\<lambda>_.
         Inr (put_task (current s) (cur\<lparr>stat := TASK_READY, ticks := prio cur\<rparr>)
               (s\<lparr>ready_threads_list := ready_threads_list s @ [General (current s)]\<rparr>)))
       else Inr s)"

definition switch_to_next :: "'a sched_scheme \<Rightarrow> 'a sched_scheme res" where
  "switch_to_next s =
     (case ready_threads_list s of
        General nxt # rest \<Rightarrow>
          rbind (the_task s nxt) (\<lambda>k.
            Inr (put_task nxt (k\<lparr>stat := TASK_RUNNING\<rparr>)
              (s\<lparr>ready_threads_list := rest, current := nxt, ist2 := nxt\<rparr>)))
      | _ \<Rightarrow> Inl (Fault ''elem2entry''))"

definition schedule :: "'a sched_scheme \<Rightarrow> 'a sched_scheme res" where
  "schedule s =
     rbind (kassert (intr s = intr_off) ''intr_off == get_intr_stat()'') (\<lambda>_.
     rbind (requeue_current s) (\<lambda>s.
     rbind (if ready_threads_list s = [] then thread_unblock (idle_thread s) s else Inr s)
       switch_to_next))"

text \<open>
  \<^verbatim>\<open>thread_block\<close> up to the switch: the result also carries the local variable \<^verbatim>\<open>old_stat\<close>, which
  the blocked thread restores when it runs again (\<open>thread_block_resume\<close>).
\<close>

definition thread_block :: "task_stat \<Rightarrow> 'a sched_scheme \<Rightarrow> (intr_stat \<times> 'a sched_scheme) res" where
  "thread_block st s =
     rbind (kassert (suspendable st) ''stat == TASK_BLOCKED || TASK_HANGING || TASK_WAITING'') (\<lambda>_.
     let (old_stat, s) = set_intr_stat intr_off s
     in rbind (the_task s (current s)) (\<lambda>cur.
        rbind (schedule (put_task (current s) (cur\<lparr>stat := st\<rparr>) s)) (\<lambda>s. Inr (old_stat, s))))"

definition thread_block_resume :: "intr_stat \<Rightarrow> 'a sched_scheme \<Rightarrow> 'a sched_scheme" where
  "thread_block_resume old_stat s = snd (set_intr_stat old_stat s)"

definition thread_yield :: "'a sched_scheme \<Rightarrow> (intr_stat \<times> 'a sched_scheme) res" where
  "thread_yield s =
     (let cur = running_thread s; (old_stat, s) = set_intr_stat intr_off s
      in rbind (kassert (General cur \<notin> set (ready_threads_list s)) ''!elem_find(&ready_threads_list)'') (\<lambda>_.
         rbind (the_task s cur) (\<lambda>k.
         rbind (schedule (put_task cur (k\<lparr>stat := TASK_READY\<rparr>)
             (s\<lparr>ready_threads_list := ready_threads_list s @ [General cur]\<rparr>)))
           (\<lambda>s. Inr (old_stat, s)))))"

text \<open>The timer interrupt handler; the processor has switched interrupts off on entry.\<close>

definition intr_time_hdl :: "'a sched_scheme \<Rightarrow> 'a sched_scheme res" where
  "intr_time_hdl s =
     rbind (the_task s (current s)) (\<lambda>cur.
     rbind (kassert (stack_magic cur = STACK_MAGIC) ''current->stack_magic == STACK_MAGIC'') (\<lambda>_.
     rbind (kassert (istack_magic cur = STACK_MAGIC) ''current->istack_magic == STACK_MAGIC'') (\<lambda>_.
     let s = s\<lparr>timer_ticks := timer_ticks s + 1\<rparr>
     in if ticks cur = 0 then schedule s
        else Inr (put_task (current s) (cur\<lparr>ticks := ticks cur - 1\<rparr>) s))))"

section \<open>Invariant\<close>

definition tstat :: "'a sched_scheme \<Rightarrow> tid \<Rightarrow> task_stat option" where
  "tstat s t = map_option stat (tasks s t)"

definition tticks :: "'a sched_scheme \<Rightarrow> tid \<Rightarrow> byte option" where
  "tticks s t = map_option ticks (tasks s t)"

text \<open>
  \<open>sched_core\<close>: the ready list holds exactly the threads in state READY, each once; only the
  current thread is RUNNING; waiters of semaphores are BLOCKED, each in one list once; the idle
  thread lives and never waits for a semaphore. \<open>sched_wf\<close> adds that the current thread runs, on
  its own interrupt stack. Inside \<^verbatim>\<open>schedule\<close> only \<open>sched_core\<close> holds.
\<close>

definition ready_ok :: "'a sched_scheme \<Rightarrow> bool" where
  "ready_ok s \<longleftrightarrow> distinct (ready_threads_list s) \<and> set (ready_threads_list s) \<subseteq> range General \<and>
     (\<forall>t. General t \<in> set (ready_threads_list s) \<longleftrightarrow> tstat s t = Some TASK_READY)"

definition waiters_ok :: "'a sched_scheme \<Rightarrow> bool" where
  "waiters_ok s \<longleftrightarrow>
     (\<forall>q. distinct (waiters (semas s q)) \<and> set (waiters (semas s q)) \<subseteq> range General \<and>
       (\<forall>t. General t \<in> set (waiters (semas s q)) \<longrightarrow> tstat s t = Some TASK_BLOCKED \<and> t \<noteq> idle_thread s)) \<and>
     (\<forall>q r. q \<noteq> r \<longrightarrow> set (waiters (semas s q)) \<inter> set (waiters (semas s r)) = {})"

definition run_ok :: "'a sched_scheme \<Rightarrow> bool" where
  "run_ok s \<longleftrightarrow> (\<forall>t. tstat s t = Some TASK_RUNNING \<longrightarrow> t = current s)"

definition idle_ok :: "'a sched_scheme \<Rightarrow> bool" where
  "idle_ok s \<longleftrightarrow> (\<exists>st. tstat s (idle_thread s) = Some st \<and> st \<noteq> TASK_DIED)"

definition sched_core :: "'a sched_scheme \<Rightarrow> bool" where
  "sched_core s \<longleftrightarrow> ready_ok s \<and> waiters_ok s \<and> run_ok s \<and> idle_ok s"

definition sched_wf :: "'a sched_scheme \<Rightarrow> bool" where
  "sched_wf s \<longleftrightarrow> sched_core s \<and> tstat s (current s) = Some TASK_RUNNING \<and> ist2 s = current s"

text \<open>What scheduling may change: the ready list, who is current, and states and tick counts.\<close>

definition task_frame :: "task \<Rightarrow> task \<Rightarrow> bool" where
  "task_frame k k' \<longleftrightarrow> k' = k\<lparr>stat := stat k', ticks := ticks k'\<rparr>"

definition sched_frame :: "'a sched_scheme \<Rightarrow> 'a sched_scheme \<Rightarrow> bool" where
  "sched_frame s s' \<longleftrightarrow>
     semas s' = semas s \<and> locks s' = locks s \<and> intr s' = intr s \<and> idle_thread s' = idle_thread s \<and>
     main_thread s' = main_thread s \<and> init_proc s' = init_proc s \<and>
     all_threads_list s' = all_threads_list s \<and> pid_bitmap s' = pid_bitmap s \<and>
     timer_ticks s' = timer_ticks s \<and> pages_freed s' = pages_freed s \<and>
     sched.more s' = sched.more s \<and>
     (\<forall>t. rel_option task_frame (tasks s t) (tasks s' t))"

lemma task_frame_refl [simp]: "task_frame k k"
  by (simp add: task_frame_def)

lemma task_frame_simps [simp]:
  "task_frame k (k\<lparr>stat := a\<rparr>)" "task_frame k (k\<lparr>stat := a, ticks := b\<rparr>)"
  "task_frame k (k\<lparr>ticks := b\<rparr>)"
  by (cases k, simp add: task_frame_def)+

lemma task_frame_trans: "task_frame k l \<Longrightarrow> task_frame l m \<Longrightarrow> task_frame k m"
  unfolding task_frame_def by (cases k; cases l; cases m) simp

lemma sched_frame_refl [simp]: "sched_frame s s"
  by (simp add: sched_frame_def option.rel_refl)

lemma rel_task_frame_trans:
  "rel_option task_frame a b \<Longrightarrow> rel_option task_frame b c \<Longrightarrow> rel_option task_frame a c"
  by (cases a; cases b; cases c) (auto intro: task_frame_trans)

lemma sched_frame_trans: "sched_frame s t \<Longrightarrow> sched_frame t u \<Longrightarrow> sched_frame s u"
  unfolding sched_frame_def by (blast intro: rel_task_frame_trans dest: sym intro: trans)

lemma sched_frame_task:
  "sched_frame s s' \<Longrightarrow> tasks s t = Some k \<Longrightarrow> \<exists>k'. tasks s' t = Some k' \<and> task_frame k k'"
  by (auto simp: sched_frame_def dest!: spec [of _ t] elim: option.rel_cases)

lemma sched_frame_None: "sched_frame s s' \<Longrightarrow> tasks s' t = None \<longleftrightarrow> tasks s t = None"
  by (auto simp: sched_frame_def dest!: spec [of _ t] elim: option.rel_cases)

lemma tstat_put_task [simp]:
  "tstat (put_task t k s) u = (if u = t then Some (stat k) else tstat s u)"
  by (simp add: tstat_def put_task_def)

lemma put_task_simps [simp]:
  "current (put_task t k s) = current s" "ready_threads_list (put_task t k s) = ready_threads_list s"
  "intr (put_task t k s) = intr s" "semas (put_task t k s) = semas s"
  "idle_thread (put_task t k s) = idle_thread s" "ist2 (put_task t k s) = ist2 s"
  "locks (put_task t k s) = locks s" "tasks (put_task t k s) = (tasks s)(t \<mapsto> k)"
  by (simp_all add: put_task_def)

lemma the_task_Inr [simp]: "tasks s t = Some k \<Longrightarrow> the_task s t = Inr k"
  by (simp add: the_task_def)

lemma tstat_SomeD: "tstat s t = Some st \<Longrightarrow> \<exists>k. tasks s t = Some k \<and> stat k = st"
  by (auto simp: tstat_def)

lemma tticks_simps [simp]:
  "tticks (put_task t k s) u = (if u = t then Some (ticks k) else tticks s u)"
  "tticks (s\<lparr>ready_threads_list := r\<rparr>) u = tticks s u" "tticks (s\<lparr>current := c\<rparr>) u = tticks s u"
  "tticks (s\<lparr>intr := i\<rparr>) u = tticks s u" "tticks (s\<lparr>ist2 := c\<rparr>) u = tticks s u"
  "tticks (s\<lparr>timer_ticks := n\<rparr>) u = tticks s u"
  by (simp_all add: tticks_def put_task_def)

lemma tstat_update_simps [simp]:
  "tstat (s\<lparr>ready_threads_list := r\<rparr>) t = tstat s t" "tstat (s\<lparr>current := c\<rparr>) t = tstat s t"
  "tstat (s\<lparr>intr := i\<rparr>) t = tstat s t" "tstat (s\<lparr>ist2 := c\<rparr>) t = tstat s t"
  "tstat (s\<lparr>semas := q\<rparr>) t = tstat s t" "tstat (s\<lparr>locks := l\<rparr>) t = tstat s t"
  "tstat (s\<lparr>timer_ticks := n\<rparr>) t = tstat s t"
  by (simp_all add: tstat_def)

section \<open>Behaviour of the operations\<close>

definition unblocked :: "tid \<Rightarrow> task \<Rightarrow> 'a sched_scheme \<Rightarrow> 'a sched_scheme" where
  "unblocked t k s = put_task t (k\<lparr>stat := TASK_READY\<rparr>)
     (s\<lparr>ready_threads_list := General t # ready_threads_list s\<rparr>)"

lemma thread_unblock_eq:
  assumes "tasks s t = Some k" "suspendable (stat k)" "General t \<notin> set (ready_threads_list s)"
  shows "thread_unblock t s = Inr (unblocked t k s)"
  using assms by (simp add: thread_unblock_def unblocked_def put_task_def Let_def)

lemma unblocked_simps [simp]:
  "tstat (unblocked t k s) u = (if u = t then Some TASK_READY else tstat s u)"
  "ready_threads_list (unblocked t k s) = General t # ready_threads_list s"
  "current (unblocked t k s) = current s" "semas (unblocked t k s) = semas s"
  "idle_thread (unblocked t k s) = idle_thread s" "intr (unblocked t k s) = intr s"
  "locks (unblocked t k s) = locks s" "ist2 (unblocked t k s) = ist2 s"
  by (simp_all add: unblocked_def)

lemma suspendable_simps [simp]:
  "suspendable TASK_BLOCKED" "suspendable TASK_HANGING" "suspendable TASK_WAITING"
  "\<not> suspendable TASK_RUNNING" "\<not> suspendable TASK_READY" "\<not> suspendable TASK_DIED"
  by (simp_all add: suspendable_def)

lemma ready_ok_unblocked:
  assumes "ready_ok s" "tasks s t = Some k" "suspendable (stat k)"
  shows "ready_ok (unblocked t k s)"
proof -
  have "General t \<notin> set (ready_threads_list s)"
    using assms by (auto simp: ready_ok_def tstat_def)
  with assms(1) show ?thesis by (auto simp: ready_ok_def)
qed

lemma waiters_ok_unblocked:
  assumes "waiters_ok s" "\<And>q. General t \<notin> set (waiters (semas s q))"
  shows "waiters_ok (unblocked t k s)"
  using assms by (auto simp: waiters_ok_def)

lemma ready_okD: "ready_ok s \<Longrightarrow> General t \<in> set (ready_threads_list s) \<longleftrightarrow> tstat s t = Some TASK_READY"
  by (simp add: ready_ok_def)

lemma run_okD: "run_ok s \<Longrightarrow> t \<noteq> current s \<Longrightarrow> tstat s t \<noteq> Some TASK_RUNNING"
  by (auto simp: run_ok_def)

lemma run_okI: "(\<And>t. t \<noteq> current s \<Longrightarrow> tstat s t \<noteq> Some TASK_RUNNING) \<Longrightarrow> run_ok s"
  unfolding run_ok_def by blast

lemma waiters_okD:
  "waiters_ok s \<Longrightarrow> General t \<in> set (waiters (semas s q)) \<Longrightarrow>
    tstat s t = Some TASK_BLOCKED \<and> t \<noteq> idle_thread s"
  by (auto simp: waiters_ok_def)

lemma idle_okI: "tstat s (idle_thread s) = Some st \<Longrightarrow> st \<noteq> TASK_DIED \<Longrightarrow> idle_ok s"
  by (simp add: idle_ok_def)

lemma sched_coreI: "ready_ok s \<Longrightarrow> waiters_ok s \<Longrightarrow> run_ok s \<Longrightarrow> idle_ok s \<Longrightarrow> sched_core s"
  by (simp add: sched_core_def)

lemma sched_coreD:
  assumes "sched_core s"
  shows "ready_ok s" "waiters_ok s" "run_ok s" "idle_ok s"
  using assms by (simp_all add: sched_core_def)

lemma run_ok_unblocked: "run_ok s \<Longrightarrow> run_ok (unblocked t k s)"
  by (rule run_okI) (auto dest: run_okD)

lemma idle_ok_unblocked: "idle_ok s \<Longrightarrow> idle_ok (unblocked t k s)"
  by (auto simp: idle_ok_def)

lemma sched_core_unblocked:
  assumes "sched_core s" "tasks s t = Some k" "suspendable (stat k)"
    "\<And>q. General t \<notin> set (waiters (semas s q))"
  shows "sched_core (unblocked t k s)"
  using assms sched_coreD [OF assms(1)]
  by (intro sched_coreI ready_ok_unblocked waiters_ok_unblocked run_ok_unblocked idle_ok_unblocked)

lemma idle_not_waiting: "sched_core s \<Longrightarrow> General (idle_thread s) \<notin> set (waiters (semas s q))"
  using waiters_okD sched_coreD(2) by blast

lemma sched_frame_put:
  assumes "tasks s t = Some k" "task_frame k k'"
  shows "sched_frame s (put_task t k' (s\<lparr>ready_threads_list := r\<rparr>))"
    "sched_frame s (put_task t k' (s\<lparr>ready_threads_list := r, current := c, ist2 := i\<rparr>))"
proof -
  have "\<forall>u. rel_option task_frame (tasks s u) (((tasks s)(t \<mapsto> k')) u)"
    using assms by (auto simp: option.rel_refl)
  then show "sched_frame s (put_task t k' (s\<lparr>ready_threads_list := r\<rparr>))"
    "sched_frame s (put_task t k' (s\<lparr>ready_threads_list := r, current := c, ist2 := i\<rparr>))"
    by (simp_all add: sched_frame_def put_task_def)
qed

lemma task_frame_unblocked: "tasks s t = Some k \<Longrightarrow> sched_frame s (unblocked t k s)"
  unfolding unblocked_def by (rule sched_frame_put(1)) (assumption, simp)

lemma tticks_unblocked [simp]: "tasks s t = Some k \<Longrightarrow> tticks (unblocked t k s) u = tticks s u"
  by (simp add: unblocked_def) (simp add: tticks_def)

text \<open>The ready list after \<^verbatim>\<open>schedule\<close> has requeued the current thread, and the thread it picks.\<close>

definition ready_after :: "'a sched_scheme \<Rightarrow> tag list" where
  "ready_after s = ready_threads_list s @
     (if tstat s (current s) = Some TASK_RUNNING then [General (current s)] else [])"

definition next_thread :: "'a sched_scheme \<Rightarrow> tid" where
  "next_thread s = (case ready_after s of General t # _ \<Rightarrow> t | _ \<Rightarrow> idle_thread s)"

lemma requeue_current_spec:
  assumes "sched_core s" "tasks s (current s) = Some k"
  shows "\<exists>s'. requeue_current s = Inr s' \<and> sched_core s' \<and> sched_frame s s' \<and>
    ready_threads_list s' = ready_after s \<and> current s' = current s \<and>
    (\<forall>t. t \<noteq> current s \<longrightarrow> tticks s' t = tticks s t) \<and> (\<forall>t. tstat s' t \<noteq> Some TASK_RUNNING) \<and>
    (\<forall>t. tstat s' t = (if tstat s t = Some TASK_RUNNING then Some TASK_READY else tstat s t))"
proof (cases "stat k = TASK_RUNNING")
  case False
  then have cur: "tstat s (current s) \<noteq> Some TASK_RUNNING" using assms(2) by (simp add: tstat_def)
  with sched_coreD(3) [OF assms(1)] have "\<forall>t. tstat s t \<noteq> Some TASK_RUNNING"
    by (metis run_okD)
  moreover have "requeue_current s = Inr s" using False assms(2) by (simp add: requeue_current_def)
  ultimately show ?thesis using assms(1) cur
    by (intro exI [of _ s]) (simp add: ready_after_def)
next
  case True
  then have cur: "tstat s (current s) = Some TASK_RUNNING" using assms(2) by (simp add: tstat_def)
  let ?s = "put_task (current s) (k\<lparr>stat := TASK_READY, ticks := prio k\<rparr>)
    (s\<lparr>ready_threads_list := ready_threads_list s @ [General (current s)]\<rparr>)"
  have notin: "General (current s) \<notin> set (ready_threads_list s)"
    using ready_okD [OF sched_coreD(1) [OF assms(1)]] cur by simp
  note others = run_okD [OF sched_coreD(3) [OF assms(1)]]
  have eq: "requeue_current s = Inr ?s"
    using True assms(2) notin by (simp add: requeue_current_def)
  have frame: "sched_frame s ?s"
    by (rule sched_frame_put(1) [OF assms(2)]) (rule task_frame_simps(2))
  have "ready_ok ?s"
    using sched_coreD(1) [OF assms(1)] cur notin by (auto simp: ready_ok_def)
  moreover have "waiters_ok ?s"
    using sched_coreD(2) [OF assms(1)] cur by (auto simp: waiters_ok_def)
  moreover have "run_ok ?s" by (rule run_okI) (simp add: others)
  moreover have "idle_ok ?s"
    using sched_coreD(4) [OF assms(1)] by (auto simp: idle_ok_def)
  ultimately have core: "sched_core ?s" by (rule sched_coreI)
  have ts: "tstat ?s t = (if tstat s t = Some TASK_RUNNING then Some TASK_READY else tstat s t)" for t
    using cur others [of t] by (cases "t = current s") simp_all
  have "ready_threads_list ?s = ready_after s" "current ?s = current s"
    by (simp_all add: ready_after_def cur)
  moreover have "\<forall>t. t \<noteq> current s \<longrightarrow> tticks ?s t = tticks s t" by simp
  moreover have "\<forall>t. tstat ?s t \<noteq> Some TASK_RUNNING" unfolding ts by simp
  ultimately show ?thesis using eq frame core ts by (intro exI [of _ ?s] conjI allI) blast+
qed

lemma switch_to_next_spec:
  assumes "sched_core s" "ready_threads_list s = General nxt # rest" "\<forall>t. tstat s t \<noteq> Some TASK_RUNNING"
  shows "\<exists>s'. switch_to_next s = Inr s' \<and> sched_wf s' \<and> sched_frame s s' \<and>
    ready_threads_list s' = rest \<and> current s' = nxt \<and> (\<forall>t. tticks s' t = tticks s t) \<and>
    (\<forall>t. tstat s' t = (if t = nxt then Some TASK_RUNNING else tstat s t))"
proof -
  note core = sched_coreD [OF assms(1)]
  have rdy: "tstat s nxt = Some TASK_READY"
    using ready_okD [OF core(1), of nxt] assms(2) by simp
  then obtain k where k: "tasks s nxt = Some k" "stat k = TASK_READY"
    by (blast dest: tstat_SomeD)
  let ?s = "put_task nxt (k\<lparr>stat := TASK_RUNNING\<rparr>)
    (s\<lparr>ready_threads_list := rest, current := nxt, ist2 := nxt\<rparr>)"
  have "switch_to_next s = Inr ?s" using assms(2) k by (simp add: switch_to_next_def)
  moreover have "sched_frame s ?s"
    by (rule sched_frame_put(2) [OF k(1)]) (rule task_frame_simps(1))
  moreover have "ready_ok ?s"
    using core(1) assms(2) k by (auto simp: ready_ok_def)
  moreover have "waiters_ok ?s"
    using core(2) rdy by (auto simp: waiters_ok_def)
  moreover have "run_ok ?s" using assms(3) by (auto intro!: run_okI)
  moreover have "idle_ok ?s" using core(4) by (auto simp: idle_ok_def)
  moreover have "\<forall>t. tticks ?s t = tticks s t" using k by (simp add: tticks_def)
  ultimately show ?thesis
    by (intro exI [of _ ?s]) (simp add: sched_wf_def sched_core_def)
qed

text \<open>\<^verbatim>\<open>schedule\<close> never panics on a well-formed state and restores the full invariant.\<close>

lemma schedule_spec:
  assumes "sched_core s" "intr s = intr_off" "tasks s (current s) = Some k"
  shows "\<exists>s'. schedule s = Inr s' \<and> sched_wf s' \<and> sched_frame s s' \<and>
    current s' = next_thread s \<and> ready_threads_list s' = tl (ready_after s) \<and>
    (\<forall>t. t \<noteq> current s \<longrightarrow> tticks s' t = tticks s t) \<and>
    (\<forall>t. tstat s' t = (if t = next_thread s then Some TASK_RUNNING
       else if tstat s t = Some TASK_RUNNING then Some TASK_READY else tstat s t))"
proof -
  obtain s1 where s1: "requeue_current s = Inr s1" "sched_core s1" "sched_frame s s1"
      "ready_threads_list s1 = ready_after s" "current s1 = current s"
      "\<forall>t. t \<noteq> current s \<longrightarrow> tticks s1 t = tticks s t" "\<forall>t. tstat s1 t \<noteq> Some TASK_RUNNING"
      "\<forall>t. tstat s1 t = (if tstat s t = Some TASK_RUNNING then Some TASK_READY else tstat s t)"
    using requeue_current_spec [OF assms(1,3)] by blast
  show ?thesis
  proof (cases "ready_after s")
    case Nil
    let ?i = "idle_thread s1"
    obtain st where st: "tstat s1 ?i = Some st" "st \<noteq> TASK_DIED"
      using sched_coreD(4) [OF s1(2)] by (auto simp: idle_ok_def)
    moreover have "st \<noteq> TASK_RUNNING" using st(1) s1(7) by auto
    moreover have "tstat s1 ?i \<noteq> Some TASK_READY"
      using ready_okD [OF sched_coreD(1) [OF s1(2)]] s1(4) Nil by (metis list.set(1) empty_iff)
    ultimately have "suspendable st" by (cases st) auto
    with st(1) obtain ki where ki: "tasks s1 ?i = Some ki" "suspendable (stat ki)"
      by (auto dest: tstat_SomeD)
    have unb: "thread_unblock ?i s1 = Inr (unblocked ?i ki s1)"
      using thread_unblock_eq [OF ki] s1(4) Nil by simp
    have core: "sched_core (unblocked ?i ki s1)"
      using sched_core_unblocked [OF s1(2) ki] idle_not_waiting [OF s1(2)] by blast
    have "ready_threads_list (unblocked ?i ki s1) = General ?i # []"
      "\<forall>t. tstat (unblocked ?i ki s1) t \<noteq> Some TASK_RUNNING"
      using s1(4,7) Nil by auto
    from switch_to_next_spec [OF core this]
    obtain s2 where s2: "switch_to_next (unblocked ?i ki s1) = Inr s2" "sched_wf s2"
        "sched_frame (unblocked ?i ki s1) s2" "ready_threads_list s2 = []" "current s2 = ?i"
        "\<forall>t. tticks s2 t = tticks (unblocked ?i ki s1) t"
        "\<forall>t. tstat s2 t = (if t = ?i then Some TASK_RUNNING else tstat (unblocked ?i ki s1) t)"
      by blast
    have frame: "sched_frame s s2"
      using s1(3) task_frame_unblocked [OF ki(1)] s2(3) sched_frame_trans by blast
    have i: "?i = idle_thread s" using s1(3) by (simp add: sched_frame_def)
    have "schedule s = Inr s2"
      using assms(2) s1(1,4) Nil unb s2(1) i by (simp add: schedule_def)
    moreover have "next_thread s = ?i" using Nil i by (simp add: next_thread_def)
    ultimately show ?thesis using s2 s1(6,8) frame Nil i ki(1)
      by (intro exI [of _ s2]) auto
  next
    case (Cons x rest)
    then obtain nxt where x: "x = General nxt"
      using sched_coreD(1) [OF s1(2)] s1(4) by (auto simp: ready_ok_def)
    then have nxt: "next_thread s = nxt" using Cons by (simp add: next_thread_def)
    obtain s2 where s2: "switch_to_next s1 = Inr s2" "sched_wf s2" "sched_frame s1 s2"
        "ready_threads_list s2 = rest" "current s2 = nxt"
        "\<forall>t. tticks s2 t = tticks s1 t"
        "\<forall>t. tstat s2 t = (if t = nxt then Some TASK_RUNNING else tstat s1 t)"
      using switch_to_next_spec [OF s1(2), of nxt rest] s1(4,7) Cons x by auto
    have "schedule s = Inr s2"
      using assms(2) s1(1,4) Cons s2(1) by (simp add: schedule_def)
    with s2 s1(3,6,8) nxt Cons sched_frame_trans [OF s1(3) s2(3)] show ?thesis
      by (intro exI [of _ s2]) auto
  qed
qed

lemma sched_wfD:
  assumes "sched_wf s"
  shows "sched_core s" "tstat s (current s) = Some TASK_RUNNING" "ist2 s = current s"
  using assms by (simp_all add: sched_wf_def)

lemma sched_core_intr [simp]: "sched_core (s\<lparr>intr := i\<rparr>) = sched_core s"
  by (simp add: sched_core_def ready_ok_def waiters_ok_def run_ok_def idle_ok_def)

lemma sched_wf_intr [simp]: "sched_wf (s\<lparr>intr := i\<rparr>) = sched_wf s"
  by (simp add: sched_wf_def)

lemma waiters_ok_intr [simp]: "waiters_ok (s\<lparr>intr := i\<rparr>) = waiters_ok s"
  by (simp add: waiters_ok_def)

lemma waiters_ok_put_intr [simp]:
  "waiters_ok (put_task t k (s\<lparr>intr := i\<rparr>)) = waiters_ok (put_task t k s)"
  by (simp add: waiters_ok_def)

text \<open>The thread that runs after the current one gives up the processor.\<close>

definition head_or_idle :: "'a sched_scheme \<Rightarrow> tid" where
  "head_or_idle s = (case ready_threads_list s of General t # _ \<Rightarrow> t | _ \<Rightarrow> idle_thread s)"

lemma core_suspend:
  assumes "ready_ok s" "run_ok s" "idle_ok s" "tasks s (current s) = Some k" "stat k = TASK_RUNNING"
    "suspendable st" "waiters_ok (put_task (current s) (k\<lparr>stat := st\<rparr>) s)"
  shows "sched_core (put_task (current s) (k\<lparr>stat := st\<rparr>) s)" (is "sched_core ?s")
proof (rule sched_coreI)
  have "tstat s (current s) = Some TASK_RUNNING" using assms(4,5) by (simp add: tstat_def)
  with assms(1,6) show "ready_ok ?s" by (auto simp: ready_ok_def suspendable_def)
  show "run_ok ?s" using run_okD [OF assms(2)] by (intro run_okI) simp
  show "idle_ok ?s" using assms(3,6) by (auto simp: idle_ok_def suspendable_def)
qed (rule assms(7))

lemma thread_block_spec:
  assumes "ready_ok s" "run_ok s" "idle_ok s" "tasks s (current s) = Some k" "stat k = TASK_RUNNING"
    "suspendable st" "waiters_ok (put_task (current s) (k\<lparr>stat := st\<rparr>) s)"
  shows "\<exists>s'. thread_block st s = Inr (intr s, s') \<and> sched_wf s' \<and> sched_frame (s\<lparr>intr := intr_off\<rparr>) s' \<and>
    current s' = head_or_idle s \<and> ready_threads_list s' = tl (ready_threads_list s) \<and>
    (\<forall>t. tstat s' t = (if t = head_or_idle s then Some TASK_RUNNING
       else if t = current s then Some st else tstat s t))"
proof -
  let ?s = "put_task (current s) (k\<lparr>stat := st\<rparr>) (s\<lparr>intr := intr_off\<rparr>)"
  have core: "sched_core ?s"
    using core_suspend [of "s\<lparr>intr := intr_off\<rparr>" k st] assms
    by (simp add: ready_ok_def run_ok_def idle_ok_def)
  have st: "st \<noteq> TASK_RUNNING" using assms(6) by auto
  then have after: "ready_after ?s = ready_threads_list s" by (simp add: ready_after_def)
  then have nxt: "next_thread ?s = head_or_idle s" 
    by (simp add: next_thread_def head_or_idle_def split: list.split tag.split)
  obtain s' where s': "schedule ?s = Inr s'" "sched_wf s'" "sched_frame ?s s'"
      "current s' = next_thread ?s" "ready_threads_list s' = tl (ready_after ?s)"
      "\<forall>t. t \<noteq> current ?s \<longrightarrow> tticks s' t = tticks ?s t"
      "\<forall>t. tstat s' t = (if t = next_thread ?s then Some TASK_RUNNING
         else if tstat ?s t = Some TASK_RUNNING then Some TASK_READY else tstat ?s t)"
    using schedule_spec [OF core, of "k\<lparr>stat := st\<rparr>"] by auto
  have "sched_frame (s\<lparr>intr := intr_off\<rparr>) ?s"
    using sched_frame_put(1) [of "s\<lparr>intr := intr_off\<rparr>" "current s" k "k\<lparr>stat := st\<rparr>"
        "ready_threads_list s"] assms(4) by simp
  then have frame: "sched_frame (s\<lparr>intr := intr_off\<rparr>) s'" using s'(3) sched_frame_trans by blast
  have run: "thread_block st s = Inr (intr s, s')"
    using assms(4,6) s'(1) by (simp add: thread_block_def)
  have "tstat s' t = (if t = head_or_idle s then Some TASK_RUNNING
       else if t = current s then Some st else tstat s t)" for t
    using s'(7) st run_okD [OF assms(2), of t] unfolding nxt by auto
  with run s'(2,4,5) frame show ?thesis unfolding nxt after by (intro exI [of _ s']) simp
qed

text \<open>The common case: a running thread that waits for no semaphore blocks.\<close>

lemma waiters_ok_put:
  assumes "waiters_ok s" "\<And>q. General t \<notin> set (waiters (semas s q))"
  shows "waiters_ok (put_task t k s)"
  using assms by (auto simp: waiters_ok_def)

lemma running_not_waiting: "sched_wf s \<Longrightarrow> General (current s) \<notin> set (waiters (semas s q))"
  using waiters_okD [OF sched_coreD(2) [OF sched_wfD(1)]] sched_wfD(2) by fastforce

lemma running_task: "sched_wf s \<Longrightarrow> \<exists>k. tasks s (current s) = Some k \<and> stat k = TASK_RUNNING"
  by (auto dest: sched_wfD(2) tstat_SomeD)

lemma thread_block_running:
  assumes "sched_wf s" "suspendable st"
  shows "\<exists>s'. thread_block st s = Inr (intr s, s') \<and> sched_wf s' \<and> sched_frame (s\<lparr>intr := intr_off\<rparr>) s' \<and>
    current s' = head_or_idle s \<and> ready_threads_list s' = tl (ready_threads_list s) \<and>
    (\<forall>t. tstat s' t = (if t = head_or_idle s then Some TASK_RUNNING
       else if t = current s then Some st else tstat s t))"
proof -
  note core = sched_coreD [OF sched_wfD(1) [OF assms(1)]]
  obtain k where k: "tasks s (current s) = Some k" "stat k = TASK_RUNNING"
    using running_task [OF assms(1)] by blast
  have "waiters_ok (put_task (current s) (k\<lparr>stat := st\<rparr>) s)"
    using waiters_ok_put [OF core(2)] running_not_waiting [OF assms(1)] by blast
  from thread_block_spec [OF core(1,3,4) k assms(2) this] show ?thesis .
qed

lemma thread_unblock_wf:
  assumes "sched_wf s" "tstat s t = Some st" "suspendable st" "\<And>q. General t \<notin> set (waiters (semas s q))"
  shows "\<exists>s'. thread_unblock t s = Inr s' \<and> sched_wf s' \<and> sched_frame s s' \<and> current s' = current s \<and>
    ready_threads_list s' = General t # ready_threads_list s \<and>
    (\<forall>u. tstat s' u = (if u = t then Some TASK_READY else tstat s u))"
proof -
  obtain k where k: "tasks s t = Some k" "stat k = st" using tstat_SomeD [OF assms(2)] by blast
  have "General t \<notin> set (ready_threads_list s)"
    using ready_okD [OF sched_coreD(1) [OF sched_wfD(1) [OF assms(1)]], of t] assms(2,3) by auto
  then have run: "thread_unblock t s = Inr (unblocked t k s)"
    using thread_unblock_eq [OF k(1)] k(2) assms(3) by simp
  have "t \<noteq> current s" using assms(2,3) sched_wfD(2) [OF assms(1)] by auto
  then have "sched_wf (unblocked t k s)"
    using sched_core_unblocked [OF sched_wfD(1) [OF assms(1)] k(1)] k(2) assms sched_wfD
    by (auto simp: sched_wf_def)
  with run task_frame_unblocked [OF k(1)] show ?thesis
    by (intro exI [of _ "unblocked t k s"]) simp
qed

lemma thread_yield_spec:
  assumes "sched_wf s"
  shows "\<exists>s'. thread_yield s = Inr (intr s, s') \<and> sched_wf s' \<and> sched_frame (s\<lparr>intr := intr_off\<rparr>) s' \<and>
    (General (current s') # ready_threads_list s' = ready_threads_list s @ [General (current s)])"
proof -
  note core = sched_coreD [OF sched_wfD(1) [OF assms]]
  obtain k where k: "tasks s (current s) = Some k" "stat k = TASK_RUNNING"
    using running_task [OF assms] by blast
  let ?s = "put_task (current s) (k\<lparr>stat := TASK_READY\<rparr>)
    (s\<lparr>intr := intr_off, ready_threads_list := ready_threads_list s @ [General (current s)]\<rparr>)"
  have notin: "General (current s) \<notin> set (ready_threads_list s)"
    using ready_okD [OF core(1), of "current s"] sched_wfD(2) [OF assms] by simp
  have "ready_ok ?s" using core(1) notin sched_wfD(2) [OF assms] by (auto simp: ready_ok_def)
  moreover have "waiters_ok ?s"
    using core(2) running_not_waiting [OF assms] by (auto simp: waiters_ok_def)
  moreover have "run_ok ?s" using run_okD [OF core(3)] by (intro run_okI) simp
  moreover have "idle_ok ?s" using core(4) by (auto simp: idle_ok_def)
  ultimately have "sched_core ?s" by (rule sched_coreI)
  then obtain s' where s': "schedule ?s = Inr s'" "sched_wf s'" "sched_frame ?s s'"
      "current s' = next_thread ?s" "ready_threads_list s' = tl (ready_after ?s)"
    using schedule_spec [of ?s "k\<lparr>stat := TASK_READY\<rparr>"] by auto
  have "sched_frame (s\<lparr>intr := intr_off\<rparr>) ?s"
    using sched_frame_put(1) [of "s\<lparr>intr := intr_off\<rparr>" "current s" k "k\<lparr>stat := TASK_READY\<rparr>"
        "ready_threads_list s @ [General (current s)]"] k(1) by simp
  then have frame: "sched_frame (s\<lparr>intr := intr_off\<rparr>) s'" using s'(3) sched_frame_trans by blast
  have after: "ready_after ?s = ready_threads_list s @ [General (current s)]"
    by (simp add: ready_after_def)
  have "set (ready_threads_list s) \<subseteq> range General" using core(1) by (simp add: ready_ok_def)
  then have "General (next_thread ?s) # tl (ready_after ?s) = ready_after ?s"
    unfolding after next_thread_def by (cases "ready_threads_list s") auto
  moreover have "thread_yield s = Inr (intr s, s')"
    using notin k(1) s'(1) by (simp add: thread_yield_def running_thread_def)
  ultimately show ?thesis using s' frame after by (intro exI [of _ s']) simp
qed

section \<open>Timer ticks and fairness\<close>

text \<open>
  \<open>n\<close> timer interrupts while the threads only compute; the processor clears the interrupt flag
  on entry to the handler.
\<close>

fun run_timer :: "nat \<Rightarrow> 'a sched_scheme \<Rightarrow> 'a sched_scheme res" where
  "run_timer 0 s = Inr s"
| "run_timer (Suc n) s = rbind (intr_time_hdl (s\<lparr>intr := intr_off\<rparr>)) (run_timer n)"

definition magic_ok :: "'a sched_scheme \<Rightarrow> bool" where
  "magic_ok s \<longleftrightarrow> (\<forall>k \<in> ran (tasks s). stack_magic k = STACK_MAGIC \<and> istack_magic k = STACK_MAGIC)"

lemma magic_okD: "magic_ok s \<Longrightarrow> tasks s t = Some k \<Longrightarrow> stack_magic k = STACK_MAGIC \<and> istack_magic k = STACK_MAGIC"
  by (auto simp: magic_ok_def ran_def)

lemma magic_ok_put: "magic_ok s \<Longrightarrow> tasks s t = Some k \<Longrightarrow> task_frame k k' \<Longrightarrow> magic_ok (put_task t k' s)"
  unfolding task_frame_def
  by (auto simp: magic_ok_def ran_def put_task_def) (metis task.select_convs(11,12) task.surjective task.update_convs(2,4))+

lemma magic_ok_frame:
  assumes "magic_ok s" "sched_frame s s'"
  shows "magic_ok s'"
  unfolding magic_ok_def
proof
  fix k'
  assume "k' \<in> ran (tasks s')"
  then obtain t where t: "tasks s' t = Some k'" by (auto simp: ran_def)
  then obtain k where k: "tasks s t = Some k"
    using sched_frame_None [OF assms(2), of t] by (cases "tasks s t") auto
  then have "task_frame k k'" using sched_frame_task [OF assms(2) k] t by simp
  then show "stack_magic k' = STACK_MAGIC \<and> istack_magic k' = STACK_MAGIC"
    using magic_okD [OF assms(1) k] by (cases k; cases k') (simp add: task_frame_def)
qed

lemma magic_ok_intr [simp]: "magic_ok (s\<lparr>intr := i\<rparr>) = magic_ok s"
  "magic_ok (s\<lparr>timer_ticks := n\<rparr>) = magic_ok s"
  by (simp_all add: magic_ok_def)

lemma sched_core_timer [simp]: "sched_core (s\<lparr>timer_ticks := n\<rparr>) = sched_core s"
  by (simp add: sched_core_def ready_ok_def waiters_ok_def run_ok_def idle_ok_def)

text \<open>One tick of a thread that has ticks left, and of one whose slice is used up.\<close>

lemma tick_counts:
  assumes "sched_wf s" "magic_ok s" "tasks s (current s) = Some k" "ticks k \<noteq> 0"
  shows "\<exists>s'. intr_time_hdl s = Inr s' \<and> sched_wf s' \<and> magic_ok s' \<and> current s' = current s \<and>
    ready_threads_list s' = ready_threads_list s \<and> timer_ticks s' = timer_ticks s + 1 \<and>
    (\<forall>t. tticks s' t = (if t = current s then Some (ticks k - 1) else tticks s t))"
proof -
  let ?s = "put_task (current s) (k\<lparr>ticks := ticks k - 1\<rparr>) (s\<lparr>timer_ticks := timer_ticks s + 1\<rparr>)"
  have run: "intr_time_hdl s = Inr ?s"
    using assms(3,4) magic_okD [OF assms(2,3)] by (simp add: intr_time_hdl_def)
  have ts: "tstat ?s t = tstat s t" for t using assms(3) by (simp add: tstat_def)
  have "sched_wf ?s"
    using assms(1) unfolding sched_wf_def sched_core_def ready_ok_def waiters_ok_def run_ok_def idle_ok_def
    by (simp only: ts) simp
  moreover have "magic_ok ?s"
    by (rule magic_ok_put [where k = k]) (use assms in simp_all)
  moreover have "timer_ticks ?s = timer_ticks s + 1" by (simp add: put_task_def)
  ultimately show ?thesis using run by (intro exI [of _ ?s]) simp
qed

lemma tick_switches:
  assumes "sched_wf s" "magic_ok s" "intr s = intr_off" "tasks s (current s) = Some k" "ticks k = 0"
    and "ready_threads_list s = General u # rest"
  shows "\<exists>s'. intr_time_hdl s = Inr s' \<and> sched_wf s' \<and> magic_ok s' \<and> current s' = u \<and>
    ready_threads_list s' = rest @ [General (current s)] \<and>
    (\<forall>t. t \<noteq> current s \<longrightarrow> tticks s' t = tticks s t)"
proof -
  let ?s = "s\<lparr>timer_ticks := timer_ticks s + 1\<rparr>"
  have core: "sched_core ?s" using sched_wfD(1) [OF assms(1)] by simp
  have after: "ready_after ?s = General u # rest @ [General (current s)]"
    using assms(6) sched_wfD(2) [OF assms(1)] by (simp add: ready_after_def)
  then have nxt: "next_thread ?s = u" by (simp add: next_thread_def)
  obtain s' where s': "schedule ?s = Inr s'" "sched_wf s'" "sched_frame ?s s'"
      "current s' = u" "ready_threads_list s' = rest @ [General (current s)]"
      "\<forall>t. t \<noteq> current s \<longrightarrow> tticks s' t = tticks s t"
    using schedule_spec [OF core, of k] assms(3,4) after nxt by auto
  have "intr_time_hdl s = Inr s'"
    using assms(4,5) s'(1) magic_okD [OF assms(2,4)] by (simp add: intr_time_hdl_def)
  moreover have "magic_ok s'" using magic_ok_frame [OF _ s'(3)] assms(2) by simp
  ultimately show ?thesis using s' by blast
qed

lemma run_timer_add: "run_timer (m + n) s = rbind (run_timer m s) (run_timer n)"
proof (induction m arbitrary: s)
  case (Suc m)
  have "run_timer (m + n) = (\<lambda>s :: 'a sched_scheme. rbind (run_timer m s) (run_timer n))"
    by (rule ext) (rule Suc.IH)
  then show ?case by (simp add: rbind_assoc)
qed simp

text \<open>The whole slice of the current thread: after \<open>m + 1\<close> ticks the head of the list runs.\<close>

lemma slice_ends:
  assumes "sched_wf s" "magic_ok s" "tticks s (current s) = Some w" "unat w = m"
    and "ready_threads_list s = General u # rest"
  shows "\<exists>s'. run_timer (Suc m) s = Inr s' \<and> sched_wf s' \<and> magic_ok s' \<and> current s' = u \<and>
    ready_threads_list s' = rest @ [General (current s)] \<and>
    (\<forall>t. t \<noteq> current s \<longrightarrow> tticks s' t = tticks s t)"
  using assms
proof (induction m arbitrary: s w)
  case 0
  then obtain k where k: "tasks s (current s) = Some k" "ticks k = 0"
    by (auto simp: tticks_def unat_eq_zero)
  with 0 tick_switches [of "s\<lparr>intr := intr_off\<rparr>" k u rest] show ?case by auto
next
  case (Suc m)
  then have "w \<noteq> 0" by auto
  with Suc.prems(3) obtain k where k: "tasks s (current s) = Some k" "ticks k = w" "w \<noteq> 0"
    by (auto simp: tticks_def)
  obtain s1 where s1: "intr_time_hdl (s\<lparr>intr := intr_off\<rparr>) = Inr s1" "sched_wf s1" "magic_ok s1"
      "current s1 = current s" "ready_threads_list s1 = General u # rest"
      "\<forall>t. tticks s1 t = (if t = current s then Some (w - 1) else tticks s t)"
    using tick_counts [of "s\<lparr>intr := intr_off\<rparr>" k] Suc.prems k by auto
  have "unat (w - 1) = m" using Suc.prems(4) k(3) by (simp add: unat_minus_one)
  with s1 have "\<exists>s'. run_timer (Suc m) s1 = Inr s' \<and> sched_wf s' \<and> magic_ok s' \<and> current s' = u \<and>
      ready_threads_list s' = rest @ [General (current s1)] \<and>
      (\<forall>t. t \<noteq> current s1 \<longrightarrow> tticks s' t = tticks s1 t)"
    by (intro Suc.IH [of s1 "w - 1"]) simp_all
  with s1 show ?case by auto
qed

definition slice :: "'a sched_scheme \<Rightarrow> tid \<Rightarrow> nat" where
  "slice s t = (case tticks s t of None \<Rightarrow> 0 | Some w \<Rightarrow> Suc (unat w))"

fun tid_of :: "tag \<Rightarrow> tid" where
  "tid_of (General t) = t"
| "tid_of (AllTag t) = t"

lemma reaches_processor:
  "\<lbrakk> sched_wf s; magic_ok s; i < length (ready_threads_list s); ready_threads_list s ! i = General t \<rbrakk> \<Longrightarrow>
   \<exists>n s'. n = slice s (current s) + (\<Sum>j<i. slice s (tid_of (ready_threads_list s ! j))) \<and>
     run_timer n s = Inr s' \<and> current s' = t \<and> sched_wf s'"
proof (induction i arbitrary: s)
  case 0
  then obtain rest where r: "ready_threads_list s = General t # rest"
    by (cases "ready_threads_list s") auto
  obtain w where w: "tticks s (current s) = Some w"
    using running_task [OF "0.prems"(1)] by (auto simp: tticks_def)
  from slice_ends [OF "0.prems"(1,2) w refl r] w show ?case by (auto simp: slice_def)
next
  case (Suc i)
  note core = sched_coreD [OF sched_wfD(1) [OF Suc.prems(1)]]
  obtain x rest where xr: "ready_threads_list s = x # rest" using Suc.prems(3) by (cases "ready_threads_list s") auto
  then obtain u where u: "x = General u" using core(1) by (auto simp: ready_ok_def)
  obtain w where w: "tticks s (current s) = Some w"
    using running_task [OF Suc.prems(1)] by (auto simp: tticks_def)
  obtain s1 where s1: "run_timer (Suc (unat w)) s = Inr s1" "sched_wf s1" "magic_ok s1" "current s1 = u"
      "ready_threads_list s1 = rest @ [General (current s)]"
      "\<forall>t. t \<noteq> current s \<longrightarrow> tticks s1 t = tticks s t"
    using slice_ends [OF Suc.prems(1,2) w refl, of u rest] xr u by auto
  have i: "i < length rest" "rest ! i = General t" using Suc.prems(3,4) xr by auto
  then obtain n s2 where s2: "n = slice s1 (current s1) + (\<Sum>j<i. slice s1 (tid_of (ready_threads_list s1 ! j)))"
      "run_timer n s1 = Inr s2" "current s2 = t" "sched_wf s2"
    using Suc.IH [OF s1(2,3)] s1(5) by (auto simp: nth_append)
  have notcur: "y \<noteq> current s" if "General y \<in> set (ready_threads_list s)" for y
    using that ready_okD [OF core(1), of y] sched_wfD(2) [OF Suc.prems(1)] by auto
  have "slice s1 (tid_of (ready_threads_list s1 ! j)) = slice s (tid_of (ready_threads_list s ! Suc j))" if "j < i" for j
  proof -
    have j: "rest ! j \<in> set (ready_threads_list s)" using that i(1) xr by simp
    then obtain y where y: "rest ! j = General y" using core(1) by (auto simp: ready_ok_def)
    with j notcur have "y \<noteq> current s" by simp
    with s1(5,6) y that i(1) xr show ?thesis by (simp add: nth_append slice_def)
  qed
  moreover have "slice s1 (current s1) = slice s u"
    using s1(4,6) notcur [of u] xr u by (simp add: slice_def)
  ultimately have "n = (\<Sum>j<Suc i. slice s (tid_of (ready_threads_list s ! j)))"
    using s2(1) xr u by (simp add: sum.lessThan_Suc_shift del: sum.lessThan_Suc)
  moreover have "run_timer (Suc (unat w) + n) s = Inr s2" using s1(1) s2(2) by (simp only: run_timer_add rbind_Inr)
  ultimately show ?case using s2(3,4) w by (auto simp: slice_def)
qed

section \<open>Properties\<close>

text \<open>A small system for the witnesses: thread 1 runs, thread 2 is ready, thread 3 is idle.\<close>

definition demo_task :: "task_stat \<Rightarrow> byte \<Rightarrow> pid_t \<Rightarrow> task" where
  "demo_task st n p = \<lparr>name = ''t'', stat = st, prio = 31, ticks = n, pid = p, parent_pid = 1, pml4 = None,
     exit_status = 0, fd_table = [0, 1, 2, -1, -1, -1, -1, -1], cwd_i_no = 0,
     istack_magic = STACK_MAGIC, stack_magic = STACK_MAGIC\<rparr>"

definition demo_sched :: sched where
  "demo_sched = \<lparr>tasks = [1 \<mapsto> demo_task TASK_RUNNING 1 1, 2 \<mapsto> demo_task TASK_READY 4 2,
       3 \<mapsto> demo_task TASK_BLOCKED 10 3],
     current = 1, main_thread = 1, idle_thread = 3, init_proc = 2,
     all_threads_list = [AllTag 1, AllTag 2, AllTag 3], ready_threads_list = [General 2],
     intr = intr_on, ist2 = 1, timer_ticks = 0,
     semas = (\<lambda>_. \<lparr>sval = 1, waiters = []\<rparr>), locks = (\<lambda>_. \<lparr>holder = None, holder_repeat_nr = 0\<rparr>),
     pid_bitmap = \<lparr>bytes_len = 128, bits = 7 # replicate 127 0\<rparr>, pages_freed = []\<rparr>"

lemma demo_sched_wf: "sched_wf demo_sched"
  by (auto simp: sched_wf_def sched_core_def ready_ok_def waiters_ok_def run_ok_def idle_ok_def
      tstat_def demo_sched_def demo_task_def split: if_splits)

lemma demo_sched_magic: "magic_ok demo_sched"
  by (auto simp: magic_ok_def ran_def demo_sched_def demo_task_def split: if_splits)

text \<open>
  C5. Blocking: on a well-formed system \<^verbatim>\<open>thread_block\<close> never trips an assertion; the head of
  the ready list runs next (the idle thread when nothing is ready), the blocked thread has the
  state asked for, no other thread changes state, and the scheduler invariant holds again.
\<close>
theorem thread_block_correct:
  assumes "sched_wf s" "suspendable st"
  shows "\<exists>s'. thread_block st s = Inr (intr s, s') \<and> sched_wf s' \<and>
    current s' = head_or_idle s \<and> ready_threads_list s' = tl (ready_threads_list s) \<and>
    (\<forall>t. tstat s' t = (if t = head_or_idle s then Some TASK_RUNNING
       else if t = current s then Some st else tstat s t))"
  using thread_block_running [OF assms] by blast

theorem thread_block_correct_witness:
  "\<exists>s'. thread_block TASK_WAITING demo_sched = Inr (intr demo_sched, s') \<and> sched_wf s' \<and>
    current s' = head_or_idle demo_sched \<and> ready_threads_list s' = tl (ready_threads_list demo_sched) \<and>
    (\<forall>t. tstat s' t = (if t = head_or_idle demo_sched then Some TASK_RUNNING
       else if t = current demo_sched then Some TASK_WAITING else tstat demo_sched t))"
  by (rule thread_block_correct [OF demo_sched_wf]) simp

text \<open>
  C6. Round robin is starvation free: while threads only compute and timer interrupts arrive,
  the thread at position \<open>i\<close> of the ready list is running after exactly the remaining slice of
  the current thread plus the slices of the threads before it, and no assertion fires.
\<close>
theorem round_robin_no_starvation:
  assumes "sched_wf s" "magic_ok s" "i < length (ready_threads_list s)"
    and "ready_threads_list s ! i = General t"
  shows "\<exists>s'. run_timer (slice s (current s) + (\<Sum>j<i. slice s (tid_of (ready_threads_list s ! j)))) s = Inr s' \<and>
    current s' = t \<and> sched_wf s'"
  using reaches_processor [OF assms] by blast

theorem round_robin_no_starvation_witness:
  "\<exists>s'. run_timer (slice demo_sched (current demo_sched) +
       (\<Sum>j<0. slice demo_sched (tid_of (ready_threads_list demo_sched ! j)))) demo_sched = Inr s' \<and>
     current s' = 2 \<and> sched_wf s'"
  by (rule round_robin_no_starvation [OF demo_sched_wf demo_sched_magic]) (simp_all add: demo_sched_def)

text \<open>
  \<^verbatim>\<open>thread_yield\<close> rotates the ready list: the current thread goes to its tail and the old
  head runs, so yielding never loses or duplicates a thread; the invariant is kept.
\<close>
theorem thread_yield_rotates:
  assumes "sched_wf s"
  shows "\<exists>s'. thread_yield s = Inr (intr s, s') \<and> sched_wf s' \<and>
    General (current s') # ready_threads_list s' = ready_threads_list s @ [General (current s)]"
  using thread_yield_spec [OF assms] by blast

theorem thread_yield_rotates_witness:
  "\<exists>s'. thread_yield demo_sched = Inr (intr demo_sched, s') \<and> sched_wf s' \<and>
    General (current s') # ready_threads_list s' = ready_threads_list demo_sched @ [General (current demo_sched)]"
  by (rule thread_yield_rotates [OF demo_sched_wf])

end
