(* ===== verification/Sync.thy ===== *)
theory Sync
  imports Sched
begin

text \<open>
  Semaphores and locks of \<^verbatim>\<open>thread/sync.c\<close> over the scheduler of theory \<open>Sched\<close>, and the
  system of many threads that use them. A blocking operation is cut at the places where the
  processor can go to another thread: \<open>sema_down_turn\<close> is one round of the \<^verbatim>\<open>while\<close> loop of
  \<^verbatim>\<open>sema_down\<close>, and every thread has a program counter that says where in \<^verbatim>\<open>lock_acquire\<close> or
  \<^verbatim>\<open>lock_release\<close> it stands. \<open>lock_step\<close> is the step function of the whole system, timer
  preemption, resumption after a switch and the idle loop included.
\<close>

section \<open>Semaphores\<close>

definition put_sema :: "sema_id \<Rightarrow> semaphore \<Rightarrow> 'a sched_scheme \<Rightarrow> 'a sched_scheme" where
  "put_sema q x s = s\<lparr>semas := (semas s)(q := x)\<rparr>"

definition sema_init :: "sema_id \<Rightarrow> byte \<Rightarrow> 'a sched_scheme \<Rightarrow> 'a sched_scheme res" where
  "sema_init q value s =
     rbind (kassert (value = 0 \<or> value = 1) ''value == 0 || value == 1'') (\<lambda>_.
     Inr (put_sema q \<lparr>sval = value, waiters = []\<rparr> s))"

text \<open>
  One round of the loop of \<^verbatim>\<open>sema_down\<close>, with interrupts off: either the value is taken
  (\<open>True\<close>), or the current thread is parked and another one runs (\<open>False\<close>); the parked thread
  continues with the next round. \<open>sema_down_enter\<close> and \<open>sema_down_leave\<close> are the two calls of
  \<^verbatim>\<open>set_intr_stat\<close> around the loop.
\<close>

definition sema_down_enter :: "'a sched_scheme \<Rightarrow> intr_stat \<times> 'a sched_scheme" where
  "sema_down_enter s = set_intr_stat intr_off s"

definition sema_down_turn :: "sema_id \<Rightarrow> 'a sched_scheme \<Rightarrow> (bool \<times> 'a sched_scheme) res" where
  "sema_down_turn q s =
     (let x = semas s q in
      if sval x = 0 then
        rbind (kassert (General (current s) \<notin> set (waiters x)) ''!elem_find(&psema->waiters)'') (\<lambda>_.
        rbind (thread_block TASK_BLOCKED
            (put_sema q (x\<lparr>waiters := waiters x @ [General (current s)]\<rparr>) s)) (\<lambda>(_, s).
        Inr (False, s)))
      else
        rbind (kassert (sval x - 1 = 0) ''psema->value == 0'') (\<lambda>_.
        Inr (True, put_sema q (x\<lparr>sval := sval x - 1\<rparr>) s)))"

definition sema_down_leave :: "intr_stat \<Rightarrow> 'a sched_scheme \<Rightarrow> 'a sched_scheme" where
  "sema_down_leave old_stat s = snd (set_intr_stat old_stat s)"

definition sema_up :: "sema_id \<Rightarrow> 'a sched_scheme \<Rightarrow> 'a sched_scheme res" where
  "sema_up q s =
     (let (old_stat, s) = set_intr_stat intr_off s; x = semas s q in
      rbind (kassert (sval x = 0) ''psema->value == 0'') (\<lambda>_.
      rbind (case waiters x of
               [] \<Rightarrow> Inr s
             | General t # ws \<Rightarrow> thread_unblock t (put_sema q (x\<lparr>waiters := ws\<rparr>) s)
             | AllTag t # ws \<Rightarrow> Inl (Fault ''elem2entry'')) (\<lambda>s.
      let x = semas s q; s = put_sema q (x\<lparr>sval := sval x + 1\<rparr>) s in
      rbind (kassert (sval (semas s q) = 1) ''psema->value == 1'') (\<lambda>_.
      Inr (snd (set_intr_stat old_stat s))))))"

section \<open>Locks\<close>

definition put_lock :: "lock_id \<Rightarrow> klock \<Rightarrow> 'a sched_scheme \<Rightarrow> 'a sched_scheme" where
  "put_lock l k s = s\<lparr>locks := (locks s)(l := k)\<rparr>"

definition lock_init :: "lock_id \<Rightarrow> 'a sched_scheme \<Rightarrow> 'a sched_scheme res" where
  "lock_init l s = sema_init (LockSema l) 1 (put_lock l \<lparr>holder = None, holder_repeat_nr = 0\<rparr> s)"

text \<open>
  The two functions in one piece, for callers that run with interrupts off: \<open>lock_acquire\<close> as far
  as it gets before the processor is lost (\<open>False\<close>: parked in \<^verbatim>\<open>sema_down\<close>); \<open>lock_release\<close> never
  loses the processor.
\<close>

definition lock_acquire :: "lock_id \<Rightarrow> 'a sched_scheme \<Rightarrow> (bool \<times> 'a sched_scheme) res" where
  "lock_acquire l s =
     (let k = locks s l; t = running_thread s in
      if holder k \<noteq> Some t then
        let (old_stat, s) = sema_down_enter s in
        rbind (sema_down_turn (LockSema l) s) (\<lambda>(done, s).
          if done then
            let s = sema_down_leave old_stat s; k = (locks s l)\<lparr>holder := Some t\<rparr> in
            rbind (kassert (holder_repeat_nr k = 0) ''plock->holder_repeat_nr == 0'') (\<lambda>_.
            Inr (True, put_lock l (k\<lparr>holder_repeat_nr := holder_repeat_nr k + 1\<rparr>) s))
          else Inr (False, s))
      else Inr (True, put_lock l (k\<lparr>holder_repeat_nr := holder_repeat_nr k + 1\<rparr>) s))"

definition lock_release :: "lock_id \<Rightarrow> 'a sched_scheme \<Rightarrow> 'a sched_scheme res" where
  "lock_release l s =
     (let k = locks s l in
      rbind (kassert (holder k = Some (running_thread s)) ''plock->holder == running_thread()'') (\<lambda>_.
      if holder_repeat_nr k > 1 then
        Inr (put_lock l (k\<lparr>holder_repeat_nr := holder_repeat_nr k - 1\<rparr>) s)
      else
        rbind (kassert (holder_repeat_nr k = 1) ''plock->holder_repeat_nr == 1'') (\<lambda>_.
        sema_up (LockSema l) (put_lock l (k\<lparr>holder := None, holder_repeat_nr := 0\<rparr>) s))))"

text \<open>
  The program counter of a thread: outside the two functions (\<open>Compute\<close>), in the loop of
  \<^verbatim>\<open>sema_down\<close> with the saved interrupt flag, between \<^verbatim>\<open>sema_down\<close> and the assignment of the
  holder, or between the clearing of the holder and \<^verbatim>\<open>sema_up\<close>. \<open>susp\<close> holds the interrupt flag
  a thread restores when it runs again after it lost the processor: the \<^verbatim>\<open>old_stat\<close> of
  \<^verbatim>\<open>thread_block\<close>, or \<open>intr_on\<close> for a preempted thread, whose \<^verbatim>\<open>iret\<close> sets the flag.
\<close>

datatype pc =
    Compute
  | is_Down: Down lock_id intr_stat
  | is_Own: Own lock_id
  | is_Releasing: Releasing lock_id

record lock_sys = sched +
  pcs :: "tid \<Rightarrow> pc"
  susp :: "tid \<Rightarrow> intr_stat option"

definition set_pc :: "tid \<Rightarrow> pc \<Rightarrow> lock_sys \<Rightarrow> lock_sys" where
  "set_pc t p s = s\<lparr>pcs := (pcs s)(t := p)\<rparr>"

definition suspend :: "tid \<Rightarrow> intr_stat \<Rightarrow> lock_sys \<Rightarrow> lock_sys" where
  "suspend t i s = s\<lparr>susp := (susp s)(t := Some i)\<rparr>"

definition lock_acquire_enter :: "lock_id \<Rightarrow> lock_sys \<Rightarrow> lock_sys res" where
  "lock_acquire_enter l s =
     (let k = locks s l; t = running_thread s in
      if holder k \<noteq> Some t then
        let (old_stat, s) = sema_down_enter s in Inr (set_pc t (Down l old_stat) s)
      else Inr (put_lock l (k\<lparr>holder_repeat_nr := holder_repeat_nr k + 1\<rparr>) s))"

definition lock_acquire_turn :: "lock_id \<Rightarrow> intr_stat \<Rightarrow> lock_sys \<Rightarrow> lock_sys res" where
  "lock_acquire_turn l old_stat s =
     rbind (sema_down_turn (LockSema l) s) (\<lambda>(done, s').
       if done then Inr (set_pc (current s) (Own l) (sema_down_leave old_stat s'))
       else Inr (suspend (current s) (intr s) s'))"

definition lock_acquire_finish :: "lock_id \<Rightarrow> lock_sys \<Rightarrow> lock_sys res" where
  "lock_acquire_finish l s =
     (let t = running_thread s; k = (locks s l)\<lparr>holder := Some t\<rparr> in
      rbind (kassert (holder_repeat_nr k = 0) ''plock->holder_repeat_nr == 0'') (\<lambda>_.
      Inr (set_pc t Compute (put_lock l (k\<lparr>holder_repeat_nr := holder_repeat_nr k + 1\<rparr>) s))))"

definition lock_release_enter :: "lock_id \<Rightarrow> lock_sys \<Rightarrow> lock_sys res" where
  "lock_release_enter l s =
     (let t = running_thread s; k = locks s l in
      rbind (kassert (holder k = Some t) ''plock->holder == running_thread()'') (\<lambda>_.
      if holder_repeat_nr k > 1 then
        Inr (put_lock l (k\<lparr>holder_repeat_nr := holder_repeat_nr k - 1\<rparr>) s)
      else
        rbind (kassert (holder_repeat_nr k = 1) ''plock->holder_repeat_nr == 1'') (\<lambda>_.
        Inr (set_pc t (Releasing l) (put_lock l (k\<lparr>holder := None, holder_repeat_nr := 0\<rparr>) s)))))"

definition lock_release_finish :: "lock_id \<Rightarrow> lock_sys \<Rightarrow> lock_sys res" where
  "lock_release_finish l s =
     rbind (sema_up (LockSema l) s) (\<lambda>s. Inr (set_pc (running_thread s) Compute s))"

text \<open>
  The idle loop: block, and after resumption enable interrupts (\<^verbatim>\<open>sti; hlt\<close>); the two together
  with \<open>susp\<close> as the place where the flag is restored. The timer tick of a running thread is
  \<open>intr_time_hdl\<close> with interrupts off; its \<^verbatim>\<open>iret\<close> is the resumption of the interrupted thread.
\<close>

definition idle_turn :: "lock_sys \<Rightarrow> lock_sys res" where
  "idle_turn s = rbind (thread_block TASK_BLOCKED s) (\<lambda>(_, s'). Inr (suspend (current s) intr_on s'))"

definition preempt :: "lock_sys \<Rightarrow> lock_sys res" where
  "preempt s = rbind (intr_time_hdl (s\<lparr>intr := intr_off\<rparr>)) (\<lambda>s'. Inr (suspend (current s) intr_on s'))"

definition resume :: "lock_sys \<Rightarrow> lock_sys" where
  "resume s = (case susp s (current s) of
       None \<Rightarrow> s
     | Some i \<Rightarrow> thread_block_resume i (s\<lparr>susp := (susp s)(current s := None)\<rparr>))"

datatype lock_act = Acquire lock_id | Turn | TakeHolder | Release lock_id | Up | IdleTurn | Tick | Resume

fun lock_step :: "lock_act \<Rightarrow> lock_sys \<Rightarrow> lock_sys res" where
  "lock_step (Acquire l) s = lock_acquire_enter l s"
| "lock_step Turn s = (case pcs s (current s) of Down l i \<Rightarrow> lock_acquire_turn l i s | _ \<Rightarrow> Inr s)"
| "lock_step TakeHolder s = (case pcs s (current s) of Own l \<Rightarrow> lock_acquire_finish l s | _ \<Rightarrow> Inr s)"
| "lock_step (Release l) s = lock_release_enter l s"
| "lock_step Up s = (case pcs s (current s) of Releasing l \<Rightarrow> lock_release_finish l s | _ \<Rightarrow> Inr s)"
| "lock_step IdleTurn s = idle_turn s"
| "lock_step Tick s = preempt s"
| "lock_step Resume s = Inr (resume s)"

text \<open>
  Which action may come: the current thread first resumes; then it continues the function it
  is in. New calls come from threads other than the idle one, a lock is released by its holder
  only, and a lock is not nested \<open>2 ^ 64 - 1\<close> times.
\<close>

fun enabled :: "lock_act \<Rightarrow> lock_sys \<Rightarrow> bool" where
  "enabled Resume s \<longleftrightarrow> susp s (current s) \<noteq> None"
| "enabled Tick s \<longleftrightarrow> susp s (current s) = None \<and> intr s = intr_on"
| "enabled IdleTurn s \<longleftrightarrow> susp s (current s) = None \<and> current s = idle_thread s"
| "enabled (Acquire l) s \<longleftrightarrow> susp s (current s) = None \<and> current s \<noteq> idle_thread s \<and>
     pcs s (current s) = Compute \<and> holder_repeat_nr (locks s l) \<noteq> -1"
| "enabled (Release l) s \<longleftrightarrow> susp s (current s) = None \<and> current s \<noteq> idle_thread s \<and>
     pcs s (current s) = Compute \<and> holder (locks s l) = Some (current s)"
| "enabled Turn s \<longleftrightarrow> susp s (current s) = None \<and> is_Down (pcs s (current s))"
| "enabled TakeHolder s \<longleftrightarrow> susp s (current s) = None \<and> is_Own (pcs s (current s))"
| "enabled Up s \<longleftrightarrow> susp s (current s) = None \<and> is_Releasing (pcs s (current s))"

inductive lock_steps :: "lock_sys \<Rightarrow> lock_sys \<Rightarrow> bool" where
  steps_refl: "lock_steps s s"
| steps_step: "\<lbrakk> lock_steps s u; enabled a u; lock_step a u = Inr v \<rbrakk> \<Longrightarrow> lock_steps s v"

section \<open>Invariant\<close>

text \<open>
  \<open>inside p k t l\<close>: thread \<open>t\<close> is between \<^verbatim>\<open>sema_down\<close> and \<^verbatim>\<open>sema_up\<close> of lock \<open>l\<close>. The invariant of
  one lock, over the parts of the state it speaks of: the semaphore's value is 1 and nobody is
  inside, or 0 and exactly one thread is; the repeat count is 0 exactly when there is no holder;
  the waiters are the blocked threads in the loop of \<^verbatim>\<open>sema_down\<close>; and if the lock is free while
  threads wait, a woken thread is on its way.
\<close>

definition inside :: "(tid \<Rightarrow> pc) \<Rightarrow> klock \<Rightarrow> lock_id \<Rightarrow> tid \<Rightarrow> bool" where
  "inside p k l t \<longleftrightarrow> p t = Own l \<or> holder k = Some t \<or> p t = Releasing l"

definition in_down :: "(tid \<Rightarrow> pc) \<Rightarrow> lock_id \<Rightarrow> tid \<Rightarrow> bool" where
  "in_down p l t \<longleftrightarrow> (\<exists>i. p t = Down l i)"

definition active :: "(tid \<Rightarrow> task_stat option) \<Rightarrow> tid \<Rightarrow> bool" where
  "active st t \<longleftrightarrow> st t = Some TASK_READY \<or> st t = Some TASK_RUNNING"

definition token_ok :: "byte \<Rightarrow> (tid \<Rightarrow> pc) \<Rightarrow> klock \<Rightarrow> lock_id \<Rightarrow> bool" where
  "token_ok v p k l \<longleftrightarrow> (v = 1 \<and> (\<forall>t. \<not> inside p k l t)) \<or> (v = 0 \<and> (\<exists>!t. inside p k l t))"

definition holder_ok :: "(tid \<Rightarrow> pc) \<Rightarrow> klock \<Rightarrow> lock_id \<Rightarrow> bool" where
  "holder_ok p k l \<longleftrightarrow> (holder k = None \<longleftrightarrow> holder_repeat_nr k = 0) \<and>
     (\<forall>t. p t = Own l \<or> p t = Releasing l \<longrightarrow> holder k = None)"

definition waiting_ok :: "tag list \<Rightarrow> (tid \<Rightarrow> pc) \<Rightarrow> (tid \<Rightarrow> task_stat option) \<Rightarrow> lock_id \<Rightarrow> bool" where
  "waiting_ok ws p st l \<longleftrightarrow>
     (\<forall>t. General t \<in> set ws \<longleftrightarrow> in_down p l t \<and> \<not> active st t)"

definition wakeup_ok :: "semaphore \<Rightarrow> (tid \<Rightarrow> pc) \<Rightarrow> (tid \<Rightarrow> task_stat option) \<Rightarrow> lock_id \<Rightarrow> bool" where
  "wakeup_ok x p st l \<longleftrightarrow> sval x = 1 \<and> waiters x \<noteq> [] \<longrightarrow> (\<exists>t. in_down p l t \<and> active st t)"

definition lock_ok :: "semaphore \<Rightarrow> klock \<Rightarrow> (tid \<Rightarrow> pc) \<Rightarrow> (tid \<Rightarrow> task_stat option) \<Rightarrow> lock_id \<Rightarrow> bool" where
  "lock_ok x k p st l \<longleftrightarrow> token_ok (sval x) p k l \<and> holder_ok p k l \<and> waiting_ok (waiters x) p st l \<and>
     wakeup_ok x p st l"

definition lock_inv :: "lock_sys \<Rightarrow> bool" where
  "lock_inv s \<longleftrightarrow> sched_wf s \<and> magic_ok s \<and> pcs s (idle_thread s) = Compute \<and>
     (\<forall>l. lock_ok (semas s (LockSema l)) (locks s l) (pcs s) (tstat s) l)"

lemmas lock_ok_defs = lock_ok_def token_ok_def holder_ok_def waiting_ok_def wakeup_ok_def

lemma lock_invD:
  assumes "lock_inv s"
  shows "sched_wf s" "magic_ok s" "pcs s (idle_thread s) = Compute"
    "lock_ok (semas s (LockSema l)) (locks s l) (pcs s) (tstat s) l"
  using assms by (simp_all add: lock_inv_def)

lemma lock_invI:
  assumes "sched_wf s" "magic_ok s" "pcs s (idle_thread s) = Compute"
    "\<And>l. lock_ok (semas s (LockSema l)) (locks s l) (pcs s) (tstat s) l"
  shows "lock_inv s"
  using assms by (simp add: lock_inv_def)

text \<open>The invariant of a lock looks at who is active only; moving another thread between the
  loop and \<open>Compute\<close> does not matter to a lock it does not concern.\<close>

lemma lock_ok_active:
  assumes "lock_ok x k p st l" "\<And>t. in_down p l t \<Longrightarrow> active st' t = active st t"
  shows "lock_ok x k p st' l"
  using assms unfolding lock_ok_def waiting_ok_def wakeup_ok_def by metis

lemma inside_other:
  "p t \<noteq> Own l \<Longrightarrow> p t \<noteq> Releasing l \<Longrightarrow> q \<noteq> Own l \<Longrightarrow> q \<noteq> Releasing l \<Longrightarrow>
    inside (p(t := q)) k l u = inside p k l u"
  by (simp add: inside_def)

lemma lock_ok_pc:
  assumes "lock_ok x k p st l" "active st t"
    and "p t \<noteq> Own l" "p t \<noteq> Releasing l" "q \<noteq> Own l" "q \<noteq> Releasing l"
    and "in_down p l t \<Longrightarrow> (\<exists>i. q = Down l i)"
  shows "lock_ok x k (p(t := q)) st l"
proof -
  have "token_ok (sval x) (p(t := q)) k l"
    using assms(1) inside_other [of p t l q, OF assms(3-6)] by (simp add: lock_ok_def token_ok_def)
  moreover have "holder_ok (p(t := q)) k l" using assms by (auto simp: lock_ok_def holder_ok_def)
  moreover have "waiting_ok (waiters x) (p(t := q)) st l"
    using assms(1,2) by (auto simp: lock_ok_def waiting_ok_def in_down_def)
  moreover have "wakeup_ok x (p(t := q)) st l"
    using assms(1,2,7) by (auto simp: lock_ok_def wakeup_ok_def in_down_def) metis+
  ultimately show ?thesis by (simp add: lock_ok_def)
qed

lemma set_pc_simps [simp]:
  "sched_wf (set_pc t p s) = sched_wf s" "magic_ok (set_pc t p s) = magic_ok s"
  "tstat (set_pc t p s) = tstat s" "semas (set_pc t p s) = semas s" "locks (set_pc t p s) = locks s"
  "pcs (set_pc t p s) = (pcs s)(t := p)" "idle_thread (set_pc t p s) = idle_thread s"
  "current (set_pc t p s) = current s" "intr (set_pc t p s) = intr s" "susp (set_pc t p s) = susp s"
  by (simp_all add: set_pc_def sched_wf_def sched_core_def ready_ok_def waiters_ok_def run_ok_def
      idle_ok_def magic_ok_def tstat_def fun_eq_iff)

lemma suspend_simps [simp]:
  "sched_wf (suspend t i s) = sched_wf s" "magic_ok (suspend t i s) = magic_ok s"
  "tstat (suspend t i s) = tstat s" "semas (suspend t i s) = semas s" "locks (suspend t i s) = locks s"
  "pcs (suspend t i s) = pcs s" "idle_thread (suspend t i s) = idle_thread s"
  "current (suspend t i s) = current s" "intr (suspend t i s) = intr s"
  by (simp_all add: suspend_def sched_wf_def sched_core_def ready_ok_def waiters_ok_def run_ok_def
      idle_ok_def magic_ok_def tstat_def fun_eq_iff)

lemma put_lock_simps [simp]:
  "sched_wf (put_lock l k s) = sched_wf s" "magic_ok (put_lock l k s) = magic_ok s"
  "tstat (put_lock l k s) = tstat s" "semas (put_lock l k s) = semas s"
  "locks (put_lock l k s) = (locks s)(l := k)" "idle_thread (put_lock l k s) = idle_thread s"
  "current (put_lock l k s) = current s" "intr (put_lock l k s) = intr s"
  by (simp_all add: put_lock_def sched_wf_def sched_core_def ready_ok_def waiters_ok_def run_ok_def
      idle_ok_def magic_ok_def tstat_def fun_eq_iff)

lemma put_lock_more [simp]:
  "pcs (put_lock l k s) = pcs s" "susp (put_lock l k s) = susp s"
  by (simp_all add: put_lock_def)

lemma put_sema_simps [simp]:
  "magic_ok (put_sema q x s) = magic_ok s" "tstat (put_sema q x s) = tstat s"
  "semas (put_sema q x s) = (semas s)(q := x)" "locks (put_sema q x s) = locks s"
  "idle_thread (put_sema q x s) = idle_thread s" "current (put_sema q x s) = current s"
  "intr (put_sema q x s) = intr s" "ready_ok (put_sema q x s) = ready_ok s"
  "run_ok (put_sema q x s) = run_ok s" "idle_ok (put_sema q x s) = idle_ok s"
  "ist2 (put_sema q x s) = ist2 s" "tasks (put_sema q x s) = tasks s"
  "ready_threads_list (put_sema q x s) = ready_threads_list s"
  by (simp_all add: put_sema_def ready_ok_def run_ok_def idle_ok_def magic_ok_def tstat_def fun_eq_iff)

lemma put_sema_more [simp]:
  "pcs (put_sema q x s) = pcs s" "susp (put_sema q x s) = susp s"
  by (simp_all add: put_sema_def)

lemma intr_simps [simp]:
  "magic_ok (s\<lparr>intr := i\<rparr>) = magic_ok s" "tstat (s\<lparr>intr := i\<rparr>) = tstat s"
  "ready_ok (s\<lparr>intr := i\<rparr>) = ready_ok s" "run_ok (s\<lparr>intr := i\<rparr>) = run_ok s"
  "idle_ok (s\<lparr>intr := i\<rparr>) = idle_ok s"
  by (simp_all add: magic_ok_def tstat_def ready_ok_def run_ok_def idle_ok_def fun_eq_iff)

lemma susp_simps [simp]:
  "sched_wf (s\<lparr>susp := f\<rparr>) = sched_wf s" "magic_ok (s\<lparr>susp := f\<rparr>) = magic_ok s"
  "tstat (s\<lparr>susp := f\<rparr>) = tstat s"
  by (simp_all add: sched_wf_def sched_core_def ready_ok_def waiters_ok_def run_ok_def
      idle_ok_def magic_ok_def tstat_def fun_eq_iff)

text \<open>What a scheduling function leaves alone in the larger state.\<close>

lemma frame_lock_sys:
  assumes "sched_frame s s'"
  shows "pcs s' = pcs s" "susp s' = susp s" "semas s' = semas s" "locks s' = locks s"
    "idle_thread s' = idle_thread s"
  using assms by (cases s; cases s'; simp add: sched_frame_def)+

section \<open>Every step keeps the invariant\<close>

lemma lock_ok_at: "lock_inv s \<Longrightarrow> lock_ok (semas s (LockSema l)) (locks s l) (pcs s) (tstat s) l"
  by (rule lock_invD(4))

lemma current_active: "sched_wf s \<Longrightarrow> active (tstat s) (current s)"
  by (simp add: active_def sched_wf_def)

text \<open>A step that only moves the scheduler keeps the locks if nobody in a loop changes activity.\<close>

lemma lock_inv_sched:
  assumes "lock_inv s" "sched_wf s'" "magic_ok s'" "pcs s' = pcs s" "semas s' = semas s"
    "locks s' = locks s" "idle_thread s' = idle_thread s"
    "\<And>t. t \<noteq> idle_thread s \<Longrightarrow> active (tstat s') t = active (tstat s) t"
  shows "lock_inv s'"
proof (rule lock_invI)
  fix l
  have "active (tstat s') t = active (tstat s) t" if "in_down (pcs s) l t" for t
    using that assms(8) [of t] lock_invD(3) [OF assms(1)] by (cases "t = idle_thread s") (auto simp: in_down_def)
  with lock_ok_at [OF assms(1)] show "lock_ok (semas s' (LockSema l)) (locks s' l) (pcs s') (tstat s') l"
    unfolding assms(4-6) by (rule lock_ok_active)
qed (use assms lock_invD(3) [OF assms(1)] in simp_all)

lemma lock_inv_resume:
  assumes "lock_inv s"
  shows "lock_inv (resume s)"
  using lock_invD(1,2) [OF assms]
  by (intro lock_inv_sched [OF assms]) (simp_all add: resume_def thread_block_resume_def split: option.split)

lemma ready_after_wf:
  assumes "sched_wf s"
  shows "\<exists>u rest. ready_after s = General u # rest \<and> next_thread s = u \<and> active (tstat s) u"
proof -
  have core: "ready_ok s" using assms by (simp add: sched_wf_def sched_core_def)
  have after: "ready_after s = ready_threads_list s @ [General (current s)]"
    using sched_wfD(2) [OF assms] by (simp add: ready_after_def)
  show ?thesis
  proof (cases "ready_threads_list s")
    case Nil
    then show ?thesis using after current_active [OF assms] by (simp add: next_thread_def)
  next
    case (Cons x xs)
    then obtain u where "x = General u" using core by (auto simp: ready_ok_def)
    with Cons after ready_okD [OF core, of u] show ?thesis
      by (simp add: next_thread_def active_def)
  qed
qed

lemma tick_spec:
  assumes "sched_wf s" "magic_ok s" "intr s = intr_off"
  shows "\<exists>s'. intr_time_hdl s = Inr s' \<and> sched_wf s' \<and> magic_ok s' \<and>
    sched_frame (s\<lparr>timer_ticks := timer_ticks s + 1\<rparr>) s' \<and> (\<forall>t. active (tstat s') t = active (tstat s) t)"
proof -
  obtain k where k: "tasks s (current s) = Some k" "stat k = TASK_RUNNING"
    using running_task [OF assms(1)] by blast
  let ?s = "s\<lparr>timer_ticks := timer_ticks s + 1\<rparr>"
  note magic = magic_okD [OF assms(2) k(1)]
  show ?thesis
  proof (cases "ticks k = 0")
    case True
    have wf: "sched_wf ?s" using assms(1) by (simp add: sched_wf_def)
    obtain u where u: "next_thread ?s = u" "active (tstat ?s) u" using ready_after_wf [OF wf] by blast
    obtain s' where s': "schedule ?s = Inr s'" "sched_wf s'" "sched_frame ?s s'"
        "\<forall>t. tstat s' t = (if t = next_thread ?s then Some TASK_RUNNING
          else if tstat ?s t = Some TASK_RUNNING then Some TASK_READY else tstat ?s t)"
      using schedule_spec [OF sched_wfD(1) [OF wf], of k] k assms(3) by auto
    have "active (tstat s') t = active (tstat s) t" for t
      using s'(4) u by (cases "t = u") (simp_all add: active_def)
    moreover have "magic_ok s'" using magic_ok_frame [OF _ s'(3)] assms(2) by simp
    moreover have "intr_time_hdl s = Inr s'"
      using k(1) True magic s'(1) by (simp add: intr_time_hdl_def)
    ultimately show ?thesis using s' by blast
  next
    case False
    let ?t = "put_task (current s) (k\<lparr>ticks := ticks k - 1\<rparr>) ?s"
    obtain s' where s': "intr_time_hdl s = Inr s'" "sched_wf s'" "magic_ok s'"
      using tick_counts [OF assms(1,2) k(1) False] by blast
    have eq: "s' = ?t"
      using s'(1) k(1) magic False by (simp add: intr_time_hdl_def)
    have "sched_frame ?s ?t"
      using sched_frame_put(1) [of ?s "current s" k "k\<lparr>ticks := ticks k - 1\<rparr>" "ready_threads_list s"] k(1)
      by simp
    moreover have "active (tstat ?t) t = active (tstat s) t" for t
      using k by (simp add: active_def tstat_def)
    ultimately show ?thesis using s' unfolding eq by blast
  qed
qed

lemma lock_inv_preempt:
  assumes "lock_inv s"
  shows "\<exists>s'. preempt s = Inr s' \<and> lock_inv s'"
proof -
  obtain s' where s': "intr_time_hdl (s\<lparr>intr := intr_off\<rparr>) = Inr s'" "sched_wf s'" "magic_ok s'"
      "sched_frame (s\<lparr>intr := intr_off, timer_ticks := timer_ticks s + 1\<rparr>) s'"
      "\<forall>t. active (tstat s') t = active (tstat s) t"
    using tick_spec [of "s\<lparr>intr := intr_off\<rparr>"] lock_invD(1,2) [OF assms] by auto
  note fr = frame_lock_sys [OF s'(4), simplified]
  have "lock_inv s'"
    by (rule lock_inv_sched [OF assms s'(2,3)]) (simp_all add: fr s'(5))
  then have "lock_inv (suspend (current s) intr_on s')" by (simp add: lock_inv_def)
  then show ?thesis using s'(1) by (simp add: preempt_def)
qed

lemma head_or_idle_active:
  assumes "sched_wf s" "head_or_idle s \<noteq> idle_thread s"
  shows "active (tstat s) (head_or_idle s)" "head_or_idle s \<noteq> current s"
proof -
  obtain t rest where t: "ready_threads_list s = General t # rest" "head_or_idle s = t"
    using assms(2) by (auto simp: head_or_idle_def split: list.splits tag.splits)
  then have "tstat s t = Some TASK_READY"
    using ready_okD [OF sched_coreD(1) [OF sched_wfD(1) [OF assms(1)]], of t] by simp
  then show "active (tstat s) (head_or_idle s)" "head_or_idle s \<noteq> current s"
    using t(2) sched_wfD(2) [OF assms(1)] by (auto simp: active_def)
qed

lemma lock_inv_idle:
  assumes "lock_inv s" "current s = idle_thread s"
  shows "\<exists>s'. idle_turn s = Inr s' \<and> lock_inv s'"
proof -
  note wf = lock_invD(1) [OF assms(1)]
  obtain s' where s': "thread_block TASK_BLOCKED s = Inr (intr s, s')" "sched_wf s'"
      "sched_frame (s\<lparr>intr := intr_off\<rparr>) s'" "current s' = head_or_idle s"
      "\<forall>t. tstat s' t = (if t = head_or_idle s then Some TASK_RUNNING
       else if t = current s then Some TASK_BLOCKED else tstat s t)"
    using thread_block_running [OF wf, of TASK_BLOCKED] by auto
  note fr = frame_lock_sys [OF s'(3), simplified]
  have "magic_ok s'" using magic_ok_frame [OF _ s'(3)] lock_invD(2) [OF assms(1)] by simp
  moreover have "active (tstat s') t = active (tstat s) t" if "t \<noteq> idle_thread s" for t
    using s'(5) that assms(2) head_or_idle_active(1) [OF wf] by (auto simp: active_def)
  ultimately have "lock_inv s'" using lock_inv_sched [OF assms(1) s'(2)] fr by simp
  then have "lock_inv (suspend (current s) intr_on s')" by (simp add: lock_inv_def)
  then show ?thesis using s'(1) by (simp add: idle_turn_def)
qed

lemma lock_inv_set_pc:
  assumes "lock_inv s" "pcs s (current s) = Compute \<or> (\<exists>l i. pcs s (current s) = Down l i \<and> p = Down l i)"
    and "\<And>l. p \<noteq> Own l" "\<And>l. p \<noteq> Releasing l" "current s \<noteq> idle_thread s"
  shows "lock_inv (set_pc (current s) p s)"
proof (rule lock_invI)
  fix l
  show "lock_ok (semas (set_pc (current s) p s) (LockSema l)) (locks (set_pc (current s) p s) l)
      (pcs (set_pc (current s) p s)) (tstat (set_pc (current s) p s)) l"
    using lock_ok_pc [OF lock_ok_at [OF assms(1)], of "current s" l p] assms(2-4)
      current_active [OF lock_invD(1) [OF assms(1)]]
    by (auto simp: in_down_def)
qed (use assms lock_invD [OF assms(1)] in simp_all)

lemma lock_inv_intr:
  assumes "lock_inv s"
  shows "lock_inv (s\<lparr>intr := i\<rparr>)"
  using lock_invD(1,2) [OF assms] by (intro lock_inv_sched [OF assms]) simp_all

text \<open>Nested acquisition and release only change the repeat count.\<close>

lemma lock_inv_repeat:
  assumes "lock_inv s" "holder (locks s l) = Some t" "n \<noteq> 0"
  shows "lock_inv (put_lock l ((locks s l)\<lparr>holder_repeat_nr := n\<rparr>) s)" (is "lock_inv ?s")
proof (rule lock_invI)
  fix m
  show "lock_ok (semas ?s (LockSema m)) (locks ?s m) (pcs ?s) (tstat ?s) m"
    using lock_ok_at [OF assms(1), of m] assms(2,3)
    by (cases "m = l") (auto simp: lock_ok_def token_ok_def holder_ok_def inside_def)
qed (use lock_invD [OF assms(1)] in simp_all)

lemma lock_inv_acquire:
  assumes "lock_inv s" "enabled (Acquire l) s"
  shows "\<exists>s'. lock_acquire_enter l s = Inr s' \<and> lock_inv s'"
proof (cases "holder (locks s l) = Some (current s)")
  case True
  have "holder_repeat_nr (locks s l) + 1 \<noteq> 0"
    using assms(2) by (metis add_eq_0_iff2 enabled.simps(4))
  from lock_inv_repeat [OF assms(1) True this] True show ?thesis
    by (simp add: lock_acquire_enter_def running_thread_def Let_def)
next
  case False
  have "lock_inv (set_pc (current s) (Down l (intr s)) (s\<lparr>intr := intr_off\<rparr>))"
    using lock_inv_set_pc [OF lock_inv_intr [OF assms(1)], of intr_off "Down l (intr s)"] assms(2) by simp
  with False show ?thesis
    by (simp add: lock_acquire_enter_def running_thread_def sema_down_enter_def)
qed

text \<open>The thread that is inside is the only one, and the lock's value is 0 then.\<close>

lemma token_inside:
  assumes "lock_ok x k p st l" "inside p k l t"
  shows "sval x = 0" "\<And>u. inside p k l u \<Longrightarrow> u = t"
  using assms by (auto simp: lock_ok_def token_ok_def)

text \<open>The thread inside takes the next step of its way through the critical section.\<close>

lemma lock_ok_inside_step:
  assumes "lock_ok x k p st l" "inside p k l t" "\<not> in_down p l t"
    and "q = Compute \<and> holder k' = Some t \<and> holder_repeat_nr k' \<noteq> 0 \<or>
      q = Releasing l \<and> holder k' = None \<and> holder_repeat_nr k' = 0"
  shows "lock_ok x k' (p(t := q)) st l"
proof -
  note tok = token_inside [OF assms(1,2)]
  have other: "p u \<noteq> Own l \<and> p u \<noteq> Releasing l" if "u \<noteq> t" for u
    using tok(2) [of u] that by (metis inside_def)
  have ins: "inside (p(t := q)) k' l u \<longleftrightarrow> u = t" for u
    using other [of u] assms(4) by (cases "u = t") (auto simp: inside_def)
  have "token_ok (sval x) (p(t := q)) k' l" unfolding token_ok_def ins using tok(1) by simp
  moreover have "holder_ok (p(t := q)) k' l" unfolding holder_ok_def using other assms(4) by auto
  moreover have down: "in_down (p(t := q)) l u = in_down p l u" for u
    using assms(3,4) by (auto simp: in_down_def)
  ultimately show ?thesis using assms(1) by (simp add: lock_ok_def waiting_ok_def wakeup_ok_def down)
qed

lemma lock_inv_inside_step:
  assumes "lock_inv s" "inside (pcs s) (locks s l) l (current s)"
    and "pcs s (current s) = Own l \<or> pcs s (current s) = Compute"
    and "q = Compute \<and> holder k' = Some (current s) \<and> holder_repeat_nr k' \<noteq> 0 \<or>
      q = Releasing l \<and> holder k' = None \<and> holder_repeat_nr k' = 0"
    and "current s \<noteq> idle_thread s"
  shows "lock_inv (set_pc (current s) q (put_lock l k' s))" (is "lock_inv ?s")
proof (rule lock_invI)
  fix m
  note ok = lock_ok_at [OF assms(1)]
  show "lock_ok (semas ?s (LockSema m)) (locks ?s m) (pcs ?s) (tstat ?s) m"
  proof (cases "m = l")
    case True
    with lock_ok_inside_step [OF ok assms(2) _ assms(4)] assms(3) show ?thesis
      by (auto simp: in_down_def)
  next
    case False
    then show ?thesis
      using lock_ok_pc [OF ok [of m] current_active [OF lock_invD(1) [OF assms(1)]], of q] assms(3,4)
      by (auto simp: in_down_def)
  qed
qed (use lock_invD [OF assms(1)] assms(5) in simp_all)

lemma lock_inv_finish:
  assumes "lock_inv s" "pcs s (current s) = Own l"
  shows "\<exists>s'. lock_acquire_finish l s = Inr s' \<and> lock_inv s'"
proof -
  let ?k = "(locks s l)\<lparr>holder := Some (current s), holder_repeat_nr := 1\<rparr>"
  have zero: "holder_repeat_nr (locks s l) = 0"
    using lock_ok_at [OF assms(1), of l] assms(2) by (auto simp: lock_ok_def holder_ok_def)
  have "current s \<noteq> idle_thread s" using assms lock_invD(3) by force
  moreover have "inside (pcs s) (locks s l) l (current s)" using assms(2) by (simp add: inside_def)
  ultimately have "lock_inv (set_pc (current s) Compute (put_lock l ?k s))"
    using lock_inv_inside_step [OF assms(1), of l Compute ?k] assms(2) by simp
  then show ?thesis using zero by (simp add: lock_acquire_finish_def running_thread_def Let_def)
qed

lemma lock_inv_release:
  assumes "lock_inv s" "enabled (Release l) s"
  shows "\<exists>s'. lock_release_enter l s = Inr s' \<and> lock_inv s'"
proof -
  let ?n = "holder_repeat_nr (locks s l)"
  have hold: "holder (locks s l) = Some (current s)" "pcs s (current s) = Compute"
      "current s \<noteq> idle_thread s"
    using assms(2) by simp_all
  have nz: "?n \<noteq> 0" using lock_ok_at [OF assms(1), of l] hold by (simp add: lock_ok_def holder_ok_def)
  show ?thesis
  proof (cases "?n > 1")
    case True
    then have "?n - 1 \<noteq> 0" by auto
    from lock_inv_repeat [OF assms(1) hold(1) this] True hold show ?thesis
      by (simp add: lock_release_enter_def running_thread_def Let_def)
  next
    case False
    have "unat ?n = 1" using False nz by (simp add: word_less_nat_alt unat_gt_0 [symmetric])
    then have one: "?n = 1" by (simp add: word_unat_eq_iff)
    let ?k = "(locks s l)\<lparr>holder := None, holder_repeat_nr := 0\<rparr>"
    have "inside (pcs s) (locks s l) l (current s)" using hold by (simp add: inside_def)
    then have "lock_inv (set_pc (current s) (Releasing l) (put_lock l ?k s))"
      using lock_inv_inside_step [OF assms(1), of l "Releasing l" ?k] hold by simp
    then show ?thesis using one hold by (simp add: lock_release_enter_def running_thread_def Let_def)
  qed
qed

lemma waiters_ok_append:
  assumes "waiters_ok s" "tstat s t = Some TASK_RUNNING" "t \<noteq> idle_thread s"
    and "stat k = TASK_BLOCKED" "waiters x = waiters (semas s q) @ [General t]"
  shows "waiters_ok (put_task t k (put_sema q x s))"
proof -
  have notin: "General t \<notin> set (waiters (semas s r))" for r
    using waiters_okD [OF assms(1), of t r] assms(2) by auto
  let ?s = "put_task t k (put_sema q x s)"
  have w: "waiters (semas ?s r) = (if r = q then waiters (semas s q) @ [General t] else waiters (semas s r))" for r
    using assms(5) by simp
  show ?thesis
    using assms(1,3,4) notin unfolding waiters_ok_def w by (auto simp: disjoint_iff)
qed

lemma waiters_ok_shrink:
  assumes "waiters_ok s" "waiters (semas s q) = x # ws" "waiters y = ws"
  shows "waiters_ok (put_sema q y s)" "x \<notin> set (waiters (semas (put_sema q y s) r))"
proof -
  let ?s = "put_sema q y s"
  have w: "waiters (semas ?s r) = (if r = q then ws else waiters (semas s r))" for r
    using assms(3) by simp
  have x: "x \<in> set (waiters (semas s q))" "set ws \<subseteq> set (waiters (semas s q))" "distinct (x # ws)"
    using assms(1,2) by (auto simp: waiters_ok_def dest: spec [of _ q])
  show "waiters_ok ?s" unfolding waiters_ok_def
  proof (intro conjI allI impI)
    fix r
    have "distinct (waiters (semas s r))" "\<And>r. set (waiters (semas s r)) \<subseteq> range General"
      using assms(1) by (auto simp: waiters_ok_def)
    with x(2,3) show "distinct (waiters (semas ?s r))" "set (waiters (semas ?s r)) \<subseteq> range General"
      by (cases "r = q"; auto simp: assms(3))+
  next
    fix r t assume "General t \<in> set (waiters (semas ?s r))"
    then have "\<exists>r. General t \<in> set (waiters (semas s r))"
      using x(2) by (cases "r = q") (auto simp: assms(3))
    then show "tstat ?s t = Some TASK_BLOCKED" "t \<noteq> idle_thread ?s"
      using waiters_okD [OF assms(1)] by auto
  next
    fix r r' :: sema_id assume "r \<noteq> r'"
    then show "set (waiters (semas ?s r)) \<inter> set (waiters (semas ?s r')) = {}"
      unfolding w using assms(1) x(2) by (auto simp: waiters_ok_def disjoint_iff)
  qed
  show "x \<notin> set (waiters (semas ?s r))"
    unfolding w using assms(1) x(1,3) by (auto simp: waiters_ok_def disjoint_iff)
qed

lemma sval_cases: "lock_ok x k p st l \<Longrightarrow> sval x = 0 \<or> sval x = 1"
  by (auto simp: lock_ok_def token_ok_def)

lemma sched_wf_sval:
  assumes "sched_wf s" "waiters x = waiters (semas s q)"
  shows "sched_wf (put_sema q x s)"
proof -
  have w: "waiters (semas (put_sema q x s) r) = waiters (semas s r)" for r using assms(2) by simp
  have "waiters_ok (put_sema q x s)"
    using sched_coreD(2) [OF sched_wfD(1) [OF assms(1)]] unfolding waiters_ok_def w by simp
  with assms(1) show ?thesis by (simp add: sched_wf_def sched_core_def)
qed

text \<open>A round of \<^verbatim>\<open>sema_down\<close> in general: it takes the value, or parks the thread at the tail.\<close>

lemma sema_down_turn_park:
  assumes "sched_wf s" "current s \<noteq> idle_thread s" "sval (semas s q) = 0"
  shows "\<exists>s'. sema_down_turn q s = Inr (False, s') \<and> sched_wf s' \<and>
    sched_frame (put_sema q ((semas s q)\<lparr>waiters := waiters (semas s q) @ [General (current s)]\<rparr>)
      (s\<lparr>intr := intr_off\<rparr>)) s' \<and>
    current s' = head_or_idle s \<and> ready_threads_list s' = tl (ready_threads_list s) \<and>
    (\<forall>t. tstat s' t = (if t = head_or_idle s then Some TASK_RUNNING
       else if t = current s then Some TASK_BLOCKED else tstat s t))"
proof -
  note core = sched_coreD [OF sched_wfD(1) [OF assms(1)]]
  obtain k where k: "tasks s (current s) = Some k" "stat k = TASK_RUNNING"
    using running_task [OF assms(1)] by blast
  let ?x = "(semas s q)\<lparr>waiters := waiters (semas s q) @ [General (current s)]\<rparr>"
  let ?s = "put_sema q ?x s"
  have "waiters_ok (put_task (current s) (k\<lparr>stat := TASK_BLOCKED\<rparr>) ?s)"
    using waiters_ok_append [OF core(2) sched_wfD(2) [OF assms(1)] assms(2)] by simp
  then obtain s' where s': "thread_block TASK_BLOCKED ?s = Inr (intr s, s')" "sched_wf s'"
      "sched_frame (?s\<lparr>intr := intr_off\<rparr>) s'" "current s' = head_or_idle ?s"
      "ready_threads_list s' = tl (ready_threads_list s)"
      "\<forall>t. tstat s' t = (if t = head_or_idle ?s then Some TASK_RUNNING
         else if t = current ?s then Some TASK_BLOCKED else tstat ?s t)"
    using thread_block_spec [of ?s k TASK_BLOCKED] core k by auto
  have h: "head_or_idle ?s = head_or_idle s" by (simp add: head_or_idle_def split: list.split tag.split)
  have eq: "?s\<lparr>intr := intr_off\<rparr> = put_sema q ?x (s\<lparr>intr := intr_off\<rparr>)" by (simp add: put_sema_def)
  show ?thesis
    using s'(1,2,3,4,5,6) running_not_waiting [OF assms(1), of q] assms(3) unfolding h eq
    by (intro exI [of _ s']) (simp add: sema_down_turn_def Let_def)
qed

lemma sema_down_turn_take:
  assumes "sval (semas s q) = 1"
  shows "sema_down_turn q s = Inr (True, put_sema q ((semas s q)\<lparr>sval := 0\<rparr>) s)"
  using assms by (simp add: sema_down_turn_def Let_def)

lemma lock_inv_turn_take:
  assumes "lock_inv s" "pcs s (current s) = Down l i" "sval (semas s (LockSema l)) = 1"
  shows "\<exists>s'. lock_acquire_turn l i s = Inr s' \<and> lock_inv s'"
proof -
  let ?t = "current s" let ?x = "(semas s (LockSema l))\<lparr>sval := 0\<rparr>"
  let ?s = "set_pc ?t (Own l) (sema_down_leave i (put_sema (LockSema l) ?x s))"
  note ok = lock_ok_at [OF assms(1)]
  have free: "\<not> inside (pcs s) (locks s l) l u" for u
    using ok [of l] assms(3) by (auto simp: lock_ok_def token_ok_def)
  have wf: "sched_wf (put_sema (LockSema l) ?x s)"
    using sched_wf_sval [OF lock_invD(1) [OF assms(1)]] by simp
  have "lock_inv ?s"
  proof (rule lock_invI)
    show "sched_wf ?s" "magic_ok ?s" "pcs ?s (idle_thread ?s) = Compute"
      using wf lock_invD [OF assms(1)] assms(2) by (auto simp: sema_down_leave_def)
  next
    fix m
    show "lock_ok (semas ?s (LockSema m)) (locks ?s m) (pcs ?s) (tstat ?s) m"
    proof (cases "m = l")
      case True
      have ins: "inside ((pcs s)(?t := Own l)) (locks s l) l u \<longleftrightarrow> u = ?t" for u
        using free [of u] by (auto simp: inside_def)
      have none: "holder (locks s l) = None" using free by (metis inside_def option.exhaust)
      have "token_ok 0 ((pcs s)(?t := Own l)) (locks s l) l" unfolding token_ok_def ins by simp
      moreover have "holder_ok ((pcs s)(?t := Own l)) (locks s l) l"
        using ok [of l] none by (simp add: lock_ok_def holder_ok_def)
      moreover have "waiting_ok (waiters (semas s (LockSema l))) ((pcs s)(?t := Own l)) (tstat s) l"
        using ok [of l] current_active [OF lock_invD(1) [OF assms(1)]]
        by (auto simp: lock_ok_def waiting_ok_def in_down_def)
      ultimately show ?thesis using True by (simp add: lock_ok_def wakeup_ok_def sema_down_leave_def)
    next
      case False
      then show ?thesis
        using lock_ok_pc [OF ok [of m] current_active [OF lock_invD(1) [OF assms(1)]], of "Own l"] assms(2)
        by (simp add: in_down_def sema_down_leave_def)
    qed
  qed
  with sema_down_turn_take [OF assms(3)] show ?thesis by (simp add: lock_acquire_turn_def)
qed

lemma lock_inv_turn_park:
  assumes "lock_inv s" "pcs s (current s) = Down l i" "sval (semas s (LockSema l)) = 0"
  shows "\<exists>s'. lock_acquire_turn l i s = Inr s' \<and> lock_inv s'"
proof -
  let ?q = "LockSema l" let ?w = "waiters (semas s (LockSema l)) @ [General (current s)]"
  let ?s = "put_sema ?q ((semas s ?q)\<lparr>waiters := ?w\<rparr>) (s\<lparr>intr := intr_off\<rparr>)"
  note ok = lock_ok_at [OF assms(1)] and wf = lock_invD(1) [OF assms(1)]
  have idle: "current s \<noteq> idle_thread s" using assms(2) lock_invD(3) [OF assms(1)] by force
  obtain s' where s': "sema_down_turn ?q s = Inr (False, s')" "sched_wf s'" "sched_frame ?s s'"
      "\<forall>t. tstat s' t = (if t = head_or_idle s then Some TASK_RUNNING
         else if t = current s then Some TASK_BLOCKED else tstat s t)"
    using sema_down_turn_park [OF wf idle assms(3)] by blast
  note fr = frame_lock_sys [OF s'(3), simplified]
  have cur: "head_or_idle s \<noteq> current s" using head_or_idle_active(2) [OF wf] idle by metis
  have act: "active (tstat s') t = (t \<noteq> current s \<and> active (tstat s) t)"
    if "t \<noteq> idle_thread s" for t
    using s'(4) cur head_or_idle_active(1) [OF wf] that by (auto simp: active_def)
  have noidle: "t \<noteq> idle_thread s" if "in_down (pcs s) m t" for m t
    using that lock_invD(3) [OF assms(1)] by (auto simp: in_down_def)
  have "magic_ok s'" using magic_ok_frame [OF _ s'(3)] lock_invD(2) [OF assms(1)] by simp
  have "lock_inv s'"
  proof (rule lock_invI)
    fix m
    show "lock_ok (semas s' (LockSema m)) (locks s' m) (pcs s') (tstat s') m"
    proof (cases "m = l")
      case True
      have "waiting_ok ?w (pcs s) (tstat s') l" unfolding waiting_ok_def
      proof
        fix t
        show "General t \<in> set ?w \<longleftrightarrow> in_down (pcs s) l t \<and> \<not> active (tstat s') t"
          using ok [of l] act [of t] noidle [of l t] assms(2)
          by (cases "t = current s") (auto simp: lock_ok_def waiting_ok_def in_down_def)
      qed
      then show ?thesis
        using ok [of l] True assms(3) by (simp add: lock_ok_def wakeup_ok_def fr)
    next
      case False
      have "active (tstat s') t = active (tstat s) t" if "in_down (pcs s) m t" for t
        using act [OF noidle [OF that]] that assms(2) False by (auto simp: in_down_def)
      from lock_ok_active [OF ok [of m] this] False show ?thesis by (simp add: fr)
    qed
  qed (use s'(2) \<open>magic_ok s'\<close> fr lock_invD(3) [OF assms(1)] in simp_all)
  then have "lock_inv (suspend (current s) (intr s) s')" by (simp add: lock_inv_def)
  with s'(1) show ?thesis by (simp add: lock_acquire_turn_def)
qed

text \<open>\<^verbatim>\<open>sema_up\<close> in general: the first waiter, if there is one, becomes the first ready thread.\<close>

lemma sema_up_empty:
  assumes "sval (semas s q) = 0" "waiters (semas s q) = []"
  shows "sema_up q s = Inr (put_sema q ((semas s q)\<lparr>sval := 1\<rparr>) s)"
  using assms by (simp add: sema_up_def Let_def put_sema_def)

lemma sema_up_wake:
  assumes "sched_wf s" "sval (semas s q) = 0" "waiters (semas s q) = General t # ws"
  shows "\<exists>s'. sema_up q s = Inr s' \<and> sched_wf s' \<and>
    sched_frame (put_sema q ((semas s q)\<lparr>sval := 1, waiters := ws\<rparr>) s) s' \<and> current s' = current s \<and>
    ready_threads_list s' = General t # ready_threads_list s \<and>
    (\<forall>u. tstat s' u = (if u = t then Some TASK_READY else tstat s u))"
proof -
  let ?x = "(semas s q)\<lparr>waiters := ws\<rparr>" let ?s = "put_sema q ?x (s\<lparr>intr := intr_off\<rparr>)"
  note core = sched_coreD [OF sched_wfD(1) [OF assms(1)]]
  have blk: "tstat s t = Some TASK_BLOCKED" using waiters_okD [OF core(2), of t q] assms(3) by simp
  have "waiters_ok (s\<lparr>intr := intr_off\<rparr>)" using core(2) by simp
  note shrink = waiters_ok_shrink [OF this, of q "General t" ws ?x]
  have "sched_core ?s"
    by (intro sched_coreI) (use shrink(1) assms(3) core in simp_all)
  then have "sched_wf ?s" using assms(1) by (simp add: sched_wf_def)
  moreover have "General t \<notin> set (waiters (semas ?s r))" for r using shrink(2) assms(3) by simp
  moreover have "tstat ?s t = Some TASK_BLOCKED" using blk by simp
  ultimately obtain s1 where s1: "thread_unblock t ?s = Inr s1" "sched_wf s1" "sched_frame ?s s1"
      "current s1 = current ?s" "ready_threads_list s1 = General t # ready_threads_list ?s"
      "\<forall>u. tstat s1 u = (if u = t then Some TASK_READY else tstat ?s u)"
    using thread_unblock_wf [of ?s t TASK_BLOCKED] suspendable_simps(1) by blast
  have x: "semas s1 q = ?x" using s1(3) by (simp add: sched_frame_def)
  let ?s2 = "(put_sema q (?x\<lparr>sval := 1\<rparr>) s1)\<lparr>intr := intr s\<rparr>"
  have "sema_up q s = Inr ?s2"
    using assms(2,3) s1(1) x by (simp add: sema_up_def Let_def)
  moreover have "sched_wf ?s2" using sched_wf_sval [OF s1(2)] x by simp
  moreover have "sched_frame (put_sema q ((semas s q)\<lparr>sval := 1, waiters := ws\<rparr>) s) ?s2"
    using s1(3) by (auto simp: sched_frame_def put_sema_def)
  ultimately show ?thesis using s1(4-6) by (intro exI [of _ ?s2]) (simp add: put_sema_def)
qed

lemma lock_ok_release:
  assumes "lock_ok x k p st l" "p t = Releasing l" "\<And>u. active st u \<Longrightarrow> active st' u"
    and "\<And>u. in_down p l u \<Longrightarrow> active st' u \<Longrightarrow> active st u \<or> General u \<notin> set ws"
    and "\<And>u. General u \<in> set ws \<Longrightarrow> General u \<in> set (waiters x) \<and> \<not> active st' u"
    and "\<And>u. General u \<in> set (waiters x) \<Longrightarrow> General u \<notin> set ws \<Longrightarrow> active st' u"
    and "ws \<noteq> [] \<Longrightarrow> \<exists>u. in_down p l u \<and> active st' u"
  shows "lock_ok (x\<lparr>sval := 1, waiters := ws\<rparr>) k (p(t := Compute)) st' l"
proof -
  have here: "inside p k l t" using assms(2) by (simp add: inside_def)
  note tok = token_inside [OF assms(1) here]
  have none: "holder k = None" using assms(1,2) by (auto simp: lock_ok_def holder_ok_def)
  have "\<not> inside (p(t := Compute)) k l u" for u
    using tok(2) [of u] none by (auto simp: inside_def)
  then have "token_ok 1 (p(t := Compute)) k l" by (simp add: token_ok_def)
  moreover have "holder_ok (p(t := Compute)) k l"
    using assms(1) by (auto simp: lock_ok_def holder_ok_def)
  moreover have down: "in_down (p(t := Compute)) l u = in_down p l u" for u
    using assms(2) by (auto simp: in_down_def)
  moreover have "waiting_ok ws (p(t := Compute)) st' l"
    using assms(1,3,5,6) unfolding waiting_ok_def down lock_ok_def by blast
  moreover have "wakeup_ok (x\<lparr>sval := 1, waiters := ws\<rparr>) (p(t := Compute)) st' l"
    using assms(7) by (simp add: wakeup_ok_def down)
  ultimately show ?thesis by (simp add: lock_ok_def)
qed

lemma lock_inv_up_at:
  assumes "lock_inv s" "pcs s t = Releasing l" "t = current s"
    and "pcs s' = pcs s" "locks s' = locks s" "idle_thread s' = idle_thread s" "sched_wf s'" "magic_ok s'"
    and "semas s' = (semas s)(LockSema l := (semas s (LockSema l))\<lparr>sval := 1, waiters := ws\<rparr>)"
    and "lock_ok ((semas s (LockSema l))\<lparr>sval := 1, waiters := ws\<rparr>) (locks s l) ((pcs s)(t := Compute)) (tstat s') l"
    and "\<And>m u. m \<noteq> l \<Longrightarrow> in_down (pcs s) m u \<Longrightarrow> active (tstat s') u = active (tstat s) u"
  shows "lock_inv (set_pc t Compute s')" (is "lock_inv ?s")
proof (rule lock_invI)
  fix m
  note ok = lock_ok_at [OF assms(1)]
  show "lock_ok (semas ?s (LockSema m)) (locks ?s m) (pcs ?s) (tstat ?s) m"
  proof (cases "m = l")
    case True
    with assms(4-10) show ?thesis by simp
  next
    case False
    have "lock_ok (semas s (LockSema m)) (locks s m) ((pcs s)(t := Compute)) (tstat s) m"
      using lock_ok_pc [OF ok [of m], of t Compute] current_active [OF lock_invD(1) [OF assms(1)]]
        assms(2,3) False by (simp add: in_down_def)
    moreover have "in_down ((pcs s)(t := Compute)) m u \<Longrightarrow> active (tstat s') u = active (tstat s) u" for u
      using assms(11) [OF False, of u] assms(2) by (auto simp: in_down_def split: if_splits)
    ultimately have "lock_ok (semas s (LockSema m)) (locks s m) ((pcs s)(t := Compute)) (tstat s') m"
      by (rule lock_ok_active)
    with False assms(4-9) show ?thesis by simp
  qed
qed (use assms lock_invD(3) [OF assms(1)] in simp_all)

lemma lock_inv_up:
  assumes "lock_inv s" "pcs s (current s) = Releasing l"
  shows "\<exists>s'. lock_release_finish l s = Inr s' \<and> lock_inv s'"
proof -
  let ?q = "LockSema l" let ?x = "semas s ?q"
  note ok = lock_ok_at [OF assms(1)] and wf = lock_invD(1) [OF assms(1)]
  have zero: "sval ?x = 0"
    using token_inside(1) [OF ok [of l]] assms(2) inside_def by blast
  have wok: "waiting_ok (waiters ?x) (pcs s) (tstat s) l" using ok [of l] by (simp add: lock_ok_def)
  show ?thesis
  proof (cases "waiters ?x")
    case Nil
    let ?s = "put_sema ?q (?x\<lparr>sval := 1\<rparr>) s"
    have up: "sema_up ?q s = Inr ?s" by (rule sema_up_empty [OF zero Nil])
    have eq: "?x\<lparr>sval := 1, waiters := []\<rparr> = ?x\<lparr>sval := 1\<rparr>" using Nil by (cases ?x) simp
    have "lock_ok (?x\<lparr>sval := 1, waiters := []\<rparr>) (locks s l) ((pcs s)(current s := Compute)) (tstat s) l"
      by (rule lock_ok_release [OF ok assms(2)]) (simp_all add: Nil)
    then have "lock_inv (set_pc (current s) Compute ?s)"
      using sched_wf_sval [OF wf, of "?x\<lparr>sval := 1\<rparr>" ?q] lock_invD(2) [OF assms(1)]
      by (intro lock_inv_up_at [OF assms refl, of ?s "[]"]) (simp_all add: eq)
    with up show ?thesis by (simp add: lock_release_finish_def running_thread_def)
  next
    case (Cons x ws)
    have gen: "set (waiters ?x) \<subseteq> range General" "distinct (waiters ?x)"
      using sched_coreD(2) [OF sched_wfD(1) [OF wf]] by (auto simp: waiters_ok_def)
    then obtain w where w: "x = General w" using Cons by auto
    obtain s' where s': "sema_up ?q s = Inr s'" "sched_wf s'"
        "sched_frame (put_sema ?q (?x\<lparr>sval := 1, waiters := ws\<rparr>) s) s'" "current s' = current s"
        "\<forall>u. tstat s' u = (if u = w then Some TASK_READY else tstat s u)"
      using sema_up_wake [OF wf zero Cons [unfolded w]] by blast
    note fr = frame_lock_sys [OF s'(3), simplified]
    have magic: "magic_ok s'" using magic_ok_frame [OF _ s'(3)] lock_invD(2) [OF assms(1)] by simp
    have w_in: "in_down (pcs s) l w" using wok Cons w by (metis list.set_intros(1) waiting_ok_def)
    have act: "active (tstat s') u \<longleftrightarrow> u = w \<or> active (tstat s) u" for u
      using s'(5) by (auto simp: active_def)
    have still: "General u \<in> set ws \<Longrightarrow> u \<noteq> w \<and> \<not> active (tstat s) u" for u
      using wok gen(2) Cons w by (auto simp: waiting_ok_def)
    have "lock_ok (?x\<lparr>sval := 1, waiters := ws\<rparr>) (locks s l) ((pcs s)(current s := Compute)) (tstat s') l"
      by (rule lock_ok_release [OF ok assms(2)]) (use act still w_in Cons w in auto)
    moreover have "active (tstat s') u = active (tstat s) u" if "m \<noteq> l" "in_down (pcs s) m u" for m u
      using that act w_in by (auto simp: in_down_def)
    ultimately have "lock_inv (set_pc (current s) Compute s')"
      by (intro lock_inv_up_at [OF assms refl fr(1) fr(4) fr(5) s'(2) magic fr(3)])
    with s' show ?thesis by (simp add: lock_release_finish_def running_thread_def)
  qed
qed

text \<open>All actions together, and every state that can be reached.\<close>

lemma lock_step_inv:
  assumes "lock_inv s" "enabled a s"
  shows "\<exists>s'. lock_step a s = Inr s' \<and> lock_inv s'"
proof (cases a)
  case (Acquire l)
  with assms lock_inv_acquire show ?thesis by (simp del: enabled.simps)
next
  case Turn
  with assms(2) obtain l i where pc: "pcs s (current s) = Down l i" by (auto simp: is_Down_def)
  with sval_cases [OF lock_ok_at [OF assms(1), of l]] lock_inv_turn_take lock_inv_turn_park assms(1) Turn
  show ?thesis by auto
next
  case TakeHolder
  with assms lock_inv_finish show ?thesis by (auto simp: is_Own_def)
next
  case (Release l)
  with assms lock_inv_release show ?thesis by (simp del: enabled.simps)
next
  case Up
  with assms lock_inv_up show ?thesis by (auto simp: is_Releasing_def)
next
  case IdleTurn
  with assms lock_inv_idle show ?thesis by simp
next
  case Tick
  with assms lock_inv_preempt show ?thesis by simp
next
  case Resume
  with assms lock_inv_resume show ?thesis by simp
qed

lemma lock_steps_inv: "lock_steps s u \<Longrightarrow> lock_inv s \<Longrightarrow> lock_inv u"
  by (induction rule: lock_steps.induct) (auto dest: lock_step_inv)

text \<open>An uncontended acquisition, and the release that undoes it.\<close>

lemma lock_acquire_free:
  assumes "holder (locks s l) = None" "holder_repeat_nr (locks s l) = 0" "sval (semas s (LockSema l)) = 1"
  shows "lock_acquire l s = Inr (True, put_lock l \<lparr>holder = Some (current s), holder_repeat_nr = 1\<rparr>
     (put_sema (LockSema l) ((semas s (LockSema l))\<lparr>sval := 0\<rparr>) s))"
  using assms
  by (cases "locks s l")
    (simp add: lock_acquire_def sema_down_enter_def sema_down_turn_def sema_down_leave_def running_thread_def
      Let_def put_sema_def put_lock_def)

section \<open>Properties\<close>

text \<open>
  A system for the witnesses: threads 1, 2 and 4 use lock 0, thread 3 is idle. A thread that has
  not run yet enables interrupts first (\<^verbatim>\<open>kernel_thread\<close>). \<open>run_locks\<close> executes a list of actions,
  each of which must be enabled.
\<close>

fun run_locks :: "lock_act list \<Rightarrow> lock_sys \<Rightarrow> lock_sys res" where
  "run_locks [] s = Inr s"
| "run_locks (a # as) s = (if enabled a s then rbind (lock_step a s) (run_locks as) else Inl (Fault ''not enabled''))"

lemma run_locks_steps: "run_locks as s = Inr u \<Longrightarrow> lock_steps r s \<Longrightarrow> lock_steps r u"
  by (induction as arbitrary: s) (auto simp: res_simps split: if_splits intro: lock_steps.intros)

definition demo_locks :: lock_sys where
  "demo_locks = \<lparr>tasks = [1 \<mapsto> demo_task TASK_RUNNING 0 1, 2 \<mapsto> demo_task TASK_READY 4 2,
       3 \<mapsto> demo_task TASK_BLOCKED 10 3, 4 \<mapsto> demo_task TASK_READY 4 4],
     current = 1, main_thread = 1, idle_thread = 3, init_proc = 2,
     all_threads_list = [AllTag 1, AllTag 2, AllTag 3, AllTag 4],
     ready_threads_list = [General 2, General 4],
     intr = intr_on, ist2 = 1, timer_ticks = 0,
     semas = (\<lambda>_. \<lparr>sval = 1, waiters = []\<rparr>), locks = (\<lambda>_. \<lparr>holder = None, holder_repeat_nr = 0\<rparr>),
     pid_bitmap = \<lparr>bytes_len = 128, bits = 15 # replicate 127 0\<rparr>, pages_freed = [],
     pcs = (\<lambda>_. Compute), susp = (\<lambda>t. if t = 2 \<or> t = 4 then Some intr_on else None)\<rparr>"

lemma demo_locks_inv: "lock_inv demo_locks"
proof (rule lock_invI)
  show "sched_wf demo_locks" "magic_ok demo_locks"
    by (auto simp: sched_wf_def sched_core_def ready_ok_def waiters_ok_def run_ok_def idle_ok_def
        tstat_def demo_locks_def demo_task_def magic_ok_def ran_def split: if_splits)
  show "lock_ok (semas demo_locks (LockSema l)) (locks demo_locks l) (pcs demo_locks) (tstat demo_locks) l" for l
    by (simp add: demo_locks_def lock_ok_defs inside_def in_down_def)
qed (simp add: demo_locks_def)

text \<open>Thread 1 takes the lock and is preempted; thread 2 parks in \<^verbatim>\<open>sema_down\<close>.\<close>

definition demo_acts :: "lock_act list" where
  "demo_acts = [Acquire 0, Turn, TakeHolder, Tick, Resume, Acquire 0, Turn]"

definition demo_held :: lock_sys where
  "demo_held = (case run_locks demo_acts demo_locks of Inr u \<Rightarrow> u | Inl _ \<Rightarrow> demo_locks)"

lemma demo_held_run: "run_locks demo_acts demo_locks = Inr demo_held"
proof -
  have "isl (run_locks demo_acts demo_locks) = False" by code_simp
  then show ?thesis by (cases "run_locks demo_acts demo_locks") (simp_all add: demo_held_def)
qed

lemmas demo_held_steps = run_locks_steps [OF demo_held_run lock_steps.steps_refl]

text \<open>Thread 1 holds the lock while 2 and 4 wait; then it releases it.\<close>

definition demo_waiting :: lock_sys where
  "demo_waiting = demo_locks\<lparr>tasks := [1 \<mapsto> demo_task TASK_RUNNING 0 1, 2 \<mapsto> demo_task TASK_BLOCKED 4 2,
       3 \<mapsto> demo_task TASK_BLOCKED 10 3, 4 \<mapsto> demo_task TASK_BLOCKED 4 4],
     ready_threads_list := [],
     semas := (\<lambda>q. if q = LockSema 0 then \<lparr>sval = 0, waiters = [General 2, General 4]\<rparr>
       else \<lparr>sval = 1, waiters = []\<rparr>),
     locks := (\<lambda>l. if l = 0 then \<lparr>holder = Some 1, holder_repeat_nr = 1\<rparr>
       else \<lparr>holder = None, holder_repeat_nr = 0\<rparr>),
     pcs := (\<lambda>t. if t = 2 \<or> t = 4 then Down 0 intr_on else Compute)\<rparr>"

lemma demo_waiting_inv: "lock_inv demo_waiting"
proof (rule lock_invI)
  show "sched_wf demo_waiting" "magic_ok demo_waiting"
    by (auto simp: sched_wf_def sched_core_def ready_ok_def waiters_ok_def run_ok_def idle_ok_def
        tstat_def demo_waiting_def demo_locks_def demo_task_def magic_ok_def ran_def split: if_splits)
  show "lock_ok (semas demo_waiting (LockSema l)) (locks demo_waiting l) (pcs demo_waiting) (tstat demo_waiting) l" for l
    by (auto simp: demo_waiting_def demo_locks_def lock_ok_defs inside_def in_down_def active_def
        tstat_def demo_task_def intro: exI [of _ 1])
qed (simp add: demo_waiting_def demo_locks_def)

definition demo_freed :: lock_sys where
  "demo_freed = (case run_locks [Release 0, Up] demo_waiting of Inr u \<Rightarrow> u | Inl _ \<Rightarrow> demo_waiting)"

lemma demo_freed_run: "run_locks [Release 0, Up] demo_waiting = Inr demo_freed"
proof -
  have "isl (run_locks [Release 0, Up] demo_waiting) = False" by code_simp
  then show ?thesis by (cases "run_locks [Release 0, Up] demo_waiting") (simp_all add: demo_freed_def)
qed

lemmas demo_freed_steps = run_locks_steps [OF demo_freed_run lock_steps.steps_refl]

text \<open>
  C1. No assertion of the lock code can fail: in every state that any interleaving of threads,
  timer ticks and idle rounds reaches from a well-formed one, every enabled action of
  \<^verbatim>\<open>lock_acquire\<close>, \<^verbatim>\<open>lock_release\<close>, \<^verbatim>\<open>sema_down\<close>, \<^verbatim>\<open>sema_up\<close> and the scheduler goes through, and
  the scheduler invariant holds afterwards.
\<close>
theorem locks_never_panic:
  assumes "lock_inv s" "lock_steps s u" "enabled a u"
  shows "\<exists>v. lock_step a u = Inr v \<and> sched_wf v"
  using lock_step_inv [OF lock_steps_inv [OF assms(2,1)] assms(3)] lock_invD(1) by blast

theorem locks_never_panic_witness: "\<exists>v. lock_step Resume demo_held = Inr v \<and> sched_wf v"
  by (rule locks_never_panic [OF demo_locks_inv demo_held_steps]) code_simp

text \<open>
  C2. Mutual exclusion: in every reachable state at most one thread is between the return of
  \<^verbatim>\<open>sema_down\<close> in \<^verbatim>\<open>lock_acquire\<close> and the call of \<^verbatim>\<open>sema_up\<close> in \<^verbatim>\<open>lock_release\<close> of a lock, be it
  the recorded holder or a thread preempted just before or after the holder field is written.
\<close>
theorem lock_mutual_exclusion:
  assumes "lock_inv s" "lock_steps s u"
  shows "\<exists>t. {v. inside (pcs u) (locks u l) l v} \<subseteq> {t}"
proof -
  have "token_ok (sval (semas u (LockSema l))) (pcs u) (locks u l) l"
    using lock_ok_at [OF lock_steps_inv [OF assms(2,1)], of l] by (simp add: lock_ok_def)
  then show ?thesis unfolding token_ok_def by auto
qed

theorem lock_mutual_exclusion_witness:
  "\<exists>t. {v. inside (pcs demo_held) (locks demo_held 0) 0 v} \<subseteq> {t}"
  by (rule lock_mutual_exclusion [OF demo_locks_inv demo_held_steps])

text \<open>
  C3. No wake-up is lost: whenever a lock is free while threads still wait for it, a thread that
  has been taken off the waiters is ready or running inside \<^verbatim>\<open>sema_down\<close> and will test the value
  again; the waiters are exactly the blocked threads in that loop.
\<close>
theorem lock_no_lost_wakeup:
  assumes "lock_inv s" "lock_steps s u"
    and "sval (semas u (LockSema l)) = 1" "waiters (semas u (LockSema l)) \<noteq> []"
  shows "(\<exists>t. in_down (pcs u) l t \<and> active (tstat u) t) \<and>
    (\<forall>t. General t \<in> set (waiters (semas u (LockSema l))) \<longleftrightarrow>
       in_down (pcs u) l t \<and> \<not> active (tstat u) t)"
  using lock_ok_at [OF lock_steps_inv [OF assms(2,1)], of l] assms(3,4)
  by (simp add: lock_ok_def wakeup_ok_def waiting_ok_def)

theorem lock_no_lost_wakeup_witness:
  "(\<exists>t. in_down (pcs demo_freed) 0 t \<and> active (tstat demo_freed) t) \<and>
    (\<forall>t. General t \<in> set (waiters (semas demo_freed (LockSema 0))) \<longleftrightarrow>
       in_down (pcs demo_freed) 0 t \<and> \<not> active (tstat demo_freed) t)"
  by (rule lock_no_lost_wakeup [OF demo_waiting_inv demo_freed_steps]) code_simp+

end
