(* ===== verification/Paging.thy ===== *)
theory Paging
  imports Bitmap
begin

unbundle bit_operations_syntax

text \<open>
  Page tables and page allocation (\<^verbatim>\<open>kernel/memory.c\<close>, first half). The kernel reaches its page
  tables through the recursive slot 511 of the top table, so every entry has a virtual address in
  a window at the top of the address space; \<open>pt\<close> is the contents of that window in the current
  address space, indexed by virtual address. A frame that becomes a new table is cleared through
  the window before it is used, so its old contents are never read. TLB flushes (\<^verbatim>\<open>invlpg\<close>,
  \<^verbatim>\<open>cr3\<close>) and the switching off of interrupts around the bitmap calls have no effect on this state.
\<close>

section \<open>Entry addresses\<close>

definition pml4e_idx :: "u64 \<Rightarrow> u64" where
  "pml4e_idx addr = drop_bit 39 (addr AND 0xff8000000000)"

definition pdpte_idx :: "u64 \<Rightarrow> u64" where
  "pdpte_idx addr = drop_bit 30 (addr AND 0x007fc0000000)"

definition pde_idx :: "u64 \<Rightarrow> u64" where
  "pde_idx addr = drop_bit 21 (addr AND 0x3fe00000)"

definition pte_idx :: "u64 \<Rightarrow> u64" where
  "pte_idx addr = drop_bit 12 (addr AND 0x1ff000)"

definition pml4e_ptr :: "u64 \<Rightarrow> u64" where
  "pml4e_ptr vaddr = 0xfffffffffffff000 + pml4e_idx vaddr * 8"

definition pdpte_ptr :: "u64 \<Rightarrow> u64" where
  "pdpte_ptr vaddr = 0xffffffffffe00000 + push_bit 12 (pml4e_idx vaddr) + pdpte_idx vaddr * 8"

definition pde_ptr :: "u64 \<Rightarrow> u64" where
  "pde_ptr vaddr = 0xffffffffc0000000 + push_bit 21 (pml4e_idx vaddr) +
     push_bit 12 (pdpte_idx vaddr) + pde_idx vaddr * 8"

definition pte_ptr :: "u64 \<Rightarrow> u64" where
  "pte_ptr vaddr = 0xffffff8000000000 + push_bit 30 (pml4e_idx vaddr) +
     push_bit 21 (pdpte_idx vaddr) + push_bit 12 (pde_idx vaddr) + pte_idx vaddr * 8"

text \<open>The table \<^verbatim>\<open>fu\<close> of the four functions.\<close>

definition fu :: "nat \<Rightarrow> u64 \<Rightarrow> u64" where
  "fu i = [pml4e_ptr, pdpte_ptr, pde_ptr, pte_ptr] ! i"

section \<open>State and operations\<close>

definition PG_SIZE :: u64 where "PG_SIZE = 4096"

definition K_HEAP_START :: u64 where "K_HEAP_START = 0xffff800000100000"

definition V_POOL_BITS_MAX :: nat where "V_POOL_BITS_MAX = 256"

definition DESC_CNT :: nat where "DESC_CNT = 7"

text \<open>
  \<open>phy_start\<close> and \<open>phy_bitmap\<close> are the two fields of \<^verbatim>\<open>phy_pool\<close>. A block descriptor keeps the
  addresses of its free blocks in list order.
\<close>

record mem =
  phy_start :: u64
  phy_bitmap :: bitmap
  pt :: "u64 \<Rightarrow> u64"

record mem_desc =
  block_size :: u64
  blocks_per_arena :: u64
  free_list :: "u64 list"

record virt_pool =
  vstart :: u64
  vbitmap :: bitmap
  descs :: "mem_desc list"

definition addr_v2p :: "'a mem_scheme \<Rightarrow> u64 \<Rightarrow> u64" where
  "addr_v2p m vaddr = (pt m (pte_ptr vaddr) AND 0xfffffffffffff000) + (vaddr AND 0xfff)"

definition palloc :: "'a mem_scheme \<Rightarrow> (u64 option \<times> 'a mem_scheme) res" where
  "palloc m = rbind (bitmap_alloc_a_bit (phy_bitmap m)) (\<lambda>(b, idx).
     let m = m\<lparr>phy_bitmap := b\<rparr> in
     if idx = -1 then Inr (None, m) else Inr (Some (phy_start m + PG_SIZE * of_int idx), m))"

fun first_absent :: "'a mem_scheme \<Rightarrow> u64 \<Rightarrow> nat list \<Rightarrow> nat" where
  "first_absent m vaddr [] = 4"
| "first_absent m vaddr (i # is) =
     (if pt m (fu i vaddr) AND 1 = 0 then i else first_absent m vaddr is)"

definition map_stat :: "'a mem_scheme \<Rightarrow> u64 \<Rightarrow> nat" where
  "map_stat m vaddr = first_absent m vaddr [0..<4]"

definition set_entry :: "u64 \<Rightarrow> u64 \<Rightarrow> 'a mem_scheme \<Rightarrow> 'a mem_scheme" where
  "set_entry a e m = m\<lparr>pt := (pt m)(a := e)\<rparr>"

definition clear_page :: "u64 \<Rightarrow> 'a mem_scheme \<Rightarrow> 'a mem_scheme" where
  "clear_page a m = m\<lparr>pt := (\<lambda>x. if drop_bit 12 x = drop_bit 12 a then 0 else pt m x)\<rparr>"

text \<open>The loop of \<^verbatim>\<open>page_map\<close>: one table per missing level, cleared through the window.\<close>

fun build_tables :: "u64 \<Rightarrow> nat list \<Rightarrow> 'a mem_scheme \<Rightarrow> 'a mem_scheme res" where
  "build_tables vaddr [] m = Inr m"
| "build_tables vaddr (s # ss) m =
     rbind (palloc m) (\<lambda>(pg_paddr, m).
       case pg_paddr of
         None \<Rightarrow> Inl (Panic ''pg_paddr != NULL'')
       | Some p \<Rightarrow> build_tables vaddr ss (clear_page (fu (Suc s) vaddr) (set_entry (fu s vaddr) (p + 7) m)))"

definition page_map :: "u64 \<Rightarrow> u64 \<Rightarrow> 'a mem_scheme \<Rightarrow> 'a mem_scheme res" where
  "page_map vaddr paddr m =
     (let st = map_stat m vaddr in
      rbind (kassert (st \<noteq> 4) ''stat != 4'') (\<lambda>_.
      rbind (build_tables vaddr [st..<3] m) (\<lambda>m.
      Inr (set_entry (fu 3 vaddr) (paddr + 7) m))))"

fun mem_desc_sizes :: "u64 \<Rightarrow> nat list \<Rightarrow> mem_desc list" where
  "mem_desc_sizes bs [] = []"
| "mem_desc_sizes bs (i # is) =
     \<lparr>block_size = bs, blocks_per_arena = (PG_SIZE - 16) div bs, free_list = []\<rparr> # mem_desc_sizes (bs * 2) is"

definition mem_desc_init :: "mem_desc list" where
  "mem_desc_init = mem_desc_sizes 16 [0..<DESC_CNT]"

definition virt_pool_init :: "u64 \<Rightarrow> u64 \<Rightarrow> virt_pool res" where
  "virt_pool_init start len =
     rbind (bitmap_init \<lparr>bytes_len = unat (len div PG_SIZE div 8), bits = replicate V_POOL_BITS_MAX 1\<rparr>) (\<lambda>b.
     Inr \<lparr>vstart = start, vbitmap = b, descs = mem_desc_init\<rparr>)"

definition vpool_alloc :: "virt_pool \<Rightarrow> nat \<Rightarrow> (u64 option \<times> virt_pool) res" where
  "vpool_alloc vpool cnt = rbind (bitmap_alloc (vbitmap vpool) cnt) (\<lambda>(b, idx).
     let vpool' = vpool\<lparr>vbitmap := b\<rparr> in
     if idx \<noteq> -1 then Inr (Some (of_int idx * PG_SIZE + vstart vpool), vpool') else Inr (None, vpool'))"

definition page_at :: "u64 \<Rightarrow> nat \<Rightarrow> u64" where
  "page_at vaddr i = vaddr + of_nat i * PG_SIZE"

text \<open>The loop that \<^verbatim>\<open>alloc_pages\<close> and \<^verbatim>\<open>get_pages\<close> share; \<open>False\<close>: out of frames, return \<^verbatim>\<open>NULL\<close>.\<close>

fun map_pages :: "u64 \<Rightarrow> nat list \<Rightarrow> 'a mem_scheme \<Rightarrow> (bool \<times> 'a mem_scheme) res" where
  "map_pages vaddr [] m = Inr (True, m)"
| "map_pages vaddr (i # is) m =
     rbind (palloc m) (\<lambda>(paddr, m).
       case paddr of
         None \<Rightarrow> Inr (False, m)
       | Some p \<Rightarrow> rbind (page_map (page_at vaddr i) p m) (map_pages vaddr is))"

definition alloc_pages ::
  "virt_pool \<Rightarrow> nat \<Rightarrow> 'a mem_scheme \<Rightarrow> (u64 option \<times> virt_pool \<times> 'a mem_scheme) res" where
  "alloc_pages vpool cnt m =
     rbind (vpool_alloc vpool cnt) (\<lambda>(v, vpool).
       case v of
         None \<Rightarrow> Inr (None, vpool, m)
       | Some vaddr \<Rightarrow> rbind (map_pages vaddr [0..<cnt] m) (\<lambda>(ok, m).
           if ok then Inr (Some vaddr, vpool, m) else Inr (None, vpool, m)))"

definition get_pages :: "u64 \<Rightarrow> nat \<Rightarrow> 'a mem_scheme \<Rightarrow> (u64 option \<times> 'a mem_scheme) res" where
  "get_pages vaddr cnt m = rbind (map_pages vaddr [0..<cnt] m) (\<lambda>(ok, m).
     if ok then Inr (Some vaddr, m) else Inr (None, m))"

definition frame_index :: "'a mem_scheme \<Rightarrow> u64 \<Rightarrow> nat" where
  "frame_index m paddr = unat ((paddr - phy_start m) div PG_SIZE)"

definition mark_frame :: "nat \<Rightarrow> bool \<Rightarrow> 'a mem_scheme \<Rightarrow> 'a mem_scheme res" where
  "mark_frame pidx value m = rbind (bitmap_set (phy_bitmap m) pidx value) (\<lambda>b. Inr (m\<lparr>phy_bitmap := b\<rparr>))"

text \<open>
  The loop of \<^verbatim>\<open>free_pages\<close>. The frame's bit is set to 1, as in the code, where it already is 1.
\<close>

fun unmap_pages :: "u64 \<Rightarrow> nat list \<Rightarrow> 'a mem_scheme \<Rightarrow> 'a mem_scheme res" where
  "unmap_pages ptr [] m = Inr m"
| "unmap_pages ptr (i # is) m =
     (let vaddr = page_at ptr i; pidx = frame_index m (addr_v2p m vaddr); pte = pte_ptr vaddr in
      rbind (kassert (pt m pte AND 1 \<noteq> 0) ''*pte & 1'') (\<lambda>_.
      rbind (mark_frame pidx True (set_entry pte (pt m pte - 1) m)) (unmap_pages ptr is)))"

definition free_pages :: "virt_pool \<Rightarrow> u64 \<Rightarrow> nat \<Rightarrow> 'a mem_scheme \<Rightarrow> (virt_pool \<times> 'a mem_scheme) res" where
  "free_pages vpool ptr cnt m =
     rbind (unmap_pages ptr [0..<cnt] m) (\<lambda>m.
     rbind (bitmap_free (vbitmap vpool) (unat ((ptr - vstart vpool) div PG_SIZE)) cnt) (\<lambda>b.
     Inr (vpool\<lparr>vbitmap := b\<rparr>, m)))"

text \<open>
  \<^verbatim>\<open>release_prog_mem\<close>: for every page of the pool the data page is freed if it is mapped, then the
  tables above it that exist, lowest first; \<open>free_tables v n\<close> is the \<^verbatim>\<open>while (map_status--)\<close> loop
  entered with \<^verbatim>\<open>map_status = n\<close>.
\<close>

fun free_tables :: "u64 \<Rightarrow> nat \<Rightarrow> 'a mem_scheme \<Rightarrow> 'a mem_scheme res" where
  "free_tables vaddr 0 m = Inr m"
| "free_tables vaddr (Suc n) m =
     (let page = 0xfffffffffffff000 AND fu (n + 1) vaddr in
      rbind (mark_frame (frame_index m (addr_v2p m page)) False m) (free_tables vaddr n))"

fun release_pages :: "nat list \<Rightarrow> virt_pool \<Rightarrow> 'a mem_scheme \<Rightarrow> (virt_pool \<times> 'a mem_scheme) res" where
  "release_pages [] vpool m = Inr (vpool, m)"
| "release_pages (i # is) vpool m =
     (let vaddr = page_at (vstart vpool) i; map_status = map_stat m vaddr in
      if map_status = 4 then
        rbind (free_pages vpool vaddr 1 m) (\<lambda>(vpool, m).
        rbind (free_tables vaddr (map_status - 1) m) (release_pages is vpool))
      else rbind (free_tables vaddr map_status m) (release_pages is vpool))"

definition release_prog_mem :: "virt_pool \<Rightarrow> 'a mem_scheme \<Rightarrow> (virt_pool \<times> 'a mem_scheme) res" where
  "release_prog_mem u_v_pool m = release_pages [0..<bytes_len (vbitmap u_v_pool) * 8] u_v_pool m"

text \<open>\<open>raw\<close> is the memory at \<^verbatim>\<open>MEM_BITMAP_BASE\<close>.\<close>

definition mem_pool_init :: "byte list \<Rightarrow> u64 \<Rightarrow> 'a mem_scheme \<Rightarrow> 'a mem_scheme res" where
  "mem_pool_init raw memsize m =
     (let page_cnt = memsize div PG_SIZE; used_pages = 0x100000 div PG_SIZE + 4;
          len = (page_cnt - used_pages) div 8 in
      rbind (bitmap_init \<lparr>bytes_len = unat len, bits = raw\<rparr>) (\<lambda>b.
      Inr (m\<lparr>phy_start := used_pages * PG_SIZE, phy_bitmap := b\<rparr>)))"

definition mem_init :: "byte list \<Rightarrow> 'a mem_scheme \<Rightarrow> (virt_pool \<times> 'a mem_scheme) res" where
  "mem_init raw m =
     rbind (mem_pool_init raw 0x40000000 m) (\<lambda>m.
     rbind (virt_pool_init K_HEAP_START (of_nat V_POOL_BITS_MAX * 8 * PG_SIZE)) (\<lambda>vpool.
     Inr (vpool, m)))"

section \<open>The recursive window\<close>

text \<open>
  \<open>field k v\<close> are the nine bits of \<open>v\<close> from bit \<open>k\<close> on. The sums of the code add disjoint fields,
  so they are disjunctions.
\<close>

definition field :: "nat \<Rightarrow> u64 \<Rightarrow> u64" where
  "field k v = take_bit 9 (drop_bit k v)"

lemma idx_field:
  "pml4e_idx v = field 39 v" "pdpte_idx v = field 30 v" "pde_idx v = field 21 v" "pte_idx v = field 12 v"
proof -
  have m: "(0xff8000000000 :: u64) = push_bit 39 (mask 9)" "(0x007fc0000000 :: u64) = push_bit 30 (mask 9)"
    "(0x3fe00000 :: u64) = push_bit 21 (mask 9)" "(0x1ff000 :: u64) = push_bit 12 (mask 9)"
    by (simp_all add: mask_numeral)
  show "pml4e_idx v = field 39 v" "pdpte_idx v = field 30 v" "pde_idx v = field 21 v" "pte_idx v = field 12 v"
    unfolding pml4e_idx_def pdpte_idx_def pde_idx_def pte_idx_def field_def m
    by (rule bit_eqI, auto simp: bit_simps)+
qed

lemma times8: "(x :: u64) * 8 = push_bit 3 x"
  by (simp add: push_bit_eq_mult)

lemma base_masks:
  "(0xfffffffffffff000 :: u64) = NOT (mask 12)" "(0xffffffffffe00000 :: u64) = NOT (mask 21)"
  "(0xffffffffc0000000 :: u64) = NOT (mask 30)" "(0xffffff8000000000 :: u64) = NOT (mask 39)"
  by (simp_all add: mask_numeral)

definition above :: "nat \<Rightarrow> u64 \<Rightarrow> bool" where
  "above k a \<longleftrightarrow> (\<forall>n. bit a n \<longrightarrow> k \<le> n)"

lemma above_simps [simp]:
  "k \<le> m \<Longrightarrow> above k (NOT (mask m))" "k \<le> m \<Longrightarrow> above k (push_bit m x)"
  "above k a \<Longrightarrow> above k b \<Longrightarrow> above k (a OR b)"
  by (auto simp: above_def bit_simps)

lemma bit_push_field:
  "k \<le> j \<Longrightarrow> bit (push_bit k (field j v)) n \<longleftrightarrow> k \<le> n \<and> n < 64 \<and> n < k + 9 \<and> bit v (n + (j - k))"
  by (auto simp: field_def bit_simps ac_simps)

lemma add_field:
  "above (k + 9) a \<Longrightarrow> a + push_bit k (field j v) = a OR push_bit k (field j v)"
  by (rule disjunctive_add_eq_or, rule bit_eqI) (auto simp: above_def field_def bit_simps)

lemma ptr_or:
  "pte_ptr v = NOT (mask 39) OR push_bit 30 (field 39 v) OR push_bit 21 (field 30 v) OR
     push_bit 12 (field 21 v) OR push_bit 3 (field 12 v)"
  "pde_ptr v = NOT (mask 30) OR push_bit 21 (field 39 v) OR push_bit 12 (field 30 v) OR
     push_bit 3 (field 21 v)"
  "pdpte_ptr v = NOT (mask 21) OR push_bit 12 (field 39 v) OR push_bit 3 (field 30 v)"
  "pml4e_ptr v = NOT (mask 12) OR push_bit 3 (field 39 v)"
  unfolding pte_ptr_def pde_ptr_def pdpte_ptr_def pml4e_ptr_def idx_field times8 base_masks
  by (simp_all add: add_field or.assoc)

lemma bit_ptr:
  "bit (pte_ptr v) n \<longleftrightarrow> n < 64 \<and> 3 \<le> n \<and> (39 \<le> n \<or> bit v (n + 9))"
  "bit (pde_ptr v) n \<longleftrightarrow> n < 64 \<and> 3 \<le> n \<and> (30 \<le> n \<or> bit v (n + 18))"
  "bit (pdpte_ptr v) n \<longleftrightarrow> n < 64 \<and> 3 \<le> n \<and> (21 \<le> n \<or> bit v (n + 27))"
  "bit (pml4e_ptr v) n \<longleftrightarrow> n < 64 \<and> 3 \<le> n \<and> (12 \<le> n \<or> bit v (n + 36))"
  unfolding ptr_or by (simp only: bit_or_iff bit_push_field bit_not_iff bit_mask_iff; auto)+

lemma pte_ptr_recursive:
  "pte_ptr (pte_ptr v) = pde_ptr v" "pte_ptr (pde_ptr v) = pdpte_ptr v"
  "pte_ptr (pdpte_ptr v) = pml4e_ptr v" "pte_ptr (pml4e_ptr v) = 0xfffffffffffffff8"
proof -
  have c: "(0xfffffffffffffff8 :: u64) = NOT (mask 3)" by (simp add: mask_numeral)
  show "pte_ptr (pte_ptr v) = pde_ptr v" "pte_ptr (pde_ptr v) = pdpte_ptr v"
    "pte_ptr (pdpte_ptr v) = pml4e_ptr v" "pte_ptr (pml4e_ptr v) = 0xfffffffffffffff8"
    unfolding c by (rule bit_eqI, auto simp: bit_ptr bit_not_iff bit_mask_iff add.assoc; fail)+
qed

lemma pte_ptr_page: "drop_bit 12 v = drop_bit 12 w \<Longrightarrow> pte_ptr v = pte_ptr w"
proof (rule bit_eqI)
  fix n assume "drop_bit 12 v = drop_bit 12 w"
  then have "bit (drop_bit 12 v) (n - 3) = bit (drop_bit 12 w) (n - 3)" by simp
  then show "bit (pte_ptr v) n = bit (pte_ptr w) n"
    by (cases "3 \<le> n") (auto simp: bit_ptr bit_drop_bit_eq ac_simps)
qed

lemma pte_ptr_eq: "pte_ptr v = pte_ptr w \<longleftrightarrow> take_bit 36 (drop_bit 12 v) = take_bit 36 (drop_bit 12 w)"
proof -
  have "pte_ptr v = pte_ptr w" if "take_bit 36 (drop_bit 12 v) = take_bit 36 (drop_bit 12 w)"
  proof (rule bit_eqI)
    fix n
    have "bit (take_bit 36 (drop_bit 12 v)) (n - 3) = bit (take_bit 36 (drop_bit 12 w)) (n - 3)"
      using that by simp
    then show "bit (pte_ptr v) n = bit (pte_ptr w) n"
      by (cases "3 \<le> n") (auto simp: bit_ptr bit_take_bit_iff bit_drop_bit_eq ac_simps)
  qed
  moreover have "take_bit 36 (drop_bit 12 v) = take_bit 36 (drop_bit 12 w)" if "pte_ptr v = pte_ptr w"
  proof (rule bit_eqI)
    fix n
    have "bit (pte_ptr v) (n + 3) = bit (pte_ptr w) (n + 3)" using that by simp
    then show "bit (take_bit 36 (drop_bit 12 v)) n = bit (take_bit 36 (drop_bit 12 w)) n"
      by (auto simp: bit_ptr bit_take_bit_iff bit_drop_bit_eq ac_simps)
  qed
  ultimately show ?thesis by blast
qed

text \<open>In terms of the levels: the entry one level up is the page-table entry of the entry itself.\<close>

definition SELF :: u64 where "SELF = 0xfffffffffffffff8"

lemma fu_simps [simp]:
  "fu 0 = pml4e_ptr" "fu (Suc 0) = pdpte_ptr" "fu 1 = pdpte_ptr" "fu 2 = pde_ptr" "fu 3 = pte_ptr"
  by (simp_all add: fu_def)

lemma pte_of_fu_Suc: "i < 3 \<Longrightarrow> pte_ptr (fu (Suc i) v) = fu i v"
  using pte_ptr_recursive [of v] by (auto simp: less_Suc_eq numeral_3_eq_3 numeral_2_eq_2 fu_def)

lemma pte_of_fu_0: "pte_ptr (fu 0 v) = SELF"
  using pte_ptr_recursive [of v] by (simp add: SELF_def)

definition present :: "'a mem_scheme \<Rightarrow> u64 \<Rightarrow> bool" where
  "present m a \<longleftrightarrow> bit (pt m a) 0"

lemma and_1_present: "pt m a AND 1 = 0 \<longleftrightarrow> \<not> present m a"
  by (simp add: present_def and_one_eq bit_0 even_iff_mod_2_eq_zero)

lemma first_absent_le: "\<forall>i \<in> set is. i < 4 \<Longrightarrow> first_absent m v is \<le> 4"
  by (induction "is") auto

lemma map_stat_4: "map_stat m v = 4 \<longleftrightarrow> (\<forall>i < 4. present m (fu i v))"
proof -
  have "[0..<4] = [0, 1, 2, 3 :: nat]" by (simp add: upt_rec)
  moreover have "(\<forall>i < 4. P i) \<longleftrightarrow> P 0 \<and> P 1 \<and> P 2 \<and> P (3 :: nat)" for P
    by (auto simp: less_Suc_eq numeral_eq_Suc)
  ultimately show ?thesis by (simp add: map_stat_def and_1_present)
qed

lemma map_stat_less:
  assumes "map_stat m v \<noteq> 4"
  shows "map_stat m v < 4 \<and> \<not> present m (fu (map_stat m v) v) \<and> (\<forall>i < map_stat m v. present m (fu i v))"
proof -
  have "[0..<4] = [0, 1, 2, 3 :: nat]" by (simp add: upt_rec)
  then show ?thesis using assms
    by (auto simp: map_stat_def and_1_present less_Suc_eq numeral_eq_Suc split: if_splits)
qed

section \<open>Frames\<close>

text \<open>
  The pool of frames starts at a page boundary and its addresses fit in 64 bits. \<open>frame_addr m k\<close>
  is the physical address of frame \<open>k\<close>.
\<close>

definition frame_addr :: "'a mem_scheme \<Rightarrow> nat \<Rightarrow> u64" where
  "frame_addr m k = phy_start m + PG_SIZE * of_nat k"

definition pool_ok :: "'a mem_scheme \<Rightarrow> bool" where
  "pool_ok m \<longleftrightarrow> bitmap_wf (phy_bitmap m) \<and> unat (phy_start m) mod 4096 = 0 \<and>
     unat (phy_start m) + 4096 * (8 * bytes_len (phy_bitmap m)) < 2 ^ 64"

definition mem_ok :: "'a mem_scheme \<Rightarrow> bool" where
  "mem_ok m \<longleftrightarrow> pool_ok m \<and> present m SELF"

lemma mem_okD: "mem_ok m \<Longrightarrow> pool_ok m" "mem_ok m \<Longrightarrow> present m SELF"
  by (simp_all add: mem_ok_def)

abbreviation frames_used :: "'a mem_scheme \<Rightarrow> nat set" where
  "frames_used m \<equiv> used_bits (phy_bitmap m)"

abbreviation frames :: "'a mem_scheme \<Rightarrow> nat" where
  "frames m \<equiv> 8 * bytes_len (phy_bitmap m)"

lemma unat_pages:
  assumes "4096 * k < 2 ^ 64"
  shows "unat (PG_SIZE * of_nat k) = 4096 * k"
proof -
  have "unat (of_nat k :: u64) = k" using assms by (simp add: unat_of_nat)
  with assms show ?thesis by (simp add: PG_SIZE_def unat_mult_lem [THEN iffD1])
qed

lemma unat_frame_addr:
  assumes "pool_ok m" "k < frames m"
  shows "unat (frame_addr m k) = unat (phy_start m) + 4096 * k"
proof -
  have lt: "unat (phy_start m) + 4096 * k < 2 ^ 64" using assms by (simp add: pool_ok_def)
  then have "unat (PG_SIZE * of_nat k) = 4096 * k" by (intro unat_pages) simp
  with lt show ?thesis by (simp add: frame_addr_def unat_add_lem [THEN iffD1])
qed

lemma frame_addr_aligned:
  assumes "pool_ok m" "k < frames m"
  shows "take_bit 12 (frame_addr m k) = 0"
proof -
  have "unat (frame_addr m k) mod 4096 = 0"
    using unat_frame_addr [OF assms] assms(1) by (simp add: pool_ok_def)
  then have "unat (take_bit 12 (frame_addr m k)) = 0"
    by (simp add: take_bit_eq_mod unat_mod)
  then show ?thesis by (simp add: unat_eq_zero)
qed

lemma frame_addr_inj:
  assumes "pool_ok m" "j < frames m" "k < frames m" "frame_addr m j = frame_addr m k"
  shows "j = k"
proof -
  have "unat (phy_start m) + 4096 * j = unat (phy_start m) + 4096 * k"
    using unat_frame_addr [OF assms(1,2)] unat_frame_addr [OF assms(1,3)] assms(4) by metis
  then show ?thesis by simp
qed

lemma frame_index_addr:
  assumes "pool_ok m" "k < frames m" "unat off < 4096"
  shows "frame_index m (frame_addr m k + off) = k"
proof -
  have lt: "4096 * k < 2 ^ 64" "4096 * k + unat off < 2 ^ 64" using assms by (simp_all add: pool_ok_def)
  have "frame_addr m k + off - phy_start m = PG_SIZE * of_nat k + off" by (simp add: frame_addr_def)
  then have "frame_index m (frame_addr m k + off) = unat (PG_SIZE * of_nat k + off) div unat PG_SIZE"
    by (simp only: frame_index_def unat_div)
  also have "unat (PG_SIZE * of_nat k + off) = 4096 * k + unat off"
    using unat_pages [OF lt(1)] lt(2) by (subst unat_add_lem [THEN iffD1]) simp_all
  also have "\<dots> div unat PG_SIZE = k" using assms(3) by (simp add: PG_SIZE_def)
  finally show ?thesis .
qed

lemma aligned_plus_7:
  assumes "take_bit 12 p = (0 :: u64)"
  shows "p + 7 = p OR 7" "(p + 7) AND 0xfffffffffffff000 = p" "bit (p + 7) 0"
proof -
  have low: "\<not> bit p n" if "n < 12" for n
    using assms that by (metis bit_0_eq bit_take_bit_iff bot_apply bot_bool_def)
  have seven: "(7 :: u64) = mask 3" by (simp add: mask_numeral)
  show p: "p + 7 = p OR 7"
    unfolding seven by (rule disjunctive_add_eq_or, rule bit_eqI) (use low in \<open>auto simp: bit_simps\<close>)
  show "(p + 7) AND 0xfffffffffffff000 = p"
    unfolding p unfolding seven base_masks by (rule bit_eqI) (use low in \<open>auto simp: bit_simps\<close>)
  show "bit (p + 7) 0" unfolding p unfolding seven by (simp add: bit_simps)
qed

lemma palloc_cases:
  assumes "mem_ok m"
  obtains (full) "palloc m = Inr (None, m)" "{..<frames m} \<subseteq> frames_used m"
  | (frame) m' k where "palloc m = Inr (Some (frame_addr m k), m')" "k < frames m"
      "k \<notin> frames_used m" "frames_used m' = insert k (frames_used m)" "m' = m\<lparr>phy_bitmap := phy_bitmap m'\<rparr>"
      "same_shape (phy_bitmap m) (phy_bitmap m')"
proof -
  have wf: "bitmap_wf (phy_bitmap m)" using assms by (simp add: mem_ok_def pool_ok_def)
  show thesis
  proof (cases rule: bitmap_alloc_a_bit_cases [OF wf])
    case 1
    then show thesis by (intro full) (simp_all add: palloc_def Let_def)
  next
    case (2 b k)
    then show thesis
      by (intro frame [of k "m\<lparr>phy_bitmap := b\<rparr>"]) (simp_all add: palloc_def Let_def frame_addr_def)
  qed
qed

text \<open>What building tables and mapping a page keeps: see \<open>mem_step\<close>. \<open>mapped m v\<close>: all four levels are there.\<close>

definition mapped :: "'a mem_scheme \<Rightarrow> u64 \<Rightarrow> bool" where
  "mapped m v \<longleftrightarrow> map_stat m v = 4"

definition pte_of :: "'a mem_scheme \<Rightarrow> u64 \<Rightarrow> u64" where
  "pte_of m v = pt m (pte_ptr v)"

definition mem_step :: "'a mem_scheme \<Rightarrow> 'a mem_scheme \<Rightarrow> bool" where
  "mem_step m m' \<longleftrightarrow> mem_ok m' \<and> phy_start m' = phy_start m \<and>
     same_shape (phy_bitmap m) (phy_bitmap m') \<and> frames_used m \<subseteq> frames_used m' \<and>
     mem.more m' = mem.more m \<and> (\<forall>v. mapped m v \<longrightarrow> mapped m' v \<and> pte_of m' v = pte_of m v)"

lemma mem_step_refl: "mem_ok m \<Longrightarrow> mem_step m m"
  by (simp add: mem_step_def)

lemma mem_step_trans: "mem_step a b \<Longrightarrow> mem_step b c \<Longrightarrow> mem_step a c"
  by (auto simp: mem_step_def intro: same_shape_trans)

lemma mem_step_frames: "mem_step m m' \<Longrightarrow> frames m' = frames m" "mem_step m m' \<Longrightarrow> frame_addr m' k = frame_addr m k"
  by (simp_all add: mem_step_def same_shape_def frame_addr_def)

text \<open>Entries above an entry that is not present are on no way to a mapped page.\<close>

lemma pte_ptr_of_entry:
  assumes "mem_ok m" "mapped m v" "i < 4"
  shows "present m (pte_ptr (fu i v))"
proof (cases i)
  case 0
  then show ?thesis using assms(1) pte_of_fu_0 by (simp add: mem_ok_def del: fu_simps)
next
  case (Suc j)
  then show ?thesis using assms(2,3) pte_of_fu_Suc [of j v] by (simp add: mapped_def map_stat_4)
qed

lemma not_in_new_table:
  assumes "mem_ok m" "\<not> present m (fu s v)" "s < 3" "present m (pte_ptr a)"
  shows "drop_bit 12 a \<noteq> drop_bit 12 (fu (Suc s) v)"
  using pte_ptr_page [of a "fu (Suc s) v"] pte_of_fu_Suc [OF assms(3)] assms(2,4) by metis

text \<open>One new table: an entry that is not present gets a frame, and the new table is cleared.\<close>

definition new_table :: "nat \<Rightarrow> u64 \<Rightarrow> u64 \<Rightarrow> 'a mem_scheme \<Rightarrow> 'a mem_scheme" where
  "new_table s v p m = clear_page (fu (Suc s) v) (set_entry (fu s v) (p + 7) m)"

lemma pt_new_table:
  "pt (new_table s v p m) x = (if drop_bit 12 x = drop_bit 12 (fu (Suc s) v) then 0
     else if x = fu s v then p + 7 else pt m x)"
  by (simp add: new_table_def clear_page_def set_entry_def)

lemma new_table_simps [simp]:
  "phy_start (new_table s v p m) = phy_start m" "phy_bitmap (new_table s v p m) = phy_bitmap m"
  "mem.more (new_table s v p m) = mem.more m"
  "phy_start (set_entry a e m) = phy_start m" "phy_bitmap (set_entry a e m) = phy_bitmap m"
  "mem.more (set_entry a e m) = mem.more m"
  by (simp_all add: new_table_def clear_page_def set_entry_def)

lemma pt_set_entry [simp]: "pt (set_entry a e m) x = (if x = a then e else pt m x)"
  by (simp add: set_entry_def)

lemma new_table_keeps:
  assumes "\<not> present m (fu s v)" "s < 3" "present m (pte_ptr a)" "a \<noteq> fu s v"
  shows "pt (new_table s v p m) a = pt m a"
proof -
  have "drop_bit 12 a \<noteq> drop_bit 12 (fu (Suc s) v)"
    using pte_ptr_page [of a "fu (Suc s) v"] pte_of_fu_Suc [OF assms(2)] assms(1,3) by metis
  with assms(4) show ?thesis by (simp add: pt_new_table)
qed

lemma present_pte_of_entry:
  assumes "present m SELF" "i < 4" "\<forall>j < i. present m (fu j v)"
  shows "present m (pte_ptr (fu i v))"
proof (cases i)
  case 0
  then show ?thesis using assms(1) pte_of_fu_0 by (simp add: del: fu_simps)
next
  case (Suc j)
  then show ?thesis using assms(2,3) pte_of_fu_Suc [of j v] by simp
qed

lemma pte_of_SELF: "pte_ptr SELF = SELF"
proof -
  have eq: "SELF = NOT (mask 3)" by (simp add: SELF_def mask_numeral)
  show ?thesis unfolding eq by (rule bit_eqI) (auto simp: bit_ptr bit_not_iff bit_mask_iff)
qed

lemma new_table_step:
  assumes "mem_ok m" "\<not> present m (fu s v)" "s < 3" "\<forall>i < s. present m (fu i v)" "take_bit 12 p = 0"
  defines "m' \<equiv> new_table s v p m"
  shows "mem_step m m'" "\<forall>i \<le> s. present m' (fu i v)" "\<not> present m' (fu (Suc s) v)"
proof -
  have keep: "pt m' (fu i w) = pt m (fu i w)" if "i < 4" "\<forall>j < i. present m (fu j w)" "present m (fu i w)" for i w
    unfolding m'_def
    by (rule new_table_keeps [OF assms(2,3) present_pte_of_entry])
      (use that assms(1,2) in \<open>auto simp: mem_ok_def\<close>)
  have self: "pt m' SELF = pt m SELF"
    unfolding m'_def
    by (rule new_table_keeps [OF assms(2,3)])
      (use assms(1,2) in \<open>auto simp: mem_ok_def pte_of_SELF\<close>)
  then have ok: "mem_ok m'" using assms(1) by (simp add: mem_ok_def pool_ok_def present_def m'_def)
  have maps: "mapped m' w \<and> pte_of m' w = pte_of m w" if "mapped m w" for w
  proof -
    have lv: "pt m' (fu i w) = pt m (fu i w)" if "i < 4" for i
      using keep [of i w] that \<open>mapped m w\<close> by (simp add: mapped_def map_stat_4)
    then have "mapped m' w" using \<open>mapped m w\<close> by (simp add: mapped_def map_stat_4 present_def)
    with lv [of 3] show ?thesis by (simp add: pte_of_def)
  qed
  show "mem_step m m'" using ok maps by (auto simp: mem_step_def m'_def)
  have here: "drop_bit 12 (fu s v) \<noteq> drop_bit 12 (fu (Suc s) v)"
    using pte_ptr_page [of "fu s v" "fu (Suc s) v"] pte_of_fu_Suc [OF assms(3)] assms(2)
      present_pte_of_entry [of m s v] assms(1,3,4) by (auto simp: mem_ok_def)
  have "present m' (fu s v)"
    using here aligned_plus_7(3) [OF assms(5)] by (simp add: present_def m'_def pt_new_table)
  moreover have "present m' (fu i v)" if "i < s" for i
    using keep [of i v] that assms(3,4) by (auto simp: present_def)
  ultimately show "\<forall>i \<le> s. present m' (fu i v)" by (auto simp: le_less)
  show "\<not> present m' (fu (Suc s) v)" by (simp add: present_def m'_def pt_new_table)
qed

lemma palloc_pt: "m' = m\<lparr>phy_bitmap := b\<rparr> \<Longrightarrow> pt m' = pt m"
  by simp

lemma palloc_step:
  assumes "mem_ok m" "m' = m\<lparr>phy_bitmap := phy_bitmap m'\<rparr>" "same_shape (phy_bitmap m) (phy_bitmap m')"
    and "frames_used m \<subseteq> frames_used m'"
  shows "mem_step m m'"
proof -
  define b where "b = phy_bitmap m'"
  have m': "m' = m\<lparr>phy_bitmap := b\<rparr>" using assms(2) by (simp add: b_def)
  have "bytes_len b = bytes_len (phy_bitmap m)" "bitmap_wf b"
    using assms(1,3) same_shape_wf [OF assms(3)] by (simp_all add: same_shape_def mem_ok_def pool_ok_def b_def)
  then have "mem_ok m'" using assms(1) by (simp add: m' mem_ok_def pool_ok_def present_def)
  with assms(3,4) show ?thesis
    by (simp add: m' mem_step_def mapped_def map_stat_4 pte_of_def present_def)
qed

lemma build_tables_spec:
  assumes "mem_ok m" "s \<le> 3" "\<forall>i < s. present m (fu i v)" "\<not> present m (fu s v)"
    and "build_tables v [s..<3] m = Inr m'"
  shows "mem_step m m' \<and> (\<forall>i < 3. present m' (fu i v)) \<and> \<not> present m' (fu 3 v)"
  using assms
proof (induction "3 - s" arbitrary: s m)
  case 0
  then show ?case by (simp add: mem_step_refl)
next
  case (Suc n)
  then have s: "s < 3" by simp
  then have upt: "[s..<3] = s # [Suc s..<3]" by (simp add: upt_rec)
  from Suc.prems(1) show ?case
  proof (cases rule: palloc_cases)
    case full
    then show ?thesis using Suc.prems(5) upt by simp
  next
    case (frame m1 k)
    let ?p = "frame_addr m k"
    have run: "build_tables v [Suc s..<3] (new_table s v ?p m1) = Inr m'"
      using Suc.prems(5) frame(1) by (simp add: upt new_table_def del: fu_simps)
    note pt1 = palloc_pt [OF frame(5)]
    have st1: "mem_step m m1" using palloc_step [OF Suc.prems(1) frame(5,6)] frame(4) by blast
    then have ok1: "mem_ok m1" by (simp add: mem_step_def)
    let ?n = "new_table s v ?p m1"
    note table = new_table_step [OF ok1, of s v ?p]
    have n: "mem_step m1 ?n" "\<forall>i \<le> s. present ?n (fu i v)" "\<not> present ?n (fu (Suc s) v)"
      using table Suc.prems(3,4) s pt1 frame_addr_aligned [OF mem_okD(1) [OF Suc.prems(1)] frame(2)]
      by (simp_all add: present_def)
    have "mem_ok ?n" using n(1) by (simp add: mem_step_def)
    with Suc.hyps(1) [of "Suc s" ?n] Suc.hyps(2) s run n(2,3)
    have "mem_step ?n m' \<and> (\<forall>i < 3. present m' (fu i v)) \<and> \<not> present m' (fu 3 v)"
      by (simp add: less_Suc_eq_le)
    then show ?thesis using mem_step_trans [OF st1 mem_step_trans [OF n(1)]] by blast
  qed
qed

text \<open>\<^verbatim>\<open>page_map\<close>: the page is mapped to the frame, every mapping that existed stays as it was.\<close>

lemma page_map_spec:
  assumes "mem_ok m" "take_bit 12 p = 0" "page_map v p m = Inr m'"
  shows "\<not> mapped m v \<and> mem_step m m' \<and> mapped m' v \<and> pte_of m' v = p + 7"
proof -
  let ?s = "map_stat m v"
  obtain m1 where m1: "?s \<noteq> 4" "build_tables v [?s..<3] m = Inr m1" "m' = set_entry (pte_ptr v) (p + 7) m1"
    using assms(3) by (auto simp: page_map_def Let_def res_simps)
  have st: "?s \<le> 3" "\<not> present m (fu ?s v)" "\<forall>i < ?s. present m (fu i v)"
    using map_stat_less [OF m1(1)] by auto
  have b: "mem_step m m1" "\<forall>i < 3. present m1 (fu i v)" "\<not> present m1 (pte_ptr v)"
    using build_tables_spec [OF assms(1) st(1,3,2) m1(2)] by auto
  have pt: "pt m' x = (if x = pte_ptr v then p + 7 else pt m1 x)" for x
    by (simp add: m1(3) set_entry_def)
  have keep: "pt m' a = pt m1 a" if "present m1 a" for a using that b(3) by (auto simp: pt)
  have lv: "present m' (fu i v)" if "i < 4" for i
  proof (cases "i = 3")
    case True
    then show ?thesis using aligned_plus_7(3) [OF assms(2)] by (simp add: present_def pt)
  next
    case False
    then show ?thesis using b(2) keep [of "fu i v"] that by (simp add: present_def)
  qed
  have m1ok: "mem_ok m1" using b(1) by (simp add: mem_step_def)
  have maps: "mapped m' w \<and> pte_of m' w = pte_of m1 w" if "mapped m1 w" for w
  proof -
    have lw: "pt m' (fu i w) = pt m1 (fu i w)" if "i < 4" for i
      using keep \<open>mapped m1 w\<close> that by (simp add: mapped_def map_stat_4)
    with that have "mapped m' w" by (simp add: mapped_def map_stat_4 present_def)
    with lw [of 3] show ?thesis by (simp add: pte_of_def)
  qed
  have "present m1 SELF" using m1ok by (simp add: mem_ok_def)
  with keep [of SELF] have self: "present m' SELF" by (simp add: present_def)
  have "mem_ok m'" using m1ok self by (simp add: mem_ok_def pool_ok_def m1(3))
  with maps have "mem_step m1 m'" by (simp add: mem_step_def m1(3))
  moreover have "mapped m' v" "pte_of m' v = p + 7" using lv by (simp_all add: mapped_def map_stat_4 pte_of_def pt)
  ultimately show ?thesis using m1(1) mem_step_trans [OF b(1)] by (simp add: mapped_def)
qed

text \<open>Enough free frames make it succeed.\<close>

lemma palloc_more:
  assumes "mem_ok m" "card ({..<frames m} - frames_used m) > 0"
  shows "\<exists>k m'. palloc m = Inr (Some (frame_addr m k), m') \<and> k < frames m \<and> k \<notin> frames_used m \<and>
    frames_used m' = insert k (frames_used m) \<and> m' = m\<lparr>phy_bitmap := phy_bitmap m'\<rparr> \<and>
    same_shape (phy_bitmap m) (phy_bitmap m')"
  using assms(1)
proof (cases rule: palloc_cases)
  case full
  then have "{..<frames m} - frames_used m = {}" by blast
  with assms(2) show ?thesis by (metis card.empty less_irrefl)
next
  case (frame m' k)
  then show ?thesis by blast
qed

section \<open>Runs of pages\<close>

text \<open>
  \<open>backed m v f is\<close>: the page-table entry of page \<open>i\<close> of the run at \<open>v\<close> holds frame \<open>f i\<close>, and
  different pages have different frames.
\<close>

definition backed :: "'a mem_scheme \<Rightarrow> u64 \<Rightarrow> (nat \<Rightarrow> nat) \<Rightarrow> nat set \<Rightarrow> bool" where
  "backed m v f S \<longleftrightarrow> inj_on f S \<and>
     (\<forall>i \<in> S. pte_of m (page_at v i) = frame_addr m (f i) + 7 \<and> f i < frames m \<and> f i \<in> frames_used m)"

lemma map_pages_spec:
  assumes "mem_ok m" "distinct is" "map_pages v is m = Inr (True, m')"
  shows "mem_step m m' \<and> (\<exists>f. backed m' v f (set is) \<and> (\<forall>i \<in> set is. mapped m' (page_at v i) \<and>
     \<not> mapped m (page_at v i) \<and> f i \<notin> frames_used m))"
  using assms
proof (induction "is" arbitrary: m)
  case Nil
  then show ?case by (simp add: mem_step_refl backed_def)
next
  case (Cons i "is")
  from Cons.prems(1) show ?case
  proof (cases rule: palloc_cases)
    case full
    then show ?thesis using Cons.prems(3) by simp
  next
    case (frame m1 k)
    let ?p = "frame_addr m k"
    have st1: "mem_step m m1" using palloc_step [OF Cons.prems(1) frame(5,6)] frame(4) by blast
    then have ok1: "mem_ok m1" by (simp add: mem_step_def)
    obtain m2 where m2: "page_map (page_at v i) ?p m1 = Inr m2" "map_pages v is m2 = Inr (True, m')"
      using Cons.prems(3) frame(1) by (auto simp: res_simps)
    have al: "take_bit 12 ?p = 0" by (rule frame_addr_aligned [OF mem_okD(1) [OF Cons.prems(1)] frame(2)])
    note pm = page_map_spec [OF ok1 al m2(1)]
    then have st12: "mem_step m1 m2" by blast
    then have ok2: "mem_ok m2" by (simp add: mem_step_def)
    have st2: "mem_step m m2" by (rule mem_step_trans [OF st1 st12])
    obtain f where f: "mem_step m2 m'" "backed m' v f (set is)"
        "\<forall>j \<in> set is. mapped m' (page_at v j) \<and> \<not> mapped m2 (page_at v j) \<and> f j \<notin> frames_used m2"
      using Cons.IH [OF ok2 _ m2(2)] Cons.prems(2) by auto
    let ?f = "f(i := k)"
    have i: "i \<notin> set is" using Cons.prems(2) by simp
    have k2: "k \<in> frames_used m2" using st12 frame(4) unfolding mem_step_def by blast
    have step: "mem_step m m'" by (rule mem_step_trans [OF st2 f(1)])
    have here: "mapped m' (page_at v i)" "pte_of m' (page_at v i) = frame_addr m' k + 7"
        "k < frames m'" "k \<in> frames_used m'"
      using pm f(1) k2 frame(2) unfolding mem_step_frames [OF step] mem_step_def by auto
    have other: "?f j = f j" "f j \<noteq> k" if "j \<in> set is" for j using that i f(3) k2 by auto
    then have "inj_on ?f (set (i # is))"
      using f(2) i by (auto simp: backed_def inj_on_def)
    then have "backed m' v ?f (set (i # is))"
      using f(2) here other(1) by (auto simp: backed_def)
    moreover have "\<not> mapped m (page_at v i)" using pm st1 unfolding mem_step_def by blast
    moreover have "\<not> mapped m (page_at v j) \<and> f j \<notin> frames_used m" if "j \<in> set is" for j
      using f(3) that st2 unfolding mem_step_def by blast
    ultimately have "\<forall>j \<in> set (i # is). mapped m' (page_at v j) \<and> \<not> mapped m (page_at v j) \<and> ?f j \<notin> frames_used m"
      using here(1) f(3) frame(3) i by simp
    with step \<open>backed m' v ?f (set (i # is))\<close> show ?thesis by blast
  qed
qed

lemma alloc_pages_spec:
  assumes "mem_ok m" "alloc_pages vp cnt m = Inr (Some v, vp', m')"
  shows "mem_step m m' \<and> (\<exists>k. v = of_nat k * PG_SIZE + vstart vp \<and> k < 8 * bytes_len (vbitmap vp) \<and>
      run_clear (vbitmap vp) k cnt \<and> used_bits (vbitmap vp') = used_bits (vbitmap vp) \<union> run_of k cnt \<and>
      same_shape (vbitmap vp) (vbitmap vp') \<and> vstart vp' = vstart vp) \<and>
    (\<exists>f. backed m' v f {..<cnt} \<and> (\<forall>i < cnt. mapped m' (page_at v i) \<and> \<not> mapped m (page_at v i) \<and>
       f i \<notin> frames_used m))"
proof -
  obtain b idx where b: "bitmap_alloc (vbitmap vp) cnt = Inr (b, idx)" "idx \<noteq> -1"
      "v = of_int idx * PG_SIZE + vstart vp" "vp' = vp\<lparr>vbitmap := b\<rparr>" "map_pages v [0..<cnt] m = Inr (True, m')"
    using assms(2) by (auto simp: alloc_pages_def vpool_alloc_def res_simps Let_def split: option.splits if_splits)
  obtain k where k: "idx = int k" "k < 8 * bytes_len (vbitmap vp)" "run_clear (vbitmap vp) k cnt"
      "same_shape (vbitmap vp) b" "used_bits b = used_bits (vbitmap vp) \<union> run_of k cnt"
    using bitmap_alloc_from_sound [OF b(1) [unfolded bitmap_alloc_def]] b(2) by auto
  have "set [0..<cnt] = {..<cnt}" by auto
  with map_pages_spec [OF assms(1) distinct_upt b(5)] b(3,4) k show ?thesis
    by (intro conjI exI [of _ k]) auto
qed

text \<open>Unmapping a run: the entries lose their present bit, no frame becomes free.\<close>

lemma unmap_pages_spec:
  assumes "pool_ok m" "distinct is" "backed m v f (set is)"
  shows "\<exists>m'. unmap_pages v is m = Inr m' \<and> frames_used m' = frames_used m \<and>
    same_shape (phy_bitmap m) (phy_bitmap m') \<and> phy_start m' = phy_start m \<and>
    (\<forall>i \<in> set is. \<not> present m' (pte_ptr (page_at v i))) \<and>
    (\<forall>a. a \<notin> (\<lambda>i. pte_ptr (page_at v i)) ` set is \<longrightarrow> pt m' a = pt m a)"
  using assms
proof (induction "is" arbitrary: m)
  case Nil
  then show ?case by simp
next
  case (Cons i "is")
  let ?a = "pte_ptr (page_at v i)" and ?k = "f i"
  have here: "pt m ?a = frame_addr m ?k + 7" "?k < frames m" "?k \<in> frames_used m"
    using Cons.prems(3) by (simp_all add: backed_def pte_of_def)
  have al: "take_bit 12 (frame_addr m ?k) = 0" by (rule frame_addr_aligned [OF Cons.prems(1) here(2)])
  note p7 = aligned_plus_7 [OF al]
  have "page_at v i AND 0xfff = take_bit 12 (page_at v i)"
    by (simp add: take_bit_eq_mask mask_numeral)
  moreover have "unat (take_bit 12 (page_at v i)) < 4096"
    by (simp add: unsigned_take_bit_eq) (simp add: take_bit_eq_mod)
  ultimately have idx: "frame_index m (addr_v2p m (page_at v i)) = ?k"
    using frame_index_addr [OF Cons.prems(1) here(2)] here(1) p7(2) by (simp add: addr_v2p_def)
  let ?m1 = "set_entry ?a (pt m ?a - 1) m"
  obtain b where b: "bitmap_set (phy_bitmap m) ?k True = Inr b" "same_shape (phy_bitmap m) b"
      "used_bits b = frames_used m"
    using bitmap_set_used [of ?k "phy_bitmap m" True] used_bits_bound [OF here(3)] here(3) by (auto simp: insert_absorb)
  let ?m2 = "?m1\<lparr>phy_bitmap := b\<rparr>"
  have pt2: "pt ?m2 x = (if x = ?a then pt m ?a - 1 else pt m x)" for x by (simp add: set_entry_def)
  have run: "unmap_pages v (i # is) m = unmap_pages v is ?m2"
    using here(1) p7(3) b(1) idx by (simp add: Let_def and_1_present mark_frame_def) (simp add: present_def)
  have neq: "pte_ptr (page_at v j) \<noteq> ?a" if "j \<in> set is" for j
  proof
    assume "pte_ptr (page_at v j) = ?a"
    then have "frame_addr m (f j) = frame_addr m ?k" "f j < frames m"
      using here(1) Cons.prems(3) that by (auto simp: backed_def pte_of_def)
    then have "f j = ?k" using frame_addr_inj [OF Cons.prems(1)] here(2) by blast
    then show False using Cons.prems(2,3) that by (auto simp: backed_def inj_on_def)
  qed
  have "backed ?m2 v f (set is)"
    using Cons.prems(3) neq b(2,3) by (auto simp: backed_def pte_of_def pt2 frame_addr_def same_shape_def)
  moreover have "pool_ok ?m2"
    using Cons.prems(1) b(2) same_shape_wf [OF b(2)] by (simp add: pool_ok_def same_shape_def)
  ultimately obtain m' where m': "unmap_pages v is ?m2 = Inr m'" "frames_used m' = frames_used ?m2"
      "same_shape (phy_bitmap ?m2) (phy_bitmap m')" "phy_start m' = phy_start ?m2"
      "\<forall>j \<in> set is. \<not> present m' (pte_ptr (page_at v j))"
      "\<forall>a. a \<notin> (\<lambda>j. pte_ptr (page_at v j)) ` set is \<longrightarrow> pt m' a = pt ?m2 a"
    using Cons.IH [of ?m2] Cons.prems(2) by auto
  have "\<not> bit (pt m ?a - 1) 0" using p7(3) here(1) by (simp add: bit_0)
  moreover have "pt m' ?a = pt m ?a - 1" using m'(6) neq pt2 by (metis (no_types, lifting) imageE)
  ultimately have "\<not> present m' ?a" by (simp add: present_def)
  then have "\<forall>j \<in> set (i # is). \<not> present m' (pte_ptr (page_at v j))" using m'(5) by simp
  moreover have "unmap_pages v (i # is) m = Inr m'" unfolding run by (rule m'(1))
  moreover have "same_shape (phy_bitmap m) (phy_bitmap m')" "phy_start m' = phy_start m"
      "frames_used m' = frames_used m"
    using m'(2-4) b(2,3) by (auto intro: same_shape_trans)
  moreover have "\<forall>a. a \<notin> (\<lambda>j. pte_ptr (page_at v j)) ` set (i # is) \<longrightarrow> pt m' a = pt m a"
    using m'(6) pt2 by simp
  ultimately show ?case by blast
qed

text \<open>Three free frames are enough for the tables of one page.\<close>

definition frames_free :: "'a mem_scheme \<Rightarrow> nat" where
  "frames_free m = card ({..<frames m} - frames_used m)"

lemma palloc_free:
  assumes "mem_ok m" "0 < frames_free m"
  shows "\<exists>k m1. palloc m = Inr (Some (frame_addr m k), m1) \<and> mem_step m m1 \<and> pt m1 = pt m \<and>
    k < frames m \<and> frames_free m1 = frames_free m - 1"
  using assms(1)
proof (cases rule: palloc_cases)
  case full
  then have "{..<frames m} - frames_used m = {}" by blast
  with assms(2) show ?thesis by (simp add: frames_free_def)
next
  case (frame m1 k)
  have st: "mem_step m m1" using palloc_step [OF assms(1) frame(5,6)] frame(4) by blast
  have "{..<frames m1} - frames_used m1 = ({..<frames m} - frames_used m) - {k}"
    using frame(4) mem_step_frames(1) [OF st] by auto
  then have "frames_free m1 = frames_free m - 1" using frame(2,3) by (simp add: frames_free_def)
  with frame(1,2) st palloc_pt [OF frame(5)] show ?thesis by blast
qed

lemma build_tables_ok:
  assumes "mem_ok m" "s \<le> 3" "\<forall>i < s. present m (fu i v)" "\<not> present m (fu s v)" "3 - s \<le> frames_free m"
  shows "\<exists>m'. build_tables v [s..<3] m = Inr m'"
  using assms
proof (induction "3 - s" arbitrary: s m)
  case 0
  then show ?case by simp
next
  case (Suc n)
  then have s: "s < 3" by simp
  then have upt: "[s..<3] = s # [Suc s..<3]" by (simp add: upt_rec)
  have "0 < frames_free m" using Suc.prems(5) s by simp
  from palloc_free [OF Suc.prems(1) this] obtain k m1 where
    p: "palloc m = Inr (Some (frame_addr m k), m1)" "mem_step m m1" "pt m1 = pt m" "k < frames m"
      "frames_free m1 = frames_free m - 1" by blast
  have ok1: "mem_ok m1" using p(2) by (simp add: mem_step_def)
  let ?n = "new_table s v (frame_addr m k) m1"
  have n: "mem_step m1 ?n" "\<forall>i \<le> s. present ?n (fu i v)" "\<not> present ?n (fu (Suc s) v)"
    using new_table_step [OF ok1, of s v "frame_addr m k"] Suc.prems(3,4) s p(3)
      frame_addr_aligned [OF mem_okD(1) [OF Suc.prems(1)] p(4)]
    by (simp_all add: present_def)
  have "frames_free ?n = frames_free m - 1" using p(5) by (simp add: frames_free_def)
  moreover have "mem_ok ?n" using n(1) by (simp add: mem_step_def)
  ultimately have "\<exists>m'. build_tables v [Suc s..<3] ?n = Inr m'"
    using Suc.hyps(1) [of "Suc s" ?n] Suc.hyps(2) Suc.prems(5) s n(2,3) by (simp add: less_Suc_eq_le)
  then show ?case using p(1) by (simp add: upt new_table_def del: fu_simps)
qed

lemma page_map_ok:
  assumes "mem_ok m" "\<not> mapped m v" "3 \<le> frames_free m"
  shows "\<exists>m'. page_map v p m = Inr m'"
proof -
  have ns: "map_stat m v \<noteq> 4" using assms(2) by (simp add: mapped_def)
  note st = map_stat_less [OF ns]
  have "\<exists>m'. build_tables v [map_stat m v..<3] m = Inr m'"
    by (rule build_tables_ok [OF assms(1)]) (use st assms(3) in auto)
  with ns show ?thesis by (auto simp: page_map_def Let_def)
qed

section \<open>Nothing else is mapped\<close>

text \<open>
  Outside the window of the tables (top index 511) the four entries of an address are of different levels, so a new
  entry is on the way to other addresses only through the table it points to, which is empty.
\<close>

lemma outside_window:
  assumes "pml4e_idx v \<noteq> 511"
  shows "\<exists>n. 39 \<le> n \<and> n < 48 \<and> \<not> bit v n"
proof (rule ccontr)
  assume none: "\<nexists>n. 39 \<le> n \<and> n < 48 \<and> \<not> bit v n"
  have "bit v (39 + n)" if "n < 9" for n using none that by (auto dest: spec [of _ "39 + n"])
  then have "field 39 v = mask 9" by (intro bit_word_eqI) (auto simp: field_def bit_simps)
  then show False using assms by (simp add: idx_field mask_numeral)
qed

lemma bit_fu: "i < 4 \<Longrightarrow> bit (fu i v) n \<longleftrightarrow> n < 64 \<and> 3 \<le> n \<and> (12 + 9 * i \<le> n \<or> bit v (n + (36 - 9 * i)))"
  by (auto simp: numeral_eq_Suc less_Suc_eq fu_def bit_ptr)

lemma levels_apart_less:
  assumes "fu i w = fu s v" "i < s" "s < 4"
  shows "pml4e_idx v = 511"
proof (rule ccontr)
  assume "pml4e_idx v \<noteq> 511"
  then obtain n where n: "39 \<le> n" "n < 48" "\<not> bit v n" using outside_window by blast
  let ?k = "n - (36 - 9 * s)"
  have k: "?k + (36 - 9 * s) = n" "12 + 9 * i \<le> ?k" "?k < 12 + 9 * s" "?k < 64" "3 \<le> ?k" using n assms(2,3) by auto
  have "bit (fu i w) ?k" using bit_fu [of i w ?k] assms(2,3) k by simp
  moreover have "\<not> bit (fu s v) ?k" using bit_fu [OF assms(3), of v ?k] k n(3) by auto
  ultimately show False using assms(1) by simp
qed

lemma levels_apart:
  assumes "fu i w = fu s v" "i < 4" "s < 4" "pml4e_idx v \<noteq> 511" "pml4e_idx w \<noteq> 511"
  shows "i = s"
  using levels_apart_less [of i w s v] levels_apart_less [of s v i w] assms by (metis linorder_neqE_nat)

lemma same_table:
  assumes "fu s w = fu s v" "s < 3"
  shows "drop_bit 12 (fu (Suc s) w) = drop_bit 12 (fu (Suc s) v)"
proof (rule bit_eqI)
  fix n
  have "bit (fu s w) (n + 3) = bit (fu s v) (n + 3)" using assms(1) by simp
  moreover have "n + 3 + (36 - 9 * s) = n + 12 + (36 - 9 * Suc s)" using assms(2) by auto
  ultimately show "bit (drop_bit 12 (fu (Suc s) w)) n = bit (drop_bit 12 (fu (Suc s) v)) n"
    using assms(2) bit_fu [of s w "n + 3"] bit_fu [of s v "n + 3"] bit_fu [of "Suc s" w "n + 12"] bit_fu [of "Suc s" v "n + 12"]
    by (auto simp: bit_drop_bit_eq add.commute [of 12])
qed

lemma new_table_maps_none:
  assumes "mapped (new_table s v p m) w" "s < 3" "pml4e_idx v \<noteq> 511" "pml4e_idx w \<noteq> 511"
  shows "mapped m w"
proof -
  have p: "present (new_table s v p m) (fu i w)" if "i < 4" for i using assms(1) that by (simp add: mapped_def map_stat_4)
  have ne: "drop_bit 12 (fu i w) \<noteq> drop_bit 12 (fu (Suc s) v)" if "i < 4" for i
    using p [OF that] by (auto simp: present_def pt_new_table)
  have "present m (fu i w)" if "i < 4" for i
  proof (cases "fu i w = fu s v")
    case True
    then have "i = s" using levels_apart [OF True that _ assms(3,4)] assms(2) by simp
    then have "drop_bit 12 (fu (Suc s) w) = drop_bit 12 (fu (Suc s) v)" using same_table [of s w v] True assms(2) by simp
    then show ?thesis using ne [of "Suc s"] assms(2) by simp
  next
    case False
    then show ?thesis using p [OF that] ne [OF that] by (simp add: present_def pt_new_table)
  qed
  then show ?thesis by (simp add: mapped_def map_stat_4)
qed

lemma build_tables_map_none:
  assumes "build_tables v ss m = Inr m'" "\<forall>s \<in> set ss. s < 3" "pml4e_idx v \<noteq> 511" "pml4e_idx w \<noteq> 511" "mapped m' w"
  shows "mapped m w"
  using assms
proof (induction ss arbitrary: m)
  case (Cons s ss)
  obtain p m1 where p: "palloc m = Inr (Some p, m1)" "build_tables v ss (new_table s v p m1) = Inr m'"
    using Cons.prems(1) by (auto simp: res_simps new_table_def split: option.splits)
  have "mapped (new_table s v p m1) w" using Cons.IH [OF p(2)] Cons.prems by simp
  then have "mapped m1 w" by (rule new_table_maps_none) (use Cons.prems in simp_all)
  moreover have "pt m1 = pt m" using p(1) by (auto simp: palloc_def res_simps Let_def split: if_splits)
  ultimately show ?case by (simp add: mapped_def map_stat_4 present_def)
qed simp

lemma page_map_maps_one:
  assumes "page_map v p m = Inr m'" "pml4e_idx v \<noteq> 511" "pml4e_idx w \<noteq> 511" "mapped m' w"
  shows "mapped m w \<or> pte_ptr w = pte_ptr v"
proof (rule disjCI)
  assume ne: "pte_ptr w \<noteq> pte_ptr v"
  obtain m1 where m1: "build_tables v [map_stat m v..<3] m = Inr m1" "m' = set_entry (fu 3 v) (p + 7) m1"
    using assms(1) by (auto simp: page_map_def Let_def res_simps)
  have "present m1 (fu i w)" if "i < 4" for i
  proof -
    have "fu i w \<noteq> fu 3 v" using levels_apart [of i w 3 v] ne that assms(2,3) by auto
    moreover have "present m' (fu i w)" using assms(4) that by (simp add: mapped_def map_stat_4)
    ultimately show ?thesis unfolding m1(2) present_def by (simp del: fu_simps)
  qed
  then have "mapped m1 w" by (simp add: mapped_def map_stat_4)
  then show "mapped m w" using build_tables_map_none [OF m1(1) _ assms(2,3)] by simp
qed

section \<open>Properties\<close>

text \<open>
  C10. The address arithmetic of the recursive slot: for every address the entry one level up is the
  page-table entry of the entry itself, up to the self-referencing slot; and two addresses share
  their page-table entry exactly when they lie in the same page of the 48-bit address space.
\<close>
theorem recursive_window:
  "(\<forall>i < 3. pte_ptr (fu (Suc i) v) = fu i v) \<and> pte_ptr (fu 0 v) = SELF \<and> pte_ptr SELF = SELF \<and>
   (pte_ptr v = pte_ptr w \<longleftrightarrow> take_bit 36 (drop_bit 12 v) = take_bit 36 (drop_bit 12 w))"
proof -
  show ?thesis using pte_of_fu_Suc pte_of_fu_0 pte_of_SELF pte_ptr_eq by blast
qed

theorem recursive_window_witness:
  "pte_ptr (fu 2 0xffff8000000b8123) = fu 1 0xffff8000000b8123 \<and>
   pte_ptr 0xffff8000000b8123 = pte_ptr 0xffff8000000b8456 \<and>
   pte_ptr 0xffff8000000b8123 \<noteq> pte_ptr 0xffff8000000b9123"
proof -
  have "pte_ptr (fu (Suc 1) 0xffff8000000b8123) = fu 1 0xffff8000000b8123"
    using recursive_window [of "0xffff8000000b8123" 0] by auto
  moreover have "pte_ptr 0xffff8000000b8123 = pte_ptr 0xffff8000000b8456"
    using recursive_window [of "0xffff8000000b8123" "0xffff8000000b8456"] by simp
  moreover have "pte_ptr 0xffff8000000b8123 \<noteq> pte_ptr 0xffff8000000b9123"
    using recursive_window [of "0xffff8000000b8123" "0xffff8000000b9123"] by simp
  ultimately show ?thesis by (simp add: numeral_2_eq_2)
qed

text \<open>
  C9. Mapping a page: with three free frames \<^verbatim>\<open>page_map\<close> of an unmapped page succeeds; afterwards
  the page is mapped and \<^verbatim>\<open>addr_v2p\<close> translates it to the frame, every page mapped before still is, with the same
  entry, and no frame becomes free. Outside the window of the tables themselves no other page becomes mapped,
  whatever the frames of new tables held before.
\<close>
theorem page_map_correct:
  assumes "mem_ok m" "\<not> mapped m v" "3 \<le> frames_free m" "take_bit 12 p = 0"
  shows "\<exists>m'. page_map v p m = Inr m' \<and> mapped m' v \<and> addr_v2p m' v = p + (v AND 0xfff) \<and> mem_ok m' \<and>
    frames_used m \<subseteq> frames_used m' \<and> (\<forall>w. mapped m w \<longrightarrow> mapped m' w \<and> addr_v2p m' w = addr_v2p m w) \<and>
    (pml4e_idx v \<noteq> 511 \<longrightarrow> (\<forall>w. pml4e_idx w \<noteq> 511 \<longrightarrow> mapped m' w \<longrightarrow>
       mapped m w \<or> take_bit 36 (drop_bit 12 w) = take_bit 36 (drop_bit 12 v)))"
proof -
  obtain m' where m': "page_map v p m = Inr m'" using page_map_ok [OF assms(1-3)] by blast
  note sp = page_map_spec [OF assms(1,4) m']
  have "addr_v2p m' v = p + (v AND 0xfff)"
    using sp aligned_plus_7(2) [OF assms(4)] by (simp add: addr_v2p_def pte_of_def)
  moreover have "\<forall>w. mapped m w \<longrightarrow> mapped m' w \<and> addr_v2p m' w = addr_v2p m w"
    using sp by (auto simp: mem_step_def addr_v2p_def pte_of_def)
  moreover have "\<forall>w. pml4e_idx w \<noteq> 511 \<longrightarrow> mapped m' w \<longrightarrow> mapped m w \<or> take_bit 36 (drop_bit 12 w) = take_bit 36 (drop_bit 12 v)"
    if "pml4e_idx v \<noteq> 511"
    using page_map_maps_one [OF m' that] unfolding pte_ptr_eq by blast
  ultimately show ?thesis using m' sp by (intro exI [of _ m'] conjI) (simp_all add: mem_step_def)
qed

text \<open>Memory for the witnesses: 32 free frames from 0x104000, only the recursive slot present.\<close>

definition demo_mem :: mem where
  "demo_mem = \<lparr>phy_start = 0x104000, phy_bitmap = \<lparr>bytes_len = 4, bits = [0, 0, 0, 0]\<rparr>,
     pt = (\<lambda>a. if a = SELF then 0x100007 else 0)\<rparr>"

definition demo_vpool :: virt_pool where
  "demo_vpool = \<lparr>vstart = K_HEAP_START, vbitmap = \<lparr>bytes_len = 2, bits = [0, 0]\<rparr>, descs = mem_desc_init\<rparr>"

lemma demo_mem_ok: "mem_ok demo_mem"
  by (simp add: mem_ok_def pool_ok_def demo_mem_def bitmap_wf_def present_def SELF_def)

theorem page_map_correct_witness:
  "\<exists>m'. page_map 0xffff800000101000 0x108000 demo_mem = Inr m' \<and> mapped m' 0xffff800000101000 \<and>
    addr_v2p m' 0xffff800000101000 = 0x108000 \<and> mem_ok m' \<and> \<not> mapped m' 0xffff800000102000"
proof -
  have "\<not> mapped demo_mem 0xffff800000101000" "\<not> mapped demo_mem 0xffff800000102000" unfolding mapped_def by code_simp+
  moreover have "used_bits (phy_bitmap demo_mem) = {}" by code_simp
  then have "3 \<le> frames_free demo_mem" by (simp add: frames_free_def demo_mem_def)
  moreover have "take_bit 12 (0x108000 :: u64) = 0" "pml4e_idx 0xffff800000101000 \<noteq> 511" "pml4e_idx 0xffff800000102000 \<noteq> 511"
    "take_bit 36 (drop_bit 12 (0xffff800000102000 :: u64)) \<noteq> take_bit 36 (drop_bit 12 0xffff800000101000)"
    "(0x108000 :: u64) + (0xffff800000101000 AND 0xfff) = 0x108000" by code_simp+
  ultimately show ?thesis using page_map_correct [OF demo_mem_ok, where v = "0xffff800000101000" and p = "0x108000"] by metis
qed

text \<open>
  C11. Allocating pages: when \<^verbatim>\<open>alloc_pages\<close> returns an address, the run of virtual pages was free in
  the pool and is taken now, all its pages were unmapped and are mapped, to pairwise different frames
  that were free before; every older mapping is unchanged.
\<close>
theorem alloc_pages_correct:
  assumes "mem_ok m" "alloc_pages vp cnt m = Inr (Some v, vp', m')"
  shows "(\<exists>k. v = of_nat k * PG_SIZE + vstart vp \<and> k < 8 * bytes_len (vbitmap vp) \<and>
      run_clear (vbitmap vp) k cnt \<and> used_bits (vbitmap vp') = used_bits (vbitmap vp) \<union> run_of k cnt) \<and>
    (\<exists>f. inj_on f {..<cnt} \<and> (\<forall>i < cnt. \<not> mapped m (page_at v i) \<and> mapped m' (page_at v i) \<and>
       pte_of m' (page_at v i) = frame_addr m (f i) + 7 \<and> f i \<notin> frames_used m \<and> f i \<in> frames_used m')) \<and>
    (\<forall>w. mapped m w \<longrightarrow> mapped m' w \<and> pte_of m' w = pte_of m w)"
proof -
  note sp = alloc_pages_spec [OF assms]
  then have step: "mem_step m m'" by blast
  then have maps: "\<forall>w. mapped m w \<longrightarrow> mapped m' w \<and> pte_of m' w = pte_of m w"
    by (simp add: mem_step_def)
  obtain f where f: "backed m' v f {..<cnt}" "\<forall>i < cnt. mapped m' (page_at v i) \<and> \<not> mapped m (page_at v i) \<and> f i \<notin> frames_used m"
    using sp by blast
  then have "inj_on f {..<cnt} \<and> (\<forall>i < cnt. \<not> mapped m (page_at v i) \<and> mapped m' (page_at v i) \<and>
       pte_of m' (page_at v i) = frame_addr m (f i) + 7 \<and> f i \<notin> frames_used m \<and> f i \<in> frames_used m')"
    using mem_step_frames(2) [OF step] by (simp add: backed_def)
  with sp maps show ?thesis by blast
qed

definition demo_alloc :: "u64 option \<times> virt_pool \<times> mem" where
  "demo_alloc = (case alloc_pages demo_vpool 2 demo_mem of Inr x \<Rightarrow> x | Inl _ \<Rightarrow> (None, demo_vpool, demo_mem))"

lemma demo_alloc_run:
  "alloc_pages demo_vpool 2 demo_mem = Inr (Some K_HEAP_START, fst (snd demo_alloc), snd (snd demo_alloc))"
proof -
  have "fst demo_alloc = Some K_HEAP_START" by code_simp
  moreover have "\<not> isl (alloc_pages demo_vpool 2 demo_mem)" by code_simp
  ultimately show ?thesis
    by (cases "alloc_pages demo_vpool 2 demo_mem") (auto simp: demo_alloc_def)
qed

theorem alloc_pages_correct_witness:
  "\<exists>f. inj_on f {..<2} \<and> (\<forall>i < 2. \<not> mapped demo_mem (page_at K_HEAP_START i) \<and>
     mapped (snd (snd demo_alloc)) (page_at K_HEAP_START i) \<and>
     pte_of (snd (snd demo_alloc)) (page_at K_HEAP_START i) = frame_addr demo_mem (f i) + 7 \<and>
     f i \<notin> frames_used demo_mem \<and> f i \<in> frames_used (snd (snd demo_alloc)))"
  using alloc_pages_correct [OF demo_mem_ok demo_alloc_run] by blast

text \<open>
  C12. Freeing pages returns the virtual run but loses the memory behind it: after \<^verbatim>\<open>alloc_pages\<close> and
  \<^verbatim>\<open>free_pages\<close> of the run the pool's bitmap is as before and the pages are unmapped, yet every frame
  that \<^verbatim>\<open>alloc_pages\<close> took is still marked used, because \<^verbatim>\<open>free_pages\<close> sets the frame's bit to 1.
\<close>
theorem free_pages_leaks_frames:
  assumes "mem_ok m" "alloc_pages vp cnt m = Inr (Some v, vp1, m1)" "4096 * (8 * bytes_len (vbitmap vp)) < 2 ^ 64"
  shows "\<exists>vp2 m2. free_pages vp1 v cnt m1 = Inr (vp2, m2) \<and> used_bits (vbitmap vp2) = used_bits (vbitmap vp) \<and>
    (\<forall>i < cnt. \<not> mapped m2 (page_at v i)) \<and> frames_used m2 = frames_used m1 \<and>
    (\<exists>S. card S = cnt \<and> S \<inter> frames_used m = {} \<and> S \<subseteq> frames_used m2)"
proof -
  note sp = alloc_pages_spec [OF assms(1,2)]
  then have step: "mem_step m m1" by blast
  then have ok1: "pool_ok m1" by (simp add: mem_step_def mem_ok_def)
  obtain k where k: "v = of_nat k * PG_SIZE + vstart vp" "k < 8 * bytes_len (vbitmap vp)"
      "run_clear (vbitmap vp) k cnt" "used_bits (vbitmap vp1) = used_bits (vbitmap vp) \<union> run_of k cnt"
      "vstart vp1 = vstart vp"
    using sp by blast
  obtain f where f: "backed m1 v f {..<cnt}" "\<forall>i < cnt. f i \<notin> frames_used m"
    using sp by blast
  have "set [0..<cnt] = {..<cnt}" by auto
  then obtain m2 where m2: "unmap_pages v [0..<cnt] m1 = Inr m2" "frames_used m2 = frames_used m1"
      "\<forall>i < cnt. \<not> present m2 (pte_ptr (page_at v i))"
    using unmap_pages_spec [OF ok1 distinct_upt, of v f 0 cnt] f(1) by auto
  have "unat ((v - vstart vp1) div PG_SIZE) = unat (PG_SIZE * of_nat k) div 4096"
    unfolding k(1,5) by (simp add: unat_div mult.commute) (simp add: PG_SIZE_def)
  also have "\<dots> = k" using unat_pages [of k] assms(3) k(2) by simp
  finally have idx: "unat ((v - vstart vp1) div PG_SIZE) = k" .
  obtain b where b: "bitmap_free (vbitmap vp1) k cnt = Inr b" "used_bits b = used_bits (vbitmap vp1) - run_of k cnt"
    using bitmap_free_used [of k cnt "vbitmap vp1"] k(4) by blast
  have "free_pages vp1 v cnt m1 = Inr (vp1\<lparr>vbitmap := b\<rparr>, m2)"
    using m2(1) idx b(1) by (simp add: free_pages_def)
  moreover have "used_bits b = used_bits (vbitmap vp)" using b(2) k(3,4) by (auto simp: run_clear_def)
  moreover have "\<not> mapped m2 (page_at v i)" if "i < cnt" for i
    using m2(3) that by (auto simp: mapped_def map_stat_4 intro!: exI [of _ 3])
  moreover have "card (f ` {..<cnt}) = cnt" "f ` {..<cnt} \<inter> frames_used m = {}" "f ` {..<cnt} \<subseteq> frames_used m2"
    using f m2(2) by (auto simp: backed_def card_image)
  ultimately show ?thesis using m2(2) by (intro exI [of _ "vp1\<lparr>vbitmap := b\<rparr>"] exI [of _ m2] conjI exI [of _ "f ` {..<cnt}"]) simp_all
qed

theorem free_pages_leaks_frames_witness:
  "\<exists>vp2 m2. free_pages (fst (snd demo_alloc)) K_HEAP_START 2 (snd (snd demo_alloc)) = Inr (vp2, m2) \<and>
    used_bits (vbitmap vp2) = used_bits (vbitmap demo_vpool) \<and>
    (\<forall>i < 2. \<not> mapped m2 (page_at K_HEAP_START i)) \<and> frames_used m2 = frames_used (snd (snd demo_alloc)) \<and>
    (\<exists>S. card S = 2 \<and> S \<inter> frames_used demo_mem = {} \<and> S \<subseteq> frames_used m2)"
  by (rule free_pages_leaks_frames [OF demo_mem_ok demo_alloc_run]) (simp add: demo_vpool_def)

end
