(* ===== verification/Arena.thy ===== *)
theory Arena
  imports Paging
begin

unbundle bit_operations_syntax

text \<open>
  The block allocator of \<^verbatim>\<open>kernel/memory.c\<close> (second half). An arena is a page with a 16-byte header
  at its start; \<open>arenas\<close> is the memory of these headers by page address. A free block keeps the list
  links in itself; the free list of a size class is the sequence of block addresses. \<^verbatim>\<open>sys_malloc\<close>
  and \<^verbatim>\<open>sys_free\<close> get the pool that the code selects by \<^verbatim>\<open>cur->pml4\<close> as an argument.
\<close>

record arena =
  cnt :: u64
  desc :: "nat option"

record heap = mem +
  arenas :: "u64 \<Rightarrow> arena"

definition sizeof_arena :: u64 where "sizeof_arena = 16"

definition block2arena :: "u64 \<Rightarrow> u64" where
  "block2arena b = b AND 0xfffffffffffff000"

definition arena2block :: "u64 \<Rightarrow> u64 \<Rightarrow> u64 \<Rightarrow> u64" where
  "arena2block a bsize block_idx = (a + sizeof_arena) + block_idx * bsize"

definition put_arena :: "u64 \<Rightarrow> arena \<Rightarrow> heap \<Rightarrow> heap" where
  "put_arena a x h = h\<lparr>arenas := (arenas h)(a := x)\<rparr>"

definition get_desc :: "virt_pool \<Rightarrow> nat \<Rightarrow> mem_desc res" where
  "get_desc vp i = (if i < length (descs vp) then Inr (descs vp ! i) else Inl (Fault ''descs''))"

definition put_list :: "nat \<Rightarrow> u64 list \<Rightarrow> virt_pool \<Rightarrow> virt_pool" where
  "put_list i bs vp = vp\<lparr>descs := (descs vp)[i := (descs vp ! i)\<lparr>free_list := bs\<rparr>]\<rparr>"

text \<open>The loop that appends the blocks of a new arena.\<close>

fun append_blocks :: "u64 \<Rightarrow> u64 \<Rightarrow> nat list \<Rightarrow> u64 list \<Rightarrow> u64 list res" where
  "append_blocks a bs [] fl = Inr fl"
| "append_blocks a bs (i # is) fl =
     (let b = arena2block a bs (of_nat i) in
      rbind (kassert (b \<notin> set fl) ''!elem_find(&a->desc->free_list, &b->free_elem)'') (\<lambda>_.
      append_blocks a bs is (fl @ [b])))"

definition create_free_blocks :: "nat \<Rightarrow> virt_pool \<Rightarrow> heap \<Rightarrow> (virt_pool \<times> heap) res" where
  "create_free_blocks desc_idx vpool h =
     rbind (alloc_pages vpool 1 h) (\<lambda>(p, vpool, h).
       case p of
         None \<Rightarrow> Inl (Panic ''a != NULL'')
       | Some a \<Rightarrow>
           rbind (get_desc vpool desc_idx) (\<lambda>d.
           let h = put_arena a \<lparr>cnt = blocks_per_arena d, desc = Some desc_idx\<rparr> h in
           rbind (append_blocks a (block_size d) [0..<unat (blocks_per_arena d)] (free_list d)) (\<lambda>fl.
           Inr (put_list desc_idx fl vpool, h))))"

fun find_desc :: "virt_pool \<Rightarrow> u64 \<Rightarrow> nat list \<Rightarrow> nat" where
  "find_desc vp sz [] = DESC_CNT"
| "find_desc vp sz (i # is) = (if sz \<le> block_size (descs vp ! i) then i else find_desc vp sz is)"

definition malloc_pages :: "u64 \<Rightarrow> u64" where
  "malloc_pages sz = (sz + sizeof_arena + PG_SIZE - 1) div PG_SIZE"

definition malloc_large :: "u64 \<Rightarrow> virt_pool \<Rightarrow> heap \<Rightarrow> (u64 option \<times> virt_pool \<times> heap) res" where
  "malloc_large sz vpool h =
     (let pg_cnt = malloc_pages sz in
      rbind (alloc_pages vpool (unat pg_cnt) h) (\<lambda>(p, vpool, h).
        case p of
          None \<Rightarrow> Inr (None, vpool, h)
        | Some a \<Rightarrow> Inr (Some (a + sizeof_arena), vpool, put_arena a \<lparr>cnt = pg_cnt, desc = None\<rparr> h)))"

definition malloc_small :: "u64 \<Rightarrow> virt_pool \<Rightarrow> heap \<Rightarrow> (u64 option \<times> virt_pool \<times> heap) res" where
  "malloc_small sz vpool h =
     (let desc_idx = find_desc vpool sz [0..<DESC_CNT] in
      rbind (get_desc vpool desc_idx) (\<lambda>d.
      rbind (if free_list d = [] then create_free_blocks desc_idx vpool h else Inr (vpool, h)) (\<lambda>(vpool, h).
      rbind (get_desc vpool desc_idx) (\<lambda>d.
        case free_list d of
          [] \<Rightarrow> Inl (Fault ''list_pop'')
        | b # bs \<Rightarrow>
            let a = block2arena b; x = arenas h a in
            Inr (Some b, put_list desc_idx bs vpool, put_arena a (x\<lparr>cnt := cnt x - 1\<rparr>) h)))))"

definition sys_malloc :: "u64 \<Rightarrow> virt_pool \<Rightarrow> heap \<Rightarrow> (u64 option \<times> virt_pool \<times> heap) res" where
  "sys_malloc sz vpool h = (if sz > 1024 then malloc_large sz vpool h else malloc_small sz vpool h)"

text \<open>The loop that takes the blocks of an empty arena off the free list.\<close>

fun remove_blocks :: "u64 \<Rightarrow> u64 \<Rightarrow> nat list \<Rightarrow> u64 list \<Rightarrow> u64 list res" where
  "remove_blocks a bs [] fl = Inr fl"
| "remove_blocks a bs (i # is) fl =
     (let b = arena2block a bs (of_nat i) in
      rbind (kassert (b \<in> set fl) ''elem_find(&a->desc->free_list, &b->free_elem)'') (\<lambda>_.
      remove_blocks a bs is (remove1 b fl)))"

definition sys_free :: "u64 \<Rightarrow> virt_pool \<Rightarrow> heap \<Rightarrow> (virt_pool \<times> heap) res" where
  "sys_free ptr vpool h =
     rbind (kassert (ptr \<noteq> 0) ''ptr != NULL'') (\<lambda>_.
     let a = block2arena ptr; x = arenas h a in
     case desc x of
       None \<Rightarrow> free_pages vpool a (unat (cnt x)) h
     | Some di \<Rightarrow>
         rbind (get_desc vpool di) (\<lambda>d.
         rbind (kassert (ptr \<notin> set (free_list d)) ''!elem_find(&a->desc->free_list, &b->free_elem)'') (\<lambda>_.
         let fl = free_list d @ [ptr]; x = x\<lparr>cnt := cnt x + 1\<rparr>; h = put_arena a x h in
         if cnt x = blocks_per_arena d then
           rbind (remove_blocks a (block_size d) [0..<unat (blocks_per_arena d)] fl) (\<lambda>fl.
           free_pages (put_list di fl vpool) a 1 h)
         else Inr (put_list di fl vpool, h))))"

section \<open>Geometry of an arena\<close>

text \<open>Size class \<open>d\<close> has blocks of \<open>csize d\<close> bytes, \<open>ccount d\<close> of them in a page.\<close>

definition csize :: "nat \<Rightarrow> nat" where "csize d = 16 * 2 ^ d"

definition ccount :: "nat \<Rightarrow> nat" where "ccount d = 4080 div csize d"

definition boff :: "nat \<Rightarrow> nat \<Rightarrow> nat" where "boff d i = 16 + i * csize d"

definition block_at :: "u64 \<Rightarrow> nat \<Rightarrow> nat \<Rightarrow> u64" where
  "block_at a d i = a + of_nat (boff d i)"

definition blocks :: "u64 \<Rightarrow> nat \<Rightarrow> u64 list" where
  "blocks a d = map (block_at a d) [0..<ccount d]"

definition descs_ok :: "virt_pool \<Rightarrow> bool" where
  "descs_ok vp \<longleftrightarrow> length (descs vp) = DESC_CNT \<and> (\<forall>d < DESC_CNT.
     block_size (descs vp ! d) = of_nat (csize d) \<and> blocks_per_arena (descs vp ! d) = of_nat (ccount d))"

abbreviation fl_of :: "virt_pool \<Rightarrow> nat \<Rightarrow> u64 list" where
  "fl_of vp d \<equiv> free_list (descs vp ! d)"

lemma mem_desc_init_ok:
  "length mem_desc_init = DESC_CNT \<and> (\<forall>d < DESC_CNT. block_size (mem_desc_init ! d) = of_nat (csize d) \<and>
     blocks_per_arena (mem_desc_init ! d) = of_nat (ccount d) \<and> free_list (mem_desc_init ! d) = [])"
proof -
  have eq: "mem_desc_init = map (\<lambda>d. \<lparr>block_size = of_nat (csize d), blocks_per_arena = of_nat (ccount d), free_list = []\<rparr>) [0..<DESC_CNT]"
    by (simp add: mem_desc_init_def DESC_CNT_def upt_rec csize_def ccount_def PG_SIZE_def)
  show ?thesis unfolding eq by simp
qed

lemma csize_bounds: "d < DESC_CNT \<Longrightarrow> 16 \<le> csize d \<and> csize d \<le> 1024"
proof -
  assume "d < DESC_CNT"
  then have "d \<in> set [0..<7]" by (simp add: DESC_CNT_def)
  moreover have "\<forall>d \<in> set [0..<7]. 16 \<le> csize d \<and> csize d \<le> 1024" by code_simp
  ultimately show ?thesis by blast
qed

lemma boff_fits: "d < DESC_CNT \<Longrightarrow> i < ccount d \<Longrightarrow> boff d i + csize d \<le> 4096"
proof -
  assume "d < DESC_CNT" "i < ccount d"
  then have "(i + 1) * csize d \<le> 4080 div csize d * csize d" by (intro mult_le_mono1) (simp add: ccount_def)
  also have "\<dots> \<le> 4080" by (rule div_times_less_eq_dividend)
  finally have "(i + 1) * csize d \<le> 4080" .
  then show ?thesis by (simp add: boff_def)
qed

lemma boff_less: "i < j \<Longrightarrow> boff d i + csize d \<le> boff d j"
proof -
  assume "i < j"
  then have "(i + 1) * csize d \<le> j * csize d" by (intro mult_le_mono1) simp
  then show ?thesis by (simp add: boff_def)
qed

lemma ccount_pos: "d < DESC_CNT \<Longrightarrow> 0 < ccount d"
  using csize_bounds [of d] by (simp add: ccount_def div_greater_zero_iff)

lemma page_plus:
  assumes "take_bit 12 a = (0 :: u64)" "n < 4096"
  shows "a + of_nat n = a OR of_nat n" "block2arena (a + of_nat n) = a" "unat (a + of_nat n) = unat a + n"
proof -
  have low: "\<not> bit a i" if "i < 12" for i
    using assms(1) that by (metis bit_0_eq bit_take_bit_iff bot_apply bot_bool_def)
  have small: "\<not> bit (of_nat n :: u64) i" if "\<not> i < 12" for i
  proof
    assume "bit (of_nat n :: u64) i"
    then have "bit n i" by (simp add: bit_simps)
    moreover have "take_bit 12 n = n" using assms(2) by (simp add: take_bit_nat_eq_self)
    ultimately show False using that by (metis bit_take_bit_iff)
  qed
  have disj: "\<not> (bit a i \<and> bit (of_nat n :: u64) i)" for i using low small by blast
  show or: "a + of_nat n = a OR of_nat n"
    by (rule disjunctive_add_eq_or, rule bit_eqI) (use disj in \<open>simp add: bit_and_iff\<close>)
  have "bit (block2arena (a + of_nat n)) i = bit a i" for i
    using low [of i] small [of i] bit_imp_le_length [of a i]
    unfolding block2arena_def or base_masks
    by (cases "i < 12") (auto simp: bit_and_iff bit_or_iff bit_not_iff bit_mask_iff)
  then show "block2arena (a + of_nat n) = a" by (intro bit_eqI)
  have n64: "unat (of_nat n :: u64) = n" using assms(2) by (simp add: unat_of_nat)
  have "take_bit 12 (unat a) = 0" using assms(1) by (metis unsigned_take_bit_eq unsigned_0)
  then have "4096 dvd unat a" by (simp add: take_bit_eq_mod mod_eq_0_iff_dvd)
  moreover have "unat a < 4096 * 2 ^ 52" using unsigned_less [of a] by simp
  ultimately have "unat a + 4096 \<le> 4096 * 2 ^ 52" by (auto elim!: dvdE)
  then have "unat a + n < 2 ^ 64" using assms(2) by simp
  with n64 show "unat (a + of_nat n) = unat a + n" by (simp add: unat_add_lem [THEN iffD1])
qed

lemma block_at_page:
  assumes "take_bit 12 a = 0" "d < DESC_CNT" "i < ccount d"
  shows "block2arena (block_at a d i) = a" "unat (block_at a d i) = unat a + boff d i"
  using page_plus(2,3) [OF assms(1), of "boff d i"] boff_fits [OF assms(2,3)] csize_bounds [OF assms(2)]
  by (simp_all add: block_at_def)

lemma boff_inj: "boff d i = boff d j \<Longrightarrow> i = j"
  by (simp add: boff_def csize_def)

lemma blocks_distinct:
  assumes "take_bit 12 a = 0" "d < DESC_CNT"
  shows "distinct (blocks a d)"
proof -
  have "inj_on (block_at a d) {..<ccount d}"
  proof (rule inj_onI)
    fix i j assume ij: "i \<in> {..<ccount d}" "j \<in> {..<ccount d}" "block_at a d i = block_at a d j"
    then have "boff d i = boff d j"
      using block_at_page(2) [OF assms, of i] block_at_page(2) [OF assms, of j] by simp
    then show "i = j" by (rule boff_inj)
  qed
  then show ?thesis by (simp add: blocks_def distinct_map atLeast0LessThan)
qed

lemma block2arena_blocks:
  "take_bit 12 a = 0 \<Longrightarrow> d < DESC_CNT \<Longrightarrow> b \<in> set (blocks a d) \<Longrightarrow> block2arena b = a"
  by (auto simp: blocks_def block_at_page)

lemma arena2block_at: "arena2block a (of_nat (csize d)) (of_nat i) = block_at a d i"
  by (simp add: arena2block_def block_at_def boff_def sizeof_arena_def)

section \<open>Invariant\<close>

text \<open>
  \<open>A a = Some d\<close>: page \<open>a\<close> is an arena of class \<open>d\<close>; \<open>L\<close>: the small blocks handed out. Every arena
  page belongs to the pool and its header counts its free blocks; the blocks of an arena are the free
  ones and the handed-out ones.
\<close>

definition page_used :: "virt_pool \<Rightarrow> u64 \<Rightarrow> bool" where
  "page_used vp a \<longleftrightarrow> (\<exists>k < 8 * bytes_len (vbitmap vp). a = of_nat k * PG_SIZE + vstart vp \<and> k \<in> used_bits (vbitmap vp))"

definition arena_ok :: "(u64 \<Rightarrow> nat option) \<Rightarrow> u64 set \<Rightarrow> virt_pool \<Rightarrow> heap \<Rightarrow> u64 \<Rightarrow> nat \<Rightarrow> bool" where
  "arena_ok A L vp h a d \<longleftrightarrow> d < DESC_CNT \<and> take_bit 12 a = 0 \<and> page_used vp a \<and>
     desc (arenas h a) = Some d \<and>
     cnt (arenas h a) = of_nat (length (filter (\<lambda>b. block2arena b = a) (fl_of vp d))) \<and>
     set (blocks a d) \<subseteq> set (fl_of vp d) \<union> L"

definition in_arena :: "(u64 \<Rightarrow> nat option) \<Rightarrow> u64 \<Rightarrow> nat \<Rightarrow> bool" where
  "in_arena A b d \<longleftrightarrow> A (block2arena b) = Some d \<and> b \<in> set (blocks (block2arena b) d)"

definition pool_pages_ok :: "virt_pool \<Rightarrow> bool" where
  "pool_pages_ok vp \<longleftrightarrow> bitmap_wf (vbitmap vp) \<and> take_bit 12 (vstart vp) = 0 \<and> vstart vp \<noteq> 0 \<and>
     unat (vstart vp) + 4096 * (8 * bytes_len (vbitmap vp)) < 2 ^ 64"

definition blocks_inv :: "(u64 \<Rightarrow> nat option) \<Rightarrow> u64 set \<Rightarrow> virt_pool \<Rightarrow> heap \<Rightarrow> bool" where
  "blocks_inv A L vp h \<longleftrightarrow> descs_ok vp \<and>
     (\<forall>a d. A a = Some d \<longrightarrow> arena_ok A L vp h a d) \<and>
     (\<forall>d < DESC_CNT. distinct (fl_of vp d) \<and> (\<forall>b \<in> set (fl_of vp d). in_arena A b d \<and> b \<notin> L)) \<and>
     (\<forall>b \<in> L. \<exists>d. in_arena A b d)"

definition heap_inv :: "(u64 \<Rightarrow> nat option) \<Rightarrow> u64 set \<Rightarrow> virt_pool \<Rightarrow> heap \<Rightarrow> bool" where
  "heap_inv A L vp h \<longleftrightarrow> mem_ok h \<and> pool_pages_ok vp \<and> blocks_inv A L vp h"

lemma heap_invD:
  assumes "heap_inv A L vp h"
  shows "mem_ok h" "pool_pages_ok vp" "descs_ok vp" "A a = Some d \<Longrightarrow> arena_ok A L vp h a d"
    "d < DESC_CNT \<Longrightarrow> distinct (fl_of vp d)"
    "d < DESC_CNT \<Longrightarrow> b \<in> set (fl_of vp d) \<Longrightarrow> in_arena A b d \<and> b \<notin> L"
    "b \<in> L \<Longrightarrow> \<exists>d. in_arena A b d"
  using assms by (auto simp: heap_inv_def blocks_inv_def)

lemma get_desc_ok: "descs_ok vp \<Longrightarrow> d < DESC_CNT \<Longrightarrow> get_desc vp d = Inr (descs vp ! d)"
  by (simp add: get_desc_def descs_ok_def)

lemma put_list_simps [simp]:
  "vstart (put_list d bs vp) = vstart vp" "vbitmap (put_list d bs vp) = vbitmap vp"
  "page_used (put_list d bs vp) = page_used vp" "pool_pages_ok (put_list d bs vp) = pool_pages_ok vp"
  by (simp_all add: put_list_def page_used_def pool_pages_ok_def fun_eq_iff)

lemma fl_put_list:
  "descs_ok vp \<Longrightarrow> d < DESC_CNT \<Longrightarrow> fl_of (put_list d bs vp) e = (if e = d then bs else fl_of vp e)"
  by (simp add: put_list_def descs_ok_def nth_list_update)

lemma descs_put_list: "descs_ok vp \<Longrightarrow> d < DESC_CNT \<Longrightarrow> descs_ok (put_list d bs vp)"
  by (auto simp: put_list_def descs_ok_def nth_list_update)

lemma put_arena_simps [simp]:
  "arenas (put_arena a x h) b = (if b = a then x else arenas h b)" "mem_ok (put_arena a x h) = mem_ok h"
  by (simp_all add: put_arena_def mem_ok_def pool_ok_def present_def)

text \<open>Handing out the first free block of a class.\<close>

lemma heap_inv_pop:
  assumes "heap_inv A L vp h" "d < DESC_CNT" "fl_of vp d = b # bs" "a = block2arena b"
  shows "heap_inv A (insert b L) (put_list d bs vp) (put_arena a ((arenas h a)\<lparr>cnt := cnt (arenas h a) - 1\<rparr>) h)"
    (is "heap_inv A ?L ?vp ?h")
proof -
  note inv = heap_invD [OF assms(1)]
  note fl = fl_put_list [OF inv(3) assms(2), of bs]
  have b: "in_arena A b d" "b \<notin> L" "b \<notin> set bs" "distinct bs"
    using inv(5,6) [OF assms(2)] assms(3) by auto
  have other: "b \<notin> set (fl_of vp e)" if "e < DESC_CNT" "e \<noteq> d" for e
    using inv(6) [OF that(1), of b] b(1) that(2) by (auto simp: in_arena_def)
  have "arena_ok A ?L ?vp ?h c e" if "A c = Some e" for c e
  proof -
    have old: "arena_ok A L vp h c e" by (rule inv(4) [OF that])
    have e: "e < DESC_CNT" using old by (simp add: arena_ok_def)
    show ?thesis
    proof (cases "c = a")
      case True
      then have "e = d" using that b(1) assms(4) by (simp add: in_arena_def)
      with old True assms(3,4) show ?thesis by (auto simp: arena_ok_def fl)
    next
      case False
      show ?thesis
      proof (cases "e = d")
        case True
        with old False assms(3,4) show ?thesis by (auto simp: arena_ok_def fl)
      next
        case ne: False
        with old False show ?thesis by (auto simp: arena_ok_def fl)
      qed
    qed
  qed
  moreover have "distinct (fl_of ?vp e) \<and> (\<forall>x \<in> set (fl_of ?vp e). in_arena A x e \<and> x \<notin> ?L)"
    if "e < DESC_CNT" for e
    using inv(5,6) [OF that] b(3,4) other [OF that] assms(3) by (cases "e = d") (auto simp: fl)
  moreover have "\<forall>x \<in> ?L. \<exists>d. in_arena A x d" using b(1) inv(7) by auto
  moreover have "mem_ok ?h" using inv(1) by simp
  ultimately show ?thesis using inv(2) descs_put_list [OF inv(3) assms(2)] unfolding heap_inv_def blocks_inv_def by simp
qed

text \<open>A new arena: its page was in no arena, all its blocks become free.\<close>

lemma take_bit_12: "take_bit 12 (x :: u64) = 0 \<longleftrightarrow> unat x mod 4096 = 0"
  by (simp add: take_bit_eq_mod word_unat_eq_iff unat_mod)

lemma unat_pool_page:
  assumes "pool_pages_ok vp" "k < 8 * bytes_len (vbitmap vp)"
  shows "unat (of_nat k * PG_SIZE + vstart vp) = 4096 * k + unat (vstart vp)"
    "take_bit 12 (of_nat k * PG_SIZE + vstart vp) = 0"
proof -
  have lt: "4096 * k + unat (vstart vp) < 2 ^ 64" using assms by (simp add: pool_pages_ok_def)
  then have k: "unat (of_nat k * PG_SIZE) = 4096 * k" using unat_pages [of k] by (simp add: mult.commute)
  with lt show "unat (of_nat k * PG_SIZE + vstart vp) = 4096 * k + unat (vstart vp)"
    by (simp add: unat_add_lem [THEN iffD1])
  moreover have "unat (vstart vp) mod 4096 = 0" using assms(1) by (simp add: pool_pages_ok_def take_bit_12)
  ultimately show "take_bit 12 (of_nat k * PG_SIZE + vstart vp) = 0" unfolding take_bit_12 by simp
qed

lemma alloc_pages_descs: "alloc_pages vp n m = Inr (v, vp', m') \<Longrightarrow> descs vp' = descs vp"
  by (auto simp: alloc_pages_def vpool_alloc_def res_simps Let_def split: option.splits if_splits)

lemma mem_step_arenas: "mem_step h (h' :: heap) \<Longrightarrow> arenas h' = arenas h"
  by (cases h; cases h') (simp add: mem_step_def)

lemma append_blocks_ok:
  "distinct (map (block_at a d) is) \<Longrightarrow> set (map (block_at a d) is) \<inter> set fl = {} \<Longrightarrow>
    append_blocks a (of_nat (csize d)) is fl = Inr (fl @ map (block_at a d) is)"
  by (induction "is" arbitrary: fl) (auto simp: arena2block_at)

lemma alloc_one_page:
  assumes "mem_ok h" "pool_pages_ok vp" "alloc_pages vp 1 h = Inr (Some a, vp1, h1)"
  shows "mem_step h h1" "descs vp1 = descs vp" "pool_pages_ok vp1" "page_used vp c \<Longrightarrow> page_used vp1 c"
    "page_used vp1 a" "\<not> page_used vp a" "take_bit 12 a = 0"
proof -
  note sp = alloc_pages_spec [OF assms(1,3)]
  then show "mem_step h h1" by blast
  show d: "descs vp1 = descs vp" by (rule alloc_pages_descs [OF assms(3)])
  obtain k where k: "a = of_nat k * PG_SIZE + vstart vp" "k < 8 * bytes_len (vbitmap vp)"
      "run_clear (vbitmap vp) k 1" "used_bits (vbitmap vp1) = used_bits (vbitmap vp) \<union> run_of k 1"
      "same_shape (vbitmap vp) (vbitmap vp1)" "vstart vp1 = vstart vp" using sp by blast
  have k1: "run_of k 1 = {k}" by (auto simp: run_of_def)
  show "pool_pages_ok vp1"
    using assms(2) k(5,6) same_shape_wf [OF k(5)] by (simp add: pool_pages_ok_def same_shape_def)
  show "page_used vp1 c" if "page_used vp c" for c
    using that k(4-6) by (auto simp: page_used_def same_shape_def)
  show "page_used vp1 a" using k k1 by (auto simp: page_used_def same_shape_def)
  show "take_bit 12 a = 0" unfolding k(1) by (rule unat_pool_page(2) [OF assms(2) k(2)])
  show "\<not> page_used vp a"
  proof
    assume "page_used vp a"
    then obtain j where j: "j < 8 * bytes_len (vbitmap vp)" "a = of_nat j * PG_SIZE + vstart vp" "j \<in> used_bits (vbitmap vp)"
      by (auto simp: page_used_def)
    have "4096 * j + unat (vstart vp) = 4096 * k + unat (vstart vp)"
      using unat_pool_page(1) [OF assms(2) j(1)] unat_pool_page(1) [OF assms(2) k(2)] j(2) k(1) by metis
    with j(3) k(3) k1 show False by (simp add: run_clear_def)
  qed
qed

lemma heap_inv_create:
  assumes "heap_inv A L vp h" "d < DESC_CNT" "create_free_blocks d vp h = Inr (vp', h')"
  shows "\<exists>a. A a = None \<and> heap_inv (A(a \<mapsto> d)) L vp' h' \<and> fl_of vp' d = fl_of vp d @ blocks a d"
proof -
  note inv = heap_invD [OF assms(1)]
  obtain p vp1 h1 where p: "alloc_pages vp 1 h = Inr (p, vp1, h1)"
    using assms(3) by (auto simp: create_free_blocks_def res_simps)
  then obtain a where a: "alloc_pages vp 1 h = Inr (Some a, vp1, h1)"
    using assms(3) by (cases p) (auto simp: create_free_blocks_def)
  note al = alloc_one_page [OF inv(1,2) a]
  have new: "A a = None"
  proof (rule ccontr)
    assume "A a \<noteq> None"
    then obtain e where "A a = Some e" by blast
    from inv(4) [OF this] al(6) show False by (simp add: arena_ok_def)
  qed
  have ok1: "descs_ok vp1" using inv(3) al(2) by (simp add: descs_ok_def)
  have notin: "set (blocks a d) \<inter> set (fl_of vp d) = {}"
    using inv(6) [OF assms(2)] new block2arena_blocks [OF al(7) assms(2)] by (fastforce simp: in_arena_def)
  have app: "append_blocks a (of_nat (csize d)) [0..<ccount d] (fl_of vp d) = Inr (fl_of vp d @ blocks a d)"
    using append_blocks_ok [of a d "[0..<ccount d]"] blocks_distinct [OF al(7) assms(2)] notin
    by (simp add: blocks_def)
  have cc: "unat (of_nat (ccount d) :: u64) = ccount d"
  proof -
    have "ccount d \<le> 4080" by (simp add: ccount_def)
    then show ?thesis by (simp add: unat_of_nat)
  qed
  let ?fl = "fl_of vp d @ blocks a d"
  let ?x = "\<lparr>cnt = of_nat (ccount d), desc = Some d\<rparr>"
  have eq: "vp' = put_list d ?fl vp1" "h' = put_arena a ?x h1"
    using assms(3) a get_desc_ok [OF ok1 assms(2)] app al(2) inv(3) assms(2) cc
    by (simp_all add: create_free_blocks_def descs_ok_def Let_def)
  note fl = fl_put_list [OF ok1 assms(2), of ?fl]
  have ar: "arenas h1 = arenas h" by (rule mem_step_arenas [OF al(1)])
  have len: "length (blocks a d) = ccount d" by (simp add: blocks_def)
  have none_old: "filter (\<lambda>b. block2arena b = a) (fl_of vp d) = []"
    using inv(6) [OF assms(2)] new by (fastforce simp: filter_empty_conv in_arena_def)
  have all_new: "filter (\<lambda>b. block2arena b = c) (blocks a d) = (if c = a then blocks a d else [])" for c
    using block2arena_blocks [OF al(7) assms(2)] by (auto simp: filter_id_conv filter_empty_conv)
  let ?A = "A(a \<mapsto> d)"
  have "arena_ok ?A L vp' h' c e" if "?A c = Some e" for c e
  proof (cases "c = a")
    case True
    then have "e = d" using that by simp
    then show ?thesis unfolding True
      using assms(2) al(5,7) none_old all_new len by (auto simp: arena_ok_def eq fl)
  next
    case False
    then have old: "arena_ok A L vp h c e" using inv(4) that by simp
    then show ?thesis
      using False al(2,4) all_new by (auto simp: arena_ok_def eq fl ar)
  qed
  moreover have "distinct (fl_of vp' e) \<and> (\<forall>b \<in> set (fl_of vp' e). in_arena ?A b e \<and> b \<notin> L)" if e: "e < DESC_CNT" for e
  proof -
    have old: "in_arena ?A b e \<and> b \<notin> L" if "b \<in> set (fl_of vp e)" for b
      using inv(6) [OF e that] new by (auto simp: in_arena_def)
    have "in_arena ?A b d \<and> b \<notin> L" if "b \<in> set (blocks a d)" for b
    proof -
      have "block2arena b = a" by (rule block2arena_blocks [OF al(7) assms(2) that])
      moreover have "b \<notin> L" using inv(7) [of b] new calculation by (auto simp: in_arena_def)
      ultimately show ?thesis using that by (simp add: in_arena_def)
    qed
    with old inv(5) [OF e] notin blocks_distinct [OF al(7) assms(2)] al(2) show ?thesis
      by (auto simp: eq fl)
  qed
  moreover have "\<forall>b \<in> L. \<exists>e. in_arena ?A b e" using inv(7) new by (fastforce simp: in_arena_def)
  moreover have "mem_ok h'" "pool_pages_ok vp'" "descs_ok vp'"
    using al(1,3) descs_put_list [OF ok1 assms(2)] by (simp_all add: eq mem_step_def)
  ultimately have "heap_inv ?A L vp' h'" unfolding heap_inv_def blocks_inv_def by blast
  then show ?thesis using new by (intro exI [of _ a]) (simp add: eq fl)
qed

text \<open>The size class \<^verbatim>\<open>sys_malloc\<close> picks is the smallest that is large enough.\<close>

lemma find_desc_find:
  "find_desc vp sz is = (case find (\<lambda>i. sz \<le> block_size (descs vp ! i)) is of None \<Rightarrow> DESC_CNT | Some i \<Rightarrow> i)"
  by (induction "is") auto

lemma unat_csize: "d < DESC_CNT \<Longrightarrow> unat (of_nat (csize d) :: u64) = csize d"
  using csize_bounds [of d] by (simp add: unat_of_nat)

lemma find_desc_ok:
  assumes "descs_ok vp" "unat sz \<le> 1024"
  shows "\<exists>d. find_desc vp sz [0..<DESC_CNT] = d \<and> d < DESC_CNT \<and> unat sz \<le> csize d \<and> (\<forall>e < d. csize e < unat sz)"
proof -
  let ?P = "\<lambda>i. sz \<le> block_size (descs vp ! i)"
  have P: "?P i \<longleftrightarrow> unat sz \<le> csize i" if "i < DESC_CNT" for i
    using assms(1) that by (simp add: descs_ok_def word_le_nat_alt unat_csize)
  have "?P 6" using P [of 6] assms(2) by (simp add: DESC_CNT_def csize_def)
  moreover have "(6 :: nat) \<in> set [0..<DESC_CNT]" by (simp add: DESC_CNT_def)
  ultimately have "find ?P [0..<DESC_CNT] \<noteq> None" unfolding find_None_iff by blast
  then obtain d where d: "find ?P [0..<DESC_CNT] = Some d" by blast
  then have "d < DESC_CNT \<and> ?P d \<and> (\<forall>e < d. \<not> ?P e)"
    by (auto simp: find_Some_iff)
  with P d show ?thesis by (auto simp: find_desc_find)
qed

definition block_range :: "u64 \<Rightarrow> nat \<Rightarrow> nat set" where
  "block_range b d = {unat b..<unat b + csize d}"

lemma pages_apart:
  assumes "(x :: nat) mod 4096 = 0" "y mod 4096 = 0" "x \<noteq> y"
  shows "x + 4096 \<le> y \<or> y + 4096 \<le> x"
proof -
  obtain a b where ab: "x = 4096 * a" "y = 4096 * b" using assms(1,2) by (auto dest!: mod_0_imp_dvd elim!: dvdE)
  with assms(3) have "a < b \<or> b < a" by auto
  with ab show ?thesis by auto
qed

lemma ranges_disjoint:
  "unat b + csize d \<le> unat c \<or> unat c + csize e \<le> unat b \<Longrightarrow> block_range b d \<inter> block_range c e = {}"
  by (auto simp: block_range_def)

lemma in_arena_at:
  assumes "in_arena A b d" "d < DESC_CNT" "take_bit 12 (block2arena b) = 0"
  obtains i where "i < ccount d" "b = block_at (block2arena b) d i" "unat b = unat (block2arena b) + boff d i"
proof -
  obtain i where i: "i < ccount d" "b = block_at (block2arena b) d i"
    using assms(1) by (auto simp: in_arena_def blocks_def)
  have "unat b = unat (block2arena b) + boff d i"
    using block_at_page(2) [OF assms(3,2) i(1)] i(2) by simp
  with i that show thesis by blast
qed

lemma blocks_disjoint:
  assumes "heap_inv A L vp h" "in_arena A b d" "in_arena A c e" "b \<noteq> c"
  shows "block_range b d \<inter> block_range c e = {}"
proof -
  note inv = heap_invD [OF assms(1)]
  let ?a = "block2arena b" and ?a' = "block2arena c"
  have ok: "A ?a = Some d" "A ?a' = Some e" using assms(2,3) by (simp_all add: in_arena_def)
  have d: "d < DESC_CNT" "take_bit 12 ?a = 0" using inv(4) [OF ok(1)] by (simp_all add: arena_ok_def)
  have e: "e < DESC_CNT" "take_bit 12 ?a' = 0" using inv(4) [OF ok(2)] by (simp_all add: arena_ok_def)
  obtain i where i: "i < ccount d" "b = block_at ?a d i" "unat b = unat ?a + boff d i"
    by (rule in_arena_at [OF assms(2) d])
  obtain j where j: "j < ccount e" "c = block_at ?a' e j" "unat c = unat ?a' + boff e j"
    by (rule in_arena_at [OF assms(3) e])
  note fits = boff_fits [OF d(1) i(1)] boff_fits [OF e(1) j(1)]
  show ?thesis
  proof (cases "?a = ?a'")
    case True
    then have "d = e" using ok by simp
    with True i(2) j(2) assms(4) have "i \<noteq> j" by metis
    then have "boff d i + csize d \<le> boff d j \<or> boff d j + csize d \<le> boff d i"
      using boff_less [of i j d] boff_less [of j i d] by (cases "i < j") auto
    with i(3) j(3) True \<open>d = e\<close> have "unat b + csize d \<le> unat c \<or> unat c + csize e \<le> unat b" by simp
    then show ?thesis by (rule ranges_disjoint)
  next
    case False
    have "unat ?a mod 4096 = 0" "unat ?a' mod 4096 = 0" using d(2) e(2) by (simp_all only: take_bit_12)
    moreover have "unat ?a \<noteq> unat ?a'" using False by (metis word_unat_eq_iff)
    ultimately have "unat ?a + 4096 \<le> unat ?a' \<or> unat ?a' + 4096 \<le> unat ?a" by (rule pages_apart)
    with i(3) j(3) fits have "unat b + csize d \<le> unat c \<or> unat c + csize e \<le> unat b" by linarith
    then show ?thesis by (rule ranges_disjoint)
  qed
qed

lemma malloc_small_spec:
  assumes "heap_inv A L vp h" "unat sz \<le> 1024" "sys_malloc sz vp h = Inr (r, vp', h')"
  shows "\<exists>A' b d. r = Some b \<and> heap_inv A' (insert b L) vp' h' \<and> A \<subseteq>\<^sub>m A' \<and> in_arena A' b d \<and> d < DESC_CNT \<and>
    unat sz \<le> csize d \<and> (\<forall>e < d. csize e < unat sz) \<and> b \<notin> L"
proof -
  note inv = heap_invD [OF assms(1)]
  obtain d where d: "find_desc vp sz [0..<DESC_CNT] = d" "d < DESC_CNT" "unat sz \<le> csize d"
      "\<forall>e < d. csize e < unat sz"
    using find_desc_ok [OF inv(3) assms(2)] by blast
  have small: "\<not> sz > 1024" using assms(2) by (simp add: word_less_nat_alt)
  obtain vp1 h1 where m: "(if fl_of vp d = [] then create_free_blocks d vp h else Inr (vp, h)) = Inr (vp1, h1)"
    using assms(3) small d(1) get_desc_ok [OF inv(3) d(2)]
    by (auto simp: sys_malloc_def malloc_small_def res_simps Let_def)
  have "\<exists>A1. heap_inv A1 L vp1 h1 \<and> fl_of vp1 d \<noteq> [] \<and> A \<subseteq>\<^sub>m A1"
  proof (cases "fl_of vp d = []")
    case True
    then obtain a where a: "A a = None" "heap_inv (A(a \<mapsto> d)) L vp1 h1" "fl_of vp1 d = fl_of vp d @ blocks a d"
      using heap_inv_create [OF assms(1) d(2)] m by auto
    have "blocks a d \<noteq> []" using ccount_pos [OF d(2)] by (simp add: blocks_def)
    then show ?thesis using a by (intro exI [of _ "A(a \<mapsto> d)"]) (auto simp: map_le_def)
  next
    case False
    then show ?thesis using m assms(1) by auto
  qed
  then obtain A1 where A1: "heap_inv A1 L vp1 h1" "fl_of vp1 d \<noteq> []" "A \<subseteq>\<^sub>m A1" by blast
  then obtain b bs where b: "fl_of vp1 d = b # bs" by (cases "fl_of vp1 d") auto
  let ?a = "block2arena b"
  have eq: "r = Some b" "vp' = put_list d bs vp1" "h' = put_arena ?a ((arenas h1 ?a)\<lparr>cnt := cnt (arenas h1 ?a) - 1\<rparr>) h1"
    using assms(3) small d(1) get_desc_ok [OF inv(3) d(2)] m b get_desc_ok [OF heap_invD(3) [OF A1(1)] d(2)]
    by (simp_all add: sys_malloc_def malloc_small_def Let_def)
  have "in_arena A1 b d \<and> b \<notin> L" using heap_invD(6) [OF A1(1) d(2), of b] b by simp
  then show ?thesis using heap_inv_pop [OF A1(1) d(2) b refl] eq A1(3) d by blast
qed

text \<open>Giving a block back to an arena that stays.\<close>

lemma blocks_inv_push:
  assumes "heap_inv A L vp h" "b \<in> L" "in_arena A b d" "a = block2arena b"
  defines "vp' \<equiv> put_list d (fl_of vp d @ [b]) vp"
    and "h' \<equiv> put_arena a ((arenas h a)\<lparr>cnt := cnt (arenas h a) + 1\<rparr>) h"
  shows "heap_inv A (L - {b}) vp' h'"
proof -
  note inv = heap_invD [OF assms(1)]
  have Aa: "A a = Some d" using assms(3,4) by (simp add: in_arena_def)
  have d: "d < DESC_CNT" using inv(4) [OF Aa] by (simp add: arena_ok_def)
  note fl = fl_put_list [OF inv(3) d, of "fl_of vp d @ [b]"]
  have notin: "b \<notin> set (fl_of vp e)" if "e < DESC_CNT" for e using inv(6) [OF that, of b] assms(2) by blast
  have "arena_ok A (L - {b}) vp' h' c e" if "A c = Some e" for c e
  proof -
    have old: "arena_ok A L vp h c e" by (rule inv(4) [OF that])
    have e: "e < DESC_CNT" using old by (simp add: arena_ok_def)
    have bl: "b \<in> set (blocks c e) \<Longrightarrow> c = a"
      using old e block2arena_blocks [of c e b] assms(4) by (simp add: arena_ok_def)
    show ?thesis
    proof (cases "c = a")
      case True
      then have "e = d" using that Aa by simp
      with old True assms(4) show ?thesis by (auto simp: arena_ok_def fl vp'_def h'_def)
    next
      case False
      with old bl assms(4) show ?thesis by (auto simp: arena_ok_def fl vp'_def h'_def)
    qed
  qed
  moreover have "distinct (fl_of vp' e) \<and> (\<forall>x \<in> set (fl_of vp' e). in_arena A x e \<and> x \<notin> L - {b})"
    if "e < DESC_CNT" for e
    using inv(5,6) [OF that] notin [OF that] assms(3) by (auto simp: fl vp'_def)
  moreover have "\<forall>x \<in> L - {b}. \<exists>d. in_arena A x d" using inv(7) by blast
  ultimately show ?thesis using inv(1,2) descs_put_list [OF inv(3) d]
    unfolding heap_inv_def blocks_inv_def by (simp add: vp'_def h'_def)
qed

lemma remove_blocks_InrD:
  "remove_blocks a (of_nat (csize d)) is fl = Inr fl' \<Longrightarrow> distinct fl \<Longrightarrow>
    fl' = filter (\<lambda>x. x \<notin> set (map (block_at a d) is)) fl"
proof (induction "is" arbitrary: fl)
  case (Cons i "is")
  have "remove1 (block_at a d i) fl = filter (\<lambda>x. x \<noteq> block_at a d i) fl"
    using Cons.prems(2) by (simp add: distinct_remove1_removeAll removeAll_filter_not_eq) (metis)
  with Cons.IH [of "filter (\<lambda>x. x \<noteq> block_at a d i) fl"] Cons.prems show ?case
    by (simp add: arena2block_at res_simps Let_def)
qed simp

lemma remove_blocks_all:
  "remove_blocks a (of_nat (csize d)) is fl = Inr fl' \<Longrightarrow> set (map (block_at a d) is) \<subseteq> set fl"
proof (induction "is" arbitrary: fl)
  case (Cons i "is")
  then show ?case using set_remove1_subset [of "block_at a d i" fl]
    by (simp add: arena2block_at res_simps Let_def) blast
qed simp

text \<open>Taking an arena with all its blocks free out of the heap.\<close>

lemma free_one_page:
  assumes "pool_pages_ok vp" "page_used vp a" "free_pages vp a 1 h = Inr (vp', h')"
  shows "descs vp' = descs vp" "arenas h' = arenas h" "pool_pages_ok vp'"
    "page_used vp c \<Longrightarrow> c \<noteq> a \<Longrightarrow> page_used vp' c" "\<not> page_used vp' a" "\<not> mapped h' a"
proof -
  obtain k where k: "k < 8 * bytes_len (vbitmap vp)" "a = of_nat k * PG_SIZE + vstart vp" "k \<in> used_bits (vbitmap vp)"
    using assms(2) by (auto simp: page_used_def)
  have lt: "4096 * k < 2 ^ 64" using assms(1) k(1) by (simp add: pool_pages_ok_def)
  have "unat ((a - vstart vp) div PG_SIZE) = unat (PG_SIZE * of_nat k) div 4096"
    unfolding k(2) by (simp add: unat_div mult.commute) (simp add: PG_SIZE_def)
  then have idx: "unat ((a - vstart vp) div PG_SIZE) = k" using unat_pages [OF lt] by simp
  obtain h1 b where b: "unmap_pages a [0] h = Inr h1" "bitmap_free (vbitmap vp) k 1 = Inr b"
      "vp' = vp\<lparr>vbitmap := b\<rparr>" "h' = h1"
    using assms(3) idx by (auto simp: free_pages_def res_simps upt_rec)
  have k1: "run_of k 1 = {k}" by (auto simp: run_of_def)
  have bf: "same_shape (vbitmap vp) b" "used_bits b = used_bits (vbitmap vp) - {k}"
    using bitmap_free_used [of k 1 "vbitmap vp"] b(2) k(3) k1 by auto
  show "descs vp' = descs vp" by (simp add: b(3))
  show "arenas h' = arenas h"
    using b(1,4) by (auto simp: res_simps Let_def mark_frame_def set_entry_def)
  show "pool_pages_ok vp'"
    using assms(1) bf(1) same_shape_wf [OF bf(1)] by (simp add: b(3) pool_pages_ok_def same_shape_def)
  show "page_used vp' c" if "page_used vp c" "c \<noteq> a"
    using that k(2) bf by (auto simp: page_used_def b(3) same_shape_def)
  show "\<not> page_used vp' a"
  proof
    assume "page_used vp' a"
    then obtain j where j: "j < 8 * bytes_len b" "a = of_nat j * PG_SIZE + vstart vp" "j \<in> used_bits b"
      by (auto simp: page_used_def b(3))
    have "4096 * j < 2 ^ 64" using assms(1) j(1) bf(1) by (simp add: pool_pages_ok_def same_shape_def)
    moreover have "PG_SIZE * of_nat j = PG_SIZE * of_nat k" using j(2) k(2) by (simp add: mult.commute)
    ultimately have "j = k" using unat_pages [OF lt] unat_pages [of j] by simp
    then show False using j(3) bf(2) by simp
  qed
  show "\<not> mapped h' a"
  proof -
    have odd: "bit (pt h (pte_ptr a)) 0" and pt: "pt h1 (pte_ptr a) = pt h (pte_ptr a) - 1"
      using b(1) by (auto simp: res_simps Let_def mark_frame_def page_at_def and_1_present present_def)
    have "\<not> bit (pt h (pte_ptr a) - 1) 0" using odd by (simp add: bit_0)
    then have "\<not> present h' (fu 3 a)" by (simp add: present_def b(4) pt)
    then show ?thesis unfolding mapped_def map_stat_4 by (intro notI) (drule spec [of _ 3], simp)
  qed
qed

lemma blocks_inv_drop:
  assumes "heap_inv A L vp h" "A a = Some d" "a = block2arena a"
    and "remove_blocks a (of_nat (csize d)) [0..<ccount d] (fl_of vp d) = Inr fl"
    and "free_pages (put_list d fl vp) a 1 h = Inr (vp', h')"
    and "\<And>b. b \<in> L \<Longrightarrow> block2arena b \<noteq> a"
  shows "pool_pages_ok vp' \<and> blocks_inv (A(a := None)) L vp' h'"
proof -
  note inv = heap_invD [OF assms(1)]
  have ok: "arena_ok A L vp h a d" by (rule inv(4) [OF assms(2)])
  then have d: "d < DESC_CNT" "take_bit 12 a = 0" "page_used vp a" by (simp_all add: arena_ok_def)
  note fl = fl_put_list [OF inv(3) d(1), of fl]
  have f0: "fl = filter (\<lambda>x. x \<notin> set (blocks a d)) (fl_of vp d)"
    using remove_blocks_InrD [OF assms(4) inv(5) [OF d(1)]] by (simp add: blocks_def)
  then have f: "distinct fl" "set fl = set (fl_of vp d) - set (blocks a d)"
    using inv(5) [OF d(1)] by auto
  have none: "block2arena b \<noteq> a" if "b \<in> set (fl_of (put_list d fl vp) e)" "e < DESC_CNT" for b e
  proof
    assume a: "block2arena b = a"
    show False
    proof (cases "e = d")
      case True
      then have "b \<in> set (fl_of vp d)" "b \<notin> set (blocks a d)" using that f(2) by (simp_all add: fl)
      with inv(6) [OF d(1)] a show False by (auto simp: in_arena_def)
    next
      case False
      then have "in_arena A b e" using that inv(6) by (simp add: fl)
      with a assms(2) False show False by (simp add: in_arena_def)
    qed
  qed
  note fr = free_one_page [OF _ _ assms(5)]
  have fr': "descs vp' = descs (put_list d fl vp)" "arenas h' = arenas h" "pool_pages_ok vp'"
      "page_used vp c \<Longrightarrow> c \<noteq> a \<Longrightarrow> page_used vp' c" for c
    using fr inv(2) d(3) by simp_all
  let ?A = "A(a := None)"
  have sub: "set (fl_of vp' e) \<subseteq> set (fl_of vp e)" if "e < DESC_CNT" for e
    using f(2) by (auto simp: fr'(1) fl)
  have "arena_ok ?A L vp' h' c e" if "?A c = Some e" for c e
  proof -
    have c: "c \<noteq> a" "A c = Some e" using that by (auto split: if_splits)
    have old: "arena_ok A L vp h c e" by (rule inv(4) [OF c(2)])
    then have e: "e < DESC_CNT" "take_bit 12 c = 0" by (simp_all add: arena_ok_def)
    have nb: "x \<notin> set (blocks a d)" if "block2arena x = c" for x
      using block2arena_blocks [OF d(2,1), of x] that c(1) by blast
    have "filter (\<lambda>b. block2arena b = c) (fl_of vp' e) = filter (\<lambda>b. block2arena b = c) (fl_of vp e)" if "e = d"
    proof -
      have new: "fl_of vp' d = fl" by (simp add: fr'(1) fl)
      show ?thesis unfolding that new f0 using nb by (simp, intro filter_cong) auto
    qed
    moreover have "set (blocks c e) \<subseteq> set (fl_of vp' e) \<union> L"
      using old nb block2arena_blocks [OF e(2,1)] f(2) by (auto simp: arena_ok_def fr'(1) fl)
    ultimately show ?thesis using old c fr'(2,4)
      by (cases "e = d") (auto simp: arena_ok_def fr'(1) fl)
  qed
  moreover have "distinct (fl_of vp' e) \<and> (\<forall>x \<in> set (fl_of vp' e). in_arena ?A x e \<and> x \<notin> L)"
    if "e < DESC_CNT" for e
    using inv(5,6) [OF that] f(1) none [OF _ that] sub [OF that]
    by (auto simp: fr'(1) fl in_arena_def)
  moreover have "\<forall>x \<in> L. \<exists>d. in_arena ?A x d" using inv(7) assms(6) by (fastforce simp: in_arena_def)
  moreover have "descs_ok vp'" using descs_put_list [OF inv(3) d(1), of fl] fr'(1) by (simp add: descs_ok_def)
  ultimately show ?thesis using fr'(3) unfolding blocks_inv_def by blast
qed

text \<open>Nothing fails on the way, when the page of the arena is mapped to a used frame.\<close>

lemma remove_blocks_ok:
  "distinct (map (block_at a d) is) \<Longrightarrow> set (map (block_at a d) is) \<subseteq> set fl \<Longrightarrow>
   \<exists>fl'. remove_blocks a (of_nat (csize d)) is fl = Inr fl'"
proof (induction "is" arbitrary: fl)
  case (Cons i "is")
  have "block_at a d x \<in> set (remove1 (block_at a d i) fl)" if "x \<in> set is" for x
  proof -
    have "block_at a d x \<noteq> block_at a d i" using Cons.prems(1) imageI [OF that, of "block_at a d"] by auto
    then show ?thesis using Cons.prems(2) that by (auto simp: in_set_remove1)
  qed
  then have "set (map (block_at a d) is) \<subseteq> set (remove1 (block_at a d i) fl)" by auto
  with Cons show ?case by (simp add: arena2block_at Let_def)
qed simp

lemma free_one_page_ok:
  assumes "pool_ok h" "pool_pages_ok vp" "page_used vp a" "backed h a f {..<1}"
  shows "\<exists>vp' h'. free_pages vp a 1 h = Inr (vp', h')"
proof -
  obtain k where k: "k < 8 * bytes_len (vbitmap vp)" "a = of_nat k * PG_SIZE + vstart vp" "k \<in> used_bits (vbitmap vp)"
    using assms(3) by (auto simp: page_used_def)
  have lt: "4096 * k < 2 ^ 64" using assms(2) k(1) by (simp add: pool_pages_ok_def)
  have "unat ((a - vstart vp) div PG_SIZE) = unat (PG_SIZE * of_nat k) div 4096"
    unfolding k(2) by (simp add: unat_div mult.commute) (simp add: PG_SIZE_def)
  then have idx: "unat ((a - vstart vp) div PG_SIZE) = k" using unat_pages [OF lt] by simp
  have "set [0..<1] = {..<1}" by auto
  then obtain h1 where "unmap_pages a [0..<1] h = Inr h1"
    using unmap_pages_spec [OF assms(1) distinct_upt, of a f 0 1] assms(4) by auto
  moreover have "run_of k 1 \<subseteq> used_bits (vbitmap vp)" using k(3) by (auto simp: run_of_def)
  then obtain c where "bitmap_free (vbitmap vp) k 1 = Inr c" using bitmap_free_used by blast
  ultimately show ?thesis using idx by (simp add: free_pages_def)
qed

lemma sys_free_returns:
  assumes "heap_inv A L vp h" "b \<in> L" "backed h (block2arena b) f {..<1}"
  shows "\<exists>vp' h'. sys_free b vp h = Inr (vp', h')"
proof -
  note inv = heap_invD [OF assms(1)]
  let ?a = "block2arena b"
  obtain d where in_b: "in_arena A b d" using inv(7) [OF assms(2)] by blast
  then have Aa: "A ?a = Some d" by (simp add: in_arena_def)
  have ok: "arena_ok A L vp h ?a d" by (rule inv(4) [OF Aa])
  then have d: "d < DESC_CNT" "desc (arenas h ?a) = Some d" "take_bit 12 ?a = 0" "page_used vp ?a" by (simp_all add: arena_ok_def)
  let ?fl = "fl_of vp d @ [b]" and ?x = "(arenas h ?a)\<lparr>cnt := cnt (arenas h ?a) + 1\<rparr>"
  let ?vp = "put_list d ?fl vp" and ?h = "put_arena ?a ?x h"
  have push: "heap_inv A (L - {b}) ?vp ?h" by (rule blocks_inv_push [OF assms(1,2) in_b refl])
  have flv: "fl_of ?vp d = ?fl" using fl_put_list [OF inv(3) d(1), of ?fl d] by simp
  have okp: "arena_ok A (L - {b}) ?vp ?h ?a d" by (rule heap_invD(4) [OF push Aa])
  have bp: "block_size (descs vp ! d) = of_nat (csize d)" "blocks_per_arena (descs vp ! d) = of_nat (ccount d)"
    using inv(3) d(1) by (simp_all add: descs_ok_def)
  have cc: "ccount d \<le> 4080" by (simp add: ccount_def)
  then have ccu: "unat (of_nat (ccount d) :: u64) = ccount d" by (simp add: unat_of_nat)
  have "?a \<noteq> 0"
  proof
    assume z: "?a = 0"
    obtain k where k: "k < 8 * bytes_len (vbitmap vp)" "0 = of_nat k * PG_SIZE + vstart vp" using d(4) z by (auto simp: page_used_def)
    have "unat (of_nat k * PG_SIZE + vstart vp) = 4096 * k + unat (vstart vp)"
      using unat_pages [of k] inv(2) k(1) by (simp add: pool_pages_ok_def unat_word_ariths mult.commute)
    then have "vstart vp = 0" unfolding k(2) [symmetric] by (simp add: unat_eq_0)
    then show False using inv(2) by (simp add: pool_pages_ok_def)
  qed
  then have nz: "b \<noteq> 0" by (auto simp: block2arena_def)
  have nin: "b \<notin> set (fl_of vp d)" using inv(6) [OF d(1)] assms(2) by blast
  show ?thesis
  proof (cases "cnt ?x = blocks_per_arena (descs vp ! d)")
    case False
    then show ?thesis using nz nin d(2) get_desc_ok [OF inv(3) d(1)] by (simp add: sys_free_def Let_def)
  next
    case True
    let ?mine = "filter (\<lambda>x. block2arena x = ?a) (fl_of ?vp d)"
    have sub: "set ?mine \<subseteq> set (blocks ?a d)"
    proof
      fix x assume "x \<in> set ?mine"
      then show "x \<in> set (blocks ?a d)" using heap_invD(6) [OF push d(1), of x] by (simp add: in_arena_def)
    qed
    have dm: "distinct ?mine" using heap_invD(5) [OF push d(1)] by simp
    have len: "length (blocks ?a d) = ccount d" by (simp add: blocks_def)
    have "length ?mine \<le> ccount d"
      using card_mono [OF _ sub] distinct_card [OF dm] distinct_card [OF blocks_distinct [OF d(3,1)]] len by simp
    then have "unat (of_nat (length ?mine) :: u64) = length ?mine" using cc unfolding unsigned_of_nat of_nat_id by (intro take_bit_nat_eq_self) simp
    moreover have "(of_nat (length ?mine) :: u64) = of_nat (ccount d)"
      using okp True bp(2) by (simp add: arena_ok_def put_arena_def)
    ultimately have "length ?mine = ccount d" using ccu by simp
    then have "card (set ?mine) = card (set (blocks ?a d))"
      using distinct_card [OF dm] distinct_card [OF blocks_distinct [OF d(3,1)]] len by simp
    then have "set ?mine = set (blocks ?a d)" using card_subset_eq [OF _ sub] by simp
    then have "set (map (block_at ?a d) [0..<ccount d]) \<subseteq> set ?fl" using flv by (auto simp: blocks_def)
    moreover have "distinct (map (block_at ?a d) [0..<ccount d])" using blocks_distinct [OF d(3,1)] by (simp add: blocks_def)
    ultimately obtain fl where fl: "remove_blocks ?a (of_nat (csize d)) [0..<ccount d] ?fl = Inr fl"
      using remove_blocks_ok by blast
    have "pool_ok ?h" "pool_pages_ok (put_list d fl vp)" "page_used (put_list d fl vp) ?a" "backed ?h ?a f {..<1}"
      using mem_okD(1) [OF inv(1)] inv(2) d(4) assms(3)
      by (simp_all add: pool_ok_def put_arena_def pool_pages_ok_def put_list_def page_used_def backed_def pte_of_def frame_addr_def)
    from free_one_page_ok [OF this] obtain vp' h' where "free_pages (put_list d fl vp) ?a 1 ?h = Inr (vp', h')" by blast
    then show ?thesis using nz nin True d(2) get_desc_ok [OF inv(3) d(1)] fl bp ccu by (simp add: sys_free_def Let_def)
  qed
qed

lemma sys_free_spec:
  assumes "heap_inv A L vp h" "b \<in> L" "sys_free b vp h = Inr (vp', h')" "in_arena A b d"
  shows "pool_pages_ok vp' \<and> (\<forall>c. page_used vp c \<longrightarrow> c \<noteq> block2arena b \<longrightarrow> page_used vp' c) \<and>
    (if \<exists>c \<in> L - {b}. block2arena c = block2arena b
     then blocks_inv A (L - {b}) vp' h' \<and> fl_of vp' d = fl_of vp d @ [b] \<and> vbitmap vp' = vbitmap vp \<and> pt h' = pt h
     else blocks_inv (A(block2arena b := None)) (L - {b}) vp' h' \<and> \<not> page_used vp' (block2arena b) \<and> \<not> mapped h' (block2arena b))"
proof -
  note inv = heap_invD [OF assms(1)]
  note in_b = assms(4)
  let ?a = "block2arena b"
  have Aa: "A ?a = Some d" using in_b by (simp add: in_arena_def)
  have ok: "arena_ok A L vp h ?a d" by (rule inv(4) [OF Aa])
  then have d: "d < DESC_CNT" "desc (arenas h ?a) = Some d" "take_bit 12 ?a = 0" by (simp_all add: arena_ok_def)
  let ?fl = "fl_of vp d @ [b]" and ?x = "(arenas h ?a)\<lparr>cnt := cnt (arenas h ?a) + 1\<rparr>"
  let ?vp = "put_list d ?fl vp" and ?h = "put_arena ?a ?x h"
  have push: "heap_inv A (L - {b}) ?vp ?h" by (rule blocks_inv_push [OF assms(1,2) in_b refl])
  have cc: "unat (of_nat (ccount d) :: u64) = ccount d"
  proof -
    have "ccount d \<le> 4080" by (simp add: ccount_def)
    then show ?thesis by (simp add: unat_of_nat)
  qed
  have bp: "block_size (descs vp ! d) = of_nat (csize d)" "blocks_per_arena (descs vp ! d) = of_nat (ccount d)"
    using inv(3) d(1) by (simp_all add: descs_ok_def)
  have flv: "fl_of ?vp d = ?fl" using fl_put_list [OF inv(3) d(1), of ?fl d] by simp
  have okp: "arena_ok A (L - {b}) ?vp ?h ?a d" by (rule heap_invD(4) [OF push Aa])
  show ?thesis
  proof (cases "cnt ?x = blocks_per_arena (descs vp ! d)")
    case False
    then have eq: "vp' = ?vp" "h' = ?h"
      using assms(3) d(2) get_desc_ok [OF inv(3) d(1)] by (auto simp: sys_free_def Let_def res_simps)
    have some: "\<exists>c \<in> L - {b}. block2arena c = ?a"
    proof (rule ccontr)
      assume none: "\<not> (\<exists>c \<in> L - {b}. block2arena c = ?a)"
      let ?mine = "filter (\<lambda>x. block2arena x = ?a) (fl_of ?vp d)"
      have "set (blocks ?a d) \<subseteq> set ?mine"
        using okp none block2arena_blocks [OF d(3,1)] by (auto simp: arena_ok_def)
      moreover have "set ?mine \<subseteq> set (blocks ?a d)"
      proof
        fix x assume "x \<in> set ?mine"
        then show "x \<in> set (blocks ?a d)" using heap_invD(6) [OF push d(1), of x] by (simp add: in_arena_def)
      qed
      ultimately have "set ?mine = set (blocks ?a d)" by blast
      then have "length ?mine = length (blocks ?a d)"
        using heap_invD(5) [OF push d(1)] blocks_distinct [OF d(3,1)] distinct_card distinct_filter by metis
      then have "cnt ?x = of_nat (ccount d)" using okp by (simp add: arena_ok_def blocks_def)
      then show False using False bp by simp
    qed
    have "fl_of vp' d = fl_of vp d @ [b]" "vbitmap vp' = vbitmap vp" "pt h' = pt h" "page_used vp' = page_used vp"
      using eq flv by (simp_all add: put_arena_def)
    with some push eq show ?thesis by (simp add: heap_inv_def)
  next
    case True
    then obtain fl where fl: "remove_blocks ?a (of_nat (csize d)) [0..<ccount d] ?fl = Inr fl"
        "free_pages (put_list d fl vp) ?a 1 ?h = Inr (vp', h')"
      using assms(3) d(2) get_desc_ok [OF inv(3) d(1)] cc bp by (auto simp: sys_free_def Let_def res_simps)
    have fl2: "put_list d fl vp = put_list d fl ?vp"
      using d(1) inv(3) by (simp add: put_list_def descs_ok_def)
    have rb: "fl = filter (\<lambda>x. x \<notin> set (blocks ?a d)) ?fl"
      using remove_blocks_InrD [OF fl(1)] heap_invD(5) [OF push d(1)] flv by (simp add: blocks_def)
    have all_free: "block2arena c \<noteq> ?a" if c_in: "c \<in> L - {b}" for c
    proof
      assume c: "block2arena c = ?a"
      obtain e where e: "in_arena A c e" using heap_invD(7) [OF push c_in] by blast
      with c Aa have "e = d" "c \<in> set (blocks ?a d)" by (auto simp: in_arena_def)
      moreover have "set (blocks ?a d) \<subseteq> set ?fl"
        using remove_blocks_all [OF fl(1)] by (simp add: blocks_def)
      ultimately have "c \<in> set (fl_of ?vp d)" using flv by auto
      with heap_invD(6) [OF push d(1)] c_in show False by blast
    qed
    have aa: "?a = block2arena ?a" using page_plus(2) [OF d(3), of 0] by simp
    have pu: "page_used (put_list d fl ?vp) ?a" "pool_pages_ok (put_list d fl ?vp)" using okp heap_invD(2) [OF push] by (simp_all add: arena_ok_def)
    note fr = free_one_page [OF pu(2,1) fl(2) [unfolded fl2]]
    have none: "\<not> (\<exists>c \<in> L - {b}. block2arena c = ?a)" using all_free by blast
    have "pool_pages_ok vp' \<and> blocks_inv (A(?a := None)) (L - {b}) vp' h'"
      by (rule blocks_inv_drop [OF push Aa aa, unfolded flv, OF fl(1) fl(2) [unfolded fl2] all_free])
    moreover have "\<forall>c. page_used vp c \<longrightarrow> c \<noteq> ?a \<longrightarrow> page_used vp' c" using fr(4) by simp
    ultimately show ?thesis using fr(5,6) none by simp
  qed
qed

section \<open>Properties\<close>

text \<open>An empty heap for the witnesses, and the heap after one allocation of 100 bytes.\<close>

definition demo_heap :: heap where
  "demo_heap = mem.extend demo_mem (heap.fields (\<lambda>_. \<lparr>cnt = 0, desc = None\<rparr>))"

lemma demo_heap_inv: "heap_inv (\<lambda>_. None) {} demo_vpool demo_heap"
proof -
  have "mem_ok demo_heap"
    using demo_mem_ok by (simp add: demo_heap_def mem.defs heap.defs demo_mem_def mem_ok_def pool_ok_def present_def)
  moreover have "pool_pages_ok demo_vpool"
    by (simp add: pool_pages_ok_def demo_vpool_def K_HEAP_START_def bitmap_wf_def)
  ultimately show ?thesis
    using mem_desc_init_ok by (simp add: heap_inv_def blocks_inv_def descs_ok_def demo_vpool_def)
qed

definition demo_block :: "virt_pool \<times> heap" where
  "demo_block = (case sys_malloc 1000 demo_vpool demo_heap of Inr (_, x) \<Rightarrow> x | Inl _ \<Rightarrow> (demo_vpool, demo_heap))"

lemma demo_block_run:
  "sys_malloc 1000 demo_vpool demo_heap = Inr (Some (K_HEAP_START + 16), fst demo_block, snd demo_block)"
proof -
  have "(case sys_malloc 1000 demo_vpool demo_heap of Inr (p, _) \<Rightarrow> p = Some (K_HEAP_START + 16) | Inl _ \<Rightarrow> False)"
    by code_simp
  then show ?thesis by (auto simp: demo_block_def split: sum.splits)
qed

text \<open>
  C13. A small allocation is correct: \<^verbatim>\<open>sys_malloc\<close> of up to 1024 bytes hands out a block of the
  smallest class that is large enough; the block lies inside one arena page behind the header, was
  not handed out before, overlaps no block that is, and the heap invariant holds again.
\<close>
theorem sys_malloc_small_correct:
  assumes "heap_inv A L vp h" "unat sz \<le> 1024" "sys_malloc sz vp h = Inr (r, vp', h')"
  shows "\<exists>A' b d. r = Some b \<and> heap_inv A' (insert b L) vp' h' \<and> b \<notin> L \<and> d < DESC_CNT \<and>
    unat sz \<le> csize d \<and> (\<forall>e < d. csize e < unat sz) \<and>
    block_range b d \<subseteq> {unat (block2arena b) + 16..<unat (block2arena b) + 4096} \<and>
    (\<forall>c e. c \<in> L \<and> in_arena A' c e \<longrightarrow> block_range b d \<inter> block_range c e = {})"
proof -
  obtain A' b d where b: "r = Some b" "heap_inv A' (insert b L) vp' h'" "in_arena A' b d" "d < DESC_CNT"
      "unat sz \<le> csize d" "\<forall>e < d. csize e < unat sz" "b \<notin> L"
    using malloc_small_spec [OF assms] by blast
  have "A' (block2arena b) = Some d" using b(3) by (simp add: in_arena_def)
  then have al: "take_bit 12 (block2arena b) = 0" using heap_invD(4) [OF b(2)] by (simp add: arena_ok_def)
  obtain i where i: "i < ccount d" "unat b = unat (block2arena b) + boff d i"
    by (rule in_arena_at [OF b(3,4) al])
  have "block_range b d \<subseteq> {unat (block2arena b) + 16..<unat (block2arena b) + 4096}"
    using i(2) boff_fits [OF b(4) i(1)] by (auto simp: block_range_def) (simp_all add: boff_def)
  moreover have "\<forall>c e. c \<in> L \<and> in_arena A' c e \<longrightarrow> block_range b d \<inter> block_range c e = {}"
    using blocks_disjoint [OF b(2,3)] b(7) by blast
  ultimately show ?thesis using b by blast
qed

theorem sys_malloc_small_correct_witness:
  "\<exists>A' b d. Some (K_HEAP_START + 16) = Some b \<and> heap_inv A' (insert b {}) (fst demo_block) (snd demo_block) \<and>
    b \<notin> {} \<and> d < DESC_CNT \<and> unat (1000 :: u64) \<le> csize d \<and> (\<forall>e < d. csize e < unat (1000 :: u64)) \<and>
    block_range b d \<subseteq> {unat (block2arena b) + 16..<unat (block2arena b) + 4096} \<and>
    (\<forall>c e. c \<in> {} \<and> in_arena A' c e \<longrightarrow> block_range b d \<inter> block_range c e = {})"
  by (rule sys_malloc_small_correct [OF demo_heap_inv _ demo_block_run]) simp


lemma demo_block_backed: "backed (snd demo_block) K_HEAP_START (\<lambda>_. 0) {..<1}"
proof -
  have "pte_of (snd demo_block) (page_at K_HEAP_START 0) = frame_addr (snd demo_block) 0 + 7"
    "0 < frames (snd demo_block)" by code_simp+
  moreover have "0 div 8 < length (bits (phy_bitmap (snd demo_block)))"
    "bit (bits (phy_bitmap (snd demo_block)) ! (0 div 8)) (0 mod 8)" by code_simp+
  moreover have "inj_on (\<lambda>_. 0 :: nat) {..<Suc 0}" by (rule inj_onI) simp
  ultimately show ?thesis by (auto simp: backed_def used_bits_def)
qed


text \<open>
  A size close to \<open>2 ^ 64\<close> wraps in the page count of \<^verbatim>\<open>sys_malloc\<close>: the request is served with
  one page, far less than was asked for.
\<close>
theorem sys_malloc_wraps:
  assumes "unat sz + 16 + 4095 \<ge> 2 ^ 64"
  shows "sz > 1024 \<and> unat (malloc_pages sz) \<le> 1"
proof -
  have "unat sz < 2 ^ 64" using unsigned_less [of sz] by simp
  then have un: "unat (sz + 4111) = unat sz + 4111 - 2 ^ 64"
    using assms by (simp add: unat_word_ariths le_mod_geq)
  have "malloc_pages sz = (sz + 4111) div 4096"
    by (simp add: malloc_pages_def sizeof_arena_def PG_SIZE_def add.commute)
  then have "unat (malloc_pages sz) = (unat sz + 4111 - 2 ^ 64) div 4096" by (simp add: unat_div un)
  moreover have "unat sz > 1024" using assms by simp
  ultimately show ?thesis
    using \<open>unat sz < 2 ^ 64\<close> by (simp add: word_less_nat_alt)
qed

theorem sys_malloc_wraps_witness: "(0xfffffffffffffff0 :: u64) > 1024 \<and> unat (malloc_pages 0xfffffffffffffff0) \<le> 1"
  by (rule sys_malloc_wraps) simp

end
