(* ===== verification/Disk.thy ===== *)
theory Disk
  imports Sync
begin

unbundle bit_operations_syntax

text \<open>
  The IDE driver (\<^verbatim>\<open>device/ide.c\<close>). The controller is hardware, so \<^verbatim>\<open>ide_read\<close> and \<^verbatim>\<open>ide_write\<close>
  are modelled by the port operations they perform, in order; what the status register answers is
  an argument. \<open>ata_cmds\<close> is the reading of such a sequence by an ATA controller in LBA28 mode:
  every write of the command register issues a command with the device, address and count that the
  registers hold at that moment. The disk interrupt works on the scheduler state.
\<close>

section \<open>Registers and port operations\<close>

record ide_channel =
  port_base :: u16
  irq_no :: byte
  expecting_intr :: bool

record disk =
  my_channel :: ide_channel
  dev_no :: byte

text \<open>\<open>Insw p off n\<close>: \<open>n\<close> words from port \<open>p\<close> to the buffer at byte \<open>off\<close>; \<open>Outsw\<close> the other way.\<close>

datatype port_op = Outb u16 byte | Inb u16 | Insw u16 u64 u32 | Outsw u16 u64 u32

definition BIT_STAT_BSY :: byte where "BIT_STAT_BSY = 0x80"
definition BIT_STAT_DRQ :: byte where "BIT_STAT_DRQ = 0x8"
definition BIT_DEV_MBS :: byte where "BIT_DEV_MBS = 0xa0"
definition BIT_DEV_LBA :: byte where "BIT_DEV_LBA = 0x40"
definition BIT_DEV_DEV :: byte where "BIT_DEV_DEV = 0x10"
definition CMD_READ_SECTOR :: byte where "CMD_READ_SECTOR = 0x20"
definition CMD_WRITE_SECTOR :: byte where "CMD_WRITE_SECTOR = 0x30"

definition select_disk :: "disk \<Rightarrow> port_op list" where
  "select_disk d =
     [Outb (port_base (my_channel d) + 6)
       (if dev_no d = 1 then BIT_DEV_MBS OR BIT_DEV_LBA OR BIT_DEV_DEV else BIT_DEV_MBS OR BIT_DEV_LBA)]"

definition select_sector :: "disk \<Rightarrow> u32 \<Rightarrow> byte \<Rightarrow> port_op list" where
  "select_sector d lba sec_cnt =
     (let base = port_base (my_channel d) in
      [Outb (base + 2) sec_cnt, Outb (base + 3) (ucast lba), Outb (base + 4) (ucast (drop_bit 8 lba)),
       Outb (base + 5) (ucast (drop_bit 16 lba)),
       Outb (base + 6) (BIT_DEV_MBS OR BIT_DEV_LBA OR (if dev_no d = 1 then BIT_DEV_DEV else 0) OR
         ucast (drop_bit 24 lba))])"

text \<open>
  \<open>st i\<close> is what the \<open>i\<close>-th read of the status register yields. The loop condition of the code,
  \<^verbatim>\<open>time_limit -= 10 > 0\<close>, subtracts the value of \<^verbatim>\<open>10 > 0\<close>, which is 1. The result carries the
  number of sleeps of 10 ms.
\<close>

lemma word_dec: "(x :: u16) \<noteq> 0 \<Longrightarrow> unat x = Suc (unat (x - 1))"
  by (simp add: unat_minus_one unat_gt_0)

lemma word_dec_less: "(x :: u16) \<noteq> 0 \<Longrightarrow> unat (x - 1) < unat x"
  using word_dec [of x] by linarith

function busy_poll :: "(nat \<Rightarrow> byte) \<Rightarrow> nat \<Rightarrow> u16 \<Rightarrow> nat \<Rightarrow> bool \<times> nat" where
  "busy_poll st i time_limit sleeps =
     (let time_limit' = time_limit - 1 in
      if time_limit' \<noteq> 0 then
        if st i AND BIT_STAT_BSY = 0 then (st (i + 1) AND BIT_STAT_DRQ \<noteq> 0, sleeps)
        else busy_poll st (i + 1) time_limit' (sleeps + 1)
      else (False, sleeps))"
  by auto
termination
proof (relation "measure (\<lambda>(st, i, t, n). unat (t - 1))")
  fix st :: "nat \<Rightarrow> byte" and i n :: nat and t x :: u16
  assume "x = t - 1" "x \<noteq> 0"
  then show "((st, i + 1, x, n + 1), (st, i, t, n)) \<in> measure (\<lambda>(st, i, t, n). unat (t - 1))"
    using word_dec_less [of x] by simp
qed simp

declare busy_poll.simps [simp del]

definition busy_wait :: "(nat \<Rightarrow> byte) \<Rightarrow> bool \<times> nat" where
  "busy_wait st = busy_poll st 0 30000 0"

definition cmd_out :: "disk \<Rightarrow> byte \<Rightarrow> port_op list" where
  "cmd_out d cmd = [Outb (port_base (my_channel d) + 7) cmd]"

definition sector_bytes :: "byte \<Rightarrow> u32" where
  "sector_bytes sec_cnt = (if sec_cnt = 0 then 256 * 512 else ucast sec_cnt * 512)"

definition read_from_sector :: "disk \<Rightarrow> u64 \<Rightarrow> byte \<Rightarrow> port_op list" where
  "read_from_sector d buf sec_cnt = [Insw (port_base (my_channel d)) buf (sector_bytes sec_cnt div 2)]"

definition write2sector :: "disk \<Rightarrow> u64 \<Rightarrow> byte \<Rightarrow> port_op list" where
  "write2sector d buf sec_cnt = [Outsw (port_base (my_channel d)) buf (sector_bytes sec_cnt div 2)]"

text \<open>
  The loops over chunks of at most 256 sectors. \<open>st k\<close> is the status stream of the poll for the
  chunk that starts at sector \<open>k\<close>. A loop whose counter wraps would not end: the value is then
  \<open>None\<close>. The acquisition of the channel's lock and the \<^verbatim>\<open>sema_down\<close> on \<^verbatim>\<open>disk_done\<close> are those of
  theory \<open>Sync\<close> and of \<open>intr_hd_hdl\<close> below.
\<close>

definition chunk :: "u32 \<Rightarrow> u32 \<Rightarrow> u32" where
  "chunk sec_cnt secs_done = (if secs_done + 256 \<le> sec_cnt then 256 else sec_cnt - secs_done)"

partial_function (option) ide_read_loop ::
  "disk \<Rightarrow> u32 \<Rightarrow> u64 \<Rightarrow> u32 \<Rightarrow> (u32 \<Rightarrow> nat \<Rightarrow> byte) \<Rightarrow> u32 \<Rightarrow> port_op list \<Rightarrow> port_op list res option" where
  "ide_read_loop d lba buf sec_cnt st secs_done ops =
     (if secs_done < sec_cnt then
        let secs_op = chunk sec_cnt secs_done;
            ops = ops @ select_sector d (lba + secs_done) (ucast secs_op) @ cmd_out d CMD_READ_SECTOR in
        if fst (busy_wait (st secs_done)) then
          ide_read_loop d lba buf sec_cnt st (secs_done + secs_op)
            (ops @ read_from_sector d (buf + ucast (secs_done * 512)) (ucast secs_op))
        else Some (Inl (Panic ''read sector failed''))
      else Some (Inr ops))"

definition ide_read :: "disk \<Rightarrow> u32 \<Rightarrow> u64 \<Rightarrow> u32 \<Rightarrow> (u32 \<Rightarrow> nat \<Rightarrow> byte) \<Rightarrow> port_op list res option" where
  "ide_read d lba buf sec_cnt st =
     (if sec_cnt > 0 then ide_read_loop d lba buf sec_cnt st 0 (select_disk d)
      else Some (Inl (Panic ''sec_cnt > 0'')))"

partial_function (option) ide_write_loop ::
  "disk \<Rightarrow> u32 \<Rightarrow> u64 \<Rightarrow> u32 \<Rightarrow> (u32 \<Rightarrow> nat \<Rightarrow> byte) \<Rightarrow> u32 \<Rightarrow> port_op list \<Rightarrow> port_op list res option" where
  "ide_write_loop d lba buf sec_cnt st secs_done ops =
     (if secs_done < sec_cnt then
        let secs_op = chunk sec_cnt secs_done;
            ops = ops @ select_sector d (lba + secs_done) (ucast secs_op) @ cmd_out d CMD_WRITE_SECTOR in
        if fst (busy_wait (st secs_done)) then
          ide_write_loop d lba buf sec_cnt st (secs_done + secs_op)
            (ops @ write2sector d (buf + ucast (secs_done * 512)) (ucast secs_op))
        else Some (Inl (Panic ''write sector failed''))
      else Some (Inr ops))"

definition ide_write :: "disk \<Rightarrow> u32 \<Rightarrow> u64 \<Rightarrow> u32 \<Rightarrow> (u32 \<Rightarrow> nat \<Rightarrow> byte) \<Rightarrow> port_op list res option" where
  "ide_write d lba buf sec_cnt st =
     (if sec_cnt > 0 then ide_write_loop d lba buf sec_cnt st 0 (select_disk d)
      else Some (Inl (Panic ''sec_cnt > 0'')))"

section \<open>Identification and partition table\<close>

text \<open>\<^verbatim>\<open>swap_pairs_bytes\<close> with its 8-bit index: the bytes written to \<open>buf\<close>; \<open>None\<close> if it never ends.\<close>

partial_function (option) swap_loop :: "byte list \<Rightarrow> byte list \<Rightarrow> u64 \<Rightarrow> byte \<Rightarrow> nat \<Rightarrow> byte list res option" where
  "swap_loop dst buf len idx p =
     (if ucast idx < len then
        if p + 1 < length dst \<and> unat idx + 1 < length buf then
          swap_loop dst (buf[unat (idx + 1) := dst ! p, unat idx := dst ! (p + 1)]) len (idx + 2) (p + 2)
        else Some (Inl (Fault ''swap_pairs_bytes''))
      else if unat idx < length buf then Some (Inr (buf[unat idx := 0]))
      else Some (Inl (Fault ''swap_pairs_bytes'')))"

definition swap_pairs_bytes :: "byte list \<Rightarrow> byte list \<Rightarrow> u64 \<Rightarrow> byte list res option" where
  "swap_pairs_bytes dst buf len = swap_loop dst buf len 0 0"

record partition =
  part_name :: string
  start_lba :: u32
  sec_cnt :: u32

definition le32 :: "byte list \<Rightarrow> nat \<Rightarrow> u32" where
  "le32 bs i = ucast (bs ! i) OR push_bit 8 (ucast (bs ! (i + 1))) OR
     push_bit 16 (ucast (bs ! (i + 2))) OR push_bit 24 (ucast (bs ! (i + 3)))"

text \<open>
  \<^verbatim>\<open>partition_scan\<close> on the boot sector it has read: the partitions appended to the partition list.
  The table starts at byte 446; \<^verbatim>\<open>fs_type\<close> is byte 4 of an entry, \<^verbatim>\<open>start_lba\<close> byte 8, \<^verbatim>\<open>sec_cnt\<close> byte 12.
\<close>

fun scan_entries :: "string \<Rightarrow> byte list \<Rightarrow> nat list \<Rightarrow> partition list" where
  "scan_entries dname bs [] = []"
| "scan_entries dname bs (i # is) =
     (let e = 446 + 16 * i in
      if bs ! (e + 4) \<noteq> 0 then
        \<lparr>part_name = dname @ [char_of (49 + i)],
         start_lba = le32 bs (e + 8), sec_cnt = le32 bs (e + 12)\<rparr> # scan_entries dname bs is
      else scan_entries dname bs is)"

definition partition_scan :: "string \<Rightarrow> byte list \<Rightarrow> partition list" where
  "partition_scan dname bs = scan_entries dname bs [0..<4]"

section \<open>The disk interrupt\<close>

record disk_sys = sched +
  channels :: "ide_channel list"

definition intr_hd_hdl :: "byte \<Rightarrow> disk_sys \<Rightarrow> disk_sys res" where
  "intr_hd_hdl irq s =
     rbind (kassert (irq = 0x2e \<or> irq = 0x2f) ''irq_no == 0x2e || irq_no == 0x2f'') (\<lambda>_.
     let ch_no = unat (irq - 0x2e) in
     if ch_no < length (channels s) then
       let channel = channels s ! ch_no in
       rbind (kassert (irq_no channel = irq) ''channel->irq_no == irq_no'') (\<lambda>_.
       if expecting_intr channel then
         sema_up (DiskDone ch_no)
           (s\<lparr>channels := (channels s)[ch_no := channel\<lparr>expecting_intr := False\<rparr>]\<rparr>)
       else Inr s)
     else Inl (Fault ''channels''))"

section \<open>Polling\<close>

lemma busy_wait_ready: "st 0 AND BIT_STAT_BSY = 0 \<Longrightarrow> busy_wait st = (st 1 AND BIT_STAT_DRQ \<noteq> 0, 0)"
  by (simp add: busy_wait_def busy_poll.simps)

lemma busy_poll_stuck:
  assumes "\<And>j. st j AND BIT_STAT_BSY \<noteq> 0"
  shows "busy_poll st i t n = (False, n + unat (t - 1))"
  using assms
proof (induction st i t n rule: busy_poll.induct)
  case (1 st i t n)
  show ?case
  proof (cases "t - 1 = 0")
    case True
    then show ?thesis by (simp add: busy_poll.simps)
  next
    case False
    have "busy_poll st i t n = busy_poll st (i + 1) (t - 1) (n + 1)"
      using False by (subst busy_poll.simps) (simp only: Let_def 1(2) if_False if_True not_False_eq_True)
    also have "\<dots> = (False, n + 1 + unat (t - 1 - 1))" by (rule 1(1) [OF refl False 1(2) 1(2)])
    finally show ?thesis using word_dec [OF False] by simp
  qed
qed

section \<open>What the controller is told\<close>

definition lba28 :: "(nat \<Rightarrow> byte) \<Rightarrow> nat" where
  "lba28 r = unat (ucast (r 3) OR push_bit 8 (ucast (r 4)) OR push_bit 16 (ucast (r 5)) OR
     push_bit 24 (ucast (r 6 AND 0xf)) :: u32)"

definition ata_count :: "(nat \<Rightarrow> byte) \<Rightarrow> nat" where
  "ata_count r = (if r 2 = 0 then 256 else unat (r 2))"

text \<open>Commands as (command byte, second device?, first sector, number of sectors).\<close>

fun ata_run :: "u16 \<Rightarrow> (nat \<Rightarrow> byte) \<Rightarrow> port_op list \<Rightarrow> (byte \<times> bool \<times> nat \<times> nat) list" where
  "ata_run base r [] = []"
| "ata_run base r (Outb p v # ops) =
     (if p = base + 7 then (v, bit (r 6) 4, lba28 r, ata_count r) # ata_run base r ops
      else ata_run base (r(unat (p - base) := v)) ops)"
| "ata_run base r (_ # ops) = ata_run base r ops"

definition ata_cmds :: "disk \<Rightarrow> port_op list \<Rightarrow> (byte \<times> bool \<times> nat \<times> nat) list" where
  "ata_cmds d ops = ata_run (port_base (my_channel d)) (\<lambda>_. 0) ops"

fun transfers :: "port_op list \<Rightarrow> (u64 \<times> nat) list" where
  "transfers [] = []"
| "transfers (Insw p off n # ops) = (off, 2 * unat n) # transfers ops"
| "transfers (Outsw p off n # ops) = (off, 2 * unat n) # transfers ops"
| "transfers (_ # ops) = transfers ops"

text \<open>The reference: sectors \<open>l\<close>, \<open>l + 1\<close>, ... in pieces of at most 256.\<close>

function chunks :: "nat \<Rightarrow> nat \<Rightarrow> (nat \<times> nat) list" where
  "chunks l c = (if c = 0 then [] else (l, min 256 c) # chunks (l + min 256 c) (c - min 256 c))"
  by auto
termination by (relation "measure snd") auto

declare chunks.simps [simp del]

lemma chunks_0 [simp]: "chunks l 0 = []"
  by (simp add: chunks.simps)

lemma chunks_cover: "concat (map (\<lambda>(l, n). [l..<l + n]) (chunks l c)) = [l..<l + c]"
proof (induction l c rule: chunks.induct)
  case (1 l c)
  show ?case
  proof (cases "c = 0")
    case False
    then have "[l..<l + c] = [l..<l + min 256 c] @ [l + min 256 c..<l + c]"
      using upt_add_eq_append [of l "l + min 256 c" "c - min 256 c"] by simp
    with 1 False show ?thesis by (subst chunks.simps) simp
  qed simp
qed

lemma chunks_bounds: "(k, n) \<in> set (chunks l c) \<Longrightarrow> l \<le> k \<and> k + n \<le> l + c \<and> 0 < n \<and> n \<le> 256"
proof (induction l c rule: chunks.induct)
  case (1 l c)
  show ?case
  proof (cases "c = 0")
    case False
    from 1(2) have "(k, n) = (l, min 256 c) \<or> (k, n) \<in> set (chunks (l + min 256 c) (c - min 256 c))"
      by (subst (asm) chunks.simps) (auto simp: False)
    with 1(1) [OF False] False show ?thesis by auto
  qed (use 1 in simp)
qed

definition chunk_ops :: "disk \<Rightarrow> byte \<Rightarrow> (u64 \<Rightarrow> byte \<Rightarrow> port_op list) \<Rightarrow> u32 \<Rightarrow> u64 \<Rightarrow> nat \<times> nat \<Rightarrow> port_op list" where
  "chunk_ops d cmd xfer lba buf = (\<lambda>(k, n). select_sector d (lba + of_nat k) (of_nat n) @ cmd_out d cmd @
     xfer (buf + of_nat (k * 512)) (of_nat n))"

lemma chunk_eq:
  assumes "unat c \<le> 2 ^ 23" "k < unat c"
  shows "chunk c (of_nat k) = of_nat (min 256 (unat c - k))"
    "(of_nat k :: u32) + of_nat (min 256 (unat c - k)) = of_nat (k + min 256 (unat c - k))"
    "(of_nat k :: u32) < c"
proof -
  have k: "unat (of_nat k :: u32) = k" using assms by (simp add: unat_of_nat)
  then have k256: "unat (of_nat k + 256 :: u32) = k + 256"
    using assms by (simp add: unat_add_lem [THEN iffD1])
  have "c - of_nat k = of_nat (unat c - k)" using assms(2) by (simp add: of_nat_diff)
  then show "chunk c (of_nat k) = of_nat (min 256 (unat c - k))"
    using k256 assms(2) by (auto simp: chunk_def word_le_nat_alt min_def)
  show "(of_nat k :: u32) < c" using k assms(2) by (simp add: word_less_nat_alt)
qed simp

lemma ucast_of_nat_small: "n < 2 ^ 32 \<Longrightarrow> (ucast (of_nat n :: u32) :: u64) = of_nat n"
  by (simp add: unsigned_of_nat take_bit_nat_eq_self)

lemma ucast_min_256: "n \<le> 256 \<Longrightarrow> (ucast (of_nat n :: u32) :: byte) = of_nat n"
  by (simp add: unsigned_of_nat take_bit_nat_eq_self)

lemma ide_read_loop_spec:
  assumes "unat c \<le> 2 ^ 23" "\<And>w. fst (busy_wait (st w))" "k \<le> unat c"
  shows "ide_read_loop d lba buf c st (of_nat k) ops =
    Some (Inr (ops @ concat (map (chunk_ops d CMD_READ_SECTOR (read_from_sector d) lba buf) (chunks k (unat c - k)))))"
  using assms(3)
proof (induction "unat c - k" arbitrary: k ops rule: less_induct)
  case less
  show ?case
  proof (cases "k = unat c")
    case True
    then show ?thesis by (subst ide_read_loop.simps) simp
  next
    case False
    then have k: "k < unat c" using less.prems by simp
    let ?n = "min 256 (unat c - k)"
    note ch = chunk_eq [OF assms(1) k]
    have n: "0 < ?n" "k + ?n \<le> unat c" using k by auto
    have off: "(ucast (of_nat k * 512 :: u32) :: u64) = of_nat (k * 512)"
    proof -
      have lt: "k * 512 < 2 ^ 32" using k assms(1) by simp
      have "(of_nat k * 512 :: u32) = of_nat (k * 512)" by simp
      then show ?thesis using lt by (simp only: ucast_of_nat_small)
    qed
    have ch': "chunks k (unat c - k) = (k, ?n) # chunks (k + ?n) (unat c - (k + ?n))"
      using k by (subst chunks.simps) (simp add: diff_diff_left)
    have "ide_read_loop d lba buf c st (of_nat k) ops = ide_read_loop d lba buf c st (of_nat (k + ?n))
        (ops @ chunk_ops d CMD_READ_SECTOR (read_from_sector d) lba buf (k, ?n))"
      using ch assms(2)
      by (subst ide_read_loop.simps) (simp only: Let_def ch if_True chunk_ops_def off ucast_min_256 append_assoc prod.case)
    also have "\<dots> = Some (Inr ((ops @ chunk_ops d CMD_READ_SECTOR (read_from_sector d) lba buf (k, ?n)) @
        concat (map (chunk_ops d CMD_READ_SECTOR (read_from_sector d) lba buf) (chunks (k + ?n) (unat c - (k + ?n))))))"
      by (rule less.hyps) (use n k in auto)
    finally show ?thesis unfolding ch' by simp
  qed
qed

lemma ide_write_loop_spec:
  assumes "unat c \<le> 2 ^ 23" "\<And>w. fst (busy_wait (st w))" "k \<le> unat c"
  shows "ide_write_loop d lba buf c st (of_nat k) ops =
    Some (Inr (ops @ concat (map (chunk_ops d CMD_WRITE_SECTOR (write2sector d) lba buf) (chunks k (unat c - k)))))"
  using assms(3)
proof (induction "unat c - k" arbitrary: k ops rule: less_induct)
  case less
  show ?case
  proof (cases "k = unat c")
    case True
    then show ?thesis by (subst ide_write_loop.simps) simp
  next
    case False
    then have k: "k < unat c" using less.prems by simp
    let ?n = "min 256 (unat c - k)"
    note ch = chunk_eq [OF assms(1) k]
    have n: "0 < ?n" "k + ?n \<le> unat c" using k by auto
    have off: "(ucast (of_nat k * 512 :: u32) :: u64) = of_nat (k * 512)"
    proof -
      have lt: "k * 512 < 2 ^ 32" using k assms(1) by simp
      have "(of_nat k * 512 :: u32) = of_nat (k * 512)" by simp
      then show ?thesis using lt by (simp only: ucast_of_nat_small)
    qed
    have ch': "chunks k (unat c - k) = (k, ?n) # chunks (k + ?n) (unat c - (k + ?n))"
      using k by (subst chunks.simps) (simp add: diff_diff_left)
    have "ide_write_loop d lba buf c st (of_nat k) ops = ide_write_loop d lba buf c st (of_nat (k + ?n))
        (ops @ chunk_ops d CMD_WRITE_SECTOR (write2sector d) lba buf (k, ?n))"
      using ch assms(2)
      by (subst ide_write_loop.simps) (simp only: Let_def ch if_True chunk_ops_def off ucast_min_256 append_assoc prod.case)
    also have "\<dots> = Some (Inr ((ops @ chunk_ops d CMD_WRITE_SECTOR (write2sector d) lba buf (k, ?n)) @
        concat (map (chunk_ops d CMD_WRITE_SECTOR (write2sector d) lba buf) (chunks (k + ?n) (unat c - (k + ?n))))))"
      by (rule less.hyps) (use n k in auto)
    finally show ?thesis unfolding ch' by simp
  qed
qed

text \<open>One chunk, as the controller sees it.\<close>

lemma lba28_select:
  assumes "l < 2 ^ 28"
  shows "(ucast (ucast (of_nat l :: u32) :: byte) OR push_bit 8 (ucast (ucast (drop_bit 8 (of_nat l :: u32)) :: byte)) OR
      push_bit 16 (ucast (ucast (drop_bit 16 (of_nat l :: u32)) :: byte)) OR
      push_bit 24 (ucast ((BIT_DEV_MBS OR BIT_DEV_LBA OR (if b then BIT_DEV_DEV else 0) OR
        ucast (drop_bit 24 (of_nat l :: u32))) AND 0xf :: byte)) :: u32) = of_nat l"
    "bit (BIT_DEV_MBS OR BIT_DEV_LBA OR (if b then BIT_DEV_DEV else 0) OR
        ucast (drop_bit 24 (of_nat l :: u32)) :: byte) 4 = b"
proof -
  have hi: "\<not> bit l n" if "28 \<le> n" for n
  proof -
    have "take_bit 28 l = l" using assms by (simp add: take_bit_nat_eq_self)
    then show ?thesis using that by (metis bit_take_bit_iff leD)
  qed
  have hi': "n < 28" if "bit l n" for n using hi [of n] that by (cases "n < 28") auto
  have f: "(0xf :: byte) = mask 4" by (simp add: mask_numeral)
  have d: "(BIT_DEV_MBS OR BIT_DEV_LBA OR (if b then BIT_DEV_DEV else 0)) AND 0xf = 0"
    by (simp add: BIT_DEV_MBS_def BIT_DEV_LBA_def BIT_DEV_DEV_def)
  have dl: "(BIT_DEV_MBS OR BIT_DEV_LBA OR (if b then BIT_DEV_DEV else 0) OR x) AND 0xf = x AND 0xf" for x :: byte
    using d by (simp add: bit.conj_disj_distrib2 or.assoc [symmetric])
  show "(ucast (ucast (of_nat l :: u32) :: byte) OR push_bit 8 (ucast (ucast (drop_bit 8 (of_nat l :: u32)) :: byte)) OR
      push_bit 16 (ucast (ucast (drop_bit 16 (of_nat l :: u32)) :: byte)) OR
      push_bit 24 (ucast ((BIT_DEV_MBS OR BIT_DEV_LBA OR (if b then BIT_DEV_DEV else 0) OR
        ucast (drop_bit 24 (of_nat l :: u32))) AND 0xf :: byte)) :: u32) = of_nat l"
    unfolding dl unfolding f
    by (rule bit_eqI) (auto simp: bit_simps not_less dest: hi')
  have "\<not> bit (ucast (drop_bit 24 (of_nat l :: u32)) :: byte) 4"
    using hi [of 28] by (simp add: bit_simps)
  then show "bit (BIT_DEV_MBS OR BIT_DEV_LBA OR (if b then BIT_DEV_DEV else 0) OR
        ucast (drop_bit 24 (of_nat l :: u32)) :: byte) 4 = b"
    by (simp add: BIT_DEV_MBS_def BIT_DEV_LBA_def BIT_DEV_DEV_def bit_or_iff)
qed

lemma ata_count_of_nat: "0 < n \<Longrightarrow> n \<le> 256 \<Longrightarrow>
    (if (of_nat n :: byte) = 0 then 256 else unat (of_nat n :: byte)) = n"
  by (cases "n = 256") (auto simp: unat_of_nat word_unat_eq_iff)

lemma sector_bytes_of_nat: "0 < n \<Longrightarrow> n \<le> 256 \<Longrightarrow> 2 * unat (sector_bytes (of_nat n) div 2) = 512 * n"
proof -
  assume n: "0 < n" "n \<le> 256"
  have "unat (sector_bytes (of_nat n)) = 512 * n"
  proof (cases "n = 256")
    case False
    then have b: "unat (of_nat n :: byte) = n" "(of_nat n :: byte) \<noteq> 0"
      using n by (auto simp: unat_of_nat word_unat_eq_iff)
    then have "unat (ucast (of_nat n :: byte) :: u32) = n" using n by (simp add: unsigned_ucast_eq take_bit_nat_eq_self)
    then have "unat (ucast (of_nat n :: byte) * 512 :: u32) = n * 512"
      using n by (simp add: unat_mult_lem [THEN iffD1])
    then show ?thesis using b by (simp add: sector_bytes_def)
  qed (simp add: sector_bytes_def)
  then show ?thesis by (simp add: unat_div)
qed

lemma ata_run_chunk:
  assumes "l < 2 ^ 28" "0 < n" "n \<le> 256" "xfer = [Insw p off w] \<or> xfer = [Outsw p off w]"
  shows "\<exists>r'. ata_run (port_base (my_channel d)) r
      (select_sector d (of_nat l) (of_nat n) @ cmd_out d cmd @ xfer @ rest) =
    (cmd, dev_no d = 1, l, n) # ata_run (port_base (my_channel d)) r' rest"
proof -
  let ?b = "port_base (my_channel d)"
  define r1 where "r1 = r(2 := (of_nat n :: byte), 3 := ucast (of_nat l :: u32),
    4 := ucast (drop_bit 8 (of_nat l :: u32)), 5 := ucast (drop_bit 16 (of_nat l :: u32)),
    6 := BIT_DEV_MBS OR BIT_DEV_LBA OR (if dev_no d = 1 then BIT_DEV_DEV else 0) OR
      ucast (drop_bit 24 (of_nat l :: u32)))"
  have "ata_run ?b r (select_sector d (of_nat l) (of_nat n) @ cmd_out d cmd @ xfer @ rest) =
      (cmd, bit (r1 6) 4, lba28 r1, ata_count r1) # ata_run ?b r1 rest"
    using assms(4) by (auto simp: select_sector_def cmd_out_def r1_def Let_def)
  moreover have "bit (r1 6) 4 = (dev_no d = 1)"
    using lba28_select(2) [OF assms(1), of "dev_no d = 1"] by (simp add: r1_def)
  moreover have "lba28 r1 = unat (of_nat l :: u32)"
    using lba28_select(1) [OF assms(1), of "dev_no d = 1"] by (simp add: lba28_def r1_def)
  moreover have "unat (of_nat l :: u32) = l" using assms(1) by (simp add: unat_of_nat)
  moreover have "r1 2 = of_nat n" by (simp add: r1_def)
  then have "ata_count r1 = n" unfolding ata_count_def using ata_count_of_nat [OF assms(2,3)] by metis
  ultimately show ?thesis by auto
qed

lemma transfers_append: "transfers (xs @ ys) = transfers xs @ transfers ys"
  by (induction xs rule: transfers.induct) auto

lemma transfers_chunk:
  assumes "0 < n" "n \<le> 256"
    and "\<And>off m. xfer off m = [Insw p off (sector_bytes m div 2)] \<or> xfer off m = [Outsw p off (sector_bytes m div 2)]"
  shows "transfers (chunk_ops d cmd xfer lba buf (k, n)) = [(buf + of_nat (512 * k), 512 * n)]"
proof -
  have "transfers (xfer (buf + of_nat (k * 512)) (of_nat n)) = [(buf + of_nat (512 * k), 512 * n)]"
    using assms(3) [of "buf + of_nat (k * 512)" "of_nat n"] sector_bytes_of_nat [OF assms(1,2)]
    by (auto simp: mult.commute)
  moreover have "transfers (select_sector d l m) = []" "transfers (cmd_out d cmd) = []" for l m
    by (simp_all add: select_sector_def cmd_out_def Let_def)
  ultimately show ?thesis by (simp add: chunk_ops_def transfers_append)
qed

lemma ata_run_chunks:
  assumes "\<And>k n. (k, n) \<in> set ks \<Longrightarrow> 0 < n \<and> n \<le> 256 \<and> unat lba + k < 2 ^ 28"
    and "\<And>off m. xfer off m = [Insw p off (sector_bytes m div 2)] \<or> xfer off m = [Outsw p off (sector_bytes m div 2)]"
  shows "ata_run (port_base (my_channel d)) r (concat (map (chunk_ops d cmd xfer lba buf) ks)) =
      map (\<lambda>(k, n). (cmd, dev_no d = 1, unat lba + k, n)) ks"
    "transfers (concat (map (chunk_ops d cmd xfer lba buf) ks)) = map (\<lambda>(k, n). (buf + of_nat (512 * k), 512 * n)) ks"
proof -
  show "ata_run (port_base (my_channel d)) r (concat (map (chunk_ops d cmd xfer lba buf) ks)) =
      map (\<lambda>(k, n). (cmd, dev_no d = 1, unat lba + k, n)) ks"
    using assms(1)
  proof (induction ks arbitrary: r)
    case (Cons x ks)
    obtain k n where x: "x = (k, n)" by (cases x)
    have b: "unat lba + k < 2 ^ 28" "0 < n" "n \<le> 256" using Cons.prems [of k n] x by auto
    have l: "lba + of_nat k = of_nat (unat lba + k)" by simp
    obtain r' where r': "ata_run (port_base (my_channel d)) r
        (select_sector d (of_nat (unat lba + k)) (of_nat n) @ cmd_out d cmd @ xfer (buf + of_nat (k * 512)) (of_nat n) @
          concat (map (chunk_ops d cmd xfer lba buf) ks)) =
        (cmd, dev_no d = 1, unat lba + k, n) # ata_run (port_base (my_channel d)) r' (concat (map (chunk_ops d cmd xfer lba buf) ks))"
      using ata_run_chunk [OF b, of "xfer (buf + of_nat (k * 512)) (of_nat n)"] assms(2) by blast
    have "ata_run (port_base (my_channel d)) r' (concat (map (chunk_ops d cmd xfer lba buf) ks)) =
        map (\<lambda>(k, n). (cmd, dev_no d = 1, unat lba + k, n)) ks"
      by (rule Cons.IH) (use Cons.prems in auto)
    with r' show ?case by (simp only: x list.map concat.simps chunk_ops_def prod.case l append_assoc)
  qed simp
  show "transfers (concat (map (chunk_ops d cmd xfer lba buf) ks)) = map (\<lambda>(k, n). (buf + of_nat (512 * k), 512 * n)) ks"
    using assms(1)
  proof (induction ks)
    case (Cons x ks)
    obtain k n where x: "x = (k, n)" by (cases x)
    have b: "0 < n" "n \<le> 256" using Cons.prems [of k n] x by auto
    have "transfers (concat (map (chunk_ops d cmd xfer lba buf) ks)) = map (\<lambda>(k, n). (buf + of_nat (512 * k), 512 * n)) ks"
      by (rule Cons.IH) (use Cons.prems in auto)
    then show ?case
      by (simp only: x list.map concat.simps transfers_append transfers_chunk [OF b assms(2)] prod.case append.simps)
  qed simp
qed

lemma driver_covers:
  assumes "0 < unat c" "unat lba + unat c \<le> 2 ^ 28"
    and "\<And>off m. xfer off m = [Insw p off (sector_bytes m div 2)] \<or> xfer off m = [Outsw p off (sector_bytes m div 2)]"
    and "ops = select_disk d @ concat (map (chunk_ops d cmd xfer lba buf) (chunks 0 (unat c)))"
  shows "ata_cmds d ops = map (\<lambda>(k, n). (cmd, dev_no d = 1, unat lba + k, n)) (chunks 0 (unat c)) \<and>
    transfers ops = map (\<lambda>(k, n). (buf + of_nat (512 * k), 512 * n)) (chunks 0 (unat c))"
proof -
  have b: "0 < n \<and> n \<le> 256 \<and> unat lba + k < 2 ^ 28" if "(k, n) \<in> set (chunks 0 (unat c))" for k n
    using chunks_bounds [OF that] assms(2) by auto
  have sel: "\<exists>r. ata_cmds d (select_disk d @ xs) = ata_run (port_base (my_channel d)) r xs \<and>
      transfers (select_disk d @ xs) = transfers xs" for xs
    by (auto simp: ata_cmds_def select_disk_def)
  show ?thesis
    using sel [of "concat (map (chunk_ops d cmd xfer lba buf) (chunks 0 (unat c)))"]
      ata_run_chunks [OF b assms(3)] unfolding assms(4) by auto
qed

section \<open>Properties\<close>

definition demo_disk :: disk where
  "demo_disk = \<lparr>my_channel = \<lparr>port_base = 0x1f0, irq_no = 0x2e, expecting_intr = False\<rparr>, dev_no = 1\<rparr>"

definition demo_ready :: "u32 \<Rightarrow> nat \<Rightarrow> byte" where
  "demo_ready = (\<lambda>_ _. BIT_STAT_DRQ)"

lemma demo_ready_ok: "fst (busy_wait (demo_ready w))"
  by (subst busy_wait_ready) (simp_all add: demo_ready_def BIT_STAT_DRQ_def BIT_STAT_BSY_def)

text \<open>
  C15. Reading sectors: if no poll fails, \<^verbatim>\<open>ide_read\<close> returns, and the controller is told to read, on
  the right device, pieces that make up exactly the sectors \<open>lba, ..., lba + c - 1\<close> in order, none
  longer than 256 sectors; piece by piece the data go to consecutive places of the buffer.
\<close>
theorem ide_read_covers:
  assumes "0 < unat c" "unat c \<le> 2 ^ 23" "unat lba + unat c \<le> 2 ^ 28" "\<And>w. fst (busy_wait (st w))"
  shows "\<exists>ops ks. ide_read d lba buf c st = Some (Inr ops) \<and>
    ata_cmds d ops = map (\<lambda>(k, n). (CMD_READ_SECTOR, dev_no d = 1, unat lba + k, n)) ks \<and>
    transfers ops = map (\<lambda>(k, n). (buf + of_nat (512 * k), 512 * n)) ks \<and>
    concat (map (\<lambda>(k, n). [k..<k + n]) ks) = [0..<unat c] \<and> (\<forall>(k, n) \<in> set ks. n \<le> 256)"
proof -
  have pos: "c > 0" using assms(1) by (simp add: unat_gt_0 word_gt_0)
  have "ide_read d lba buf c st = Some (Inr (select_disk d @
      concat (map (chunk_ops d CMD_READ_SECTOR (read_from_sector d) lba buf) (chunks 0 (unat c)))))"
    using ide_read_loop_spec [OF assms(2,4), where k = 0 and d = d and lba = lba and buf = buf and ops = "select_disk d"] pos by (simp add: ide_read_def)
  moreover have "\<forall>(k, n) \<in> set (chunks 0 (unat c)). n \<le> 256" using chunks_bounds by blast
  ultimately show ?thesis
    using driver_covers [OF assms(1,3), of "read_from_sector d"] chunks_cover [of 0 "unat c"]
    by (intro exI conjI) (assumption | simp add: read_from_sector_def)+
qed

theorem ide_read_covers_witness:
  "\<exists>ops ks. ide_read demo_disk 1000 0x5000 600 demo_ready = Some (Inr ops) \<and>
    ata_cmds demo_disk ops = map (\<lambda>(k, n). (CMD_READ_SECTOR, dev_no demo_disk = 1, unat (1000 :: u32) + k, n)) ks \<and>
    transfers ops = map (\<lambda>(k, n). (0x5000 + of_nat (512 * k), 512 * n)) ks \<and>
    concat (map (\<lambda>(k, n). [k..<k + n]) ks) = [0..<unat (600 :: u32)] \<and> (\<forall>(k, n) \<in> set ks. n \<le> 256)"
  by (rule ide_read_covers) (simp_all add: demo_ready_ok)

text \<open>
  Writing sectors: if no poll fails, \<^verbatim>\<open>ide_write\<close> returns, and the controller is told to write, on
  the right device, pieces that make up exactly the sectors \<open>lba, ..., lba + c - 1\<close> in order, none
  longer than 256 sectors; piece by piece the data come from consecutive places of the buffer.
\<close>
theorem ide_write_covers:
  assumes "0 < unat c" "unat c \<le> 2 ^ 23" "unat lba + unat c \<le> 2 ^ 28" "\<And>w. fst (busy_wait (st w))"
  shows "\<exists>ops ks. ide_write d lba buf c st = Some (Inr ops) \<and>
    ata_cmds d ops = map (\<lambda>(k, n). (CMD_WRITE_SECTOR, dev_no d = 1, unat lba + k, n)) ks \<and>
    transfers ops = map (\<lambda>(k, n). (buf + of_nat (512 * k), 512 * n)) ks \<and>
    concat (map (\<lambda>(k, n). [k..<k + n]) ks) = [0..<unat c] \<and> (\<forall>(k, n) \<in> set ks. n \<le> 256)"
proof -
  have pos: "c > 0" using assms(1) by (simp add: unat_gt_0 word_gt_0)
  have "ide_write d lba buf c st = Some (Inr (select_disk d @
      concat (map (chunk_ops d CMD_WRITE_SECTOR (write2sector d) lba buf) (chunks 0 (unat c)))))"
    using ide_write_loop_spec [OF assms(2,4), where k = 0 and d = d and lba = lba and buf = buf and ops = "select_disk d"] pos by (simp add: ide_write_def)
  moreover have "\<forall>(k, n) \<in> set (chunks 0 (unat c)). n \<le> 256" using chunks_bounds by blast
  ultimately show ?thesis
    using driver_covers [OF assms(1,3), of "write2sector d"] chunks_cover [of 0 "unat c"]
    by (intro exI conjI) (assumption | simp add: write2sector_def)+
qed

theorem ide_write_covers_witness:
  "\<exists>ops ks. ide_write demo_disk 1000 0x5000 600 demo_ready = Some (Inr ops) \<and>
    ata_cmds demo_disk ops = map (\<lambda>(k, n). (CMD_WRITE_SECTOR, dev_no demo_disk = 1, unat (1000 :: u32) + k, n)) ks \<and>
    transfers ops = map (\<lambda>(k, n). (0x5000 + of_nat (512 * k), 512 * n)) ks \<and>
    concat (map (\<lambda>(k, n). [k..<k + n]) ks) = [0..<unat (600 :: u32)] \<and> (\<forall>(k, n) \<in> set ks. n \<le> 256)"
  by (rule ide_write_covers) (simp_all add: demo_ready_ok)

text \<open>
  A drive that never becomes ready is given up after 29999 polls, each with a sleep of 10 ms: the
  loop condition subtracts 1, not 10, from the limit of 30000, so the 30 seconds meant become 300.
\<close>
theorem busy_wait_timeout:
  assumes "\<And>i. st i AND BIT_STAT_BSY \<noteq> 0"
  shows "busy_wait st = (False, 29999) \<and> snd (busy_wait st) * 10 > 30 * 1000 * 9"
  using busy_poll_stuck [of st 0 30000 0] assms by (simp add: busy_wait_def)

theorem busy_wait_timeout_witness:
  "busy_wait (\<lambda>_. 0xff) = (False, 29999) \<and> snd (busy_wait (\<lambda>_. 0xff)) * 10 > 30 * 1000 * 9"
  by (rule busy_wait_timeout) (simp add: BIT_STAT_BSY_def)

text \<open>
  The fourth drive cannot be addressed: \<^verbatim>\<open>select_disk\<close> and \<^verbatim>\<open>select_sector\<close> set the device bit for
  device number 1 only, so for number 3, the second drive of the second channel, the same registers
  are written as for number 2.
\<close>
theorem disk_3_is_disk_2:
  "select_disk (d\<lparr>dev_no := 3\<rparr>) = select_disk (d\<lparr>dev_no := 2\<rparr>) \<and>
   select_sector (d\<lparr>dev_no := 3\<rparr>) lba n = select_sector (d\<lparr>dev_no := 2\<rparr>) lba n"
  by (simp add: select_disk_def select_sector_def)

text \<open>
  The disk interrupt wakes the thread that waits for the transfer: on the interrupt that is
  expected the first waiter of \<^verbatim>\<open>disk_done\<close> becomes the first ready thread, no assertion fails, and
  the channel no longer expects an interrupt, so a second, spurious one changes nothing.
\<close>
theorem disk_interrupt_wakes:
  assumes "sched_wf s" "ch < length (channels s)" "ch < 2" "irq = 0x2e + of_nat ch"
    and "irq_no (channels s ! ch) = irq" "expecting_intr (channels s ! ch)"
    and "sval (semas s (DiskDone ch)) = 0" "waiters (semas s (DiskDone ch)) = General t # ws"
  shows "\<exists>s'. intr_hd_hdl irq s = Inr s' \<and> sched_wf s' \<and> intr_hd_hdl irq s' = Inr s' \<and>
    ready_threads_list s' = General t # ready_threads_list s \<and> tstat s' t = Some TASK_READY \<and>
    sval (semas s' (DiskDone ch)) = 1 \<and> waiters (semas s' (DiskDone ch)) = ws"
proof -
  let ?c = "(channels s ! ch)\<lparr>expecting_intr := False\<rparr>"
  let ?s = "s\<lparr>channels := (channels s)[ch := ?c]\<rparr>"
  have irq: "irq = 0x2e \<or> irq = 0x2f" "unat (irq - 0x2e) = ch"
    using assms(3,4) by (auto simp: less_2_cases_iff)
  have wf: "sched_wf ?s"
    using assms(1) by (simp add: sched_wf_def sched_core_def ready_ok_def waiters_ok_def run_ok_def idle_ok_def tstat_def)
  have sema: "sval (semas ?s (DiskDone ch)) = 0" "waiters (semas ?s (DiskDone ch)) = General t # ws"
    using assms(7,8) by simp_all
  obtain s' where s': "sema_up (DiskDone ch) ?s = Inr s'" "sched_wf s'"
      "sched_frame (put_sema (DiskDone ch) ((semas ?s (DiskDone ch))\<lparr>sval := 1, waiters := ws\<rparr>) ?s) s'"
      "ready_threads_list s' = General t # ready_threads_list ?s"
      "\<forall>u. tstat s' u = (if u = t then Some TASK_READY else tstat ?s u)"
    using sema_up_wake [OF wf sema] by blast
  have ch: "channels s' = (channels s)[ch := ?c]" "semas s' (DiskDone ch) = (semas s (DiskDone ch))\<lparr>sval := 1, waiters := ws\<rparr>"
    using s'(3) by (cases s; cases s'; simp add: sched_frame_def put_sema_def)+
  have "intr_hd_hdl irq s = Inr s'"
    using irq assms(2,5,6) s'(1) by (simp add: intr_hd_hdl_def Let_def)
  moreover have "intr_hd_hdl irq s' = Inr s'"
    using irq assms(2,5) ch(1) by (simp add: intr_hd_hdl_def Let_def)
  ultimately show ?thesis using s'(2,4,5) ch(2) by (intro exI [of _ s']) simp
qed

definition demo_disk_sys :: disk_sys where
  "demo_disk_sys = sched.extend
     (demo_sched\<lparr>tasks := [1 \<mapsto> demo_task TASK_RUNNING 1 1, 2 \<mapsto> demo_task TASK_BLOCKED 4 2,
         3 \<mapsto> demo_task TASK_BLOCKED 10 3], ready_threads_list := [],
       semas := (\<lambda>q. if q = DiskDone 0 then \<lparr>sval = 0, waiters = [General 2]\<rparr> else \<lparr>sval = 1, waiters = []\<rparr>)\<rparr>)
     (disk_sys.fields [\<lparr>port_base = 0x1f0, irq_no = 0x2e, expecting_intr = True\<rparr>])"

theorem disk_interrupt_wakes_witness:
  "\<exists>s'. intr_hd_hdl 0x2e demo_disk_sys = Inr s' \<and> sched_wf s' \<and> intr_hd_hdl 0x2e s' = Inr s' \<and>
    ready_threads_list s' = General 2 # ready_threads_list demo_disk_sys \<and> tstat s' 2 = Some TASK_READY \<and>
    sval (semas s' (DiskDone 0)) = 1 \<and> waiters (semas s' (DiskDone 0)) = []"
proof (rule disk_interrupt_wakes)
  show "sched_wf demo_disk_sys"
    by (auto simp: sched_wf_def sched_core_def ready_ok_def waiters_ok_def run_ok_def idle_ok_def
        tstat_def demo_disk_sys_def demo_sched_def demo_task_def sched.defs disk_sys.defs split: if_splits)
qed (simp_all add: demo_disk_sys_def demo_sched_def sched.defs disk_sys.defs)

end
