(* ===== verification/Intr.thy ===== *)
theory Intr
  imports Disk
begin

unbundle bit_operations_syntax

text \<open>
  The interrupt controllers and the tables the processor reads (\<^verbatim>\<open>kernel/intr.c\<close>, \<^verbatim>\<open>kernel/tss.c\<close>). What the code writes
  is translated; \<open>pic_run\<close>, \<open>gate_target\<close>, \<open>idtr\<close> and \<open>tss_target\<close> are how the hardware reads it. Function pointers
  are 64-bit addresses.
\<close>

section \<open>The interrupt controllers\<close>

definition PIC_M_CTRL :: u16 where "PIC_M_CTRL = 0x20"
definition PIC_M_DATA :: u16 where "PIC_M_DATA = 0x21"
definition PIC_S_CTRL :: u16 where "PIC_S_CTRL = 0xa0"
definition PIC_S_DATA :: u16 where "PIC_S_DATA = 0xa1"

definition pic_init :: "port_op list" where
  "pic_init =
     [Outb PIC_M_CTRL 0x11, Outb PIC_M_DATA 0x20, Outb PIC_M_DATA 0x04, Outb PIC_M_DATA 0x01,
      Outb PIC_S_CTRL 0x11, Outb PIC_S_DATA 0x28, Outb PIC_S_DATA 0x02, Outb PIC_S_DATA 0x01,
      Outb PIC_M_DATA 0xfe, Outb PIC_S_DATA 0xff, Outb PIC_M_DATA 0xf8, Outb PIC_S_DATA 0xbf]"

text \<open>
  An 8259: a command word with bit 4 starts the initialisation, in which the next words to the data port are the
  first vector, the cascade and the mode; after it the data port is the mask.
\<close>

record pic =
  awaits :: nat
  vector :: byte
  cascade :: byte
  pic_mode :: byte
  imr :: byte

fun pic_run :: "u16 \<Rightarrow> u16 \<Rightarrow> port_op list \<Rightarrow> pic \<Rightarrow> pic" where
  "pic_run ctrl data [] p = p"
| "pic_run ctrl data (Outb port v # ops) p =
     pic_run ctrl data ops
       (if port = ctrl then (if bit v 4 then p\<lparr>awaits := 1, imr := 0\<rparr> else p)
        else if port = data then
          (if awaits p = 1 then p\<lparr>awaits := 2, vector := v\<rparr>
           else if awaits p = 2 then p\<lparr>awaits := 3, cascade := v\<rparr>
           else if awaits p = 3 then p\<lparr>awaits := 0, pic_mode := v\<rparr>
           else p\<lparr>imr := v\<rparr>)
        else p)"
| "pic_run ctrl data (_ # ops) p = pic_run ctrl data ops p"

text \<open>What the two controllers make of interrupt line \<open>n\<close>: the vector it raises, if it is let through.\<close>

definition irq_vector :: "pic \<Rightarrow> pic \<Rightarrow> nat \<Rightarrow> byte option" where
  "irq_vector m s n =
     (if n < 8 then if bit (imr m) n then None else Some (vector m + of_nat n)
      else if n < 16 \<and> bit (cascade m) (unat (cascade s)) \<and> \<not> bit (imr m) (unat (cascade s)) \<and> \<not> bit (imr s) (n - 8)
        then Some (vector s + of_nat (n - 8)) else None)"

section \<open>Handlers\<close>

definition IDT_DESC_CNT :: nat where "IDT_DESC_CNT = 0x30"

text \<open>
  The general handler ignores the spurious interrupt 0x27; for any other it prints what is known of the
  interrupt - its number, for a page fault the address \<open>cr2\<close>, and the frame the processor pushed - and stays in a loop.
\<close>

definition general_intr_hdl :: "int \<Rightarrow> (int \<Rightarrow> u64) \<Rightarrow> u64 \<Rightarrow> (string \<times> u64) list option" where
  "general_intr_hdl intr_nr rbp_ptr cr2 =
     (if intr_nr = 0x27 then None
      else Some ([(''intr_nr'', of_int intr_nr)] @ (if 0x0e = intr_nr then [(''page_fault_vaddr'', cr2)] else []) @
        [(''ss_old'', rbp_ptr 0), (''rsp_old'', rbp_ptr (-1)), (''rflags_old'', rbp_ptr (-2)), (''cs_old'', rbp_ptr (-3)),
         (''rip_old'', rbp_ptr (-4))]))"

definition register_intr_hdl :: "int \<Rightarrow> u64 \<Rightarrow> u64 list \<Rightarrow> u64 list res" where
  "register_intr_hdl num hdl intr_hdl_table =
     (if 0 \<le> num \<and> nat num < length intr_hdl_table then Inr (intr_hdl_table[nat num := hdl]) else Inl (Fault ''intr_hdl_table''))"

fun intr_hdl_init_from :: "nat \<Rightarrow> nat \<Rightarrow> u64 \<Rightarrow> u64 list \<Rightarrow> u64 list res" where
  "intr_hdl_init_from i 0 hdl t = Inr t"
| "intr_hdl_init_from i (Suc n) hdl t = rbind (register_intr_hdl (int i) hdl t) (intr_hdl_init_from (Suc i) n hdl)"

definition intr_hdl_init :: "u64 \<Rightarrow> u64 list \<Rightarrow> u64 list res" where
  "intr_hdl_init general t = intr_hdl_init_from 0 IDT_DESC_CNT general t"

section \<open>The interrupt descriptor table\<close>

record idt_des =
  off_low :: u16
  sct :: u16
  ist :: byte
  att :: byte
  off_mid :: u16
  off_high :: u32
  rsv :: u32

definition CODE_SCT :: u16 where "CODE_SCT = 8"

definition set_gate :: "u64 \<Rightarrow> idt_des \<Rightarrow> idt_des" where
  "set_gate ety d =
     d\<lparr>off_high := ucast (drop_bit 32 (0xffffffff00000000 AND ety)), off_mid := ucast (drop_bit 16 (0xffff0000 AND ety)),
       off_low := ucast (0xffff AND ety), ist := 1, sct := CODE_SCT, att := 0x8e\<rparr>"

text \<open>The table, and the two words of which the processor loads the first ten bytes; the table is at \<open>idt_at\<close>.\<close>

definition idt_init :: "u64 list \<Rightarrow> u64 \<Rightarrow> idt_des list \<Rightarrow> idt_des list \<times> u64 \<times> u64" where
  "idt_init intr_ety_table idt_at idt_table =
     (foldl (\<lambda>t i. t[i := set_gate (intr_ety_table ! i) (t ! i)]) idt_table [0..<IDT_DESC_CNT],
      of_nat (16 * IDT_DESC_CNT - 1) OR push_bit 16 idt_at, drop_bit 48 idt_at)"

definition intr_init :: "u64 list \<Rightarrow> u64 \<Rightarrow> u64 \<Rightarrow> u64 list \<Rightarrow> idt_des list \<Rightarrow> (port_op list \<times> u64 list \<times> idt_des list \<times> u64 \<times> u64) res" where
  "intr_init intr_ety_table general idt_at intr_hdl_table idt_table =
     rbind (intr_hdl_init general intr_hdl_table) (\<lambda>hdls.
     let (idt, p0, p1) = idt_init intr_ety_table idt_at idt_table in
     Inr (pic_init, hdls, idt[0x20 := (idt ! 0x20)\<lparr>ist := 2\<rparr>], p0, p1))"

text \<open>How the processor reads a gate and the table register.\<close>

definition gate_target :: "idt_des \<Rightarrow> u64" where
  "gate_target d = push_bit 32 (ucast (off_high d)) OR push_bit 16 (ucast (off_mid d)) OR ucast (off_low d)"

definition idtr :: "u64 \<Rightarrow> u64 \<Rightarrow> u16 \<times> u64" where
  "idtr p0 p1 = (ucast p0, drop_bit 16 p0 OR push_bit 48 p1)"

section \<open>The task state segment\<close>

record tss_des =
  len_low :: u16
  base0 :: u16
  base1 :: byte
  addr :: byte
  len_high :: byte
  base2 :: byte
  base3 :: u32
  tss_rsv :: u32

definition tss_size :: u64 where "tss_size = 104"

definition tss_init :: "u64 \<Rightarrow> tss_des \<Rightarrow> tss_des" where
  "tss_init tss_base d =
     d\<lparr>base0 := ucast (tss_base AND 0xffff), base1 := ucast (drop_bit 16 (tss_base AND 0xff0000)),
       base2 := ucast (drop_bit 24 (tss_base AND 0xff000000)), base3 := ucast (drop_bit 32 (tss_base AND 0xffffffff00000000)),
       len_low := ucast (tss_size AND 0xffff), len_high := ucast (tss_size AND 0xf0000), addr := 0x89\<rparr>"

definition tss_target :: "tss_des \<Rightarrow> u64" where
  "tss_target d = push_bit 32 (ucast (base3 d)) OR push_bit 24 (ucast (base2 d)) OR push_bit 16 (ucast (base1 d)) OR ucast (base0 d)"

section \<open>What the hardware reads\<close>

lemma mask_words:
  "(0xffff :: u64) = mask 16" "(0xffff0000 :: u64) = push_bit 16 (mask 16)" "(0xffffffff00000000 :: u64) = push_bit 32 (mask 32)"
  "(0xff0000 :: u64) = push_bit 16 (mask 8)" "(0xff000000 :: u64) = push_bit 24 (mask 8)"
  by (simp_all add: mask_eq_exp_minus_1 push_bit_eq_mult)

lemma gate_target_set: "gate_target (set_gate ety d) = ety"
  by (rule bit_word_eqI, rename_tac n, case_tac "n < 32"; case_tac "n < 16")
    (auto simp: gate_target_def set_gate_def mask_words bit_simps add_diff_inverse_nat)

lemma tss_target_init: "tss_target (tss_init base d) = base"
  by (rule bit_word_eqI, rename_tac n, case_tac "n < 32"; case_tac "n < 24"; case_tac "n < 16")
    (auto simp: tss_target_def tss_init_def mask_words bit_simps add_diff_inverse_nat)

lemma idtr_init: "idtr (767 OR push_bit 16 at) (drop_bit 48 at) = (767, at)"
proof -
  have k: "(767 :: u64) = ucast (767 :: u16)" by simp
  have "(ucast (ucast (767 :: u16) OR push_bit 16 at :: u64) :: u16) = 767"
    by (rule bit_word_eqI) (auto simp: bit_simps)
  moreover have "drop_bit 16 (ucast (767 :: u16) OR push_bit 16 at) OR push_bit 48 (drop_bit 48 at) = at"
    by (rule bit_word_eqI, rename_tac n, case_tac "n < 48") (auto simp: bit_simps add_diff_inverse_nat)
  ultimately show ?thesis unfolding idtr_def k by simp
qed

lemma set_gates:
  "k \<le> n \<Longrightarrow> n \<le> length t \<Longrightarrow> foldl (\<lambda>t i. t[i := f i (t ! i)]) t [k..<n] = map (\<lambda>i. if k \<le> i \<and> i < n then f i (t ! i) else t ! i) [0..<length t]"
proof (induction n)
  case 0
  then show ?case by (simp add: map_nth)
next
  case (Suc n)
  show ?case
  proof (cases "k \<le> n")
    case True
    with Suc show ?thesis by (auto simp: nth_list_update intro!: nth_equalityI)
  next
    case False
    then have "k = Suc n" using Suc.prems by simp
    then show ?thesis by (auto simp: intro!: nth_equalityI)
  qed
qed

lemma intr_hdl_init_all:
  "i + n \<le> length t \<Longrightarrow> intr_hdl_init_from i n h t = Inr (take i t @ replicate n h @ drop (i + n) t)"
proof (induction n arbitrary: i t)
  case (Suc n)
  then have "intr_hdl_init_from i (Suc n) h t = Inr (take (Suc i) (t[i := h]) @ replicate n h @ drop (Suc i + n) (t[i := h]))"
    by (simp add: register_intr_hdl_def)
  then show ?case using Suc.prems by (simp add: take_Suc_conv_app_nth take_update_cancel drop_update_cancel)
qed simp

lemma controllers:
  "irq_vector (pic_run PIC_M_CTRL PIC_M_DATA pic_init m) (pic_run PIC_S_CTRL PIC_S_DATA pic_init s) n =
    (if n \<in> {0, 1, 2, 14} then Some (0x20 + of_nat n) else None)"
proof (cases "n < 16")
  case True
  have "\<forall>n \<in> set [0..<16]. irq_vector (pic_run PIC_M_CTRL PIC_M_DATA pic_init m) (pic_run PIC_S_CTRL PIC_S_DATA pic_init s) n =
    (if n \<in> {0, 1, 2, 14} then Some (0x20 + of_nat n) else None)"
    by (simp add: pic_init_def PIC_M_CTRL_def PIC_M_DATA_def PIC_S_CTRL_def PIC_S_DATA_def irq_vector_def upt_rec)
  with True show ?thesis by simp
qed (auto simp: irq_vector_def)

text \<open>
  C36. Interrupts arrive where they should: after \<^verbatim>\<open>intr_init\<close> the controllers let the timer, the keyboard and the first
  disk channel through, on the vectors from 0x20, and every gate of the table leads to its entry, with the second
  interrupt stack for the timer; every handler is the general one.
\<close>
theorem interrupts_set_up:
  assumes "length etys = IDT_DESC_CNT" "length hdls = IDT_DESC_CNT" "length idt = IDT_DESC_CNT"
  shows "\<exists>ports idt' p0 p1. intr_init etys general idt_at hdls idt = Inr (ports, replicate IDT_DESC_CNT general, idt', p0, p1) \<and>
    (\<forall>m s n. irq_vector (pic_run PIC_M_CTRL PIC_M_DATA ports m) (pic_run PIC_S_CTRL PIC_S_DATA ports s) n =
      (if n \<in> {0, 1, 2, 14} then Some (0x20 + of_nat n) else None)) \<and>
    map gate_target idt' = etys \<and> map ist idt' = (replicate IDT_DESC_CNT 1)[0x20 := 2] \<and>
    (\<forall>d \<in> set idt'. sct d = CODE_SCT \<and> att d = 0x8e) \<and> idtr p0 p1 = (of_nat (16 * length idt' - 1), idt_at)"
proof -
  let ?t = "map (\<lambda>i. set_gate (etys ! i) (idt ! i)) [0..<IDT_DESC_CNT]"
  let ?t' = "?t[0x20 := (?t ! 0x20)\<lparr>ist := 2\<rparr>]"
  have "foldl (\<lambda>t i. t[i := set_gate (etys ! i) (t ! i)]) idt [0..<IDT_DESC_CNT] = ?t"
    using set_gates [of 0 IDT_DESC_CNT idt "\<lambda>i. set_gate (etys ! i)"] assms(3) by auto
  moreover have "intr_hdl_init general hdls = Inr (replicate IDT_DESC_CNT general)"
    using intr_hdl_init_all [of 0 IDT_DESC_CNT hdls general] assms(2) by (simp add: intr_hdl_init_def)
  ultimately have run: "intr_init etys general idt_at hdls idt =
      Inr (pic_init, replicate IDT_DESC_CNT general, ?t', 767 OR push_bit 16 idt_at, drop_bit 48 idt_at)"
    by (simp add: intr_init_def idt_init_def IDT_DESC_CNT_def)
  have "0x20 < IDT_DESC_CNT" by (simp add: IDT_DESC_CNT_def)
  then have gate: "?t' ! i = (if i = 0x20 then (set_gate (etys ! i) (idt ! i))\<lparr>ist := 2\<rparr> else set_gate (etys ! i) (idt ! i))"
    if "i < IDT_DESC_CNT" for i
    using that by (auto simp: nth_list_update)
  have ist: "gate_target (d\<lparr>ist := k\<rparr>) = gate_target d" for d :: idt_des and k by (simp add: gate_target_def)
  then have "map gate_target ?t' = etys"
  proof (intro nth_equalityI)
    fix i assume "i < length (map gate_target ?t')"
    then have i: "i < IDT_DESC_CNT" "i < length ?t'" by simp_all
    have "gate_target (?t' ! i) = etys ! i" unfolding gate [OF i(1)] by (simp add: gate_target_set ist)
    then show "map gate_target ?t' ! i = etys ! i" unfolding nth_map [OF i(2)] .
  qed (use assms(1) in simp)
  moreover have "map ist ?t' = (replicate IDT_DESC_CNT 1)[0x20 := 2]"
  proof (intro nth_equalityI)
    fix i assume "i < length (map ist ?t')"
    then have i: "i < IDT_DESC_CNT" "i < length ?t'" by simp_all
    have "ist (?t' ! i) = (if i = 0x20 then 2 else 1)" unfolding gate [OF i(1)] by (simp add: set_gate_def)
    then show "map ist ?t' ! i = (replicate IDT_DESC_CNT 1)[0x20 := 2] ! i"
      unfolding nth_map [OF i(2)] using i(1) \<open>0x20 < IDT_DESC_CNT\<close> by (simp add: nth_list_update)
  qed simp
  moreover have "\<forall>d \<in> set ?t'. sct d = CODE_SCT \<and> att d = 0x8e"
  proof
    fix d assume "d \<in> set ?t'"
    then obtain i where i: "i < length ?t'" "d = ?t' ! i" unfolding in_set_conv_nth by blast
    then have "i < IDT_DESC_CNT" by simp
    show "sct d = CODE_SCT \<and> att d = 0x8e" unfolding i(2) gate [OF \<open>i < IDT_DESC_CNT\<close>] by (simp add: set_gate_def)
  qed
  moreover have "idtr (767 OR push_bit 16 idt_at) (drop_bit 48 idt_at) = (of_nat (16 * length ?t' - 1), idt_at)"
    by (simp add: idtr_init IDT_DESC_CNT_def)
  ultimately show ?thesis using run controllers by blast
qed

theorem interrupts_set_up_witness:
  "\<exists>ports idt' p0 p1. intr_init (map (\<lambda>i. 0xffff800000100000 + of_nat (64 * i)) [0..<IDT_DESC_CNT]) 0xffff800000105000 0xffff800000200000
      (replicate IDT_DESC_CNT 0) (replicate IDT_DESC_CNT \<lparr>off_low = 0, sct = 0, ist = 0, att = 0, off_mid = 0, off_high = 0, rsv = 0\<rparr>) =
    Inr (ports, replicate IDT_DESC_CNT 0xffff800000105000, idt', p0, p1) \<and>
    map gate_target idt' = map (\<lambda>i. 0xffff800000100000 + of_nat (64 * i)) [0..<IDT_DESC_CNT] \<and> snd (idtr p0 p1) = 0xffff800000200000"
  using interrupts_set_up [where etys = "map (\<lambda>i. 0xffff800000100000 + of_nat (64 * i)) [0..<IDT_DESC_CNT]" and hdls = "replicate IDT_DESC_CNT 0" and
    idt = "replicate IDT_DESC_CNT \<lparr>off_low = 0, sct = 0, ist = 0, att = 0, off_mid = 0, off_high = 0, rsv = 0\<rparr>" and general = "0xffff800000105000" and idt_at = "0xffff800000200000"]
  by fastforce

lemma tss_descriptor: "tss_target (tss_init base d) = base" "len_low (tss_init base d) = 104" "len_high (tss_init base d) = 0"
  by (simp_all add: tss_target_init, simp_all add: tss_init_def tss_size_def)

end
