(* ===== verification/IoQueue.thy ===== *)
theory IoQueue
  imports Sync
begin

text \<open>
  The character queue (\<^verbatim>\<open>device/ioqueue.c\<close>): a ring buffer of 2048 bytes of which 2047 can be in use,
  with a blocking reader and a blocking writer. Interrupts are off in all its functions. A call that
  has to wait is cut where the processor is lost: \<open>Parked\<close> says at which of the two places, and a
  parked call continues with \<open>ioq_getchar_locked\<close> or \<open>ioq_getchar_resume\<close> (\<open>ioq_putchar...\<close>).
\<close>

section \<open>State and operations\<close>

definition bufsize :: nat where "bufsize = 2048"

record ioqueue =
  qlock :: lock_id
  producer :: "tid option"
  consumer :: "tid option"
  buf :: "byte list"
  head :: nat
  tail :: nat

datatype park = OnLock | OnQueue

datatype 'a turn = Finished 'a | Parked park

definition ioqueue_init :: "lock_id \<Rightarrow> byte list \<Rightarrow> 'a sched_scheme \<Rightarrow> (ioqueue \<times> 'a sched_scheme) res" where
  "ioqueue_init l mem s =
     rbind (lock_init l s) (\<lambda>s.
     Inr (\<lparr>qlock = l, producer = None, consumer = None, buf = mem, head = 0, tail = 0\<rparr>, s))"

definition next_pos :: "nat \<Rightarrow> nat" where
  "next_pos pos = (pos + 1) mod bufsize"

definition ioq_full :: "ioqueue \<Rightarrow> 'a sched_scheme \<Rightarrow> bool res" where
  "ioq_full q s = rbind (kassert (intr s = intr_off) ''intr_off == get_intr_stat()'') (\<lambda>_.
     Inr (next_pos (head q) = tail q))"

definition ioq_empty :: "ioqueue \<Rightarrow> 'a sched_scheme \<Rightarrow> bool res" where
  "ioq_empty q s = rbind (kassert (intr s = intr_off) ''intr_off == get_intr_stat()'') (\<lambda>_.
     Inr (head q = tail q))"

text \<open>\<^verbatim>\<open>ioq_wait\<close> with the waiter field read, and written by the caller; the current thread blocks.\<close>

definition ioq_wait :: "tid option \<Rightarrow> 'a sched_scheme \<Rightarrow> (tid option \<times> 'a sched_scheme) res" where
  "ioq_wait waiter s =
     rbind (kassert (waiter = None) ''*waiter == NULL && waiter != NULL'') (\<lambda>_.
     let w = Some (running_thread s) in
     rbind (thread_block TASK_BLOCKED s) (\<lambda>(_, s). Inr (w, s)))"

definition wakeup :: "tid option \<Rightarrow> 'a sched_scheme \<Rightarrow> (tid option \<times> 'a sched_scheme) res" where
  "wakeup waiter s =
     (case waiter of
        None \<Rightarrow> Inl (Panic ''*waiter != NULL'')
      | Some t \<Rightarrow> rbind (thread_unblock t s) (\<lambda>s. Inr (None, s)))"

definition ioq_getchar_locked :: "ioqueue \<Rightarrow> 'a sched_scheme \<Rightarrow> (byte turn \<times> ioqueue \<times> 'a sched_scheme) res" where
  "ioq_getchar_locked q s =
     rbind (ioq_wait (consumer q) s) (\<lambda>(w, s). Inr (Parked OnQueue, q\<lparr>consumer := w\<rparr>, s))"

definition ioq_getchar :: "ioqueue \<Rightarrow> 'a sched_scheme \<Rightarrow> (byte turn \<times> ioqueue \<times> 'a sched_scheme) res" where
  "ioq_getchar q s =
     rbind (kassert (intr s = intr_off) ''intr_off == get_intr_stat()'') (\<lambda>_.
     rbind (ioq_empty q s) (\<lambda>empty.
       if empty then
         rbind (lock_acquire (qlock q) s) (\<lambda>(got, s).
           if got then ioq_getchar_locked q s else Inr (Parked OnLock, q, s))
       else if tail q < length (buf q) then
         let c = buf q ! tail q; q = q\<lparr>tail := next_pos (tail q)\<rparr> in
         rbind (if producer q \<noteq> None then rbind (wakeup (producer q) s) (\<lambda>(w, s). Inr (q\<lparr>producer := w\<rparr>, s))
                else Inr (q, s)) (\<lambda>(q, s).
         Inr (Finished c, q, s))
       else Inl (Fault ''ioq->buf'')))"

definition ioq_getchar_resume :: "ioqueue \<Rightarrow> 'a sched_scheme \<Rightarrow> (byte turn \<times> ioqueue \<times> 'a sched_scheme) res" where
  "ioq_getchar_resume q s = rbind (lock_release (qlock q) s) (ioq_getchar q)"

definition ioq_putchar_locked :: "ioqueue \<Rightarrow> 'a sched_scheme \<Rightarrow> (unit turn \<times> ioqueue \<times> 'a sched_scheme) res" where
  "ioq_putchar_locked q s =
     rbind (ioq_wait (producer q) s) (\<lambda>(w, s). Inr (Parked OnQueue, q\<lparr>producer := w\<rparr>, s))"

definition ioq_putchar :: "byte \<Rightarrow> ioqueue \<Rightarrow> 'a sched_scheme \<Rightarrow> (unit turn \<times> ioqueue \<times> 'a sched_scheme) res" where
  "ioq_putchar byte q s =
     rbind (kassert (intr s = intr_off) ''intr_off == get_intr_stat()'') (\<lambda>_.
     rbind (ioq_full q s) (\<lambda>full.
       if full then
         rbind (lock_acquire (qlock q) s) (\<lambda>(got, s).
           if got then ioq_putchar_locked q s else Inr (Parked OnLock, q, s))
       else if head q < length (buf q) then
         let q = q\<lparr>buf := (buf q)[head q := byte]\<rparr>; q = q\<lparr>head := next_pos (head q)\<rparr> in
         rbind (if consumer q \<noteq> None then rbind (wakeup (consumer q) s) (\<lambda>(w, s). Inr (q\<lparr>consumer := w\<rparr>, s))
                else Inr (q, s)) (\<lambda>(q, s).
         Inr (Finished (), q, s))
       else Inl (Fault ''ioq->buf'')))"

definition ioq_putchar_resume :: "byte \<Rightarrow> ioqueue \<Rightarrow> 'a sched_scheme \<Rightarrow> (unit turn \<times> ioqueue \<times> 'a sched_scheme) res" where
  "ioq_putchar_resume byte q s = rbind (lock_release (qlock q) s) (ioq_putchar byte q)"

definition ioq_length :: "ioqueue \<Rightarrow> nat" where
  "ioq_length q = (if tail q \<le> head q then head q - tail q else bufsize - (tail q - head q))"

section \<open>The queue as a sequence\<close>

definition ioq_ok :: "ioqueue \<Rightarrow> bool" where
  "ioq_ok q \<longleftrightarrow> length (buf q) = bufsize \<and> head q < bufsize \<and> tail q < bufsize"

definition contents :: "ioqueue \<Rightarrow> byte list" where
  "contents q = map (\<lambda>i. buf q ! ((tail q + i) mod bufsize)) [0..<ioq_length q]"

lemma length_contents [simp]: "length (contents q) = ioq_length q"
  by (simp add: contents_def)

lemma ioq_length_less: "ioq_ok q \<Longrightarrow> ioq_length q < bufsize"
  by (auto simp: ioq_ok_def ioq_length_def)

lemma empty_iff: "ioq_ok q \<Longrightarrow> head q = tail q \<longleftrightarrow> contents q = []"
  by (auto simp: ioq_ok_def contents_def ioq_length_def)

lemma full_iff: "ioq_ok q \<Longrightarrow> next_pos (head q) = tail q \<longleftrightarrow> ioq_length q = bufsize - 1"
  by (auto simp: ioq_ok_def ioq_length_def next_pos_def bufsize_def mod_if)

lemma contents_waiters [simp]:
  "contents (q\<lparr>consumer := w\<rparr>) = contents q" "contents (q\<lparr>producer := w\<rparr>) = contents q"
  "ioq_ok (q\<lparr>consumer := w\<rparr>) = ioq_ok q" "ioq_ok (q\<lparr>producer := w\<rparr>) = ioq_ok q"
  "ioq_length (q\<lparr>consumer := w\<rparr>) = ioq_length q" "ioq_length (q\<lparr>producer := w\<rparr>) = ioq_length q"
  by (simp_all add: contents_def ioq_ok_def ioq_length_def)

lemma head_pos: "ioq_ok q \<Longrightarrow> (tail q + ioq_length q) mod bufsize = head q"
  by (auto simp: ioq_ok_def ioq_length_def)

lemma contents_put:
  assumes "ioq_ok q" "ioq_length q < bufsize - 1"
  shows "ioq_ok (q\<lparr>buf := (buf q)[head q := b], head := next_pos (head q)\<rparr>)"
    "contents (q\<lparr>buf := (buf q)[head q := b], head := next_pos (head q)\<rparr>) = contents q @ [b]"
proof -
  let ?q = "q\<lparr>buf := (buf q)[head q := b], head := next_pos (head q)\<rparr>"
  have len: "ioq_length ?q = Suc (ioq_length q)"
    using assms by (auto simp: ioq_ok_def ioq_length_def next_pos_def bufsize_def mod_if)
  show "ioq_ok ?q" using assms(1) by (simp add: ioq_ok_def next_pos_def bufsize_def)
  have other: "(tail q + i) mod bufsize \<noteq> head q" if "i < ioq_length q" for i
  proof (cases "tail q + i < bufsize")
    case True
    then show ?thesis using that by (auto simp: ioq_length_def split: if_splits)
  next
    case False
    moreover have "tail q + i - bufsize < bufsize"
      using that assms(1) ioq_length_less [OF assms(1)] unfolding ioq_ok_def by linarith
    ultimately have "(tail q + i) mod bufsize = tail q + i - bufsize" by (simp add: le_mod_geq)
    with False show ?thesis using that assms(1) by (auto simp: ioq_ok_def ioq_length_def split: if_splits)
  qed
  have "contents ?q = map (\<lambda>i. (buf q)[head q := b] ! ((tail q + i) mod bufsize)) [0..<ioq_length q] @
      [(buf q)[head q := b] ! ((tail q + ioq_length q) mod bufsize)]"
    unfolding contents_def len by simp
  also have "map (\<lambda>i. (buf q)[head q := b] ! ((tail q + i) mod bufsize)) [0..<ioq_length q] = contents q"
    unfolding contents_def
    by (intro map_cong refl nth_list_update_neq) (use other in \<open>auto dest!: not_sym\<close>)
  also have "(buf q)[head q := b] ! ((tail q + ioq_length q) mod bufsize) = b"
    unfolding head_pos [OF assms(1)] using assms(1) by (simp add: ioq_ok_def)
  finally show "contents ?q = contents q @ [b]" .
qed

lemma contents_get:
  assumes "ioq_ok q" "contents q \<noteq> []"
  defines "q' \<equiv> q\<lparr>tail := next_pos (tail q)\<rparr>"
  shows "ioq_ok q'" "contents q = buf q ! tail q # contents q'"
proof -
  have pos: "ioq_length q \<noteq> 0" using assms(2) by (auto simp: contents_def)
  then have len: "ioq_length q = Suc (ioq_length q')"
    using assms(1) by (auto simp: q'_def ioq_ok_def ioq_length_def next_pos_def bufsize_def mod_if)
  show "ioq_ok q'" using assms(1) by (simp add: q'_def ioq_ok_def next_pos_def bufsize_def)
  have step: "(next_pos (tail q) + i) mod bufsize = (tail q + Suc i) mod bufsize" for i
    by (simp add: next_pos_def mod_simps)
  have "contents q = buf q ! (tail q mod bufsize) # map (\<lambda>i. buf q ! ((tail q + Suc i) mod bufsize)) [0..<ioq_length q']"
    unfolding contents_def len
    by (subst upt_conv_Cons, simp) (simp add: map_Suc_upt [symmetric] comp_def q'_def del: upt_Suc map_Suc_upt)
  also have "map (\<lambda>i. buf q ! ((tail q + Suc i) mod bufsize)) [0..<ioq_length q'] = contents q'"
    by (simp add: contents_def q'_def step)
  also have "tail q mod bufsize = tail q" using assms(1) by (simp add: ioq_ok_def)
  finally show "contents q = buf q ! tail q # contents q'" .
qed

section \<open>Queue and scheduler together\<close>

text \<open>
  A recorded waiter is a thread that blocked in \<^verbatim>\<open>ioq_wait\<close>, so it waits for no semaphore. \<open>chan_ok\<close>
  is what every caller of the queue finds: interrupts off and both waiters, if any, asleep.
\<close>

definition waiter_ok :: "'a sched_scheme \<Rightarrow> tid option \<Rightarrow> bool" where
  "waiter_ok s w \<longleftrightarrow> (\<forall>t. w = Some t \<longrightarrow>
     tstat s t = Some TASK_BLOCKED \<and> t \<noteq> idle_thread s \<and> (\<forall>r. General t \<notin> set (waiters (semas s r))))"

definition chan_ok :: "ioqueue \<Rightarrow> 'a sched_scheme \<Rightarrow> bool" where
  "chan_ok q s \<longleftrightarrow> ioq_ok q \<and> sched_wf s \<and> intr s = intr_off \<and>
     waiter_ok s (consumer q) \<and> waiter_ok s (producer q) \<and> (producer q = None \<or> producer q \<noteq> consumer q)"

lemma waiter_ok_None [simp]: "waiter_ok s None"
  by (simp add: waiter_ok_def)

lemma wakeup_spec:
  assumes "sched_wf s" "waiter_ok s (Some t)"
  shows "\<exists>s'. wakeup (Some t) s = Inr (None, s') \<and> sched_wf s' \<and> sched_frame s s' \<and> current s' = current s \<and>
    ready_threads_list s' = General t # ready_threads_list s \<and>
    (\<forall>u. tstat s' u = (if u = t then Some TASK_READY else tstat s u))"
  using thread_unblock_wf [of s t TASK_BLOCKED] assms by (auto simp: wakeup_def waiter_ok_def)

lemma sched_frame_semas: "sched_frame s s' \<Longrightarrow> semas s' = semas s \<and> intr s' = intr s \<and> idle_thread s' = idle_thread s"
  by (simp add: sched_frame_def)

text \<open>The two completing branches; each wakes the partner that waits, and only that one.\<close>

lemma putchar_spec:
  assumes "chan_ok q s" "ioq_length q < bufsize - 1"
  shows "\<exists>q' s'. ioq_putchar b q s = Inr (Finished (), q', s') \<and> chan_ok q' s' \<and>
    contents q' = contents q @ [b] \<and> consumer q' = None \<and> producer q' = producer q \<and> qlock q' = qlock q \<and> sched_frame s s' \<and> current s' = current s \<and>
    ready_threads_list s' = (case consumer q of None \<Rightarrow> [] | Some t \<Rightarrow> [General t]) @ ready_threads_list s"
proof -
  let ?q = "q\<lparr>buf := (buf q)[head q := b], head := next_pos (head q)\<rparr>"
  have ok: "ioq_ok q" "sched_wf s" "intr s = intr_off" "waiter_ok s (consumer q)" "waiter_ok s (producer q)"
    using assms(1) by (auto simp: chan_ok_def)
  note put = contents_put [OF ok(1) assms(2), of b]
  have go: "next_pos (head q) \<noteq> tail q" "head q < length (buf q)"
    using full_iff [OF ok(1)] assms(2) ok(1) by (auto simp: ioq_ok_def)
  show ?thesis
  proof (cases "consumer q")
    case None
    then show ?thesis using go ok(3) put assms(1)
      by (auto simp: ioq_putchar_def ioq_full_def Let_def chan_ok_def)
  next
    case (Some t)
    then obtain s' where s': "wakeup (Some t) s = Inr (None, s')" "sched_wf s'" "sched_frame s s'" "current s' = current s"
        "ready_threads_list s' = General t # ready_threads_list s"
        "\<forall>u. tstat s' u = (if u = t then Some TASK_READY else tstat s u)"
      using wakeup_spec [OF ok(2), of t] ok(4) by auto
    have "waiter_ok s' (producer q)"
      using ok(5) sched_frame_semas [OF s'(3)] s'(6) assms(1) Some
      by (auto simp: chan_ok_def waiter_ok_def)
    then show ?thesis using go ok(3) put s' Some sched_frame_semas [OF s'(3)]
      by (auto simp: ioq_putchar_def ioq_full_def Let_def chan_ok_def)
  qed
qed

lemma getchar_spec:
  assumes "chan_ok q s" "contents q = b # bs"
  shows "\<exists>q' s'. ioq_getchar q s = Inr (Finished b, q', s') \<and> chan_ok q' s' \<and>
    contents q' = bs \<and> producer q' = None \<and> consumer q' = consumer q \<and> qlock q' = qlock q \<and> sched_frame s s' \<and> current s' = current s \<and>
    ready_threads_list s' = (case producer q of None \<Rightarrow> [] | Some t \<Rightarrow> [General t]) @ ready_threads_list s"
proof -
  let ?q = "q\<lparr>tail := next_pos (tail q)\<rparr>"
  have ok: "ioq_ok q" "sched_wf s" "intr s = intr_off" "waiter_ok s (consumer q)" "waiter_ok s (producer q)"
    using assms(1) by (auto simp: chan_ok_def)
  have get: "ioq_ok ?q" "buf q ! tail q = b" "contents ?q = bs"
    using contents_get [OF ok(1)] assms(2) by auto
  have go: "head q \<noteq> tail q" "tail q < length (buf q)"
    using empty_iff [OF ok(1)] assms(2) ok(1) by (auto simp: ioq_ok_def)
  show ?thesis
  proof (cases "producer q")
    case None
    then show ?thesis using go ok(3) get assms(1)
      by (auto simp: ioq_getchar_def ioq_empty_def Let_def chan_ok_def)
  next
    case (Some t)
    then obtain s' where s': "wakeup (Some t) s = Inr (None, s')" "sched_wf s'" "sched_frame s s'" "current s' = current s"
        "ready_threads_list s' = General t # ready_threads_list s"
        "\<forall>u. tstat s' u = (if u = t then Some TASK_READY else tstat s u)"
      using wakeup_spec [OF ok(2), of t] ok(5) by auto
    have "waiter_ok s' (consumer q)"
      using ok(4) sched_frame_semas [OF s'(3)] s'(6) assms(1) Some
      by (auto simp: chan_ok_def waiter_ok_def)
    then show ?thesis using go ok(3) get s' Some sched_frame_semas [OF s'(3)]
      by (auto simp: ioq_getchar_def ioq_empty_def Let_def chan_ok_def)
  qed
qed

section \<open>Bounded channels\<close>

text \<open>
  What the users of the queue rely on (the keyboard, pipes): as long as there is room, bytes go in and
  come out in order. The laws speak of calls that complete without waiting.
\<close>

fun put_all :: "('b \<Rightarrow> 's \<Rightarrow> 's option) \<Rightarrow> 'b list \<Rightarrow> 's \<Rightarrow> 's option" where
  "put_all put [] c = Some c"
| "put_all put (b # bs) c = Option.bind (put b c) (put_all put bs)"

fun get_n :: "('s \<Rightarrow> ('b \<times> 's) option) \<Rightarrow> nat \<Rightarrow> 's \<Rightarrow> ('b list \<times> 's) option" where
  "get_n get 0 c = Some ([], c)"
| "get_n get (Suc n) c = Option.bind (get c) (\<lambda>(b, c). Option.bind (get_n get n c) (\<lambda>(bs, c). Some (b # bs, c)))"

locale byte_channel =
  fixes put :: "'b \<Rightarrow> 's \<Rightarrow> 's option" and get :: "'s \<Rightarrow> ('b \<times> 's) option"
    and content :: "'s \<Rightarrow> 'b list" and capacity :: nat and good :: "'s \<Rightarrow> bool"
  assumes put_law: "good c \<Longrightarrow> length (content c) < capacity \<Longrightarrow>
      \<exists>c'. put b c = Some c' \<and> good c' \<and> content c' = content c @ [b]"
    and get_law: "good c \<Longrightarrow> content c = b # bs \<Longrightarrow> \<exists>c'. get c = Some (b, c') \<and> good c' \<and> content c' = bs"
begin

lemma put_all_fits:
  "good c \<Longrightarrow> length (content c) + length bs \<le> capacity \<Longrightarrow>
   \<exists>c'. put_all put bs c = Some c' \<and> good c' \<and> content c' = content c @ bs"
proof (induction bs arbitrary: c)
  case (Cons b bs)
  obtain c1 where c1: "put b c = Some c1" "good c1" "content c1 = content c @ [b]"
    using put_law [of c b] Cons.prems by auto
  show ?case using Cons.IH [OF c1(2)] Cons.prems c1 by auto
qed simp

lemma get_n_there:
  "good c \<Longrightarrow> n \<le> length (content c) \<Longrightarrow>
   \<exists>c'. get_n get n c = Some (take n (content c), c') \<and> good c' \<and> content c' = drop n (content c)"
proof (induction n arbitrary: c)
  case (Suc n)
  obtain b bs where bs: "content c = b # bs" using Suc.prems(2) by (cases "content c") auto
  obtain c1 where c1: "get c = Some (b, c1)" "good c1" "content c1 = bs"
    using get_law [OF Suc.prems(1) bs] by blast
  show ?case using Suc.IH [OF c1(2)] Suc.prems c1 bs by auto
qed simp

lemma transfer:
  assumes "good c" "length (content c) + length bs \<le> capacity"
  shows "\<exists>c' c''. put_all put bs c = Some c' \<and>
    get_n get (length (content c) + length bs) c' = Some (content c @ bs, c'') \<and> good c'' \<and> content c'' = []"
proof -
  obtain c' where c': "put_all put bs c = Some c'" "good c'" "content c' = content c @ bs"
    using put_all_fits [OF assms] by blast
  then show ?thesis using get_n_there [OF c'(2), of "length (content c) + length bs"] by auto
qed

end

definition chan_put :: "byte \<Rightarrow> ioqueue \<times> 'a sched_scheme \<Rightarrow> (ioqueue \<times> 'a sched_scheme) option" where
  "chan_put b = (\<lambda>(q, s). case ioq_putchar b q s of Inr (Finished _, q, s) \<Rightarrow> Some (q, s) | _ \<Rightarrow> None)"

definition chan_get :: "ioqueue \<times> 'a sched_scheme \<Rightarrow> (byte \<times> ioqueue \<times> 'a sched_scheme) option" where
  "chan_get = (\<lambda>(q, s). case ioq_getchar q s of Inr (Finished b, q, s) \<Rightarrow> Some (b, q, s) | _ \<Rightarrow> None)"

interpretation ioq: byte_channel chan_put chan_get "\<lambda>(q, s). contents q" "bufsize - 1" "\<lambda>(q, s). chan_ok q s"
proof (unfold_locales, goal_cases)
  case (1 c b)
  then show ?case using putchar_spec [of "fst c" "snd c" b] by (auto simp: chan_put_def split: prod.splits)
next
  case (2 c b bs)
  then show ?case using getchar_spec [of "fst c" "snd c" b bs] by (auto simp: chan_get_def split: prod.splits)
qed

section \<open>Waiting\<close>

text \<open>The lock of a queue nobody waits for, and the lock as the thread in \<^verbatim>\<open>ioq_wait\<close> holds it.\<close>

definition lock_free :: "lock_id \<Rightarrow> 'a sched_scheme \<Rightarrow> bool" where
  "lock_free l s \<longleftrightarrow> locks s l = \<lparr>holder = None, holder_repeat_nr = 0\<rparr> \<and>
     semas s (LockSema l) = \<lparr>sval = 1, waiters = []\<rparr>"

definition lock_held :: "lock_id \<Rightarrow> tid \<Rightarrow> 'a sched_scheme \<Rightarrow> bool" where
  "lock_held l t s \<longleftrightarrow> locks s l = \<lparr>holder = Some t, holder_repeat_nr = 1\<rparr> \<and>
     semas s (LockSema l) = \<lparr>sval = 0, waiters = []\<rparr>"

lemma sched_frame_locks: "sched_frame s s' \<Longrightarrow> locks s' = locks s"
  by (simp add: sched_frame_def)

lemma lock_held_frame: "lock_held l t s \<Longrightarrow> sched_frame s s' \<Longrightarrow> lock_held l t s'"
  by (simp add: lock_held_def sched_frame_locks sched_frame_semas)

lemma head_or_idle_stat:
  assumes "sched_wf s" "tstat s t = Some TASK_BLOCKED" "t \<noteq> idle_thread s"
  shows "head_or_idle s \<noteq> t"
proof -
  have "\<And>u us. ready_threads_list s = General u # us \<Longrightarrow> tstat s u = Some TASK_READY"
    using ready_okD [OF sched_coreD(1) [OF sched_wfD(1) [OF assms(1)]]] by (metis list.set_intros(1))
  with assms(2,3) show ?thesis by (auto simp: head_or_idle_def split: list.split tag.split)
qed

lemma locked_parks:
  assumes "chan_ok q s" "consumer q = None" "current s \<noteq> idle_thread s"
  shows "\<exists>s'. ioq_getchar_locked q s = Inr (Parked OnQueue, q\<lparr>consumer := Some (current s)\<rparr>, s') \<and>
    chan_ok (q\<lparr>consumer := Some (current s)\<rparr>) s' \<and> sched_frame s s' \<and> current s' = head_or_idle s \<and>
    ready_threads_list s' = tl (ready_threads_list s) \<and> tstat s' (current s) = Some TASK_BLOCKED"
proof -
  have ok: "sched_wf s" "intr s = intr_off" "waiter_ok s (producer q)" using assms(1) by (auto simp: chan_ok_def)
  obtain s' where s': "thread_block TASK_BLOCKED s = Inr (intr s, s')" "sched_wf s'"
      "sched_frame (s\<lparr>intr := intr_off\<rparr>) s'" "current s' = head_or_idle s"
      "ready_threads_list s' = tl (ready_threads_list s)"
      "\<forall>t. tstat s' t = (if t = head_or_idle s then Some TASK_RUNNING
         else if t = current s then Some TASK_BLOCKED else tstat s t)"
    using thread_block_running [OF ok(1), of TASK_BLOCKED] by auto
  have frame: "sched_frame s s'" using s'(3) ok(2) by (metis (full_types) sched.surjective sched.update_convs(8))
  note run = sched_wfD(2) [OF ok(1)] and fr = sched_frame_semas [OF frame]
  have other: "head_or_idle s \<noteq> current s"
    using ready_okD [OF sched_coreD(1) [OF sched_wfD(1) [OF ok(1)]], of "current s"] run assms(3)
    by (auto simp: head_or_idle_def split: list.split tag.split)
  have "waiter_ok s' (Some (current s))"
    using s'(6) other assms(3) running_not_waiting [OF ok(1)] fr by (auto simp: waiter_ok_def)
  moreover have "waiter_ok s' (producer q)"
    using ok(3) s'(6) run head_or_idle_stat [OF ok(1)] fr by (auto simp: waiter_ok_def)
  moreover have "producer q \<noteq> Some (current s)" using ok(3) run by (auto simp: waiter_ok_def)
  moreover have "ioq_getchar_locked q s = Inr (Parked OnQueue, q\<lparr>consumer := Some (current s)\<rparr>, s')"
    using s'(1) assms(2) by (simp add: ioq_getchar_locked_def ioq_wait_def running_thread_def)
  ultimately show ?thesis
    using s' other assms(1) ok(2) fr frame by (intro exI [of _ s']) (simp add: chan_ok_def)
qed

lemma acquire_free:
  assumes "chan_ok q s" "lock_free l s"
  shows "\<exists>s'. lock_acquire l s = Inr (True, s') \<and> chan_ok q s' \<and> lock_held l (current s) s' \<and>
    current s' = current s \<and> ready_threads_list s' = ready_threads_list s \<and> tstat s' = tstat s \<and>
    idle_thread s' = idle_thread s"
proof -
  let ?s = "put_lock l \<lparr>holder = Some (current s), holder_repeat_nr = 1\<rparr>
     (put_sema (LockSema l) \<lparr>sval = 0, waiters = []\<rparr> s)"
  have eq: "lock_acquire l s = Inr (True, ?s)" using lock_acquire_free [of s l] assms(2) by (simp add: lock_free_def)
  have "sched_wf (put_sema (LockSema l) \<lparr>sval = 0, waiters = []\<rparr> s)"
    using sched_wf_sval [of s] assms by (simp add: chan_ok_def lock_free_def)
  moreover have "ready_threads_list ?s = ready_threads_list s" by (simp add: put_lock_def)
  ultimately show ?thesis
    using eq assms by (intro exI [of _ ?s]) (auto simp: chan_ok_def waiter_ok_def lock_held_def lock_free_def split: if_splits)
qed

lemma release_held:
  assumes "chan_ok q s" "lock_held l (current s) s"
  shows "\<exists>s'. lock_release l s = Inr s' \<and> chan_ok q s' \<and> lock_free l s' \<and> current s' = current s \<and>
    ready_threads_list s' = ready_threads_list s"
proof -
  let ?s = "put_lock l \<lparr>holder = None, holder_repeat_nr = 0\<rparr> s"
  let ?s' = "(put_sema (LockSema l) \<lparr>sval = 1, waiters = []\<rparr> ?s)"
  have w: "semas ?s (LockSema l) = \<lparr>sval = 0, waiters = []\<rparr>" using assms(2) by (simp add: lock_held_def)
  have "sema_up (LockSema l) ?s = Inr ?s'"
    using sema_up_empty [of ?s "LockSema l"] w assms(1) by (simp add: chan_ok_def put_sema_def)
  moreover have "lock_release l s = sema_up (LockSema l) ?s"
    using assms(2) by (simp add: lock_release_def running_thread_def lock_held_def Let_def)
  moreover have "sched_wf ?s'" using sched_wf_sval [of ?s] w assms(1) by (simp add: chan_ok_def)
  moreover have "ready_threads_list ?s' = ready_threads_list s" by (simp add: put_lock_def)
  ultimately show ?thesis
    using assms by (intro exI [of _ ?s']) (auto simp: chan_ok_def waiter_ok_def lock_held_def lock_free_def split: if_splits)
qed

lemma putchar_held:
  assumes "chan_ok q s" "ioq_length q < bufsize - 1" "lock_held l t s"
  shows "\<exists>q' s'. ioq_putchar b q s = Inr (Finished (), q', s') \<and> chan_ok q' s' \<and> lock_held l t s' \<and>
    contents q' = contents q @ [b] \<and> consumer q' = None \<and> producer q' = producer q \<and> qlock q' = qlock q \<and>
    ready_threads_list s' = (case consumer q of None \<Rightarrow> [] | Some t \<Rightarrow> [General t]) @ ready_threads_list s"
  using putchar_spec [OF assms(1,2), of b] lock_held_frame [OF assms(3)] by auto

text \<open>A reader that finds nothing, then the byte, then the reader again.\<close>

lemma getchar_parks:
  assumes "chan_ok q s" "contents q = []" "consumer q = None" "lock_free (qlock q) s" "current s \<noteq> idle_thread s"
  shows "\<exists>s'. ioq_getchar q s = Inr (Parked OnQueue, q\<lparr>consumer := Some (current s)\<rparr>, s') \<and>
    chan_ok (q\<lparr>consumer := Some (current s)\<rparr>) s' \<and> lock_held (qlock q) (current s) s' \<and>
    current s' = head_or_idle s \<and> tstat s' (current s) = Some TASK_BLOCKED"
proof -
  obtain s1 where s1: "lock_acquire (qlock q) s = Inr (True, s1)" "chan_ok q s1"
      "lock_held (qlock q) (current s) s1" "current s1 = current s"
      "ready_threads_list s1 = ready_threads_list s" "idle_thread s1 = idle_thread s"
    using acquire_free [OF assms(1,4)] by blast
  obtain s2 where s2: "ioq_getchar_locked q s1 = Inr (Parked OnQueue, q\<lparr>consumer := Some (current s)\<rparr>, s2)"
      "chan_ok (q\<lparr>consumer := Some (current s)\<rparr>) s2" "sched_frame s1 s2" "current s2 = head_or_idle s1"
      "tstat s2 (current s) = Some TASK_BLOCKED"
    using locked_parks [OF s1(2) assms(3)] assms(5) s1(4,6) by auto
  have "head q = tail q" using empty_iff [of q] assms(1,2) by (simp add: chan_ok_def)
  then have "ioq_getchar q s = Inr (Parked OnQueue, q\<lparr>consumer := Some (current s)\<rparr>, s2)"
    using s1(1) s2(1) assms(1) by (simp add: ioq_getchar_def ioq_empty_def chan_ok_def)
  moreover have "head_or_idle s1 = head_or_idle s" using s1(5,6) by (simp add: head_or_idle_def split: list.split tag.split)
  ultimately show ?thesis using s2 lock_held_frame [OF s1(3) s2(3)] by auto
qed

text \<open>One more byte than there is room parks the writer.\<close>

lemma put_locked_parks:
  assumes "chan_ok q s" "producer q = None" "consumer q = None" "current s \<noteq> idle_thread s"
  shows "\<exists>s'. ioq_putchar_locked q s = Inr (Parked OnQueue, q\<lparr>producer := Some (current s)\<rparr>, s') \<and>
    current s' = head_or_idle s \<and> tstat s' (current s) = Some TASK_BLOCKED"
proof -
  have ok: "sched_wf s" "intr s = intr_off" using assms(1) by (auto simp: chan_ok_def)
  obtain s' where s': "ioq_getchar_locked q s = Inr (Parked OnQueue, q\<lparr>consumer := Some (current s)\<rparr>, s')"
      "current s' = head_or_idle s" "tstat s' (current s) = Some TASK_BLOCKED"
    using locked_parks [OF assms(1,3,4)] by auto
  then show ?thesis using assms(2,3)
    by (auto simp: ioq_getchar_locked_def ioq_putchar_locked_def ioq_wait_def running_thread_def rbind_eq_Inr split: prod.splits)
qed

lemma putchar_parks:
  assumes "chan_ok q s" "ioq_length q = bufsize - 1" "producer q = None" "consumer q = None" "lock_free (qlock q) s"
    and "current s \<noteq> idle_thread s"
  shows "\<exists>s'. ioq_putchar b q s = Inr (Parked OnQueue, q\<lparr>producer := Some (current s)\<rparr>, s') \<and>
    tstat s' (current s) = Some TASK_BLOCKED"
proof -
  obtain s1 where s1: "lock_acquire (qlock q) s = Inr (True, s1)" "chan_ok q s1" "current s1 = current s" "idle_thread s1 = idle_thread s"
    using acquire_free [OF assms(1,5)] by blast
  obtain s2 where s2: "ioq_putchar_locked q s1 = Inr (Parked OnQueue, q\<lparr>producer := Some (current s)\<rparr>, s2)"
      "tstat s2 (current s) = Some TASK_BLOCKED"
    using put_locked_parks [OF s1(2) assms(3,4)] assms(6) s1(3,4) by auto
  have "next_pos (head q) = tail q" using full_iff [of q] assms(1,2) by (simp add: chan_ok_def)
  then show ?thesis using s1(1) s2 assms(1) by (auto simp: ioq_putchar_def ioq_full_def chan_ok_def)
qed

lemma put_all_frame:
  "chan_ok q s \<Longrightarrow> put_all chan_put bs (q, s) = Some (q1, s1) \<Longrightarrow> ioq_length q + length bs \<le> bufsize - 1 \<Longrightarrow> consumer q = None \<Longrightarrow>
   chan_ok q1 s1 \<and> contents q1 = contents q @ bs \<and> producer q1 = producer q \<and> consumer q1 = None \<and> qlock q1 = qlock q \<and>
   sched_frame s s1 \<and> current s1 = current s"
proof (induction bs arbitrary: q s)
  case (Cons b bs)
  obtain q' s' where 1: "ioq_putchar b q s = Inr (Finished (), q', s')" "chan_ok q' s'" "contents q' = contents q @ [b]"
      "consumer q' = None" "producer q' = producer q" "qlock q' = qlock q" "sched_frame s s'" "current s' = current s"
    using putchar_spec [OF Cons.prems(1), of b] Cons.prems(3) by auto
  have put: "chan_put b (q, s) = Some (q', s')" using 1(1) by (simp add: chan_put_def)
  have "ioq_length q' = Suc (ioq_length q)" using arg_cong [OF 1(3), of length] by simp
  moreover have "put_all chan_put bs (q', s') = Some (q1, s1)" using Cons.prems(2) put by simp
  ultimately show ?case
    using Cons.IH [OF 1(2) _ _ 1(4)] Cons.prems(3,4) 1(3-8) sched_frame_trans [OF 1(7)] by simp
qed (simp add: sched_frame_refl)

lemma getchar_resumes:
  assumes "chan_ok q s" "contents q = b # bs" "lock_held (qlock q) (current s) s"
  shows "\<exists>q' s'. ioq_getchar_resume q s = Inr (Finished b, q', s') \<and> chan_ok q' s' \<and> contents q' = bs"
proof -
  obtain s1 where s1: "lock_release (qlock q) s = Inr s1" "chan_ok q s1"
    using release_held [OF assms(1,3)] by blast
  show ?thesis using getchar_spec [OF s1(2) assms(2)] s1(1) by (auto simp: ioq_getchar_resume_def)
qed

section \<open>Properties\<close>

definition demo_queue :: "byte \<Rightarrow> ioqueue" where
  "demo_queue b = \<lparr>qlock = 0, producer = None, consumer = None, buf = replicate 2048 b, head = 2, tail = 2\<rparr>"

definition demo_off :: sched where "demo_off = demo_sched\<lparr>intr := intr_off\<rparr>"

definition demo_byte :: "byte \<Rightarrow> ioqueue" where
  "demo_byte b = (demo_queue b)\<lparr>head := 3\<rparr>"

text \<open>2044 bytes inside, the three that fit wrap around the end of the buffer.\<close>

definition demo_many :: "byte \<Rightarrow> ioqueue" where
  "demo_many b = (demo_queue b)\<lparr>head := 2047, tail := 3\<rparr>"

lemma demo_off_other: "current demo_off \<noteq> idle_thread demo_off"
  by (simp add: demo_off_def demo_sched_def)

lemma demo_chan: "chan_ok (demo_queue b) demo_off" "contents (demo_queue b) = []"
    "chan_ok (demo_byte b) demo_off" "ioq_length (demo_byte b) = 1"
    "consumer (demo_queue b) = None"
    "chan_ok (demo_many b) demo_off" "ioq_length (demo_many b) = 2044"
    "consumer (demo_many b) = None" "producer (demo_many b) = None"
  using demo_sched_wf
  by (simp_all add: chan_ok_def ioq_ok_def demo_queue_def demo_byte_def demo_many_def demo_off_def bufsize_def contents_def
      ioq_length_def)

lemma demo_many_lock: "lock_free (qlock (demo_many b)) demo_off"
  by (simp add: demo_many_def demo_queue_def lock_free_def demo_off_def demo_sched_def)

text \<open>
  C18. The character queue is a bounded first-in first-out channel of 2047 bytes: whatever fits is
  accepted without waiting, and reading as many bytes as are inside returns exactly the bytes that
  were inside followed by the new ones, in order, without waiting, and leaves the queue empty. One
  byte more is not accepted: once 2047 bytes are inside, \<^verbatim>\<open>ioq_putchar\<close> stores nothing, records the
  calling thread as the waiting writer and blocks it (for a queue nobody waits for, called by a thread
  other than the idle thread).
\<close>
theorem ioqueue_is_fifo:
  assumes "chan_ok q s" "ioq_length q + length bs \<le> 2047"
  shows "\<exists>q1 s1 q2 s2. put_all chan_put bs (q, s) = Some (q1, s1) \<and>
    get_n chan_get (ioq_length q + length bs) (q1, s1) = Some (contents q @ bs, q2, s2) \<and>
    chan_ok q2 s2 \<and> contents q2 = [] \<and>
    (ioq_length q + length bs = 2047 \<longrightarrow> consumer q = None \<longrightarrow> producer q = None \<longrightarrow> lock_free (qlock q) s \<longrightarrow>
     current s \<noteq> idle_thread s \<longrightarrow>
     (\<forall>b. \<exists>q3 s3. ioq_putchar b q1 s1 = Inr (Parked OnQueue, q3, s3) \<and> contents q3 = contents q @ bs \<and>
        buf q3 = buf q1 \<and> producer q3 = Some (current s) \<and> tstat s3 (current s) = Some TASK_BLOCKED))"
proof -
  have fits: "ioq_length q + length bs \<le> bufsize - 1" using assms(2) by (simp add: bufsize_def)
  obtain q1 s1 q2 s2 where run: "put_all chan_put bs (q, s) = Some (q1, s1)"
      "get_n chan_get (ioq_length q + length bs) (q1, s1) = Some (contents q @ bs, q2, s2)"
      "chan_ok q2 s2" "contents q2 = []"
    using ioq.transfer [of "(q, s)" bs] assms(1) fits by auto
  have "\<exists>q3 s3. ioq_putchar b q1 s1 = Inr (Parked OnQueue, q3, s3) \<and> contents q3 = contents q @ bs \<and>
      buf q3 = buf q1 \<and> producer q3 = Some (current s) \<and> tstat s3 (current s) = Some TASK_BLOCKED"
    if "ioq_length q + length bs = 2047" "consumer q = None" "producer q = None" "lock_free (qlock q) s"
      "current s \<noteq> idle_thread s" for b
  proof -
    have q1: "chan_ok q1 s1" "contents q1 = contents q @ bs" "producer q1 = None" "consumer q1 = None"
        "qlock q1 = qlock q" "sched_frame s s1" "current s1 = current s"
      using put_all_frame [OF assms(1) run(1) fits that(2)] that(3) by auto
    have full: "ioq_length q1 = bufsize - 1" using arg_cong [OF q1(2), of length] that(1) by (simp add: bufsize_def)
    have "lock_free (qlock q1) s1" "current s1 \<noteq> idle_thread s1"
      using that(4,5) q1(5-7) by (auto simp: lock_free_def sched_frame_def)
    then show ?thesis using putchar_parks [OF q1(1) full q1(3,4), of b] q1(2,7) by auto
  qed
  with run show ?thesis by blast
qed

theorem ioqueue_is_fifo_witness:
  "\<exists>q1 s1 q2 s2 q3 s3. put_all chan_put [1, 2, 3] (demo_many 7, demo_off) = Some (q1, s1) \<and>
    get_n chan_get (ioq_length (demo_many 7) + length [1, 2, 3 :: byte]) (q1, s1) =
      Some (contents (demo_many 7) @ [1, 2, 3], q2, s2) \<and> chan_ok q2 s2 \<and> contents q2 = [] \<and>
    ioq_putchar 4 q1 s1 = Inr (Parked OnQueue, q3, s3) \<and> contents q3 = contents (demo_many 7) @ [1, 2, 3] \<and>
    tstat s3 (current demo_off) = Some TASK_BLOCKED"
proof -
  have n: "ioq_length (demo_many 7) + length [1, 2, 3 :: byte] = 2047" by (simp add: demo_chan)
  obtain q1 s1 q2 s2 where run: "put_all chan_put [1, 2, 3] (demo_many 7, demo_off) = Some (q1, s1)"
      "get_n chan_get (ioq_length (demo_many 7) + length [1, 2, 3 :: byte]) (q1, s1) =
        Some (contents (demo_many 7) @ [1, 2, 3], q2, s2)" "chan_ok q2 s2" "contents q2 = []"
      "\<forall>b. \<exists>q3 s3. ioq_putchar b q1 s1 = Inr (Parked OnQueue, q3, s3) \<and>
        contents q3 = contents (demo_many 7) @ [1, 2, 3] \<and> buf q3 = buf q1 \<and> producer q3 = Some (current demo_off) \<and>
        tstat s3 (current demo_off) = Some TASK_BLOCKED"
    using ioqueue_is_fifo [OF demo_chan(6) eq_imp_le [OF n]] n demo_chan(8,9) [of 7] demo_many_lock [of 7] demo_off_other
    by (elim exE conjE) (rule that, assumption+, elim impE, assumption+)
  from spec [OF run(5), of 4] show ?thesis using run(1-4) by blast
qed

text \<open>
  C19. A reader of an empty queue sleeps and is served: \<^verbatim>\<open>ioq_getchar\<close> parks the calling thread; the
  next \<^verbatim>\<open>ioq_putchar\<close> puts it at the head of the ready list; when the writer gives up the processor
  the reader runs, releases the queue's lock and returns exactly that byte. No assertion fails on the
  way.
\<close>
theorem reader_gets_byte:
  assumes "chan_ok q s" "contents q = []" "consumer q = None" "producer q = None"
    and "lock_free (qlock q) s" "current s \<noteq> idle_thread s"
  shows "\<exists>q1 s1 q2 s2 i s3 q3 s4. ioq_getchar q s = Inr (Parked OnQueue, q1, s1) \<and>
    current s1 = head_or_idle s \<and> ioq_putchar b q1 s1 = Inr (Finished (), q2, s2) \<and>
    thread_yield s2 = Inr (i, s3) \<and> current s3 = current s \<and>
    ioq_getchar_resume q2 s3 = Inr (Finished b, q3, s4) \<and> chan_ok q3 s4 \<and> contents q3 = []"
proof -
  obtain s1 where s1: "ioq_getchar q s = Inr (Parked OnQueue, q\<lparr>consumer := Some (current s)\<rparr>, s1)"
      "chan_ok (q\<lparr>consumer := Some (current s)\<rparr>) s1" "lock_held (qlock q) (current s) s1"
      "current s1 = head_or_idle s"
    using getchar_parks [OF assms(1,2,3,5,6)] by blast
  have room: "ioq_length (q\<lparr>consumer := Some (current s)\<rparr>) < bufsize - 1"
    using length_contents [of q] assms(2) by (simp add: bufsize_def)
  obtain q2 s2 where s2: "ioq_putchar b (q\<lparr>consumer := Some (current s)\<rparr>) s1 = Inr (Finished (), q2, s2)"
      "chan_ok q2 s2" "contents q2 = [b]" "consumer q2 = None" "producer q2 = None" "qlock q2 = qlock q"
      "ready_threads_list s2 = General (current s) # ready_threads_list s1" "lock_held (qlock q) (current s) s2"
    using putchar_held [OF s1(2) room s1(3), of b] assms(2,4) by auto
  have ok: "sched_wf s2" "intr s2 = intr_off" "ioq_ok q2" using s2(2) by (auto simp: chan_ok_def)
  obtain s3 where s3: "thread_yield s2 = Inr (intr s2, s3)" "sched_wf s3" "sched_frame (s2\<lparr>intr := intr_off\<rparr>) s3"
      "General (current s3) # ready_threads_list s3 = ready_threads_list s2 @ [General (current s2)]"
    using thread_yield_spec [OF ok(1)] by blast
  have "current s3 = current s" using s3(4) s2(7) by simp
  moreover have "chan_ok q2 s3"
    using s3(2) sched_frame_semas [OF s3(3)] ok s2(4,5) by (simp add: chan_ok_def)
  moreover have "lock_held (qlock q2) (current s) s3"
    using lock_held_frame [OF _ s3(3)] s2(6,8) by (simp add: lock_held_def)
  ultimately show ?thesis
    using getchar_resumes [of q2 s3 b "[]"] s1(1,4) s2(1,3) s3(1) by metis
qed

theorem reader_gets_byte_witness:
  "\<exists>q1 s1 q2 s2 i s3 q3 s4. ioq_getchar (demo_queue 0) demo_off = Inr (Parked OnQueue, q1, s1) \<and>
    current s1 = head_or_idle demo_off \<and> ioq_putchar 65 q1 s1 = Inr (Finished (), q2, s2) \<and>
    thread_yield s2 = Inr (i, s3) \<and> current s3 = current demo_off \<and>
    ioq_getchar_resume q2 s3 = Inr (Finished 65, q3, s4) \<and> chan_ok q3 s4 \<and> contents q3 = []"
  by (rule reader_gets_byte [OF demo_chan(1,2)])
    (simp_all add: demo_queue_def demo_off_def lock_free_def demo_sched_def)

text \<open>
  A byte can be slept through. \<^verbatim>\<open>ioq_getchar\<close> tests for emptiness before it takes the lock and not
  again before it sleeps: a second reader that had to wait for the lock goes to sleep in \<^verbatim>\<open>ioq_wait\<close>
  even though bytes are queued, and nothing but a further \<^verbatim>\<open>ioq_putchar\<close> will wake it.
\<close>
theorem reader_sleeps_on_data:
  assumes "chan_ok q s" "consumer q = None" "current s \<noteq> idle_thread s" "contents q \<noteq> []"
  shows "\<exists>q' s'. ioq_getchar_locked q s = Inr (Parked OnQueue, q', s') \<and>
    tstat s' (current s) = Some TASK_BLOCKED \<and> consumer q' = Some (current s) \<and>
    contents q' = contents q \<and> contents q' \<noteq> []"
  using locked_parks [OF assms(1,2,3)] assms(4) by auto

theorem reader_sleeps_on_data_witness:
  "\<exists>q' s'. ioq_getchar_locked (demo_byte 9) demo_off = Inr (Parked OnQueue, q', s') \<and>
    tstat s' (current demo_off) = Some TASK_BLOCKED \<and> consumer q' = Some (current demo_off) \<and>
    contents q' = contents (demo_byte 9) \<and> contents q' \<noteq> []"
  by (rule reader_sleeps_on_data [OF demo_chan(3)])
    (use demo_chan(4) length_contents [of "demo_byte 9"] in
      \<open>auto simp: demo_byte_def demo_queue_def demo_off_def demo_sched_def simp del: length_contents\<close>)

end
