(* ===== verification/Inode.thy ===== *)
theory Inode
  imports Bitmap
begin

text \<open>
  Inodes (\<^verbatim>\<open>fs/inode.c\<close>) over the sectors of a partition. \<open>sectors\<close> is what \<^verbatim>\<open>ide_read\<close> and
  \<^verbatim>\<open>ide_write\<close> transfer (theory \<open>Disk\<close> shows that they transfer exactly the sectors asked for);
  structures are stored in them byte by byte, little-endian, with the layout of the C compiler.
  The functions run without a second thread inside the file system: \<^verbatim>\<open>inode_lock\<close> is kept as its
  repeat count, zero when the lock is free. \<^verbatim>\<open>sys_malloc\<close> (theory \<open>Arena\<close>) appears by its answers:
  \<open>buf_ok n\<close> says whether a buffer of \<open>n\<close> bytes can be had, \<open>slots\<close> lists the addresses the next
  calls for an inode return.
\<close>

section \<open>Bytes and words\<close>

fun le :: "nat \<Rightarrow> 'a::len word \<Rightarrow> byte list" where
  "le 0 w = []"
| "le (Suc n) w = ucast w # le n (drop_bit 8 w)"

fun unle :: "byte list \<Rightarrow> 'a::len word" where
  "unle [] = 0"
| "unle (b # bs) = ucast b OR push_bit 8 (unle bs)"

fun words :: "nat \<Rightarrow> byte list \<Rightarrow> u32 list" where
  "words 0 bs = []"
| "words (Suc n) bs = unle (take 4 bs) # words n (drop 4 bs)"

section \<open>State\<close>

definition MAX_FILES_PER_PART :: nat where "MAX_FILES_PER_PART = 4096"
definition BLOCK_SIZE :: nat where "BLOCK_SIZE = 512"
definition BITS_PER_SECTOR :: nat where "BITS_PER_SECTOR = 4096"
definition MAX_FILE_BLOCKS_CNT :: nat where "MAX_FILE_BLOCKS_CNT = 140"
definition MAX_FILE_SIZE :: u64 where "MAX_FILE_SIZE = 71680"
definition sizeof_inode :: nat where "sizeof_inode = 160"

definition FT_UNKNOWN :: u32 where "FT_UNKNOWN = 0"
definition FT_REGULAR :: u32 where "FT_REGULAR = 1"
definition FT_DIRECTORY :: u32 where "FT_DIRECTORY = 2"

record inode =
  i_no :: u64
  i_size :: u64
  i_open_cnts :: u64
  f_type :: u32
  inode_lock :: nat
  i_sectors :: "u32 list"

record super_block =
  magic :: u64
  sec_cnt :: u32
  lba_base :: u32
  inode_cnt :: u64
  block_bitmap_lba :: u32
  block_bitmap_sects :: u32
  inode_bitmap_lba :: u32
  inode_bitmap_sects :: u32
  inode_table_lba :: u32
  inode_table_sects :: u32
  data_start_lba :: u32
  root_inode_no :: u64
  dir_entry_size :: u64

record fs =
  sectors :: "u32 \<Rightarrow> byte list"
  sb :: super_block
  block_bitmap :: bitmap
  inode_bitmap :: bitmap
  open_inodes :: "u64 list"
  inodes :: "u64 \<rightharpoonup> inode"
  root_dir_inode :: u64
  slots :: "u64 list"
  buf_ok :: "nat \<Rightarrow> bool"

definition DIV_ROUND_UP :: "u64 \<Rightarrow> u64 \<Rightarrow> u64" where
  "DIV_ROUND_UP x step = (x + step - 1) div step"

text \<open>Whole sectors from and to a buffer.\<close>

definition ide_get :: "u32 \<Rightarrow> nat \<Rightarrow> fs \<Rightarrow> byte list" where
  "ide_get lba cnt s = concat (map (\<lambda>i. sectors s (lba + of_nat i)) [0..<cnt])"

fun ide_put :: "u32 \<Rightarrow> nat \<Rightarrow> byte list \<Rightarrow> fs \<Rightarrow> fs" where
  "ide_put lba 0 data s = s"
| "ide_put lba (Suc n) data s =
     ide_put (lba + 1) n (drop BLOCK_SIZE data) (s\<lparr>sectors := (sectors s)(lba := take BLOCK_SIZE data)\<rparr>)"

definition the_inode :: "u64 \<Rightarrow> fs \<Rightarrow> inode res" where
  "the_inode a s = (case inodes s a of None \<Rightarrow> Inl (Fault ''inode'') | Some i \<Rightarrow> Inr i)"

definition put_inode :: "u64 \<Rightarrow> inode \<Rightarrow> fs \<Rightarrow> fs" where
  "put_inode a i s = s\<lparr>inodes := (inodes s)(a \<mapsto> i)\<rparr>"

text \<open>
  The image of \<^verbatim>\<open>struct inode\<close> in the inode table. The bytes of the lock and of the list link hold
  addresses; they are overwritten when the inode is opened, so zeros stand for them.
\<close>

definition encode_inode :: "inode \<Rightarrow> byte list" where
  "encode_inode i = le 8 (i_no i) @ le 8 (i_size i) @ le 8 (i_open_cnts i) @ le 4 (f_type i) @
     replicate 60 0 @ concat (map (le 4) (i_sectors i)) @ replicate 20 0"

definition decode_inode :: "byte list \<Rightarrow> inode" where
  "decode_inode bs = \<lparr>i_no = unle (take 8 bs), i_size = unle (take 8 (drop 8 bs)),
     i_open_cnts = unle (take 8 (drop 16 bs)), f_type = unle (take 4 (drop 24 bs)),
     inode_lock = 0, i_sectors = words 13 (drop 88 bs)\<rparr>"

section \<open>The inode table\<close>

definition inode_locate :: "u64 \<Rightarrow> fs \<Rightarrow> (u32 \<times> nat) res" where
  "inode_locate inode_no s =
     rbind (kassert (inode_no < of_nat MAX_FILES_PER_PART) ''inode_no < MAX_FILES_PER_PART'') (\<lambda>_.
     let off_size = unat inode_no * sizeof_inode in
     Inr (inode_table_lba (sb s) + of_nat (off_size div BLOCK_SIZE), off_size mod BLOCK_SIZE))"

definition splice :: "nat \<Rightarrow> byte list \<Rightarrow> byte list \<Rightarrow> byte list" where
  "splice off new old = take off old @ new @ drop (off + length new) old"

definition inode_sync :: "inode \<Rightarrow> fs \<Rightarrow> fs res" where
  "inode_sync i s =
     rbind (inode_locate (i_no i) s) (\<lambda>(lba, off).
     rbind (kassert (buf_ok s 1024) ''inode_sync: io_buf==NULL'') (\<lambda>_.
     Inr (ide_put lba 2 (splice off (encode_inode i) (ide_get lba 2 s)) s)))"

text \<open>\<^verbatim>\<open>find_inode\<close> with \<^verbatim>\<open>list_traversal\<close>: the first open inode with the number.\<close>

fun find_inode :: "u64 \<Rightarrow> u64 list \<Rightarrow> fs \<Rightarrow> u64 option res" where
  "find_inode n [] s = Inr None"
| "find_inode n (a # as) s = rbind (the_inode a s) (\<lambda>i. if i_no i = n then Inr (Some a) else find_inode n as s)"

definition kernel_alloc :: "fs \<Rightarrow> u64 option \<times> fs" where
  "kernel_alloc s = (case slots s of [] \<Rightarrow> (None, s) | a # as \<Rightarrow> (Some a, s\<lparr>slots := as\<rparr>))"

definition inode_open :: "u64 \<Rightarrow> fs \<Rightarrow> (u64 \<times> fs) res" where
  "inode_open inode_no s =
     rbind (find_inode inode_no (open_inodes s) s) (\<lambda>found.
     case found of
       Some a \<Rightarrow> rbind (the_inode a s) (\<lambda>i. Inr (a, put_inode a (i\<lparr>i_open_cnts := i_open_cnts i + 1\<rparr>) s))
     | None \<Rightarrow>
         rbind (inode_locate inode_no s) (\<lambda>(lba, off).
         case kernel_alloc s of
           (None, s) \<Rightarrow> Inl (Panic ''inode_found'')
         | (Some a, s) \<Rightarrow>
             rbind (kassert (buf_ok s 1024) ''inode_buf'') (\<lambda>_.
             let i = decode_inode (drop off (ide_get lba 2 s)); s = s\<lparr>open_inodes := a # open_inodes s\<rparr> in
             Inr (a, put_inode a (i\<lparr>inode_lock := 0, i_open_cnts := 1\<rparr>) s))))"

definition inode_close :: "u64 \<Rightarrow> fs \<Rightarrow> fs res" where
  "inode_close a s =
     (if a = root_dir_inode s then Inr s
      else rbind (the_inode a s) (\<lambda>i.
        let i = i\<lparr>i_open_cnts := i_open_cnts i - 1\<rparr> in
        if i_open_cnts i = 0 then Inr (s\<lparr>open_inodes := remove1 a (open_inodes s), inodes := (inodes s)(a := None)\<rparr>)
        else Inr (put_inode a i s)))"

section \<open>Blocks of an inode\<close>

text \<open>\<^verbatim>\<open>get_blocks_lba\<close> fills the table of the 140 block addresses, zeroed by the caller.\<close>

definition get_blocks_lba :: "inode \<Rightarrow> fs \<Rightarrow> u32 list" where
  "get_blocks_lba i s = take 12 (i_sectors i) @
     (if i_sectors i ! 12 \<noteq> 0 then words 128 (ide_get (i_sectors i ! 12) 1 s) else replicate 128 0)"

definition lock_inode :: "u64 \<Rightarrow> fs \<Rightarrow> fs res" where
  "lock_inode a s = rbind (the_inode a s) (\<lambda>i. Inr (put_inode a (i\<lparr>inode_lock := inode_lock i + 1\<rparr>) s))"

definition unlock_inode :: "u64 \<Rightarrow> fs \<Rightarrow> fs res" where
  "unlock_inode a s = rbind (the_inode a s) (\<lambda>i.
     rbind (kassert (inode_lock i \<noteq> 0) ''plock->holder == running_thread()'') (\<lambda>_.
     Inr (put_inode a (i\<lparr>inode_lock := inode_lock i - 1\<rparr>) s)))"

text \<open>The loop of \<^verbatim>\<open>inode_read\<close>: the contents of the blocks, zeros for a block that does not exist.\<close>

fun read_blocks :: "u32 list \<Rightarrow> nat list \<Rightarrow> fs \<Rightarrow> byte list res" where
  "read_blocks all_blocks [] s = Inr []"
| "read_blocks all_blocks (k # ks) s =
     (if k < length all_blocks then
        rbind (read_blocks all_blocks ks s) (\<lambda>rest.
        Inr ((if all_blocks ! k \<noteq> 0 then ide_get (all_blocks ! k) 1 s else replicate BLOCK_SIZE 0) @ rest))
      else Inl (Fault ''all_blocks''))"

text \<open>
  The result is \<open>None\<close> for -1, otherwise the bytes copied to the caller's buffer; \<open>read_slice\<close> is the part
  after the computation of \<^verbatim>\<open>real_count\<close>.
\<close>

definition read_slice :: "u64 \<Rightarrow> inode \<Rightarrow> u64 \<Rightarrow> u64 \<Rightarrow> fs \<Rightarrow> (byte list option \<times> fs) res" where
  "read_slice a i real_count pos s =
     (let block_idx_start = pos div of_nat BLOCK_SIZE;
          block_idx_end = DIV_ROUND_UP (pos + real_count) (of_nat BLOCK_SIZE) in
      if \<not> buf_ok s (unat ((block_idx_end - block_idx_start) * of_nat BLOCK_SIZE)) then Inr (None, s)
      else if block_idx_end < block_idx_start then Inl (Fault ''all_blocks'')
      else
        rbind (lock_inode a s) (\<lambda>s.
        rbind (read_blocks (get_blocks_lba i s) [unat block_idx_start..<unat block_idx_end] s) (\<lambda>read_buf.
        let block_off = unat pos mod BLOCK_SIZE in
        if block_off + unat real_count \<le> length read_buf then
          rbind (unlock_inode a s) (\<lambda>s. Inr (Some (take (unat real_count) (drop block_off read_buf)), s))
        else Inl (Fault ''read_buf''))))"

definition inode_read :: "u64 \<Rightarrow> u64 \<Rightarrow> u64 \<Rightarrow> fs \<Rightarrow> (byte list option \<times> fs) res" where
  "inode_read a count pos s =
     rbind (the_inode a s) (\<lambda>i.
     let real_count = (if i_size i < pos + count then i_size i - pos else count) in
     if i_size i < pos + count \<and> sint real_count \<le> 0 then Inr (None, s)
     else read_slice a i real_count pos s)"

section \<open>Block allocation\<close>

definition sync_bitmap :: "u32 \<Rightarrow> bitmap \<Rightarrow> nat \<Rightarrow> fs \<Rightarrow> fs res" where
  "sync_bitmap lba b off_sec s =
     (if (off_sec + 1) * BLOCK_SIZE \<le> length (bits b)
      then Inr (ide_put (lba + of_nat off_sec) 1 (take BLOCK_SIZE (drop (off_sec * BLOCK_SIZE) (bits b))) s)
      else Inl (Fault ''bitmap''))"

definition block_bitmap_alloc :: "fs \<Rightarrow> (u32 option \<times> fs) res" where
  "block_bitmap_alloc s =
     rbind (bitmap_alloc_a_bit (block_bitmap s)) (\<lambda>(b, bit_idx).
     let s = s\<lparr>block_bitmap := b\<rparr> in
     if bit_idx = -1 then Inr (None, s)
     else
       rbind (sync_bitmap (block_bitmap_lba (sb s)) b (nat bit_idx div BITS_PER_SECTOR) s) (\<lambda>s.
       let lba = data_start_lba (sb s) + of_int bit_idx in
       Inr (if lba = -1 then None else Some lba, s)))"

definition block_bitmap_free :: "u32 \<Rightarrow> fs \<Rightarrow> fs res" where
  "block_bitmap_free block_lba s =
     (let bit_idx = unat (ucast block_lba - ucast (data_start_lba (sb s)) :: u64) in
      rbind (bitmap_set (block_bitmap s) bit_idx False) (\<lambda>b.
      let s = ide_put block_lba 1 (replicate BLOCK_SIZE 0) (s\<lparr>block_bitmap := b\<rparr>) in
      sync_bitmap (block_bitmap_lba (sb s)) b (bit_idx div BITS_PER_SECTOR) s))"

section \<open>Writing\<close>

text \<open>
  The loop of \<^verbatim>\<open>inode_write\<close> from block \<open>k\<close> on; \<open>data\<close> is what \<^verbatim>\<open>buf\<close> points to. \<open>None\<close>: no block could
  be allocated. The last block of a longer run takes \<open>block_end_off\<close> bytes.
\<close>

definition ensure_block :: "nat \<Rightarrow> u32 list \<Rightarrow> fs \<Rightarrow> (u32 list option \<times> fs) res" where
  "ensure_block k all_blocks s =
     (if all_blocks ! k = 0 then
        rbind (block_bitmap_alloc s) (\<lambda>(block, s). Inr (map_option (\<lambda>l. all_blocks[k := l]) block, s))
      else Inr (Some all_blocks, s))"

fun write_blocks :: "nat list \<Rightarrow> nat \<Rightarrow> nat \<Rightarrow> nat \<Rightarrow> nat \<Rightarrow> byte list \<Rightarrow> u32 list \<Rightarrow> fs \<Rightarrow>
    (u32 list option \<times> fs) res" where
  "write_blocks [] first end block_off block_end_off data all_blocks s = Inr (Some all_blocks, s)"
| "write_blocks (k # ks) first end block_off block_end_off data all_blocks s =
     (if \<not> k < length all_blocks then Inl (Fault ''all_blocks'')
      else
        rbind (ensure_block k all_blocks s) (\<lambda>(blks, s).
        case blks of
          None \<Rightarrow> Inr (None, s)
        | Some all_blocks \<Rightarrow>
            let block_lba = all_blocks ! k; old = ide_get block_lba 1 s in
            if k = first then
              let a_sec = (k = end - 1); cpy_cnt = (if a_sec then length data else BLOCK_SIZE - block_off);
                  s = ide_put block_lba 1 (splice block_off (take cpy_cnt data) old) s in
              if a_sec then Inr (Some all_blocks, s)
              else write_blocks ks first end block_off block_end_off (drop cpy_cnt data) all_blocks s
            else if k = end - 1 then
              Inr (Some all_blocks, ide_put block_lba 1 (splice 0 (take block_end_off data) old) s)
            else write_blocks ks first end block_off block_end_off (drop BLOCK_SIZE data) all_blocks
                   (ide_put block_lba 1 (take BLOCK_SIZE data) s)))"

text \<open>The indirect block, if the write needs one and there is none: allocated and cleared.\<close>

definition need_indirect :: "u64 \<Rightarrow> u64 \<Rightarrow> fs \<Rightarrow> (bool \<times> fs) res" where
  "need_indirect a fin s =
     rbind (the_inode a s) (\<lambda>i.
     if i_sectors i ! 12 = 0 \<and> 12 * of_nat BLOCK_SIZE < fin then
       rbind (block_bitmap_alloc s) (\<lambda>(block, s).
       case block of
         None \<Rightarrow> Inr (False, s)
       | Some l \<Rightarrow> Inr (True, put_inode a (i\<lparr>i_sectors := (i_sectors i)[12 := l]\<rparr>) (ide_put l 1 (replicate BLOCK_SIZE 0) s)))
     else Inr (True, s))"

definition write_back :: "u64 \<Rightarrow> u64 \<Rightarrow> u32 list \<Rightarrow> fs \<Rightarrow> fs res" where
  "write_back a fin all_blocks s =
     rbind (the_inode a s) (\<lambda>i.
     let i = (if i_size i < fin then i\<lparr>i_size := fin\<rparr> else i);
         i = i\<lparr>i_sectors := take 12 all_blocks @ drop 12 (i_sectors i)\<rparr> in
     rbind (inode_sync i (put_inode a i s)) (\<lambda>s.
     Inr (if i_sectors i ! 12 \<noteq> 0
          then ide_put (i_sectors i ! 12) 1 (concat (map (le 4) (drop 12 all_blocks))) s else s)))"

definition write_data :: "u64 \<Rightarrow> byte list \<Rightarrow> u64 \<Rightarrow> fs \<Rightarrow> (u64 option \<times> fs) res" where
  "write_data a data pos s =
     rbind (the_inode a s) (\<lambda>i.
     let fin = pos + of_nat (length data);
         first = unat (pos div of_nat BLOCK_SIZE); end = unat (DIV_ROUND_UP fin (of_nat BLOCK_SIZE)) in
     if end < first then Inl (Fault ''all_blocks'')
     else
       rbind (write_blocks [first..<end] first end (unat pos mod BLOCK_SIZE) (unat fin mod BLOCK_SIZE)
                data (get_blocks_lba i s) s) (\<lambda>(blks, s).
       case blks of
         None \<Rightarrow> rbind (unlock_inode a s) (\<lambda>s. Inr (None, s))
       | Some all_blocks \<Rightarrow>
           rbind (write_back a fin all_blocks s) (\<lambda>s.
           rbind (unlock_inode a s) (\<lambda>s. Inr (Some (of_nat (length data)), s)))))"

definition inode_write :: "u64 \<Rightarrow> byte list \<Rightarrow> u64 \<Rightarrow> fs \<Rightarrow> (u64 option \<times> fs) res" where
  "inode_write a data pos s =
     (let fin = pos + of_nat (length data) in
      if MAX_FILE_SIZE < fin then Inr (None, s)
      else if \<not> buf_ok s 1024 then Inr (None, s)
      else
        rbind (lock_inode a s) (\<lambda>s.
        rbind (need_indirect a fin s) (\<lambda>(ok, s).
        if \<not> ok then rbind (unlock_inode a s) (\<lambda>s. Inr (None, s))
        else write_data a data pos s)))"

section \<open>Creating and freeing inodes\<close>

definition inode_init :: "u64 \<Rightarrow> u64 \<Rightarrow> u32 \<Rightarrow> fs \<Rightarrow> fs" where
  "inode_init a inode_no ft s =
     put_inode a \<lparr>i_no = inode_no, i_size = 0, i_open_cnts = 1, f_type = ft, inode_lock = 0, i_sectors = replicate 13 0\<rparr>
       (s\<lparr>open_inodes := a # open_inodes s\<rparr>)"

definition inode_alloc :: "u32 \<Rightarrow> fs \<Rightarrow> (u64 option \<times> fs) res" where
  "inode_alloc ft s =
     rbind (bitmap_alloc_a_bit (inode_bitmap s)) (\<lambda>(b, bit_idx).
     let s = s\<lparr>inode_bitmap := b\<rparr> in
     if bit_idx = -1 then Inr (None, s)
     else
       rbind (sync_bitmap (inode_bitmap_lba (sb s)) b (nat bit_idx div BITS_PER_SECTOR) s) (\<lambda>s.
       case kernel_alloc s of
         (None, s) \<Rightarrow> Inr (None, s)
       | (Some a, s) \<Rightarrow>
           let s = inode_init a (of_int bit_idx) ft s in
           rbind (the_inode a s) (\<lambda>i. rbind (inode_sync i s) (\<lambda>s. Inr (Some a, s)))))"

fun free_blocks :: "u32 list \<Rightarrow> fs \<Rightarrow> fs res" where
  "free_blocks [] s = Inr s"
| "free_blocks (l # ls) s =
     rbind (if l \<noteq> 0 then block_bitmap_free l s else Inr s) (free_blocks ls)"

definition inode_free :: "u64 \<Rightarrow> fs \<Rightarrow> fs res" where
  "inode_free a s =
     rbind (the_inode a s) (\<lambda>i.
     rbind (bitmap_set (inode_bitmap s) (unat (i_no i)) False) (\<lambda>b.
     let s = s\<lparr>inode_bitmap := b\<rparr> in
     rbind (free_blocks (get_blocks_lba i s) s) (\<lambda>s.
     rbind (kassert (i_open_cnts i = 1) ''inode->i_open_cnts == 1'') (\<lambda>_.
     inode_close a s))))"

section \<open>Bytes and words: lemmas\<close>

lemma length_le [simp]: "length (le n w) = n"
  by (induction n arbitrary: w) simp_all

lemma unle_le: "unle (le n w) = take_bit (8 * n) (w :: 'a::len word)"
proof (induction n arbitrary: w)
  case (Suc n)
  show ?case unfolding le.simps unle.simps Suc
  proof (rule bit_eqI)
    fix m assume "possible_bit TYPE('a word) m"
    then show "bit ((ucast (ucast w :: byte) :: 'a word) OR push_bit 8 (take_bit (8 * n) (drop_bit 8 w))) m =
        bit (take_bit (8 * Suc n) w) m"
      by (cases "m < 8") (auto simp: bit_simps possible_bit_def)
  qed
qed simp

lemma unle_le_id [simp]: "LENGTH('a) \<le> 8 * n \<Longrightarrow> unle (le n w) = (w :: 'a::len word)"
  by (simp add: unle_le take_bit_word_eq_self)

lemma words_le: "words (length ws) (concat (map (le 4) ws) @ rest) = ws"
  by (induction ws) simp_all

lemma length_concat_le [simp]: "length (concat (map (le 4) ws)) = 4 * length ws"
  by (induction ws) simp_all

lemma length_words [simp]: "length (words n bs) = n"
  by (induction n arbitrary: bs) simp_all

lemma length_encode: "length (i_sectors i) = 13 \<Longrightarrow> length (encode_inode i) = sizeof_inode"
  by (simp add: encode_inode_def sizeof_inode_def)

lemma decode_encode:
  assumes "length (i_sectors i) = 13"
  shows "decode_inode (encode_inode i @ rest) = i\<lparr>inode_lock := 0\<rparr>"
  using words_le [of "i_sectors i" "replicate 20 0 @ rest"] assms
  by (simp add: decode_inode_def encode_inode_def)

lemma length_splice: "off + length new \<le> length old \<Longrightarrow> length (splice off new old) = length old"
  by (simp add: splice_def)

lemma nth_splice:
  "off + length new \<le> length old \<Longrightarrow> k < length old \<Longrightarrow>
   splice off new old ! k = (if off \<le> k \<and> k < off + length new then new ! (k - off) else old ! k)"
  by (auto simp: splice_def nth_append min_def)

section \<open>Sectors: lemmas\<close>

definition secs_ok :: "fs \<Rightarrow> bool" where
  "secs_ok s \<longleftrightarrow> (\<forall>l. length (sectors s l) = BLOCK_SIZE)"

lemma secs_okD: "secs_ok s \<Longrightarrow> length (sectors s l) = 512"
  by (simp add: secs_ok_def BLOCK_SIZE_def)

lemma ide_get_1 [simp]: "ide_get l 1 s = sectors s l" "ide_get l (Suc 0) s = sectors s l"
  by (simp_all add: ide_get_def)

lemma ide_get_2: "ide_get l 2 s = sectors s l @ sectors s (l + 1)"
  by (simp add: ide_get_def numeral_2_eq_2)

lemma ide_put_1 [simp]:
  "ide_put l 1 d s = s\<lparr>sectors := (sectors s)(l := take BLOCK_SIZE d)\<rparr>"
  "ide_put l (Suc 0) d s = s\<lparr>sectors := (sectors s)(l := take BLOCK_SIZE d)\<rparr>"
  by simp_all

lemma ide_put_2:
  "ide_put l 2 d s = s\<lparr>sectors := (sectors s)(l := take BLOCK_SIZE d, l + 1 := take BLOCK_SIZE (drop BLOCK_SIZE d))\<rparr>"
  by (simp add: numeral_2_eq_2)

text \<open>The inode table as one array of bytes.\<close>

definition tbyte :: "fs \<Rightarrow> nat \<Rightarrow> byte" where
  "tbyte s k = sectors s (inode_table_lba (sb s) + of_nat (k div 512)) ! (k mod 512)"

definition table_entry :: "fs \<Rightarrow> nat \<Rightarrow> byte list" where
  "table_entry s n = map (\<lambda>j. tbyte s (160 * n + j)) [0..<160]"

definition in_table :: "fs \<Rightarrow> u32 \<Rightarrow> bool" where
  "in_table s l \<longleftrightarrow> (\<exists>q < 1280. l = inode_table_lba (sb s) + of_nat q)"

lemma of_nat_u32_inj: "a < 2 ^ 32 \<Longrightarrow> b < 2 ^ 32 \<Longrightarrow> (of_nat a :: u32) = of_nat b \<longleftrightarrow> a = b"
  by (simp add: word_of_nat_eq_iff take_bit_nat_eq_self)

lemma tbyte_cong: "sb t = sb s \<Longrightarrow> sectors t = sectors s \<Longrightarrow> tbyte t = tbyte s"
  by (simp add: tbyte_def fun_eq_iff)

text \<open>
  \<^verbatim>\<open>inode_sync\<close> replaces the image of one inode and nothing else: no byte of another inode, no sector
  outside the table.
\<close>

lemma inode_sync_spec:
  assumes "secs_ok s" "unat (i_no i) < 4096" "buf_ok s 1024" "length (i_sectors i) = 13"
  shows "\<exists>f. inode_sync i s = Inr (s\<lparr>sectors := f\<rparr>) \<and> secs_ok (s\<lparr>sectors := f\<rparr>) \<and>
    (\<forall>n < 4096. table_entry (s\<lparr>sectors := f\<rparr>) n = (if n = unat (i_no i) then encode_inode i else table_entry s n)) \<and>
    (\<forall>l. \<not> in_table s l \<longrightarrow> f l = sectors s l)"
proof -
  define n q off lba where "n = unat (i_no i)" and "q = n * 160 div 512" and "off = n * 160 mod 512"
    and "lba = inode_table_lba (sb s) + of_nat q"
  define old new where "old = ide_get lba 2 s" and "new = splice off (encode_inode i) old"
  define t where "t = ide_put lba 2 new s"
  let ?tbl = "inode_table_lba (sb s)"
  have n: "n < 4096" using assms(2) by (simp add: n_def)
  have len: "length old = 1024" using assms(1) by (simp add: old_def ide_get_2 secs_okD)
  have enc: "length (encode_inode i) = 160" using length_encode [OF assms(4)] by (simp add: sizeof_inode_def)
  have off: "off + 160 \<le> 1024" using mod_less_divisor [of 512 "n * 160"] unfolding off_def by linarith
  have newlen: "length new = 1024" using len enc off by (simp add: new_def length_splice)
  have pos: "n * 160 = 512 * q + off" unfolding q_def off_def by (rule mult_div_mod_eq [symmetric])
  have sec: "sectors t l = (if l = lba + 1 then drop 512 new else if l = lba then take 512 new else sectors s l)" for l
    using newlen by (simp add: t_def ide_put_2 BLOCK_SIZE_def)
  have new: "new ! m = (if off \<le> m \<and> m < off + 160 then encode_inode i ! (m - off) else old ! m)" if "m < 1024" for m
    using nth_splice [of off "encode_inode i" old m] len enc off that by (simp add: new_def)
  have q: "q < 1280" using n by (simp add: q_def)
  have lba: "?tbl + of_nat q' = lba \<longleftrightarrow> q' = q" "?tbl + of_nat q' = lba + 1 \<longleftrightarrow> q' = q + 1" if "q' < 1280" for q'
  proof -
    have "lba + 1 = ?tbl + of_nat (q + 1)" by (simp add: lba_def)
    then show "?tbl + of_nat q' = lba \<longleftrightarrow> q' = q" "?tbl + of_nat q' = lba + 1 \<longleftrightarrow> q' = q + 1"
      using of_nat_u32_inj [of q' q] of_nat_u32_inj [of q' "q + 1"] that q
      by (simp_all only: lba_def add_left_cancel) simp_all
  qed
  have byte: "tbyte t k = (if n * 160 \<le> k \<and> k < n * 160 + 160 then encode_inode i ! (k - n * 160) else tbyte s k)"
    if "k < 1280 * 512" for k
  proof -
    let ?k = "k div 512" and ?m = "k mod 512"
    have k: "k = 512 * ?k + ?m" "?m < 512" "?k < 1280" using that by simp_all
    have sb: "sb t = sb s" by (simp add: t_def ide_put_2)
    consider "?k = q" | "?k = q + 1" | "?k \<noteq> q" "?k \<noteq> q + 1" by blast
    then show ?thesis
    proof cases
      case 1
      then have "tbyte t k = new ! ?m" using k(2) by (simp add: tbyte_def sec sb lba_def [symmetric])
      also have "\<dots> = (if off \<le> ?m \<and> ?m < off + 160 then encode_inode i ! (?m - off) else old ! ?m)"
        using new k(2) by simp
      also have "old ! ?m = tbyte s k" using 1 k(2) assms(1) by (simp add: old_def lba_def ide_get_2 nth_append secs_okD tbyte_def)
      moreover have "n * 160 \<le> k \<longleftrightarrow> off \<le> ?m" "k < n * 160 + 160 \<longleftrightarrow> ?m < off + 160" "k - n * 160 = ?m - off"
        using 1 k(1) pos by linarith+
      ultimately show ?thesis by (simp only:)
    next
      case 2
      then have "tbyte t k = new ! (512 + ?m)"
        using k(2) newlen 2 lba [OF k(3)] unfolding tbyte_def sec sb by simp
      also have "\<dots> = (if off \<le> 512 + ?m \<and> 512 + ?m < off + 160 then encode_inode i ! (512 + ?m - off) else old ! (512 + ?m))"
        using new k(2) by simp
      also have "old ! (512 + ?m) = tbyte s k"
        using 2 k(2) assms(1) by (simp add: old_def lba_def ide_get_2 nth_append secs_okD tbyte_def ac_simps)
      moreover have "n * 160 \<le> k \<longleftrightarrow> off \<le> 512 + ?m" "k < n * 160 + 160 \<longleftrightarrow> 512 + ?m < off + 160"
          "k - n * 160 = 512 + ?m - off"
        using 2 k(1) pos by linarith+
      ultimately show ?thesis by (simp only:)
    next
      case 3
      then have "tbyte t k = tbyte s k" using lba [OF k(3)] by (simp add: tbyte_def sec sb)
      moreover have "\<not> (n * 160 \<le> k \<and> k < n * 160 + 160)"
        using 3 k(1,2) pos off by linarith
      ultimately show ?thesis by auto
    qed
  qed
  have "table_entry t m = (if m = n then encode_inode i else table_entry s m)" if "m < 4096" for m
  proof (rule nth_equalityI)
    show "length (table_entry t m) = length (if m = n then encode_inode i else table_entry s m)"
      by (simp add: table_entry_def enc)
    fix j assume "j < length (table_entry t m)"
    then have j: "j < 160" by (simp add: table_entry_def)
    have "n * 160 \<le> 160 * m + j \<and> 160 * m + j < n * 160 + 160 \<longleftrightarrow> m = n" using j by linarith
    then show "table_entry t m ! j = (if m = n then encode_inode i else table_entry s m) ! j"
      using byte [of "160 * m + j"] that j by (simp add: table_entry_def)
  qed
  moreover have "sectors t l = sectors s l" if "\<not> in_table s l" for l
  proof (cases "l = lba + 1")
    case True
    then have "\<not> q + 1 < 1280" using that by (auto simp: in_table_def lba_def add.assoc dest: spec [of _ "q + 1"])
    then have "off + 160 \<le> 512" using pos n q by linarith
    then have "drop 512 new = drop 512 old" using new newlen len by (intro nth_equalityI) auto
    then show ?thesis using True sec assms(1) by (simp add: old_def ide_get_2 secs_okD)
  next
    case False
    have "l \<noteq> lba" using that q by (auto simp: in_table_def lba_def)
    with False show ?thesis by (simp add: sec)
  qed
  moreover have "secs_ok t" using assms(1) newlen unfolding secs_ok_def sec by (simp add: BLOCK_SIZE_def)
  moreover have "inode_sync i s = Inr t"
    using assms(2,3) by (simp add: inode_sync_def inode_locate_def MAX_FILES_PER_PART_def sizeof_inode_def
        BLOCK_SIZE_def word_less_nat_alt t_def new_def old_def lba_def off_def q_def n_def)
  ultimately show ?thesis unfolding t_def n_def ide_put_2 by (intro exI conjI) auto
qed

lemma words_take: "words n bs = words n (take (4 * n) bs)"
proof (induction n arbitrary: bs)
  case (Suc n)
  have "words n (drop 4 bs) = words n (take (4 * n) (drop 4 bs))" by (rule Suc)
  then show ?case by (simp add: drop_take)
qed simp

lemma decode_take: "decode_inode bs = decode_inode (take 160 bs)"
  using words_take [of 13 "drop 88 bs"] words_take [of 13 "drop 88 (take 160 bs)"]
  by (simp add: decode_inode_def drop_take min_def)

lemma table_entry_get:
  assumes "secs_ok s" "n < 4096"
  shows "take 160 (drop (n * 160 mod 512) (ide_get (inode_table_lba (sb s) + of_nat (n * 160 div 512)) 2 s)) =
    table_entry s n"
proof (rule nth_equalityI)
  define q off where "q = n * 160 div 512" and "off = n * 160 mod 512"
  have pos: "n * 160 = 512 * q + off" unfolding q_def off_def by (rule mult_div_mod_eq [symmetric])
  have off: "off < 512" by (simp add: off_def)
  let ?l = "take 160 (drop off (ide_get (inode_table_lba (sb s) + of_nat q) 2 s))"
  show "length ?l = length (table_entry s n)"
    using assms(1) off by (simp add: table_entry_def ide_get_2 secs_okD)
  fix j assume "j < length ?l"
  then have j: "j < 160" by simp
  have "160 * n + j = 512 * q + (off + j)" using pos by simp
  then have e: "tbyte s (160 * n + j) = tbyte s (512 * q + (off + j))" by (rule arg_cong)
  show "?l ! j = table_entry s n ! j"
  proof (cases "off + j < 512")
    case True
    then have "j < 512 - off" using off by linarith
    with True show ?thesis using j assms(1) off e
      by (simp add: table_entry_def tbyte_def ide_get_2 nth_append secs_okD)
  next
    case False
    define d where "d = off + j - 512"
    have d: "off + j = 512 + d" "d < 512" using False j off by (simp_all add: d_def)
    have "512 * q + (off + j) = 512 * (q + 1) + d" using d by simp
    then have "tbyte s (160 * n + j) = tbyte s (512 * (q + 1) + d)" using e by (simp only:)
    also have "\<dots> = sectors s (inode_table_lba (sb s) + of_nat (q + 1)) ! d"
      using d(2) unfolding tbyte_def by (simp only: div_mult_self4 mod_mult_self4) simp
    finally have "tbyte s (160 * n + j) = sectors s (inode_table_lba (sb s) + of_nat (q + 1)) ! d" .
    moreover have "\<not> j < 512 - off" "j - (512 - off) = d" using False d off by linarith+
    ultimately show ?thesis using j assms(1) off
      by (simp add: table_entry_def ide_get_2 nth_append secs_okD ac_simps)
  qed
qed

lemma inode_open_new:
  assumes "secs_ok s" "unat n < 4096" "buf_ok s 1024" "find_inode n (open_inodes s) s = Inr None" "slots s = a # as"
  shows "inode_open n s = Inr (a, s\<lparr>slots := as, open_inodes := a # open_inodes s,
    inodes := (inodes s)(a \<mapsto> (decode_inode (table_entry s (unat n)))\<lparr>inode_lock := 0, i_open_cnts := 1\<rparr>)\<rparr>)"
proof -
  let ?off = "unat n * 160 mod 512" and ?lba = "inode_table_lba (sb s) + of_nat (unat n * 160 div 512)"
  have "decode_inode (drop ?off (ide_get ?lba 2 s)) = decode_inode (table_entry s (unat n))"
    using decode_take table_entry_get [OF assms(1,2)] by metis
  moreover have "inode_locate n s = Inr (?lba, ?off)"
    using assms(2) by (simp add: inode_locate_def MAX_FILES_PER_PART_def sizeof_inode_def BLOCK_SIZE_def word_less_nat_alt)
  moreover have "ide_get l 2 (s\<lparr>slots := as\<rparr>) = ide_get l 2 s" for l by (simp add: ide_get_def)
  ultimately show ?thesis
    using assms(3,4,5) by (simp add: inode_open_def kernel_alloc_def Let_def put_inode_def)
qed

end
