(* ===== verification/FileData.thy ===== *)
theory FileData
  imports Inode
begin

text \<open>
  What \<^verbatim>\<open>inode_read\<close> and \<^verbatim>\<open>inode_write\<close> do to the contents of files. The abstract file is a list of
  bytes (\<open>file_bytes\<close>); the invariant (\<open>layout_ok\<close>, \<open>blocks_ok\<close>) says that the areas of the partition are disjoint
  and that the blocks of an inode are distinct used data blocks. The loop of \<^verbatim>\<open>inode_write\<close> is verified
  one block at a time, then by induction over the blocks.
\<close>

section \<open>Contents of a file\<close>

definition block_of :: "fs \<Rightarrow> u32 \<Rightarrow> byte list" where
  "block_of s l = (if l = 0 then replicate 512 0 else sectors s l)"

definition fbyte :: "fs \<Rightarrow> u32 list \<Rightarrow> nat \<Rightarrow> byte" where
  "fbyte s blks p = block_of s (blks ! (p div 512)) ! (p mod 512)"

definition file_bytes :: "fs \<Rightarrow> inode \<Rightarrow> byte list" where
  "file_bytes s i = map (fbyte s (get_blocks_lba i s)) [0..<unat (i_size i)]"

lemma length_file_bytes [simp]: "length (file_bytes s i) = unat (i_size i)"
  by (simp add: file_bytes_def)

lemma nth_file_bytes: "p < unat (i_size i) \<Longrightarrow> file_bytes s i ! p = fbyte s (get_blocks_lba i s) p"
  by (simp add: file_bytes_def)

lemma length_block_of: "secs_ok s \<Longrightarrow> length (block_of s l) = 512"
  by (simp add: block_of_def secs_okD)

lemma length_blocks: "length (i_sectors i) = 13 \<Longrightarrow> length (get_blocks_lba i s) = 140"
  by (simp add: get_blocks_lba_def)

lemma nth_concat_blocks:
  assumes "\<And>k. length (f k) = 512" "a \<le> b" "j < (b - a) * 512"
  shows "concat (map f [a..<b]) ! j = f (a + j div 512) ! (j mod 512)"
  using assms(2,3)
proof (induction b)
  case (Suc b)
  have len: "length (concat (map f [a..<b])) = (b - a) * 512"
    using assms(1) by (simp add: length_concat comp_def sum_list_triv)
  show ?case
  proof (cases "j < (b - a) * 512")
    case True
    then have "a \<le> b" "a < Suc b" using Suc.prems by (auto intro: ccontr)
    with True show ?thesis using Suc.IH len by (simp add: nth_append)
  next
    case False
    have ab: "a \<le> b" using Suc.prems by (cases "a = Suc b") auto
    then have "(b - a) * 512 \<le> j" "j < (b - a) * 512 + 512" using False Suc.prems(2) by (auto simp: Suc_diff_le)
    then have "j div 512 = b - a" "j mod 512 = j - (b - a) * 512"
      by (simp_all add: div_nat_eqI mod_nat_eqI dvd_diff_nat)
    with False ab show ?thesis using len by (simp add: nth_append)
  qed
qed simp

lemma read_blocks_eq:
  "\<forall>k \<in> set ks. k < length blks \<Longrightarrow>
   read_blocks blks ks s = Inr (concat (map (\<lambda>k. block_of s (blks ! k)) ks))"
  by (induction ks) (simp_all add: block_of_def BLOCK_SIZE_def)

lemma round_up_512:
  assumes "unat x < 2 ^ 63"
  shows "unat (DIV_ROUND_UP x (of_nat BLOCK_SIZE)) = (unat x + 511) div 512"
proof -
  have "unat (511 + x) = unat x + 511"
    using assms by (subst unat_add_lem [THEN iffD1]) simp_all
  then show ?thesis unfolding DIV_ROUND_UP_def BLOCK_SIZE_def by (simp add: unat_div)
qed

lemma unat_less_uint: "unat x < n \<Longrightarrow> uint x < int n"
  using of_nat_less_iff [of "unat x" n, where ?'a = int] by simp

lemma sint_small: "unat (x :: u64) < 2 ^ 63 \<Longrightarrow> sint x = int (unat x)"
  using unat_less_uint [of x "2 ^ 63"] order_trans [of "- (2 ^ 63)" 0 "uint x"]
  by (simp add: sint_uint signed_take_bit_int_eq_self)

lemma sint_diff_small:
  assumes "unat (x :: u64) < 2 ^ 62" "unat (y :: u64) < 2 ^ 62"
  shows "sint (x - y) = int (unat x) - int (unat y)"
proof -
  have "uint x < 4611686018427387904" "uint y < 4611686018427387904"
    using assms [THEN unat_less_uint] by simp_all
  then have "- 9223372036854775808 \<le> uint x - uint y" "uint x - uint y < 9223372036854775808"
    using uint_ge_0 [of x] uint_ge_0 [of y] by linarith+
  then have "signed_take_bit 63 (uint x - uint y) = uint x - uint y"
    by (intro signed_take_bit_int_eq_self) simp_all
  then show ?thesis using assms by (simp add: sint_word_ariths sint_small)
qed

lemma lock_unlock:
  assumes "inodes s a = Some i"
  shows "lock_inode a s = Inr (put_inode a (i\<lparr>inode_lock := inode_lock i + 1\<rparr>) s)"
    "unlock_inode a (put_inode a (i\<lparr>inode_lock := inode_lock i + 1\<rparr>) s) = Inr s"
  using assms by (simp_all add: lock_inode_def unlock_inode_def the_inode_def put_inode_def fun_upd_idem)

lemma get_blocks_put [simp]: "get_blocks_lba i (put_inode a k s) = get_blocks_lba i s"
  by (simp add: get_blocks_lba_def put_inode_def ide_get_def)

lemma block_of_put [simp]: "block_of (put_inode a k s) = block_of s"
  by (simp add: block_of_def put_inode_def fun_eq_iff)

lemma read_slice_spec:
  assumes "secs_ok s" "inodes s a = Some i" "length (i_sectors i) = 13" "\<And>n. buf_ok s n"
    and "unat (i_size i) \<le> 71680" "unat pos + unat r \<le> unat (i_size i)"
  shows "read_slice a i r pos s = Inr (Some (take (unat r) (drop (unat pos) (file_bytes s i))), s)"
proof -
  let ?p = "unat pos" and ?z = "unat (i_size i)" and ?blks = "get_blocks_lba i s"
  define n where "n = unat r"
  have "unat (pos + r) = ?p + n"
    using assms(5,6) by (subst unat_add_lem [THEN iffD1]) (simp_all add: n_def)
  with assms(6) have fin: "unat (pos + r) = ?p + n" "?p + n \<le> ?z" by (simp_all add: n_def)
  define b e where "b = ?p div 512" and "e = (?p + n + 511) div 512"
  have b: "unat (pos div of_nat BLOCK_SIZE) = b" by (simp add: BLOCK_SIZE_def unat_div b_def)
  have e: "unat (DIV_ROUND_UP (pos + r) (of_nat BLOCK_SIZE)) = e"
    using round_up_512 [of "pos + r"] fin assms(5) by (simp add: e_def)
  have be: "b \<le> e" unfolding b_def e_def by (rule div_le_mono) simp
  have e140: "e \<le> 140" using fin(2) assms(5) unfolding e_def by simp
  define rbuf where "rbuf = concat (map (\<lambda>k. block_of s (?blks ! k)) [b..<e])"
  have buf: "read_blocks ?blks [b..<e] (put_inode a k s) = Inr rbuf" for k
    using read_blocks_eq [of "[b..<e]" ?blks "put_inode a k s"] e140 length_blocks [OF assms(3)]
    by (simp add: rbuf_def)
  have lenbuf: "length rbuf = (e - b) * 512"
    using length_block_of [OF assms(1)] by (simp add: rbuf_def length_concat comp_def sum_list_triv)
  have fits: "?p mod 512 + n \<le> (e - b) * 512"
  proof -
    have "?p + n \<le> 512 * e" unfolding e_def by linarith
    moreover have "?p = 512 * b + ?p mod 512" unfolding b_def by simp
    moreover have "512 * (e - b) = 512 * e - 512 * b" by (simp add: right_diff_distrib')
    ultimately show ?thesis by linarith
  qed
  have data: "take n (drop (?p mod 512) rbuf) = take n (drop ?p (file_bytes s i))"
  proof (rule nth_equalityI)
    show "length (take n (drop (?p mod 512) rbuf)) = length (take n (drop ?p (file_bytes s i)))"
      using fits lenbuf fin(2) by simp
    fix j assume "j < length (take n (drop (?p mod 512) rbuf))"
    then have j: "j < n" by simp
    have "?p + j = 512 * b + (?p mod 512 + j)" unfolding b_def by simp
    then have "(?p + j) div 512 = b + (?p mod 512 + j) div 512" "(?p + j) mod 512 = (?p mod 512 + j) mod 512"
      by (simp_all only: div_mult_self4 [of 512] mod_mult_self4)
    then have "rbuf ! (?p mod 512 + j) = fbyte s ?blks (?p + j)"
      using nth_concat_blocks [of "\<lambda>k. block_of s (?blks ! k)" b e] be j fits length_block_of [OF assms(1)]
      by (simp add: fbyte_def rbuf_def)
    moreover have "file_bytes s i ! (?p + j) = fbyte s ?blks (?p + j)"
      using j fin(2) by (intro nth_file_bytes) linarith
    ultimately show "take n (drop (?p mod 512) rbuf) ! j = take n (drop ?p (file_bytes s i)) ! j"
      using j fits lenbuf fin(2) by simp
  qed
  have "\<not> DIV_ROUND_UP (pos + r) (of_nat BLOCK_SIZE) < pos div of_nat BLOCK_SIZE"
    using be b e by (simp add: word_less_nat_alt)
  then show ?thesis
    using assms(2,4) buf b e lock_unlock [OF assms(2)] data fits lenbuf
    by (simp add: read_slice_def Let_def n_def [symmetric]) (simp add: BLOCK_SIZE_def)
qed

text \<open>
  \<^verbatim>\<open>inode_read\<close> is the slice of the contents, cut at the end of the file; -1 at or behind the end. The
  inode is as before.
\<close>

lemma inode_read_spec:
  assumes "secs_ok s" "inodes s a = Some i" "length (i_sectors i) = 13" "\<And>n. buf_ok s n"
    and "unat (i_size i) \<le> 71680" "unat pos + unat count < 2 ^ 62"
  shows "inode_read a count pos s = Inr (if unat (i_size i) \<le> unat pos \<and> (0 < count \<or> i_size i < pos) then None
      else Some (take (unat count) (drop (unat pos) (file_bytes s i))), s)"
proof -
  let ?p = "unat pos" and ?c = "unat count" and ?z = "unat (i_size i)"
  let ?r = "if i_size i < pos + count then i_size i - pos else count"
  have sum: "unat (pos + count) = ?p + ?c" using assms(6) by (subst unat_add_lem [THEN iffD1]) simp_all
  have less: "i_size i < pos + count \<longleftrightarrow> ?z < ?p + ?c" by (simp add: word_less_nat_alt sum)
  have diff: "sint (i_size i - pos) \<le> 0 \<longleftrightarrow> ?z \<le> ?p"
    using sint_diff_small [of "i_size i" pos] assms(5,6) by (simp add: word_le_nat_alt flip: word_le_def)
  have none: "?z \<le> ?p \<and> (0 < count \<or> i_size i < pos) \<longleftrightarrow> i_size i < pos + count \<and> sint ?r \<le> 0"
    unfolding less using diff by (auto simp: word_less_nat_alt)
  show ?thesis
  proof (cases "i_size i < pos + count \<and> sint ?r \<le> 0")
    case True
    then have "i_size i < pos + count" "sint (i_size i - pos) \<le> 0" by (auto split: if_splits)
    then show ?thesis unfolding none by (simp add: inode_read_def the_inode_def assms(2))
  next
    case False
    have r: "?p + unat ?r \<le> ?z" "unat ?r = min ?c (?z - ?p)"
      using False diff by (auto simp: less unat_sub word_le_nat_alt min_def)
    define r' where "r' = ?r"
    have "read_slice a i r' pos s = Inr (Some (take ?c (drop ?p (file_bytes s i))), s)"
      using read_slice_spec [OF assms(1-5), of pos r'] r by (simp add: r'_def [symmetric] min_def)
    with False show ?thesis unfolding none r'_def by (simp add: inode_read_def the_inode_def assms(2) Let_def)
  qed
qed

section \<open>The areas of the partition\<close>

definition layout_ok :: "fs \<Rightarrow> bool" where
  "layout_ok s \<longleftrightarrow>
     (let n = length (bits (block_bitmap s)) in
      bytes_len (block_bitmap s) = n \<and> 512 dvd n \<and> 0 < unat (data_start_lba (sb s)) \<and>
      unat (block_bitmap_lba (sb s)) + n div 512 \<le> unat (inode_table_lba (sb s)) \<and>
      unat (inode_table_lba (sb s)) + 1280 \<le> unat (data_start_lba (sb s)) \<and>
      unat (data_start_lba (sb s)) + 8 * n < 2 ^ 32)"

definition in_bitmap :: "fs \<Rightarrow> u32 \<Rightarrow> bool" where
  "in_bitmap s l \<longleftrightarrow> (\<exists>q < length (bits (block_bitmap s)) div 512. l = block_bitmap_lba (sb s) + of_nat q)"

definition used_block :: "fs \<Rightarrow> u32 \<Rightarrow> bool" where
  "used_block s l \<longleftrightarrow> (\<exists>b \<in> used_bits (block_bitmap s). l = data_start_lba (sb s) + of_nat b)"

definition disk_full :: "fs \<Rightarrow> bool" where
  "disk_full s \<longleftrightarrow> {..<8 * bytes_len (block_bitmap s)} \<subseteq> used_bits (block_bitmap s)"

text \<open>What the block functions may change: sectors and the block bitmap.\<close>

definition same_fs :: "fs \<Rightarrow> fs \<Rightarrow> bool" where
  "same_fs s s' \<longleftrightarrow> s' = s\<lparr>sectors := sectors s', block_bitmap := block_bitmap s'\<rparr>"

lemma same_fs_simps:
  assumes "same_fs s s'"
  shows "sb s' = sb s" "inodes s' = inodes s" "open_inodes s' = open_inodes s" "buf_ok s' = buf_ok s"
    "slots s' = slots s" "root_dir_inode s' = root_dir_inode s" "inode_bitmap s' = inode_bitmap s"
  using assms by (cases s; cases s'; simp add: same_fs_def)+

lemma same_fs_refl [simp]: "same_fs s s"
  by (simp add: same_fs_def)

lemma same_fs_trans: "same_fs s t \<Longrightarrow> same_fs t u \<Longrightarrow> same_fs s u"
  by (cases s; cases t; cases u) (simp add: same_fs_def)

lemma same_fs_sectors: "same_fs s t \<Longrightarrow> same_fs s (t\<lparr>sectors := f\<rparr>)"
  by (cases s; cases t) (simp add: same_fs_def)

lemma unat_plus_of_nat:
  assumes "unat (x :: u32) + n < 2 ^ 32"
  shows "unat (x + of_nat n) = unat x + n"
proof -
  have "unat (of_nat n :: u32) = n" using assms by (simp add: unsigned_of_nat take_bit_nat_eq_self)
  then show ?thesis using assms by (subst unat_add_lem [THEN iffD1]) simp_all
qed

lemma unat_data:
  assumes "layout_ok s" "b < 8 * length (bits (block_bitmap s))"
  shows "unat (data_start_lba (sb s) + of_nat b) = unat (data_start_lba (sb s)) + b"
  using assms by (intro unat_plus_of_nat) (simp add: layout_ok_def Let_def)

lemma unat_table:
  assumes "layout_ok s" "q < 1280"
  shows "unat (inode_table_lba (sb s) + of_nat q) = unat (inode_table_lba (sb s)) + q"
  using assms by (intro unat_plus_of_nat) (simp add: layout_ok_def Let_def)

lemma unat_bitmap:
  assumes "layout_ok s" "q < length (bits (block_bitmap s)) div 512"
  shows "unat (block_bitmap_lba (sb s) + of_nat q) = unat (block_bitmap_lba (sb s)) + q"
  using assms by (intro unat_plus_of_nat) (simp add: layout_ok_def Let_def)

lemma used_block_apart:
  assumes "layout_ok s" "used_block s l"
  shows "l \<noteq> 0" "\<not> in_table s l" "\<not> in_bitmap s l"
proof -
  obtain b where b: "b < 8 * length (bits (block_bitmap s))" "l = data_start_lba (sb s) + of_nat b"
    using assms(2) used_bits_bound by (auto simp: used_block_def)
  have l: "unat l = unat (data_start_lba (sb s)) + b" using unat_data [OF assms(1) b(1)] b(2) by simp
  show "l \<noteq> 0" "\<not> in_table s l" "\<not> in_bitmap s l"
    using l assms(1) unat_table [OF assms(1)] unat_bitmap [OF assms(1)]
    by (auto simp: layout_ok_def Let_def in_table_def in_bitmap_def)
qed

lemma table_not_bitmap: "layout_ok s \<Longrightarrow> in_table s l \<Longrightarrow> \<not> in_bitmap s l"
  using unat_table [of s] unat_bitmap [of s] by (fastforce simp: layout_ok_def Let_def in_table_def in_bitmap_def)

section \<open>Block allocation\<close>

lemma sync_bitmap_spec:
  assumes "layout_ok s" "b < 8 * length (bits (block_bitmap s))" "secs_ok s"
  shows "\<exists>f. sync_bitmap (block_bitmap_lba (sb s)) (block_bitmap s) (b div BITS_PER_SECTOR) s = Inr (s\<lparr>sectors := f\<rparr>) \<and>
    secs_ok (s\<lparr>sectors := f\<rparr>) \<and> (\<forall>l. \<not> in_bitmap s l \<longrightarrow> f l = sectors s l)"
proof -
  let ?n = "length (bits (block_bitmap s))" and ?q = "b div 4096"
  obtain m where m: "?n = 512 * m" using assms(1) by (auto simp: layout_ok_def Let_def)
  then have q: "?q < m" using assms(2) by (simp add: less_mult_imp_div_less)
  then have "(?q + 1) * 512 \<le> ?n" using m by simp
  moreover have "in_bitmap s (block_bitmap_lba (sb s) + of_nat ?q)" using q m by (auto simp: in_bitmap_def)
  ultimately show ?thesis using assms(3)
    by (intro exI [of _ "(sectors s)(block_bitmap_lba (sb s) + of_nat ?q :=
          take BLOCK_SIZE (drop (?q * BLOCK_SIZE) (bits (block_bitmap s))))"])
      (auto simp: sync_bitmap_def BLOCK_SIZE_def BITS_PER_SECTOR_def secs_ok_def)
qed

lemma block_alloc_spec:
  assumes "layout_ok s" "secs_ok s"
  shows "\<exists>r s'. block_bitmap_alloc s = Inr (r, s') \<and> secs_ok s' \<and> layout_ok s' \<and> same_fs s s' \<and>
    same_shape (block_bitmap s) (block_bitmap s') \<and>
    (\<forall>l. \<not> in_bitmap s l \<longrightarrow> sectors s' l = sectors s l) \<and> (\<forall>l. used_block s l \<longrightarrow> used_block s' l) \<and>
    (case r of None \<Rightarrow> disk_full s' | Some l \<Rightarrow> \<not> used_block s l \<and> used_block s' l)"
proof -
  have wf: "bitmap_wf (block_bitmap s)" using assms(1) by (simp add: layout_ok_def Let_def bitmap_wf_def)
  from wf show ?thesis
  proof (cases rule: bitmap_alloc_a_bit_cases)
    case full
    then show ?thesis using assms
      by (intro exI [of _ None] exI [of _ s]) (simp add: block_bitmap_alloc_def disk_full_def)
  next
    case (free b' i)
    let ?s = "s\<lparr>block_bitmap := b'\<rparr>"
    have len: "length (bits b') = length (bits (block_bitmap s))" "bytes_len b' = bytes_len (block_bitmap s)"
      using free(5) by (simp_all add: same_shape_def)
    have lay: "layout_ok ?s" using assms(1) len by (simp add: layout_ok_def Let_def)
    have i: "i < 8 * length (bits (block_bitmap s))" using free(2) assms(1) by (simp add: layout_ok_def Let_def)
    obtain f where f: "sync_bitmap (block_bitmap_lba (sb s)) b' (i div BITS_PER_SECTOR) ?s = Inr (?s\<lparr>sectors := f\<rparr>)"
        "secs_ok (?s\<lparr>sectors := f\<rparr>)" "\<forall>l. \<not> in_bitmap ?s l \<longrightarrow> f l = sectors s l"
      using sync_bitmap_spec [OF lay, of i] i len assms(2) by (auto simp: secs_ok_def)
    let ?l = "data_start_lba (sb s) + of_nat i"
    have l: "unat ?l = unat (data_start_lba (sb s)) + i" by (rule unat_data [OF assms(1) i])
    moreover have "(-1 :: u32) = 4294967295" by simp
    then have "unat (-1 :: u32) = 4294967295" by (simp only:) simp
    ultimately have "?l \<noteq> -1" using assms(1) i by (auto simp: layout_ok_def Let_def)
    moreover have "\<not> used_block s ?l"
    proof
      assume "used_block s ?l"
      then obtain b where b: "b \<in> used_bits (block_bitmap s)" "?l = data_start_lba (sb s) + of_nat b"
        by (auto simp: used_block_def)
      then have "i = b" using l unat_data [OF assms(1) used_bits_bound [OF b(1)]] unfolding b(2) by linarith
      then show False using b(1) free(3) by simp
    qed
    moreover have "\<forall>l. in_bitmap ?s l = in_bitmap s l" using len by (simp add: in_bitmap_def)
    moreover have "used_block (?s\<lparr>sectors := f\<rparr>) ?l" unfolding used_block_def by (simp add: free(6))
    moreover have "\<forall>l. used_block s l \<longrightarrow> used_block (?s\<lparr>sectors := f\<rparr>) l"
      unfolding used_block_def by (simp add: free(6))
    ultimately show ?thesis using f free(1,5) lay
      by (intro exI [of _ "Some ?l"] exI [of _ "?s\<lparr>sectors := f\<rparr>"])
        (simp add: block_bitmap_alloc_def same_fs_def layout_ok_def)
  qed
qed

section \<open>Writing one block\<close>

text \<open>
  \<open>blocks_ok s ind blks\<close>: the table of block addresses while a file is written; \<open>ind\<close> is its indirect
  block. \<open>wframe\<close> is what a step may change outside the file.
\<close>

definition blocks_ok :: "fs \<Rightarrow> u32 \<Rightarrow> u32 list \<Rightarrow> bool" where
  "blocks_ok s ind blks \<longleftrightarrow> length blks = 140 \<and> secs_ok s \<and> layout_ok s \<and>
     (\<forall>j < 140. blks ! j \<noteq> 0 \<longrightarrow> used_block s (blks ! j)) \<and>
     (\<forall>j < 140. \<forall>k < 140. blks ! j \<noteq> 0 \<longrightarrow> blks ! j = blks ! k \<longrightarrow> j = k) \<and>
     (ind \<noteq> 0 \<longrightarrow> used_block s ind \<and> ind \<notin> set blks)"

definition wframe :: "u32 list \<Rightarrow> fs \<Rightarrow> fs \<Rightarrow> bool" where
  "wframe blks s s' \<longleftrightarrow> same_fs s s' \<and> same_shape (block_bitmap s) (block_bitmap s') \<and>
     (\<forall>l. used_block s l \<longrightarrow> used_block s' l) \<and> (\<forall>l. in_table s l \<longrightarrow> sectors s' l = sectors s l) \<and>
     (\<forall>l. used_block s l \<longrightarrow> l \<notin> set blks \<longrightarrow> sectors s' l = sectors s l)"

lemma blocks_okD:
  assumes "blocks_ok s ind blks"
  shows "length blks = 140" "secs_ok s" "layout_ok s" "\<And>j. j < 140 \<Longrightarrow> blks ! j \<noteq> 0 \<Longrightarrow> used_block s (blks ! j)"
    "\<And>j k. j < 140 \<Longrightarrow> k < 140 \<Longrightarrow> blks ! j \<noteq> 0 \<Longrightarrow> blks ! j = blks ! k \<Longrightarrow> j = k"
    "ind \<noteq> 0 \<Longrightarrow> used_block s ind" "ind \<noteq> 0 \<Longrightarrow> ind \<notin> set blks"
  using assms unfolding blocks_ok_def by blast+

lemma in_table_same: "same_fs s s' \<Longrightarrow> in_table s' = in_table s"
  by (simp add: in_table_def same_fs_simps fun_eq_iff)

lemma wframe_refl [simp]: "wframe blks s s"
  by (simp add: wframe_def)

lemma ensure_block_spec:
  assumes "blocks_ok s ind blks" "k < 140"
  shows "\<exists>r s'. ensure_block k blks s = Inr (r, s') \<and> wframe blks s s' \<and> secs_ok s' \<and> layout_ok s' \<and>
    (case r of None \<Rightarrow> disk_full s'
     | Some blks' \<Rightarrow> blocks_ok s' ind blks' \<and> blks' ! k \<noteq> 0 \<and> (\<forall>j. j \<noteq> k \<longrightarrow> blks' ! j = blks ! j) \<and>
         (blks ! k \<noteq> 0 \<longrightarrow> blks' ! k = blks ! k) \<and> (\<forall>l. used_block s l \<longrightarrow> blks' ! k = l \<longrightarrow> blks ! k = l) \<and>
         (\<forall>l. used_block s l \<longrightarrow> sectors s' l = sectors s l))"
proof (cases "blks ! k = 0")
  case False
  then show ?thesis using assms blocks_okD(2,3) [OF assms(1)]
    by (intro exI [of _ "Some blks"] exI [of _ s]) (simp add: ensure_block_def)
next
  case True
  note ok = blocks_okD [OF assms(1)]
  obtain r s' where a: "block_bitmap_alloc s = Inr (r, s')" "secs_ok s'" "layout_ok s'" "same_fs s s'"
      "same_shape (block_bitmap s) (block_bitmap s')"
      "\<forall>l. \<not> in_bitmap s l \<longrightarrow> sectors s' l = sectors s l" "\<forall>l. used_block s l \<longrightarrow> used_block s' l"
      "case r of None \<Rightarrow> disk_full s' | Some l \<Rightarrow> \<not> used_block s l \<and> used_block s' l"
    using block_alloc_spec [OF ok(3,2)] by blast
  have used: "sectors s' l = sectors s l" if "used_block s l" for l
    using a(6) used_block_apart(3) [OF ok(3) that] by simp
  have frame: "wframe blks s s'"
    using a(4,5,6,7) used table_not_bitmap [OF ok(3)] by (simp add: wframe_def)
  show ?thesis
  proof (cases r)
    case None
    then show ?thesis using True a frame by (intro exI [of _ None] exI [of _ s']) (simp add: ensure_block_def)
  next
    case (Some l)
    then have l: "\<not> used_block s l" "used_block s' l" using a(8) by simp_all
    have l0: "l \<noteq> 0" by (rule used_block_apart(1) [OF a(3) l(2)])
    have new: "blks ! j \<noteq> l" if "j < 140" for j using ok(4) [OF that] l(1) l0 by auto
    let ?b = "blks[k := l]"
    have "blocks_ok s' ind ?b" unfolding blocks_ok_def
    proof (intro conjI allI impI)
      fix j assume "j < 140" "?b ! j \<noteq> 0"
      then show "used_block s' (?b ! j)"
        using ok(1,4) a(7) l(2) assms(2) by (cases "j = k") auto
    next
      fix j m assume "j < 140" "m < 140" "?b ! j \<noteq> 0" "?b ! j = ?b ! m"
      then show "j = m" using ok(1) ok(5) [of j m] new by (cases "j = k"; cases "m = k") auto
    next
      assume "ind \<noteq> 0"
      then show "used_block s' ind" "ind \<notin> set ?b"
        using ok(6,7) a(7) l(1) set_update_subset_insert [of blks k l] by auto
    qed (simp_all add: ok(1) a(2,3))
    then show ?thesis using True a frame Some l l0 assms(2) ok(1) used
      by (intro exI [of _ "Some ?b"] exI [of _ s']) (auto simp: ensure_block_def)
  qed
qed

text \<open>Making the block and replacing its contents.\<close>

lemma put_block_spec:
  assumes "blocks_ok s ind blks" "k < 140" "blks ! k \<noteq> 0" "length d = 512"
  defines "s' \<equiv> s\<lparr>sectors := (sectors s)(blks ! k := d)\<rparr>"
  shows "blocks_ok s' ind blks" "wframe blks s s'" "block_of s' (blks ! k) = d"
    "\<And>j. j < 140 \<Longrightarrow> j \<noteq> k \<Longrightarrow> block_of s' (blks ! j) = block_of s (blks ! j)"
proof -
  note ok = blocks_okD [OF assms(1)]
  have used: "used_block s' = used_block s" "layout_ok s' = layout_ok s"
    by (simp_all add: s'_def used_block_def layout_ok_def fun_eq_iff)
  have "secs_ok s'" using ok(2) assms(4) by (simp add: s'_def secs_ok_def BLOCK_SIZE_def)
  then show "blocks_ok s' ind blks" using assms(1) unfolding blocks_ok_def used by blast
  have "blks ! k \<in> set blks" using assms(2) ok(1) by simp
  moreover have "\<not> in_table s (blks ! k)" using used_block_apart(2) [OF ok(3) ok(4) [OF assms(2,3)]] .
  ultimately show "wframe blks s s'" unfolding wframe_def used
    by (auto simp: s'_def same_fs_def in_table_def)
  show "block_of s' (blks ! k) = d" using assms(3) by (simp add: s'_def block_of_def)
  fix j assume "j < 140" "j \<noteq> k"
  then have "blks ! j = 0 \<or> blks ! j \<noteq> blks ! k" using ok(5) [of j k] assms(2) by blast
  then show "block_of s' (blks ! j) = block_of s (blks ! j)"
    by (auto simp: s'_def block_of_def)
qed

lemma same_shape_sym: "same_shape b c \<Longrightarrow> same_shape c b"
  by (simp add: same_shape_def)

lemma wframe_trans:
  assumes "wframe blks s t" "wframe b1 t u" "\<And>l. used_block s l \<Longrightarrow> l \<notin> set blks \<Longrightarrow> l \<notin> set b1"
  shows "wframe blks s u"
proof -
  have "same_fs s t" using assms(1) by (simp add: wframe_def)
  then show ?thesis using assms in_table_same same_fs_trans same_shape_trans
    unfolding wframe_def by metis
qed

lemma one_block:
  assumes "blocks_ok s ind blks" "k < 140"
  obtains (full) s1 where "ensure_block k blks s = Inr (None, s1)" "disk_full s1" "wframe blks s s1"
      "secs_ok s1" "layout_ok s1"
  | (ready) b1 s1 where "ensure_block k blks s = Inr (Some b1, s1)" "b1 ! k \<noteq> 0" "length (sectors s1 (b1 ! k)) = 512"
      "blks ! k \<noteq> 0 \<Longrightarrow> sectors s1 (b1 ! k) = block_of s (blks ! k)" "\<And>j. j \<noteq> k \<Longrightarrow> b1 ! j = blks ! j"
      "length b1 = 140" "\<And>l. used_block s l \<Longrightarrow> l \<notin> set blks \<Longrightarrow> l \<notin> set b1"
      "\<And>d. length d = 512 \<Longrightarrow>
        blocks_ok (s1\<lparr>sectors := (sectors s1)(b1 ! k := d)\<rparr>) ind b1 \<and>
        wframe blks s (s1\<lparr>sectors := (sectors s1)(b1 ! k := d)\<rparr>) \<and>
        block_of (s1\<lparr>sectors := (sectors s1)(b1 ! k := d)\<rparr>) (b1 ! k) = d \<and>
        (\<forall>j < 140. j \<noteq> k \<longrightarrow> block_of (s1\<lparr>sectors := (sectors s1)(b1 ! k := d)\<rparr>) (b1 ! j) = block_of s (blks ! j))"
proof -
  note ok = blocks_okD [OF assms(1)]
  obtain r s1 where e: "ensure_block k blks s = Inr (r, s1)" "wframe blks s s1" "secs_ok s1" "layout_ok s1"
    "case r of None \<Rightarrow> disk_full s1
     | Some blks' \<Rightarrow> blocks_ok s1 ind blks' \<and> blks' ! k \<noteq> 0 \<and> (\<forall>j. j \<noteq> k \<longrightarrow> blks' ! j = blks ! j) \<and>
         (blks ! k \<noteq> 0 \<longrightarrow> blks' ! k = blks ! k) \<and> (\<forall>l. used_block s l \<longrightarrow> blks' ! k = l \<longrightarrow> blks ! k = l) \<and>
         (\<forall>l. used_block s l \<longrightarrow> sectors s1 l = sectors s l)"
    using ensure_block_spec [OF assms] by blast
  show ?thesis
  proof (cases r)
    case None
    then show ?thesis using full [of s1] e by simp
  next
    case (Some b1)
    have b1: "blocks_ok s1 ind b1" "b1 ! k \<noteq> 0" "\<And>j. j \<noteq> k \<Longrightarrow> b1 ! j = blks ! j"
        "blks ! k \<noteq> 0 \<Longrightarrow> b1 ! k = blks ! k" "\<And>l. used_block s l \<Longrightarrow> b1 ! k = l \<Longrightarrow> blks ! k = l"
        "\<And>l. used_block s l \<Longrightarrow> sectors s1 l = sectors s l"
      using e(5) unfolding Some option.case by blast+
    note ok1 = blocks_okD [OF b1(1)]
    have others: "l \<notin> set b1" if "used_block s l" "l \<notin> set blks" for l
    proof
      assume "l \<in> set b1"
      then obtain j where j: "j < 140" "b1 ! j = l" using ok1(1) by (auto simp: in_set_conv_nth)
      have "blks ! j = l"
      proof (cases "j = k")
        case True
        then show ?thesis using b1(5) [OF that(1)] j(2) by simp
      next
        case False
        then show ?thesis using b1(3) [OF False] j(2) by simp
      qed
      then show False using that(2) j(1) ok(1) nth_mem [of j blks] by simp
    qed
    have same: "block_of s1 (b1 ! j) = block_of s (blks ! j)" if "j < 140" "j \<noteq> k" for j
      using b1(3) [OF that(2)] b1(6) ok(4) [OF that(1)] by (auto simp: block_of_def)
    have step: "blocks_ok (s1\<lparr>sectors := (sectors s1)(b1 ! k := d)\<rparr>) ind b1 \<and>
        wframe blks s (s1\<lparr>sectors := (sectors s1)(b1 ! k := d)\<rparr>) \<and>
        block_of (s1\<lparr>sectors := (sectors s1)(b1 ! k := d)\<rparr>) (b1 ! k) = d \<and>
        (\<forall>j < 140. j \<noteq> k \<longrightarrow> block_of (s1\<lparr>sectors := (sectors s1)(b1 ! k := d)\<rparr>) (b1 ! j) = block_of s (blks ! j))"
      if "length d = 512" for d
      using put_block_spec [OF b1(1) assms(2) b1(2) that] wframe_trans [OF e(2)] others same by auto
    have "sectors s1 (b1 ! k) = block_of s (blks ! k)" if "blks ! k \<noteq> 0"
      using that b1(4,6) ok(4) [OF assms(2) that] by (simp add: block_of_def)
    then show ?thesis
      using ready [of b1 s1] e(1) Some b1(2,3) ok1(1) secs_okD [OF e(3)] others step by blast
  qed
qed

section \<open>The loop of inode_write\<close>

text \<open>
  The blocks behind the first one: block \<open>j\<close> gets the data from \<open>512 * (j - k)\<close> on, the last one only
  \<open>e\<close> bytes.
\<close>

definition tail_written :: "byte list \<Rightarrow> nat \<Rightarrow> nat \<Rightarrow> nat \<Rightarrow> fs \<Rightarrow> u32 list \<Rightarrow> fs \<Rightarrow> u32 list \<Rightarrow> bool" where
  "tail_written data k end n s blks s' blks' \<longleftrightarrow>
     (\<forall>j < 140. j < k \<or> end \<le> j \<longrightarrow> blks' ! j = blks ! j \<and> block_of s' (blks' ! j) = block_of s (blks ! j)) \<and>
     (\<forall>j. k \<le> j \<longrightarrow> j < end \<longrightarrow> blks' ! j \<noteq> 0 \<and>
       (\<forall>p < 512. let q = 512 * (j - k) + p in
         (q < n \<longrightarrow> block_of s' (blks' ! j) ! p = data ! q) \<and>
         (n \<le> q \<longrightarrow> blks ! j \<noteq> 0 \<longrightarrow> block_of s' (blks' ! j) ! p = block_of s (blks ! j) ! p)))"

lemma write_tail:
  assumes "blocks_ok s ind blks" "first < k" "k < end" "end \<le> 140" "e \<le> 512"
    and "512 * (end - 1 - k) + e \<le> length data"
  shows "\<exists>r s'. write_blocks [k..<end] first end off e data blks s = Inr (r, s') \<and> wframe blks s s' \<and>
    (case r of None \<Rightarrow> disk_full s' \<and> secs_ok s' \<and> layout_ok s'
     | Some blks' \<Rightarrow> blocks_ok s' ind blks' \<and> tail_written data k end (512 * (end - 1 - k) + e) s blks s' blks')"
  using assms
proof (induction "end - k" arbitrary: k s blks data)
  case (Suc m)
  have k: "k < 140" "[k..<end] = k # [Suc k..<end]" using Suc.prems(3,4) by (simp_all add: upt_conv_Cons)
  note ok = blocks_okD [OF Suc.prems(1)]
  from Suc.prems(1) k(1) show ?case
  proof (cases rule: one_block)
    case (full s1)
    then show ?thesis using k ok(1) Suc.prems(2) by (intro exI [of _ None] exI [of _ s1]) simp
  next
    case (ready b1 s1)
    show ?thesis
    proof (cases "k = end - 1")
      case True
      let ?d = "splice 0 (take e data) (sectors s1 (b1 ! k))"
      let ?s2 = "s1\<lparr>sectors := (sectors s1)(b1 ! k := ?d)\<rparr>"
      have e: "min (length data) e = e" using Suc.prems(6) True by simp
      have len: "length ?d = 512" using ready(3) Suc.prems(5) e by (simp add: length_splice)
      have run: "write_blocks [k..<end] first end off e data blks s = Inr (Some b1, ?s2)"
        using k ok(1) ready(1) True Suc.prems(2) len by (simp add: BLOCK_SIZE_def Let_def)
      have "?d ! p = (if p < e then data ! p else sectors s1 (b1 ! k) ! p)" if "p < 512" for p
        using nth_splice [of 0 "take e data" "sectors s1 (b1 ! k)" p] that ready(3) Suc.prems(5) e by simp
      note d = this and step = ready(8) [OF len]
      have "tail_written data k end (512 * (end - 1 - k) + e) s blks ?s2 b1"
        unfolding tail_written_def Let_def
      proof (intro conjI allI impI)
        fix j assume j: "j < 140" "j < k \<or> end \<le> j"
        then have "j \<noteq> k" using Suc.prems(3) by auto
        with j step ready(5) show "b1 ! j = blks ! j" "block_of ?s2 (b1 ! j) = block_of s (blks ! j)" by auto
      next
        fix j assume j: "k \<le> j" "j < end"
        then have jk: "j = k" using True by simp
        show "b1 ! j \<noteq> 0" using ready(2) jk by simp
        fix p :: nat assume p: "p < 512"
        have c: "block_of ?s2 (b1 ! j) = ?d" using step jk by simp
        show "block_of ?s2 (b1 ! j) ! p = data ! (512 * (j - k) + p)" if "512 * (j - k) + p < 512 * (end - 1 - k) + e"
          unfolding c using that d [OF p] jk True by simp
        show "block_of ?s2 (b1 ! j) ! p = block_of s (blks ! j) ! p"
          if "512 * (end - 1 - k) + e \<le> 512 * (j - k) + p" "blks ! j \<noteq> 0"
          unfolding c using that d [OF p] jk True ready(4) by simp
      qed
      then show ?thesis using run ready(8) [OF len]
        by (intro exI [of _ "Some b1"] exI [of _ ?s2]) simp
    next
      case False
      let ?d = "take 512 data"
      let ?s2 = "s1\<lparr>sectors := (sectors s1)(b1 ! k := ?d)\<rparr>"
      have len: "length ?d = 512" using Suc.prems(3,6) False by simp
      note step = ready(8) [OF len]
      have "end - 1 - k = Suc (end - 1 - Suc k)" using False Suc.prems(3) by simp
      then have n: "512 * (end - 1 - k) + e = 512 + (512 * (end - 1 - Suc k) + e)" by simp
      have p: "m = end - Suc k" "first < Suc k" "Suc k < end"
          "512 * (end - 1 - Suc k) + e \<le> length (drop 512 data)"
        using Suc.hyps(2) Suc.prems(2,3,6) False n by simp_all
      obtain r s' where r: "write_blocks [Suc k..<end] first end off e (drop 512 data) b1 ?s2 = Inr (r, s')"
          "wframe b1 ?s2 s'" "case r of None \<Rightarrow> disk_full s' \<and> secs_ok s' \<and> layout_ok s'
            | Some blks' \<Rightarrow> blocks_ok s' ind blks' \<and>
                tail_written (drop 512 data) (Suc k) end (512 * (end - 1 - Suc k) + e) ?s2 b1 s' blks'"
        using Suc.hyps(1) [OF p(1) _ p(2,3) Suc.prems(4,5) p(4), of ?s2 b1] step by blast
      have "write_blocks [k..<end] first end off e data blks s = Inr (r, s')"
        using k ok(1) ready(1) False Suc.prems(2) r(1) by (simp add: BLOCK_SIZE_def Let_def)
      moreover have "wframe blks s s'" using wframe_trans [OF _ r(2)] step ready(7) by blast
      moreover have "tail_written data k end (512 * (end - 1 - k) + e) s blks s' blks'" if "r = Some blks'" for blks'
      proof -
        have t: "tail_written (drop 512 data) (Suc k) end (512 * (end - 1 - Suc k) + e) ?s2 b1 s' blks'"
          using r(3) that by simp
        have q: "512 * (j - k) = 512 + 512 * (j - Suc k)" if "Suc k \<le> j" for j using that by simp
        show ?thesis unfolding tail_written_def
        proof (intro conjI allI impI)
          fix j assume j: "j < 140" "j < k \<or> end \<le> j"
          then have "j \<noteq> k" using Suc.prems(3) by auto
          with j t show "blks' ! j = blks ! j" "block_of s' (blks' ! j) = block_of s (blks ! j)"
            using step ready(5) by (auto simp: tail_written_def)
        next
          fix j assume j: "k \<le> j" "j < end"
          show "blks' ! j \<noteq> 0" 
            using t j ready(2) k(1) by (cases "j = k") (auto simp: tail_written_def)
          fix p :: nat assume p: "p < 512"
          show "let q = 512 * (j - k) + p in
              (q < 512 * (end - 1 - k) + e \<longrightarrow> block_of s' (blks' ! j) ! p = data ! q) \<and>
              (512 * (end - 1 - k) + e \<le> q \<longrightarrow> blks ! j \<noteq> 0 \<longrightarrow> block_of s' (blks' ! j) ! p = block_of s (blks ! j) ! p)"
          proof (cases "j = k")
            case True
            then have "block_of s' (blks' ! j) = ?d" using t step k(1) by (auto simp: tail_written_def)
            then show ?thesis using True p n by (simp add: Let_def)
          next
            case False
            then have j': "Suc k \<le> j" using j(1) by simp
            have "j < 140" using j(2) Suc.prems(4) by simp
            then have old: "b1 ! j = blks ! j" "block_of ?s2 (b1 ! j) = block_of s (blks ! j)"
              using ready(5) step False by auto
            have "512 \<le> length data" using len by simp
            then have dd: "drop 512 data ! i = data ! (512 + i)" for i by (simp add: nth_drop)
            have "(512 * (j - Suc k) + p < 512 * (end - 1 - Suc k) + e \<longrightarrow>
                block_of s' (blks' ! j) ! p = drop 512 data ! (512 * (j - Suc k) + p)) \<and>
              (512 * (end - 1 - Suc k) + e \<le> 512 * (j - Suc k) + p \<longrightarrow> b1 ! j \<noteq> 0 \<longrightarrow>
                block_of s' (blks' ! j) ! p = block_of ?s2 (b1 ! j) ! p)"
              using t j' j(2) p unfolding tail_written_def Let_def by blast
            then show ?thesis unfolding n q [OF j'] Let_def dd old(1) old(2) [unfolded old(1)]
              by (simp add: add.assoc)
          qed
        qed
      qed
      ultimately show ?thesis using r(3) by (intro exI [of _ r] exI [of _ s']) (auto split: option.splits)
    qed
  qed
qed simp

text \<open>
  The whole loop. Of a write that touches several blocks, the last block gets \<open>(pos + count) mod 512\<close> bytes;
  \<open>written_end\<close> is where the written range really ends.
\<close>

definition written_end :: "nat \<Rightarrow> nat \<Rightarrow> nat" where
  "written_end pos count =
     (if (pos + count + 511) div 512 \<le> pos div 512 + 1 then pos + count
      else 512 * ((pos + count + 511) div 512 - 1) + (pos + count) mod 512)"

definition range_written :: "byte list \<Rightarrow> nat \<Rightarrow> fs \<Rightarrow> u32 list \<Rightarrow> fs \<Rightarrow> u32 list \<Rightarrow> bool" where
  "range_written data pos s blks s' blks' \<longleftrightarrow>
     (\<forall>q < 71680. (pos \<le> q \<and> q < written_end pos (length data) \<longrightarrow> fbyte s' blks' q = data ! (q - pos)) \<and>
       (\<not> (pos \<le> q \<and> q < written_end pos (length data)) \<and> blks ! (q div 512) \<noteq> 0 \<longrightarrow> fbyte s' blks' q = fbyte s blks q)) \<and>
     (\<forall>j < 140. (pos div 512 \<le> j \<and> j < (pos + length data + 511) div 512 \<longrightarrow> blks' ! j \<noteq> 0) \<and>
       (\<not> (pos div 512 \<le> j \<and> j < (pos + length data + 511) div 512) \<longrightarrow> blks' ! j = blks ! j))"

lemma first_splice:
  assumes "length old = 512" "off + length new \<le> 512" "q div 512 = first" "pos = 512 * first + off" "off < 512"
  shows "splice off new old ! (q mod 512) = (if pos \<le> q \<and> q < pos + length new then new ! (q - pos) else old ! (q mod 512))"
proof -
  have q: "q = 512 * first + q mod 512" using assms(3) by auto
  then have "pos \<le> q \<longleftrightarrow> off \<le> q mod 512" "q < pos + length new \<longleftrightarrow> q mod 512 < off + length new" "q - pos = q mod 512 - off"
    using assms(4) by linarith+
  then show ?thesis using nth_splice [of off new old "q mod 512"] assms(1,2) by simp
qed

lemma first_le: "first < q div 512 \<Longrightarrow> 512 * Suc first \<le> (q :: nat)"
  by (simp add: less_eq_div_iff_mult_less_eq Suc_le_eq [symmetric] mult.commute del: mult_Suc_right mult_Suc)

lemma write_loop:
  assumes "blocks_ok s ind blks" "pos + length data \<le> 71680"
    and "first = pos div 512" "end = (pos + length data + 511) div 512"
  shows "\<exists>r s'. write_blocks [first..<end] first end (pos mod 512) ((pos + length data) mod 512) data blks s = Inr (r, s') \<and>
    wframe blks s s' \<and>
    (case r of None \<Rightarrow> disk_full s' \<and> secs_ok s' \<and> layout_ok s'
     | Some blks' \<Rightarrow> blocks_ok s' ind blks' \<and> range_written data pos s blks s' blks')"
proof -
  define off e len where "off = pos mod 512" and "e = (pos + length data) mod 512" and "len = length data"
  note ok = blocks_okD [OF assms(1)]
  have pos: "pos = 512 * first + off" "off < 512" by (simp_all add: off_def assms(3))
  have e: "e < 512" "pos + len = 512 * ((pos + len) div 512) + e" by (simp_all add: e_def len_def)
  have fin: "end \<le> 140" "first \<le> end" "pos + len \<le> 512 * end" "512 * end < pos + len + 512"
    using assms(2) by (simp_all add: assms(3,4) len_def div_le_mono)
  show ?thesis
  proof (cases "first = end")
    case True
    then have "len = 0" using pos fin by linarith
    then have "range_written data pos s blks s blks"
      using True assms(3,4) by (auto simp: range_written_def written_end_def len_def)
    then show ?thesis using True assms(1) by (intro exI [of _ "Some blks"] exI [of _ s]) simp
  next
    case False
    then have f: "first < end" "first < 140" using fin by simp_all
    have upt: "[first..<end] = first # [Suc first..<end]" using f by (simp add: upt_conv_Cons)
    from assms(1) f(2) show ?thesis
    proof (cases rule: one_block)
      case (full s1)
      then show ?thesis using upt ok(1) f by (intro exI [of _ None] exI [of _ s1]) simp
    next
      case (ready b1 s1)
      let ?old = "sectors s1 (b1 ! first)"
      define c where "c = (if first = end - 1 then len else 512 - off)"
      have c: "off + c \<le> 512" "c \<le> len"
        using pos fin f unfolding c_def by (auto simp: not_le)
      let ?d = "splice off (take c data) ?old"
      have lc: "length (take c data) = c" using c(2) by (simp add: len_def)
      have len: "length ?d = 512" using ready(3) c(1) lc by (simp add: length_splice)
      note step = ready(8) [OF len]
      let ?s2 = "s1\<lparr>sectors := (sectors s1)(b1 ! first := ?d)\<rparr>"
      have d: "?d ! (q mod 512) = (if pos \<le> q \<and> q < pos + c then data ! (q - pos) else ?old ! (q mod 512))"
        if "q div 512 = first" for q
      proof -
        have "take c data ! (q - pos) = data ! (q - pos)" if "pos \<le> q \<and> q < pos + c"
          using that by (intro nth_take) linarith
        moreover have "off + length (take c data) \<le> 512" using c(1) lc by simp
        ultimately show ?thesis using first_splice [OF ready(3) _ that pos, of "take c data"] lc by simp
      qed
      have here: "fbyte ?s2 b1 q = (if pos \<le> q \<and> q < pos + c then data ! (q - pos) else ?old ! (q mod 512))"
        if "q div 512 = first" for q
        using d [OF that] step that by (simp add: fbyte_def)
      have old: "?old ! (q mod 512) = fbyte s blks q" if "q div 512 = first" "blks ! first \<noteq> 0" for q
        using that ready(4) by (simp add: fbyte_def)
      have else': "fbyte ?s2 b1 q = fbyte s blks q" "b1 ! (q div 512) = blks ! (q div 512)"
        if "q < 71680" "q div 512 \<noteq> first" for q
        using that step ready(5) by (simp_all add: fbyte_def)
      show ?thesis
      proof (cases "first = end - 1")
        case True
        then have "end \<le> first + 1" by simp
        then have we: "written_end pos (length data) = pos + len" "c = len"
          using True unfolding assms(3,4) by (simp_all only: written_end_def len_def c_def assms(3,4) if_True refl)
        have out: "q div 512 = first" if "pos \<le> q" "q < pos + len" for q
        proof -
          have "end = Suc first" using True f by simp
          with that pos fin have "512 * first \<le> q" "q < 512 * Suc first" by simp_all
          then show ?thesis by (intro div_nat_eqI) simp_all
        qed
        have "range_written data pos s blks ?s2 b1" unfolding range_written_def we(1)
        proof (intro conjI allI impI)
          fix q :: nat assume q: "q < 71680"
          show "fbyte ?s2 b1 q = data ! (q - pos)" if "pos \<le> q \<and> q < pos + len"
            using here [of q] out that we(2) by simp
          show "fbyte ?s2 b1 q = fbyte s blks q" if "\<not> (pos \<le> q \<and> q < pos + len) \<and> blks ! (q div 512) \<noteq> 0"
            using here [of q] old [of q] else' [OF q] that we(2) by (cases "q div 512 = first") auto
        next
          fix j :: nat assume "j < 140"
          show "b1 ! j \<noteq> 0" if "pos div 512 \<le> j \<and> j < (pos + length data + 511) div 512"
          proof -
            have "j = first" using that True f unfolding assms(3,4) [symmetric] by linarith
            then show ?thesis using ready(2) by simp
          qed
          show "b1 ! j = blks ! j" if "\<not> (pos div 512 \<le> j \<and> j < (pos + length data + 511) div 512)"
            using that f ready(5) [of j] assms(3,4) by auto
        qed
        moreover have "write_blocks [first..<end] first end off e data blks s = Inr (Some b1, ?s2)"
          using upt ok(1) f ready(1) True len we(2) by (simp add: BLOCK_SIZE_def Let_def len_def)
        ultimately show ?thesis using step off_def e_def
          by (intro exI [of _ "Some b1"] exI [of _ ?s2]) simp
      next
        case False
        have cc: "c = 512 - off" "Suc first < end" using False f by (simp_all add: c_def)
        have we: "written_end pos (length data) = 512 * (end - 1) + e"
          using cc(2) unfolding assms(3,4) written_end_def e_def by simp
        define n where "n = 512 * (end - 1 - Suc first) + e"
        have n: "512 * Suc first + n = 512 * (end - 1) + e" using cc(2) by (simp add: n_def right_diff_distrib')
        have "end \<le> (pos + len) div 512 + 1" using e fin by linarith
        then have "512 * (end - 1) \<le> 512 * ((pos + len) div 512)" by simp
        then have "512 * (end - 1) + e \<le> pos + len" using e by linarith
        then have dl: "n \<le> length (drop c data)" using n pos cc(1) by (simp add: len_def)
        obtain r s' where r: "write_blocks [Suc first..<end] first end off e (drop c data) b1 ?s2 = Inr (r, s')"
            "wframe b1 ?s2 s'" "case r of None \<Rightarrow> disk_full s' \<and> secs_ok s' \<and> layout_ok s'
              | Some blks' \<Rightarrow> blocks_ok s' ind blks' \<and> tail_written (drop c data) (Suc first) end n ?s2 b1 s' blks'"
          using write_tail [of ?s2 ind b1 first "Suc first" "end" e "drop c data" off] step cc(2) fin(1) e(1) dl
          unfolding n_def by auto
        have "write_blocks [first..<end] first end off e data blks s = Inr (r, s')"
          using upt ok(1) f ready(1) False len r(1) cc(1) by (simp add: BLOCK_SIZE_def Let_def len_def)
        moreover have "wframe blks s s'" using wframe_trans [OF _ r(2)] step ready(7) by blast
        moreover have "range_written data pos s blks s' blks'" if "r = Some blks'" for blks'
        proof -
          have t: "tail_written (drop c data) (Suc first) end n ?s2 b1 s' blks'" using r(3) that by simp
          have low: "fbyte s' blks' q = fbyte ?s2 b1 q" if "q < 71680" "q div 512 \<le> first \<or> end \<le> q div 512" for q
          proof -
            have "q div 512 < 140" "q div 512 < Suc first \<or> end \<le> q div 512" using that by auto
            then have "block_of s' (blks' ! (q div 512)) = block_of ?s2 (b1 ! (q div 512))"
              using t unfolding tail_written_def by blast
            then show ?thesis by (simp add: fbyte_def)
          qed
          have mid: "fbyte s' blks' q = (if q < 512 * (end - 1) + e then data ! (q - pos) else fbyte s' blks' q)"
              "512 * (end - 1) + e \<le> q \<Longrightarrow> b1 ! (q div 512) \<noteq> 0 \<Longrightarrow> fbyte s' blks' q = fbyte ?s2 b1 q"
            if "first < q div 512" "q div 512 < end" for q
          proof -
            define j p where "j = q div 512" and "p = q mod 512"
            have j: "Suc first \<le> j" "j < end" "p < 512" "q = 512 * j + p" using that by (simp_all add: j_def p_def)
            define z where "z = 512 * (j - Suc first)"
            have "z = 512 * j - 512 * Suc first" unfolding z_def by (rule right_diff_distrib')
            then have q': "512 * Suc first + (z + p) = q" using j mult_le_mono2 [OF j(1), of 512] by linarith
            have len: "c \<le> length data" using c(2) by (simp add: len_def)
            have "c + off = 512" using cc(1) pos(2) by simp
            moreover have "512 * Suc first = 512 * first + 512" by simp
            ultimately have "pos + (c + (z + p)) = q" using q' pos(1) by linarith
            then have "c + (z + p) = q - pos" by linarith
            then have dd: "drop c data ! (z + p) = data ! (q - pos)" using len by (simp add: nth_drop)
            have lt: "z + p < n \<longleftrightarrow> q < 512 * (end - 1) + e" using q' n by linarith
            have *: "(z + p < n \<longrightarrow> fbyte s' blks' q = drop c data ! (z + p)) \<and>
               (n \<le> z + p \<longrightarrow> b1 ! j \<noteq> 0 \<longrightarrow> fbyte s' blks' q = fbyte ?s2 b1 q)"
              using t j unfolding tail_written_def Let_def fbyte_def z_def j_def [symmetric] p_def [symmetric] by blast
            show "fbyte s' blks' q = (if q < 512 * (end - 1) + e then data ! (q - pos) else fbyte s' blks' q)"
              using * unfolding dd lt by simp
            show "512 * (end - 1) + e \<le> q \<Longrightarrow> b1 ! (q div 512) \<noteq> 0 \<Longrightarrow> fbyte s' blks' q = fbyte ?s2 b1 q"
              using * lt unfolding j_def [symmetric] by (simp add: not_less)
          qed
          have first: "512 * first \<le> q" "q < 512 * Suc first" if "q div 512 = first" for q
            using that by auto
          show ?thesis unfolding range_written_def we
          proof (intro conjI allI impI)
            fix q :: nat assume q: "q < 71680"
            show "fbyte s' blks' q = data ! (q - pos)" if r: "pos \<le> q \<and> q < 512 * (end - 1) + e"
            proof (cases "q div 512 = first")
              case True
              then show ?thesis using low [OF q] here [OF True] first [OF True] r pos cc(1) by simp
            next
              case False
              have "first \<le> q div 512" using r by (simp add: assms(3) div_le_mono)
              moreover have "q < 512 * end" using r e(1) cc(2) by linarith
              then have "q div 512 < end" by (simp add: less_mult_imp_div_less mult.commute)
              ultimately show ?thesis using mid(1) [of q] False r by simp
            qed
            show "fbyte s' blks' q = fbyte s blks q"
              if r: "\<not> (pos \<le> q \<and> q < 512 * (end - 1) + e) \<and> blks ! (q div 512) \<noteq> 0"
            proof -
              consider "q div 512 = first" | "q div 512 \<noteq> first" "q div 512 \<le> first \<or> end \<le> q div 512"
                | "first < q div 512" "q div 512 < end" by linarith
              then show ?thesis
              proof cases
                case 1
                have "\<not> pos \<le> q" using r first(2) [OF 1] n by linarith
                then show ?thesis using low [OF q] here [OF 1] old [OF 1] r 1 by simp
              next
                case 2
                then show ?thesis using low [OF q] else' [OF q] by simp
              next
                case 3
                have "pos \<le> q" using 3(1) first_le [of first q] pos by simp
                then show ?thesis using mid(2) [OF 3] r else' [OF q] 3(1) by simp
              qed
            qed
          next
            fix j :: nat assume j: "j < 140"
            have keep: "blks' ! j = b1 ! j" if "j < Suc first \<or> end \<le> j" using t j that unfolding tail_written_def by blast
            show "blks' ! j \<noteq> 0" if r: "pos div 512 \<le> j \<and> j < (pos + length data + 511) div 512"
            proof (cases "j = first")
              case True
              then show ?thesis using keep ready(2) by simp
            next
              case False
              then show ?thesis using t r unfolding assms(3,4) [symmetric] tail_written_def by auto
            qed
            show "blks' ! j = blks ! j" if r: "\<not> (pos div 512 \<le> j \<and> j < (pos + length data + 511) div 512)"
              using keep ready(5) [of j] r unfolding assms(3,4) [symmetric] using f by auto
          qed
        qed
        ultimately show ?thesis using r(3) off_def e_def
          by (intro exI [of _ r] exI [of _ s']) (auto split: option.splits)
      qed
    qed
  qed
qed

section \<open>The functions around the loop\<close>

lemma put_inode_simps [simp]:
  "sectors (put_inode a i s) = sectors s" "sb (put_inode a i s) = sb s"
  "block_bitmap (put_inode a i s) = block_bitmap s" "buf_ok (put_inode a i s) = buf_ok s"
  "inodes (put_inode a i s) = (inodes s)(a \<mapsto> i)" "open_inodes (put_inode a i s) = open_inodes s"
  "slots (put_inode a i s) = slots s" "inode_bitmap (put_inode a i s) = inode_bitmap s"
  by (simp_all add: put_inode_def)

lemma put_inode_ok [simp]:
  "secs_ok (put_inode a i s) = secs_ok s" "layout_ok (put_inode a i s) = layout_ok s"
  "used_block (put_inode a i s) = used_block s" "in_table (put_inode a i s) = in_table s"
  "disk_full (put_inode a i s) = disk_full s" "blocks_ok (put_inode a i s) = blocks_ok s"
  "fbyte (put_inode a i s) = fbyte s" "table_entry (put_inode a i s) = table_entry s"
  by (simp_all add: secs_ok_def layout_ok_def used_block_def in_table_def disk_full_def blocks_ok_def fbyte_def
      block_of_def table_entry_def tbyte_def fun_eq_iff)

lemma put_inode_twice [simp]: "put_inode a i (put_inode a j s) = put_inode a i s"
  by (simp add: put_inode_def)

lemma the_inode_put [simp]: "the_inode a (put_inode a i s) = Inr i"
  by (simp add: the_inode_def)

definition file_ok :: "fs \<Rightarrow> inode \<Rightarrow> bool" where
  "file_ok s i \<longleftrightarrow> length (i_sectors i) = 13 \<and> unat (i_no i) < 4096 \<and> unat (i_size i) \<le> 71680 \<and>
     blocks_ok s (i_sectors i ! 12) (get_blocks_lba i s) \<and>
     (\<forall>q < unat (i_size i). get_blocks_lba i s ! (q div 512) \<noteq> 0)"

lemma words_zero: "words n (replicate m 0) = replicate n 0"
proof (induction n arbitrary: m)
  case (Suc n)
  have "unle (replicate k 0) = (0 :: 'a::len word)" for k by (induction k) simp_all
  then show ?case using Suc by simp
qed simp

lemma blocks_cong: "i_sectors i = i_sectors j \<Longrightarrow> get_blocks_lba i s = get_blocks_lba j s"
  by (simp add: get_blocks_lba_def)

lemma need_indirect_spec:
  assumes "inodes s a = Some i" "length (i_sectors i) = 13" "blocks_ok s (i_sectors i ! 12) (get_blocks_lba i s)"
  defines "blks \<equiv> get_blocks_lba i s"
  shows "\<exists>ok s1 ind. need_indirect a fin s = Inr (ok, put_inode a (i\<lparr>i_sectors := (i_sectors i)[12 := ind]\<rparr>) s1) \<and>
    wframe blks s s1 \<and> (if ok then blocks_ok s1 ind blks \<and>
      get_blocks_lba (i\<lparr>i_sectors := (i_sectors i)[12 := ind]\<rparr>) s1 = blks \<and>
      (\<forall>j < 140. block_of s1 (blks ! j) = block_of s (blks ! j)) \<and> (ind = 0 \<longrightarrow> fin \<le> 12 * of_nat BLOCK_SIZE) \<and>
      (i_sectors i ! 12 \<noteq> 0 \<longrightarrow> ind = i_sectors i ! 12) \<and> (\<forall>l. used_block s l \<longrightarrow> ind = l \<longrightarrow> i_sectors i ! 12 = l)
      else disk_full s1)"
proof (cases "i_sectors i ! 12 = 0 \<and> 12 * of_nat BLOCK_SIZE < fin")
  case False
  have "(i_sectors i)[12 := i_sectors i ! 12] = i_sectors i" by (rule list_update_id)
  moreover have "put_inode a i s = s" using assms(1) by (simp add: put_inode_def fun_upd_idem)
  ultimately show ?thesis using False assms
    by (intro exI [of _ True] exI [of _ s] exI [of _ "i_sectors i ! 12"])
      (auto simp: need_indirect_def the_inode_def)
next
  case True
  note ok = blocks_okD [OF assms(3), folded blks_def]
  obtain r s1 where a: "block_bitmap_alloc s = Inr (r, s1)" "secs_ok s1" "layout_ok s1" "same_fs s s1"
      "same_shape (block_bitmap s) (block_bitmap s1)"
      "\<forall>l. \<not> in_bitmap s l \<longrightarrow> sectors s1 l = sectors s l" "\<forall>l. used_block s l \<longrightarrow> used_block s1 l"
      "case r of None \<Rightarrow> disk_full s1 | Some l \<Rightarrow> \<not> used_block s l \<and> used_block s1 l"
    using block_alloc_spec [OF ok(3,2)] by blast
  have used: "sectors s1 l = sectors s l" if "used_block s l" for l
    using a(6) used_block_apart(3) [OF ok(3) that] by simp
  have frame: "wframe blks s s1"
    using a(4,5,6,7) used table_not_bitmap [OF ok(3)] by (simp add: wframe_def)
  show ?thesis
  proof (cases r)
    case None
    have "(i_sectors i)[12 := 0] = i_sectors i" using True by (metis list_update_id)
    moreover have "put_inode a i s1 = s1"
      using assms(1) same_fs_simps(2) [OF a(4)] by (simp add: put_inode_def fun_upd_idem)
    ultimately show ?thesis using True a(1,8) frame None assms(1)
      by (intro exI [of _ False] exI [of _ s1] exI [of _ 0]) (simp add: need_indirect_def the_inode_def)
  next
    case (Some l)
    then have l: "\<not> used_block s l" "used_block s1 l" using a(8) by simp_all
    have l0: "l \<noteq> 0" "\<not> in_table s1 l" using used_block_apart [OF a(3) l(2)] by simp_all
    have lb: "l \<notin> set blks"
    proof
      assume "l \<in> set blks"
      then obtain j where "j < 140" "blks ! j = l" using ok(1) by (auto simp: in_set_conv_nth)
      then show False using ok(4) [of j] l(1) l0(1) by simp
    qed
    let ?s2 = "s1\<lparr>sectors := (sectors s1)(l := replicate 512 0)\<rparr>"
    let ?i = "i\<lparr>i_sectors := (i_sectors i)[12 := l]\<rparr>"
    have st: "used_block ?s2 = used_block s1" "layout_ok ?s2 = layout_ok s1" "in_table ?s2 = in_table s1"
      by (simp_all add: used_block_def layout_ok_def in_table_def fun_eq_iff)
    have sec: "secs_ok ?s2" using a(2) by (simp add: secs_ok_def BLOCK_SIZE_def)
    have run: "need_indirect a fin s = Inr (True, put_inode a ?i ?s2)"
      using True a(1) Some assms(1) by (simp add: need_indirect_def the_inode_def BLOCK_SIZE_def)
    have "wframe blks s ?s2"
      using frame l(1) l0(2) in_table_same [OF a(4)] unfolding wframe_def st
      by (auto simp: same_fs_sectors)
    moreover have "blocks_ok ?s2 l blks" unfolding blocks_ok_def st
      using ok(1,4,5) a(3,7) l(2) lb sec by blast
    moreover have "get_blocks_lba ?i ?s2 = blks"
      using True l0(1) assms(2) words_zero by (simp add: blks_def get_blocks_lba_def)
    moreover have "\<forall>j < 140. block_of ?s2 (blks ! j) = block_of s (blks ! j)"
      using ok(1,4) used lb nth_mem [of _ blks] by (auto simp: block_of_def)
    ultimately show ?thesis using run True l0(1) l(1)
      by (intro exI [of _ True] exI [of _ ?s2] exI [of _ l]) auto
  qed
qed

lemma put_inode_sectors: "(put_inode a i s)\<lparr>sectors := f\<rparr> = put_inode a i (s\<lparr>sectors := f\<rparr>)"
  by (simp add: put_inode_def)

text \<open>Overwriting sectors that hold no block of the file keeps the file.\<close>

lemma blocks_ok_sectors:
  assumes "blocks_ok s ind blks" "secs_ok (s\<lparr>sectors := f\<rparr>)" "\<And>l. used_block s l \<Longrightarrow> l \<in> set blks \<Longrightarrow> f l = sectors s l"
  shows "blocks_ok (s\<lparr>sectors := f\<rparr>) ind blks"
    "j < 140 \<Longrightarrow> block_of (s\<lparr>sectors := f\<rparr>) (blks ! j) = block_of s (blks ! j)"
proof -
  note ok = blocks_okD [OF assms(1)]
  have st: "used_block (s\<lparr>sectors := f\<rparr>) = used_block s" "layout_ok (s\<lparr>sectors := f\<rparr>) = layout_ok s"
    by (simp_all add: used_block_def layout_ok_def fun_eq_iff)
  show "blocks_ok (s\<lparr>sectors := f\<rparr>) ind blks"
    using assms(1,2) unfolding blocks_ok_def st by blast
  show "block_of (s\<lparr>sectors := f\<rparr>) (blks ! j) = block_of s (blks ! j)" if "j < 140"
    using assms(3) ok(1) ok(4) [OF that] that by (auto simp: block_of_def)
qed

definition new_inode :: "inode \<Rightarrow> u64 \<Rightarrow> u32 list \<Rightarrow> inode" where
  "new_inode i fin all_blocks =
     i\<lparr>i_size := if i_size i < fin then fin else i_size i, i_sectors := take 12 all_blocks @ drop 12 (i_sectors i)\<rparr>"

lemma write_back_spec:
  assumes "inodes s a = Some i" "length (i_sectors i) = 13" "unat (i_no i) < 4096" "blocks_ok s (i_sectors i ! 12) blks"
    and "buf_ok s 1024" "i_sectors i ! 12 = 0 \<Longrightarrow> drop 12 blks = replicate 128 0"
  shows "\<exists>f. write_back a fin blks s = Inr (put_inode a (new_inode i fin blks) (s\<lparr>sectors := f\<rparr>)) \<and>
    blocks_ok (s\<lparr>sectors := f\<rparr>) (i_sectors i ! 12) blks \<and>
    get_blocks_lba (new_inode i fin blks) (s\<lparr>sectors := f\<rparr>) = blks \<and>
    (\<forall>j < 140. block_of (s\<lparr>sectors := f\<rparr>) (blks ! j) = block_of s (blks ! j)) \<and>
    (\<forall>l. used_block s l \<longrightarrow> l \<noteq> i_sectors i ! 12 \<longrightarrow> f l = sectors s l) \<and>
    (\<forall>n < 4096. table_entry (s\<lparr>sectors := f\<rparr>) n =
       (if n = unat (i_no i) then encode_inode (new_inode i fin blks) else table_entry s n))"
proof -
  let ?ind = "i_sectors i ! 12" and ?i = "new_inode i fin blks"
  note ok = blocks_okD [OF assms(4)]
  have tail: "drop 12 (i_sectors i) = [?ind]" using assms(2)
    by (metis Cons_nth_drop_Suc drop_all lessI numeral_eq_Suc order_refl pred_numeral_simps(3) semiring_norm(26,27,28) )
  have sect: "i_sectors ?i = take 12 blks @ [?ind]" "length (i_sectors ?i) = 13" "i_no ?i = i_no i" "i_sectors ?i ! 12 = ?ind"
    using tail ok(1) by (simp_all add: new_inode_def nth_append)
  obtain f where f: "inode_sync ?i (put_inode a ?i s) = Inr ((put_inode a ?i s)\<lparr>sectors := f\<rparr>)"
      "secs_ok ((put_inode a ?i s)\<lparr>sectors := f\<rparr>)"
      "\<forall>n < 4096. table_entry ((put_inode a ?i s)\<lparr>sectors := f\<rparr>) n =
         (if n = unat (i_no i) then encode_inode ?i else table_entry s n)"
      "\<forall>l. \<not> in_table s l \<longrightarrow> f l = sectors s l"
    using inode_sync_spec [of "put_inode a ?i s" ?i] ok(2) sect assms(3,5) by auto
  have secs: "secs_ok (s\<lparr>sectors := f\<rparr>)" using f(2) unfolding put_inode_sectors by simp
  have keep: "f l = sectors s l" if "used_block s l" for l
    using f(4) used_block_apart(2) [OF ok(3) that] by simp
  let ?g = "if ?ind \<noteq> 0 then f(?ind := concat (map (le 4) (drop 12 blks))) else f"
  have len: "length (concat (map (le 4) (drop 12 blks))) = 512" using ok(1) by simp
  have secg: "secs_ok (s\<lparr>sectors := ?g\<rparr>)" using secs len by (simp add: secs_ok_def BLOCK_SIZE_def)
  have keepg: "?g l = sectors s l" if "used_block s l" "l \<noteq> ?ind" for l using keep [OF that(1)] that(2) by simp
  have run: "write_back a fin blks s = Inr (put_inode a ?i (s\<lparr>sectors := ?g\<rparr>))"
  proof -
    have "write_back a fin blks s = rbind (inode_sync ?i (put_inode a ?i s)) (\<lambda>s.
        Inr (if i_sectors ?i ! 12 \<noteq> 0 then ide_put (i_sectors ?i ! 12) 1 (concat (map (le 4) (drop 12 blks))) s else s))"
      by (cases "i_size i < fin") (simp_all add: write_back_def the_inode_def assms(1) Let_def new_inode_def cong: if_cong)
    also have "\<dots> = Inr (put_inode a ?i (s\<lparr>sectors := ?g\<rparr>))"
      using f(1) sect(4) len by (simp add: put_inode_sectors BLOCK_SIZE_def)
    finally show ?thesis .
  qed
  moreover have "blocks_ok (s\<lparr>sectors := ?g\<rparr>) ?ind blks"
      "\<forall>j < 140. block_of (s\<lparr>sectors := ?g\<rparr>) (blks ! j) = block_of s (blks ! j)"
    using blocks_ok_sectors [OF assms(4) secg] keepg ok(7) used_block_apart(1) [OF ok(3)] by metis+
  moreover have "get_blocks_lba ?i (s\<lparr>sectors := ?g\<rparr>) = blks"
  proof (cases "?ind = 0")
    case True
    then have "take 12 blks @ replicate 128 0 = blks" by (metis append_take_drop_id assms(6))
    with True show ?thesis using ok(1) sect by (simp add: get_blocks_lba_def)
  next
    case False
    then show ?thesis using words_le [of "drop 12 blks" "[]"] ok(1) sect by (simp add: get_blocks_lba_def)
  qed
  moreover have "table_entry (s\<lparr>sectors := ?g\<rparr>) n = (if n = unat (i_no i) then encode_inode ?i else table_entry s n)"
    if n: "n < 4096" for n
  proof -
    have "tbyte (s\<lparr>sectors := ?g\<rparr>) (160 * n + j) = tbyte (s\<lparr>sectors := f\<rparr>) (160 * n + j)" if "j < 160" for j
    proof -
      have "(160 * n + j) div 512 < 1280" using that n by simp
      then have "in_table s (inode_table_lba (sb s) + of_nat ((160 * n + j) div 512))" by (auto simp: in_table_def)
      then have "?ind \<noteq> 0 \<longrightarrow> inode_table_lba (sb s) + of_nat ((160 * n + j) div 512) \<noteq> ?ind"
        using used_block_apart(2) [OF ok(3) ok(6)] by auto
      then show ?thesis by (simp add: tbyte_def)
    qed
    then have "table_entry (s\<lparr>sectors := ?g\<rparr>) n = table_entry (s\<lparr>sectors := f\<rparr>) n"
      unfolding table_entry_def by (intro map_cong refl) auto
    then show ?thesis using f(3) n unfolding put_inode_sectors by simp
  qed
  ultimately show ?thesis using keepg by blast
qed

lemma unlock_put:
  assumes "inode_lock i \<noteq> 0"
  shows "unlock_inode a (put_inode a i s) = Inr (put_inode a (i\<lparr>inode_lock := inode_lock i - 1\<rparr>) s)"
  using assms by (simp add: unlock_inode_def)

lemma file_ok_cong:
  "i_no i = i_no j \<Longrightarrow> i_size i = i_size j \<Longrightarrow> i_sectors i = i_sectors j \<Longrightarrow> file_ok s i = file_ok s j"
  by (simp add: file_ok_def get_blocks_lba_def)

lemma file_bytes_cong:
  "i_size i = i_size j \<Longrightarrow> i_sectors i = i_sectors j \<Longrightarrow> file_bytes s i = file_bytes s j"
  by (simp add: file_bytes_def get_blocks_lba_def)

lemma same_fs_put: "same_fs s t \<Longrightarrow> same_fs (put_inode a i s) (put_inode a i t)"
  by (cases s; cases t) (simp add: same_fs_def put_inode_def)

lemma file_put [simp]: "file_ok (put_inode a k s) i = file_ok s i" "file_bytes (put_inode a k s) i = file_bytes s i"
  by (simp_all add: file_ok_def file_bytes_def)

lemma wframe_inodes: "wframe blks s t \<Longrightarrow> inodes t = inodes s \<and> buf_ok t = buf_ok s"
  using same_fs_simps by (auto simp: wframe_def)

lemma wframe_table: "wframe blks s t \<Longrightarrow> n < 4096 \<Longrightarrow> table_entry t n = table_entry s n"
proof -
  assume w: "wframe blks s t" "n < 4096"
  have sb: "sb t = sb s" using same_fs_simps w(1) by (simp add: wframe_def)
  have "tbyte t (160 * n + j) = tbyte s (160 * n + j)" if "j < 160" for j
  proof -
    have "(160 * n + j) div 512 < 1280" using that w(2) by simp
    then have "in_table s (inode_table_lba (sb s) + of_nat ((160 * n + j) div 512))" by (auto simp: in_table_def)
    then show ?thesis using w(1) by (simp add: tbyte_def sb wframe_def)
  qed
  then show ?thesis unfolding table_entry_def by (intro map_cong refl) auto
qed

text \<open>What a completed write has done to file \<open>i\<close> at address \<open>a\<close>.\<close>

definition file_written :: "byte list \<Rightarrow> nat \<Rightarrow> u64 \<Rightarrow> fs \<Rightarrow> inode \<Rightarrow> fs \<Rightarrow> inode \<Rightarrow> bool" where
  "file_written data pos a s i s' i' \<longleftrightarrow>
     same_fs (put_inode a i' s) s' \<and> i' = i\<lparr>i_size := i_size i', i_sectors := i_sectors i'\<rparr> \<and>
     unat (i_size i') = max (unat (i_size i)) (pos + length data) \<and>
     (pos \<le> unat (i_size i) \<longrightarrow> file_ok s' i') \<and>
     (\<forall>q < unat (i_size i').
       (pos \<le> q \<and> q < written_end pos (length data) \<longrightarrow> file_bytes s' i' ! q = data ! (q - pos)) \<and>
       (\<not> (pos \<le> q \<and> q < written_end pos (length data)) \<and> q < unat (i_size i) \<longrightarrow> file_bytes s' i' ! q = file_bytes s i ! q)) \<and>
     (\<forall>n < 4096. n \<noteq> unat (i_no i) \<longrightarrow> table_entry s' n = table_entry s n) \<and>
     decode_inode (table_entry s' (unat (i_no i))) = i'\<lparr>inode_lock := 0\<rparr> \<and>
     (\<forall>l. used_block s l \<longrightarrow> l \<notin> set (get_blocks_lba i s) \<longrightarrow> l \<noteq> i_sectors i ! 12 \<longrightarrow> sectors s' l = sectors s l)"

lemma inode_write_spec:
  assumes "inodes s a = Some i" "file_ok s i" "\<And>n. buf_ok s n" "unat pos + length data \<le> 71680"
  shows "\<exists>r s'. inode_write a data pos s = Inr (r, s') \<and>
    (case r of None \<Rightarrow> disk_full s'
     | Some n \<Rightarrow> n = of_nat (length data) \<and> (\<exists>i'. file_written data (unat pos) a s i s' i'))"
proof -
  define p len fin blks where "p = unat pos" and "len = length data" and "fin = pos + of_nat len" and "blks = get_blocks_lba i s"
  have lenw: "unat (of_nat len :: u64) = len" using assms(4) by (simp add: len_def unsigned_of_nat take_bit_nat_eq_self)
  have "unat fin = p + len"
    using assms(4) lenw unfolding fin_def p_def len_def by (subst unat_add_lem [THEN iffD1]; simp)
  then have fin: "unat fin = p + len" "p + len \<le> 71680" using assms(4) by (simp_all add: p_def len_def)
  have small: "\<not> MAX_FILE_SIZE < fin" using fin by (simp add: MAX_FILE_SIZE_def word_less_nat_alt)
  define first "end" where "first = p div 512" and "end = (p + len + 511) div 512"
  have be: "unat (pos div of_nat BLOCK_SIZE) = first" "unat (DIV_ROUND_UP fin (of_nat BLOCK_SIZE)) = end" "first \<le> end"
    using round_up_512 [of fin] fin by (simp_all add: BLOCK_SIZE_def unat_div first_def p_def end_def div_le_mono)
  note fok = assms(2) [unfolded file_ok_def]
  let ?l = "i\<lparr>inode_lock := inode_lock i + 1\<rparr>"
  let ?sl = "put_inode a ?l s"
  have lk: "lock_inode a s = Inr ?sl" using assms(1) by (simp add: lock_inode_def the_inode_def)
  have bl: "get_blocks_lba ?l ?sl = blks" by (simp add: blks_def get_blocks_lba_def)
  obtain ok s1 ind where ni: "need_indirect a fin ?sl = Inr (ok, put_inode a (?l\<lparr>i_sectors := (i_sectors i)[12 := ind]\<rparr>) s1)"
      "wframe blks ?sl s1" "if ok then blocks_ok s1 ind blks \<and>
      get_blocks_lba (?l\<lparr>i_sectors := (i_sectors i)[12 := ind]\<rparr>) s1 = blks \<and>
      (\<forall>j < 140. block_of s1 (blks ! j) = block_of s (blks ! j)) \<and> (ind = 0 \<longrightarrow> fin \<le> 12 * of_nat BLOCK_SIZE) \<and>
      (i_sectors i ! 12 \<noteq> 0 \<longrightarrow> ind = i_sectors i ! 12) \<and> (\<forall>l. used_block s l \<longrightarrow> ind = l \<longrightarrow> i_sectors i ! 12 = l)
      else disk_full s1"
  proof -
    have "blocks_ok ?sl (i_sectors ?l ! 12) (get_blocks_lba ?l ?sl)" using fok bl by (simp add: blks_def)
    from need_indirect_spec [OF _ _ this, of a fin] show thesis
      using that fok unfolding bl by (simp cong: if_cong) blast
  qed
  let ?i1 = "?l\<lparr>i_sectors := (i_sectors i)[12 := ind]\<rparr>"
  let ?s1 = "put_inode a ?i1 s1"
  note unl = unlock_put [of ?i1 a s1]
  have start: "inode_write a data pos s = rbind (need_indirect a fin ?sl) (\<lambda>(ok, s).
        if \<not> ok then rbind (unlock_inode a s) (\<lambda>s. Inr (None, s))
        else write_data a data pos s)"
    using small assms(3) lk by (simp add: inode_write_def len_def [symmetric] fin_def [symmetric] Let_def)
  have data: "write_data a data pos u =
      rbind (write_blocks [first..<end] first end (p mod 512) ((p + len) mod 512) data (get_blocks_lba k u) u) (\<lambda>(blks, s).
      case blks of
        None \<Rightarrow> rbind (unlock_inode a s) (\<lambda>s. Inr (None, s))
      | Some all_blocks \<Rightarrow> rbind (write_back a fin all_blocks s) (\<lambda>s.
          rbind (unlock_inode a s) (\<lambda>s. Inr (Some (of_nat (length data)), s))))" if "inodes u a = Some k" for u k
    using be fin(1) that
    by (simp add: write_data_def len_def [symmetric] fin_def [symmetric] the_inode_def Let_def)
      (simp add: BLOCK_SIZE_def p_def len_def)
  show ?thesis
  proof (cases ok)
    case False
    then show ?thesis using start ni unl
      by (intro exI [of _ None] exI [of _ "put_inode a (?i1\<lparr>inode_lock := inode_lock i\<rparr>) s1"]) simp
  next
    case True
    have ind: "blocks_ok s1 ind blks" "get_blocks_lba ?i1 s1 = blks"
        "\<forall>j < 140. block_of s1 (blks ! j) = block_of s (blks ! j)" "ind = 0 \<longrightarrow> fin \<le> 12 * of_nat BLOCK_SIZE"
        "i_sectors i ! 12 \<noteq> 0 \<longrightarrow> ind = i_sectors i ! 12" "\<forall>l. used_block s l \<longrightarrow> ind = l \<longrightarrow> i_sectors i ! 12 = l"
      using ni(3) unfolding if_P [OF True] by blast+
    obtain r s2 where wl: "write_blocks [first..<end] first end (p mod 512) ((p + len) mod 512) data blks ?s1 = Inr (r, s2)"
        "wframe blks ?s1 s2" "case r of None \<Rightarrow> disk_full s2 \<and> secs_ok s2 \<and> layout_ok s2
          | Some blks' \<Rightarrow> blocks_ok s2 ind blks' \<and> range_written data p ?s1 blks s2 blks'"
      using write_loop [of ?s1 ind blks p data first "end"] ind(1) fin(2) unfolding len_def first_def end_def by auto
    have i1: "inodes s2 a = Some ?i1" using wframe_inodes [OF wl(2)] by simp
    then have s2: "put_inode a ?i1 s2 = s2" by (simp add: put_inode_def fun_upd_idem)
    show ?thesis
    proof (cases r)
      case None
      then show ?thesis using start data [of ?s1] ni(1) True wl ind(2) unlock_put [of ?i1 a s2] s2
        by (intro exI [of _ None] exI [of _ "put_inode a (?i1\<lparr>inode_lock := inode_lock i\<rparr>) s2"]) simp
    next
      case (Some blks')
      have b2: "blocks_ok s2 ind blks'" and rw: "range_written data p ?s1 blks s2 blks'"
        using wl(3) Some by simp_all
      have i1': "length (i_sectors ?i1) = 13" "i_sectors ?i1 ! 12 = ind" using fok by simp_all
      have "drop 12 blks' = replicate 128 0" if "ind = 0"
      proof (rule nth_equalityI)
        have "end \<le> 12" using that ind(4) fin by (simp add: end_def BLOCK_SIZE_def word_le_nat_alt)
        moreover have "i_sectors i ! 12 = 0" using ind(5) that by blast
        then have "blks ! (12 + j) = 0" if "j < 128" for j
          using that fok by (simp add: blks_def get_blocks_lba_def nth_append)
        ultimately show "drop 12 blks' ! j = replicate 128 0 ! j" if "j < length (drop 12 blks')" for j
          using rw that blocks_okD(1) [OF b2] unfolding range_written_def first_def [symmetric]
          by (simp add: len_def [symmetric] end_def [symmetric])
        show "length (drop 12 blks') = length (replicate 128 0 :: u32 list)" using blocks_okD(1) [OF b2] by simp
      qed
      then obtain f where wb: "write_back a fin blks' s2 = Inr (put_inode a (new_inode ?i1 fin blks') (s2\<lparr>sectors := f\<rparr>))"
          "blocks_ok (s2\<lparr>sectors := f\<rparr>) ind blks'"
          "get_blocks_lba (new_inode ?i1 fin blks') (s2\<lparr>sectors := f\<rparr>) = blks'"
          "\<forall>j < 140. block_of (s2\<lparr>sectors := f\<rparr>) (blks' ! j) = block_of s2 (blks' ! j)"
          "\<forall>l. used_block s2 l \<longrightarrow> l \<noteq> ind \<longrightarrow> f l = sectors s2 l"
          "\<forall>n < 4096. table_entry (s2\<lparr>sectors := f\<rparr>) n =
             (if n = unat (i_no i) then encode_inode (new_inode ?i1 fin blks') else table_entry s2 n)"
        using write_back_spec [of s2 a ?i1 blks' fin] i1 i1' fok b2 wframe_inodes [OF wl(2)] wframe_inodes [OF ni(2)]
          assms(3) by auto
      define i2 t where "i2 = (new_inode ?i1 fin blks')\<lparr>inode_lock := inode_lock i\<rparr>"
        and "t = s2\<lparr>sectors := f\<rparr>"
      let ?s' = "put_inode a i2 t"
      have "unlock_inode a (put_inode a (new_inode ?i1 fin blks') t) = Inr ?s'"
        using unlock_put [of "new_inode ?i1 fin blks'" a t] by (simp add: new_inode_def i2_def)
      then have run: "inode_write a data pos s = Inr (Some (of_nat (length data)), ?s')"
        using start data [of ?s1] ni(1) True wl(1) ind(2) Some wb(1) by (simp add: t_def)
      have i2: "i_sectors i2 = i_sectors (new_inode ?i1 fin blks')" "i_no i2 = i_no i" "length (i_sectors i2) = 13"
          "i_sectors i2 ! 12 = ind" "unat (i_size i2) = max (unat (i_size i)) (p + len)"
          "i2 = i\<lparr>i_size := i_size i2, i_sectors := i_sectors i2\<rparr>"
        using fok blocks_okD(1) [OF b2] fin(1)
        by (auto simp: i2_def new_inode_def nth_append word_less_nat_alt max_def)
      have gb: "get_blocks_lba i2 t = blks'" using wb(3) blocks_cong [OF i2(1)] by (simp add: t_def)
      have fb: "fbyte t blks' q = fbyte s2 blks' q" if "q < 71680" for q
        using wb(4) that by (simp add: fbyte_def t_def)
      have ob: "fbyte ?s1 blks q = fbyte s blks q" if "q < 71680" for q
        using ind(3) that by (simp add: fbyte_def)
      have size: "unat (i_size i2) \<le> 71680" using i2(5) fok fin(2) by simp
      have bytes: "file_bytes ?s' i2 ! q = fbyte s2 blks' q" if "q < unat (i_size i2)" for q
        using that fb size by (simp add: nth_file_bytes gb)
      have nz: "blks ! (q div 512) \<noteq> 0" if "q < unat (i_size i)" for q
        using fok that by (simp add: blks_def)
      have rng: "fbyte s2 blks' q = data ! (q - p)" if "q < 71680" "p \<le> q \<and> q < written_end p len" for q
        using rw that unfolding range_written_def len_def by blast
      have old: "fbyte s2 blks' q = fbyte s blks q"
        if "q < 71680" "\<not> (p \<le> q \<and> q < written_end p len)" "q < unat (i_size i)" for q
        using rw that nz [OF that(3)] ob unfolding range_written_def len_def by simp
      have table: "table_entry ?s' n = (if n = unat (i_no i) then encode_inode (new_inode ?i1 fin blks') else table_entry s n)"
        if "n < 4096" for n
        using wb(6) that wframe_table [OF wl(2)] wframe_table [OF ni(2)] by (simp add: t_def)
      have dec: "decode_inode (table_entry ?s' (unat (i_no i))) = i2\<lparr>inode_lock := 0\<rparr>"
        using table [of "unat (i_no i)"] decode_encode [of "new_inode ?i1 fin blks'" "[]"] fok i2(1,3)
        by (simp add: i2_def)
      have "file_ok ?s' i2" if pz: "p \<le> unat (i_size i)"
      proof -
        have "blks' ! (q div 512) \<noteq> 0" if q: "q < unat (i_size i2)" for q
        proof (cases "first \<le> q div 512 \<and> q div 512 < end")
          case True
          then show ?thesis using rw q size unfolding range_written_def
            by (simp add: first_def end_def len_def)
        next
          case False
          have "q < unat (i_size i)"
          proof (rule ccontr)
            assume "\<not> q < unat (i_size i)"
            then have "p \<le> q" "q < p + len" using pz q i2(5) by auto
            then have "first \<le> q div 512" "512 * (q div 512) < p + len" by (simp_all add: first_def div_le_mono)
            moreover have "q div 512 < end" using calculation(2) by (simp add: end_def)
            ultimately show False using False by simp
          qed
          moreover have "blks' ! (q div 512) = blks ! (q div 512)"
            using rw False q size unfolding range_written_def by (simp add: first_def end_def len_def)
          ultimately show ?thesis using nz by simp
        qed
        then show ?thesis unfolding file_put file_ok_def gb i2(4) using i2(2,3) size fok wb(2) [folded t_def] gb by simp
      qed
      moreover have "f l = sectors s l"
        if l: "used_block s l" "l \<notin> set blks" "l \<noteq> i_sectors i ! 12" for l
      proof -
        have "l \<noteq> ind" using ind(6) l by blast
        moreover have "used_block s1 l" "sectors s1 l = sectors s l"
          using ni(2) l unfolding wframe_def by simp_all
        moreover have "used_block s2 l" "sectors s2 l = sectors s1 l"
          using wl(2) l calculation(2) unfolding wframe_def by simp_all
        ultimately show ?thesis using wb(5) by simp
      qed
      moreover have "same_fs (put_inode a i2 s) ?s'"
      proof -
        have "same_fs (put_inode a i2 ?sl) (put_inode a i2 s1)" "same_fs (put_inode a i2 ?s1) (put_inode a i2 t)"
          using ni(2) wl(2) same_fs_put same_fs_sectors unfolding wframe_def t_def by blast+
        then show ?thesis using same_fs_trans by simp
      qed
      ultimately have "file_written data p a s i ?s' i2"
        unfolding file_written_def using i2(5,6) table dec bytes rng old size
        by (auto simp: len_def nth_file_bytes blks_def t_def)
      then show ?thesis using run by (intro exI [of _ "Some (of_nat (length data))"] exI [of _ ?s']) (auto simp: p_def)
    qed
  qed
qed

section \<open>Properties\<close>

text \<open>A small partition for the witnesses: one file of 1100 bytes in three blocks.\<close>

definition demo_inode :: inode where
  "demo_inode = \<lparr>i_no = 1, i_size = 1100, i_open_cnts = 1, f_type = FT_REGULAR, inode_lock = 0,
     i_sectors = [1283, 1284, 1285, 0, 0, 0, 0, 0, 0, 0, 0, 0, 0]\<rparr>"

definition demo_fs :: fs where
  "demo_fs = \<lparr>sectors = (\<lambda>_. replicate 512 0),
     sb = \<lparr>magic = 0, sec_cnt = 8192, lba_base = 0, inode_cnt = 4096, block_bitmap_lba = 1, block_bitmap_sects = 1,
       inode_bitmap_lba = 2, inode_bitmap_sects = 1, inode_table_lba = 3, inode_table_sects = 1280,
       data_start_lba = 1283, root_inode_no = 0, dir_entry_size = 32\<rparr>,
     block_bitmap = \<lparr>bytes_len = 512, bits = 7 # replicate 511 0\<rparr>,
     inode_bitmap = \<lparr>bytes_len = 512, bits = 3 # replicate 511 0\<rparr>,
     open_inodes = [0x2000], inodes = [0x2000 \<mapsto> demo_inode], root_dir_inode = 0x1000, slots = [0x3000, 0x4000],
     buf_ok = (\<lambda>_. True)\<rparr>"

lemma demo_blocks: "get_blocks_lba demo_inode demo_fs = [1283, 1284, 1285] @ replicate 137 0"
  by (simp add: get_blocks_lba_def demo_inode_def numeral_eq_Suc)

lemma demo_file: "inodes demo_fs 0x2000 = Some demo_inode" "buf_ok demo_fs n" "file_ok demo_fs demo_inode"
proof -
  have nth: "([1283, 1284, 1285] @ replicate 137 0 :: u32 list) ! j = (if j < 3 then 1283 + of_nat j else 0)" if "j < 140" for j
  proof -
    consider "j = 0" | "j = 1" | "j = 2" | "3 \<le> j" by linarith
    then show ?thesis using that by cases (simp_all add: nth_append)
  qed
  have used: "j \<in> used_bits (block_bitmap demo_fs)" if "j < 3" for j
    using that by (auto simp: demo_fs_def used_bits_def numeral_3_eq_3 less_Suc_eq)
  have "blocks_ok demo_fs 0 (get_blocks_lba demo_inode demo_fs)"
    unfolding demo_blocks blocks_ok_def
  proof (intro conjI allI impI)
    fix j assume j: "j < 140" "([1283, 1284, 1285] @ replicate 137 0 :: u32 list) ! j \<noteq> 0"
    have "j < 3" by (rule ccontr) (use j nth [OF j(1)] in simp)
    then show "used_block demo_fs (([1283, 1284, 1285] @ replicate 137 0) ! j)"
      unfolding used_block_def nth [OF j(1)] using used by (auto simp: demo_fs_def)
  next
    fix j k assume jk: "j < 140" "k < 140" "([1283, 1284, 1285] @ replicate 137 0 :: u32 list) ! j \<noteq> 0"
      "([1283, 1284, 1285] @ replicate 137 0 :: u32 list) ! j = ([1283, 1284, 1285] @ replicate 137 0) ! k"
    have "j < 3" by (rule ccontr) (use jk nth [OF jk(1)] in simp)
    moreover have "k < 3" by (rule ccontr) (use jk nth [OF jk(1)] nth [OF jk(2)] in simp)
    ultimately have "(of_nat j :: u32) = of_nat k" using jk(4) nth [OF jk(1)] nth [OF jk(2)] by simp
    then show "j = k" using jk(1,2) by (simp add: of_nat_u32_inj)
  qed (simp_all add: demo_fs_def secs_ok_def BLOCK_SIZE_def layout_ok_def)
  moreover have "get_blocks_lba demo_inode demo_fs ! (q div 512) \<noteq> 0" if "q < 1100" for q
  proof -
    have "q div 512 < 3" using that by simp
    moreover have "(1283 + of_nat j :: u32) \<noteq> 0" if "j < 3" for j
      using that by (auto simp: numeral_3_eq_3 less_Suc_eq)
    ultimately show ?thesis unfolding demo_blocks by (subst nth) simp_all
  qed
  ultimately show "file_ok demo_fs demo_inode" by (simp add: file_ok_def) (simp add: demo_inode_def)
qed (simp_all add: demo_fs_def)

lemma inode_read_ok:
  assumes "inodes s a = Some i" "file_ok s i" "\<And>n. buf_ok s n" "unat pos + unat count < 2 ^ 62"
  shows "inode_read a count pos s = Inr (if unat (i_size i) \<le> unat pos \<and> (0 < count \<or> i_size i < pos) then None
      else Some (take (unat count) (drop (unat pos) (file_bytes s i))), s)"
  using assms(2) by (intro inode_read_spec assms) (auto simp: file_ok_def blocks_ok_def)

text \<open>
  Reading: \<^verbatim>\<open>inode_read\<close> returns exactly the slice of the file's contents at the position, cut at the end
  of the file, and -1 when the position is at or behind the end; holes read as zeros; nothing changes.
\<close>
theorem inode_read_slice:
  assumes "inodes s a = Some i" "file_ok s i" "\<And>n. buf_ok s n" "unat pos + unat count < 2 ^ 62"
  shows "inode_read a count pos s = Inr (if unat (i_size i) \<le> unat pos \<and> (0 < count \<or> i_size i < pos) then None
      else Some (take (unat count) (drop (unat pos) (file_bytes s i))), s)"
  by (rule inode_read_ok [OF assms])

theorem inode_read_slice_witness:
  "inode_read 0x2000 1000 500 demo_fs = Inr (if unat (i_size demo_inode) \<le> unat (500 :: u64) \<and> (0 < (1000 :: u64) \<or> i_size demo_inode < 500)
      then None else Some (take (unat (1000 :: u64)) (drop (unat (500 :: u64)) (file_bytes demo_fs demo_inode))), demo_fs)"
  by (rule inode_read_slice [OF demo_file(1,3,2)]) simp

definition blocks_used :: "fs \<Rightarrow> inode \<Rightarrow> u32 set" where
  "blocks_used s i = insert (i_sectors i ! 12) (set (get_blocks_lba i s))"

lemma nth_overwrite:
  assumes "pos \<le> length old"
  shows "length (splice pos new old) = max (length old) (pos + length new)"
    "q < length (splice pos new old) \<Longrightarrow>
     splice pos new old ! q = (if pos \<le> q \<and> q < pos + length new then new ! (q - pos) else old ! q)"
  using assms by (auto simp: splice_def nth_append min_def)

lemma round_up_last: "n mod 512 \<noteq> 0 \<Longrightarrow> 512 * ((n + 511) div 512 - 1) + n mod 512 = (n :: nat)"
proof -
  assume "n mod 512 \<noteq> 0"
  moreover define k r where "k = n div 512" and "r = n mod 512"
  ultimately have n: "n = 512 * k + r" "r < 512" "r \<noteq> 0" by simp_all
  then have "(n + 511) div 512 = k + 1" by (intro div_nat_eqI) simp_all
  then show ?thesis using n(1) unfolding r_def [symmetric] by simp
qed

lemma inode_write_splice:
  assumes "inodes s a = Some i" "file_ok s i" "\<And>n. buf_ok s n"
    and "unat pos \<le> unat (i_size i)" "unat pos + length data \<le> 71680"
    and "(unat pos + length data) mod 512 \<noteq> 0 \<or> unat pos + length data \<le> 512 * (unat pos div 512 + 1)"
  shows "\<exists>r s'. inode_write a data pos s = Inr (r, s') \<and>
    (case r of None \<Rightarrow> disk_full s'
     | Some n \<Rightarrow> n = of_nat (length data) \<and> (\<exists>i'. i' = i\<lparr>i_size := i_size i', i_sectors := i_sectors i'\<rparr> \<and>
         same_fs (put_inode a i' s) s' \<and> inodes s' a = Some i' \<and> file_ok s' i' \<and> i_no i' = i_no i \<and>
         file_bytes s' i' = splice (unat pos) data (file_bytes s i) \<and>
         (data \<noteq> [] \<longrightarrow> inode_read a n pos s' = Inr (Some data, s')) \<and>
         (\<forall>k. file_ok s k \<and> blocks_used s k \<inter> blocks_used s i \<subseteq> {0} \<longrightarrow> file_bytes s' k = file_bytes s k)))"
proof -
  let ?p = "unat pos"
  have we: "written_end ?p (length data) = ?p + length data"
  proof (cases "(?p + length data + 511) div 512 \<le> ?p div 512 + 1")
    case False
    define k where "k = ?p div 512"
    have "k + 2 \<le> (?p + length data + 511) div 512" using False by (simp add: k_def)
    then have "(k + 2) * 512 \<le> ?p + length data + 511" by (simp only: less_eq_div_iff_mult_less_eq zero_less_numeral)
    then have "\<not> ?p + length data \<le> 512 * (?p div 512 + 1)" unfolding k_def [symmetric] by simp
    then have "(?p + length data) mod 512 \<noteq> 0" using assms(6) by blast
    then have "512 * ((?p + length data + 511) div 512 - 1) + (?p + length data) mod 512 = ?p + length data"
      by (rule round_up_last)
    with False show ?thesis by (simp add: written_end_def)
  qed (simp add: written_end_def)
  obtain r s' where w: "inode_write a data pos s = Inr (r, s')" "case r of None \<Rightarrow> disk_full s'
     | Some n \<Rightarrow> n = of_nat (length data) \<and> (\<exists>i'. file_written data ?p a s i s' i')"
    using inode_write_spec [OF assms(1-3,5)] by blast
  show ?thesis
  proof (cases r)
    case None
    then show ?thesis using w by (intro exI [of _ None] exI [of _ s']) simp
  next
    case (Some n)
    then obtain i' where i': "n = of_nat (length data)" "file_written data ?p a s i s' i'" using w(2) by auto
    note fw = i'(2) [unfolded file_written_def we]
    have size: "unat (i_size i') = max (unat (i_size i)) (?p + length data)" using fw by blast
    have sf: "same_fs (put_inode a i' s) s'" using fw by blast
    have ok: "file_ok s' i'" "inodes s' a = Some i'" "i_no i' = i_no i" "buf_ok s' m" for m
    proof -
      have "i' = i\<lparr>i_size := i_size i', i_sectors := i_sectors i'\<rparr>" using fw by blast
      then show "i_no i' = i_no i" by (metis inode.select_convs(1) inode.surjective inode.update_convs(2,6))
    qed (use fw assms(3,4) same_fs_simps [OF sf] in auto)
    have new: "file_bytes s' i' = splice ?p data (file_bytes s i)"
    proof (rule nth_equalityI)
      have le: "?p \<le> length (file_bytes s i)" using assms(4) by simp
      show len: "length (file_bytes s' i') = length (splice ?p data (file_bytes s i))"
        unfolding nth_overwrite(1) [OF le] by (simp add: size)
      fix q assume q: "q < length (file_bytes s' i')"
      have "q < unat (i_size i)" if "\<not> (?p \<le> q \<and> q < ?p + length data)"
        using that q size assms(4) by auto
      moreover have "(?p \<le> q \<and> q < ?p + length data \<longrightarrow> file_bytes s' i' ! q = data ! (q - ?p)) \<and>
          (\<not> (?p \<le> q \<and> q < ?p + length data) \<and> q < unat (i_size i) \<longrightarrow> file_bytes s' i' ! q = file_bytes s i ! q)"
        using fw q by simp
      ultimately show "file_bytes s' i' ! q = splice ?p data (file_bytes s i) ! q"
        using nth_overwrite(2) [OF le, of q data] q len by auto
    qed
    have "inode_read a n pos s' = Inr (Some data, s')" if "data \<noteq> []"
    proof -
      have n: "unat n = length data" using assms(5) i'(1) by (simp add: unsigned_of_nat take_bit_nat_eq_self)
      have "inode_read a n pos s' = Inr (if unat (i_size i') \<le> ?p \<and> (0 < n \<or> i_size i' < pos) then None
          else Some (take (length data) (drop ?p (splice ?p data (file_bytes s i)))), s')"
        using inode_read_ok [OF ok(2,1,4), of pos n] assms(5) unfolding n new by simp
      moreover have "\<not> unat (i_size i') \<le> ?p" using size that by simp
      ultimately show ?thesis using assms(4) by (simp add: splice_def)
    qed
    moreover have "file_bytes s' k = file_bytes s k" if k: "file_ok s k" "blocks_used s k \<inter> blocks_used s i \<subseteq> {0}" for k
    proof -
      have ok: "blocks_ok s (i_sectors k ! 12) (get_blocks_lba k s)" "unat (i_size k) \<le> 71680"
        using k(1) by (simp_all add: file_ok_def)
      note bk = blocks_okD [OF ok(1)]
      have keep: "sectors s' l = sectors s l" if "l \<in> blocks_used s k" "l \<noteq> 0" "used_block s l" for l
        using fw k(2) that unfolding blocks_used_def by blast
      have "block_of s' (get_blocks_lba k s ! j) = block_of s (get_blocks_lba k s ! j)" if "j < 140" for j
        using keep bk(1) bk(4) [OF that] that by (auto simp: block_of_def blocks_used_def)
      moreover have "get_blocks_lba k s' = get_blocks_lba k s"
        using keep [of "i_sectors k ! 12"] bk(6) by (auto simp: get_blocks_lba_def blocks_used_def)
      ultimately show ?thesis using ok(2) unfolding file_bytes_def fbyte_def by (intro map_cong refl) simp
    qed
    moreover have "i' = i\<lparr>i_size := i_size i', i_sectors := i_sectors i'\<rparr>" using fw by blast
    ultimately show ?thesis using w(1) i'(1) ok new Some sf
      by (intro exI [of _ "Some n"] exI [of _ s'] conjI) (simp, unfold option.case(2), blast)
  qed
qed



text \<open>
  C17. A write that covers several blocks and ends exactly at the end of a block reports the full count but
  does not store its last 512 bytes: \<^verbatim>\<open>block_end_off\<close> is 0 then, so nothing is copied into the last block,
  which keeps its old contents.
\<close>
theorem inode_write_drops_last_block:
  assumes "inodes s a = Some i" "file_ok s i" "\<And>n. buf_ok s n"
    and "(unat pos + length data) mod 512 = 0" "512 * (unat pos div 512 + 1) < unat pos + length data"
    and "unat pos + length data \<le> unat (i_size i)"
  shows "\<exists>r s'. inode_write a data pos s = Inr (r, s') \<and>
    (case r of None \<Rightarrow> disk_full s'
     | Some n \<Rightarrow> n = of_nat (length data) \<and> (\<exists>i'. inodes s' a = Some i' \<and>
         (\<forall>q. unat pos + length data - 512 \<le> q \<and> q < unat pos + length data \<longrightarrow>
            file_bytes s' i' ! q = file_bytes s i ! q)))"
proof -
  let ?p = "unat pos"
  have fin: "?p + length data \<le> 71680" using assms(2,6) by (simp add: file_ok_def)
  have we: "written_end ?p (length data) = ?p + length data - 512"
  proof -
    obtain m where m: "?p + length data = 512 * m" using assms(4) by (auto elim: dvdE simp: mod_eq_0_iff_dvd)
    then have "(?p + length data + 511) div 512 = m" by (intro div_nat_eqI) simp_all
    moreover have "?p div 512 + 1 < m" using assms(5) m by simp
    moreover have "512 * (m - 1) = 512 * m - 512" by (simp add: right_diff_distrib')
    ultimately show ?thesis using m assms(4) by (simp add: written_end_def)
  qed
  obtain r s' where w: "inode_write a data pos s = Inr (r, s')" "case r of None \<Rightarrow> disk_full s'
     | Some n \<Rightarrow> n = of_nat (length data) \<and> (\<exists>i'. file_written data ?p a s i s' i')"
    using inode_write_spec [OF assms(1-3) fin] by blast
  have "\<exists>i'. inodes s' a = Some i' \<and> (\<forall>q. ?p + length data - 512 \<le> q \<and> q < ?p + length data \<longrightarrow>
            file_bytes s' i' ! q = file_bytes s i ! q)" if fw: "file_written data ?p a s i s' i'" for i'
  proof (intro exI [of _ i'] conjI allI impI)
    note fw = fw [unfolded file_written_def we]
    then show "inodes s' a = Some i'" using same_fs_simps(2) by fastforce
    fix q assume q: "?p + length data - 512 \<le> q \<and> q < ?p + length data"
    have "unat (i_size i') = max (unat (i_size i)) (?p + length data)" using fw by blast
    then have "q < unat (i_size i')" "q < unat (i_size i)" "\<not> (?p \<le> q \<and> q < ?p + length data - 512)"
      using q assms(6) by auto
    then show "file_bytes s' i' ! q = file_bytes s i ! q" using fw by blast
  qed
  then show ?thesis using w by (intro exI [of _ r] exI [of _ s']) (auto split: option.splits)
qed

theorem inode_write_drops_last_block_witness:
  "\<exists>r s'. inode_write 0x2000 (replicate 524 7) 500 demo_fs = Inr (r, s') \<and>
    (case r of None \<Rightarrow> disk_full s'
     | Some n \<Rightarrow> n = of_nat (length (replicate 524 7 :: byte list)) \<and> (\<exists>i'. inodes s' 0x2000 = Some i' \<and>
         (\<forall>q. unat (500 :: u64) + length (replicate 524 7 :: byte list) - 512 \<le> q \<and>
            q < unat (500 :: u64) + length (replicate 524 7 :: byte list) \<longrightarrow>
            file_bytes s' i' ! q = file_bytes demo_fs demo_inode ! q)))"
  by (rule inode_write_drops_last_block [OF demo_file(1,3,2)]) (simp_all add: demo_inode_def)

text \<open>
  The inode table is a faithful store: after \<^verbatim>\<open>inode_sync\<close> of any inode, opening its number (when no
  copy is open) loads exactly its number, size, type and block addresses, with one opener and a free lock;
  the stored image of every other inode is untouched, although inodes of 160 bytes straddle sectors.
\<close>
theorem inode_table_roundtrip:
  assumes "secs_ok s" "unat (i_no i) < 4096" "buf_ok s 1024" "length (i_sectors i) = 13"
    and "find_inode (i_no i) (open_inodes s) s = Inr None" "slots s = a # as"
  shows "\<exists>s' s''. inode_sync i s = Inr s' \<and> inode_open (i_no i) s' = Inr (a, s'') \<and>
    inodes s'' a = Some (i\<lparr>inode_lock := 0, i_open_cnts := 1\<rparr>) \<and> open_inodes s'' = a # open_inodes s \<and>
    (\<forall>n < 4096. n \<noteq> unat (i_no i) \<longrightarrow> decode_inode (table_entry s'' n) = decode_inode (table_entry s n))"
proof -
  obtain f where f: "inode_sync i s = Inr (s\<lparr>sectors := f\<rparr>)" "secs_ok (s\<lparr>sectors := f\<rparr>)"
    "\<forall>n < 4096. table_entry (s\<lparr>sectors := f\<rparr>) n = (if n = unat (i_no i) then encode_inode i else table_entry s n)"
    using inode_sync_spec [OF assms(1-4)] by blast
  let ?s = "s\<lparr>sectors := f\<rparr>"
  have find: "find_inode n as ?s = find_inode n as s" for n as
    by (induction as) (simp_all add: the_inode_def cong: if_cong)
  have "decode_inode (table_entry ?s (unat (i_no i))) = i\<lparr>inode_lock := 0\<rparr>"
    using f(3) assms(2) decode_encode [OF assms(4), of "[]"] by simp
  then have "inode_open (i_no i) ?s = Inr (a, ?s\<lparr>slots := as, open_inodes := a # open_inodes s,
    inodes := (inodes s)(a \<mapsto> i\<lparr>inode_lock := 0, i_open_cnts := 1\<rparr>)\<rparr>)"
    using inode_open_new [OF f(2), of "i_no i" a as] assms find by simp
  moreover have "table_entry (?s\<lparr>slots := as, open_inodes := u, inodes := v\<rparr>) n = table_entry ?s n" for u v n
    by (simp add: table_entry_def tbyte_def)
  ultimately show ?thesis using f by (intro exI conjI) auto
qed

theorem inode_table_roundtrip_witness:
  "\<exists>s' s''. inode_sync (demo_inode\<lparr>i_no := 7\<rparr>) demo_fs = Inr s' \<and>
    inode_open (i_no (demo_inode\<lparr>i_no := 7\<rparr>)) s' = Inr (0x3000, s'') \<and>
    inodes s'' 0x3000 = Some ((demo_inode\<lparr>i_no := 7\<rparr>)\<lparr>inode_lock := 0, i_open_cnts := 1\<rparr>) \<and>
    open_inodes s'' = 0x3000 # open_inodes demo_fs \<and>
    (\<forall>n < 4096. n \<noteq> unat (i_no (demo_inode\<lparr>i_no := 7\<rparr>)) \<longrightarrow>
       decode_inode (table_entry s'' n) = decode_inode (table_entry demo_fs n))"
  by (rule inode_table_roundtrip)
    (simp_all add: demo_fs_def secs_ok_def BLOCK_SIZE_def the_inode_def demo_inode_def)

end
