(* ===== verification/Dir.thy ===== *)
theory Dir
  imports FileData
begin

text \<open>
  Directories (\<^verbatim>\<open>fs/dir.c\<close>): files of 32-byte entries. An entry is handled as the 32 bytes of \<^verbatim>\<open>struct
  dir_entry\<close> (16 bytes of name, the inode number, the type, four bytes of padding); a name is the list
  of its bytes without the final zero. The abstract directory is the list of the entries of the
  contents (\<open>dir_entries\<close>), and the map of the names of the live ones (\<open>dir_map\<close>).
\<close>

section \<open>Entries\<close>

definition MAX_FILE_NAME_LEN :: nat where "MAX_FILE_NAME_LEN = 16"
definition sizeof_dir_entry :: nat where "sizeof_dir_entry = 32"

record dir_entry =
  filename :: "byte list"
  de_i_no :: u64
  de_f_type :: u32

text \<open>The bytes up to the first zero, as \<^verbatim>\<open>strcmp\<close> and \<^verbatim>\<open>strcpy\<close> see them.\<close>

definition cstr :: "byte list \<Rightarrow> byte list" where
  "cstr bs = takeWhile (\<lambda>b. b \<noteq> 0) bs"

definition encode_entry :: "dir_entry \<Rightarrow> byte list" where
  "encode_entry e = filename e @ le 8 (de_i_no e) @ le 4 (de_f_type e) @ replicate 4 0"

definition decode_entry :: "byte list \<Rightarrow> dir_entry" where
  "decode_entry bs = \<lparr>filename = take 16 bs, de_i_no = unle (take 8 (drop 16 bs)), de_f_type = unle (take 4 (drop 24 bs))\<rparr>"

text \<open>\<^verbatim>\<open>strcpy\<close> of a name into the zeroed 16 bytes of \<^verbatim>\<open>filename\<close>; a longer name overruns them.\<close>

definition set_filename :: "byte list \<Rightarrow> byte list res" where
  "set_filename name =
     (if length name < MAX_FILE_NAME_LEN then Inr (name @ replicate (MAX_FILE_NAME_LEN - length name) 0)
      else Inl (Fault ''dir_e.filename''))"

section \<open>Operations\<close>

text \<open>
  The loop over the entries of a directory: \<open>de\<close> is the buffer the entries are read into (a read that is cut
  short at the end of the file leaves the rest of it); the result is the offset and the bytes of the first entry
  that satisfies \<open>P\<close>. The loop compares the offset with \<^verbatim>\<open>i_size\<close> for equality, so it runs past the end of a file
  whose size is not a multiple of 32; it terminates because a read behind block 140 does not succeed.
\<close>

lemma inode_read_bound:
  assumes "inode_read a 32 off s = Inr (Some bs, s')"
  shows "unat off < 71680"
proof -
  obtain i r where i: "read_slice a i r off s = Inr (Some bs, s')" "r \<noteq> 0"
  proof -
    obtain i where i: "the_inode a s = Inr i" using assms by (auto simp: inode_read_def res_simps)
    define r where "r = (if i_size i < off + 32 then i_size i - off else 32)"
    have "\<not> (i_size i < off + 32 \<and> sint r \<le> 0)" "read_slice a i r off s = Inr (Some bs, s')"
      using assms i by (auto simp: inode_read_def r_def Let_def split: if_splits)
    moreover have "r \<noteq> 0" using calculation(1) by (cases "i_size i < off + 32") (auto simp: r_def)
    ultimately show ?thesis using that by blast
  qed
  define b e where "b = unat (off div of_nat BLOCK_SIZE)" and "e = unat (DIV_ROUND_UP (off + r) (of_nat BLOCK_SIZE))"
  obtain t buf where buf: "read_blocks (get_blocks_lba i t) [b..<e] t = Inr buf" "unat off mod BLOCK_SIZE + unat r \<le> length buf"
    using i(1) unfolding b_def e_def by (auto simp: read_slice_def Let_def res_simps split: if_splits)
  have "0 < unat r" using i(2) by (simp add: unat_gt_0)
  then have "buf \<noteq> []" using buf(2) by auto
  then have "b < e" using buf(1) by (cases "b < e") auto
  then have "[b..<e] = b # [Suc b..<e]" by (rule upt_conv_Cons)
  then have "b < length (get_blocks_lba i t)" using buf(1) by (auto split: if_splits)
  also have "\<dots> \<le> 140" by (simp add: get_blocks_lba_def)
  finally have "unat off div 512 < 140" by (simp add: b_def unat_div BLOCK_SIZE_def)
  then show ?thesis by linarith
qed

function dir_scan :: "(byte list \<Rightarrow> bool) \<Rightarrow> u64 \<Rightarrow> u64 \<Rightarrow> byte list \<Rightarrow> fs \<Rightarrow> ((u64 \<times> byte list) option \<times> fs) res" where
  "dir_scan P a off de s =
     rbind (the_inode a s) (\<lambda>i.
     if off = i_size i then Inr (None, s)
     else
       rbind (inode_read a (of_nat sizeof_dir_entry) off s) (\<lambda>(r, s').
       case r of
         None \<Rightarrow> Inl (Panic ''dir_look_up: inode_read failed'')
       | Some bs \<Rightarrow>
           let de = splice 0 bs de in
           if P de then Inr (Some (off, de), s') else dir_scan P a (off + of_nat sizeof_dir_entry) de s'))"
  by pat_completeness auto
termination
proof (relation "measure (\<lambda>(P, a, off, de, s). 71712 - unat off)", goal_cases)
  case (2 P a off de s i x r s' bs de')
  then have "inode_read a 32 off s = Inr (Some bs, s')" by (simp add: sizeof_dir_entry_def)
  then have b: "unat off < 71680" by (rule inode_read_bound)
  then have "unat (off + 32) = unat off + 32" by (subst unat_add_lem [THEN iffD1]) simp_all
  with b show ?case by (simp add: sizeof_dir_entry_def)
qed simp

declare dir_scan.simps [simp del]

definition named :: "byte list \<Rightarrow> byte list \<Rightarrow> bool" where
  "named name de \<longleftrightarrow> cstr de = cstr name"

definition dir_look_up :: "u64 \<Rightarrow> byte list \<Rightarrow> fs \<Rightarrow> ((u64 \<times> u64) option \<times> fs) res" where
  "dir_look_up parent name s =
     rbind (the_inode parent s) (\<lambda>p.
     rbind (kassert (f_type p = FT_DIRECTORY) ''parent_inode->f_type == FT_DIRECTORY'') (\<lambda>_.
     rbind (dir_scan (named name) parent 0 (replicate sizeof_dir_entry 0) s) (\<lambda>(found, s).
     case found of
       None \<Rightarrow> Inr (None, s)
     | Some (off, de) \<Rightarrow> rbind (inode_open (de_i_no (decode_entry de)) s) (\<lambda>(c, s). Inr (Some (c, off), s)))))"

definition unused :: "byte list \<Rightarrow> bool" where
  "unused de \<longleftrightarrow> de_f_type (decode_entry de) = FT_UNKNOWN"

definition dir_link :: "u64 \<Rightarrow> dir_entry \<Rightarrow> fs \<Rightarrow> (bool \<times> fs) res" where
  "dir_link parent dir_e s =
     rbind (dir_look_up parent (filename dir_e) s) (\<lambda>(r, s).
     case r of
       Some (cinode, _) \<Rightarrow> rbind (inode_close cinode s) (\<lambda>s. Inr (False, s))
     | None \<Rightarrow>
         rbind (dir_scan unused parent 0 (replicate sizeof_dir_entry 0) s) (\<lambda>(found, s).
         rbind (case found of Some (off, _) \<Rightarrow> Inr off | None \<Rightarrow> rbind (the_inode parent s) (\<lambda>p. Inr (i_size p))) (\<lambda>off.
         rbind (inode_write parent (encode_entry dir_e) off s) (\<lambda>(w, s). Inr (w \<noteq> None, s)))))"

definition dir_unlink :: "u64 \<Rightarrow> byte list \<Rightarrow> fs \<Rightarrow> (bool \<times> fs) res" where
  "dir_unlink parent name s =
     rbind (dir_look_up parent name s) (\<lambda>(r, s).
     case r of
       None \<Rightarrow> Inr (False, s)
     | Some (cinode, off) \<Rightarrow>
         rbind (inode_close cinode s) (\<lambda>s.
         rbind (inode_write parent
                  (encode_entry \<lparr>filename = replicate MAX_FILE_NAME_LEN 0, de_i_no = 0, de_f_type = FT_UNKNOWN\<rparr>) off s)
           (\<lambda>(_, s). Inr (True, s))))"

section \<open>The entries of a directory\<close>

definition entry_at :: "byte list \<Rightarrow> nat \<Rightarrow> byte list" where
  "entry_at bs k = take 32 (drop (32 * k) bs)"

definition entries :: "byte list \<Rightarrow> byte list list" where
  "entries bs = map (entry_at bs) [0..<length bs div 32]"

abbreviation dir_entries :: "fs \<Rightarrow> inode \<Rightarrow> byte list list" where
  "dir_entries s i \<equiv> entries (file_bytes s i)"

definition dir_file :: "fs \<Rightarrow> inode \<Rightarrow> bool" where
  "dir_file s i \<longleftrightarrow> file_ok s i \<and> f_type i = FT_DIRECTORY \<and> 32 dvd unat (i_size i)"

lemma length_entries [simp]: "length (entries bs) = length bs div 32"
  by (simp add: entries_def)

lemma nth_entries: "k < length bs div 32 \<Longrightarrow> entries bs ! k = entry_at bs k"
  by (simp add: entries_def)

lemma splice_buffer: "length bs = length de \<Longrightarrow> splice 0 bs de = bs"
  by (simp add: splice_def)

fun first_entry :: "(byte list \<Rightarrow> bool) \<Rightarrow> nat \<Rightarrow> byte list list \<Rightarrow> (nat \<times> byte list) option" where
  "first_entry P k [] = None"
| "first_entry P k (e # es) = (if P e then Some (k, e) else first_entry P (Suc k) es)"

lemma first_entry_None: "first_entry P k es = None \<longleftrightarrow> (\<forall>e \<in> set es. \<not> P e)"
  by (induction es arbitrary: k) auto

lemma first_entry_Some:
  "first_entry P k es = Some (j, e) \<Longrightarrow> k \<le> j \<and> j < k + length es \<and> es ! (j - k) = e \<and> P e"
proof (induction es arbitrary: k)
  case (Cons x es)
  show ?case
  proof (cases "P x")
    case False
    then have "Suc k \<le> j \<and> j < Suc k + length es \<and> es ! (j - Suc k) = e \<and> P e"
      using Cons.IH [of "Suc k"] Cons.prems by simp
    then show ?thesis by (auto simp: Suc_diff_le nth_Cons')
  qed (use Cons in auto)
qed simp

lemma unat_of_nat_u64: "n < 2 ^ 64 \<Longrightarrow> unat (of_nat n :: u64) = n"
  by (simp add: unsigned_of_nat take_bit_nat_eq_self)

text \<open>The loop of \<^verbatim>\<open>dir_look_up\<close> and \<^verbatim>\<open>dir_link\<close> finds the first entry with the property and changes nothing.\<close>

lemma dir_scan_spec:
  assumes "inodes s a = Some i" "dir_file s i" "\<And>n. buf_ok s n"
    and "k \<le> length (dir_entries s i)" "length de = 32"
  shows "dir_scan P a (of_nat (32 * k)) de s =
    Inr (map_option (\<lambda>(j, e). (of_nat (32 * j), e)) (first_entry P k (drop k (dir_entries s i))), s)"
  using assms(4,5)
proof (induction "length (dir_entries s i) - k" arbitrary: k de)
  case 0
  let ?z = "unat (i_size i)"
  have k: "32 * k = ?z" using 0 assms(2) by (auto simp: dir_file_def)
  then have "of_nat (32 * k) = i_size i" by simp
  then show ?case using 0 assms(1)
    by (subst dir_scan.simps) (simp add: the_inode_def)
next
  case (Suc n)
  let ?z = "unat (i_size i)" and ?es = "dir_entries s i"
  have fok: "file_ok s i" "?z \<le> 71680" "32 dvd ?z" using assms(2) by (simp_all add: dir_file_def file_ok_def)
  have k: "k < ?z div 32" using Suc(2) by simp
  then have lt: "32 * k + 32 \<le> ?z" by linarith
  have u: "unat (of_nat (32 * k) :: u64) = 32 * k"
    using lt fok(2) by (intro unat_of_nat_u64) simp
  have ne: "of_nat (32 * k) \<noteq> i_size i"
  proof
    assume "of_nat (32 * k) = i_size i"
    then have "32 * k = ?z" using u by metis
    with lt show False by simp
  qed
  have es: "drop k ?es = entry_at (file_bytes s i) k # drop (Suc k) ?es"
    using k by (simp add: Cons_nth_drop_Suc [symmetric] nth_entries)
  have rd: "inode_read a 32 (of_nat (32 * k)) s = Inr (Some (entry_at (file_bytes s i) k), s)"
    using inode_read_ok [OF assms(1) fok(1) assms(3), of "of_nat (32 * k)" 32] lt fok(2)
    unfolding u entry_at_def by simp
  have len: "length (entry_at (file_bytes s i) k) = 32" using lt by (simp add: entry_at_def)
  have sp: "splice 0 (entry_at (file_bytes s i) k) de = entry_at (file_bytes s i) k"
    using Suc(4) len by (intro splice_buffer) simp
  have nxt: "of_nat (32 * k) + 32 = (of_nat (32 * Suc k) :: u64)" by simp
  have IH: "dir_scan P a (of_nat (32 * Suc k)) (entry_at (file_bytes s i) k) s =
    Inr (map_option (\<lambda>(j, e). (of_nat (32 * j), e)) (first_entry P (Suc k) (drop (Suc k) ?es)), s)"
    by (rule Suc(1)) (use Suc(2) k len in auto)
  show ?case
    apply (subst dir_scan.simps)
    using ne rd IH sp assms(1) unfolding es nxt [symmetric]
    by (simp add: the_inode_def sizeof_dir_entry_def del: of_nat_mult of_nat_Suc)
qed

section \<open>Opening and closing an inode\<close>

text \<open>The table of open inodes: every address holds an inode with openers, the next addresses are new.\<close>

definition open_ok :: "fs \<Rightarrow> bool" where
  "open_ok s \<longleftrightarrow> distinct (open_inodes s) \<and> set (open_inodes s) = dom (inodes s) \<and>
     (\<forall>a i. inodes s a = Some i \<longrightarrow> a \<noteq> root_dir_inode s \<longrightarrow> i_open_cnts i \<noteq> 0) \<and>
     distinct (slots s) \<and> set (slots s) \<inter> dom (inodes s) = {} \<and> root_dir_inode s \<in> dom (inodes s)"

lemma find_inode_cases:
  assumes "set as \<subseteq> dom (inodes s)"
  shows "find_inode n as s = Inr (find (\<lambda>a. map_option i_no (inodes s a) = Some n) as)"
  using assms by (induction as) (auto simp: the_inode_def)

text \<open>What a look-up may leave behind: other open counts, fewer free addresses.\<close>

definition touched :: "fs \<Rightarrow> fs \<Rightarrow> bool" where
  "touched s t \<longleftrightarrow> t = s\<lparr>inodes := inodes t, slots := slots t\<rparr> \<and> dom (inodes t) = dom (inodes s) \<and>
     (\<forall>a i. inodes s a = Some i \<longrightarrow> (\<exists>k. inodes t a = Some (i\<lparr>i_open_cnts := k\<rparr>)))"

lemma touched_refl [simp]: "touched s s"
proof -
  have "\<exists>k. i = i\<lparr>i_open_cnts := k\<rparr>" for i :: inode by (rule exI [of _ "i_open_cnts i"]) simp
  then show ?thesis unfolding touched_def by simp
qed

lemma touched_sectors: "touched s t \<Longrightarrow> sectors t = sectors s \<and> sb t = sb s \<and> block_bitmap t = block_bitmap s \<and>
    inode_bitmap t = inode_bitmap s \<and> buf_ok t = buf_ok s \<and> root_dir_inode t = root_dir_inode s \<and> open_inodes t = open_inodes s"
  unfolding touched_def by (metis fs.surjective fs.update_convs(6,8) fs.select_convs)

lemma same_disk:
  assumes t: "sectors t = sectors s" "sb t = sb s" "block_bitmap t = block_bitmap s"
  shows "file_ok t i = file_ok s i" "file_bytes t i = file_bytes s i" "dir_file t i = dir_file s i"
    "disk_full t = disk_full s" "used_block t = used_block s" "table_entry t = table_entry s"
proof -
  have "get_blocks_lba i t = get_blocks_lba i s" for i by (simp add: get_blocks_lba_def ide_get_def t)
  moreover have "blocks_ok t = blocks_ok s"
    by (simp add: blocks_ok_def secs_ok_def layout_ok_def used_block_def t fun_eq_iff)
  ultimately show a: "file_ok t i = file_ok s i" "file_bytes t i = file_bytes s i"
    by (simp_all add: file_ok_def file_bytes_def fbyte_def block_of_def t)
  then show "dir_file t i = dir_file s i" by (simp add: dir_file_def)
  show "disk_full t = disk_full s" "used_block t = used_block s" "table_entry t = table_entry s"
    by (simp_all add: disk_full_def used_block_def table_entry_def tbyte_def t fun_eq_iff)
qed

lemma touched_file:
  assumes "touched s t"
  shows "file_ok t i = file_ok s i" "file_bytes t i = file_bytes s i" "dir_file t i = dir_file s i"
    "disk_full t = disk_full s" "used_block t = used_block s" "table_entry t = table_entry s"
  using same_disk [of t s] touched_sectors [OF assms] by simp_all

lemma open_close:
  assumes "open_ok s" "secs_ok s" "unat n < 4096" "\<And>m. buf_ok s m" "slots s \<noteq> []"
  shows "\<exists>c s1 s2. inode_open n s = Inr (c, s1) \<and> inode_close c s1 = Inr s2 \<and> touched s s2 \<and> open_ok s2"
proof -
  have sub: "set (open_inodes s) \<subseteq> dom (inodes s)" using assms(1) by (simp add: open_ok_def)
  note find = find_inode_cases [OF sub, of n]
  show ?thesis
  proof (cases "find (\<lambda>a. map_option i_no (inodes s a) = Some n) (open_inodes s)")
    case None
    obtain a as where sl: "slots s = a # as" using assms(5) by (cases "slots s") auto
    let ?i = "(decode_inode (table_entry s (unat n)))\<lparr>inode_lock := 0, i_open_cnts := 1\<rparr>"
    let ?s1 = "s\<lparr>slots := as, open_inodes := a # open_inodes s, inodes := (inodes s)(a \<mapsto> ?i)\<rparr>"
    have op: "inode_open n s = Inr (a, ?s1)"
      using inode_open_new [OF assms(2,3,4) _ sl] find None by simp
    have a: "inodes s a = None" "root_dir_inode s \<noteq> a" using assms(1) sl by (auto simp: open_ok_def)
    have cl: "inode_close a ?s1 = Inr (s\<lparr>slots := as\<rparr>)"
      using a by (auto simp: inode_close_def the_inode_def fun_upd_idem)
    have "touched s (s\<lparr>slots := as\<rparr>)" using touched_refl [of s] unfolding touched_def by simp
    moreover have "open_ok (s\<lparr>slots := as\<rparr>)" using assms(1) sl by (auto simp: open_ok_def)
    ultimately show ?thesis using op cl by blast
  next
    case (Some a)
    then obtain i where i: "inodes s a = Some i" using find_Some_iff
      by (smt (verit, best) map_option_eq_Some)
    let ?j = "i\<lparr>i_open_cnts := i_open_cnts i + 1\<rparr>"
    have op: "inode_open n s = Inr (a, put_inode a ?j s)"
      using find Some i by (simp add: inode_open_def the_inode_def)
    show ?thesis
    proof (cases "a = root_dir_inode s")
      case True
      have cl: "inode_close a (put_inode a ?j s) = Inr (put_inode a ?j s)"
        using True by (simp add: inode_close_def put_inode_def)
      have "touched s (put_inode a ?j s)"
        using touched_refl [of s] i unfolding touched_def by (auto simp: put_inode_def)
      moreover have "open_ok (put_inode a ?j s)"
        using assms(1) i True by (auto simp: open_ok_def put_inode_def)
      ultimately show ?thesis using op cl by blast
    next
      case False
      then have c0: "i_open_cnts i \<noteq> 0" using assms(1) i by (auto simp: open_ok_def)
      have "i\<lparr>i_open_cnts := i_open_cnts i\<rparr> = i" by simp
      then have "inode_close a (put_inode a ?j s) = Inr s"
        using False c0 i by (simp add: inode_close_def put_inode_def the_inode_def Let_def fun_upd_idem)
      then show ?thesis using op assms(1) touched_refl by blast
    qed
  qed
qed

section \<open>The directory as a map\<close>

definition ino :: "byte list \<Rightarrow> u64" where
  "ino e = de_i_no (decode_entry e)"

definition dir_map :: "byte list list \<Rightarrow> byte list \<rightharpoonup> u64" where
  "dir_map es = map_of (map (\<lambda>e. (cstr e, ino e)) (filter (\<lambda>e. \<not> unused e) es))"

text \<open>Unused entries have no name, live entries have different names and valid inode numbers.\<close>

definition names_ok :: "byte list list \<Rightarrow> bool" where
  "names_ok es \<longleftrightarrow> (\<forall>e \<in> set es. length e = 32 \<and> (if unused e then cstr e = [] else cstr e \<noteq> [] \<and> unat (ino e) < 4096)) \<and>
     (\<forall>j < length es. \<forall>k < length es. \<not> unused (es ! j) \<longrightarrow> cstr (es ! j) = cstr (es ! k) \<longrightarrow> j = k)"

lemma names_okD:
  assumes "names_ok es" "j < length es"
  shows "length (es ! j) = 32" "unused (es ! j) \<Longrightarrow> cstr (es ! j) = []"
    "\<not> unused (es ! j) \<Longrightarrow> cstr (es ! j) \<noteq> []" "\<not> unused (es ! j) \<Longrightarrow> unat (ino (es ! j)) < 4096"
    "k < length es \<Longrightarrow> \<not> unused (es ! j) \<Longrightarrow> cstr (es ! j) = cstr (es ! k) \<Longrightarrow> j = k"
proof -
  have "length (es ! j) = 32 \<and> (if unused (es ! j) then cstr (es ! j) = [] else cstr (es ! j) \<noteq> [] \<and> unat (ino (es ! j)) < 4096)"
    using assms nth_mem unfolding names_ok_def by blast
  then show "length (es ! j) = 32" "unused (es ! j) \<Longrightarrow> cstr (es ! j) = []"
    "\<not> unused (es ! j) \<Longrightarrow> cstr (es ! j) \<noteq> []" "\<not> unused (es ! j) \<Longrightarrow> unat (ino (es ! j)) < 4096"
    by (auto split: if_splits)
  show "k < length es \<Longrightarrow> \<not> unused (es ! j) \<Longrightarrow> cstr (es ! j) = cstr (es ! k) \<Longrightarrow> j = k"
    using assms unfolding names_ok_def by blast
qed

lemma dir_map_Some:
  assumes "names_ok es"
  shows "dir_map es n = Some i \<longleftrightarrow> (\<exists>j < length es. \<not> unused (es ! j) \<and> cstr (es ! j) = n \<and> ino (es ! j) = i)"
proof
  assume "dir_map es n = Some i"
  then have "(n, i) \<in> set (map (\<lambda>e. (cstr e, ino e)) (filter (\<lambda>e. \<not> unused e) es))"
    unfolding dir_map_def by (rule map_of_SomeD)
  then show "\<exists>j < length es. \<not> unused (es ! j) \<and> cstr (es ! j) = n \<and> ino (es ! j) = i"
    by (auto simp: in_set_conv_nth)
next
  assume "\<exists>j < length es. \<not> unused (es ! j) \<and> cstr (es ! j) = n \<and> ino (es ! j) = i"
  then obtain j where j: "j < length es" "\<not> unused (es ! j)" "cstr (es ! j) = n" "ino (es ! j) = i" by blast
  then have "es ! j \<in> set (filter (\<lambda>e. \<not> unused e) es)" by simp
  then have "(cstr (es ! j), ino (es ! j)) \<in> set (map (\<lambda>e. (cstr e, ino e)) (filter (\<lambda>e. \<not> unused e) es))"
    unfolding set_map by (rule imageI)
  then have "(n, i) \<in> set (map (\<lambda>e. (cstr e, ino e)) (filter (\<lambda>e. \<not> unused e) es))"
    by (simp only: j(3,4))
  then obtain i' where i': "dir_map es n = Some i'"
    unfolding dir_map_def using weak_map_of_SomeI by fast
  then have "(n, i') \<in> set (map (\<lambda>e. (cstr e, ino e)) (filter (\<lambda>e. \<not> unused e) es))"
    unfolding dir_map_def by (rule map_of_SomeD)
  then obtain k where k: "k < length es" "\<not> unused (es ! k)" "cstr (es ! k) = n" "ino (es ! k) = i'"
    by (auto simp: in_set_conv_nth)
  then have "j = k" using names_okD(5) [OF assms j(1) k(1) j(2)] j(3) by simp
  then show "dir_map es n = Some i" using i' j k by simp
qed

lemma map_eqI: "(\<And>k v. m k = Some v \<longleftrightarrow> m' k = Some v) \<Longrightarrow> m = m'"
  by (rule ext) (metis not_Some_eq)

lemma look_named:
  assumes "names_ok es" "name \<noteq> []" "cstr name = name"
  shows "case first_entry (named name) 0 es of None \<Rightarrow> dir_map es name = None
    | Some (j, e) \<Rightarrow> j < length es \<and> e = es ! j \<and> \<not> unused e \<and> cstr e = name \<and> dir_map es name = Some (ino e)"
proof (cases "first_entry (named name) 0 es")
  case None
  then have "\<forall>e \<in> set es. cstr e \<noteq> name"
    using assms(3) by (simp add: first_entry_None named_def)
  then have "dir_map es name \<noteq> Some i" for i using dir_map_Some [OF assms(1)] nth_mem by blast
  then show ?thesis using None by (cases "dir_map es name") auto
next
  case (Some p)
  obtain j e where p: "p = (j, e)" by (cases p)
  then have j: "j < length es" "es ! j = e" "cstr e = name"
    using first_entry_Some [of "named name" 0 es j e] Some assms(3) by (simp_all add: named_def)
  then have "\<not> unused e" using names_okD(2) [OF assms(1) j(1)] assms(2) by auto
  then show ?thesis using Some p j dir_map_Some [OF assms(1)] by auto
qed

text \<open>Replacing or appending one entry.\<close>

lemma names_ok_snoc:
  assumes "names_ok es" "length e = 32" "\<not> unused e" "cstr e \<noteq> []" "unat (ino e) < 4096" "dir_map es (cstr e) = None"
  shows "names_ok (es @ [e])" "dir_map (es @ [e]) = (dir_map es)(cstr e \<mapsto> ino e)"
proof -
  have new: "cstr (es ! j) \<noteq> cstr e" if "j < length es" for j
    using that names_okD(2) [OF assms(1) that] assms(4,6) dir_map_Some [OF assms(1), of "cstr e"]
    by (metis option.distinct(1))
  have nth: "(es @ [e]) ! j = (if j < length es then es ! j else e)" if "j < Suc (length es)" for j
    using that by (auto simp: nth_append less_Suc_eq)
  show ok: "names_ok (es @ [e])"
    unfolding names_ok_def
  proof (intro conjI allI impI)
    fix j k assume jk: "j < length (es @ [e])" "k < length (es @ [e])" "\<not> unused ((es @ [e]) ! j)"
      "cstr ((es @ [e]) ! j) = cstr ((es @ [e]) ! k)"
    then show "j = k"
      using names_okD(5) [OF assms(1), of j k] new [of j] new [of k]
      by (cases "j < length es"; cases "k < length es") (auto simp: nth_append less_Suc_eq)
  qed (use assms in \<open>auto simp: names_ok_def\<close>)
  show "dir_map (es @ [e]) = (dir_map es)(cstr e \<mapsto> ino e)"
  proof (rule map_eqI)
    fix n i
    have "dir_map (es @ [e]) n = Some i \<longleftrightarrow>
      (\<exists>j < length es. \<not> unused (es ! j) \<and> cstr (es ! j) = n \<and> ino (es ! j) = i) \<or> (cstr e = n \<and> ino e = i)"
      unfolding dir_map_Some [OF ok] using nth assms(3) by (auto simp: less_Suc_eq)
    also have "\<dots> \<longleftrightarrow> ((dir_map es)(cstr e \<mapsto> ino e)) n = Some i"
      using new dir_map_Some [OF assms(1), of n i] by (cases "n = cstr e") auto
    finally show "dir_map (es @ [e]) n = Some i \<longleftrightarrow> ((dir_map es)(cstr e \<mapsto> ino e)) n = Some i" .
  qed
qed

lemma names_ok_update:
  assumes "names_ok es" "j < length es" "unused (es ! j)"
    and "length e = 32" "\<not> unused e" "cstr e \<noteq> []" "unat (ino e) < 4096" "dir_map es (cstr e) = None"
  shows "names_ok (es[j := e])" "dir_map (es[j := e]) = (dir_map es)(cstr e \<mapsto> ino e)"
proof -
  have new: "cstr (es ! k) \<noteq> cstr e" if "k < length es" for k
    using that names_okD(2) [OF assms(1) that] assms(6,8) dir_map_Some [OF assms(1), of "cstr e"]
    by (metis option.distinct(1))
  show ok: "names_ok (es[j := e])"
    unfolding names_ok_def
  proof (intro conjI allI impI ballI)
    fix x assume "x \<in> set (es[j := e])"
    then have "x \<in> insert e (set es)" using set_update_subset_insert by fast
    then show "length x = 32" "if unused x then cstr x = [] else cstr x \<noteq> [] \<and> unat (ino x) < 4096"
      using assms unfolding names_ok_def by auto
  next
    fix i k assume "i < length (es[j := e])" "k < length (es[j := e])" "\<not> unused (es[j := e] ! i)"
      "cstr (es[j := e] ! i) = cstr (es[j := e] ! k)"
    then show "i = k"
      using names_okD(5) [OF assms(1), of i k] new [of i] new [of k]
      by (cases "i = j"; cases "k = j") auto
  qed
  show "dir_map (es[j := e]) = (dir_map es)(cstr e \<mapsto> ino e)"
  proof (rule map_eqI)
    fix n i
    have "dir_map (es[j := e]) n = Some i \<longleftrightarrow>
      (\<exists>k < length es. \<not> unused (es ! k) \<and> cstr (es ! k) = n \<and> ino (es ! k) = i) \<or> (cstr e = n \<and> ino e = i)"
      unfolding dir_map_Some [OF ok] using assms(2,3,5) by (auto simp: nth_list_update)
    also have "\<dots> \<longleftrightarrow> ((dir_map es)(cstr e \<mapsto> ino e)) n = Some i"
      using new dir_map_Some [OF assms(1), of n i] by (cases "n = cstr e") auto
    finally show "dir_map (es[j := e]) n = Some i \<longleftrightarrow> ((dir_map es)(cstr e \<mapsto> ino e)) n = Some i" .
  qed
qed

lemma names_ok_clear:
  assumes "names_ok es" "j < length es" "\<not> unused (es ! j)" "length e = 32" "unused e" "cstr e = []"
  shows "names_ok (es[j := e])" "dir_map (es[j := e]) = (dir_map es)(cstr (es ! j) := None)"
proof -
  show ok: "names_ok (es[j := e])"
    unfolding names_ok_def
  proof (intro conjI allI impI ballI)
    fix x assume "x \<in> set (es[j := e])"
    then have "x \<in> insert e (set es)" using set_update_subset_insert by fast
    then show "length x = 32" "if unused x then cstr x = [] else cstr x \<noteq> [] \<and> unat (ino x) < 4096"
      using assms unfolding names_ok_def by auto
  next
    fix i k assume "i < length (es[j := e])" "k < length (es[j := e])" "\<not> unused (es[j := e] ! i)"
      "cstr (es[j := e] ! i) = cstr (es[j := e] ! k)"
    then show "i = k"
      using names_okD(5) [OF assms(1), of i k] names_okD(3) [OF assms(1), of i] assms(5,6)
      by (cases "i = j"; cases "k = j") auto
  qed
  have uniq: "k = j" if "k < length es" "cstr (es ! k) = cstr (es ! j)" for k
    using names_okD(5) [OF assms(1,2) that(1) assms(3)] that(2) by simp
  show "dir_map (es[j := e]) = (dir_map es)(cstr (es ! j) := None)"
  proof (rule map_eqI)
    fix n i
    have "dir_map (es[j := e]) n = Some i \<longleftrightarrow>
      (\<exists>k < length es. k \<noteq> j \<and> \<not> unused (es ! k) \<and> cstr (es ! k) = n \<and> ino (es ! k) = i)"
      unfolding dir_map_Some [OF ok] using assms(2,5) by (auto simp: nth_list_update)
    also have "\<dots> \<longleftrightarrow> ((dir_map es)(cstr (es ! j) := None)) n = Some i"
      using uniq dir_map_Some [OF assms(1), of n i]
      by (cases "n = cstr (es ! j)") auto
    finally show "dir_map (es[j := e]) n = Some i \<longleftrightarrow> ((dir_map es)(cstr (es ! j) := None)) n = Some i" .
  qed
qed

section \<open>The operations on the map\<close>

lemma length_file_bytes_dir: "dir_file s i \<Longrightarrow> length (file_bytes s i) = 32 * length (dir_entries s i)"
  by (auto simp: dir_file_def)

lemma entries_splice:
  assumes "length bs = 32 * m" "length e = 32" "j \<le> m"
  shows "entries (splice (32 * j) e bs) = (if j < m then (entries bs)[j := e] else entries bs @ [e])"
proof -
  let ?sp = "splice (32 * j) e bs"
  have le: "32 * j \<le> length bs" using assms(1,3) by simp
  have len: "length ?sp = 32 * (if j < m then m else Suc m)"
    unfolding nth_overwrite(1) [OF le] using assms by auto
  have nth: "?sp ! q = (if 32 * j \<le> q \<and> q < 32 * j + 32 then e ! (q - 32 * j) else bs ! q)" if "q < length ?sp" for q
    using nth_overwrite(2) [OF le that] assms(2) by simp
  have at: "entry_at ?sp k = (if k = j then e else entry_at bs k)" if k: "k < (if j < m then m else Suc m)" for k
  proof (rule nth_equalityI)
    have l: "length (entry_at ?sp k) = 32" using k len by (auto simp: entry_at_def)
    then show "length (entry_at ?sp k) = length (if k = j then e else entry_at bs k)"
      using k assms by (auto simp: entry_at_def split: if_splits)
    fix q assume q: "q < length (entry_at ?sp k)"
    then have "entry_at ?sp k ! q = ?sp ! (32 * k + q)" using l k len by (simp add: entry_at_def)
    moreover have "32 * j \<le> 32 * k + q \<and> 32 * k + q < 32 * j + 32 \<longleftrightarrow> k = j" using q l by auto
    moreover have "32 * k + q < length ?sp" using q l k unfolding len by auto
    moreover have "entry_at bs k ! q = bs ! (32 * k + q)" if "k \<noteq> j"
      using that q l k assms by (auto simp: entry_at_def split: if_splits)
    ultimately show "entry_at ?sp k ! q = (if k = j then e else entry_at bs k) ! q" using nth by auto
  qed
  show ?thesis
  proof (rule nth_equalityI)
    show "length (entries ?sp) = length (if j < m then (entries bs)[j := e] else entries bs @ [e])"
      using assms(1,3) len by auto
    fix k assume "k < length (entries ?sp)"
    then have k: "k < (if j < m then m else Suc m)" using len by simp
    then have "entries ?sp ! k = (if k = j then e else entry_at bs k)" using at [OF k] len by (simp add: nth_entries)
    then show "entries ?sp ! k = (if j < m then (entries bs)[j := e] else entries bs @ [e]) ! k"
      using k assms(1,3) by (auto simp: nth_entries nth_append nth_list_update split: if_splits)
  qed
qed

text \<open>A write inside one block that exists cannot fail.\<close>

lemma write_existing:
  assumes "inodes s a = Some i" "file_ok s i" "\<And>n. buf_ok s n" "0 < length data"
    and "unat pos + length data \<le> unat (i_size i)" "unat pos mod 512 + length data \<le> 512"
  shows "inode_write a data pos s \<noteq> Inr (None, s')"
proof -
  let ?fin = "pos + of_nat (length data)" and ?k = "unat pos div 512" and ?b = "get_blocks_lba i s"
  have sz: "unat (i_size i) \<le> 71680" "length (i_sectors i) = 13" using assms(2) by (simp_all add: file_ok_def)
  have "unat pos < unat (i_size i)" using assms(4,5) by linarith
  then have blk: "?b ! ?k \<noteq> 0" using assms(2) unfolding file_ok_def by blast
  have lenw: "unat (of_nat (length data) :: u64) = length data"
    using assms(5) sz(1) by (intro unat_of_nat_u64) simp
  have fin: "unat ?fin = unat pos + length data"
    using assms(5) sz(1) lenw by (subst unat_add_lem [THEN iffD1]; simp)
  have small: "\<not> MAX_FILE_SIZE < ?fin" using fin assms(5) sz(1) by (simp add: MAX_FILE_SIZE_def word_less_nat_alt)
  define q r where "q = ?k" and "r = unat pos mod 512"
  have pos: "unat pos = 512 * q + r" by (simp add: q_def r_def)
  have k: "?k < 140" using assms(4,5) sz(1) by linarith
  have "unat (DIV_ROUND_UP ?fin (of_nat BLOCK_SIZE)) = (unat pos + length data + 511) div 512"
    using round_up_512 [of ?fin] fin assms(5) sz(1) by simp
  also have "\<dots> = Suc q"
    unfolding pos using assms(4,6) unfolding r_def [symmetric] by (intro div_nat_eqI; simp only: mult_Suc_right; linarith)
  finally have "end": "unat (DIV_ROUND_UP ?fin (of_nat BLOCK_SIZE)) = Suc ?k" by (simp add: q_def)
  have st: "unat (pos div of_nat BLOCK_SIZE) = ?k" by (simp add: BLOCK_SIZE_def unat_div)
  let ?l = "i\<lparr>inode_lock := inode_lock i + 1\<rparr>"
  have ni: "need_indirect a ?fin (put_inode a ?l s) = Inr (True, put_inode a ?l s)"
  proof -
    have "\<not> (i_sectors i ! 12 = 0 \<and> 12 * of_nat BLOCK_SIZE < ?fin)"
    proof
      assume c: "i_sectors i ! 12 = 0 \<and> 12 * of_nat BLOCK_SIZE < ?fin"
      then have "6144 < unat pos + length data" using fin by (simp add: BLOCK_SIZE_def word_less_nat_alt)
      then have "12 \<le> q" using pos assms(6) r_def by linarith
      then have "?b ! q = 0" using c k sz(2) by (simp add: get_blocks_lba_def nth_append q_def)
      then show False using blk by (simp add: q_def)
    qed
    then show ?thesis by (auto simp: need_indirect_def)
  qed
  have len: "length ?b = 140" using length_blocks sz(2) by simp
  have one: "[?k..<Suc ?k] = [?k]" by simp
  have bl: "get_blocks_lba (i\<lparr>inode_lock := x\<rparr>) s = ?b" for x by (rule blocks_cong) simp
  show ?thesis
    unfolding inode_write_def Let_def if_not_P [OF small] lock_unlock(1) [OF assms(1)] write_data_def
    using assms(3) ni k len blk
    by (simp add: st "end" one bl ensure_block_def res_simps del: upt_Suc)
      (auto simp: res_simps Let_def)
qed

definition good_entry :: "dir_entry \<Rightarrow> bool" where
  "good_entry e \<longleftrightarrow> length (filename e) = 16 \<and> 0 \<in> set (filename e) \<and> cstr (filename e) \<noteq> [] \<and>
     de_f_type e \<noteq> FT_UNKNOWN \<and> unat (de_i_no e) < 4096"

lemma cstr_cstr [simp]: "cstr (cstr bs) = cstr bs"
  by (auto simp: cstr_def takeWhile_eq_all_conv dest: set_takeWhileD)

lemma encode_entry_simps:
  assumes "length (filename e) = 16"
  shows "length (encode_entry e) = 32" "decode_entry (encode_entry e) = e"
    "unused (encode_entry e) \<longleftrightarrow> de_f_type e = FT_UNKNOWN" "ino (encode_entry e) = de_i_no e"
    "0 \<in> set (filename e) \<Longrightarrow> cstr (encode_entry e) = cstr (filename e)"
proof -
  show "length (encode_entry e) = 32" using assms by (simp add: encode_entry_def)
  show "decode_entry (encode_entry e) = e" using assms by (simp add: encode_entry_def decode_entry_def)
  then show "unused (encode_entry e) \<longleftrightarrow> de_f_type e = FT_UNKNOWN" "ino (encode_entry e) = de_i_no e"
    by (simp_all add: unused_def ino_def)
  show "cstr (encode_entry e) = cstr (filename e)" if "0 \<in> set (filename e)"
    using that by (simp add: cstr_def encode_entry_def takeWhile_append1)
qed

text \<open>\<open>dir_at n s a\<close>: the open inode at \<open>a\<close> is a directory, and \<open>n\<close> more inodes can be opened.\<close>

definition dir_at :: "nat \<Rightarrow> u64 \<Rightarrow> fs \<Rightarrow> bool" where
  "dir_at n a s \<longleftrightarrow> open_ok s \<and> (\<forall>m. buf_ok s m) \<and> n \<le> length (slots s) \<and>
     (case inodes s a of None \<Rightarrow> False | Some i \<Rightarrow> dir_file s i \<and> names_ok (dir_entries s i))"

definition directory :: "u64 \<Rightarrow> fs \<Rightarrow> byte list \<rightharpoonup> u64" where
  "directory a s = (case inodes s a of None \<Rightarrow> Map.empty | Some i \<Rightarrow> dir_map (dir_entries s i))"

lemma dir_atE:
  assumes "dir_at n a s"
  obtains i where "inodes s a = Some i" "dir_file s i" "names_ok (dir_entries s i)" "open_ok s" "\<And>m. buf_ok s m"
    "n \<le> length (slots s)" "directory a s = dir_map (dir_entries s i)" "secs_ok s"
proof -
  obtain i where i: "inodes s a = Some i" "dir_file s i" using assms by (auto simp: dir_at_def split: option.splits)
  then have "secs_ok s" by (auto simp: dir_file_def file_ok_def dest: blocks_okD(2))
  then show ?thesis using assms i that by (simp add: dir_at_def directory_def)
qed

lemma open_close_slots:
  assumes "inode_open n s = Inr (c, s1)" "inode_close c s1 = Inr s2"
  shows "length (slots s) \<le> Suc (length (slots s2))"
proof -
  obtain found where f: "find_inode n (open_inodes s) s = Inr found"
    using assms(1) by (auto simp: inode_open_def res_simps)
  have "length (slots s) \<le> Suc (length (slots s1))"
  proof (cases found)
    case None
    then show ?thesis using assms(1) f
      by (cases "slots s") (auto simp: inode_open_def res_simps kernel_alloc_def Let_def put_inode_def)
  next
    case (Some a)
    then show ?thesis using assms(1) f by (auto simp: inode_open_def res_simps put_inode_def)
  qed
  moreover have "slots s2 = slots s1"
  proof (cases "c = root_dir_inode s1")
    case False
    then obtain i where "the_inode c s1 = Inr i" using assms(2) by (auto simp: inode_close_def res_simps)
    then show ?thesis using assms(2) False
      by (cases "i_open_cnts i - 1 = 0") (auto simp: inode_close_def put_inode_def Let_def)
  qed (use assms(2) in \<open>simp add: inode_close_def\<close>)
  ultimately show ?thesis by simp
qed

lemma dir_at_touched:
  assumes "dir_at (Suc n) a s" "touched s t" "open_ok t" "length (slots s) \<le> Suc (length (slots t))"
  shows "dir_at n a t" "directory a t = directory a s"
proof -
  from assms(1) obtain i where i: "inodes s a = Some i" "dir_file s i" "names_ok (dir_entries s i)" "\<And>m. buf_ok s m"
    "Suc n \<le> length (slots s)" by (rule dir_atE) (rule that; assumption)
  obtain k where k: "inodes t a = Some (i\<lparr>i_open_cnts := k\<rparr>)" using assms(2) i(1) unfolding touched_def by blast
  let ?i = "i\<lparr>i_open_cnts := k\<rparr>"
  have "file_ok t ?i = file_ok s i" "file_bytes t ?i = file_bytes s i"
    using file_ok_cong [of ?i i s] file_bytes_cong [of ?i i s] by (simp_all add: touched_file [OF assms(2)])
  then show "dir_at n a t" "directory a t = directory a s"
    using i k assms(3,4) touched_sectors [OF assms(2)] by (simp_all add: dir_at_def directory_def dir_file_def)
qed

lemma dir_write:
  assumes "dir_at n a s" "inodes s a = Some i" "j \<le> length (dir_entries s i)" "length e = 32" "32 * j + 32 \<le> 71680"
  shows "\<exists>r s'. inode_write a e (of_nat (32 * j)) s = Inr (r, s') \<and>
    (case r of None \<Rightarrow> disk_full s' \<and> j = length (dir_entries s i)
     | Some _ \<Rightarrow> \<exists>i'. inodes s' a = Some i' \<and> dir_file s' i' \<and> open_ok s' \<and> buf_ok s' = buf_ok s \<and> slots s' = slots s \<and>
         dir_entries s' i' = (if j < length (dir_entries s i) then (dir_entries s i)[j := e] else dir_entries s i @ [e]))"
proof -
  from assms(1,2) have i: "dir_file s i" "open_ok s" "\<And>m. buf_ok s m" by (auto elim: dir_atE)
  let ?bs = "file_bytes s i"
  obtain m where m: "length (dir_entries s i) = m" by blast
  have fok: "file_ok s i" and bs: "length ?bs = 32 * m" "unat (i_size i) = 32 * m"
    using i(1) length_file_bytes_dir [OF i(1)] unfolding m by (simp_all add: dir_file_def)
  define pos where "pos = (of_nat (32 * j) :: u64)"
  have pos: "unat pos = 32 * j" unfolding pos_def using assms(5) by (intro unat_of_nat_u64) simp
  have one: "32 * j mod 512 + 32 \<le> 512" "32 * j + 32 \<le> 512 * (32 * j div 512 + 1)"
  proof -
    define q r where "q = j div 16" and "r = j mod 16"
    have "j = 16 * q + r" "r < 16" by (simp_all add: q_def r_def)
    then have "32 * j = 512 * q + 32 * r" "32 * r < 512" by simp_all
    then have "32 * j div 512 = q" "32 * j mod 512 = 32 * r" by (simp_all add: div_nat_eqI mod_nat_eqI)
    then show "32 * j mod 512 + 32 \<le> 512" "32 * j + 32 \<le> 512 * (32 * j div 512 + 1)"
      using \<open>j = 16 * q + r\<close> \<open>r < 16\<close> by simp_all
  qed
  obtain r s' where w: "inode_write a e pos s = Inr (r, s')" and sp: "case r of None \<Rightarrow> disk_full s'
     | Some n \<Rightarrow> n = of_nat (length e) \<and> (\<exists>i'. i' = i\<lparr>i_size := i_size i', i_sectors := i_sectors i'\<rparr> \<and>
         same_fs (put_inode a i' s) s' \<and> inodes s' a = Some i' \<and> file_ok s' i' \<and> i_no i' = i_no i \<and>
         file_bytes s' i' = splice (unat pos) e ?bs \<and>
         (e \<noteq> [] \<longrightarrow> inode_read a n pos s' = Inr (Some e, s')) \<and>
         (\<forall>k. file_ok s k \<and> blocks_used s k \<inter> blocks_used s i \<subseteq> {0} \<longrightarrow> file_bytes s' k = file_bytes s k))"
  proof -
    have "unat pos \<le> unat (i_size i)" "unat pos + length e \<le> 71680"
      "(unat pos + length e) mod 512 \<noteq> 0 \<or> unat pos + length e \<le> 512 * (unat pos div 512 + 1)"
      using assms(3,5) one(2) unfolding m pos bs(2) assms(4) by (linarith, linarith, blast)
    from that inode_write_splice [OF assms(2) fok i(3) this] show ?thesis by blast
  qed
  show ?thesis
  proof (cases r)
    case None
    have "\<not> j < m"
    proof
      assume "j < m"
      then have "unat pos + length e \<le> unat (i_size i)" unfolding pos assms(4) bs(2) by linarith
      moreover have "0 < length e" "unat pos mod 512 + length e \<le> 512" using assms(4) one(1) by (simp_all add: pos)
      ultimately have "inode_write a e pos s \<noteq> Inr (None, s')" by (intro write_existing [OF assms(2) fok i(3)])
      then show False using w None by simp
    qed
    moreover have "disk_full s'" using sp unfolding None option.case .
    ultimately show ?thesis using w None assms(3) unfolding pos_def m by (intro exI [of _ None] exI [of _ s']) simp
  next
    case (Some n)
    then obtain i' where i': "i' = i\<lparr>i_size := i_size i', i_sectors := i_sectors i'\<rparr>" "same_fs (put_inode a i' s) s'"
      "inodes s' a = Some i'" "file_ok s' i'" "file_bytes s' i' = splice (32 * j) e ?bs"
      using sp unfolding Some option.case pos by blast
    have "unat (i_size i') = length (splice (32 * j) e ?bs)" using i'(5) by (metis length_file_bytes)
    also have "\<dots> = 32 * max m (Suc j)"
      using nth_overwrite(1) [of "32 * j" ?bs e] bs assms(3,4) unfolding m by (auto simp: max_def)
    finally have "32 dvd unat (i_size i')" by simp
    moreover have ft: "f_type i' = f_type i" "i_open_cnts i' = i_open_cnts i"
      using i'(1) by (metis inode.select_convs(3,4) inode.surjective inode.update_convs(2,6))+
    ultimately have "dir_file s' i'" using i(1) i'(4) by (simp add: dir_file_def)
    moreover have "open_ok s'"
      using i(2) assms(2) same_fs_simps [OF i'(2)] ft by (auto simp: open_ok_def put_inode_def split: if_splits)
    ultimately show ?thesis using w Some i'(3) same_fs_simps [OF i'(2)] entries_splice [OF bs(1) assms(4) assms(3) [unfolded m]]
      unfolding pos_def m by (intro exI [of _ "Some n"] exI [of _ s']) (simp add: i'(5))
  qed
qed

lemma scan_at:
  assumes "inodes s a = Some i" "dir_file s i" "\<And>m. buf_ok s m"
  shows "dir_scan P a 0 (replicate sizeof_dir_entry 0) s =
    Inr (map_option (\<lambda>(j, e). (of_nat (32 * j), e)) (first_entry P 0 (dir_entries s i)), s)"
  using dir_scan_spec [OF assms, of 0 "replicate sizeof_dir_entry 0" P] by (simp add: sizeof_dir_entry_def)

text \<open>\<^verbatim>\<open>dir_look_up\<close>: the entry of the name is found exactly if the map has the name, and its inode is opened.\<close>

lemma look_up_at:
  assumes "inodes s a = Some i" "dir_file s i" "names_ok (dir_entries s i)" "\<And>m. buf_ok s m" "cstr name \<noteq> []"
  shows "case dir_map (dir_entries s i) (cstr name) of
      None \<Rightarrow> dir_look_up a name s = Inr (None, s)
    | Some k \<Rightarrow> unat k < 4096 \<and> (\<exists>j < length (dir_entries s i). \<not> unused (dir_entries s i ! j) \<and>
        cstr (dir_entries s i ! j) = cstr name \<and> ino (dir_entries s i ! j) = k \<and>
        dir_look_up a name s = rbind (inode_open k s) (\<lambda>(c, t). Inr (Some (c, of_nat (32 * j)), t)))"
proof -
  have eq: "named name = named (cstr name)" by (simp add: named_def fun_eq_iff)
  note run = scan_at [OF assms(1,2,4), of "named name"]
  note look = look_named [OF assms(3,5) cstr_cstr]
  have ft: "f_type i = FT_DIRECTORY" using assms(2) by (simp add: dir_file_def)
  show ?thesis
  proof (cases "first_entry (named name) 0 (dir_entries s i)")
    case None
    then have "dir_map (dir_entries s i) (cstr name) = None" using look by (simp add: eq)
    then show ?thesis using None run assms(1) ft by (simp add: dir_look_up_def the_inode_def)
  next
    case (Some p)
    obtain j e where p: "p = (j, e)" by (cases p)
    then have e: "j < length (dir_entries s i)" "e = dir_entries s i ! j" "\<not> unused e" "cstr e = cstr name"
      "dir_map (dir_entries s i) (cstr name) = Some (ino e)" using look Some unfolding eq p by auto
    have "dir_look_up a name s = rbind (inode_open (ino e) s) (\<lambda>(c, t). Inr (Some (c, of_nat (32 * j)), t))"
      using Some p run assms(1) ft by (simp add: dir_look_up_def the_inode_def ino_def)
    moreover have "unat (ino e) < 4096" using names_okD(4) [OF assms(3) e(1)] e by simp
    ultimately show ?thesis using e by auto
  qed
qed

lemma dir_look_up_spec:
  assumes "dir_at n a s" "inodes s a = Some i" "cstr name \<noteq> []"
  shows "case directory a s (cstr name) of
      None \<Rightarrow> dir_look_up a name s = Inr (None, s)
    | Some k \<Rightarrow> unat k < 4096 \<and> (\<exists>j < length (dir_entries s i). \<not> unused (dir_entries s i ! j) \<and>
        cstr (dir_entries s i ! j) = cstr name \<and> ino (dir_entries s i ! j) = k \<and>
        dir_look_up a name s = rbind (inode_open k s) (\<lambda>(c, t). Inr (Some (c, of_nat (32 * j)), t)))"
proof -
  from assms(1,2) have i: "dir_file s i" "names_ok (dir_entries s i)" "\<And>m. buf_ok s m"
    "directory a s = dir_map (dir_entries s i)" by (auto elim: dir_atE)
  show ?thesis using look_up_at [OF assms(2) i(1-3) assms(3)] unfolding i(4) .
qed

lemma dir_probe:
  assumes "dir_at (Suc n) a s" "unat k < 4096"
  obtains c t u where "inode_open k s = Inr (c, t)" "inode_close c t = Inr u" "dir_at n a u" "directory a u = directory a s"
    "touched s u"
proof -
  have i: "open_ok s" "secs_ok s" "\<And>m. buf_ok s m" "slots s \<noteq> []"
    using assms(1) by (auto elim!: dir_atE)
  obtain c t u where o: "inode_open k s = Inr (c, t)" "inode_close c t = Inr u" "touched s u" "open_ok u"
    using open_close [OF i(1,2) assms(2) i(3,4)] by blast
  show ?thesis
    by (rule that [OF o(1,2)]) (use dir_at_touched [OF assms(1) o(3,4) open_close_slots [OF o(1,2)]] o(3) in auto)
qed

text \<open>\<^verbatim>\<open>dir_link\<close> enters a new name, refuses a name that is there, and fails only on a full disk or directory.\<close>

definition dir_full :: "u64 \<Rightarrow> fs \<Rightarrow> bool" where
  "dir_full a s \<longleftrightarrow> disk_full s \<or> (\<exists>i. inodes s a = Some i \<and> unat (i_size i) = 71680)"

lemma dir_link_spec:
  assumes "dir_at (Suc n) a s" "good_entry e"
  shows "\<exists>r s'. dir_link a e s = Inr (r, s') \<and>
    (if cstr (filename e) \<in> dom (directory a s) then \<not> r \<and> dir_at n a s' \<and> directory a s' = directory a s
     else if r then dir_at n a s' \<and> directory a s' = (directory a s)(cstr (filename e) \<mapsto> de_i_no e)
     else dir_full a s')"
proof -
  obtain i where i: "inodes s a = Some i" "dir_file s i" "names_ok (dir_entries s i)" "open_ok s" "\<And>m. buf_ok s m"
    "Suc n \<le> length (slots s)" "directory a s = dir_map (dir_entries s i)" by (rule dir_atE [OF assms(1)]) (rule that; assumption)
  let ?es = "dir_entries s i" and ?e = "encode_entry e" and ?nm = "cstr (filename e)"
  have g: "length (filename e) = 16" "0 \<in> set (filename e)" "?nm \<noteq> []" "de_f_type e \<noteq> FT_UNKNOWN" "unat (de_i_no e) < 4096"
    using assms(2) by (simp_all add: good_entry_def)
  note enc = encode_entry_simps [OF g(1)]
  note look = dir_look_up_spec [OF assms(1) i(1) g(3)]
  show ?thesis
  proof (cases "directory a s ?nm")
    case (Some k)
    then obtain j where l: "unat k < 4096" "dir_look_up a (filename e) s = rbind (inode_open k s) (\<lambda>(c, t). Inr (Some (c, of_nat (32 * j)), t))"
      using look by auto
    obtain c t u where o: "inode_open k s = Inr (c, t)" "inode_close c t = Inr u" "dir_at n a u" "directory a u = directory a s"
      by (rule dir_probe [OF assms(1) l(1)])
    have "dir_link a e s = Inr (False, u)" using l(2) o(1,2) by (simp add: dir_link_def)
    then show ?thesis using o(3,4) Some by auto
  next
    case None
    then have look0: "dir_look_up a (filename e) s = Inr (None, s)" using look by simp
    obtain j where j: "j \<le> length ?es" "j < length ?es \<Longrightarrow> unused (?es ! j)"
      and run: "dir_link a e s = rbind (inode_write a ?e (of_nat (32 * j)) s) (\<lambda>(w, t). Inr (w \<noteq> None, t))"
    proof (cases "first_entry unused 0 ?es")
      case None
      obtain m where m: "length ?es = m" by blast
      have sz: "unat (i_size i) = 32 * m" using length_file_bytes_dir [OF i(2)] unfolding m by simp
      have "i_size i = of_nat (32 * m)" using arg_cong [OF sz, of "of_nat :: nat \<Rightarrow> u64"] by simp
      then have "dir_link a e s = rbind (inode_write a ?e (of_nat (32 * m)) s) (\<lambda>(w, t). Inr (w \<noteq> None, t))"
        using look0 scan_at [OF i(1,2,5), of unused] None i(1) by (simp add: dir_link_def the_inode_def)
      with m show ?thesis by (intro that [of m]) auto
    next
      case (Some p)
      obtain k x where p: "p = (k, x)" by (cases p)
      then have "k < length ?es" "unused (?es ! k)"
        using first_entry_Some [of unused 0 ?es k x] Some by auto
      moreover have "dir_link a e s = rbind (inode_write a ?e (of_nat (32 * k)) s) (\<lambda>(w, t). Inr (w \<noteq> None, t))"
        using look0 scan_at [OF i(1,2,5), of unused] Some p by (simp add: dir_link_def)
      ultimately show ?thesis by (intro that [of k]) simp_all
    qed
    obtain m where m: "length ?es = m" by blast
    have sz: "unat (i_size i) = 32 * m" "32 * m \<le> 71680"
      using length_file_bytes_dir [OF i(2)] i(2) unfolding m by (simp_all add: dir_file_def file_ok_def)
    show ?thesis
    proof (cases "32 * j + 32 \<le> 71680")
      case False
      moreover have "j \<le> m" using j(1) unfolding m .
      ultimately have jm: "j = m" "32 * m = 71680" using sz(2) by presburger+
      then have "inode_write a ?e (of_nat (32 * j)) s = Inr (None, s)"
        using enc(1) by (simp add: inode_write_def MAX_FILE_SIZE_def)
      then show ?thesis using run None jm sz(1) i(1)
        by (intro exI [of _ False] exI [of _ s]) (simp add: dir_full_def domIff)
    next
      case True
      obtain r s' where w: "inode_write a ?e (of_nat (32 * j)) s = Inr (r, s')" and sp: "case r of None \<Rightarrow> disk_full s' \<and> j = length ?es
         | Some _ \<Rightarrow> \<exists>i'. inodes s' a = Some i' \<and> dir_file s' i' \<and> open_ok s' \<and> buf_ok s' = buf_ok s \<and> slots s' = slots s \<and>
             dir_entries s' i' = (if j < length ?es then ?es[j := ?e] else ?es @ [?e])"
        using dir_write [OF assms(1) i(1) j(1) enc(1) True] by blast
      show ?thesis
      proof (cases r)
        case None
        then show ?thesis using \<open>directory a s ?nm = None\<close> w sp run by (auto simp: dir_full_def)
      next
        case (Some q)
        then obtain i' where i': "inodes s' a = Some i'" "dir_file s' i'" "open_ok s'" "buf_ok s' = buf_ok s" "slots s' = slots s"
          "dir_entries s' i' = (if j < length ?es then ?es[j := ?e] else ?es @ [?e])" using sp by auto
        have fresh: "dir_map ?es (cstr ?e) = None" using \<open>directory a s ?nm = None\<close> enc(5) [OF g(2)] i(7) by simp
        have "names_ok (dir_entries s' i') \<and> dir_map (dir_entries s' i') = (dir_map ?es)(cstr ?e \<mapsto> ino ?e)"
        proof (cases "j < length ?es")
          case True
          then show ?thesis unfolding i'(6) if_P [OF True]
            using names_ok_update [OF i(3) True j(2) [OF True] enc(1)] fresh g enc by simp
        next
          case False
          then show ?thesis unfolding i'(6) if_not_P [OF False]
            using names_ok_snoc [OF i(3) enc(1)] fresh g enc by simp
        qed
        then have "dir_at n a s'" "directory a s' = (directory a s)(?nm \<mapsto> de_i_no e)"
          using i' i(5,6,7) enc g(2) by (simp_all add: dir_at_def directory_def)
        then show ?thesis using w run Some \<open>directory a s ?nm = None\<close>
          by (intro exI [of _ True] exI [of _ s']) auto
      qed
    qed
  qed
qed

text \<open>\<^verbatim>\<open>dir_unlink\<close> removes the name, and reports whether it was there.\<close>

lemma dir_unlink_spec:
  assumes "dir_at (Suc n) a s" "cstr name \<noteq> []"
  shows "\<exists>s'. dir_unlink a name s = Inr (cstr name \<in> dom (directory a s), s') \<and> dir_at n a s' \<and>
    directory a s' = (directory a s)(cstr name := None)"
proof -
  obtain i where i: "inodes s a = Some i" "dir_file s i" "names_ok (dir_entries s i)" "\<And>m. buf_ok s m"
    "Suc n \<le> length (slots s)" "directory a s = dir_map (dir_entries s i)" by (rule dir_atE [OF assms(1)]) (rule that; assumption)
  note look = dir_look_up_spec [OF assms(1) i(1) assms(2)]
  show ?thesis
  proof (cases "directory a s (cstr name)")
    case None
    then have "dir_unlink a name s = Inr (False, s)" using look by (simp add: dir_unlink_def)
    moreover have "dir_at n a s" using assms(1) by (auto simp: dir_at_def)
    ultimately show ?thesis using None by (auto simp: fun_upd_idem)
  next
    case (Some k)
    then obtain j where j: "j < length (dir_entries s i)" "\<not> unused (dir_entries s i ! j)" "cstr (dir_entries s i ! j) = cstr name"
      "unat k < 4096" "dir_look_up a name s = rbind (inode_open k s) (\<lambda>(c, t). Inr (Some (c, of_nat (32 * j)), t))"
      using look by auto
    obtain c t u where o: "inode_open k s = Inr (c, t)" "inode_close c t = Inr u" "dir_at n a u" "directory a u = directory a s"
      "touched s u" by (rule dir_probe [OF assms(1) j(4)])
    obtain i2 where i2: "inodes u a = Some i2" "dir_file u i2" "dir_entries u i2 = dir_entries s i"
    proof -
      obtain q where q: "inodes u a = Some (i\<lparr>i_open_cnts := q\<rparr>)" using o(5) i(1) unfolding touched_def by blast
      have "file_bytes u (i\<lparr>i_open_cnts := q\<rparr>) = file_bytes s i"
        using file_bytes_cong [of "i\<lparr>i_open_cnts := q\<rparr>" i s] touched_file(2) [OF o(5)] by simp
      moreover have "dir_file u (i\<lparr>i_open_cnts := q\<rparr>)" using o(3) q by (auto elim: dir_atE)
      ultimately show ?thesis using q that by simp
    qed
    let ?z = "encode_entry \<lparr>filename = replicate MAX_FILE_NAME_LEN 0, de_i_no = 0, de_f_type = FT_UNKNOWN\<rparr>"
    have z: "length ?z = 32" "unused ?z" "cstr ?z = []"
      using encode_entry_simps [of "\<lparr>filename = replicate MAX_FILE_NAME_LEN 0, de_i_no = 0, de_f_type = FT_UNKNOWN\<rparr>"]
      by (simp_all add: MAX_FILE_NAME_LEN_def cstr_def)
    obtain m where m: "length (dir_entries s i) = m" by blast
    have "32 * m \<le> 71680"
      using length_file_bytes_dir [OF i(2)] i(2) unfolding m by (simp add: dir_file_def file_ok_def)
    then have fits: "32 * j + 32 \<le> 71680" using j(1) m by linarith
    have le: "j \<le> length (dir_entries u i2)" using j(1) i2(3) by simp
    obtain r s' where w: "inode_write a ?z (of_nat (32 * j)) u = Inr (r, s')" and sp: "case r of None \<Rightarrow> disk_full s' \<and> j = length (dir_entries u i2)
       | Some _ \<Rightarrow> \<exists>i'. inodes s' a = Some i' \<and> dir_file s' i' \<and> open_ok s' \<and> buf_ok s' = buf_ok u \<and> slots s' = slots u \<and>
           dir_entries s' i' = (if j < length (dir_entries u i2) then (dir_entries u i2)[j := ?z] else dir_entries u i2 @ [?z])"
      using dir_write [OF o(3) i2(1) le z(1) fits] by blast
    then obtain i' where i': "inodes s' a = Some i'" "dir_file s' i'" "open_ok s'" "buf_ok s' = buf_ok u" "slots s' = slots u"
      "dir_entries s' i' = (dir_entries s i)[j := ?z]" using j(1) unfolding i2(3) by (cases r) auto
    have "dir_unlink a name s = Inr (True, s')" using j(5) o(1,2) w by (simp add: dir_unlink_def)
    moreover have "names_ok (dir_entries s' i')" "dir_map (dir_entries s' i') = (dir_map (dir_entries s i))(cstr name := None)"
      unfolding i'(6) using names_ok_clear [OF i(3) j(1,2) z] j(3) by simp_all
    moreover have "\<forall>m. buf_ok u m" "n \<le> length (slots u)" using o(3) by (simp_all add: dir_at_def)
    ultimately show ?thesis using i' i(6) Some by (auto simp: dir_at_def directory_def)
  qed
qed

section \<open>A store of names\<close>

text \<open>
  What the callers of a directory rely on: \<open>inv n\<close> is the invariant with room for \<open>n\<close> more operations, \<open>abs\<close> the
  map; \<open>link\<close> enters a new name or reports failure on a full store, \<open>unlink\<close> removes one.
\<close>

locale name_store =
  fixes inv :: "nat \<Rightarrow> 's \<Rightarrow> bool" and abs :: "'s \<Rightarrow> 'k \<rightharpoonup> 'v"
    and link :: "'k \<Rightarrow> 'v \<Rightarrow> 's \<Rightarrow> (bool \<times> 's) res" and unlink :: "'k \<Rightarrow> 's \<Rightarrow> (bool \<times> 's) res"
    and full :: "'s \<Rightarrow> bool" and valid :: "'k \<Rightarrow> 'v \<Rightarrow> bool"
  assumes link_law: "inv (Suc n) s \<Longrightarrow> valid k v \<Longrightarrow> \<exists>r s'. link k v s = Inr (r, s') \<and>
      (if k \<in> dom (abs s) then \<not> r \<and> inv n s' \<and> abs s' = abs s
       else if r then inv n s' \<and> abs s' = (abs s)(k \<mapsto> v) else full s')"
    and unlink_law: "inv (Suc n) s \<Longrightarrow> valid k v \<Longrightarrow> \<exists>s'. unlink k s = Inr (k \<in> dom (abs s), s') \<and> inv n s' \<and>
      abs s' = (abs s)(k := None)"
begin

lemma link_new:
  assumes "inv (Suc n) s" "valid k v" "abs s k = None" "link k v s = Inr (True, s')"
  shows "inv n s'" "abs s' = (abs s)(k \<mapsto> v)"
  using link_law [OF assms(1,2)] assms(3,4) by (auto simp: domIff)

lemma link_twice:
  assumes "inv (Suc (Suc n)) s" "valid k v" "valid k w" "abs s k = None" "link k v s = Inr (True, s')"
  shows "\<exists>s''. link k w s' = Inr (False, s'') \<and> abs s'' = (abs s)(k \<mapsto> v)"
  using link_law [OF link_new(1) [OF assms(1,2,4,5)] assms(3)] link_new(2) [OF assms(1,2,4,5)] by auto

lemma link_unlink:
  assumes "inv (Suc (Suc n)) s" "valid k v" "abs s k = None" "link k v s = Inr (True, s')"
  shows "\<exists>s''. unlink k s' = Inr (True, s'') \<and> inv n s'' \<and> abs s'' = abs s"
  using unlink_law [OF link_new(1) [OF assms] assms(2)] link_new(2) [OF assms] assms(3)
  by (auto simp: fun_upd_idem)

fun link_all :: "('k \<times> 'v) list \<Rightarrow> 's \<Rightarrow> (bool \<times> 's) res" where
  "link_all [] s = Inr (True, s)"
| "link_all ((k, v) # kvs) s = rbind (link k v s) (\<lambda>(r, s). if r then link_all kvs s else Inr (False, s))"

lemma link_all_map:
  assumes "inv (length kvs) s" "distinct (map fst kvs)" "\<forall>(k, v) \<in> set kvs. valid k v \<and> abs s k = None"
  shows "\<exists>r s'. link_all kvs s = Inr (r, s') \<and> (if r then inv 0 s' \<and> abs s' = abs s ++ map_of kvs else full s')"
  using assms
proof (induction kvs arbitrary: s)
  case (Cons kv kvs)
  obtain k v where kv: "kv = (k, v)" by (cases kv)
  have v: "valid k v" "k \<notin> dom (abs s)" using Cons.prems(3) kv by (auto simp: domIff)
  obtain r t where t: "link k v s = Inr (r, t)" "if r then inv (length kvs) t \<and> abs t = (abs s)(k \<mapsto> v) else full t"
    using link_law [of "length kvs" s k v] Cons.prems(1) v by auto
  show ?case
  proof (cases r)
    case True
    have "\<forall>(k, v) \<in> set kvs. valid k v \<and> abs t k = None"
      using Cons.prems(2,3) t(2) True kv by (auto simp: rev_image_eqI)
    then obtain r' u where "link_all kvs t = Inr (r', u)" "if r' then inv 0 u \<and> abs u = abs t ++ map_of kvs else full u"
      using Cons.IH [of t] Cons.prems(2) t(2) True by auto
    moreover have "(abs s)(k \<mapsto> v) ++ map_of kvs = abs s ++ map_of (kv # kvs)"
    proof (rule ext)
      fix x
      have "map_of kvs k = None" using Cons.prems(2) kv by (simp add: map_of_eq_None_iff)
      then show "((abs s)(k \<mapsto> v) ++ map_of kvs) x = (abs s ++ map_of (kv # kvs)) x"
        by (cases "x = k") (simp_all add: map_add_def kv split: option.splits)
    qed
    ultimately show ?thesis using t True kv by auto
  qed (use t kv in auto)
qed auto

end

definition new_entry :: "u32 \<Rightarrow> byte list \<Rightarrow> u64 \<Rightarrow> dir_entry" where
  "new_entry ft name n = \<lparr>filename = name @ replicate (MAX_FILE_NAME_LEN - length name) 0, de_i_no = n, de_f_type = ft\<rparr>"

definition name_ok :: "byte list \<Rightarrow> bool" where
  "name_ok name \<longleftrightarrow> name \<noteq> [] \<and> 0 \<notin> set name \<and> length name < MAX_FILE_NAME_LEN"

lemma cstr_name: "0 \<notin> set name \<Longrightarrow> cstr (name @ 0 # bs) = name" "0 \<notin> set name \<Longrightarrow> cstr name = name"
  unfolding cstr_def by (induction name) auto

lemma good_new_entry:
  assumes "name_ok name" "unat n < 4096" "ft \<noteq> FT_UNKNOWN"
  shows "good_entry (new_entry ft name n)" "cstr (filename (new_entry ft name n)) = name"
proof -
  define k where "k = 15 - length name"
  have pad: "name @ replicate (16 - length name) 0 = name @ 0 # replicate k 0" "length name + Suc k = 16"
    using assms(1) by (auto simp: name_ok_def MAX_FILE_NAME_LEN_def k_def simp flip: replicate_Suc)
  show "good_entry (new_entry ft name n)" "cstr (filename (new_entry ft name n)) = name"
    using assms pad cstr_name(1) [of name] by (auto simp: good_entry_def new_entry_def name_ok_def MAX_FILE_NAME_LEN_def)
qed

text \<open>The directory of the inode at \<open>a\<close>, with entries of type \<open>ft\<close>, is such a store.\<close>

interpretation dir: name_store "\<lambda>n. dir_at n a" "directory a" "\<lambda>name n. dir_link a (new_entry ft name n)" "dir_unlink a"
  "dir_full a" "\<lambda>name (n :: u64). name_ok name \<and> unat n < 4096 \<and> ft \<noteq> FT_UNKNOWN" for a ft
proof
  fix n s name and v :: u64
  assume inv: "dir_at (Suc n) a s" and v: "name_ok name \<and> unat v < 4096 \<and> ft \<noteq> FT_UNKNOWN"
  have g: "good_entry (new_entry ft name v)" "cstr (filename (new_entry ft name v)) = name"
    using good_new_entry v by blast+
  have no: "de_i_no (new_entry ft name v) = v" by (simp add: new_entry_def)
  show "\<exists>r s'. dir_link a (new_entry ft name v) s = Inr (r, s') \<and>
      (if name \<in> dom (directory a s) then \<not> r \<and> dir_at n a s' \<and> directory a s' = directory a s
       else if r then dir_at n a s' \<and> directory a s' = (directory a s)(name \<mapsto> v) else dir_full a s')"
    using dir_link_spec [OF inv g(1)] unfolding g(2) no .
  have "cstr name = name" "name \<noteq> []" using v cstr_name(2) by (simp_all add: name_ok_def)
  then show "\<exists>s'. dir_unlink a name s = Inr (name \<in> dom (directory a s), s') \<and> dir_at n a s' \<and>
      directory a s' = (directory a s)(name := None)"
    using dir_unlink_spec [OF inv, of name] by simp
qed

section \<open>Properties\<close>

text \<open>A partition with the root directory only, for the witnesses.\<close>

definition dot_entry :: "byte list" where
  "dot_entry = encode_entry \<lparr>filename = 0x2e # replicate 15 0, de_i_no = 0, de_f_type = FT_DIRECTORY\<rparr>"

definition dotdot_entry :: "byte list" where
  "dotdot_entry = encode_entry \<lparr>filename = 0x2e # 0x2e # replicate 14 0, de_i_no = 0, de_f_type = FT_DIRECTORY\<rparr>"

definition root_inode :: inode where
  "root_inode = \<lparr>i_no = 0, i_size = 64, i_open_cnts = 1, f_type = FT_DIRECTORY, inode_lock = 0,
     i_sectors = 1283 # replicate 12 0\<rparr>"

definition demo_root_fs :: fs where
  "demo_root_fs = demo_fs\<lparr>sectors := (\<lambda>l. if l = 1283 then dot_entry @ dotdot_entry @ replicate 448 0 else replicate 512 0),
     open_inodes := [0x1000], inodes := [0x1000 \<mapsto> root_inode]\<rparr>"

lemma dot_entries:
  "length dot_entry = 32" "\<not> unused dot_entry" "cstr dot_entry = [0x2e]" "ino dot_entry = 0"
  "length dotdot_entry = 32" "\<not> unused dotdot_entry" "cstr dotdot_entry = [0x2e, 0x2e]" "ino dotdot_entry = 0"
  unfolding dot_entry_def dotdot_entry_def
  by (simp_all add: encode_entry_simps FT_DIRECTORY_def FT_UNKNOWN_def) (simp_all add: cstr_def)

text \<open>A directory of one block with entries for these two names.\<close>

definition dot_pair :: "byte list \<Rightarrow> byte list \<Rightarrow> bool" where
  "dot_pair d dd \<longleftrightarrow> length d = 32 \<and> \<not> unused d \<and> cstr d = [0x2e] \<and> ino d = 0 \<and>
     length dd = 32 \<and> \<not> unused dd \<and> cstr dd = [0x2e, 0x2e] \<and> ino dd = 0"

lemma dot_entries_pair: "dot_pair dot_entry dotdot_entry"
  using dot_entries by (simp add: dot_pair_def)

lemma root_dir_entries:
  assumes "secs_ok s" "i_size i = 64" "i_sectors i = l # replicate 12 0" "l \<noteq> 0"
    "sectors s l = d @ dd @ rest" "dot_pair d dd"
  shows "dir_entries s i = [d, dd]" "names_ok (dir_entries s i)"
    "dir_map (dir_entries s i) = [[0x2e] \<mapsto> 0, [0x2e, 0x2e] \<mapsto> 0]"
proof -
  note dots = assms(6) [unfolded dot_pair_def]
  have "file_bytes s i = d @ dd"
  proof (rule nth_equalityI)
    show "length (file_bytes s i) = length (d @ dd)" using assms(2) dots by simp
    fix q assume "q < length (file_bytes s i)"
    then have q: "q < 64" using assms(2) by simp
    then have "file_bytes s i ! q = sectors s l ! q"
      using assms(2-4) by (simp add: nth_file_bytes fbyte_def block_of_def get_blocks_lba_def)
    then show "file_bytes s i ! q = (d @ dd) ! q"
      using q assms(5) dots by (cases "q - 32 < 32") (auto simp: nth_append)
  qed
  then show es: "dir_entries s i = [d, dd]"
    using dots by (simp add: entries_def entry_at_def numeral_2_eq_2)
  show "names_ok (dir_entries s i)" unfolding es names_ok_def
    using dots by (auto simp: less_Suc_eq)
  show "dir_map (dir_entries s i) = [[0x2e] \<mapsto> 0, [0x2e, 0x2e] \<mapsto> 0]"
    unfolding es dir_map_def using dots by (simp add: fun_eq_iff)
qed

lemma one_block_file:
  assumes "secs_ok s" "layout_ok s" "used_block s l" "i_sectors i = l # replicate 12 0" "unat (i_size i) \<le> 512"
    "unat (i_no i) < 4096"
  shows "file_ok s i"
proof -
  have l0: "l \<noteq> 0" by (rule used_block_apart(1) [OF assms(2,3)])
  have b: "get_blocks_lba i s = l # replicate 139 0"
    using assms(4) by (simp add: get_blocks_lba_def numeral_eq_Suc)
  have nth: "(l # replicate 139 0) ! j = (if j = 0 then l else 0)" if "j < 140" for j
    using that by (cases j) simp_all
  have "blocks_ok s 0 (l # replicate 139 0)"
    unfolding blocks_ok_def using assms(1-3) l0 nth by (auto split: if_splits)
  moreover have "q div 512 = 0" if "q < unat (i_size i)" for q using that assms(5) by simp
  ultimately show ?thesis using assms(4-6) l0 by (simp add: file_ok_def b)
qed

lemma root_dir_at:
  assumes "secs_ok s" "layout_ok s" "used_block s l" "sectors s l = d @ dd @ rest" "dot_pair d dd"
    and "inodes s a = Some i" "i_no i = 0" "i_size i = 64" "i_sectors i = l # replicate 12 0" "f_type i = FT_DIRECTORY"
    and "open_ok s" "\<And>m. buf_ok s m" "n \<le> length (slots s)"
  shows "dir_at n a s" "directory a s = [[0x2e] \<mapsto> 0, [0x2e, 0x2e] \<mapsto> 0]"
proof -
  have l0: "l \<noteq> 0" by (rule used_block_apart(1) [OF assms(2,3)])
  have "file_ok s i" by (rule one_block_file [OF assms(1-3,9)]) (use assms in simp_all)
  then have "dir_file s i" using assms(8,10) by (simp add: dir_file_def)
  then show "dir_at n a s" "directory a s = [[0x2e] \<mapsto> 0, [0x2e, 0x2e] \<mapsto> 0]"
    using root_dir_entries [OF assms(1,8,9) l0 assms(4,5)] assms(6,11-13) by (simp_all add: dir_at_def directory_def)
qed

lemma demo_root: "dir_at 2 0x1000 demo_root_fs" "directory 0x1000 demo_root_fs = [[0x2e] \<mapsto> 0, [0x2e, 0x2e] \<mapsto> 0]"
proof -
  have used: "used_block demo_root_fs 1283" unfolding used_block_def
    by (intro bexI [of _ 0]) (auto simp: demo_root_fs_def demo_fs_def used_bits_def)
  have sec: "secs_ok demo_root_fs" using dot_entries by (simp add: demo_root_fs_def secs_ok_def BLOCK_SIZE_def)
  have lay: "layout_ok demo_root_fs" by (simp add: demo_root_fs_def demo_fs_def layout_ok_def)
  have op: "open_ok demo_root_fs" by (auto simp: demo_root_fs_def demo_fs_def open_ok_def root_inode_def)
  show "dir_at 2 0x1000 demo_root_fs" "directory 0x1000 demo_root_fs = [[0x2e] \<mapsto> 0, [0x2e, 0x2e] \<mapsto> 0]"
    by (rule root_dir_at [OF sec lay used _ dot_entries_pair _ _ _ _ _ op, where i = root_inode and n = 2];
        simp add: demo_root_fs_def demo_fs_def root_inode_def)+
qed

text \<open>
  C20. A directory is a finite map from names to inode numbers. Looking up a name finds it exactly if the map
  has it, and opens the inode of the map; \<^verbatim>\<open>dir_link\<close> refuses a name that is there, otherwise adds exactly the new
  name, failing only when the disk or the directory is full; \<^verbatim>\<open>dir_unlink\<close> removes exactly the name and reports
  whether it was there. The directory stays well-formed, and freed entries are used again.
\<close>
theorem dir_ops_refine_map:
  assumes "dir_at (Suc n) a s" "name_ok name" "unat k < 4096" "ft \<noteq> FT_UNKNOWN"
  shows "(\<exists>r s'. dir_link a (new_entry ft name k) s = Inr (r, s') \<and>
      (if name \<in> dom (directory a s) then \<not> r \<and> dir_at n a s' \<and> directory a s' = directory a s
       else if r then dir_at n a s' \<and> directory a s' = (directory a s)(name \<mapsto> k) else dir_full a s')) \<and>
    (\<exists>s'. dir_unlink a name s = Inr (name \<in> dom (directory a s), s') \<and> dir_at n a s' \<and>
      directory a s' = (directory a s)(name := None)) \<and>
    (case directory a s name of None \<Rightarrow> dir_look_up a name s = Inr (None, s)
      | Some m \<Rightarrow> \<exists>c off t. dir_look_up a name s = Inr (Some (c, off), t) \<and> inode_open m s = Inr (c, t))"
proof (intro conjI)
  show "\<exists>r s'. dir_link a (new_entry ft name k) s = Inr (r, s') \<and>
      (if name \<in> dom (directory a s) then \<not> r \<and> dir_at n a s' \<and> directory a s' = directory a s
       else if r then dir_at n a s' \<and> directory a s' = (directory a s)(name \<mapsto> k) else dir_full a s')"
    using dir.link_law [OF assms(1), of name k ft] assms(2-4) by simp
  show "\<exists>s'. dir_unlink a name s = Inr (name \<in> dom (directory a s), s') \<and> dir_at n a s' \<and>
      directory a s' = (directory a s)(name := None)"
    using dir.unlink_law [OF assms(1), of name k ft] assms(2-4) by simp
  obtain i where i: "inodes s a = Some i" by (rule dir_atE [OF assms(1)])
  have nm: "cstr name = name" "name \<noteq> []" using assms(2) cstr_name(2) by (auto simp: name_ok_def)
  show "case directory a s name of None \<Rightarrow> dir_look_up a name s = Inr (None, s)
      | Some m \<Rightarrow> \<exists>c off t. dir_look_up a name s = Inr (Some (c, off), t) \<and> inode_open m s = Inr (c, t)"
  proof (cases "directory a s name")
    case None
    then show ?thesis using dir_look_up_spec [OF assms(1) i, of name] nm by simp
  next
    case (Some m)
    then obtain j where j: "unat m < 4096" "dir_look_up a name s = rbind (inode_open m s) (\<lambda>(c, t). Inr (Some (c, of_nat (32 * j)), t))"
      using dir_look_up_spec [OF assms(1) i, of name] nm by auto
    obtain c t u where "inode_open m s = Inr (c, t)" by (rule dir_probe [OF assms(1) j(1)])
    then show ?thesis using j Some by simp
  qed
qed

theorem dir_ops_refine_map_witness:
  "(\<exists>r s'. dir_link 0x1000 (new_entry FT_REGULAR [0x61] 7) demo_root_fs = Inr (r, s') \<and>
      (if r then directory 0x1000 s' [0x61] = Some 7 else dir_full 0x1000 s')) \<and>
   (\<exists>s'. dir_unlink 0x1000 [0x61] demo_root_fs = Inr (False, s')) \<and>
   (\<exists>c off t. dir_look_up 0x1000 [0x2e] demo_root_fs = Inr (Some (c, off), t) \<and> inode_open 0 demo_root_fs = Inr (c, t))"
proof -
  have d: "dir_at (Suc 1) 0x1000 demo_root_fs" using demo_root(1) by (simp add: numeral_2_eq_2)
  have a: "name_ok [0x61]" "name_ok [0x2e]" "unat (7 :: u64) < 4096" "FT_REGULAR \<noteq> FT_UNKNOWN"
    by (simp_all add: name_ok_def MAX_FILE_NAME_LEN_def FT_REGULAR_def FT_UNKNOWN_def)
  note w = dir_ops_refine_map [OF d a(1,3,4)] and w' = dir_ops_refine_map [OF d a(2,3,4)]
  have m: "directory 0x1000 demo_root_fs [0x61] = None" "directory 0x1000 demo_root_fs [0x2e] = Some 0"
    using demo_root(2) by simp_all
  then have "[0x61] \<notin> dom (directory 0x1000 demo_root_fs)" by (simp add: domIff)
  note w = w [unfolded if_not_P [OF this]]
  have "\<exists>r s'. dir_link 0x1000 (new_entry FT_REGULAR [0x61] 7) demo_root_fs = Inr (r, s') \<and>
      (if r then directory 0x1000 s' [0x61] = Some 7 else dir_full 0x1000 s')"
    using w by (elim conjE exE) (intro exI conjI, assumption, simp split: if_splits)
  moreover have "\<exists>s'. dir_unlink 0x1000 [0x61] demo_root_fs = Inr (False, s')"
    using w m(1) by (elim conjE exE) (simp add: domIff)
  ultimately show ?thesis using w' m(2) by simp
qed

text \<open>
  Making and removing a file are inverse for the directory: after a successful \<^verbatim>\<open>dir_link\<close> of a new name a
  second one is refused, and \<^verbatim>\<open>dir_unlink\<close> gives back the directory as it was.
\<close>
theorem dir_link_unlink:
  assumes "dir_at (Suc (Suc n)) a s" "name_ok name" "unat k < 4096" "unat k' < 4096" "ft \<noteq> FT_UNKNOWN"
    and "directory a s name = None" "dir_link a (new_entry ft name k) s = Inr (True, s')"
  shows "(\<exists>u. dir_link a (new_entry ft name k') s' = Inr (False, u) \<and> directory a u = (directory a s)(name \<mapsto> k)) \<and>
    (\<exists>t. dir_unlink a name s' = Inr (True, t) \<and> dir_at n a t \<and> directory a t = directory a s)"
proof
  have v: "name_ok name \<and> unat k < 4096 \<and> ft \<noteq> FT_UNKNOWN" "name_ok name \<and> unat k' < 4096 \<and> ft \<noteq> FT_UNKNOWN"
    using assms(2-5) by simp_all
  show "\<exists>u. dir_link a (new_entry ft name k') s' = Inr (False, u) \<and> directory a u = (directory a s)(name \<mapsto> k)"
    using dir.link_twice [of n a s name k ft k' s'] assms v by blast
  show "\<exists>t. dir_unlink a name s' = Inr (True, t) \<and> dir_at n a t \<and> directory a t = directory a s"
    using dir.link_unlink [of n a s name k ft s'] assms v by blast
qed


theorem dir_link_unlink_witness:
  "(\<exists>r s'. dir_link 0x1000 (new_entry FT_REGULAR [0x61] 7) demo_root_fs = Inr (r, s') \<and> (r \<longrightarrow>
     (\<exists>u. dir_link 0x1000 (new_entry FT_REGULAR [0x61] 8) s' = Inr (False, u)) \<and>
     (\<exists>t. dir_unlink 0x1000 [0x61] s' = Inr (True, t) \<and> directory 0x1000 t = directory 0x1000 demo_root_fs)))"
proof -
  have d: "dir_at (Suc (Suc 0)) 0x1000 demo_root_fs" using demo_root(1) by (simp add: numeral_2_eq_2)
  have a: "name_ok [0x61]" "unat (7 :: u64) < 4096" "unat (8 :: u64) < 4096" "FT_REGULAR \<noteq> FT_UNKNOWN"
    by (simp_all add: name_ok_def MAX_FILE_NAME_LEN_def FT_REGULAR_def FT_UNKNOWN_def)
  have m: "directory 0x1000 demo_root_fs [0x61] = None" using demo_root(2) by simp
  obtain r s' where l: "dir_link 0x1000 (new_entry FT_REGULAR [0x61] 7) demo_root_fs = Inr (r, s')"
    using dir.link_law [OF d, of "[0x61]" 7 FT_REGULAR] a by blast
  then show ?thesis using dir_link_unlink [OF d a m, of s'] by (cases r) auto
qed

end
