(* ===== verification/Path.thy ===== *)
theory Path
  imports Dir
begin

text \<open>
  Path names: \<^verbatim>\<open>path_parse\<close> and \<^verbatim>\<open>search_file\<close> of \<^verbatim>\<open>fs/fs.c\<close>, and the creation and deletion of files and
  directories built on them (\<^verbatim>\<open>create_file_or_directory\<close>, \<^verbatim>\<open>delete_file_or_directory\<close> of \<^verbatim>\<open>fs/inode.c\<close>).
  A path is the list of the bytes of the C string without its final zero; the working directory of the
  running thread is an argument. Theory \<open>PathSpec\<close> shows how paths are resolved.
\<close>

section \<open>Operations\<close>

definition SLASH :: byte where "SLASH = 0x2f"

text \<open>
  The component is copied into a buffer of 16 bytes with its final zero; a longer one overruns it. The rest
  of the path is \<open>None\<close> (\<^verbatim>\<open>NULL\<close>) when nothing follows.
\<close>

definition path_parse :: "byte list \<Rightarrow> (byte list \<times> byte list option) res" where
  "path_parse pathname =
     (let p = dropWhile (\<lambda>c. c = SLASH) pathname;
          name_store = takeWhile (\<lambda>c. c \<noteq> SLASH) p; rest = dropWhile (\<lambda>c. c \<noteq> SLASH) p in
      if length name_store < MAX_FILE_NAME_LEN then Inr (name_store, if rest = [] then None else Some rest)
      else Inl (Fault ''name''))"

lemma path_parse_shorter: "path_parse p = Inr (name, Some rest) \<Longrightarrow> length rest < length p"
proof -
  assume a: "path_parse p = Inr (name, Some rest)"
  let ?q = "dropWhile (\<lambda>c. c = SLASH) p"
  define n r where "n = takeWhile (\<lambda>c. c \<noteq> SLASH) ?q" and "r = dropWhile (\<lambda>c. c \<noteq> SLASH) ?q"
  have "path_parse p = (if length n < MAX_FILE_NAME_LEN then Inr (n, if r = [] then None else Some r)
      else Inl (Fault ''name''))"
    unfolding path_parse_def Let_def n_def r_def ..
  with a have rest: "rest = dropWhile (\<lambda>c. c \<noteq> SLASH) ?q" "rest \<noteq> []"
    unfolding r_def [symmetric] by (auto split: if_splits)
  have q: "length ?q \<le> length p" by (rule length_dropWhile_le)
  from rest obtain c cs where c: "?q = c # cs" by (cases ?q) auto
  then have "c \<noteq> SLASH" using hd_dropWhile [of "\<lambda>c. c = SLASH" p] by auto
  then have "length rest \<le> length cs" using rest(1) c length_dropWhile_le [of _ cs] by simp
  then show ?thesis using q c by simp
qed

function search_loop :: "bool \<Rightarrow> u64 \<Rightarrow> byte list \<Rightarrow> fs \<Rightarrow> (u64 option \<times> fs) res" where
  "search_loop is_parent pinode path_remain s =
     rbind (path_parse path_remain) (\<lambda>(name, rest).
     case rest of
       Some rest \<Rightarrow>
         rbind (dir_look_up pinode name s) (\<lambda>(found, s).
         case found of
           None \<Rightarrow> rbind (inode_close pinode s) (\<lambda>s. Inr (None, s))
         | Some (cinode, off) \<Rightarrow>
             rbind (the_inode cinode s) (\<lambda>c.
             if f_type c \<noteq> FT_DIRECTORY then
               rbind (inode_close pinode s) (\<lambda>s. rbind (inode_close cinode s) (\<lambda>s. Inr (None, s)))
             else rbind (inode_close pinode s) (\<lambda>s. search_loop is_parent cinode rest s)))
     | None \<Rightarrow>
         if is_parent \<or> name = [] then Inr (Some pinode, s)
         else
           rbind (dir_look_up pinode name s) (\<lambda>(found, s).
           case found of
             None \<Rightarrow> rbind (inode_close pinode s) (\<lambda>s. Inr (None, s))
           | Some (cinode, off) \<Rightarrow> rbind (inode_close pinode s) (\<lambda>s. Inr (Some cinode, s))))"
  by pat_completeness auto
termination
  by (relation "measure (\<lambda>(is_parent, pinode, path_remain, s). length path_remain)") (auto dest: path_parse_shorter)

declare search_loop.simps [simp del]

definition search_file :: "u64 \<Rightarrow> byte list \<Rightarrow> bool \<Rightarrow> fs \<Rightarrow> (u64 option \<times> fs) res" where
  "search_file cwd pathname is_parent s =
     rbind (inode_open (if pathname \<noteq> [] \<and> pathname ! 0 = SLASH then 0 else cwd) s) (\<lambda>(pinode, s).
     search_loop is_parent pinode pathname s)"

text \<open>What follows the last slash, with \<^verbatim>\<open>strrchr\<close>.\<close>

definition base_name :: "byte list \<Rightarrow> byte list" where
  "base_name pathname = rev (takeWhile (\<lambda>c. c \<noteq> SLASH) (rev pathname))"

definition create_file_or_directory :: "u64 \<Rightarrow> byte list \<Rightarrow> u32 \<Rightarrow> fs \<Rightarrow> (u64 option \<times> fs) res" where
  "create_file_or_directory cwd pathname file_type s =
     rbind (inode_alloc file_type s) (\<lambda>(r, s).
     case r of
       None \<Rightarrow> Inr (None, s)
     | Some inode \<Rightarrow>
         rbind (the_inode inode s) (\<lambda>i.
         rbind (set_filename (base_name pathname)) (\<lambda>name.
         rbind (search_file cwd pathname True s) (\<lambda>(p, s).
         case p of
           None \<Rightarrow> rbind (inode_free inode s) (\<lambda>s. Inr (None, s))
         | Some pinode \<Rightarrow>
             rbind (dir_link pinode \<lparr>filename = name, de_i_no = i_no i, de_f_type = file_type\<rparr> s) (\<lambda>(linked, s).
             if \<not> linked then rbind (inode_free inode s) (\<lambda>s. rbind (inode_close pinode s) (\<lambda>s. Inr (None, s)))
             else Inr (Some inode, s))))))"

definition delete_file_or_directory :: "u64 \<Rightarrow> byte list \<Rightarrow> fs \<Rightarrow> (bool \<times> fs) res" where
  "delete_file_or_directory cwd pathname s =
     rbind (search_file cwd pathname True s) (\<lambda>(p, s).
     case p of
       None \<Rightarrow> Inr (False, s)
     | Some pinode \<Rightarrow>
         rbind (dir_look_up pinode (base_name pathname) s) (\<lambda>(r, s).
         case r of
           None \<Rightarrow> rbind (inode_close pinode s) (\<lambda>s. Inr (False, s))
         | Some (inode, off) \<Rightarrow>
             rbind (inode_free inode s) (\<lambda>s.
             rbind (inode_close inode s) (\<lambda>s.
             rbind (dir_unlink pinode (base_name pathname) s) (\<lambda>(ok, s).
             rbind (kassert ok ''delete_file_or_directory: dir_unlink failed'') (\<lambda>_. Inr (True, s)))))))"

end
