(* ===== verification/PathSpec.thy ===== *)
theory PathSpec
  imports Path
begin

text \<open>
  How paths are resolved: \<^verbatim>\<open>search_file\<close> walks the tree of directories (\<open>walk\<close>), leaves the inode it found open and
  everything it opened on the way closed; and what this means for \<^verbatim>\<open>delete_file_or_directory\<close>.
\<close>

section \<open>The tree of directories\<close>

text \<open>Inode number \<open>k\<close>: in memory when it is open, otherwise in the inode table.\<close>

definition node :: "fs \<Rightarrow> u64 \<Rightarrow> inode" where
  "node s k = (case find (\<lambda>a. map_option i_no (inodes s a) = Some k) (open_inodes s) of
      Some a \<Rightarrow> the (inodes s a)
    | None \<Rightarrow> (decode_inode (table_entry s (unat k)))\<lparr>inode_lock := 0\<rparr>)"

definition children :: "fs \<Rightarrow> u64 \<Rightarrow> byte list \<rightharpoonup> u64" where
  "children s k = dir_map (dir_entries s (node s k))"

definition is_dir :: "fs \<Rightarrow> u64 \<Rightarrow> bool" where
  "is_dir s k \<longleftrightarrow> f_type (node s k) = FT_DIRECTORY"

fun walk :: "fs \<Rightarrow> u64 \<Rightarrow> byte list list \<Rightarrow> u64 option" where
  "walk s k [] = Some k"
| "walk s k (c # cs) = (if \<not> is_dir s k then None else case children s k c of None \<Rightarrow> None | Some j \<Rightarrow> walk s j cs)"

text \<open>
  The inodes with numbers in \<open>R\<close> form a tree below directory 0: they are stored under their own number, the
  directories among them are well-formed, and their entries lead to inodes of \<open>R\<close>.
\<close>

definition tree_ok :: "u64 set \<Rightarrow> fs \<Rightarrow> bool" where
  "tree_ok R s \<longleftrightarrow> 0 \<in> R \<and> is_dir s 0 \<and> secs_ok s \<and> (\<forall>m. buf_ok s m) \<and>
     (\<forall>k \<in> R. unat k < 4096 \<and> i_no (node s k) = k \<and>
       (is_dir s k \<longrightarrow> dir_file s (node s k) \<and> names_ok (dir_entries s (node s k)) \<and> ran (children s k) \<subseteq> R))"

section \<open>Opening and closing\<close>

text \<open>States that differ in what is open, with the same disk.\<close>

definition same_tree :: "fs \<Rightarrow> fs \<Rightarrow> bool" where
  "same_tree s t \<longleftrightarrow> sectors t = sectors s \<and> sb t = sb s \<and> block_bitmap t = block_bitmap s \<and> buf_ok t = buf_ok s"

lemma node_touched:
  assumes "touched s t"
  shows "\<exists>j. node t k = (node s k)\<lparr>i_open_cnts := j\<rparr>"
proof -
  have num: "map_option i_no (inodes t a) = map_option i_no (inodes s a)" for a
  proof (cases "inodes s a")
    case None
    then have "a \<notin> dom (inodes t)" using assms unfolding touched_def by auto
    with None show ?thesis by (simp add: domIff)
  next
    case (Some i)
    then obtain j where "inodes t a = Some (i\<lparr>i_open_cnts := j\<rparr>)" using assms unfolding touched_def by blast
    with Some show ?thesis by simp
  qed
  note t = touched_sectors [OF assms]
  show ?thesis
  proof (cases "find (\<lambda>a. map_option i_no (inodes s a) = Some k) (open_inodes s)")
    case None
    have "i = i\<lparr>i_open_cnts := i_open_cnts i\<rparr>" for i :: inode by simp
    then show ?thesis using None t touched_file(6) [OF assms] unfolding node_def num
      by (intro exI [of _ "i_open_cnts (decode_inode (table_entry s (unat k)))"]) simp
  next
    case (Some a)
    then have "map_option i_no (inodes s a) = Some k" using find_Some_iff by (metis (mono_tags, lifting))
    then obtain i where i: "inodes s a = Some i" by blast
    then obtain j where "inodes t a = Some (i\<lparr>i_open_cnts := j\<rparr>)" using assms unfolding touched_def by blast
    then show ?thesis using Some i t unfolding node_def num by auto
  qed
qed

lemma touched_tree:
  assumes "touched s t"
  shows "is_dir t = is_dir s" "children t = children s" "walk t k cs = walk s k cs" "tree_ok R t = tree_ok R s"
proof -
  have f: "dir_file t (i\<lparr>i_open_cnts := j\<rparr>) = dir_file s i" "dir_entries t (i\<lparr>i_open_cnts := j\<rparr>) = dir_entries s i" for i j
    using file_ok_cong [of "i\<lparr>i_open_cnts := j\<rparr>" i s] file_bytes_cong [of "i\<lparr>i_open_cnts := j\<rparr>" i s]
    by (simp_all add: touched_file [OF assms] dir_file_def)
  have n: "f_type (node t k) = f_type (node s k) \<and> i_no (node t k) = i_no (node s k) \<and>
      dir_file t (node t k) = dir_file s (node s k) \<and> dir_entries t (node t k) = dir_entries s (node s k)" for k
    using node_touched [OF assms, of k] f by (elim exE) simp
  then show d: "is_dir t = is_dir s" "children t = children s"
    by (simp_all add: is_dir_def children_def fun_eq_iff)
  show "walk t k cs = walk s k cs" by (induction cs arbitrary: k) (simp_all add: d split: option.splits)
  show "tree_ok R t = tree_ok R s"
    using touched_sectors [OF assms] n by (simp add: tree_ok_def d secs_ok_def)
qed

lemma touched_trans:
  assumes "touched s t" "touched t u"
  shows "touched s u"
proof -
  have t: "t = s\<lparr>inodes := inodes t, slots := slots t\<rparr>" and u: "u = t\<lparr>inodes := inodes u, slots := slots u\<rparr>"
    using assms unfolding touched_def by blast+
  have "u = s\<lparr>inodes := inodes u, slots := slots u\<rparr>" by (subst u, subst t) simp
  moreover have "\<exists>k. inodes u a = Some (i\<lparr>i_open_cnts := k\<rparr>)" if i: "inodes s a = Some i" for a i
  proof -
    obtain j where "inodes t a = Some (i\<lparr>i_open_cnts := j\<rparr>)" using assms(1) i unfolding touched_def by blast
    then obtain k where "inodes u a = Some (i\<lparr>i_open_cnts := j\<rparr>\<lparr>i_open_cnts := k\<rparr>)" using assms(2) unfolding touched_def by blast
    then show ?thesis by auto
  qed
  moreover have "dom (inodes u) = dom (inodes s)" using assms unfolding touched_def by simp
  ultimately show ?thesis unfolding touched_def by blast
qed

definition numbered :: "fs \<Rightarrow> u64 \<Rightarrow> u64 \<Rightarrow> bool" where
  "numbered s k a \<longleftrightarrow> map_option i_no (inodes s a) = Some k"

lemma node_numbered: "node s k = (case find (numbered s k) (open_inodes s) of Some a \<Rightarrow> the (inodes s a)
    | None \<Rightarrow> (decode_inode (table_entry s (unat k)))\<lparr>inode_lock := 0\<rparr>)"
  unfolding node_def numbered_def ..

lemma open_cases:
  assumes "set (open_inodes s) \<subseteq> dom (inodes s)" "secs_ok s" "unat k < 4096" "\<And>m. buf_ok s m" "slots s \<noteq> []"
  obtains (old) a i where "find (numbered s k) (open_inodes s) = Some a" "inodes s a = Some i" "i_no i = k" "node s k = i" "a \<in> set (open_inodes s)"
      "inode_open k s = Inr (a, put_inode a (i\<lparr>i_open_cnts := i_open_cnts i + 1\<rparr>) s)"
    | (new) a as where "find (numbered s k) (open_inodes s) = None" "slots s = a # as"
      "inode_open k s = Inr (a, s\<lparr>slots := as, open_inodes := a # open_inodes s, inodes := (inodes s)(a \<mapsto> (node s k)\<lparr>i_open_cnts := 1\<rparr>)\<rparr>)"
proof (cases "find (numbered s k) (open_inodes s)")
  case None
  obtain a as where sl: "slots s = a # as" using assms(5) by (cases "slots s") auto
  have "find_inode k (open_inodes s) s = Inr None" using find_inode_cases [OF assms(1), of k] None unfolding numbered_def by simp
  from inode_open_new [OF assms(2-4) this sl] show ?thesis by (intro new [OF None sl]) (simp add: node_numbered None)
next
  case (Some a)
  then have a: "a \<in> set (open_inodes s)" "map_option i_no (inodes s a) = Some k"
    unfolding find_Some_iff numbered_def by auto
  then obtain i where i: "inodes s a = Some i" "i_no i = k" by auto
  have "find_inode k (open_inodes s) s = Inr (Some a)" using find_inode_cases [OF assms(1), of k] Some unfolding numbered_def by simp
  then have "inode_open k s = Inr (a, put_inode a (i\<lparr>i_open_cnts := i_open_cnts i + 1\<rparr>) s)"
    using i by (simp add: inode_open_def the_inode_def)
  then show ?thesis using i a(1) by (intro old [OF Some]) (simp_all add: node_numbered Some)
qed

lemma find_remove1: "\<not> P a \<Longrightarrow> find P (remove1 a xs) = find P xs"
  by (induction xs) auto

lemma find_cong': "(\<And>x. x \<in> set xs \<Longrightarrow> P x = Q x) \<Longrightarrow> find P xs = find Q xs"
  by (induction xs) auto

text \<open>Closing one inode and opening another can be exchanged.\<close>

lemma close_open_commute:
  assumes "inodes t a = Some i" "i_no i \<noteq> k" "set (open_inodes t) = dom (inodes t)" "distinct (open_inodes t)" "secs_ok t"
    "unat k < 4096" "\<And>m. buf_ok t m" "slots t \<noteq> []" "set (slots t) \<inter> dom (inodes t) = {}" "root_dir_inode t \<in> dom (inodes t)"
    "inode_close a t = Inr u"
  obtains c t' t'' where "inode_open k t = Inr (c, t')" "c \<noteq> a" "inode_close a t' = Inr t''" "inode_open k u = Inr (c, t'')"
proof (cases "a = root_dir_inode t")
  case True
  then have u: "u = t" using assms(11) by (simp add: inode_close_def)
  obtain c t' where "inode_open k t = Inr (c, t')" "c \<noteq> a" "root_dir_inode t' = root_dir_inode t"
  proof (cases rule: open_cases [OF equalityD1 [OF assms(3)] assms(5-8)])
    case (1 c j)
    have "c \<noteq> a" using 1(2,3) assms(1,2) by auto
    then show ?thesis using that [OF 1(6)] by (simp add: put_inode_def)
  next
    case (2 c as)
    have "c \<noteq> a" using assms(1,9) 2(2) by (auto simp: dom_def)
    then show ?thesis using that [OF 2(3)] by simp
  qed
  then show ?thesis using that [of c t' t'] True u by (simp add: inode_close_def)
next
  case False
  let ?j = "i\<lparr>i_open_cnts := i_open_cnts i - 1\<rparr>"
  define rm where "rm \<longleftrightarrow> i_open_cnts i - 1 = 0"
  have u: "u = t\<lparr>open_inodes := (if rm then remove1 a (open_inodes t) else open_inodes t),
      inodes := (inodes t)(a := (if rm then None else Some ?j))\<rparr>"
    using assms(11) False assms(1) by (auto simp: inode_close_def the_inode_def Let_def put_inode_def rm_def)
  have na: "\<not> numbered t k a" using assms(1,2) by (simp add: numbered_def)
  have num: "numbered u k = numbered t k" using assms(1,2) by (auto simp: u numbered_def fun_eq_iff)
  have find: "find (numbered u k) (open_inodes u) = find (numbered t k) (open_inodes t)"
    unfolding num unfolding u using find_remove1 [of "numbered t k" a "open_inodes t"] na by simp
  have sub: "set (open_inodes u) \<subseteq> dom (inodes u)" using assms(3,4) by (auto simp: u)
  have disk: "sectors u = sectors t" "sb u = sb t" "block_bitmap u = block_bitmap t" "buf_ok u = buf_ok t" "slots u = slots t"
    by (simp_all add: u)
  have "secs_ok u" "slots u \<noteq> []" "\<And>m. buf_ok u m" using assms(5,7,8) disk by (simp_all add: secs_ok_def)
  note cases_u = open_cases [OF sub this(1) assms(6) this(3,2)]
  show ?thesis
  proof (cases rule: open_cases [OF equalityD1 [OF assms(3)] assms(5-8)])
    case (1 c j)
    have c: "c \<noteq> a" using 1(2,3) assms(1,2) by auto
    show ?thesis
    proof (cases rule: cases_u)
      case (1 d l)
      have "d = c" using 1(1) \<open>find (numbered t k) (open_inodes t) = Some c\<close> find by simp
      moreover from this have "l = j" using 1(2) \<open>inodes t c = Some j\<close> c by (simp add: u)
      ultimately have o: "inode_open k u = Inr (c, put_inode c (j\<lparr>i_open_cnts := i_open_cnts j + 1\<rparr>) u)" using 1(6) by simp
      have "inode_close a (put_inode c (j\<lparr>i_open_cnts := i_open_cnts j + 1\<rparr>) t) = Inr (put_inode c (j\<lparr>i_open_cnts := i_open_cnts j + 1\<rparr>) u)"
        using assms(1) c False
        by (cases rm) (auto simp: inode_close_def the_inode_def put_inode_def Let_def u fun_upd_twist rm_def)
      then show ?thesis by (rule that [OF \<open>inode_open k t = _\<close> c _ o])
    next
      case (2 d as)
      then show ?thesis using 1(1) find by simp
    qed
  next
    case (2 c as)
    have c: "c \<noteq> a" using assms(1,9) 2(2) by (auto simp: dom_def)
    show ?thesis
    proof (cases rule: cases_u)
      case (1 d l)
      then show ?thesis using 2(1) find by simp
    next
      case (2 d bs)
      have "d = c" "bs = as" using 2(2) \<open>slots t = c # as\<close> disk by simp_all
      moreover have "node u k = node t k"
        using 2(1) \<open>find (numbered t k) (open_inodes t) = None\<close> same_disk(6) [OF disk(1-3)] by (simp add: node_numbered)
      ultimately have o: "inode_open k u = Inr (c, u\<lparr>slots := as, open_inodes := c # open_inodes u,
          inodes := (inodes u)(c \<mapsto> (node t k)\<lparr>i_open_cnts := 1\<rparr>)\<rparr>)" using 2(3) by simp
      have "inode_close a (t\<lparr>slots := as, open_inodes := c # open_inodes t, inodes := (inodes t)(c \<mapsto> (node t k)\<lparr>i_open_cnts := 1\<rparr>)\<rparr>) =
          Inr (u\<lparr>slots := as, open_inodes := c # open_inodes u, inodes := (inodes u)(c \<mapsto> (node t k)\<lparr>i_open_cnts := 1\<rparr>)\<rparr>)"
        using assms(1) c False
        by (cases rm) (auto simp: inode_close_def the_inode_def put_inode_def Let_def u fun_upd_twist rm_def)
      then show ?thesis by (rule that [OF \<open>inode_open k t = _\<close> c _ o])
    qed
  qed
qed

text \<open>\<open>n\<close> more inodes can be opened, and no count of openings is at its largest value.\<close>

definition ready :: "nat \<Rightarrow> fs \<Rightarrow> bool" where
  "ready n s \<longleftrightarrow> open_ok s \<and> n \<le> length (slots s) \<and>
     (\<forall>a i. inodes s a = Some i \<longrightarrow> a \<noteq> root_dir_inode s \<longrightarrow> i_open_cnts i + 1 \<noteq> 0)"

lemma ready_mono: "ready n s \<Longrightarrow> m \<le> n \<Longrightarrow> ready m s"
  by (simp add: ready_def)

lemma open_step:
  assumes "ready (Suc n) s" "tree_ok R s" "k \<in> R"
  obtains a t u j where "inode_open k s = Inr (a, t)" "inode_close a t = Inr u" "touched s u" "ready n u"
    "inodes t a = Some ((node s k)\<lparr>i_open_cnts := j\<rparr>)" "same_tree s t" "set (open_inodes t) = dom (inodes t)"
    "distinct (open_inodes t)" "n \<le> length (slots t)" "set (slots t) \<inter> dom (inodes t) = {}" "root_dir_inode t \<in> dom (inodes t)"
    "\<exists>t' t'' v l. inode_open k t = Inr (a, t') \<and> inode_close a t' = Inr t'' \<and> touched s v \<and> ready n v \<and>
      inode_open k v = Inr (a, t'') \<and> inodes t' a = Some ((node s k)\<lparr>i_open_cnts := l\<rparr>)"
proof -
  have ok: "open_ok s" "Suc n \<le> length (slots s)" "secs_ok s" "\<And>m. buf_ok s m" "unat k < 4096" "i_no (node s k) = k"
    using assms by (simp_all add: ready_def tree_ok_def)
  note o = ok(1) [unfolded open_ok_def]
  have sub: "set (open_inodes s) \<subseteq> dom (inodes s)" "slots s \<noteq> []" using o ok(2) by auto
  show ?thesis
  proof (cases rule: open_cases [OF sub(1) ok(3,5,4) sub(2)])
    case (1 a i)
    define t where "t = put_inode a (i\<lparr>i_open_cnts := i_open_cnts i + 1\<rparr>) s"
    have t: "inodes t a = Some ((node s k)\<lparr>i_open_cnts := i_open_cnts i + 1\<rparr>)" "same_tree s t" "set (open_inodes t) = dom (inodes t)"
      "distinct (open_inodes t)" "n \<le> length (slots t)" "set (slots t) \<inter> dom (inodes t) = {}" "root_dir_inode t \<in> dom (inodes t)"
      using 1(2,4) o ok(2) by (auto simp: t_def put_inode_def same_tree_def)
    have "numbered t k = numbered s k" using 1(2) by (auto simp: t_def put_inode_def numbered_def fun_eq_iff)
    then have f: "find (numbered t k) (open_inodes t) = Some a" using 1(1) by (simp add: t_def put_inode_def)
    have tsub: "set (open_inodes t) \<subseteq> dom (inodes t)" using t(3) by simp
    let ?t' = "put_inode a ((node s k)\<lparr>i_open_cnts := i_open_cnts i + 1 + 1\<rparr>) t"
    have t': "inode_open k t = Inr (a, ?t')"
      using find_inode_cases [OF tsub, of k] f t(1) unfolding numbered_def by (simp add: inode_open_def the_inode_def)
    have open_t: "inode_open k s = Inr (a, t)" using 1(6) unfolding t_def .
    have l': "inodes ?t' a = Some ((node s k)\<lparr>i_open_cnts := i_open_cnts i + 1 + 1\<rparr>)" by (simp add: put_inode_def)
    show ?thesis
    proof (cases "a = root_dir_inode s")
      case True
      have c: "inode_close a t = Inr t" "inode_close a ?t' = Inr ?t'" using True by (simp_all add: inode_close_def t_def put_inode_def)
      have tt: "touched s t" using touched_refl [of s] 1(2) unfolding touched_def t_def by (auto simp: put_inode_def)
      have rt: "ready n t" using assms(1) 1(2) True by (auto simp: ready_def open_ok_def t_def put_inode_def)
      show ?thesis using that [OF open_t c(1) tt rt t] t' c(2) tt rt l' by blast
    next
      case False
      have i: "i_open_cnts i \<noteq> 0" "i_open_cnts i + 1 \<noteq> 0" using o 1(2) False assms(1) by (auto simp: ready_def)
      have "i\<lparr>i_open_cnts := i_open_cnts i\<rparr> = i" by simp
      then have c: "inode_close a t = Inr s"
        using False i 1(2) by (simp add: inode_close_def t_def put_inode_def the_inode_def Let_def fun_upd_idem)
      have d: "inode_close a ?t' = Inr t"
        using False i 1(2,4) by (simp add: inode_close_def t_def put_inode_def the_inode_def Let_def fun_upd_idem add.commute)
      have rs: "ready n s" by (rule ready_mono [OF assms(1)]) simp
      show ?thesis using that [OF open_t c touched_refl rs t] t' d touched_refl rs open_t l' by blast
    qed
  next
    case (2 a as)
    define t where "t = s\<lparr>slots := as, open_inodes := a # open_inodes s, inodes := (inodes s)(a \<mapsto> (node s k)\<lparr>i_open_cnts := 1\<rparr>)\<rparr>"
    have a: "inodes s a = None" "a \<noteq> root_dir_inode s" "a \<notin> set (open_inodes s)" using o 2(2) by auto
    have t: "inodes t a = Some ((node s k)\<lparr>i_open_cnts := 1\<rparr>)" "same_tree s t" "set (open_inodes t) = dom (inodes t)"
      "distinct (open_inodes t)" "n \<le> length (slots t)" "set (slots t) \<inter> dom (inodes t) = {}" "root_dir_inode t \<in> dom (inodes t)"
      using 2(2) o ok(2) a by (auto simp: t_def same_tree_def)
    have f: "find (numbered t k) (open_inodes t) = Some a" using ok(6) by (simp add: t_def numbered_def)
    have tsub: "set (open_inodes t) \<subseteq> dom (inodes t)" using t(3) by simp
    let ?t' = "put_inode a ((node s k)\<lparr>i_open_cnts := 1 + 1\<rparr>) t"
    have t': "inode_open k t = Inr (a, ?t')"
      using find_inode_cases [OF tsub, of k] f t(1) unfolding numbered_def by (simp add: inode_open_def the_inode_def)
    have open_t: "inode_open k s = Inr (a, t)" using 2(3) unfolding t_def .
    have c: "inode_close a t = Inr (s\<lparr>slots := as\<rparr>)"
      using a by (auto simp: inode_close_def t_def the_inode_def fun_upd_idem)
    have d: "inode_close a ?t' = Inr t"
      using a by (simp add: inode_close_def t_def put_inode_def the_inode_def Let_def)
    have tt: "touched s (s\<lparr>slots := as\<rparr>)" using touched_refl [of s] unfolding touched_def by simp
    have rt: "ready n (s\<lparr>slots := as\<rparr>)" using assms(1) 2(2) by (auto simp: ready_def open_ok_def)
    have rs: "ready n s" by (rule ready_mono [OF assms(1)]) simp
    have l': "inodes ?t' a = Some ((node s k)\<lparr>i_open_cnts := 1 + 1\<rparr>)" by (simp add: put_inode_def)
    show ?thesis using that [OF open_t c tt rt t] t' d touched_refl rs open_t l' by blast
  qed
qed

lemma close_keeps: "inode_close a s = Inr t \<Longrightarrow> c \<noteq> a \<Longrightarrow> inodes t c = inodes s c"
  by (auto simp: inode_close_def put_inode_def Let_def res_simps split: if_splits)

text \<open>One step down: with the inode of \<open>k\<close> open, that of \<open>j\<close> is opened and that of \<open>k\<close> closed.\<close>

lemma step_down:
  assumes "tree_ok R s" "touched s u" "ready (Suc (Suc n)) u" "k \<in> R" "j \<in> R" "inode_open k u = Inr (a, t)"
  obtains c t' t'' v l where "inode_open j t = Inr (c, t')" "inode_close a t' = Inr t''" "touched s v" "ready (Suc n) v"
    "inode_open j v = Inr (c, t'')" "inodes t' c = Some ((node s j)\<lparr>i_open_cnts := l\<rparr>)"
proof -
  have Ru: "tree_ok R u" using touched_tree(4) [OF assms(2)] assms(1) by simp
  obtain a' t0 w l where o: "inode_open k u = Inr (a', t0)" "inode_close a' t0 = Inr w" "touched u w" "ready (Suc n) w"
    "inodes t0 a' = Some ((node u k)\<lparr>i_open_cnts := l\<rparr>)" "same_tree u t0" "set (open_inodes t0) = dom (inodes t0)"
    "distinct (open_inodes t0)" "Suc n \<le> length (slots t0)" "set (slots t0) \<inter> dom (inodes t0) = {}" "root_dir_inode t0 \<in> dom (inodes t0)"
    "\<exists>t' t'' v l. inode_open k t0 = Inr (a', t') \<and> inode_close a' t' = Inr t'' \<and> touched u v \<and> ready (Suc n) v \<and>
      inode_open k v = Inr (a', t'') \<and> inodes t' a' = Some ((node u k)\<lparr>i_open_cnts := l\<rparr>)"
    by (rule open_step [OF assms(3) Ru assms(4)])
  have eq: "a' = a" "t0 = t" using o(1) assms(6) by simp_all
  note o = o [unfolded eq]
  have cnt: "\<exists>q. (node v m)\<lparr>i_open_cnts := p\<rparr> = (node s m)\<lparr>i_open_cnts := q\<rparr>" if tv: "touched s v" for v m p
    using node_touched [OF tv, of m] by auto
  show ?thesis
  proof (cases "j = k")
    case True
    obtain t' t'' v l where p: "inode_open k t = Inr (a, t')" "inode_close a t' = Inr t''" "touched u v" "ready (Suc n) v"
      "inode_open k v = Inr (a, t'')" "inodes t' a = Some ((node u k)\<lparr>i_open_cnts := l\<rparr>)" using o(12) by blast
    obtain q where "(node u k)\<lparr>i_open_cnts := l\<rparr> = (node s k)\<lparr>i_open_cnts := q\<rparr>" using cnt [OF assms(2)] by blast
    then show ?thesis
      using that [of a t' t'' v q] p touched_trans [OF assms(2) p(3)] True by simp
  next
    case False
    have "i_no (node u k) = k" "unat j < 4096" using Ru assms(4,5) by (simp_all add: tree_ok_def)
    then have num: "i_no ((node u k)\<lparr>i_open_cnts := l\<rparr>) \<noteq> j" using False by simp
    have disk: "secs_ok t" "\<And>m. buf_ok t m" using o(6) Ru by (simp_all add: same_tree_def tree_ok_def secs_ok_def)
    have "slots t \<noteq> []" using o(9) by auto
    then obtain c t' t'' where p: "inode_open j t = Inr (c, t')" "c \<noteq> a" "inode_close a t' = Inr t''" "inode_open j w = Inr (c, t'')"
      by (rule close_open_commute [OF o(5) num o(7,8) disk(1) \<open>unat j < 4096\<close> disk(2) _ o(10,11,2)])
    have sw: "touched s w" by (rule touched_trans [OF assms(2) o(3)])
    then have "tree_ok R w" using touched_tree(4) [OF sw] assms(1) by simp
    then obtain q where "inodes t'' c = Some ((node w j)\<lparr>i_open_cnts := q\<rparr>)"
      by (rule open_step [OF o(4) _ assms(5)]) (use p(4) in simp)
    moreover obtain q' where "(node w j)\<lparr>i_open_cnts := q\<rparr> = (node s j)\<lparr>i_open_cnts := q'\<rparr>" using cnt [OF sw] by blast
    ultimately have "inodes t' c = Some ((node s j)\<lparr>i_open_cnts := q'\<rparr>)" using close_keeps [OF p(3,2)] by simp
    then show ?thesis by (rule that [OF p(1,3) sw o(4) p(4)])
  qed
qed

section \<open>Searching\<close>

text \<open>A path, by its components; what it should lead to, with or without its last component.\<close>

definition path_of :: "byte list list \<Rightarrow> byte list" where
  "path_of cs = concat (map (\<lambda>c. SLASH # c) cs)"

definition component_ok :: "byte list \<Rightarrow> bool" where
  "component_ok c \<longleftrightarrow> c \<noteq> [] \<and> length c < MAX_FILE_NAME_LEN \<and> 0 \<notin> set c \<and> SLASH \<notin> set c"

definition resolve :: "fs \<Rightarrow> u64 \<Rightarrow> bool \<Rightarrow> byte list list \<Rightarrow> u64 option" where
  "resolve s k is_parent cs =
     (if is_parent then (case walk s k (butlast cs) of None \<Rightarrow> None | Some j \<Rightarrow> if is_dir s j then Some j else None)
      else walk s k cs)"

lemma path_parse_component:
  assumes "component_ok c"
  shows "path_parse (path_of (c # cs)) = Inr (c, if cs = [] then None else Some (path_of cs))"
proof -
  have c: "c \<noteq> []" "\<forall>x \<in> set c. x \<noteq> SLASH" "length c < MAX_FILE_NAME_LEN" using assms by (auto simp: component_ok_def)
  have d: "dropWhile (\<lambda>x. x = SLASH) (path_of (c # cs)) = c @ path_of cs"
    using c(1,2) by (cases c) (simp_all add: path_of_def)
  have t: "takeWhile (\<lambda>x. x \<noteq> SLASH) (c @ path_of cs) = c" "dropWhile (\<lambda>x. x \<noteq> SLASH) (c @ path_of cs) = path_of cs"
    using c(2) by (cases cs; simp add: path_of_def takeWhile_append2 dropWhile_append2 takeWhile_eq_all_conv [THEN iffD2])+
  show ?thesis unfolding path_parse_def Let_def d t using c(3) by (cases cs) (simp_all add: path_of_def)
qed

text \<open>\<open>leads_to\<close>: the result of a search is the open inode of number \<open>j\<close>, and nothing else has been left open.\<close>

definition leads_to :: "nat \<Rightarrow> fs \<Rightarrow> u64 option \<Rightarrow> u64 option \<Rightarrow> fs \<Rightarrow> bool" where
  "leads_to n s res r t \<longleftrightarrow> (case res of
      None \<Rightarrow> r = None \<and> touched s t
    | Some j \<Rightarrow> \<exists>c v. r = Some c \<and> touched s v \<and> ready (Suc n) v \<and> inode_open j v = Inr (c, t))"

lemma search_loop_resolves:
  assumes "tree_ok R s"
  shows "touched s u \<Longrightarrow> ready (n + length cs + 1) u \<Longrightarrow> k \<in> R \<Longrightarrow> is_dir s k \<Longrightarrow> inode_open k u = Inr (a, t) \<Longrightarrow> cs \<noteq> [] \<Longrightarrow>
    \<forall>c \<in> set cs. component_ok c \<Longrightarrow>
    \<exists>r t'. search_loop is_parent a (path_of cs) t = Inr (r, t') \<and> leads_to n s (resolve s k is_parent cs) r t'"
proof (induction cs arbitrary: u k a t)
  case (Cons c cs)
  note tu = Cons.prems(1) and ru = Cons.prems(2) and kR = Cons.prems(3) and dk = Cons.prems(4) and op = Cons.prems(5)
  have c: "component_ok c" using Cons.prems(7) by simp
  have ru': "ready (Suc (Suc (n + length cs))) u" by (rule ready_mono [OF ru]) simp
  have Ru: "tree_ok R u" using touched_tree(4) [OF tu] assms by simp
  obtain w l where cl: "inode_close a t = Inr w" "touched u w" "inodes t a = Some ((node u k)\<lparr>i_open_cnts := l\<rparr>)" "same_tree u t"
    by (rule open_step [OF ru' Ru kR]) (use op in auto)
  have tw: "touched s w" by (rule touched_trans [OF tu cl(2)])
  let ?i = "(node u k)\<lparr>i_open_cnts := l\<rparr>"
  have du: "is_dir u k" using dk touched_tree(1) [OF tu] by simp
  then have nu: "dir_file u (node u k)" "names_ok (dir_entries u (node u k))" "ran (children u k) \<subseteq> R"
    using Ru kR by (simp_all add: tree_ok_def)
  have disk: "sectors t = sectors u" "sb t = sb u" "block_bitmap t = block_bitmap u" "buf_ok t = buf_ok u"
    using cl(4) by (simp_all add: same_tree_def)
  have ent: "dir_entries t ?i = dir_entries u (node u k)" "dir_file t ?i = dir_file u (node u k)"
    using same_disk(1,2,3) [OF disk(1-3)] file_ok_cong [of ?i "node u k" u] file_bytes_cong [of ?i "node u k" u] by (simp_all add: dir_file_def)
  have "cstr c = c" "c \<noteq> []" using c by (auto simp: component_ok_def cstr_def takeWhile_eq_all_conv)
  then have "dir_map (dir_entries t ?i) (cstr c) = children u k c" by (simp add: ent children_def)
  then have ch: "dir_map (dir_entries t ?i) (cstr c) = children s k c" using touched_tree(2) [OF tu] by simp
  have "dir_file t ?i" "names_ok (dir_entries t ?i)" "\<And>m. buf_ok t m" "cstr c \<noteq> []"
    using nu ent disk(4) Ru \<open>cstr c = c\<close> \<open>c \<noteq> []\<close> by (simp_all add: tree_ok_def)
  note look = look_up_at [OF cl(3) this, unfolded ch]
  note parse = path_parse_component [OF c, of cs]
  show ?case
  proof (cases "is_parent \<and> cs = []")
    case True
    then have "search_loop is_parent a (path_of (c # cs)) t = Inr (Some a, t)"
      using parse by (subst search_loop.simps) simp
    moreover have "leads_to n s (resolve s k is_parent (c # cs)) (Some a) t"
      using True dk tu ready_mono [OF ru, of "Suc n"] op by (auto simp: leads_to_def resolve_def)
    ultimately show ?thesis by blast
  next
    case False
    show ?thesis
    proof (cases "children s k c")
      case None
      then have "search_loop is_parent a (path_of (c # cs)) t = Inr (None, w)"
        using look cl(1) False \<open>c \<noteq> []\<close> by (subst search_loop.simps) (simp add: parse)
      moreover have "resolve s k is_parent (c # cs) = None" using None False by (simp add: resolve_def)
      ultimately show ?thesis using tw by (intro exI conjI) (auto simp: leads_to_def)
    next
      case (Some j)
      have jR: "j \<in> R" using nu(3) Some touched_tree(2) [OF tu] by (auto simp: ran_def)
      obtain d t' t'' v q where s: "inode_open j t = Inr (d, t')" "inode_close a t' = Inr t''" "touched s v" "ready (Suc (n + length cs)) v"
        "inode_open j v = Inr (d, t'')" "inodes t' d = Some ((node s j)\<lparr>i_open_cnts := q\<rparr>)"
        by (rule step_down [OF assms tu ru' kR jR op])
      obtain off where lk: "dir_look_up a c t = Inr (Some (d, off), t')" using look Some s(1) by auto
      show ?thesis
      proof (cases "cs = []")
        case True
        then have "search_loop is_parent a (path_of (c # cs)) t = Inr (Some d, t'')"
          using lk s(2) False \<open>c \<noteq> []\<close> parse by (subst search_loop.simps) simp
        moreover have "leads_to n s (resolve s k is_parent (c # cs)) (Some d) t''"
          using True False Some dk s(3-5) by (auto simp: leads_to_def resolve_def)
        ultimately show ?thesis by blast
      next
        case cs: False
        then have res: "resolve s k is_parent (c # cs) = resolve s j is_parent cs" using Some dk by (simp add: resolve_def)
        show ?thesis
        proof (cases "is_dir s j")
          case True
          have run: "search_loop is_parent a (path_of (c # cs)) t = search_loop is_parent d (path_of cs) t''"
            using lk s(2,6) True cs by (subst search_loop.simps) (simp add: parse the_inode_def is_dir_def)
          have "ready (n + length cs + 1) v" by (rule ready_mono [OF s(4)]) simp
          from Cons.IH [OF s(3) this jR True s(5) cs] Cons.prems(7) show ?thesis unfolding run res by simp
        next
          case False
          obtain x where x: "inode_close d t'' = Inr x" "touched v x"
            by (rule open_step [OF s(4) _ jR, of]) (use s(5) touched_tree(4) [OF s(3)] assms in auto)
          have "search_loop is_parent a (path_of (c # cs)) t = Inr (None, x)"
            using lk s(2,6) False cs x(1) by (subst search_loop.simps) (simp add: parse the_inode_def is_dir_def)
          moreover have "resolve s j is_parent cs = None"
            using False cs by (cases "butlast cs"; cases cs) (auto simp: resolve_def)
          ultimately show ?thesis using touched_trans [OF s(3) x(2)] unfolding res by (auto simp: leads_to_def)
        qed
      qed
    qed
  qed
qed simp

lemma open_keeps_disk:
  assumes "inode_open k s = Inr (a, t)"
  shows "sectors t = sectors s \<and> sb t = sb s \<and> block_bitmap t = block_bitmap s \<and> inode_bitmap t = inode_bitmap s"
proof -
  obtain found where f: "find_inode k (open_inodes s) s = Inr found" using assms by (auto simp: inode_open_def res_simps)
  show ?thesis
  proof (cases found)
    case None
    then show ?thesis using assms f
      by (cases "slots s") (auto simp: inode_open_def res_simps kernel_alloc_def Let_def put_inode_def)
  next
    case (Some b)
    then show ?thesis using assms f by (auto simp: inode_open_def res_simps put_inode_def)
  qed
qed

text \<open>
  C32. Paths are resolved in the tree of directories: \<^verbatim>\<open>search_file\<close> of an absolute path finds exactly the inode that
  walking down from the root leads to - for its parent, the directory without the last component - and returns it
  open; a component that is missing or is not a directory gives none. Nothing that was opened on the way
  stays open, and the disk does not change.
\<close>
theorem search_file_resolves:
  assumes "tree_ok R s" "ready (n + length cs + 1) s" "cs \<noteq> []" "\<forall>c \<in> set cs. component_ok c"
  shows "\<exists>r t. search_file cwd (path_of cs) is_parent s = Inr (r, t) \<and> leads_to n s (resolve s 0 is_parent cs) r t \<and>
    sectors t = sectors s \<and> sb t = sb s \<and> block_bitmap t = block_bitmap s \<and> inode_bitmap t = inode_bitmap s"
proof -
  have z: "0 \<in> R" "is_dir s 0" using assms(1) by (simp_all add: tree_ok_def)
  have "ready (Suc (n + length cs)) s" using assms(2) by simp
  then obtain a t where o: "inode_open 0 s = Inr (a, t)" by (rule open_step [OF _ assms(1) z(1)])
  obtain r t' where r: "search_loop is_parent a (path_of cs) t = Inr (r, t')" "leads_to n s (resolve s 0 is_parent cs) r t'"
    using search_loop_resolves [OF assms(1) touched_refl assms(2) z o assms(3,4)] by blast
  obtain c cs' where "cs = c # cs'" using assms(3) by (cases cs) auto
  then have "path_of cs \<noteq> [] \<and> path_of cs ! 0 = SLASH" by (simp add: path_of_def)
  then have "search_file cwd (path_of cs) is_parent s = Inr (r, t')" using o r(1) by (simp add: search_file_def)
  moreover have "sectors t' = sectors s \<and> sb t' = sb s \<and> block_bitmap t' = block_bitmap s \<and> inode_bitmap t' = inode_bitmap s"
  proof (cases "resolve s 0 is_parent cs")
    case None
    then show ?thesis using r(2) touched_sectors [of s t'] by (simp add: leads_to_def)
  next
    case (Some j)
    then obtain c v where v: "touched s v" "inode_open j v = Inr (c, t')" using r(2) by (auto simp: leads_to_def)
    show ?thesis using touched_sectors [OF v(1)] open_keeps_disk [OF v(2)] by simp
  qed
  ultimately show ?thesis using r(2) by blast
qed

lemma demo_tree: "tree_ok {0} demo_root_fs" "ready 2 demo_root_fs" "children demo_root_fs 0 = [[0x2e] \<mapsto> 0, [0x2e, 0x2e] \<mapsto> 0]"
proof -
  obtain i where i: "inodes demo_root_fs 0x1000 = Some i" "dir_file demo_root_fs i" "names_ok (dir_entries demo_root_fs i)"
    "open_ok demo_root_fs" "\<And>m. buf_ok demo_root_fs m" "2 \<le> length (slots demo_root_fs)"
    "directory 0x1000 demo_root_fs = dir_map (dir_entries demo_root_fs i)" "secs_ok demo_root_fs"
    by (rule dir_atE [OF demo_root(1)]) (rule that; assumption)
  have ri: "i = root_inode" "root_dir_inode demo_root_fs = 0x1000" using i(1) by (simp_all add: demo_root_fs_def demo_fs_def)
  have n: "node demo_root_fs 0 = root_inode" by (simp add: node_def demo_root_fs_def root_inode_def)
  have r: "i_no root_inode = 0" "f_type root_inode = FT_DIRECTORY" by (simp_all add: root_inode_def)
  show c: "children demo_root_fs 0 = [[0x2e] \<mapsto> 0, [0x2e, 0x2e] \<mapsto> 0]"
    using demo_root(2) i(7) unfolding children_def n ri by simp
  then have ran: "ran (children demo_root_fs 0) \<subseteq> {0}" by (auto simp: ran_def split: if_splits)
  show "tree_ok {0} demo_root_fs" unfolding tree_ok_def
  proof (intro conjI ballI allI impI)
    fix k :: u64 assume "k \<in> {0}"
    then have k: "k = 0" by simp
    show "unat k < 4096" "i_no (node demo_root_fs k) = k" by (simp_all add: k n r)
    show "dir_file demo_root_fs (node demo_root_fs k)" "names_ok (dir_entries demo_root_fs (node demo_root_fs k))"
      using i(2,3) unfolding k n ri(1) .
    show "ran (children demo_root_fs k) \<subseteq> {0}" using ran unfolding k .
  qed (use i(5,8) in \<open>simp_all add: is_dir_def n r\<close>)
  have "inodes demo_root_fs a = Some k \<Longrightarrow> a = 0x1000" for a k by (simp add: demo_root_fs_def demo_fs_def split: if_splits)
  then have "\<forall>a k. inodes demo_root_fs a = Some k \<longrightarrow> a \<noteq> root_dir_inode demo_root_fs \<longrightarrow> i_open_cnts k + 1 \<noteq> 0"
    unfolding ri(2) by metis
  then show "ready 2 demo_root_fs" using i(4,6) unfolding ready_def by simp
qed

lemma demo_components: "component_ok [0x2e]" "component_ok [0x61]" "path_of [[0x2e]] = [0x2f, 0x2e]" "path_of [[0x61]] = [0x2f, 0x61]"
  by (simp_all add: component_ok_def MAX_FILE_NAME_LEN_def SLASH_def path_of_def)

theorem search_file_resolves_witness:
  "(\<exists>r t. search_file 0 [0x2f, 0x2e] False demo_root_fs = Inr (r, t) \<and> leads_to 0 demo_root_fs (Some 0) r t) \<and>
   (\<exists>r t. search_file 0 [0x2f, 0x61] False demo_root_fs = Inr (r, t) \<and> leads_to 0 demo_root_fs None r t)"
proof -
  have d: "is_dir demo_root_fs 0" using demo_tree(1) by (simp add: tree_ok_def)
  have "resolve demo_root_fs 0 False [[0x2e]] = Some 0" "resolve demo_root_fs 0 False [[0x61]] = None"
    using d by (simp_all add: resolve_def demo_tree(3))
  moreover have "ready (0 + length [[0x2e :: byte]] + 1) demo_root_fs" "ready (0 + length [[0x61 :: byte]] + 1) demo_root_fs"
    using demo_tree(2) by (simp_all add: numeral_2_eq_2)
  ultimately show ?thesis
    using search_file_resolves [OF demo_tree(1), of 0 "[[0x2e]]" 0 False] search_file_resolves [OF demo_tree(1), of 0 "[[0x61]]" 0 False] demo_components
    by force
qed

section \<open>Deleting\<close>

lemma free_blocks_keeps: "free_blocks ls s = Inr t \<Longrightarrow> inodes t = inodes s \<and> root_dir_inode t = root_dir_inode s"
proof (induction ls arbitrary: s)
  case (Cons l ls)
  then obtain u where u: "(if l \<noteq> 0 then block_bitmap_free l s else Inr s) = Inr u" "free_blocks ls u = Inr t" by (auto simp: res_simps)
  have "inodes u = inodes s \<and> root_dir_inode u = root_dir_inode s"
    using u(1) by (auto simp: block_bitmap_free_def Let_def sync_bitmap_def res_simps split: if_splits)
  with Cons.IH [OF u(2)] show ?case by simp
qed simp

lemma inode_free_frees:
  assumes "inode_free c s = Inr t" "c \<noteq> root_dir_inode s"
  shows "inode_close c t = Inl (Fault ''inode'')"
proof -
  obtain i b u where u: "the_inode c s = Inr i" "free_blocks (get_blocks_lba i (s\<lparr>inode_bitmap := b\<rparr>)) (s\<lparr>inode_bitmap := b\<rparr>) = Inr u"
    "i_open_cnts i = 1" "inode_close c u = Inr t" using assms(1) by (auto simp: inode_free_def Let_def res_simps)
  have k: "inodes u = inodes s" "root_dir_inode u = root_dir_inode s" using free_blocks_keeps [OF u(2)] by simp_all
  then have "the_inode c u = Inr i" using u(1) by (simp add: the_inode_def)
  then have "t = u\<lparr>open_inodes := remove1 c (open_inodes u), inodes := (inodes u)(c := None)\<rparr>"
    using u(3,4) assms(2) k by (simp add: inode_close_def Let_def)
  then show ?thesis using assms(2) k by (simp add: inode_close_def the_inode_def)
qed

lemma base_name_last: "component_ok c \<Longrightarrow> base_name (path_of (cs @ [c])) = c"
proof -
  assume "component_ok c"
  then have "\<forall>x \<in> set (rev c). x \<noteq> SLASH" by (auto simp: component_ok_def)
  then have "takeWhile (\<lambda>x. x \<noteq> SLASH) (rev c @ SLASH # rev (path_of cs)) = rev c" by (simp add: takeWhile_append2 del: set_rev)
  then show ?thesis by (simp add: base_name_def path_of_def)
qed

lemma open_numbers:
  assumes "inode_open k s = Inr (a, t)" "set (slots s) \<inter> dom (inodes s) = {}" "b \<in> dom (inodes s)"
  shows "root_dir_inode t = root_dir_inode s" "map_option i_no (inodes t b) = map_option i_no (inodes s b)"
proof -
  obtain found where f: "find_inode k (open_inodes s) s = Inr found" using assms(1) by (auto simp: inode_open_def res_simps)
  have "root_dir_inode t = root_dir_inode s \<and> map_option i_no (inodes t b) = map_option i_no (inodes s b)"
  proof (cases found)
    case None
    then obtain c cs j where "slots s = c # cs" "t = put_inode c j (s\<lparr>slots := cs, open_inodes := c # open_inodes s\<rparr>)"
      using assms(1) f by (cases "slots s") (auto simp: inode_open_def res_simps kernel_alloc_def Let_def)
    then show ?thesis using assms(2,3) by (auto simp: put_inode_def)
  next
    case (Some c)
    then show ?thesis using assms(1) f by (auto simp: inode_open_def res_simps put_inode_def the_inode_def split: option.splits)
  qed
  then show "root_dir_inode t = root_dir_inode s" "map_option i_no (inodes t b) = map_option i_no (inodes s b)" by simp_all
qed

text \<open>
  C33. No deletion succeeds: when the path names an existing file or directory other than the root,
  \<^verbatim>\<open>delete_file_or_directory\<close> stops the kernel or uses freed memory, because \<^verbatim>\<open>inode_free\<close> closes the inode, which releases it, and
  the caller closes it once more before it unlinks the name.
\<close>
theorem delete_uses_freed_inode:
  assumes "tree_ok R s" "ready (length cs + 4) s" "\<forall>c \<in> set (cs @ [name]). component_ok c"
    and "walk s 0 cs = Some p" "is_dir s p" "children s p name = Some k" "map_option i_no (inodes s (root_dir_inode s)) \<noteq> Some k"
  shows "\<exists>e. delete_file_or_directory cwd (path_of (cs @ [name])) s = Inl e"
proof -
  let ?cs = "cs @ [name]"
  have "ready (2 + length ?cs + 1) s" using assms(2) by (simp add: eval_nat_numeral)
  from search_file_resolves [OF assms(1) this _ assms(3), of cwd True]
  obtain r t where r: "search_file cwd (path_of ?cs) True s = Inr (r, t)" "leads_to 2 s (resolve s 0 True ?cs) r t" by auto
  have "resolve s 0 True ?cs = Some p" using assms(4,5) by (simp add: resolve_def)
  then obtain a u where a: "r = Some a" "touched s u" "ready (Suc 2) u" "inode_open p u = Inr (a, t)"
    using r(2) by (auto simp: leads_to_def)
  have walk_in: "walk s j ds = Some q \<Longrightarrow> j \<in> R \<Longrightarrow> q \<in> R" for j ds q
    by (induction ds arbitrary: j) (use assms(1) in \<open>auto simp: tree_ok_def ran_def split: if_splits option.splits, blast\<close>)
  have R: "0 \<in> R" "p \<in> R" using assms(1,4) walk_in by (auto simp: tree_ok_def)
  then have k: "k \<in> R" using assms(1,5,6) by (auto simp: tree_ok_def ran_def)
  have Ru: "tree_ok R u" using touched_tree(4) [OF a(2)] assms(1) by simp
  obtain l where t: "inodes t a = Some ((node u p)\<lparr>i_open_cnts := l\<rparr>)" "same_tree u t"
    "set (slots t) \<inter> dom (inodes t) = {}" "root_dir_inode t \<in> dom (inodes t)"
    by (rule open_step [OF a(3) Ru R(2)]) (use a(4) in auto)
  let ?i = "(node u p)\<lparr>i_open_cnts := l\<rparr>"
  have nu: "dir_file u (node u p)" "names_ok (dir_entries u (node u p))"
    using Ru R(2) assms(5) touched_tree(1) [OF a(2)] by (simp_all add: tree_ok_def)
  have disk: "sectors t = sectors u" "sb t = sb u" "block_bitmap t = block_bitmap u" "buf_ok t = buf_ok u"
    using t(2) by (simp_all add: same_tree_def)
  have ent: "dir_entries t ?i = dir_entries u (node u p)" "dir_file t ?i = dir_file u (node u p)"
    using same_disk(1,2,3) [OF disk(1-3)] file_ok_cong [of ?i "node u p" u] file_bytes_cong [of ?i "node u p" u] by (simp_all add: dir_file_def)
  have nm: "component_ok name" using assms(3) by simp
  then have c: "cstr name = name" "name \<noteq> []" by (auto simp: component_ok_def cstr_def takeWhile_eq_all_conv)
  have "dir_map (dir_entries t ?i) (cstr name) = children u p name" using c by (simp add: ent children_def)
  then have ch: "dir_map (dir_entries t ?i) (cstr name) = Some k" using touched_tree(2) [OF a(2)] assms(6) by simp
  have ok: "dir_file t ?i" "names_ok (dir_entries t ?i)" "\<And>m. buf_ok t m" "cstr name \<noteq> []"
    using nu ent disk(4) Ru c by (simp_all add: tree_ok_def)
  obtain d t' t'' v q where st: "inode_open k t = Inr (d, t')" "inodes t' d = Some ((node s k)\<lparr>i_open_cnts := q\<rparr>)"
    by (rule step_down [OF assms(1) a(2) ready_mono [OF a(3), of "Suc (Suc 0)"] R(2) k a(4)]) (simp, rule that)
  obtain off where lk: "dir_look_up a name t = Inr (Some (d, off), t')" using look_up_at [OF t(1) ok] ch st(1) by auto
  have "i_no (node s k) = k" using assms(1) k by (simp add: tree_ok_def)
  have root: "map_option i_no (inodes t' (root_dir_inode t')) = map_option i_no (inodes s (root_dir_inode s))"
  proof -
    let ?r = "root_dir_inode s"
    have u: "root_dir_inode u = ?r" "?r \<in> dom (inodes u)" "set (slots u) \<inter> dom (inodes u) = {}"
      using touched_sectors [OF a(2)] a(3) by (auto simp: ready_def open_ok_def)
    then obtain i where "inodes s ?r = Some i" using a(2) by (auto simp: touched_def)
    then have "map_option i_no (inodes u ?r) = map_option i_no (inodes s ?r)" using a(2) by (force simp: touched_def)
    then show ?thesis
      using u(1) open_numbers [OF a(4) u(3,2)] open_numbers [OF st(1) t(3), of ?r] t(4) by simp
  qed
  have "map_option i_no (inodes t' d) = Some k" using st(2) \<open>i_no (node s k) = k\<close> by simp
  then have "d \<noteq> root_dir_inode t'" using root assms(7) by metis
  then have "\<exists>e. rbind (inode_free d t') (\<lambda>s. inode_close d s) = Inl e"
    using inode_free_frees [of d t'] by (cases "inode_free d t'") auto
  then show ?thesis
    using r(1) a(1) lk base_name_last [OF nm, of cs] by (auto simp: delete_file_or_directory_def rbind_def split: sum.splits)
qed

text \<open>A partition with one file in its root directory.\<close>

definition file_inode :: inode where
  "file_inode = \<lparr>i_no = 1, i_size = 0, i_open_cnts = 0, f_type = FT_REGULAR, inode_lock = 0, i_sectors = replicate 13 0\<rparr>"

definition a_entry :: "byte list" where
  "a_entry = encode_entry \<lparr>filename = 0x61 # replicate 15 0, de_i_no = 1, de_f_type = FT_REGULAR\<rparr>"

definition demo_file_fs :: fs where
  "demo_file_fs = demo_root_fs\<lparr>sectors := (\<lambda>l. if l = 1283 then dot_entry @ dotdot_entry @ a_entry @ replicate 416 0
       else if l = 3 then replicate 160 0 @ encode_inode file_inode @ replicate 192 0 else replicate 512 0),
     inodes := [0x1000 \<mapsto> root_inode\<lparr>i_size := 96\<rparr>], slots := [0x3000, 0x4000, 0x5000, 0x6000]\<rparr>"

lemma a_entry_simps: "length a_entry = 32" "\<not> unused a_entry" "cstr a_entry = [0x61]" "ino a_entry = 1"
  unfolding a_entry_def by (simp_all add: encode_entry_simps FT_REGULAR_def FT_UNKNOWN_def) (simp add: cstr_def)

lemma demo_file_tree:
  "tree_ok {0, 1} demo_file_fs" "ready 4 demo_file_fs" "children demo_file_fs 0 [0x61] = Some 1" "is_dir demo_file_fs 0"
proof -
  let ?s = demo_file_fs and ?i = "root_inode\<lparr>i_size := 96\<rparr>"
  have len: "length (encode_inode file_inode) = 160" by (simp add: file_inode_def encode_inode_def length_concat sum_list_replicate)
  note dots = dot_entries a_entry_simps
  have used: "used_block ?s 1283" unfolding used_block_def
    by (intro bexI [of _ 0]) (auto simp: demo_file_fs_def demo_root_fs_def demo_fs_def used_bits_def)
  have sec: "secs_ok ?s" using dots len by (simp add: demo_file_fs_def secs_ok_def BLOCK_SIZE_def)
  have lay: "layout_ok ?s" by (simp add: demo_file_fs_def demo_root_fs_def demo_fs_def layout_ok_def)
  have op: "open_ok ?s" by (auto simp: demo_file_fs_def demo_root_fs_def demo_fs_def open_ok_def root_inode_def)
  have r: "i_no ?i = 0" "f_type ?i = FT_DIRECTORY" "i_size ?i = 96" "i_sectors ?i = 1283 # replicate 12 0" by (simp_all add: root_inode_def)
  have fok: "file_ok ?s ?i" by (rule one_block_file [OF sec lay used r(4)]) (simp_all add: r)
  then have df: "dir_file ?s ?i" by (simp add: dir_file_def r)
  have bytes: "file_bytes ?s ?i = dot_entry @ dotdot_entry @ a_entry"
  proof (rule nth_equalityI)
    show "length (file_bytes ?s ?i) = length (dot_entry @ dotdot_entry @ a_entry)" using dots by (simp add: r)
    fix q assume "q < length (file_bytes ?s ?i)"
    then have q: "q < 96" by (simp add: r)
    then have "file_bytes ?s ?i ! q = sectors ?s 1283 ! q"
      using r by (simp add: nth_file_bytes fbyte_def block_of_def get_blocks_lba_def)
    then show "file_bytes ?s ?i ! q = (dot_entry @ dotdot_entry @ a_entry) ! q"
      using q dots by (auto simp: demo_file_fs_def nth_append)
  qed
  have upt: "[0..<3] = [0, 1, 2 :: nat]" by (simp add: upt_rec)
  have es: "dir_entries ?s ?i = [dot_entry, dotdot_entry, a_entry]"
    unfolding bytes using dots by (simp add: entries_def entry_at_def upt)
  have names: "names_ok (dir_entries ?s ?i)" unfolding es names_ok_def using dots by (auto simp: less_Suc_eq)
  have n0: "node ?s 0 = ?i" by (simp add: node_def demo_file_fs_def demo_root_fs_def root_inode_def)
  have ch: "children ?s 0 = [[0x2e] \<mapsto> 0, [0x2e, 0x2e] \<mapsto> 0, [0x61] \<mapsto> 1]"
    unfolding children_def n0 es dir_map_def using dots by (simp add: fun_eq_iff)
  then show "children ?s 0 [0x61] = Some 1" by simp
  have ran: "ran (children ?s 0) \<subseteq> {0, 1}" unfolding ch by (auto simp: ran_def split: if_splits)
  have "table_entry ?s 1 = encode_inode file_inode"
    by (rule nth_equalityI) (use len in \<open>auto simp: table_entry_def tbyte_def demo_file_fs_def demo_root_fs_def demo_fs_def nth_append\<close>)
  moreover have "find (numbered ?s 1) (open_inodes ?s) = None"
    by (simp add: demo_file_fs_def demo_root_fs_def numbered_def root_inode_def)
  ultimately have n1: "node ?s 1 = file_inode"
    using decode_encode [of file_inode "[]"] by (simp add: node_numbered file_inode_def)
  have f: "i_no file_inode = 1" "f_type file_inode \<noteq> FT_DIRECTORY" by (simp_all add: file_inode_def FT_REGULAR_def FT_DIRECTORY_def)
  show dir: "is_dir ?s 0" by (simp add: is_dir_def n0 r)
  show "tree_ok {0, 1} ?s" unfolding tree_ok_def
  proof (intro conjI ballI allI)
    fix k :: u64 assume "k \<in> {0, 1}"
    then consider "k = 0" | "k = 1" by blast
    then have "unat k < 4096 \<and> i_no (node ?s k) = k \<and>
        (is_dir ?s k \<longrightarrow> dir_file ?s (node ?s k) \<and> names_ok (dir_entries ?s (node ?s k)) \<and> ran (children ?s k) \<subseteq> {0, 1})"
    proof cases
      case 1
      show ?thesis unfolding 1 n0 using df names ran r(1) by simp
    next
      case 2
      show ?thesis unfolding 2 n1 is_dir_def using f by simp
    qed
    then show "unat k < 4096" "i_no (node ?s k) = k"
      "is_dir ?s k \<longrightarrow> dir_file ?s (node ?s k) \<and> names_ok (dir_entries ?s (node ?s k)) \<and> ran (children ?s k) \<subseteq> {0, 1}" by blast+
  qed (use dir sec in \<open>simp_all add: demo_file_fs_def demo_root_fs_def demo_fs_def\<close>)
  have "inodes ?s a = Some k \<Longrightarrow> a = 0x1000" for a k by (simp add: demo_file_fs_def split: if_splits)
  moreover have "root_dir_inode ?s = 0x1000" "length (slots ?s) = 4" by (simp_all add: demo_file_fs_def demo_root_fs_def demo_fs_def)
  ultimately show "ready 4 ?s" using op unfolding ready_def by (metis order_refl)
qed

theorem delete_uses_freed_inode_witness:
  "\<exists>e. delete_file_or_directory 0 [0x2f, 0x61] demo_file_fs = Inl e"
proof -
  have root: "map_option i_no (inodes demo_file_fs (root_dir_inode demo_file_fs)) \<noteq> Some 1"
    by (simp add: demo_file_fs_def demo_root_fs_def demo_fs_def root_inode_def)
  have c: "\<forall>c \<in> set ([] @ [[0x61]]). component_ok c" using demo_components(2) by simp
  have r: "ready (length ([] :: byte list list) + 4) demo_file_fs" using demo_file_tree(2) by simp
  show ?thesis
    using delete_uses_freed_inode [OF demo_file_tree(1) r c _ demo_file_tree(4,3) root, of 0] demo_components(4) by simp
qed

end
