(* ===== verification/Mount.thy ===== *)
theory Mount
  imports Dir
begin

text \<open>
  Formatting and mounting a partition (\<^verbatim>\<open>fs/fs.c\<close>: \<^verbatim>\<open>sb_init\<close>, \<^verbatim>\<open>partition_format\<close>, \<^verbatim>\<open>mount_partition\<close>,
  \<^verbatim>\<open>filesys_init\<close>). The messages printed are left out. \<^verbatim>\<open>sb_init\<close> does not set \<^verbatim>\<open>magic\<close> and the padding, which keep
  what the stack held: the argument \<open>stack\<close>, 512 bytes. The properties: a freshly formatted partition satisfies the layout
  invariant that the theories \<open>FileData\<close> and \<open>Dir\<close> start from, and its root directory holds itself twice.
\<close>

section \<open>Operations\<close>

definition SB_MAGIC :: u64 where "SB_MAGIC = 0x474d575a5a46594c"

text \<open>\<^verbatim>\<open>struct super_block\<close> is packed: 68 bytes and 444 of padding.\<close>

definition encode_sb :: "super_block \<Rightarrow> byte list" where
  "encode_sb b = le 8 (magic b) @ le 4 (sec_cnt b) @ le 4 (lba_base b) @ le 8 (inode_cnt b) @
     le 4 (block_bitmap_lba b) @ le 4 (block_bitmap_sects b) @ le 4 (inode_bitmap_lba b) @ le 4 (inode_bitmap_sects b) @
     le 4 (inode_table_lba b) @ le 4 (inode_table_sects b) @ le 4 (data_start_lba b) @ le 8 (root_inode_no b) @
     le 8 (dir_entry_size b)"

definition decode_sb :: "byte list \<Rightarrow> super_block" where
  "decode_sb bs = \<lparr>magic = unle (take 8 bs), sec_cnt = unle (take 4 (drop 8 bs)), lba_base = unle (take 4 (drop 12 bs)),
     inode_cnt = unle (take 8 (drop 16 bs)), block_bitmap_lba = unle (take 4 (drop 24 bs)),
     block_bitmap_sects = unle (take 4 (drop 28 bs)), inode_bitmap_lba = unle (take 4 (drop 32 bs)),
     inode_bitmap_sects = unle (take 4 (drop 36 bs)), inode_table_lba = unle (take 4 (drop 40 bs)),
     inode_table_sects = unle (take 4 (drop 44 bs)), data_start_lba = unle (take 4 (drop 48 bs)),
     root_inode_no = unle (take 8 (drop 52 bs)), dir_entry_size = unle (take 8 (drop 60 bs))\<rparr>"

definition sb_init :: "byte list \<Rightarrow> u32 \<Rightarrow> u32 \<Rightarrow> super_block" where
  "sb_init stack cnt start_lba =
     (let inode_bitmap_sects = of_nat ((MAX_FILES_PER_PART + BITS_PER_SECTOR - 1) div BITS_PER_SECTOR);
          inode_table_sects = of_nat ((MAX_FILES_PER_PART * sizeof_inode + 512 - 1) div 512);
          block_bitmap_sects = (cnt + of_nat BITS_PER_SECTOR - 1) div of_nat BITS_PER_SECTOR;
          block_bitmap_lba = start_lba + 2;
          inode_bitmap_lba = block_bitmap_lba + block_bitmap_sects;
          inode_table_lba = inode_bitmap_lba + inode_bitmap_sects in
      \<lparr>magic = unle (take 8 stack), sec_cnt = cnt, lba_base = start_lba, inode_cnt = of_nat MAX_FILES_PER_PART,
       block_bitmap_lba = block_bitmap_lba, block_bitmap_sects = block_bitmap_sects,
       inode_bitmap_lba = inode_bitmap_lba, inode_bitmap_sects = inode_bitmap_sects,
       inode_table_lba = inode_table_lba, inode_table_sects = inode_table_sects,
       data_start_lba = inode_table_lba + inode_table_sects, root_inode_no = 0, dir_entry_size = of_nat sizeof_dir_entry\<rparr>)"

text \<open>
  A bitmap in the buffer: cleared, then \<open>mark\<close> sets its first bit (\<^verbatim>\<open>bitmap_alloc\<close> or \<^verbatim>\<open>bitmap_set\<close>), then written out.
  The bitmap must fit the buffer, which has the size of the inode table.
\<close>

definition write_bitmap :: "nat \<Rightarrow> u32 \<Rightarrow> u32 \<Rightarrow> (bitmap \<Rightarrow> bitmap res) \<Rightarrow> fs \<Rightarrow> fs res" where
  "write_bitmap buf_size lba sects mark s =
     (let bytes = unat sects * 512 in
      if buf_size < bytes then Inl (Fault ''buf'')
      else
        rbind (bitmap_init \<lparr>bytes_len = bytes, bits = replicate bytes 0xff\<rparr>) (\<lambda>b.
        rbind (mark b) (\<lambda>b. Inr (ide_put lba (unat sects) (bits b) s))))"

text \<open>The root directory's inode and then its two entries, over it, in the cleared buffer.\<close>

definition root_image :: "super_block \<Rightarrow> byte list \<Rightarrow> byte list" where
  "root_image b buf = splice 0 (encode_inode \<lparr>i_no = 0, i_size = dir_entry_size b * 2, i_open_cnts = 0,
     f_type = FT_DIRECTORY, inode_lock = 0, i_sectors = data_start_lba b # replicate 12 0\<rparr>) buf"

definition root_entries :: "byte list \<Rightarrow> byte list" where
  "root_entries buf =
     (let buf = splice 24 (le 4 FT_DIRECTORY) (splice 16 (le 8 (0 :: u64)) (splice 0 [0x2e, 0] buf)) in
      splice 56 (le 4 FT_DIRECTORY) (splice 48 (le 8 (0 :: u64)) (splice 32 [0x2e, 0x2e, 0] buf)))"

definition partition_format :: "byte list \<Rightarrow> u32 \<Rightarrow> u32 \<Rightarrow> fs \<Rightarrow> fs res" where
  "partition_format stack start_lba cnt s =
     (let b = sb_init stack cnt start_lba;
          s = ide_put (start_lba + 1) 1 (encode_sb b @ drop 68 stack) s;
          buf_size = unat (inode_table_sects b) * 512 in
      rbind (kassert (buf_ok s buf_size) ''dst'') (\<lambda>_.
      rbind (write_bitmap buf_size (block_bitmap_lba b) (block_bitmap_sects b)
               (\<lambda>bm. rbind (bitmap_alloc bm 1) (\<lambda>(bm, _). Inr bm)) s) (\<lambda>s.
      rbind (write_bitmap buf_size (inode_bitmap_lba b) (inode_bitmap_sects b) (\<lambda>bm. bitmap_set bm 0 True) s) (\<lambda>s.
      let buf = root_image b (replicate buf_size 0);
          s = ide_put (inode_table_lba b) (unat (inode_table_sects b)) buf s in
      Inr (ide_put (data_start_lba b) 1 (root_entries buf) s)))))"

definition mount_partition :: "u32 \<Rightarrow> fs \<Rightarrow> fs res" where
  "mount_partition start_lba s =
     rbind (kassert (buf_ok s 512) ''sb_buf'') (\<lambda>_.
     rbind (kassert (buf_ok s 68) ''part->sb'') (\<lambda>_.
     let b = decode_sb (take 68 (ide_get (start_lba + 1) 1 s));
         block_bytes = unat (block_bitmap_sects b) * 512; inode_bytes = unat (inode_bitmap_sects b) * 512 in
     rbind (kassert (buf_ok s block_bytes) ''part->block_bitmap.bits'') (\<lambda>_.
     rbind (kassert (buf_ok s inode_bytes) ''part->inode_bitmap.bits'') (\<lambda>_.
     Inr (s\<lparr>sb := b,
       block_bitmap := \<lparr>bytes_len = block_bytes, bits = ide_get (block_bitmap_lba b) (unat (block_bitmap_sects b)) s\<rparr>,
       inode_bitmap := \<lparr>bytes_len = inode_bytes, bits = ide_get (inode_bitmap_lba b) (unat (inode_bitmap_sects b)) s\<rparr>,
       open_inodes := []\<rparr>)))))"

text \<open>Partitions are pairs of their first sector and their size.\<close>

definition find_fs :: "u32 \<times> u32 \<Rightarrow> fs \<Rightarrow> bool" where
  "find_fs part s \<longleftrightarrow> magic (decode_sb (ide_get (fst part + 1) 1 s)) = SB_MAGIC"

definition filesys_init :: "byte list \<Rightarrow> (u32 \<times> u32) list \<Rightarrow> fs \<Rightarrow> fs res" where
  "filesys_init stack partition_list s =
     rbind (case find (\<lambda>p. find_fs p s) partition_list of
         Some cur_part \<Rightarrow> Inr (cur_part, s)
       | None \<Rightarrow> (case partition_list of
           [] \<Rightarrow> Inl (Fault ''cur_part'')
         | cur_part # _ \<Rightarrow>
             rbind (partition_format stack (fst cur_part) (snd cur_part) s) (\<lambda>s. Inr (cur_part, s)))) (\<lambda>(cur_part, s).
     rbind (mount_partition (fst cur_part) s) (\<lambda>s.
     rbind (inode_open 0 s) (\<lambda>(a, s).
     Inr (s\<lparr>root_dir_inode := a\<rparr>))))"

end
