(* ===== verification/MountSpec.thy ===== *)
theory MountSpec
  imports Mount
begin

text \<open>
  What formatting and mounting give: on a disk where no partition has a file system, \<^verbatim>\<open>filesys_init\<close> lays one out on the
  first partition, and the state it leaves satisfies the invariants of theories \<open>FileData\<close> and \<open>Dir\<close>, with
  an empty root directory. The size of the block bitmap, which counts all sectors of the partition, has two bugs.
\<close>

section \<open>Writing runs of sectors\<close>

lemma sectors_ide_put:
  assumes "n < 2 ^ 32"
  shows "sectors (ide_put lba n data s) l =
    (if unat (l - lba) < n then take 512 (drop (512 * unat (l - lba)) data) else sectors s l)"
  using assms
proof (induction n arbitrary: lba data s)
  case (Suc n)
  have IH: "sectors (ide_put (lba + 1) n (drop 512 data) t) l =
      (if unat (l - (lba + 1)) < n then take 512 (drop (512 * unat (l - (lba + 1))) (drop 512 data)) else sectors t l)" for t
    using Suc.prems by (intro Suc.IH) simp
  show ?case
  proof (cases "l = lba")
    case True
    have "unat (- 1 :: u32) = 2 ^ 32 - 1" by (simp add: unsigned_minus_1_eq_mask mask_eq_exp_minus_1)
    then have "\<not> unat (lba - (lba + 1)) < n" using Suc.prems by simp
    then show ?thesis using True IH by (simp add: BLOCK_SIZE_def)
  next
    case False
    then have d: "l - lba \<noteq> 0" by simp
    have e: "l - (lba + 1) = l - lba - 1" by simp
    have "0 < unat (l - lba)" using d by (simp add: unat_gt_0)
    then have "unat (l - lba) = Suc (unat (l - (lba + 1)))" unfolding e unat_minus_one [OF d] by simp
    then show ?thesis using False IH by (simp add: BLOCK_SIZE_def add.commute)
  qed
qed simp

lemma ide_put_fields [simp]:
  "sb (ide_put lba n data s) = sb s" "inodes (ide_put lba n data s) = inodes s" "open_inodes (ide_put lba n data s) = open_inodes s"
  "slots (ide_put lba n data s) = slots s" "buf_ok (ide_put lba n data s) = buf_ok s"
  by (induction lba n data s rule: ide_put.induct) simp_all

lemma ide_put_secs_ok:
  assumes "secs_ok s" "length data = 512 * n" "n < 2 ^ 32"
  shows "secs_ok (ide_put lba n data s)"
  using assms by (auto simp: secs_ok_def BLOCK_SIZE_def sectors_ide_put)

lemma concat_chunks: "length data = 512 * n \<Longrightarrow> concat (map (\<lambda>i. take 512 (drop (512 * i) data)) [0..<n]) = data"
proof (induction n arbitrary: data)
  case (Suc n)
  have upt: "[0..<Suc n] = 0 # map Suc [0..<n]" by (simp add: map_Suc_upt upt_conv_Cons del: upt_Suc)
  have "map (\<lambda>i. take 512 (drop (512 * i) data)) [0..<Suc n] = take 512 data # map (\<lambda>i. take 512 (drop (512 * i) (drop 512 data))) [0..<n]"
    unfolding upt by (simp add: o_def add.commute)
  with Suc.IH [of "drop 512 data"] Suc.prems show ?case by (simp del: upt_Suc)
qed simp

text \<open>A run of sectors that holds \<open>data\<close>.\<close>

definition holds :: "fs \<Rightarrow> u32 \<Rightarrow> nat \<Rightarrow> byte list \<Rightarrow> bool" where
  "holds s lba n data \<longleftrightarrow> length data = 512 * n \<and> (\<forall>l. unat (l - lba) < n \<longrightarrow> sectors s l = take 512 (drop (512 * unat (l - lba)) data))"

lemma holds_get:
  assumes "holds s lba n data" "n < 2 ^ 32"
  shows "ide_get lba n s = data"
proof -
  have "sectors s (lba + of_nat i) = take 512 (drop (512 * i) data)" if "i < n" for i
  proof -
    have "unat (of_nat i :: u32) = i" using that assms(2) by (simp add: unat_of_nat take_bit_nat_eq_self)
    then show ?thesis using assms(1) that by (simp add: holds_def)
  qed
  then have "ide_get lba n s = concat (map (\<lambda>i. take 512 (drop (512 * i) data)) [0..<n])"
    unfolding ide_get_def by (intro arg_cong [of _ _ concat] map_cong) simp_all
  then show ?thesis using concat_chunks [of data n] assms(1) by (simp add: holds_def)
qed

lemma holds_put: "length data = 512 * n \<Longrightarrow> n < 2 ^ 32 \<Longrightarrow> holds (ide_put lba n data s) lba n data"
  by (simp add: holds_def sectors_ide_put)

text \<open>Two runs at distances \<open>i\<close> and \<open>j\<close> from the same start do not meet.\<close>

lemma runs_apart:
  assumes "unat (l - (start + of_nat i)) < n" "i + n \<le> j \<or> j + m \<le> i" "i + n < 2 ^ 32" "j + m < 2 ^ 32"
  shows "\<not> unat (l - (start + of_nat j :: u32)) < m"
proof
  assume a: "unat (l - (start + of_nat j)) < m"
  have d: "l - start = of_nat (k + unat (l - (start + of_nat k)))" for k
    by simp
  have "(of_nat (i + unat (l - (start + of_nat i))) :: u32) = of_nat (j + unat (l - (start + of_nat j)))"
    unfolding d [symmetric] ..
  then have "i + unat (l - (start + of_nat i)) = j + unat (l - (start + of_nat j))"
    using assms a by (subst (asm) of_nat_u32_inj) simp_all
  then show False using assms(1,2) a by auto
qed

lemma holds_other:
  assumes "holds s (start + of_nat i) n data" "i + n \<le> j \<or> j + m \<le> i" "i + n < 2 ^ 32" "j + m < 2 ^ 32"
  shows "holds (ide_put (start + of_nat j) m data' s) (start + of_nat i) n data"
proof -
  have "m < 2 ^ 32" using assms(4) by simp
  then show ?thesis using assms(1) runs_apart [OF _ assms(2-4)] by (auto simp: holds_def sectors_ide_put)
qed

section \<open>The super block\<close>

lemma length_encode_sb [simp]: "length (encode_sb b) = 68"
  by (simp add: encode_sb_def)

lemma decode_encode_sb: "decode_sb (encode_sb b @ rest) = b"
  by (simp add: decode_sb_def encode_sb_def)

definition bitmap_sects :: "u32 \<Rightarrow> nat" where
  "bitmap_sects cnt = (unat cnt + 4095) div 4096"

lemma sb_init_simps:
  assumes "unat cnt + 4095 < 2 ^ 32"
  shows "block_bitmap_sects (sb_init stack cnt start) = of_nat (bitmap_sects cnt)"
    "unat (block_bitmap_sects (sb_init stack cnt start)) = bitmap_sects cnt"
    "inode_bitmap_sects (sb_init stack cnt start) = 1" "inode_table_sects (sb_init stack cnt start) = 1280"
    "block_bitmap_lba (sb_init stack cnt start) = start + of_nat 2"
    "inode_bitmap_lba (sb_init stack cnt start) = start + of_nat (2 + bitmap_sects cnt)"
    "inode_table_lba (sb_init stack cnt start) = start + of_nat (3 + bitmap_sects cnt)"
    "data_start_lba (sb_init stack cnt start) = start + of_nat (1283 + bitmap_sects cnt)"
    "dir_entry_size (sb_init stack cnt start) = 32"
proof -
  have "unat (cnt + 4095 :: u32) = unat cnt + 4095" using assms by (subst unat_add_lem [THEN iffD1]) simp_all
  then have u: "unat ((cnt + 4095) div 4096) = bitmap_sects cnt" by (simp add: unat_div bitmap_sects_def)
  then have b: "(cnt + 4095) div 4096 = of_nat (bitmap_sects cnt)" by (simp flip: u)
  have n: "(MAX_FILES_PER_PART + BITS_PER_SECTOR - 1) div BITS_PER_SECTOR = 1" "(MAX_FILES_PER_PART * sizeof_inode + 512 - 1) div 512 = 1280"
    by (simp_all add: MAX_FILES_PER_PART_def BITS_PER_SECTOR_def sizeof_inode_def BLOCK_SIZE_def)
  show "block_bitmap_sects (sb_init stack cnt start) = of_nat (bitmap_sects cnt)"
    "unat (block_bitmap_sects (sb_init stack cnt start)) = bitmap_sects cnt"
    "inode_bitmap_sects (sb_init stack cnt start) = 1" "inode_table_sects (sb_init stack cnt start) = 1280"
    "block_bitmap_lba (sb_init stack cnt start) = start + of_nat 2"
    "inode_bitmap_lba (sb_init stack cnt start) = start + of_nat (2 + bitmap_sects cnt)"
    "inode_table_lba (sb_init stack cnt start) = start + of_nat (3 + bitmap_sects cnt)"
    "data_start_lba (sb_init stack cnt start) = start + of_nat (1283 + bitmap_sects cnt)"
    "dir_entry_size (sb_init stack cnt start) = 32"
    using u b unfolding sb_init_def Let_def n add.commute [of cnt]
    by (simp_all add: BITS_PER_SECTOR_def BLOCK_SIZE_def sizeof_dir_entry_def add.assoc)
qed

section \<open>Formatting\<close>

definition zero_bitmap :: "nat \<Rightarrow> bitmap" where
  "zero_bitmap n = \<lparr>bytes_len = n, bits = replicate n 0\<rparr>"

lemma zero_bitmap_simps [simp]:
  "used_bits (zero_bitmap n) = {}" "bytes_len (zero_bitmap n) = n" "length (bits (zero_bitmap n)) = n"
  by (auto simp: used_bits_def zero_bitmap_def)

lemma write_bitmap_ok:
  assumes "unat sects * 512 \<le> buf_size" "mark (zero_bitmap (unat sects * 512)) = Inr bm"
  shows "write_bitmap buf_size lba sects mark s = Inr (ide_put lba (unat sects) (bits bm) s)"
  using assms by (simp add: write_bitmap_def bitmap_init_def zero_bitmap_def)

lemma mark_alloc:
  assumes "0 < n"
  shows "\<exists>bm. rbind (bitmap_alloc (zero_bitmap n) 1) (\<lambda>(bm, _). Inr bm) = Inr bm \<and> length (bits bm) = n \<and> used_bits bm = {0}"
proof -
  have "bitmap_wf (zero_bitmap n)" "0 + 1 \<le> 8 * bytes_len (zero_bitmap n)" "run_clear (zero_bitmap n) 0 1"
    using assms by (simp_all add: bitmap_wf_def run_clear_def)
  from bitmap_alloc_from_complete [OF this(1) _ this(2,3) le0] obtain bm i where
    "bitmap_alloc_from (zero_bitmap n) 1 0 = Inr (bm, int i)" "i \<le> 0" "same_shape (zero_bitmap n) bm"
    "used_bits bm = used_bits (zero_bitmap n) \<union> run_of i 1" by auto
  then show ?thesis by (auto simp: bitmap_alloc_def same_shape_def run_of_def)
qed

lemma mark_set:
  assumes "0 < n"
  shows "\<exists>bm. bitmap_set (zero_bitmap n) 0 True = Inr bm \<and> length (bits bm) = n \<and> used_bits bm = {0}"
  using bitmap_set_used [of 0 "zero_bitmap n" True] assms by (auto simp: same_shape_def)

lemma used_bits_cong: "bits b = bits c \<Longrightarrow> used_bits b = used_bits c"
  by (simp add: used_bits_def)

definition root_buffer :: "byte list \<Rightarrow> u32 \<Rightarrow> u32 \<Rightarrow> byte list" where
  "root_buffer stack start cnt = root_image (sb_init stack cnt start) (replicate 655360 0)"

text \<open>The regions of a formatted partition.\<close>

definition formatted :: "byte list \<Rightarrow> u32 \<Rightarrow> u32 \<Rightarrow> byte list \<Rightarrow> byte list \<Rightarrow> fs \<Rightarrow> bool" where
  "formatted stack start cnt bb ib s \<longleftrightarrow> (let n = bitmap_sects cnt in
     secs_ok s \<and> holds s (start + of_nat 1) 1 (encode_sb (sb_init stack cnt start) @ drop 68 stack) \<and> holds s (start + of_nat 2) n bb \<and>
     holds s (start + of_nat (2 + n)) 1 ib \<and> holds s (start + of_nat (3 + n)) 1280 (root_buffer stack start cnt) \<and>
     holds s (start + of_nat (1283 + n)) 1 (take 512 (root_entries (root_buffer stack start cnt))) \<and>
     (\<forall>m. used_bits \<lparr>bytes_len = m, bits = bb\<rparr> = {0} \<and> used_bits \<lparr>bytes_len = m, bits = ib\<rparr> = {0}))"

lemma root_buffer_lengths:
  "length (root_buffer stack start cnt) = 512 * 1280" "512 \<le> length (root_entries (root_buffer stack start cnt))"
proof -
  show l: "length (root_buffer stack start cnt) = 512 * 1280"
    unfolding root_buffer_def root_image_def by (subst length_splice) (simp_all add: length_encode sizeof_inode_def)
  then have "length (root_entries (root_buffer stack start cnt)) = 512 * 1280"
    by (simp add: root_entries_def Let_def length_splice)
  then show "512 \<le> length (root_entries (root_buffer stack start cnt))" by simp
qed

lemma bitmap_sects_bounds: "0 < unat cnt \<Longrightarrow> unat cnt \<le> 5242880 \<Longrightarrow> 0 < bitmap_sects cnt \<and> bitmap_sects cnt \<le> 1280"
  by (simp add: bitmap_sects_def) linarith

lemma partition_format_ok:
  assumes "secs_ok s" "length stack = 512" "\<And>m. buf_ok s m" "0 < unat cnt" "unat cnt \<le> 5242880"
  shows "\<exists>bb ib s'. partition_format stack start cnt s = Inr s' \<and> formatted stack start cnt bb ib s' \<and>
    inodes s' = inodes s \<and> slots s' = slots s \<and> buf_ok s' = buf_ok s"
proof -
  let ?b = "sb_init stack cnt start" and ?n = "bitmap_sects cnt"
  have c: "unat cnt + 4095 < 2 ^ 32" using assms(5) by simp
  note sb = sb_init_simps [OF c, of stack start]
  have n: "0 < ?n" "?n \<le> 1280" using bitmap_sects_bounds assms(4,5) by auto
  obtain bb where bb: "rbind (bitmap_alloc (zero_bitmap (?n * 512)) 1) (\<lambda>(bm, _). Inr bm) = Inr bb" "length (bits bb) = ?n * 512" "used_bits bb = {0}"
    using mark_alloc [of "?n * 512"] n(1) by auto
  obtain ib where ib: "bitmap_set (zero_bitmap 512) 0 True = Inr ib" "length (bits ib) = 512" "used_bits ib = {0}"
    using mark_set [of 512] by auto
  define s1 where "s1 = ide_put (start + of_nat 1) 1 (encode_sb ?b @ drop 68 stack) s"
  define s2 where "s2 = ide_put (start + of_nat 2) ?n (bits bb) s1"
  define s3 where "s3 = ide_put (start + of_nat (2 + ?n)) 1 (bits ib) s2"
  define s4 where "s4 = ide_put (start + of_nat (3 + ?n)) 1280 (root_buffer stack start cnt) s3"
  define s5 where "s5 = ide_put (start + of_nat (1283 + ?n)) 1 (take 512 (root_entries (root_buffer stack start cnt))) s4"
  have len: "length (encode_sb ?b @ drop 68 stack) = 512 * 1" "length (bits bb) = 512 * ?n" "length (bits ib) = 512 * 1"
    "length (root_buffer stack start cnt) = 512 * 1280" "length (take 512 (root_entries (root_buffer stack start cnt))) = 512 * 1"
    using assms(2) bb(2) ib(2) root_buffer_lengths [of stack start cnt] by simp_all
  have sm: "(1 :: nat) < 2 ^ 32" "?n < 2 ^ 32" "(1280 :: nat) < 2 ^ 32" using n(2) by simp_all
  have w1: "write_bitmap 655360 (start + of_nat 2) (of_nat ?n) (\<lambda>bm. rbind (bitmap_alloc bm 1) (\<lambda>(bm, _). Inr bm)) s1 = Inr s2"
    unfolding s2_def using n(2) sm(2) bb(1) by (subst write_bitmap_ok [where bm = bb]) (simp_all add: unat_of_nat take_bit_nat_eq_self)
  have w2: "write_bitmap 655360 (start + of_nat (2 + ?n)) 1 (\<lambda>bm. bitmap_set bm 0 True) s2 = Inr s3"
    unfolding s3_def using ib(1) by (subst write_bitmap_ok [where bm = ib]) simp_all
  have e: "ide_put (start + 1) 1 (encode_sb ?b @ drop 68 stack) s = s1"
    "ide_put (start + of_nat (3 + ?n)) 1280 (root_buffer stack start cnt) s3 = s4"
    "ide_put (start + of_nat (1283 + ?n)) 1 (root_entries (root_buffer stack start cnt)) s4 = s5"
    by (simp add: s1_def, simp add: s4_def, simp add: s5_def BLOCK_SIZE_def)
  have b1: "buf_ok s1 = buf_ok s" unfolding s1_def by (rule ide_put_fields)
  have size: "unat (1280 :: u32) = 1280" "(1280 :: nat) * 512 = 655360" by simp_all
  have "partition_format stack start cnt s = Inr s5"
    unfolding partition_format_def Let_def sb e size root_buffer_def [symmetric]
    using assms(3) by (simp only: b1 kassert_True rbind_Inr w1 w2 e)
  moreover have "secs_ok s5"
    unfolding s5_def s4_def s3_def s2_def s1_def by (intro ide_put_secs_ok assms(1) len sm)
  moreover have "holds s5 (start + of_nat 1) 1 (encode_sb ?b @ drop 68 stack)"
    unfolding s5_def s4_def s3_def s2_def s1_def
    by (rule holds_other [OF holds_other [OF holds_other [OF holds_other [OF holds_put]]]]) (use len n(2) in simp_all)
  moreover have "holds s5 (start + of_nat 2) ?n (bits bb)"
    unfolding s5_def s4_def s3_def s2_def
    by (rule holds_other [OF holds_other [OF holds_other [OF holds_put]]]) (use len n(2) in simp_all)
  moreover have "holds s5 (start + of_nat (2 + ?n)) 1 (bits ib)"
    unfolding s5_def s4_def s3_def by (rule holds_other [OF holds_other [OF holds_put]]) (use len n(2) in simp_all)
  moreover have "holds s5 (start + of_nat (3 + ?n)) 1280 (root_buffer stack start cnt)"
    unfolding s5_def s4_def by (rule holds_other [OF holds_put]) (use len n(2) in simp_all)
  moreover have "holds s5 (start + of_nat (1283 + ?n)) 1 (take 512 (root_entries (root_buffer stack start cnt)))"
    unfolding s5_def by (rule holds_put) (use len in simp_all)
  moreover have "inodes s5 = inodes s" "slots s5 = slots s" "buf_ok s5 = buf_ok s"
    by (simp_all add: s5_def s4_def s3_def s2_def s1_def)
  moreover have "used_bits \<lparr>bytes_len = m, bits = bits bb\<rparr> = {0}" "used_bits \<lparr>bytes_len = m, bits = bits ib\<rparr> = {0}" for m
    using bb(3) ib(3) by (simp_all add: used_bits_def)
  ultimately show ?thesis by (intro exI [of _ "bits bb"] exI [of _ "bits ib"] exI [of _ s5]) (simp add: formatted_def)
qed

section \<open>The root directory\<close>

lemma le_values: "le 8 (0 :: u64) = replicate 8 0" "le 8 (64 :: u64) = 64 # replicate 7 0" "le 4 FT_DIRECTORY = 2 # replicate 3 0"
  by code_simp+

definition root_inode0 :: "u32 \<Rightarrow> inode" where
  "root_inode0 l = \<lparr>i_no = 0, i_size = 64, i_open_cnts = 0, f_type = FT_DIRECTORY, inode_lock = 0, i_sectors = l # replicate 12 0\<rparr>"

text \<open>The first 64 bytes of the buffer, as the inode leaves them, and after the entries are written over it.\<close>

lemma root_buffer_eq:
  assumes "unat cnt + 4095 < 2 ^ 32"
  shows "root_buffer stack start cnt = encode_inode (root_inode0 (start + of_nat (1283 + bitmap_sects cnt))) @ replicate 655200 0"
  using sb_init_simps [OF assms, of stack start]
  by (simp add: root_buffer_def root_image_def splice_def root_inode0_def length_encode sizeof_inode_def)

lemma root_entries_eq:
  "\<exists>rest. root_entries (encode_inode (root_inode0 l) @ z) =
    ([0x2e, 0, 0, 0, 0, 0, 0, 0, 64, 0, 0, 0, 0, 0, 0, 0] @ replicate 8 0 @ [2, 0, 0, 0] @ replicate 4 0) @
    ([0x2e, 0x2e] @ replicate 22 0 @ [2, 0, 0, 0] @ replicate 4 0) @ rest"
proof -
  have r: "replicate 60 (0 :: byte) = replicate 36 0 @ replicate 24 0" by (simp flip: replicate_add)
  obtain w where "encode_inode (root_inode0 l) @ z = (replicate 8 0 @ 64 # replicate 7 0 @ replicate 8 0 @ 2 # replicate 3 0 @ replicate 36 0) @ w"
    unfolding encode_inode_def root_inode0_def by (simp add: le_values r)
  moreover have "root_entries ((replicate 8 0 @ 64 # replicate 7 0 @ replicate 8 0 @ 2 # replicate 3 0 @ replicate 36 0) @ w) =
    ([0x2e, 0, 0, 0, 0, 0, 0, 0, 64, 0, 0, 0, 0, 0, 0, 0] @ replicate 8 0 @ [2, 0, 0, 0] @ replicate 4 0) @
    ([0x2e, 0x2e] @ replicate 22 0 @ [2, 0, 0, 0] @ replicate 4 0) @ w"
    by (simp add: root_entries_def splice_def le_values Let_def) (simp add: numeral_eq_Suc)
  ultimately show ?thesis by metis
qed

lemma root_dots: "\<exists>d dd rest. take 512 (root_entries (encode_inode (root_inode0 l) @ z)) = d @ dd @ rest \<and> dot_pair d dd"
proof -
  obtain r where r: "root_entries (encode_inode (root_inode0 l) @ z) =
    ([0x2e, 0, 0, 0, 0, 0, 0, 0, 64, 0, 0, 0, 0, 0, 0, 0] @ replicate 8 0 @ [2, 0, 0, 0] @ replicate 4 0) @
    ([0x2e, 0x2e] @ replicate 22 0 @ [2, 0, 0, 0] @ replicate 4 0) @ r" (is "_ = ?d @ ?dd @ r")
    using root_entries_eq by blast
  have "dot_pair ?d ?dd" by code_simp
  moreover have "take 512 (root_entries (encode_inode (root_inode0 l) @ z)) = ?d @ ?dd @ take 448 r" unfolding r by simp
  ultimately show ?thesis by blast
qed

lemma unat_plus_small: "unat (x :: u32) + k < 2 ^ 32 \<Longrightarrow> unat (x + of_nat k) = unat x + k"
  by (subst unat_add_lem [THEN iffD1]) (simp_all add: unat_of_nat take_bit_nat_eq_self)

definition mountable :: "u32 \<Rightarrow> u32 \<Rightarrow> fs \<Rightarrow> bool" where
  "mountable start cnt s \<longleftrightarrow> secs_ok s \<and> (\<forall>m. buf_ok s m) \<and> inodes s = Map.empty \<and> distinct (slots s) \<and> slots s \<noteq> [] \<and>
     0 < unat cnt \<and> unat cnt \<le> 5242880 \<and> unat start + 1283 + 4097 * bitmap_sects cnt < 2 ^ 32"

lemma mount_formatted:
  assumes "mountable start cnt s" "length stack = 512"
  obtains s1 s2 where "partition_format stack start cnt s = Inr s1" "mount_partition start s1 = Inr s2" "secs_ok s2"
    "inodes s2 = Map.empty" "open_inodes s2 = []" "slots s2 = slots s" "buf_ok s2 = buf_ok s" "sb s2 = sb_init stack cnt start"
    "used_bits (block_bitmap s2) = {0}" "used_bits (inode_bitmap s2) = {0}"
    "bytes_len (block_bitmap s2) = 512 * bitmap_sects cnt" "length (bits (block_bitmap s2)) = 512 * bitmap_sects cnt"
    "take 160 (sectors s2 (inode_table_lba (sb s2))) = encode_inode (root_inode0 (data_start_lba (sb s2)))"
    "\<exists>d dd rest. sectors s2 (data_start_lba (sb s2)) = d @ dd @ rest \<and> dot_pair d dd"
proof -
  let ?b = "sb_init stack cnt start" and ?n = "bitmap_sects cnt"
  note m = assms(1) [unfolded mountable_def]
  have c: "unat cnt + 4095 < 2 ^ 32" using m by simp
  note sb = sb_init_simps [OF c, of stack start]
  have n: "?n \<le> 1280" using bitmap_sects_bounds m by blast
  obtain bb ib s1 where f: "partition_format stack start cnt s = Inr s1" "formatted stack start cnt bb ib s1"
    "inodes s1 = inodes s" "slots s1 = slots s" "buf_ok s1 = buf_ok s"
    using partition_format_ok [of s stack cnt start] m assms(2) by auto
  note r = f(2) [unfolded formatted_def Let_def]
  have g: "sectors s1 (start + 1) = encode_sb ?b @ drop 68 stack" "ide_get (start + of_nat 2) ?n s1 = bb" "ide_get (start + of_nat (2 + ?n)) 1 s1 = ib"
    "sectors s1 (start + of_nat (1283 + ?n)) = take 512 (root_entries (root_buffer stack start cnt))"
    using holds_get [of s1 "start + of_nat 1" 1] holds_get [of s1 "start + of_nat 2" ?n] holds_get [of s1 "start + of_nat (2 + ?n)" 1]
      holds_get [of s1 "start + of_nat (1283 + ?n)" 1] r n by simp_all
  have tab: "sectors s1 (start + of_nat (3 + ?n)) = take 512 (root_buffer stack start cnt)"
    using r by (simp add: holds_def)
  let ?s2 = "s1\<lparr>sb := ?b, block_bitmap := \<lparr>bytes_len = ?n * 512, bits = bb\<rparr>, inode_bitmap := \<lparr>bytes_len = 512, bits = ib\<rparr>, open_inodes := []\<rparr>"
  have dec: "decode_sb (take 68 (ide_get (start + 1) 1 s1)) = ?b" using g(1) decode_encode_sb [of ?b "[]"] by simp
  have one: "unat (1 :: u32) = 1" by simp
  have "mount_partition start s1 = Inr ?s2"
    unfolding mount_partition_def Let_def dec sb(2) unfolding sb one g using m f(5) by simp
  moreover have "secs_ok ?s2" using r by (simp add: secs_ok_def)
  moreover have "length bb = 512 * ?n" using r by (simp add: holds_def)
  moreover have "take 160 (sectors ?s2 (inode_table_lba ?b)) = encode_inode (root_inode0 (data_start_lba ?b))"
    unfolding sb using tab root_buffer_eq [OF c, of stack start] by (simp add: length_encode root_inode0_def sizeof_inode_def)
  moreover have "\<exists>d dd rest. sectors ?s2 (data_start_lba ?b) = d @ dd @ rest \<and> dot_pair d dd"
    unfolding sb using g(4) root_buffer_eq [OF c, of stack start] root_dots by simp
  ultimately show ?thesis using that [OF f(1), of ?s2] m f r by simp
qed

text \<open>
  C31. Formatting gives an empty file system: when no partition has one, \<^verbatim>\<open>filesys_init\<close> lays one out on the first
  partition and mounts it, and in the state it leaves the inode of the root directory is open, the directory
  contains itself as \<^verbatim>\<open>.\<close> and \<^verbatim>\<open>..\<close> and nothing else, one block and one inode are used, and the invariants of the
  file system hold, so that all the theorems on files and directories apply.
\<close>
theorem format_gives_empty_root:
  assumes "mountable start cnt s" "length stack = 512" "find (\<lambda>p. find_fs p s) ((start, cnt) # parts) = None"
  shows "\<exists>s'. filesys_init stack ((start, cnt) # parts) s = Inr s' \<and> root_dir_inode s' = hd (slots s) \<and>
    dir_at (length (slots s) - 1) (root_dir_inode s') s' \<and> directory (root_dir_inode s') s' = [[0x2e] \<mapsto> 0, [0x2e, 0x2e] \<mapsto> 0] \<and>
    used_bits (block_bitmap s') = {0} \<and> used_bits (inode_bitmap s') = {0} \<and> open_inodes s' = [root_dir_inode s']"
proof -
  let ?n = "bitmap_sects cnt"
  note m = assms(1) [unfolded mountable_def]
  obtain s1 s2 where s2: "partition_format stack start cnt s = Inr s1" "mount_partition start s1 = Inr s2" "secs_ok s2"
    "inodes s2 = Map.empty" "open_inodes s2 = []" "slots s2 = slots s" "buf_ok s2 = buf_ok s" "sb s2 = sb_init stack cnt start"
    "used_bits (block_bitmap s2) = {0}" "used_bits (inode_bitmap s2) = {0}"
    "bytes_len (block_bitmap s2) = 512 * ?n" "length (bits (block_bitmap s2)) = 512 * ?n"
    "take 160 (sectors s2 (inode_table_lba (sb s2))) = encode_inode (root_inode0 (data_start_lba (sb s2)))"
    "\<exists>d dd rest. sectors s2 (data_start_lba (sb s2)) = d @ dd @ rest \<and> dot_pair d dd"
    by (rule mount_formatted [OF assms(1,2)])
  obtain a as where a: "slots s = a # as" using m by (cases "slots s") auto
  have c: "unat cnt + 4095 < 2 ^ 32" using m by simp
  note sb = sb_init_simps [OF c, of stack start]
  let ?l = "data_start_lba (sb s2)"
  let ?i = "(root_inode0 ?l)\<lparr>inode_lock := 0, i_open_cnts := 1\<rparr>"
  have n: "0 < ?n" "?n \<le> 1280" using bitmap_sects_bounds m by blast+
  have pos: "unat (start + of_nat 2) = unat start + 2" "unat (start + of_nat (3 + ?n)) = unat start + (3 + ?n)"
    "unat (start + of_nat (1283 + ?n)) = unat start + (1283 + ?n)" by (rule unat_plus_small; use m in simp)+
  have lay: "layout_ok s2" unfolding layout_ok_def Let_def s2(8,11,12) sb using m pos by simp
  have "table_entry s2 0 = encode_inode (root_inode0 ?l)"
    using table_entry_get [OF s2(3), of 0] s2(13) secs_okD [OF s2(3)] by (simp add: ide_get_2)
  then have dec: "decode_inode (table_entry s2 (unat (0 :: u64))) = (root_inode0 ?l)\<lparr>inode_lock := 0\<rparr>"
    using decode_encode [of "root_inode0 ?l" "[]"] by (simp add: root_inode0_def)
  let ?s3 = "s2\<lparr>slots := as, open_inodes := [a], inodes := [a \<mapsto> ?i]\<rparr>"
  have "inode_open 0 s2 = Inr (a, ?s3)"
    using inode_open_new [OF s2(3), of 0 a as, unfolded dec] s2(4-7) m a by simp
  then have init: "filesys_init stack ((start, cnt) # parts) s = Inr (?s3\<lparr>root_dir_inode := a\<rparr>)"
    using s2(1,2) assms(3) by (simp add: filesys_init_def)
  let ?s4 = "?s3\<lparr>root_dir_inode := a\<rparr>"
  have ub: "used_block ?s4 ?l" using s2(9) by (simp add: used_block_def)
  have so: "secs_ok ?s4" "layout_ok ?s4" using s2(3) lay by (simp_all add: secs_ok_def layout_ok_def Let_def)
  have oo: "open_ok ?s4" using m a by (simp add: open_ok_def)
  obtain d dd rest where d: "sectors ?s4 ?l = d @ dd @ rest" "dot_pair d dd" using s2(14) by auto
  have "dir_at (length as) a ?s4" "directory a ?s4 = [[0x2e] \<mapsto> 0, [0x2e, 0x2e] \<mapsto> 0]"
    by (rule root_dir_at [OF so ub d _ _ _ _ _ oo, where i = ?i and n = "length as"]; use m s2(7) in \<open>simp add: root_inode0_def\<close>)+
  then show ?thesis using init s2(9,10) a by (intro exI [of _ ?s4]) simp
qed

text \<open>A disk of zeros, with one partition of 10000 sectors.\<close>

definition blank_fs :: fs where
  "blank_fs = demo_fs\<lparr>sectors := (\<lambda>_. replicate 512 0), inodes := Map.empty, open_inodes := [], slots := [0x1000, 0x2000, 0x3000]\<rparr>"

lemma blank_mountable: "mountable 2048 10000 blank_fs" "find (\<lambda>p. find_fs p blank_fs) [(2048, 10000)] = None"
proof -
  show "mountable 2048 10000 blank_fs"
    by (simp add: mountable_def blank_fs_def demo_fs_def secs_ok_def BLOCK_SIZE_def bitmap_sects_def)
  have "(unle (replicate 8 0) :: u64) = 0" by code_simp
  then show "find (\<lambda>p. find_fs p blank_fs) [(2048, 10000)] = None"
    by (simp add: find_fs_def decode_sb_def blank_fs_def SB_MAGIC_def ide_get_def min_def)
qed

theorem format_gives_empty_root_witness:
  "\<exists>s'. filesys_init (replicate 512 0) [(2048, 10000)] blank_fs = Inr s' \<and> root_dir_inode s' = 0x1000 \<and>
    dir_at 2 0x1000 s' \<and> directory 0x1000 s' = [[0x2e] \<mapsto> 0, [0x2e, 0x2e] \<mapsto> 0]"
proof -
  have "hd (slots blank_fs) = 0x1000" "length (slots blank_fs) - 1 = 2" by (simp_all add: blank_fs_def)
  with format_gives_empty_root [OF blank_mountable(1) length_replicate [of 512 0] blank_mountable(2)] show ?thesis by metis
qed

text \<open>
  The block bitmap has a bit for every sector of the partition, though blocks begin only behind the bitmaps and the
  inode table: the last bits stand for sectors behind the partition. They are free after formatting, so a file on
  a full disk is written over the next partition.
\<close>
theorem last_blocks_outside_partition:
  assumes "mountable start cnt s" "length stack = 512" "find (\<lambda>p. find_fs p s) ((start, cnt) # parts) = None" "1 < unat cnt"
  shows "\<exists>s' b. filesys_init stack ((start, cnt) # parts) s = Inr s' \<and> b < 8 * bytes_len (block_bitmap s') \<and>
    b \<notin> used_bits (block_bitmap s') \<and> unat start + unat cnt \<le> unat (data_start_lba (sb s') + of_nat b)"
proof -
  let ?n = "bitmap_sects cnt" and ?k = "unat cnt - 1"
  note m = assms(1) [unfolded mountable_def]
  obtain s1 s2 where s2: "partition_format stack start cnt s = Inr s1" "mount_partition start s1 = Inr s2" "secs_ok s2"
    "inodes s2 = Map.empty" "open_inodes s2 = []" "slots s2 = slots s" "buf_ok s2 = buf_ok s" "sb s2 = sb_init stack cnt start"
    "used_bits (block_bitmap s2) = {0}" "bytes_len (block_bitmap s2) = 512 * ?n"
    by (rule mount_formatted [OF assms(1,2)]) (rule that; assumption)
  obtain a as where a: "slots s = a # as" using m by (cases "slots s") auto
  let ?i = "(decode_inode (table_entry s2 0))\<lparr>inode_lock := 0, i_open_cnts := 1\<rparr>"
  have "inode_open 0 s2 = Inr (a, s2\<lparr>slots := as, open_inodes := [a], inodes := [a \<mapsto> ?i]\<rparr>)"
    using inode_open_new [OF s2(3), of 0 a as] s2(4-7) m a by simp
  then have init: "filesys_init stack ((start, cnt) # parts) s =
      Inr (s2\<lparr>slots := as, open_inodes := [a], inodes := [a \<mapsto> ?i], root_dir_inode := a\<rparr>)"
    using s2(1,2) assms(3) by (simp add: filesys_init_def)
  have c: "unat cnt + 4095 < 2 ^ 32" using m by simp
  have k: "?k < 4096 * ?n" "?n \<le> 1280" using bitmap_sects_bounds m assms(4) by (auto simp: bitmap_sects_def)
  have k3: "unat cnt \<le> 4096 * ?n" unfolding bitmap_sects_def by linarith
  have ds: "data_start_lba (sb s2) + of_nat ?k = start + of_nat (1283 + ?n + ?k)"
    unfolding s2(8) sb_init_simps(8) [OF c] by simp
  have "unat (start + of_nat (1283 + ?n + ?k)) = unat start + (1283 + ?n + ?k)" by (rule unat_plus_small) (use m k3 in simp)
  then have "unat start + unat cnt \<le> unat (data_start_lba (sb s2) + of_nat ?k)" unfolding ds by simp
  then show ?thesis using init s2(9,10) k(1) assms(4) by (intro exI [of _ "s2\<lparr>slots := as, open_inodes := [a], inodes := [a \<mapsto> ?i], root_dir_inode := a\<rparr>"] exI [of _ ?k]) simp
qed

theorem last_blocks_outside_partition_witness:
  "\<exists>s' b. filesys_init (replicate 512 0) [(2048, 10000)] blank_fs = Inr s' \<and> b < 8 * bytes_len (block_bitmap s') \<and>
    b \<notin> used_bits (block_bitmap s') \<and> 12048 \<le> unat (data_start_lba (sb s') + of_nat b)"
  using last_blocks_outside_partition [OF blank_mountable(1) length_replicate blank_mountable(2)] by simp

text \<open>The buffer of the formatter holds a bitmap of at most 1280 sectors: a larger partition overruns it.\<close>

lemma large_partition_overruns:
  assumes "5242880 < unat cnt" "unat cnt + 4095 < 2 ^ 32" "\<And>m. buf_ok s m"
  shows "partition_format stack start cnt s = Inl (Fault ''buf'')"
proof -
  have "1280 < bitmap_sects cnt" using assms(1) by (simp add: bitmap_sects_def)
  moreover have "unat (1280 :: u32) = 1280" by simp
  ultimately have w: "write_bitmap (unat (1280 :: u32) * 512) l (block_bitmap_sects (sb_init stack cnt start)) mk t = Inl (Fault ''buf'')" for l mk t
    by (simp add: write_bitmap_def sb_init_simps(2) [OF assms(2)])
  then show ?thesis
    unfolding partition_format_def Let_def sb_init_simps(4) [OF assms(2)] w using assms(3) by simp
qed

end
