(* ===== verification/File.thy ===== *)
theory File
  imports Path IoQueue
begin

text \<open>
  The kernel state that system calls work on, and the two file tables (\<^verbatim>\<open>fs/file.c\<close>): the table of 32 open
  files and the table of 8 descriptors of each thread. The state extends the scheduler's by the file system,
  the open files, the pipes (character queues in pages of their own), the keyboard queue, the directory streams
  and the text printed on the console. \<open>kpages\<close> and \<open>dir_slots\<close> list the addresses that the next calls of
  \<^verbatim>\<open>alloc_pages\<close> and \<^verbatim>\<open>sys_malloc\<close> for a \<^verbatim>\<open>struct dir\<close> return.
\<close>

section \<open>State\<close>

record kfile =
  fd_pos :: u64
  flag :: u32
  fd_inode :: u64

record dir_stream =
  dir_inode :: u64
  dir_pos :: u64
  dir_buf :: "byte list"

record kern = sched +
  kfs :: fs
  file_table :: "kfile list"
  pipes :: "u64 \<rightharpoonup> ioqueue"
  kbd_buf :: ioqueue
  dirs :: "u64 \<rightharpoonup> dir_stream"
  console :: "byte list"
  kpages :: "u64 list"
  dir_slots :: "u64 list"

definition MAX_FILES_OPEN :: nat where "MAX_FILES_OPEN = 32"
definition O_WRONLY :: u32 where "O_WRONLY = 1"
definition O_RDWR :: u32 where "O_RDWR = 2"
definition O_CREAT :: u32 where "O_CREAT = 4"
definition stdin_no :: int where "stdin_no = 0"
definition stdout_no :: int where "stdout_no = 1"
definition stderr_no :: int where "stderr_no = 2"

text \<open>A function of the file system as one of the kernel.\<close>

definition on_fs :: "(fs \<Rightarrow> ('b \<times> fs) res) \<Rightarrow> 'a kern_scheme \<Rightarrow> ('b \<times> 'a kern_scheme) res" where
  "on_fs f s = rbind (f (kfs s)) (\<lambda>(x, t). Inr (x, s\<lparr>kfs := t\<rparr>))"

definition on_fs_unit :: "(fs \<Rightarrow> fs res) \<Rightarrow> 'a kern_scheme \<Rightarrow> 'a kern_scheme res" where
  "on_fs_unit f s = rbind (f (kfs s)) (\<lambda>t. Inr (s\<lparr>kfs := t\<rparr>))"

definition cwd :: "'a kern_scheme \<Rightarrow> u64 res" where
  "cwd s = rbind (the_task s (running_thread s)) (\<lambda>k. Inr (of_nat (cwd_i_no k)))"

definition the_file :: "nat \<Rightarrow> 'a kern_scheme \<Rightarrow> kfile res" where
  "the_file g s = (if g < length (file_table s) then Inr (file_table s ! g) else Inl (Fault ''file_table''))"

definition put_file :: "nat \<Rightarrow> kfile \<Rightarrow> 'a kern_scheme \<Rightarrow> 'a kern_scheme" where
  "put_file g f s = s\<lparr>file_table := (file_table s)[g := f]\<rparr>"

section \<open>Operations\<close>

definition get_free_slot_in_global :: "'a kern_scheme \<Rightarrow> int" where
  "get_free_slot_in_global s =
     (case find (\<lambda>i. fd_inode (file_table s ! i) = 0) [3..<MAX_FILES_OPEN] of Some i \<Rightarrow> int i | None \<Rightarrow> -1)"

definition pcb_fd_install :: "int \<Rightarrow> 'a kern_scheme \<Rightarrow> (int \<times> 'a kern_scheme) res" where
  "pcb_fd_install globa_fd_idx s =
     rbind (the_task s (running_thread s)) (\<lambda>cur.
     case find (\<lambda>i. fd_table cur ! i = -1) [3..<MAX_FILES_OPEN_PER_PROC] of
       Some i \<Rightarrow> Inr (int i, put_task (running_thread s) (cur\<lparr>fd_table := (fd_table cur)[i := globa_fd_idx]\<rparr>) s)
     | None \<Rightarrow> Inr (-1, s))"

definition file_create :: "byte list \<Rightarrow> u32 \<Rightarrow> 'a kern_scheme \<Rightarrow> (int \<times> 'a kern_scheme) res" where
  "file_create pathname oflag s =
     (let fd_idx = get_free_slot_in_global s in
      if fd_idx = -1 then Inr (-1, s)
      else
        rbind (cwd s) (\<lambda>d.
        rbind (on_fs (create_file_or_directory d pathname FT_REGULAR) s) (\<lambda>(inode, s).
        case inode of
          None \<Rightarrow> Inr (-1, s)
        | Some a \<Rightarrow> pcb_fd_install fd_idx (put_file (nat fd_idx) \<lparr>fd_pos = 0, flag = oflag, fd_inode = a\<rparr> s))))"

definition file_open :: "byte list \<Rightarrow> u32 \<Rightarrow> 'a kern_scheme \<Rightarrow> (int \<times> 'a kern_scheme) res" where
  "file_open pathname oflag s =
     rbind (cwd s) (\<lambda>d.
     rbind (on_fs (search_file d pathname False) s) (\<lambda>(inode, s).
     case inode of
       None \<Rightarrow> Inr (-1, s)
     | Some a \<Rightarrow>
         let fd_idx = get_free_slot_in_global s in
         if fd_idx = -1 then Inr (-1, s)
         else pcb_fd_install fd_idx (put_file (nat fd_idx) \<lparr>fd_pos = 0, flag = oflag, fd_inode = a\<rparr> s)))"

definition file_close :: "nat \<Rightarrow> 'a kern_scheme \<Rightarrow> (int \<times> 'a kern_scheme) res" where
  "file_close g s =
     rbind (the_file g s) (\<lambda>f.
     rbind (on_fs_unit (inode_close (fd_inode f)) s) (\<lambda>s.
     Inr (0, put_file g (f\<lparr>fd_inode := 0\<rparr>) s)))"

definition fd_local2global :: "int \<Rightarrow> 'a kern_scheme \<Rightarrow> nat res" where
  "fd_local2global local_fd s =
     rbind (the_task s (running_thread s)) (\<lambda>cur.
     if 0 \<le> local_fd \<and> nat local_fd < length (fd_table cur) then
       let global_fd = fd_table cur ! nat local_fd in
       rbind (kassert (0 \<le> global_fd \<and> global_fd < int MAX_FILES_OPEN) ''global_fd >= 0 && global_fd < MAX_FILES_OPEN'') (\<lambda>_.
       Inr (nat global_fd))
     else Inl (Fault ''fd_table''))"

end
