(* ===== verification/Pipe.thy ===== *)
theory Pipe
  imports File
begin

text \<open>
  Pipes (\<^verbatim>\<open>pipe/pipe.c\<close>): a slot of the file table whose flag is \<^verbatim>\<open>PIPE_FLAG\<close> and whose \<^verbatim>\<open>fd_inode\<close> is a page
  with a character queue; \<^verbatim>\<open>fd_pos\<close> counts its descriptors. The loops over the queue stop where a call of
  \<^verbatim>\<open>ioq_getchar\<close> or \<^verbatim>\<open>ioq_putchar\<close> parks the thread: the result then says where.
\<close>

definition PIPE_FLAG :: u32 where "PIPE_FLAG = 0xffff"

definition is_pipe :: "int \<Rightarrow> 'a kern_scheme \<Rightarrow> bool res" where
  "is_pipe local_fd s =
     rbind (fd_local2global local_fd s) (\<lambda>g. rbind (the_file g s) (\<lambda>f. Inr (flag f = PIPE_FLAG)))"

text \<open>The descriptors written to \<^verbatim>\<open>pipefd\<close> are part of the result; \<open>page\<close> is what the new page holds.\<close>

definition alloc_page :: "'a kern_scheme \<Rightarrow> u64 \<times> 'a kern_scheme" where
  "alloc_page s = (case kpages s of [] \<Rightarrow> (0, s) | p # ps \<Rightarrow> (p, s\<lparr>kpages := ps\<rparr>))"

definition sys_pipe :: "byte list \<Rightarrow> 'a kern_scheme \<Rightarrow> ((int \<times> (int \<times> int) option) \<times> 'a kern_scheme) res" where
  "sys_pipe page s =
     (let global_fd = get_free_slot_in_global s; (p, s) = alloc_page s in
      if global_fd < 0 then Inl (Fault ''file_table'')
      else
        rbind (the_file (nat global_fd) s) (\<lambda>f.
        let s = put_file (nat global_fd) (f\<lparr>fd_inode := p\<rparr>) s in
        if p = 0 then Inr ((-1, None), s)
        else
          rbind (ioqueue_init (unat p) page s) (\<lambda>(q, s).
          let s = put_file (nat global_fd) \<lparr>fd_pos = 2, flag = PIPE_FLAG, fd_inode = p\<rparr> (s\<lparr>pipes := (pipes s)(p \<mapsto> q)\<rparr>) in
          rbind (pcb_fd_install global_fd s) (\<lambda>(fd0, s).
          rbind (pcb_fd_install global_fd s) (\<lambda>(fd1, s).
          Inr ((0, Some (fd0, fd1)), s))))))"

text \<open>\<open>n\<close> calls of \<^verbatim>\<open>ioq_getchar\<close>, of \<^verbatim>\<open>ioq_putchar\<close> for each byte: what was done, and where the thread parked, if it did.\<close>

fun get_chars :: "nat \<Rightarrow> ioqueue \<Rightarrow> 'a sched_scheme \<Rightarrow> ((byte list \<times> park option) \<times> ioqueue \<times> 'a sched_scheme) res" where
  "get_chars 0 q s = Inr (([], None), q, s)"
| "get_chars (Suc n) q s =
     rbind (ioq_getchar q s) (\<lambda>(r, q, s).
     case r of
       Parked p \<Rightarrow> Inr (([], Some p), q, s)
     | Finished c \<Rightarrow> rbind (get_chars n q s) (\<lambda>((cs, p), q, s). Inr ((c # cs, p), q, s)))"

fun put_chars :: "byte list \<Rightarrow> ioqueue \<Rightarrow> 'a sched_scheme \<Rightarrow> ((nat \<times> park option) \<times> ioqueue \<times> 'a sched_scheme) res" where
  "put_chars [] q s = Inr ((0, None), q, s)"
| "put_chars (c # cs) q s =
     rbind (ioq_putchar c q s) (\<lambda>(r, q, s).
     case r of
       Parked p \<Rightarrow> Inr ((0, Some p), q, s)
     | Finished _ \<Rightarrow> rbind (put_chars cs q s) (\<lambda>((n, p), q, s). Inr ((Suc n, p), q, s)))"

definition the_pipe :: "u64 \<Rightarrow> 'a kern_scheme \<Rightarrow> ioqueue res" where
  "the_pipe p s = (case pipes s p of None \<Rightarrow> Inl (Fault ''ioqueue'') | Some q \<Rightarrow> Inr q)"

definition pipe_read :: "int \<Rightarrow> nat \<Rightarrow> 'a kern_scheme \<Rightarrow> ((byte list \<times> park option) \<times> 'a kern_scheme) res" where
  "pipe_read fd count s =
     rbind (fd_local2global fd s) (\<lambda>g.
     rbind (the_file g s) (\<lambda>f.
     rbind (the_pipe (fd_inode f) s) (\<lambda>q.
     let ioq_len = ioq_length q; size = (if count < ioq_len then count else ioq_len) in
     rbind (get_chars size q s) (\<lambda>(r, q, s). Inr (r, s\<lparr>pipes := (pipes s)(fd_inode f \<mapsto> q)\<rparr>)))))"

definition pipe_write :: "int \<Rightarrow> byte list \<Rightarrow> 'a kern_scheme \<Rightarrow> ((nat \<times> park option) \<times> 'a kern_scheme) res" where
  "pipe_write fd data s =
     rbind (fd_local2global fd s) (\<lambda>g.
     rbind (the_file g s) (\<lambda>f.
     rbind (the_pipe (fd_inode f) s) (\<lambda>q.
     let ioq_left = bufsize - ioq_length q; size = (if length data < ioq_left then length data else ioq_left) in
     rbind (put_chars (take size data) q s) (\<lambda>(r, q, s). Inr (r, s\<lparr>pipes := (pipes s)(fd_inode f \<mapsto> q)\<rparr>)))))"

definition sys_fd_redirect :: "nat \<Rightarrow> nat \<Rightarrow> 'a kern_scheme \<Rightarrow> 'a kern_scheme res" where
  "sys_fd_redirect old_local_fd new_local_fd s =
     rbind (the_task s (running_thread s)) (\<lambda>cur.
     let n = length (fd_table cur) in
     if n \<le> old_local_fd \<or> (3 \<le> new_local_fd \<and> n \<le> new_local_fd) then Inl (Fault ''fd_table'')
     else
       let v = (if new_local_fd < 3 then int new_local_fd else fd_table cur ! new_local_fd) in
       Inr (put_task (running_thread s) (cur\<lparr>fd_table := (fd_table cur)[old_local_fd := v]\<rparr>) s))"

end
