(* ===== verification/FileCall.thy ===== *)
theory FileCall
  imports Pipe "HOL-Library.While_Combinator"
begin

text \<open>
  The system calls on files (\<^verbatim>\<open>fs/fs.c\<close>): \<^verbatim>\<open>sys_open\<close> to \<^verbatim>\<open>sys_unlink\<close>. A descriptor is an \<^verbatim>\<open>int\<close>, a
  count the length of the caller's buffer; results keep their machine type, with -1 as \<open>-1\<close>. A reader of
  the keyboard or a pipe may park: the second part of the result says where.
\<close>

definition sys_open :: "byte list \<Rightarrow> u32 \<Rightarrow> 'a kern_scheme \<Rightarrow> (int \<times> 'a kern_scheme) res" where
  "sys_open pathname oflag s = (if oflag AND O_CREAT = O_CREAT then file_create pathname oflag s else file_open pathname oflag s)"

definition set_fd :: "int \<Rightarrow> int \<Rightarrow> 'a kern_scheme \<Rightarrow> 'a kern_scheme res" where
  "set_fd fd v s =
     rbind (the_task s (running_thread s)) (\<lambda>cur.
     Inr (put_task (running_thread s) (cur\<lparr>fd_table := (fd_table cur)[nat fd := v]\<rparr>) s))"

definition sys_close :: "int \<Rightarrow> 'a kern_scheme \<Rightarrow> (int \<times> 'a kern_scheme) res" where
  "sys_close fd s =
     (if 2 < fd then
        rbind (fd_local2global fd s) (\<lambda>g.
        rbind (is_pipe fd s) (\<lambda>pipe.
        rbind (if pipe then
                 rbind (the_file g s) (\<lambda>f.
                 let f = f\<lparr>fd_pos := fd_pos f - 1\<rparr> in
                 if fd_pos f = 0 then
                   Inr (0, put_file g (f\<lparr>fd_inode := 0\<rparr>)
                          (s\<lparr>pipes := (pipes s)(fd_inode f := None), pages_freed := unat (fd_inode f) # pages_freed s\<rparr>))
                 else Inr (-1, put_file g f s))
               else file_close g s) (\<lambda>(ret, s).
        rbind (set_fd fd (-1) s) (\<lambda>s. Inr (ret, s)))))
      else Inl (Panic ''sys_close: can't close std fd''))"

definition sys_write :: "int \<Rightarrow> byte list \<Rightarrow> 'a kern_scheme \<Rightarrow> ((u64 \<times> park option) \<times> 'a kern_scheme) res" where
  "sys_write fd data s =
     (if fd < 0 then Inr ((-1, None), s)
      else
        rbind (is_pipe fd s) (\<lambda>pipe.
        if pipe then rbind (pipe_write fd data s) (\<lambda>((n, p), s). Inr ((of_nat n, p), s))
        else if fd = stdout_no then
          rbind (kassert (buf_ok (kfs s) (length data + 1)) ''alloc write_buf failed'') (\<lambda>_.
          Inr ((of_nat (length data), None), s\<lparr>console := console s @ cstr data\<rparr>))
        else
          rbind (fd_local2global fd s) (\<lambda>g.
          rbind (the_file g s) (\<lambda>f.
          if flag f AND O_WRONLY \<noteq> 0 \<or> flag f AND O_RDWR \<noteq> 0 then
            rbind (on_fs (inode_write (fd_inode f) data (fd_pos f)) s) (\<lambda>(w, s).
            let bytes_written = (case w of None \<Rightarrow> -1 | Some n \<Rightarrow> n) in
            Inr ((bytes_written, None), put_file g (f\<lparr>fd_pos := fd_pos f + bytes_written\<rparr>) s))
          else Inr ((-1, None), s)))))"

definition sys_read :: "int \<Rightarrow> nat \<Rightarrow> 'a kern_scheme \<Rightarrow> ((u64 \<times> byte list \<times> park option) \<times> 'a kern_scheme) res" where
  "sys_read fd count s =
     (if fd < 0 \<or> fd = stdout_no \<or> fd = stderr_no then Inl (Panic ''sys_read: fd error'')
      else
        rbind (is_pipe fd s) (\<lambda>pipe.
        if pipe then rbind (pipe_read fd count s) (\<lambda>((cs, p), s). Inr ((of_nat (length cs), cs, p), s))
        else if fd = stdin_no then
          rbind (get_chars count (kbd_buf s) s) (\<lambda>((cs, p), q, s).
          Inr ((if length cs = 0 then -1 else of_nat (length cs), cs, p), s\<lparr>kbd_buf := q\<rparr>))
        else
          rbind (fd_local2global fd s) (\<lambda>g.
          rbind (the_file g s) (\<lambda>f.
          rbind (on_fs (inode_read (fd_inode f) (of_nat count) (fd_pos f)) s) (\<lambda>(r, s).
          let ret = (case r of None \<Rightarrow> -1 | Some bs \<Rightarrow> of_nat (length bs)) in
          Inr ((ret, (case r of None \<Rightarrow> [] | Some bs \<Rightarrow> bs), None), put_file g (f\<lparr>fd_pos := fd_pos f + ret\<rparr>) s))))))"

datatype whence = SEEK_SET | SEEK_CUR | SEEK_END

definition sys_lseek :: "int \<Rightarrow> u64 \<Rightarrow> whence \<Rightarrow> 'a kern_scheme \<Rightarrow> (u64 \<times> 'a kern_scheme) res" where
  "sys_lseek fd offset whence s =
     (if fd < 0 \<or> int MAX_FILES_OPEN < fd then Inr (-1, s)
      else
        rbind (fd_local2global fd s) (\<lambda>g.
        rbind (the_file g s) (\<lambda>f.
        rbind (the_inode (fd_inode f) (kfs s)) (\<lambda>i.
        let file_size = i_size i;
            new_pos = (case whence of SEEK_SET \<Rightarrow> offset | SEEK_CUR \<Rightarrow> fd_pos f + offset | SEEK_END \<Rightarrow> file_size + offset) in
        if sint new_pos < 0 \<or> sint file_size < sint new_pos then Inr (-1, s)
        else Inr (new_pos, put_file g (f\<lparr>fd_pos := new_pos\<rparr>) s)))))"

definition sys_opendir :: "byte list \<Rightarrow> 'a kern_scheme \<Rightarrow> (u64 \<times> 'a kern_scheme) res" where
  "sys_opendir path s =
     rbind (cwd s) (\<lambda>d.
     rbind (on_fs (search_file d path False) s) (\<lambda>(inode, s).
     case inode of
       None \<Rightarrow> Inr (0, s)
     | Some a \<Rightarrow>
         rbind (the_inode a (kfs s)) (\<lambda>i.
         if f_type i \<noteq> FT_DIRECTORY then Inr (0, s)
         else (case dir_slots s of
             [] \<Rightarrow> Inl (Fault ''pdir'')
           | p # ps \<Rightarrow>
               Inr (p, s\<lparr>dir_slots := ps, dirs := (dirs s)(p \<mapsto> \<lparr>dir_inode = a, dir_pos = 0, dir_buf = replicate sizeof_dir_entry 0\<rparr>)\<rparr>)))))"

definition the_dir :: "u64 \<Rightarrow> 'a kern_scheme \<Rightarrow> dir_stream res" where
  "the_dir p s = (case dirs s p of None \<Rightarrow> Inl (Fault ''dir'') | Some d \<Rightarrow> Inr d)"

definition sys_closedir :: "u64 \<Rightarrow> 'a kern_scheme \<Rightarrow> 'a kern_scheme res" where
  "sys_closedir p s =
     rbind (the_dir p s) (\<lambda>d.
     if dir_inode d = root_dir_inode (kfs s) then Inr s
     else rbind (on_fs_unit (inode_close (dir_inode d)) s) (\<lambda>s. Inr (s\<lparr>dirs := (dirs s)(p := None)\<rparr>)))"

text \<open>
  One round of the loop of \<^verbatim>\<open>sys_readdir\<close>: \<open>Inl\<close> goes on, \<open>Inr\<close> ends with an error or with whether an entry
  is in the buffer. \<open>None\<close> of the loop is that it never ends.
\<close>

definition readdir_step :: "dir_stream \<times> fs \<Rightarrow> dir_stream \<times> fs + (bool \<times> dir_stream \<times> fs) res" where
  "readdir_step = (\<lambda>(d, s).
     case the_inode (dir_inode d) s of
       Inl e \<Rightarrow> Inr (Inl e)
     | Inr i \<Rightarrow>
         let d = d\<lparr>dir_pos := dir_pos d + of_nat sizeof_dir_entry\<rparr> in
         if i_size i < dir_pos d then Inr (Inr (False, d, s))
         else (case inode_read (dir_inode d) (of_nat sizeof_dir_entry) (dir_pos d - of_nat sizeof_dir_entry) s of
             Inl e \<Rightarrow> Inr (Inl e)
           | Inr (r, s) \<Rightarrow>
               let d = d\<lparr>dir_buf := splice 0 (case r of None \<Rightarrow> [] | Some bs \<Rightarrow> bs) (dir_buf d)\<rparr> in
               if unused (dir_buf d) then Inl (d, s) else Inr (Inr (True, d, s))))"

definition readdir_loop :: "dir_stream \<times> fs \<Rightarrow> (bool \<times> dir_stream \<times> fs) res option" where
  "readdir_loop d = map_option projr (while_option isl (\<lambda>x. readdir_step (projl x)) (Inl d))"

definition sys_readdir :: "u64 \<Rightarrow> 'a kern_scheme \<Rightarrow> (byte list option \<times> 'a kern_scheme) res option" where
  "sys_readdir p s =
     (case the_dir p s of
        Inl e \<Rightarrow> Some (Inl e)
      | Inr d \<Rightarrow>
          map_option (\<lambda>r. rbind r (\<lambda>(found, d, t).
            Inr (if found then Some (dir_buf d) else None, s\<lparr>kfs := t, dirs := (dirs s)(p \<mapsto> d)\<rparr>)))
            (readdir_loop (d, kfs s)))"

record stat_buf =
  st_inode_no :: u64
  st_size :: u64
  st_file_type :: u32

definition sys_stat :: "byte list \<Rightarrow> 'a kern_scheme \<Rightarrow> (stat_buf option \<times> 'a kern_scheme) res" where
  "sys_stat path s =
     rbind (cwd s) (\<lambda>d.
     rbind (on_fs (search_file d path False) s) (\<lambda>(inode, s).
     case inode of
       None \<Rightarrow> Inr (None, s)
     | Some a \<Rightarrow>
         rbind (the_inode a (kfs s)) (\<lambda>i.
         rbind (kassert (1 \<le> i_open_cnts i) ''inode->i_open_cnts >= 1'') (\<lambda>_.
         rbind (on_fs_unit (inode_close a) s) (\<lambda>s.
         Inr (Some \<lparr>st_inode_no = i_no i, st_size = i_size i, st_file_type = f_type i\<rparr>, s))))))"

definition sys_unlink :: "byte list \<Rightarrow> 'a kern_scheme \<Rightarrow> (int \<times> 'a kern_scheme) res" where
  "sys_unlink pathname s =
     rbind (cwd s) (\<lambda>d.
     rbind (on_fs (search_file d pathname False) s) (\<lambda>(inode, s).
     case inode of
       None \<Rightarrow> Inr (-1, s)
     | Some a \<Rightarrow>
         let s = s\<lparr>file_table := map (\<lambda>f. if fd_inode f = a then f\<lparr>fd_inode := 0\<rparr> else f) (file_table s)\<rparr> in
         rbind (on_fs_unit (inode_close a) s) (\<lambda>s.
         rbind (on_fs (delete_file_or_directory d pathname) s) (\<lambda>(ok, s).
         Inr (if ok then 0 else -1, s)))))"

end
