(* ===== verification/FileSpec.thy ===== *)
theory FileSpec
  imports FileCall
begin

text \<open>
  What the system calls on files do. A descriptor of a regular file is a list of bytes with a position; the locale
  \<open>positioned_file\<close> is that interface, which the system calls satisfy by the theorems about \<^verbatim>\<open>inode_read\<close> and
  \<^verbatim>\<open>inode_write\<close>. Then the errors: reads at the end of a file, descriptors that are not open, and the slots of the
  file table that a failing \<^verbatim>\<open>open\<close> leaves taken.
\<close>

section \<open>Descriptors\<close>

definition fd_slot :: "int \<Rightarrow> int \<Rightarrow> 'a kern_scheme \<Rightarrow> bool" where
  "fd_slot fd g s \<longleftrightarrow> (\<exists>k. tasks s (current s) = Some k \<and> 0 \<le> fd \<and> nat fd < length (fd_table k) \<and> fd_table k ! nat fd = g)"

lemma fd_local2global_ok:
  assumes "fd_slot fd (int g) s" "g < MAX_FILES_OPEN"
  shows "fd_local2global fd s = Inr g"
  using assms by (auto simp: fd_slot_def fd_local2global_def the_task_def running_thread_def)

lemma fd_local2global_closed:
  assumes "fd_slot fd (-1) s"
  shows "fd_local2global fd s = Inl (Panic ''global_fd >= 0 && global_fd < MAX_FILES_OPEN'')"
  using assms by (auto simp: fd_slot_def fd_local2global_def the_task_def running_thread_def)

lemma fd_slot_simps [simp]:
  "fd_slot fd g (put_file h f s) = fd_slot fd g s" "fd_slot fd g (s\<lparr>kfs := t\<rparr>) = fd_slot fd g s"
  by (simp_all add: fd_slot_def put_file_def)

lemma put_file_simps [simp]:
  "kfs (put_file g f s) = kfs s" "length (file_table (put_file g f s)) = length (file_table s)"
  "g < length (file_table s) \<Longrightarrow> file_table (put_file g f s) ! g = f"
  by (simp_all add: put_file_def)

section \<open>Regular files\<close>

definition bytes_of :: "u64 \<Rightarrow> 'a kern_scheme \<Rightarrow> byte list" where
  "bytes_of a s = file_bytes (kfs s) (the (inodes (kfs s) a))"

definition pos_of :: "nat \<Rightarrow> 'a kern_scheme \<Rightarrow> nat" where
  "pos_of g s = unat (fd_pos (file_table s ! g))"

text \<open>Descriptor \<open>fd\<close> is slot \<open>g\<close>, open on the inode at \<open>a\<close>, and stands inside the file.\<close>

definition regular :: "int \<Rightarrow> nat \<Rightarrow> u64 \<Rightarrow> 'a kern_scheme \<Rightarrow> bool" where
  "regular fd g a s \<longleftrightarrow> fd_slot fd (int g) s \<and> 3 \<le> fd \<and> fd < 8 \<and> g < MAX_FILES_OPEN \<and> length (file_table s) = MAX_FILES_OPEN \<and>
     flag (file_table s ! g) \<noteq> PIPE_FLAG \<and> fd_inode (file_table s ! g) = a \<and>
     (\<forall>n. buf_ok (kfs s) n) \<and>
     (case inodes (kfs s) a of None \<Rightarrow> False | Some i \<Rightarrow> file_ok (kfs s) i \<and> unat (fd_pos (file_table s ! g)) \<le> unat (i_size i))"

definition for_writing :: "nat \<Rightarrow> 'a kern_scheme \<Rightarrow> bool" where
  "for_writing g s \<longleftrightarrow> flag (file_table s ! g) AND O_WRONLY \<noteq> 0 \<or> flag (file_table s ! g) AND O_RDWR \<noteq> 0"

lemma regularE:
  assumes "regular fd g a s"
  obtains i where "inodes (kfs s) a = Some i" "file_ok (kfs s) i" "unat (fd_pos (file_table s ! g)) \<le> unat (i_size i)"
    "unat (i_size i) \<le> 71680" "\<forall>n. buf_ok (kfs s) n" "fd_slot fd (int g) s" "3 \<le> fd" "fd < 8" "g < MAX_FILES_OPEN"
    "length (file_table s) = MAX_FILES_OPEN" "flag (file_table s ! g) \<noteq> PIPE_FLAG"
    "fd_inode (file_table s ! g) = a" "bytes_of a s = file_bytes (kfs s) i" "length (bytes_of a s) = unat (i_size i)"
    "fd_local2global fd s = Inr g" "is_pipe fd s = Inr False" "the_file g s = Inr (file_table s ! g)"
proof -
  from assms obtain i where i: "inodes (kfs s) a = Some i" "file_ok (kfs s) i" "unat (fd_pos (file_table s ! g)) \<le> unat (i_size i)"
    by (auto simp: regular_def split: option.splits)
  note r = assms [unfolded regular_def]
  have fg: "fd_local2global fd s = Inr g" using r by (intro fd_local2global_ok) auto
  moreover have tf: "the_file g s = Inr (file_table s ! g)" using r by (simp add: the_file_def)
  moreover have "is_pipe fd s = Inr False" using r fg tf by (simp add: is_pipe_def)
  ultimately show ?thesis
    using i r by (intro that [of i]) (auto simp: bytes_of_def file_ok_def)
qed

text \<open>A change of position inside the file.\<close>

lemma regular_move:
  assumes "regular fd g a s" "p \<le> length (bytes_of a s)"
  shows "regular fd g a (put_file g ((file_table s ! g)\<lparr>fd_pos := of_nat p\<rparr>) s)"
    "bytes_of a (put_file g ((file_table s ! g)\<lparr>fd_pos := of_nat p\<rparr>) s) = bytes_of a s"
    "pos_of g (put_file g ((file_table s ! g)\<lparr>fd_pos := of_nat p\<rparr>) s) = p"
proof -
  from assms(1) obtain i where i: "inodes (kfs s) a = Some i" "file_ok (kfs s) i" "unat (i_size i) \<le> 71680"
      "length (file_table s) = MAX_FILES_OPEN" "g < MAX_FILES_OPEN" "length (bytes_of a s) = unat (i_size i)"
    by (rule regularE)
  have "p < 2 ^ 64" using assms(2) i by simp
  then have p: "unat (of_nat p :: u64) = p" by (rule unat_of_nat_u64)
  show "regular fd g a (put_file g ((file_table s ! g)\<lparr>fd_pos := of_nat p\<rparr>) s)"
    using assms i p by (simp add: regular_def)
  show "bytes_of a (put_file g ((file_table s ! g)\<lparr>fd_pos := of_nat p\<rparr>) s) = bytes_of a s" by (simp add: bytes_of_def)
  show "pos_of g (put_file g ((file_table s ! g)\<lparr>fd_pos := of_nat p\<rparr>) s) = p" using i p by (simp add: pos_of_def)
qed

text \<open>\<^verbatim>\<open>read\<close> of a regular file, inside it and at its end.\<close>

lemma sys_read_regular:
  assumes "regular fd g a s" "n < 2 ^ 61"
  shows "sys_read fd n s =
    (if length (bytes_of a s) \<le> pos_of g s \<and> 0 < n
     then Inr ((-1, [], None), put_file g ((file_table s ! g)\<lparr>fd_pos := fd_pos (file_table s ! g) - 1\<rparr>) s)
     else let bs = take n (drop (pos_of g s) (bytes_of a s)) in
       Inr ((of_nat (length bs), bs, None), put_file g ((file_table s ! g)\<lparr>fd_pos := of_nat (pos_of g s + length bs)\<rparr>) s))"
proof -
  from assms(1) obtain i where i: "inodes (kfs s) a = Some i" "file_ok (kfs s) i" "unat (fd_pos (file_table s ! g)) \<le> unat (i_size i)"
    "unat (i_size i) \<le> 71680" "\<forall>n. buf_ok (kfs s) n" "fd_slot fd (int g) s" "3 \<le> fd" "fd < 8" "g < MAX_FILES_OPEN"
    "length (file_table s) = MAX_FILES_OPEN" "flag (file_table s ! g) \<noteq> PIPE_FLAG"
    "fd_inode (file_table s ! g) = a" "bytes_of a s = file_bytes (kfs s) i" "length (bytes_of a s) = unat (i_size i)"
    "fd_local2global fd s = Inr g" "is_pipe fd s = Inr False" "the_file g s = Inr (file_table s ! g)"
    by (rule regularE)
  have n: "unat (of_nat n :: u64) = n" using assms(2) by (intro unat_of_nat_u64) simp
  have n0: "(0 < (of_nat n :: u64)) = (0 < n)" using n by (simp add: word_less_nat_alt)
  have pos: "\<not> i_size i < fd_pos (file_table s ! g)" using i(3) by (simp add: word_less_nat_alt)
  have rd: "inode_read a (of_nat n) (fd_pos (file_table s ! g)) (kfs s) =
      Inr (if length (bytes_of a s) \<le> pos_of g s \<and> 0 < n then None
        else Some (take n (drop (pos_of g s) (bytes_of a s))), kfs s)"
    using inode_read_ok [OF i(1,2) i(5) [rule_format], of "fd_pos (file_table s ! g)" "of_nat n"] n n0 pos i(3,4,13,14) assms(2)
    by (simp add: pos_of_def)
  have fd: "\<not> fd < 0" "fd \<noteq> stdout_no" "fd \<noteq> stderr_no" "fd \<noteq> stdin_no"
    using i(7) by (simp_all add: stdout_no_def stderr_no_def stdin_no_def)
  have unchanged: "s\<lparr>kfs := kfs s\<rparr> = s" by simp
  show ?thesis
    unfolding sys_read_def using fd i(12,15-17) rd
    by (simp add: on_fs_def Let_def pos_of_def)
qed

lemma sys_lseek_regular:
  assumes "regular fd g a s" "p \<le> length (bytes_of a s)"
  shows "sys_lseek fd (of_nat p) SEEK_SET s = Inr (of_nat p, put_file g ((file_table s ! g)\<lparr>fd_pos := of_nat p\<rparr>) s)"
proof -
  from assms(1) obtain i where i: "inodes (kfs s) a = Some i" "unat (i_size i) \<le> 71680" "3 \<le> fd" "fd < 8"
    "fd_inode (file_table s ! g) = a" "length (bytes_of a s) = unat (i_size i)"
    "fd_local2global fd s = Inr g" "the_file g s = Inr (file_table s ! g)"
    by (rule regularE)
  have p: "unat (of_nat p :: u64) = p" using assms(2) i by (intro unat_of_nat_u64) simp
  have "sint (of_nat p :: u64) = int p" using p assms(2) i by (simp add: sint_small)
  moreover have "sint (i_size i) = int (unat (i_size i))" using i(2) by (intro sint_small) simp
  ultimately have "\<not> sint (of_nat p :: u64) < 0" "\<not> sint (i_size i) < sint (of_nat p :: u64)"
    using assms(2) i(6) by linarith+
  then show ?thesis unfolding sys_lseek_def using i by (simp add: MAX_FILES_OPEN_def the_inode_def Let_def)
qed

text \<open>A write that stays inside the size limit and does not end a longer run of blocks at a block boundary.\<close>

definition may_write :: "nat \<Rightarrow> nat \<Rightarrow> bool" where
  "may_write p n \<longleftrightarrow> p + n \<le> 71680 \<and> ((p + n) mod 512 \<noteq> 0 \<or> p + n \<le> 512 * (p div 512 + 1))"

lemma sys_write_regular:
  assumes "regular fd g a s" "may_write (pos_of g s) (length data)" "for_writing g s"
  shows "\<exists>w s'. sys_write fd data s = Inr ((w, None), s') \<and>
    (if w = -1 then disk_full (kfs s')
     else w = of_nat (length data) \<and> regular fd g a s' \<and> for_writing g s' \<and> bytes_of a s' = splice (pos_of g s) data (bytes_of a s) \<and>
       pos_of g s' = pos_of g s + length data)"
proof -
  from assms(1) obtain i where i: "inodes (kfs s) a = Some i" "file_ok (kfs s) i" "unat (fd_pos (file_table s ! g)) \<le> unat (i_size i)"
    "unat (i_size i) \<le> 71680" "\<forall>n. buf_ok (kfs s) n" "fd_slot fd (int g) s" "3 \<le> fd" "fd < 8" "g < MAX_FILES_OPEN"
    "length (file_table s) = MAX_FILES_OPEN" "flag (file_table s ! g) \<noteq> PIPE_FLAG"
    "fd_inode (file_table s ! g) = a" "bytes_of a s = file_bytes (kfs s) i" "length (bytes_of a s) = unat (i_size i)"
    "fd_local2global fd s = Inr g" "is_pipe fd s = Inr False" "the_file g s = Inr (file_table s ! g)"
    by (rule regularE)
  let ?f = "file_table s ! g"
  have fd: "\<not> fd < 0" "fd \<noteq> stdout_no" using i(7) by (simp_all add: stdout_no_def)
  note mw = assms(2) [unfolded may_write_def pos_of_def]
  obtain r t where w: "inode_write a data (fd_pos ?f) (kfs s) = Inr (r, t)"
    "case r of None \<Rightarrow> disk_full t
     | Some n \<Rightarrow> n = of_nat (length data) \<and> (\<exists>i'. i' = i\<lparr>i_size := i_size i', i_sectors := i_sectors i'\<rparr> \<and>
         same_fs (put_inode a i' (kfs s)) t \<and> inodes t a = Some i' \<and> file_ok t i' \<and> i_no i' = i_no i \<and>
         file_bytes t i' = splice (unat (fd_pos ?f)) data (file_bytes (kfs s) i) \<and>
         (data \<noteq> [] \<longrightarrow> inode_read a n (fd_pos ?f) t = Inr (Some data, t)) \<and>
         (\<forall>k. file_ok (kfs s) k \<and> blocks_used (kfs s) k \<inter> blocks_used (kfs s) i \<subseteq> {0} \<longrightarrow> file_bytes t k = file_bytes (kfs s) k))"
    using inode_write_splice [OF i(1,2) i(5) [rule_format] i(3)] mw by blast
  define s' where "s' = put_file g (?f\<lparr>fd_pos := fd_pos ?f + (case r of None \<Rightarrow> -1 | Some n \<Rightarrow> n)\<rparr>) (s\<lparr>kfs := t\<rparr>)"
  have run: "sys_write fd data s = Inr ((case r of None \<Rightarrow> -1 | Some n \<Rightarrow> n, None), s')"
    unfolding sys_write_def s'_def using fd i(12,15-17) w(1) assms(3) by (simp add: on_fs_def Let_def for_writing_def)
  have len: "unat (of_nat (length data) :: u64) = length data" using mw by (intro unat_of_nat_u64) simp
  have no: "(of_nat (length data) :: u64) \<noteq> -1"
  proof
    assume "(of_nat (length data) :: u64) = -1"
    then have "unat (-1 :: u64) = length data" using len by simp
    then have "length data = 18446744073709551615" by (simp add: unsigned_minus_1_eq_mask mask_eq_exp_minus_1)
    then show False using mw by linarith
  qed
  show ?thesis
  proof (cases r)
    case None
    then have "sys_write fd data s = Inr ((-1, None), s')" "disk_full (kfs s')" using run w(2) by (simp_all add: s'_def)
    then show ?thesis by (intro exI [of _ "-1"] exI [of _ s']) simp
  next
    case (Some n)
    then obtain i' where i': "n = of_nat (length data)" "same_fs (put_inode a i' (kfs s)) t" "inodes t a = Some i'" "file_ok t i'"
      "file_bytes t i' = splice (unat (fd_pos ?f)) data (file_bytes (kfs s) i)"
      using w(2) by auto
    have "unat (fd_pos ?f + of_nat (length data)) = unat (fd_pos ?f) + length data"
      using mw len by (subst unat_add_lem [THEN iffD1]) simp_all
    then have p: "pos_of g s' = pos_of g s + length data" using i(9,10) Some i'(1) by (simp add: s'_def pos_of_def)
    have b: "bytes_of a s' = splice (pos_of g s) data (bytes_of a s)"
      using i'(3,5) i(1) by (simp add: bytes_of_def s'_def pos_of_def)
    have "length (file_bytes t i') = max (unat (i_size i)) (pos_of g s + length data)"
      unfolding i'(5) using i(3) by (simp add: splice_def pos_of_def)
    then have sz: "pos_of g s' \<le> unat (i_size i')" using p by simp
    have "regular fd g a s'"
      unfolding regular_def using i i' sz Some by (simp add: s'_def same_fs_simps(4) pos_of_def)
    moreover have "for_writing g s'" using assms(3) i(9,10) by (simp add: for_writing_def s'_def)
    ultimately show ?thesis using run Some i'(1) no b p by simp
  qed
qed

section \<open>The interface of a file\<close>

text \<open>A list of bytes with a position, as its users see it.\<close>

locale positioned_file =
  fixes inv :: "'s \<Rightarrow> bool" and content :: "'s \<Rightarrow> byte list" and pos :: "'s \<Rightarrow> nat"
    and get :: "nat \<Rightarrow> 's \<Rightarrow> (byte list \<times> 's) res" and put :: "byte list \<Rightarrow> 's \<Rightarrow> (bool \<times> 's) res"
    and seek :: "nat \<Rightarrow> 's \<Rightarrow> 's res" and may :: "nat \<Rightarrow> nat \<Rightarrow> bool" and limit :: nat
  assumes get_law: "inv s \<Longrightarrow> pos s < length (content s) \<Longrightarrow> n < limit \<Longrightarrow>
      \<exists>s'. get n s = Inr (take n (drop (pos s) (content s)), s') \<and> inv s' \<and> content s' = content s \<and>
        pos s' = pos s + min n (length (content s) - pos s)"
    and seek_law: "inv s \<Longrightarrow> p \<le> length (content s) \<Longrightarrow>
      \<exists>s'. seek p s = Inr s' \<and> inv s' \<and> content s' = content s \<and> pos s' = p"
    and put_law: "inv s \<Longrightarrow> may (pos s) (length data) \<Longrightarrow> put data s = Inr (True, s') \<Longrightarrow>
      inv s' \<and> content s' = splice (pos s) data (content s) \<and> pos s' = pos s + length data"
    and pos_law: "inv s \<Longrightarrow> pos s \<le> length (content s)"
begin

lemma write_seek_read:
  assumes "inv s" "may (pos s) (length data)" "put data s = Inr (True, s')" "data \<noteq> []" "length data < limit"
  shows "\<exists>t u. seek (pos s) s' = Inr t \<and> get (length data) t = Inr (data, u) \<and> inv u \<and>
    content u = splice (pos s) data (content s) \<and> pos u = pos s + length data"
proof -
  from put_law [OF assms(1-3)] have s': "inv s'" "content s' = splice (pos s) data (content s)" by simp_all
  have p: "pos s \<le> length (content s)" by (rule pos_law [OF assms(1)])
  then have len: "pos s + length data \<le> length (content s')" unfolding s'(2) by (simp add: splice_def)
  then obtain t where t: "seek (pos s) s' = Inr t" "inv t" "content t = content s'" "pos t = pos s"
    using seek_law [OF s'(1), of "pos s"] by auto
  have "take (length data) (drop (pos s) (splice (pos s) data (content s))) = data" using p by (simp add: splice_def)
  moreover have "pos s < length (content s')" using len assms(4) by (cases data) auto
  ultimately obtain u where "get (length data) t = Inr (data, u)" "inv u" "content u = content s'"
      "pos u = pos s + min (length data) (length (content s') - pos s)"
    using get_law [OF t(2), of "length data"] t(3,4) s'(2) assms(5) by auto
  then show ?thesis using t(1) len s'(2) by auto
qed

end

definition fd_get :: "int \<Rightarrow> nat \<Rightarrow> 'a kern_scheme \<Rightarrow> (byte list \<times> 'a kern_scheme) res" where
  "fd_get fd n s = rbind (sys_read fd n s) (\<lambda>((_, bs, _), s). Inr (bs, s))"

definition fd_put :: "int \<Rightarrow> byte list \<Rightarrow> 'a kern_scheme \<Rightarrow> (bool \<times> 'a kern_scheme) res" where
  "fd_put fd data s = rbind (sys_write fd data s) (\<lambda>((w, _), s). Inr (w \<noteq> -1, s))"

definition fd_seek :: "int \<Rightarrow> nat \<Rightarrow> 'a kern_scheme \<Rightarrow> 'a kern_scheme res" where
  "fd_seek fd p s = rbind (sys_lseek fd (of_nat p) SEEK_SET s) (\<lambda>(_, s). Inr s)"

interpretation fd: positioned_file "regular fd g a" "bytes_of a" "pos_of g" "fd_get fd" "fd_put fd" "fd_seek fd" may_write "2 ^ 61"
  for fd g a
proof (unfold_locales, goal_cases)
  case (1 s n)
  define m where "m = pos_of g s + length (take n (drop (pos_of g s) (bytes_of a s)))"
  have "m \<le> length (bytes_of a s)" using 1(2) by (simp add: m_def)
  then show ?case using sys_read_regular [OF 1(1,3)] 1(2) regular_move [OF 1(1), of m] m_def
    by (auto simp: fd_get_def Let_def min_def)
next
  case (2 s p)
  then show ?case using sys_lseek_regular [OF 2] regular_move [OF 2] by (simp add: fd_seek_def)
next
  case (3 s data s')
  have "for_writing g s"
  proof (rule ccontr)
    assume "\<not> for_writing g s"
    moreover from 3(1) have "fd_local2global fd s = Inr g" "is_pipe fd s = Inr False" "the_file g s = Inr (file_table s ! g)" "3 \<le> fd"
      by (auto elim!: regularE)
    ultimately have "sys_write fd data s = Inr ((-1, None), s)"
      by (simp add: sys_write_def for_writing_def stdout_no_def)
    with 3(3) show False by (simp add: fd_put_def)
  qed
  with 3 show ?case using sys_write_regular [OF 3(1,2)] by (auto simp: fd_put_def split: if_splits)
next
  case (4 s)
  then show ?case by (auto elim!: regularE simp: pos_of_def)
qed

lemma free_slot_Some:
  assumes "get_free_slot_in_global s = int g"
  shows "3 \<le> g" "g < MAX_FILES_OPEN" "fd_inode (file_table s ! g) = 0"
proof -
  from assms have "find (\<lambda>i. fd_inode (file_table s ! i) = 0) [3..<MAX_FILES_OPEN] = Some g"
    by (auto simp: get_free_slot_in_global_def simp del: upt_rec_numeral split: option.splits)
  then obtain i where "i < length [3..<MAX_FILES_OPEN]" "fd_inode (file_table s ! ([3..<MAX_FILES_OPEN] ! i)) = 0" "g = [3..<MAX_FILES_OPEN] ! i"
    by (auto simp only: find_Some_iff)
  then show "3 \<le> g" "g < MAX_FILES_OPEN" "fd_inode (file_table s ! g) = 0" by (simp_all del: upt_rec_numeral)
qed

section \<open>Properties\<close>

text \<open>A thread with descriptor 3 open on the file of 1100 bytes of \<open>demo_fs\<close>.\<close>

definition demo_files :: "kfile list" where
  "demo_files = replicate 3 \<lparr>fd_pos = 0, flag = 0, fd_inode = 0\<rparr> @ [\<lparr>fd_pos = 1100, flag = O_RDWR, fd_inode = 0x2000\<rparr>] @
     replicate 28 \<lparr>fd_pos = 0, flag = 0, fd_inode = 0\<rparr>"

definition demo_kern :: kern where
  "demo_kern = \<lparr>tasks = [1 \<mapsto> (demo_task TASK_RUNNING 1 1)\<lparr>fd_table := [0, 1, 2, 3, -1, -1, -1, -1]\<rparr>,
       2 \<mapsto> demo_task TASK_READY 4 2, 3 \<mapsto> demo_task TASK_BLOCKED 10 3],
     current = 1, main_thread = 1, idle_thread = 3, init_proc = 2,
     all_threads_list = [AllTag 1, AllTag 2, AllTag 3], ready_threads_list = [General 2], intr = intr_off, ist2 = 1, timer_ticks = 0,
     semas = (\<lambda>_. \<lparr>sval = 1, waiters = []\<rparr>), locks = (\<lambda>_. \<lparr>holder = None, holder_repeat_nr = 0\<rparr>),
     pid_bitmap = \<lparr>bytes_len = 128, bits = 7 # replicate 127 0\<rparr>, pages_freed = [],
     kfs = demo_fs, file_table = demo_files, pipes = Map.empty, kbd_buf = demo_queue 0, dirs = Map.empty, console = [],
     kpages = [0x9000, 0xa000, 0xb000, 0xc000], dir_slots = [0x5000]\<rparr>"

lemma demo_files_simps [simp]:
  "length demo_files = 32" "demo_files ! 3 = \<lparr>fd_pos = 1100, flag = O_RDWR, fd_inode = 0x2000\<rparr>"
  "i < 3 \<or> 3 < i \<and> i < 32 \<Longrightarrow> demo_files ! i = \<lparr>fd_pos = 0, flag = 0, fd_inode = 0\<rparr>"
proof -
  assume "i < 3 \<or> 3 < i \<and> i < 32"
  then consider "i < 3" | j where "i = 4 + j" "j < 28" using le_Suc_ex [of 4 i] by fastforce
  then show "demo_files ! i = \<lparr>fd_pos = 0, flag = 0, fd_inode = 0\<rparr>"
    by cases (simp_all add: demo_files_def nth_append)
qed (simp_all add: demo_files_def nth_append)

lemma demo_regular: "regular 3 3 0x2000 demo_kern" "pos_of 3 demo_kern = 1100" "length (bytes_of 0x2000 demo_kern) = 1100"
  "for_writing 3 demo_kern"
proof -
  show "regular 3 3 0x2000 demo_kern" using demo_file
    by (simp add: regular_def fd_slot_def demo_kern_def MAX_FILES_OPEN_def PIPE_FLAG_def O_RDWR_def)
      (simp add: demo_inode_def)
  show "for_writing 3 demo_kern" by (simp add: for_writing_def demo_kern_def O_RDWR_def)
  show "pos_of 3 demo_kern = 1100" by (simp add: pos_of_def demo_kern_def)
  show "length (bytes_of 0x2000 demo_kern) = 1100" using demo_file(1) by (simp add: bytes_of_def demo_kern_def) (simp add: demo_inode_def)
qed

text \<open>
  C23. A descriptor of a regular file is a list of bytes with a position: \<^verbatim>\<open>read\<close> inside the file gives the bytes
  from the position on and advances it by their number, and \<^verbatim>\<open>lseek\<close> moves it; both leave the bytes alone. \<^verbatim>\<open>write\<close>
  replaces the bytes at the position, growing the file, and advances it, or fails because the disk is full - when the
  write stays within the 71680 bytes a file can have and does not cover several blocks and end exactly at the end of
  one. In that last case the descriptor reports success although the last block is lost, as \<open>inode_write_drops_last_block\<close>
  shows, so the file is no list of bytes then.
\<close>
theorem file_calls_refine:
  assumes "regular fd g a s" "pos_of g s < length (bytes_of a s)" "n < 2 ^ 61" "p \<le> length (bytes_of a s)"
    "for_writing g s" "pos_of g s + length data \<le> 71680"
    "(pos_of g s + length data) mod 512 \<noteq> 0 \<or> pos_of g s + length data \<le> 512 * (pos_of g s div 512 + 1)"
  shows "(\<exists>s'. sys_read fd n s = Inr ((of_nat (min n (length (bytes_of a s) - pos_of g s)), take n (drop (pos_of g s) (bytes_of a s)), None), s') \<and>
      regular fd g a s' \<and> bytes_of a s' = bytes_of a s \<and> pos_of g s' = pos_of g s + min n (length (bytes_of a s) - pos_of g s)) \<and>
    (\<exists>s'. sys_lseek fd (of_nat p) SEEK_SET s = Inr (of_nat p, s') \<and>
      regular fd g a s' \<and> bytes_of a s' = bytes_of a s \<and> pos_of g s' = p) \<and>
    (\<exists>w s'. sys_write fd data s = Inr ((w, None), s') \<and>
      (if w = -1 then disk_full (kfs s')
       else w = of_nat (length data) \<and> regular fd g a s' \<and> for_writing g s' \<and> bytes_of a s' = splice (pos_of g s) data (bytes_of a s) \<and>
         pos_of g s' = pos_of g s + length data))"
proof (intro conjI)
  have may: "may_write (pos_of g s) (length data)" using assms(6,7) by (simp add: may_write_def)
  show "\<exists>w s'. sys_write fd data s = Inr ((w, None), s') \<and>
      (if w = -1 then disk_full (kfs s')
       else w = of_nat (length data) \<and> regular fd g a s' \<and> for_writing g s' \<and> bytes_of a s' = splice (pos_of g s) data (bytes_of a s) \<and>
         pos_of g s' = pos_of g s + length data)" by (rule sys_write_regular [OF assms(1) may assms(5)])
  have "pos_of g s + min n (length (bytes_of a s) - pos_of g s) \<le> length (bytes_of a s)" using assms(2) by simp
  from regular_move [OF assms(1) this] show "\<exists>s'. sys_read fd n s = Inr ((of_nat (min n (length (bytes_of a s) - pos_of g s)),
      take n (drop (pos_of g s) (bytes_of a s)), None), s') \<and> regular fd g a s' \<and> bytes_of a s' = bytes_of a s \<and>
      pos_of g s' = pos_of g s + min n (length (bytes_of a s) - pos_of g s)"
    using sys_read_regular [OF assms(1,3)] assms(2) by (simp add: Let_def min.commute)
qed (use sys_lseek_regular [OF assms(1,4)] regular_move [OF assms(1,4)] in simp_all)

theorem file_calls_refine_witness:
  "\<exists>s'. sys_lseek 3 1000 SEEK_SET demo_kern = Inr (1000, s') \<and>
     (\<exists>s''. sys_read 3 50 s' = Inr ((50, take 50 (drop 1000 (bytes_of 0x2000 demo_kern)), None), s'') \<and> pos_of 3 s'' = 1050) \<and>
     (\<exists>w s''. sys_write 3 [7, 8, 9] s' = Inr ((w, None), s'') \<and>
       (if w = -1 then disk_full (kfs s'')
        else w = 3 \<and> bytes_of 0x2000 s'' = splice 1000 [7, 8, 9] (bytes_of 0x2000 demo_kern) \<and> pos_of 3 s'' = 1003))"
proof -
  have "(1000 :: nat) \<le> length (bytes_of 0x2000 demo_kern)" by (simp add: demo_regular)
  note m = regular_move [OF demo_regular(1) this]
  have l: "sys_lseek 3 1000 SEEK_SET demo_kern = Inr (1000, put_file 3 ((file_table demo_kern ! 3)\<lparr>fd_pos := of_nat 1000\<rparr>) demo_kern)"
    using sys_lseek_regular [OF demo_regular(1), of 1000] by (simp add: demo_regular)
  let ?s = "put_file 3 ((file_table demo_kern ! 3)\<lparr>fd_pos := of_nat 1000\<rparr>) demo_kern"
  have w: "for_writing 3 ?s" by (simp add: for_writing_def demo_kern_def O_RDWR_def)
  have "pos_of 3 ?s < length (bytes_of 0x2000 ?s)" "(50 :: nat) < 2 ^ 61" "(0 :: nat) \<le> length (bytes_of 0x2000 ?s)"
    "pos_of 3 ?s + length [7, 8, 9 :: byte] \<le> 71680"
    "(pos_of 3 ?s + length [7, 8, 9 :: byte]) mod 512 \<noteq> 0 \<or> pos_of 3 ?s + length [7, 8, 9 :: byte] \<le> 512 * (pos_of 3 ?s div 512 + 1)"
    unfolding m(2,3) by (simp_all add: demo_regular)
  note r = file_calls_refine [OF m(1) this(1-3) w this(4,5)]
  have len: "min 50 (length (bytes_of 0x2000 demo_kern) - 1000) = 50" by (simp add: demo_regular)
  have e: "length [7, 8, 9 :: byte] = 3" "(of_nat 50 :: u64) = 50" "(of_nat 3 :: u64) = 3" "(1000 :: nat) + 50 = 1050" "(1000 :: nat) + 3 = 1003" by simp_all
  have A: "\<exists>s''. sys_read 3 50 ?s = Inr ((50, take 50 (drop 1000 (bytes_of 0x2000 demo_kern)), None), s'') \<and> pos_of 3 s'' = 1050"
    using conjunct1 [OF r] unfolding m(2,3) len e by blast
  have B: "\<exists>w s''. sys_write 3 [7, 8, 9] ?s = Inr ((w, None), s'') \<and> (if w = -1 then disk_full (kfs s'')
        else w = 3 \<and> bytes_of 0x2000 s'' = splice 1000 [7, 8, 9] (bytes_of 0x2000 demo_kern) \<and> pos_of 3 s'' = 1003)"
    using conjunct2 [OF conjunct2 [OF r]] unfolding m(2,3) e by (elim exE conjE) (intro exI conjI, assumption, simp split: if_splits)
  show ?thesis unfolding l by (intro exI [of _ ?s] conjI refl A B)
qed

text \<open>
  What is written to a file is read back: after a \<^verbatim>\<open>write\<close>, \<^verbatim>\<open>lseek\<close> to where it began and a \<^verbatim>\<open>read\<close> of
  its length give the data, through the descriptor, the inode, its blocks and the sectors of the disk. The \<^verbatim>\<open>write\<close>
  fails only when the disk is full.
\<close>
theorem written_is_read_back:
  assumes "regular fd g a s" "may_write (pos_of g s) (length data)" "data \<noteq> []" "for_writing g s"
  shows "\<exists>w s'. sys_write fd data s = Inr ((w, None), s') \<and>
    (if w = -1 then disk_full (kfs s')
     else \<exists>p t r q u. sys_lseek fd (of_nat (pos_of g s)) SEEK_SET s' = Inr (p, t) \<and>
       sys_read fd (length data) t = Inr ((r, data, q), u) \<and> bytes_of a u = splice (pos_of g s) data (bytes_of a s))"
proof -
  obtain w s' where w: "sys_write fd data s = Inr ((w, None), s')" "w = -1 \<longrightarrow> disk_full (kfs s')"
    using sys_write_regular [OF assms(1,2,4)] by metis
  show ?thesis
  proof (cases "w = -1")
    case False
    then have "fd_put fd data s = Inr (True, s')" using w(1) by (simp add: fd_put_def)
    moreover have "length data < 2 ^ 61" using assms(2) by (simp add: may_write_def)
    ultimately obtain t u where "fd_seek fd (pos_of g s) s' = Inr t" "fd_get fd (length data) t = Inr (data, u)"
        "bytes_of a u = splice (pos_of g s) data (bytes_of a s)"
      using fd.write_seek_read [OF assms(1,2) _ assms(3)] by blast
    then show ?thesis using w False by (force simp: fd_seek_def fd_get_def rbind_eq_Inr)
  qed (use w in auto)
qed

theorem written_is_read_back_witness:
  "\<exists>w s'. sys_write 3 [1, 2, 3] demo_kern = Inr ((w, None), s') \<and>
    (if w = -1 then disk_full (kfs s')
     else \<exists>p t r q u. sys_lseek 3 1100 SEEK_SET s' = Inr (p, t) \<and> sys_read 3 3 t = Inr ((r, [1, 2, 3], q), u) \<and>
       bytes_of 0x2000 u = splice 1100 [1, 2, 3] (bytes_of 0x2000 demo_kern))"
proof -
  have e: "length [1, 2, 3 :: byte] = 3" by simp
  have "may_write (pos_of 3 demo_kern) (length [1, 2, 3 :: byte])" by (simp add: may_write_def demo_regular)
  from written_is_read_back [OF demo_regular(1) this _ demo_regular(4)] show ?thesis by (simp only: demo_regular(2) e of_nat_numeral) simp
qed

text \<open>
  A read at the end of a file moves backwards: \<^verbatim>\<open>sys_read\<close> adds the -1 it returns to the position, so the next
  read of one byte returns the last byte of the file once more. A loop that reads on after -1 never ends.
\<close>
theorem read_at_end_moves_back:
  assumes "regular fd g a s" "pos_of g s = length (bytes_of a s)" "bytes_of a s \<noteq> []"
  shows "\<exists>s' t. sys_read fd 1 s = Inr ((-1, [], None), s') \<and> pos_of g s' = pos_of g s - 1 \<and>
    sys_read fd 1 s' = Inr ((1, [last (bytes_of a s)], None), t)"
proof -
  define p where "p = pos_of g s - 1"
  have p: "p \<le> length (bytes_of a s)" "p < length (bytes_of a s)" "p = length (bytes_of a s) - 1"
    using assms(2,3) by (simp_all add: p_def)
  have "fd_pos (file_table s ! g) - 1 = of_nat p"
  proof (rule word_unat_eq_iff [THEN iffD2])
    have "fd_pos (file_table s ! g) \<noteq> 0" using assms(2,3) by (auto simp: pos_of_def)
    then have "unat (fd_pos (file_table s ! g) - 1) = p" by (simp add: unat_minus_one p_def pos_of_def)
    moreover have "p < 2 ^ 64" using assms(1) p by (auto elim!: regularE)
    ultimately show "unat (fd_pos (file_table s ! g) - 1) = unat (of_nat p :: u64)" by (simp only: unat_of_nat_u64)
  qed
  then have r: "sys_read fd 1 s = Inr ((-1, [], None), put_file g ((file_table s ! g)\<lparr>fd_pos := of_nat p\<rparr>) s)"
    using sys_read_regular [OF assms(1), of 1] assms(2) by simp
  note m = regular_move [OF assms(1) p(1)]
  have "take 1 (drop p (bytes_of a s)) = [last (bytes_of a s)]"
    unfolding p(3) using assms(3) by (cases "bytes_of a s" rule: rev_cases) auto
  then show ?thesis using r sys_read_regular [OF m(1), of 1] m(2,3) p(2)
    by (simp add: Let_def) (simp add: p_def)
qed

theorem read_at_end_moves_back_witness:
  "\<exists>s' t. sys_read 3 1 demo_kern = Inr ((-1, [], None), s') \<and> pos_of 3 s' = 1099 \<and>
    sys_read 3 1 s' = Inr ((1, [last (bytes_of 0x2000 demo_kern)], None), t)"
proof -
  have "bytes_of 0x2000 demo_kern \<noteq> []" using demo_regular(3) by force
  from read_at_end_moves_back [OF demo_regular(1) _ this] show ?thesis by (simp add: demo_regular)
qed

text \<open>
  A program can stop the kernel: \<^verbatim>\<open>read\<close>, \<^verbatim>\<open>write\<close>, \<^verbatim>\<open>lseek\<close> and \<^verbatim>\<open>close\<close> of a descriptor that is not open
  fail the assertion of \<^verbatim>\<open>fd_local2global\<close>; and \<^verbatim>\<open>lseek\<close>, which compares with the number of files of the system
  instead of the process, reads outside the descriptor table for 8 to 32.
\<close>
theorem closed_fd_panics:
  assumes "fd_slot fd (-1) s" "3 \<le> fd" "fd < 8" "tasks s (current s) = Some k" "length (fd_table k) = 8" "8 \<le> fd'" "fd' \<le> 32"
  shows "sys_read fd n s = Inl (Panic ''global_fd >= 0 && global_fd < MAX_FILES_OPEN'') \<and>
    sys_write fd data s = Inl (Panic ''global_fd >= 0 && global_fd < MAX_FILES_OPEN'') \<and>
    sys_lseek fd p wh s = Inl (Panic ''global_fd >= 0 && global_fd < MAX_FILES_OPEN'') \<and>
    sys_close fd s = Inl (Panic ''global_fd >= 0 && global_fd < MAX_FILES_OPEN'') \<and>
    sys_lseek fd' p wh s = Inl (Fault ''fd_table'')"
proof -
  note c = fd_local2global_closed [OF assms(1)]
  have nf: "\<not> nat fd' < 8" using assms(6) by linarith
  have "is_pipe fd s = Inl (Panic ''global_fd >= 0 && global_fd < MAX_FILES_OPEN'')" by (simp add: is_pipe_def c)
  moreover have "fd_local2global fd' s = Inl (Fault ''fd_table'')"
    using assms(4,5) nf by (simp add: fd_local2global_def the_task_def running_thread_def)
  ultimately show ?thesis using c assms(2,3,6,7)
    by (simp add: sys_read_def sys_write_def sys_lseek_def sys_close_def stdout_no_def stderr_no_def MAX_FILES_OPEN_def)
qed

theorem closed_fd_panics_witness:
  "sys_read 4 1 demo_kern = Inl (Panic ''global_fd >= 0 && global_fd < MAX_FILES_OPEN'') \<and>
   sys_lseek 8 0 SEEK_SET demo_kern = Inl (Fault ''fd_table'')"
proof -
  have "fd_slot 4 (-1) demo_kern" by (simp add: fd_slot_def demo_kern_def)
  moreover have "tasks demo_kern (current demo_kern) = Some ((demo_task TASK_RUNNING 1 1)\<lparr>fd_table := [0, 1, 2, 3, -1, -1, -1, -1]\<rparr>)"
    by (simp add: demo_kern_def)
  ultimately show ?thesis using closed_fd_panics [of 4 demo_kern _ 8 1 "[]" 0 SEEK_SET] by simp
qed

text \<open>
  An \<^verbatim>\<open>open\<close> that fails takes a slot for ever: when the process has all of its descriptors in use, \<^verbatim>\<open>sys_open\<close>
  returns -1 but leaves the inode open and in a slot of the table of open files that no descriptor refers to. After
  29 such calls no file can be opened in the whole system.
\<close>
theorem open_leaks_slot:
  assumes "tasks s (current s) = Some k" "\<forall>i \<in> {3..<8}. fd_table k ! i \<noteq> -1" "length (file_table s) = MAX_FILES_OPEN"
    and "oflag AND O_CREAT = 0" "search_file (of_nat (cwd_i_no k)) path False (kfs s) = Inr (Some a, t)"
    and "get_free_slot_in_global s = int g" "a \<noteq> 0"
  shows "\<exists>s'. sys_open path oflag s = Inr (-1, s') \<and> kfs s' = t \<and> tasks s' = tasks s \<and>
    file_table s' = (file_table s)[g := \<lparr>fd_pos = 0, flag = oflag, fd_inode = a\<rparr>] \<and> get_free_slot_in_global s' \<noteq> int g"
proof -
  note g = free_slot_Some [OF assms(6)]
  have oc: "oflag AND O_CREAT \<noteq> O_CREAT" unfolding assms(4) by (simp add: O_CREAT_def)
  have none: "find (\<lambda>i. fd_table k ! i = -1) [3..<MAX_FILES_OPEN_PER_PROC] = None"
    using assms(2) by (simp add: find_None_iff MAX_FILES_OPEN_PER_PROC_def)
  have slot: "get_free_slot_in_global (s\<lparr>kfs := t\<rparr>) = int g" using assms(6) by (simp add: get_free_slot_in_global_def)
  define s' where "s' = put_file g \<lparr>fd_pos = 0, flag = oflag, fd_inode = a\<rparr> (s\<lparr>kfs := t\<rparr>)"
  have "sys_open path oflag s = Inr (-1, s')"
    using assms(1,5) oc slot none
    by (simp add: sys_open_def file_open_def cwd_def the_task_def running_thread_def on_fs_def pcb_fd_install_def Let_def s'_def put_file_def)
  moreover have "get_free_slot_in_global s' \<noteq> int g"
    using assms(3,7) g(2) free_slot_Some(3) [of s' g] by (auto simp: s'_def put_file_def MAX_FILES_OPEN_def)
  ultimately show ?thesis by (auto simp: s'_def put_file_def)
qed

definition demo_busy :: kern where
  "demo_busy = demo_kern\<lparr>kfs := demo_root_fs, tasks := [1 \<mapsto> (demo_task TASK_RUNNING 1 1)\<lparr>fd_table := [0, 1, 2, 3, 3, 3, 3, 3]\<rparr>]\<rparr>"

theorem open_leaks_slot_witness:
  "\<exists>s'. sys_open [0x2f] 0 demo_busy = Inr (-1, s') \<and> fd_inode (file_table s' ! 4) = 0x1000 \<and> get_free_slot_in_global s' \<noteq> 4"
proof -
  have op: "inode_open 0 demo_root_fs = Inr (0x1000, put_inode 0x1000 (root_inode\<lparr>i_open_cnts := 2\<rparr>) demo_root_fs)"
    by (simp add: inode_open_def demo_root_fs_def demo_fs_def root_inode_def the_inode_def)
  have sf: "search_file (of_nat 0) [0x2f] False (kfs demo_busy) = Inr (Some 0x1000, put_inode 0x1000 (root_inode\<lparr>i_open_cnts := 2\<rparr>) demo_root_fs)"
    using op by (simp add: demo_busy_def search_file_def search_loop.simps path_parse_def SLASH_def MAX_FILE_NAME_LEN_def)
  have free: "get_free_slot_in_global demo_busy = int 4"
    by (simp add: get_free_slot_in_global_def MAX_FILES_OPEN_def demo_busy_def demo_kern_def)
  let ?k = "(demo_task TASK_RUNNING 1 1)\<lparr>fd_table := [0, 1, 2, 3, 3, 3, 3, 3]\<rparr>"
  have k: "tasks demo_busy (current demo_busy) = Some ?k" "length (file_table demo_busy) = MAX_FILES_OPEN"
    by (simp_all add: demo_busy_def demo_kern_def MAX_FILES_OPEN_def)
  have "{3..<8} = {3, 4, 5, 6, 7 :: nat}" by auto
  then have full: "\<forall>i \<in> {3..<8}. fd_table ?k ! i \<noteq> -1" by simp
  have sf': "search_file (of_nat (cwd_i_no ?k)) [0x2f] False (kfs demo_busy) =
      Inr (Some 0x1000, put_inode 0x1000 (root_inode\<lparr>i_open_cnts := 2\<rparr>) demo_root_fs)"
    using sf by (simp add: demo_task_def)
  from open_leaks_slot [OF k(1) full k(2) _ sf' free, of 0] obtain s' where
    s': "sys_open [0x2f] 0 demo_busy = Inr (-1, s')" "file_table s' = (file_table demo_busy)[4 := \<lparr>fd_pos = 0, flag = 0, fd_inode = 0x1000\<rparr>]"
    "get_free_slot_in_global s' \<noteq> 4" by auto
  then have "fd_inode (file_table s' ! 4) = 0x1000" using k(2) by (simp add: MAX_FILES_OPEN_def)
  with s' show ?thesis by blast
qed

end
