(* ===== verification/PipeSpec.thy ===== *)
theory PipeSpec
  imports FileSpec
begin

text \<open>
  What the system calls on pipes do: from \<^verbatim>\<open>pipe\<close> over \<^verbatim>\<open>write\<close> and \<^verbatim>\<open>read\<close>, which pass the bytes in order through the
  character queue of theory \<open>IoQueue\<close>, to the two calls of \<^verbatim>\<open>close\<close>; and the write that blocks on its last byte.
\<close>

section \<open>Frames\<close>

lemma more_kern:
  assumes "sched.more s' = sched.more (s :: 'a kern_scheme)"
  shows "file_table s' = file_table s" "pipes s' = pipes s" "kfs s' = kfs s" "kbd_buf s' = kbd_buf s" "console s' = console s"
  using assms by (cases s; cases s'; simp)+

lemma fd_slot_frame:
  assumes "sched_frame s s'" "current s' = current s" "fd_slot fd g s"
  shows "fd_slot fd g s'"
proof -
  obtain k where k: "tasks s (current s) = Some k" "0 \<le> fd" "nat fd < length (fd_table k)" "fd_table k ! nat fd = g"
    using assms(3) by (auto simp: fd_slot_def)
  have "rel_option task_frame (tasks s (current s)) (tasks s' (current s))" using assms(1) by (simp add: sched_frame_def)
  then obtain k' where k': "tasks s' (current s) = Some k'" "task_frame k k'" using k(1) by (auto elim: option.rel_cases)
  have "fd_table k' = fd_table k" using k'(2) by (cases k; cases k') (simp add: task_frame_def)
  then show ?thesis using k k' assms(2) by (simp add: fd_slot_def)
qed

lemma chan_ok_outside [simp]:
  "chan_ok q (s\<lparr>pipes := p\<rparr>) = chan_ok q s" "chan_ok q (s\<lparr>file_table := ft\<rparr>) = chan_ok q s"
  by (simp_all add: chan_ok_def sched_wf_def sched_core_def ready_ok_def waiters_ok_def run_ok_def idle_ok_def tstat_def waiter_ok_def)

lemma chan_ok_put_file [simp]: "chan_ok q (put_file g f s) = chan_ok q s"
  by (simp add: put_file_def)

lemma fd_slot_pipes [simp]: "fd_slot fd g (s\<lparr>pipes := p\<rparr>) = fd_slot fd g s"
  by (simp add: fd_slot_def)

definition same_run :: "'a sched_scheme \<Rightarrow> 'a sched_scheme \<Rightarrow> bool" where
  "same_run s s' \<longleftrightarrow> sched_frame s s' \<and> current s' = current s"

lemma same_run_refl [simp]: "same_run s s"
  by (simp add: same_run_def)

lemma same_run_trans: "same_run s t \<Longrightarrow> same_run t u \<Longrightarrow> same_run s u"
  by (auto simp: same_run_def intro: sched_frame_trans)

lemma same_run_pipes: "same_run s t \<Longrightarrow> same_run (s\<lparr>pipes := p\<rparr>) (t\<lparr>pipes := p\<rparr>)"
  by (cases s; cases t) (simp add: same_run_def sched_frame_def)

section \<open>Runs of characters\<close>

lemma put_chars_spec:
  "chan_ok q s \<Longrightarrow> ioq_length q + length cs \<le> bufsize - 1 \<Longrightarrow>
   \<exists>q' s'. put_chars cs q s = Inr ((length cs, None), q', s') \<and> chan_ok q' s' \<and> contents q' = contents q @ cs \<and>
     producer q' = producer q \<and> qlock q' = qlock q \<and> (consumer q = None \<longrightarrow> consumer q' = None) \<and> same_run s s'"
proof (induction cs arbitrary: q s)
  case (Cons c cs)
  obtain q1 s1 where 1: "ioq_putchar c q s = Inr (Finished (), q1, s1)" "chan_ok q1 s1" "contents q1 = contents q @ [c]"
      "producer q1 = producer q" "qlock q1 = qlock q" "same_run s s1" "consumer q1 = None"
    using putchar_spec [OF Cons.prems(1), of c] Cons.prems(2) by (auto simp: same_run_def)
  have "ioq_length q1 = Suc (ioq_length q)" using arg_cong [OF 1(3), of length] by simp
  then obtain q2 s2 where 2: "put_chars cs q1 s1 = Inr ((length cs, None), q2, s2)" "chan_ok q2 s2"
      "contents q2 = contents q1 @ cs" "producer q2 = producer q1" "qlock q2 = qlock q1" "same_run s1 s2" "consumer q2 = None"
    using Cons.IH [OF 1(2)] Cons.prems(2) 1(7) by auto
  show ?case using 1 2 same_run_trans [OF 1(6) 2(6)] by simp
qed simp

lemma get_chars_spec:
  "chan_ok q s \<Longrightarrow> n \<le> ioq_length q \<Longrightarrow>
   \<exists>q' s'. get_chars n q s = Inr ((take n (contents q), None), q', s') \<and> chan_ok q' s' \<and> contents q' = drop n (contents q) \<and>
     consumer q' = consumer q \<and> qlock q' = qlock q \<and> same_run s s'"
proof (induction n arbitrary: q s)
  case (Suc n)
  obtain c cs where c: "contents q = c # cs" using Suc.prems(2) length_contents [of q] by (cases "contents q") auto
  obtain q1 s1 where 1: "ioq_getchar q s = Inr (Finished c, q1, s1)" "chan_ok q1 s1" "contents q1 = cs"
      "consumer q1 = consumer q" "qlock q1 = qlock q" "same_run s s1"
    using getchar_spec [OF Suc.prems(1) c] by (auto simp: same_run_def)
  have "n \<le> ioq_length q1" using Suc.prems(2) c 1(3) length_contents [of q] length_contents [of q1] by simp
  then obtain q2 s2 where 2: "get_chars n q1 s1 = Inr ((take n (contents q1), None), q2, s2)" "chan_ok q2 s2"
      "contents q2 = drop n (contents q1)" "consumer q2 = consumer q1" "qlock q2 = qlock q1" "same_run s1 s2"
    using Suc.IH [OF 1(2)] by auto
  show ?case using 1 2 c same_run_trans [OF 1(6) 2(6)] by simp
qed simp

lemma put_chars_append:
  "put_chars cs q s = Inr ((n, None), q1, s1) \<Longrightarrow> ioq_putchar c q1 s1 = Inr (Parked p, q2, s2) \<Longrightarrow>
   put_chars (cs @ c # ds) q s = Inr ((n, Some p), q2, s2)"
proof (induction cs arbitrary: q s n)
  case (Cons d cs)
  then obtain r q' s' where r: "ioq_putchar d q s = Inr (r, q', s')" by (auto simp: rbind_eq_Inr)
  then obtain u m where "r = Finished u" "put_chars cs q' s' = Inr ((m, None), q1, s1)" "n = Suc m"
    using Cons.prems(1) by (cases r) (auto simp: rbind_eq_Inr)
  with Cons r show ?case by simp
qed simp

section \<open>Ends of a pipe\<close>

text \<open>Descriptor \<open>fd\<close> is an end of the pipe in slot \<open>g\<close>, whose queue is \<open>q\<close>.\<close>

definition pipe_slot :: "nat \<Rightarrow> ioqueue \<Rightarrow> 'a kern_scheme \<Rightarrow> bool" where
  "pipe_slot g q s \<longleftrightarrow> g < MAX_FILES_OPEN \<and> length (file_table s) = MAX_FILES_OPEN \<and> flag (file_table s ! g) = PIPE_FLAG \<and>
     pipes s (fd_inode (file_table s ! g)) = Some q \<and> chan_ok q s"

lemma pipe_slot_fd:
  assumes "pipe_slot g q s" "fd_slot fd (int g) s"
  shows "fd_local2global fd s = Inr g" "is_pipe fd s = Inr True" "the_file g s = Inr (file_table s ! g)"
    "the_pipe (fd_inode (file_table s ! g)) s = Inr q"
  using assms fd_local2global_ok [OF assms(2)] by (simp_all add: pipe_slot_def is_pipe_def the_file_def the_pipe_def)

lemma pipe_slot_after:
  assumes "pipe_slot g q s" "same_run s s'" "chan_ok q' s'"
  shows "pipe_slot g q' (s'\<lparr>pipes := (pipes s')(fd_inode (file_table s ! g) \<mapsto> q')\<rparr>)"
  using assms more_kern [of s' s] by (simp add: pipe_slot_def same_run_def sched_frame_def)

text \<open>What goes in comes out, through any two descriptors of the slot.\<close>

lemma pipe_write_read:
  assumes "pipe_slot g q s" "fd_slot fdw (int g) s" "fd_slot fdr (int g) s" "fdr = 0 \<or> 3 \<le> fdr"
    and "ioq_length q + length data \<le> bufsize - 1"
  shows "\<exists>q1 s1 s2. sys_write fdw data s = Inr ((of_nat (length data), None), s1) \<and> pipe_slot g q1 s1 \<and>
    contents q1 = contents q @ data \<and> same_run s (s1\<lparr>pipes := pipes s\<rparr>) \<and>
    sys_read fdr (ioq_length q + length data) s1 = Inr ((of_nat (ioq_length q + length data), contents q @ data, None), s2) \<and>
    same_run s (s2\<lparr>pipes := pipes s\<rparr>) \<and> (\<exists>q2. pipe_slot g q2 s2 \<and> contents q2 = [])"
proof -
  let ?p = "fd_inode (file_table s ! g)"
  have ch: "chan_ok q s" using assms(1) by (simp add: pipe_slot_def)
  have fd: "\<not> fdw < 0" "\<not> (fdr < 0 \<or> fdr = stdout_no \<or> fdr = stderr_no)"
    using assms(2,4) by (auto simp: fd_slot_def stdout_no_def stderr_no_def)
  obtain q1 t where q1: "put_chars data q s = Inr ((length data, None), q1, t)" "chan_ok q1 t" "contents q1 = contents q @ data" "same_run s t"
    using put_chars_spec [OF ch assms(5)] by blast
  define s1 where "s1 = t\<lparr>pipes := (pipes t)(?p \<mapsto> q1)\<rparr>"
  have "\<not> bufsize - ioq_length q \<le> length data \<or> length data = bufsize - ioq_length q" using assms(5) by linarith
  then have "take (if length data < bufsize - ioq_length q then length data else bufsize - ioq_length q) data = data" by auto
  then have w: "sys_write fdw data s = Inr ((of_nat (length data), None), s1)"
    using pipe_slot_fd [OF assms(1,2)] fd(1) q1(1) by (simp add: sys_write_def pipe_write_def Let_def s1_def)
  have s1: "pipe_slot g q1 s1" unfolding s1_def by (rule pipe_slot_after [OF assms(1) q1(4,2)])
  have same: "file_table s1 = file_table s" "fd_slot fdr (int g) s1"
    using more_kern [of t s] q1(4) fd_slot_frame [OF _ _ assms(3), of t] by (simp_all add: s1_def same_run_def sched_frame_def)
  have len: "ioq_length q1 = ioq_length q + length data" using arg_cong [OF q1(3), of length] by simp
  have ch1: "chan_ok q1 s1" using s1 by (simp add: pipe_slot_def)
  obtain q2 u where q2: "get_chars (ioq_length q1) q1 s1 = Inr ((take (ioq_length q1) (contents q1), None), q2, u)" "chan_ok q2 u"
      "contents q2 = drop (ioq_length q1) (contents q1)" "same_run s1 u"
    using get_chars_spec [OF ch1, of "ioq_length q1"] by auto
  define s2 where "s2 = u\<lparr>pipes := (pipes u)(?p \<mapsto> q2)\<rparr>"
  have all: "take (ioq_length q1) (contents q1) = contents q @ data" "drop (ioq_length q1) (contents q1) = []"
    using q1(3) by (simp_all add: len)
  have r: "sys_read fdr (ioq_length q + length data) s1 = Inr ((of_nat (ioq_length q + length data), contents q @ data, None), s2)"
    unfolding sys_read_def if_not_P [OF fd(2)]
    using pipe_slot_fd [OF s1 same(2)] same(1) q2(1) all(1) by (simp add: pipe_read_def Let_def len s2_def)
  have s2: "pipe_slot g q2 s2" using pipe_slot_after [OF s1 q2(4,2)] same(1) by (simp add: s2_def)
  have f1: "same_run s (s1\<lparr>pipes := pipes s\<rparr>)"
    using q1(4) by (cases t; cases s) (simp add: same_run_def sched_frame_def s1_def)
  have "same_run s (s2\<lparr>pipes := pipes s\<rparr>)"
    using same_run_trans [OF f1 same_run_pipes [OF q2(4)]] by (simp add: s2_def)
  moreover have "contents q2 = []" using q2(3) all(2) by simp
  ultimately show ?thesis using w s1 q1(3) f1 r s2 by blast
qed

text \<open>Making a pipe.\<close>

definition free_fds :: "task \<Rightarrow> nat list" where
  "free_fds k = filter (\<lambda>i. fd_table k ! i = -1) [3..<MAX_FILES_OPEN_PER_PROC]"

lemma find_filter: "find P xs = (case filter P xs of [] \<Rightarrow> None | x # _ \<Rightarrow> Some x)"
  by (induction xs) simp_all

lemma install_fd:
  assumes "tasks s (current s) = Some k" "free_fds k = i # r" "length (fd_table k) = 8" "0 \<le> g"
  shows "\<exists>k' s'. pcb_fd_install g s = Inr (int i, s') \<and> s' = put_task (current s) k' s \<and> 3 \<le> i \<and> i < 8 \<and>
    k' = k\<lparr>fd_table := (fd_table k)[i := g]\<rparr> \<and> free_fds k' = r \<and> length (fd_table k') = 8"
proof -
  let ?k = "k\<lparr>fd_table := (fd_table k)[i := g]\<rparr>"
  have "i \<in> set (free_fds k)" using assms(2) by simp
  then have i: "3 \<le> i" "i < 8" "fd_table k ! i = -1" by (auto simp: free_fds_def MAX_FILES_OPEN_PER_PROC_def simp del: upt_rec_numeral)
  have run: "pcb_fd_install g s = Inr (int i, put_task (current s) ?k s)"
    using assms(1,2) by (simp add: pcb_fd_install_def the_task_def running_thread_def find_filter free_fds_def)
  have "filter (\<lambda>n. n \<noteq> i) (free_fds k) = r"
  proof -
    have "distinct (free_fds k)" by (simp add: free_fds_def)
    then have "i \<notin> set r" using assms(2) by simp
    then show ?thesis using assms(2) by (simp add: filter_id_conv) (metis)
  qed
  moreover have "free_fds ?k = filter (\<lambda>n. n \<noteq> i) (free_fds k)"
    unfolding free_fds_def filter_filter
    by (intro filter_cong refl) (use assms(3,4) i in \<open>auto simp: nth_list_update MAX_FILES_OPEN_PER_PROC_def simp del: upt_rec_numeral\<close>)
  ultimately show ?thesis using run i assms(3) by (intro exI [of _ ?k] exI [of _ "put_task (current s) ?k s"]) simp
qed

lemma sched_wf_sema_reset:
  assumes "sched_wf s"
  shows "sched_wf (put_sema r \<lparr>sval = v, waiters = []\<rparr> s)"
proof -
  have "waiters (semas (put_sema r \<lparr>sval = v, waiters = []\<rparr> s) q) = (if q = r then [] else waiters (semas s q))" for q by simp
  then have "waiters_ok (put_sema r \<lparr>sval = v, waiters = []\<rparr> s)"
    using sched_coreD(2) [OF sched_wfD(1) [OF assms]] unfolding waiters_ok_def by auto
  with assms show ?thesis by (simp add: sched_wf_def sched_core_def)
qed

lemma sched_wf_fields [simp]:
  "sched_wf (s\<lparr>file_table := ft\<rparr>) = sched_wf s" "sched_wf (s\<lparr>pipes := p\<rparr>) = sched_wf s" "sched_wf (s\<lparr>kpages := kp\<rparr>) = sched_wf s"
  "sched_wf (put_lock l k s) = sched_wf s" "sched_wf (put_file g f s) = sched_wf s"
  by (simp_all add: sched_wf_def sched_core_def ready_ok_def waiters_ok_def run_ok_def idle_ok_def tstat_def put_lock_def put_file_def)

lemma chan_ok_put_task:
  assumes "chan_ok q s" "tasks s t = Some k" "stat k' = stat k"
  shows "chan_ok q (put_task t k' s)"
proof -
  have "tstat (put_task t k' s) = tstat s" using assms(2,3) by (auto simp: tstat_def)
  then show ?thesis using assms(1)
    by (simp add: chan_ok_def sched_wf_def sched_core_def ready_ok_def waiters_ok_def run_ok_def idle_ok_def waiter_ok_def)
qed

lemma sys_pipe_spec:
  assumes "sched_wf s" "intr s = intr_off" "length (file_table s) = MAX_FILES_OPEN" "get_free_slot_in_global s = int g"
    and "kpages s = p # ps" "p \<noteq> 0" "length page = bufsize"
    and "tasks s (current s) = Some k" "length (fd_table k) = 8" "free_fds k = i # j # r"
  shows "\<exists>s' q. sys_pipe page s = Inr ((0, Some (int i, int j)), s') \<and> pipe_slot g q s' \<and> contents q = [] \<and>
    fd_slot (int i) (int g) s' \<and> fd_slot (int j) (int g) s' \<and> i \<noteq> j \<and> 3 \<le> i \<and> 3 \<le> j \<and>
    file_table s' ! g = \<lparr>fd_pos = 2, flag = PIPE_FLAG, fd_inode = p\<rparr> \<and> producer q = None \<and> consumer q = None \<and>
    qlock q = unat p \<and> lock_free (unat p) s' \<and> current s' = current s \<and> idle_thread s' = idle_thread s \<and>
    pages_freed s' = pages_freed s"
proof -
  note g = free_slot_Some [OF assms(4)]
  let ?q = "\<lparr>qlock = unat p, producer = None, consumer = None, buf = page, head = 0, tail = 0\<rparr>"
  define s0 where "s0 = put_file g ((file_table s ! g)\<lparr>fd_inode := p\<rparr>) (s\<lparr>kpages := ps\<rparr>)"
  define s1 where "s1 = put_sema (LockSema (unat p)) \<lparr>sval = 1, waiters = []\<rparr> (put_lock (unat p) \<lparr>holder = None, holder_repeat_nr = 0\<rparr> s0)"
  define s2 where "s2 = put_file g \<lparr>fd_pos = 2, flag = PIPE_FLAG, fd_inode = p\<rparr> (s1\<lparr>pipes := (pipes s1)(p \<mapsto> ?q)\<rparr>)"
  have init: "ioqueue_init (unat p) page s0 = Inr (?q, s1)"
    by (simp add: ioqueue_init_def lock_init_def sema_init_def s1_def)
  have wf: "sched_wf s1" unfolding s1_def by (rule sched_wf_sema_reset) (simp add: s0_def assms(1))
  have ft: "length (file_table s2) = 32" "g < 32" "current s2 = current s" "tasks s2 = tasks s"
    using assms(3) g(2) by (simp_all add: s2_def s1_def s0_def MAX_FILES_OPEN_def put_file_def put_sema_def put_lock_def)
  have ioq: "ioq_ok ?q" "contents ?q = []" using assms(7) by (simp_all add: ioq_ok_def contents_def ioq_length_def bufsize_def)
  have ch: "chan_ok ?q s2" using wf assms(2) ioq(1)
    by (simp add: chan_ok_def s2_def) (simp add: s1_def s0_def put_file_def put_sema_def put_lock_def)
  obtain k1 where k1: "pcb_fd_install (int g) s2 = Inr (int i, put_task (current s) k1 s2)" "3 \<le> i" "i < 8"
      "k1 = k\<lparr>fd_table := (fd_table k)[i := int g]\<rparr>" "free_fds k1 = j # r" "length (fd_table k1) = 8"
    using install_fd [of s2 k i "j # r" "int g"] assms(8-10) ft by auto
  let ?s3 = "put_task (current s) k1 s2"
  obtain k2 where k2: "pcb_fd_install (int g) ?s3 = Inr (int j, put_task (current s) k2 ?s3)" "3 \<le> j" "j < 8"
      "k2 = k1\<lparr>fd_table := (fd_table k1)[j := int g]\<rparr>"
    using install_fd [of ?s3 k1 j r "int g"] k1(5,6) ft by auto
  define s4 where "s4 = put_task (current s) k2 ?s3"
  have "distinct (free_fds k)" by (simp add: free_fds_def)
  then have ij: "i \<noteq> j" using assms(10) by simp
  have run: "sys_pipe page s = Inr ((0, Some (int i, int j)), s4)"
    using assms(3-6) g(2) init k1(1) k2(1)
    by (simp add: sys_pipe_def alloc_page_def the_file_def s0_def [symmetric] s2_def [symmetric] s4_def Let_def)
  have "chan_ok ?q ?s3" by (rule chan_ok_put_task [OF ch, of _ k]) (use assms(8) ft k1(4) in simp_all)
  then have "chan_ok ?q s4" unfolding s4_def by (rule chan_ok_put_task [of _ _ _ k1]) (use ft k2(4) in simp_all)
  moreover have s4: "file_table s4 = file_table s2" "pipes s4 = pipes s2" "tasks s4 (current s) = Some k2" "current s4 = current s"
    using ft(3) by (simp_all add: s4_def put_task_def)
  moreover have slot: "file_table s2 ! g = \<lparr>fd_pos = 2, flag = PIPE_FLAG, fd_inode = p\<rparr>" "pipes s2 p = Some ?q"
    using ft by (simp_all add: s2_def) (simp add: put_file_def)
  ultimately have "pipe_slot g ?q s4" using ft by (simp add: pipe_slot_def MAX_FILES_OPEN_def)
  moreover have "fd_slot (int i) (int g) s4" "fd_slot (int j) (int g) s4"
    using s4 k1 k2 assms(9) ij by (simp_all add: fd_slot_def)
  moreover have "lock_free (unat p) s4" by (simp add: lock_free_def s4_def s2_def s1_def put_task_def put_file_def put_sema_def put_lock_def)
  moreover have "idle_thread s4 = idle_thread s" "pages_freed s4 = pages_freed s"
    by (simp_all add: s4_def s2_def s1_def s0_def put_task_def put_file_def put_sema_def put_lock_def)
  ultimately show ?thesis using run s4 slot ioq(2) ij k1(2) k2(2)
    by (intro exI [of _ s4] exI [of _ ?q]) simp
qed

lemma sys_close_pipe:
  assumes "pipe_slot g q s" "fd_slot fd (int g) s" "3 \<le> fd" "file_table s ! g = \<lparr>fd_pos = n, flag = PIPE_FLAG, fd_inode = p\<rparr>"
  shows "\<exists>s'. sys_close fd s = Inr (if n = 1 then 0 else -1, s') \<and> fd_slot fd (-1) s' \<and> current s' = current s \<and>
    (\<forall>fd' v. fd' \<noteq> fd \<longrightarrow> fd_slot fd' v s \<longrightarrow> fd_slot fd' v s') \<and>
    file_table s' = (file_table s)[g := \<lparr>fd_pos = n - 1, flag = PIPE_FLAG, fd_inode = (if n = 1 then 0 else p)\<rparr>] \<and>
    pipes s' = (if n = 1 then (pipes s)(p := None) else pipes s) \<and>
    pages_freed s' = (if n = 1 then unat p # pages_freed s else pages_freed s) \<and>
    (n \<noteq> 1 \<longrightarrow> pipe_slot g q s')"
proof -
  obtain k where k: "tasks s (current s) = Some k" "0 \<le> fd" "nat fd < length (fd_table k)" "fd_table k ! nat fd = int g"
    using assms(2) by (auto simp: fd_slot_def)
  let ?k = "k\<lparr>fd_table := (fd_table k)[nat fd := -1]\<rparr>"
  define s1 where "s1 = put_file g \<lparr>fd_pos = n - 1, flag = PIPE_FLAG, fd_inode = (if n = 1 then 0 else p)\<rparr>
    (if n = 1 then s\<lparr>pipes := (pipes s)(p := None), pages_freed := unat p # pages_freed s\<rparr> else s)"
  have s1: "tasks s1 = tasks s" "current s1 = current s" by (simp_all add: s1_def put_file_def)
  have run: "sys_close fd s = Inr (if n = 1 then 0 else -1, put_task (current s) ?k s1)"
    using pipe_slot_fd [OF assms(1,2)] assms(3,4) k(1)
    by (cases "n = 1") (simp_all add: sys_close_def set_fd_def running_thread_def the_task_def s1_def put_file_def)
  have other: "fd_slot fd' v s \<longrightarrow> fd_slot fd' v (put_task (current s) ?k s1)" if "fd' \<noteq> fd" for fd' v
    using that k s1 by (auto simp: fd_slot_def nth_list_update nat_eq_iff)
  have slot: "pipe_slot g q (put_task (current s) ?k s1)" if "n \<noteq> 1"
  proof -
    have "chan_ok q s" using assms(1) by (simp add: pipe_slot_def)
    then have "chan_ok q s1" using that by (simp add: s1_def)
    then have "chan_ok q (put_task (current s) ?k s1)" by (rule chan_ok_put_task) (use k(1) s1 in simp_all)
    then show ?thesis using assms(1,4) that by (simp add: pipe_slot_def s1_def put_task_def) (simp add: put_file_def)
  qed
  show ?thesis using run k s1 other slot
    by (intro exI [of _ "put_task (current s) ?k s1"]) (simp add: fd_slot_def, simp add: s1_def put_task_def put_file_def)
qed

section \<open>Properties\<close>

text \<open>
  C24. A pipe carries bytes: \<^verbatim>\<open>pipe\<close> gives two descriptors of one new queue; up to 2047 bytes written to one of them
  are taken without waiting and read from the other in the order they were written. The first \<^verbatim>\<open>close\<close> of an end
  returns -1 although it closes the descriptor (its place in \<^verbatim>\<open>fd_table\<close> is -1 then and the other end stays open); the
  second returns 0, closes the other descriptor, gives the page back, once, and frees the slot.
\<close>
theorem pipe_carries_data:
  assumes "sched_wf s" "intr s = intr_off" "length (file_table s) = MAX_FILES_OPEN" "get_free_slot_in_global s = int g"
    and "kpages s = p # ps" "p \<noteq> 0" "length page = bufsize"
    and "tasks s (current s) = Some k" "length (fd_table k) = 8" "free_fds k = i # j # r" "length data \<le> bufsize - 1"
  shows "\<exists>s1 s2 s3 s4 s5. sys_pipe page s = Inr ((0, Some (int i, int j)), s1) \<and>
    sys_write (int j) data s1 = Inr ((of_nat (length data), None), s2) \<and>
    sys_read (int i) (length data) s2 = Inr ((of_nat (length data), data, None), s3) \<and>
    sys_close (int j) s3 = Inr (-1, s4) \<and> pages_freed s4 = pages_freed s \<and>
    current s4 = current s \<and> fd_slot (int j) (-1) s4 \<and> fd_slot (int i) (int g) s4 \<and>
    sys_close (int i) s4 = Inr (0, s5) \<and> current s5 = current s \<and>
    fd_slot (int j) (-1) s5 \<and> fd_slot (int i) (-1) s5 \<and> pages_freed s5 = unat p # pages_freed s \<and> pipes s5 p = None \<and>
    fd_inode (file_table s5 ! g) = 0"
proof -
  obtain s1 q where s1: "sys_pipe page s = Inr ((0, Some (int i, int j)), s1)" "pipe_slot g q s1" "contents q = []"
      "fd_slot (int i) (int g) s1" "fd_slot (int j) (int g) s1" "i \<noteq> j" "3 \<le> i" "3 \<le> j"
      "file_table s1 ! g = \<lparr>fd_pos = 2, flag = PIPE_FLAG, fd_inode = p\<rparr>" "pages_freed s1 = pages_freed s"
      "current s1 = current s"
    using sys_pipe_spec [OF assms(1-10)] by blast
  have "ioq_length q = 0" using arg_cong [OF s1(3), of length] by simp
  then obtain s2 s3 q3 where rw: "sys_write (int j) data s1 = Inr ((of_nat (length data), None), s2)"
      "sys_read (int i) (length data) s2 = Inr ((of_nat (length data), data, None), s3)"
      "same_run s1 (s3\<lparr>pipes := pipes s1\<rparr>)" "pipe_slot g q3 s3"
    using pipe_write_read [OF s1(2,5,4), of data] s1(3,7) assms(11) by auto
  have fr: "sched_frame s1 (s3\<lparr>pipes := pipes s1\<rparr>)" "current (s3\<lparr>pipes := pipes s1\<rparr>) = current s1"
    using rw(3) by (simp_all add: same_run_def)
  have fds: "fd_slot (int i) (int g) s3" "fd_slot (int j) (int g) s3"
    using fd_slot_frame [OF fr s1(4)] fd_slot_frame [OF fr s1(5)] by simp_all
  have ft: "file_table s3 ! g = \<lparr>fd_pos = 2, flag = PIPE_FLAG, fd_inode = p\<rparr>" "pages_freed s3 = pages_freed s"
    using more_kern(1) [of "s3\<lparr>pipes := pipes s1\<rparr>" s1] fr(1) s1(9,10) by (simp_all add: sched_frame_def)
  obtain s4 where s4: "sys_close (int j) s3 = Inr (-1, s4)" "fd_slot (int i) (int g) s4"
      "file_table s4 = (file_table s3)[g := \<lparr>fd_pos = 1, flag = PIPE_FLAG, fd_inode = p\<rparr>]" "pages_freed s4 = pages_freed s3" "pipe_slot g q3 s4"
      "fd_slot (int j) (-1) s4" "current s4 = current s3"
    using sys_close_pipe [OF rw(4) fds(2) _ ft(1)] s1(6,8) fds(1) by auto
  have "g < length (file_table s3)" using rw(4) by (simp add: pipe_slot_def)
  then have ft4: "file_table s4 ! g = \<lparr>fd_pos = 1, flag = PIPE_FLAG, fd_inode = p\<rparr>" "g < length (file_table s4)" unfolding s4(3) by simp_all
  obtain s5 where "sys_close (int i) s4 = Inr (0, s5)" "file_table s5 = (file_table s4)[g := \<lparr>fd_pos = 0, flag = PIPE_FLAG, fd_inode = 0\<rparr>]"
      "pipes s5 = (pipes s4)(p := None)" "pages_freed s5 = unat p # pages_freed s4"
      "fd_slot (int j) (-1) s5" "fd_slot (int i) (-1) s5" "current s5 = current s4"
    using sys_close_pipe [OF s4(5,2) _ ft4(1)] s1(6,7) s4(6) by auto
  then show ?thesis using s1(1,11) rw(1,2) s4(1,2,4,6,7) ft(2) ft4(2) fr(2) by auto
qed

definition demo_page :: "byte list" where "demo_page = replicate 2048 0"

lemma demo_kern_wf: "sched_wf demo_kern"
  by (auto simp: sched_wf_def sched_core_def ready_ok_def waiters_ok_def run_ok_def idle_ok_def
      tstat_def demo_kern_def demo_task_def split: if_splits)

lemma demo_free:
  "get_free_slot_in_global demo_kern = int 4" "kpages demo_kern = 0x9000 # [0xa000, 0xb000, 0xc000]"
  "tasks demo_kern (current demo_kern) = Some ((demo_task TASK_RUNNING 1 1)\<lparr>fd_table := [0, 1, 2, 3, -1, -1, -1, -1]\<rparr>)"
  "free_fds ((demo_task TASK_RUNNING 1 1)\<lparr>fd_table := [0, 1, 2, 3, -1, -1, -1, -1]\<rparr>) = 4 # 5 # [6, 7]"
  "intr demo_kern = intr_off" "length (file_table demo_kern) = MAX_FILES_OPEN" "pages_freed demo_kern = []"
  "length demo_page = bufsize"
  by (simp_all add: get_free_slot_in_global_def demo_kern_def MAX_FILES_OPEN_def free_fds_def MAX_FILES_OPEN_PER_PROC_def
      demo_page_def bufsize_def)

theorem pipe_carries_data_witness:
  "\<exists>s1 s2 s3 s4 s5. sys_pipe demo_page demo_kern = Inr ((0, Some (4, 5)), s1) \<and>
    sys_write 5 [1, 2, 3] s1 = Inr ((3, None), s2) \<and> sys_read 4 3 s2 = Inr ((3, [1, 2, 3], None), s3) \<and>
    sys_close 5 s3 = Inr (-1, s4) \<and> fd_slot 5 (-1) s4 \<and> fd_slot 4 4 s4 \<and>
    sys_close 4 s4 = Inr (0, s5) \<and> fd_slot 4 (-1) s5 \<and> pages_freed s5 = [0x9000]"
proof -
  have "length [1, 2, 3 :: byte] \<le> bufsize - 1" "(0x9000 :: u64) \<noteq> 0"
    "length (fd_table ((demo_task TASK_RUNNING 1 1)\<lparr>fd_table := [0, 1, 2, 3, -1, -1, -1, -1]\<rparr>)) = 8"
    by (simp_all add: bufsize_def)
  note w = pipe_carries_data [OF demo_kern_wf demo_free(5,6,1,2) this(2) demo_free(8,3) this(3) demo_free(4) this(1), unfolded demo_free(7)]
  have "length [1, 2, 3 :: byte] = 3" "(of_nat 3 :: u64) = 3" "int 4 = 4" "int 5 = 5" "unat (0x9000 :: u64) = 0x9000" by simp_all
  from w [unfolded this] show ?thesis by blast
qed

text \<open>
  A write that fits the pipe exactly blocks: \<^verbatim>\<open>pipe_write\<close> takes the room to be 2048 bytes less the bytes queued,
  but one place of the ring stays empty, so a write of at least that many bytes puts all but the last and then
  sleeps in the kernel until somebody reads. A process alone with its pipe never wakes up.
\<close>
theorem pipe_write_blocks:
  assumes "pipe_slot g q s" "fd_slot fd (int g) s" "producer q = None" "consumer q = None" "lock_free (qlock q) s"
    and "current s \<noteq> idle_thread s" "bufsize - ioq_length q \<le> length data"
  shows "\<exists>s'. sys_write fd data s = Inr ((of_nat (bufsize - 1 - ioq_length q), Some OnQueue), s') \<and>
    tstat s' (current s) = Some TASK_BLOCKED"
proof -
  define n where "n = bufsize - 1 - ioq_length q"
  have ch: "chan_ok q s" using assms(1) by (simp add: pipe_slot_def)
  have less: "ioq_length q < bufsize" using ioq_length_less [of q] ch by (simp add: chan_ok_def)
  have n: "bufsize - ioq_length q = Suc n" using less by (simp add: n_def bufsize_def)
  have "n < length data" using n assms(7) by simp
  then have split: "take (Suc n) data = take n data @ data ! n # []" by (simp add: take_Suc_conv_app_nth)
  have len: "length (take n data) = n" using n assms(7) by simp
  obtain q1 s1 where 1: "put_chars (take n data) q s = Inr ((n, None), q1, s1)" "chan_ok q1 s1" "contents q1 = contents q @ take n data"
      "producer q1 = None" "qlock q1 = qlock q" "consumer q1 = None" "same_run s s1"
    using put_chars_spec [OF ch, of "take n data"] len less assms(3,4) by (auto simp: n_def)
  have "ioq_length q1 = bufsize - 1" using arg_cong [OF 1(3), of length] len less by (simp add: n_def)
  moreover have "lock_free (qlock q1) s1" "current s1 = current s" "current s1 \<noteq> idle_thread s1"
    using assms(5,6) 1(5,7) by (simp_all add: same_run_def lock_free_def sched_frame_def)
  ultimately obtain s2 where 2: "ioq_putchar (data ! n) q1 s1 = Inr (Parked OnQueue, q1\<lparr>producer := Some (current s1)\<rparr>, s2)"
      "tstat s2 (current s) = Some TASK_BLOCKED"
    using putchar_parks [OF 1(2) _ 1(4,6), of "data ! n"] by auto
  have "put_chars (take (Suc n) data) q s = Inr ((n, Some OnQueue), q1\<lparr>producer := Some (current s1)\<rparr>, s2)"
    unfolding split by (rule put_chars_append [OF 1(1) 2(1)])
  moreover have nl: "\<not> length data < Suc n" using assms(7) n by simp
  ultimately have "pipe_write fd data s = Inr ((n, Some OnQueue), s2\<lparr>pipes := (pipes s2)(fd_inode (file_table s ! g) \<mapsto> q1\<lparr>producer := Some (current s1)\<rparr>)\<rparr>)"
    using pipe_slot_fd [OF assms(1,2)] by (simp add: pipe_write_def n Let_def)
  moreover have "\<not> fd < 0" using assms(2) by (auto simp: fd_slot_def)
  ultimately show ?thesis using pipe_slot_fd(2) [OF assms(1,2)] 2(2)
    by (simp add: sys_write_def tstat_def) (simp add: n_def)
qed

theorem pipe_write_blocks_witness:
  "\<exists>s1 s2. sys_pipe demo_page demo_kern = Inr ((0, Some (4, 5)), s1) \<and>
    sys_write 5 (replicate 2048 7) s1 = Inr ((2047, Some OnQueue), s2) \<and> tstat s2 1 = Some TASK_BLOCKED"
proof -
  have k: "(0x9000 :: u64) \<noteq> 0" "length (fd_table ((demo_task TASK_RUNNING 1 1)\<lparr>fd_table := [0, 1, 2, 3, -1, -1, -1, -1]\<rparr>)) = 8"
    by simp_all
  have cur: "current demo_kern = 1" "idle_thread demo_kern = 3" by (simp_all add: demo_kern_def)
  obtain s1 q where s1: "sys_pipe demo_page demo_kern = Inr ((0, Some (int 4, int 5)), s1)" "pipe_slot 4 q s1" "contents q = []"
      "fd_slot (int 5) (int 4) s1" "producer q = None" "consumer q = None" "lock_free (qlock q) s1" "current s1 = 1" "idle_thread s1 = 3"
    using sys_pipe_spec [OF demo_kern_wf demo_free(5,6,1,2) k(1) demo_free(8,3) k(2) demo_free(4)] cur by auto
  have l: "ioq_length q = 0" using arg_cong [OF s1(3), of length] by simp
  have "current s1 \<noteq> idle_thread s1" "bufsize - ioq_length q \<le> length (replicate 2048 (7 :: byte))"
    using s1(8,9) by (simp_all add: bufsize_def)
  from pipe_write_blocks [OF s1(2,4-7) this] show ?thesis using s1(1,8) l by (auto simp: bufsize_def)
qed

end
