(* ===== verification/Keyboard.thy ===== *)
theory Keyboard
  imports IoQueue
begin

text \<open>
  The keyboard driver (\<^verbatim>\<open>device/keyboard.c\<close>): the handler of interrupt 0x21 reads one scan code, tracks the
  modifier keys and puts the character typed into the character queue \<^verbatim>\<open>kbd_buf\<close>. The argument \<open>code\<close> is what
  \<^verbatim>\<open>inb\<close> returns; the message for an unknown key is left out.
\<close>

section \<open>State and tables\<close>

record kbd =
  ctrl_status :: bool
  shift_status :: bool
  alt_status :: bool
  caps_lock_status :: bool
  ext_scancode :: bool

definition shift_l_make :: u16 where "shift_l_make = 0x2a"
definition shift_r_make :: u16 where "shift_r_make = 0x36"
definition alt_l_make :: u16 where "alt_l_make = 0x38"
definition alt_r_make :: u16 where "alt_r_make = 0xe038"
definition ctrl_l_make :: u16 where "ctrl_l_make = 0x1d"
definition ctrl_r_make :: u16 where "ctrl_r_make = 0xe01d"
definition caps_lock_make :: u16 where "caps_lock_make = 0x3a"

text \<open>The characters of the make codes 0x00 to 0x3a, without and with shift; 0 for a key that types nothing.\<close>

definition keymap :: "(byte \<times> byte) list" where
  "keymap = [
    (0, 0), (27, 27), (49, 33), (50, 64), (51, 35), (52, 36), (53, 37), (54, 94),
    (55, 38), (56, 42), (57, 40), (48, 41), (45, 95), (61, 43), (8, 8), (9, 9),
    (113, 81), (119, 87), (101, 69), (114, 82), (116, 84), (121, 89), (117, 85), (105, 73),
    (111, 79), (112, 80), (91, 123), (93, 125), (13, 13), (0, 0), (97, 65), (115, 83),
    (100, 68), (102, 70), (103, 71), (104, 72), (106, 74), (107, 75), (108, 76), (59, 58),
    (39, 34), (96, 126), (0, 0), (92, 124), (122, 90), (120, 88), (99, 67), (118, 86),
    (98, 66), (110, 78), (109, 77), (44, 60), (46, 62), (47, 63), (0, 0), (42, 42),
    (0, 0), (32, 32), (0, 0)]"

section \<open>The handler\<close>

text \<open>The keys with two symbols, which shift alone selects; the others follow caps lock as well.\<close>

definition two_symbols :: "u16 \<Rightarrow> bool" where
  "two_symbols c \<longleftrightarrow> c < 0x0e \<or> c = 0x29 \<or> c = 0x1a \<or> c = 0x1b \<or> c = 0x2b \<or> c = 0x27 \<or> c = 0x28 \<or> c = 0x33 \<or>
     c = 0x34 \<or> c = 0x35"

definition use_shift :: "u16 \<Rightarrow> kbd \<Rightarrow> bool" where
  "use_shift c k =
     (if two_symbols c then shift_status k
      else if shift_status k \<and> caps_lock_status k then False
      else if shift_status k \<or> caps_lock_status k then True
      else False)"

text \<open>A key that is released: \<open>make_code\<close> is its make code.\<close>

definition key_up :: "u16 \<Rightarrow> kbd \<Rightarrow> kbd" where
  "key_up make_code k =
     (if make_code = ctrl_l_make \<or> make_code = ctrl_r_make then k\<lparr>ctrl_status := False\<rparr>
      else if make_code = shift_l_make \<or> make_code = shift_r_make then k\<lparr>shift_status := False\<rparr>
      else if make_code = alt_l_make \<or> make_code = alt_r_make then k\<lparr>alt_status := False\<rparr>
      else k)"

text \<open>A key that types nothing and is pressed.\<close>

definition modifier_down :: "u16 \<Rightarrow> kbd \<Rightarrow> kbd" where
  "modifier_down scancode k =
     (if scancode = ctrl_l_make \<or> scancode = ctrl_r_make then k\<lparr>ctrl_status := True\<rparr>
      else if scancode = shift_l_make \<or> scancode = shift_r_make then k\<lparr>shift_status := True\<rparr>
      else if scancode = alt_l_make \<or> scancode = alt_r_make then k\<lparr>alt_status := True\<rparr>
      else if scancode = caps_lock_make then k\<lparr>caps_lock_status := \<not> caps_lock_status k\<rparr>
      else k)"

text \<open>The character of a key with the short-cuts ctrl-l, ctrl-u and ctrl-c; \<open>index\<close> is the low byte of the scan code.\<close>

definition key_char :: "u16 \<Rightarrow> kbd \<Rightarrow> byte res" where
  "key_char scancode k =
     (let index = unat (scancode AND 0x00ff) in
      if index < length keymap then
        let c = (if use_shift scancode k then snd (keymap ! index) else fst (keymap ! index)) in
        Inr (if ctrl_status k \<and> (c = 0x6c \<or> c = 0x75 \<or> c = 0x63) then c - 0x61 else c)
      else Inl (Fault ''keymap''))"

definition intr_keyboard_hdl :: "byte \<Rightarrow> kbd \<Rightarrow> ioqueue \<Rightarrow> 'a sched_scheme \<Rightarrow> (kbd \<times> ioqueue \<times> 'a sched_scheme) res" where
  "intr_keyboard_hdl code k q s =
     (if code = 0xe0 then Inr (k\<lparr>ext_scancode := True\<rparr>, q, s)
      else
        let scancode = (if ext_scancode k then 0xe000 OR ucast code else ucast code) :: u16;
            k = k\<lparr>ext_scancode := False\<rparr> in
        if scancode AND 0x0080 \<noteq> 0 then Inr (key_up (scancode AND 0xff7f) k, q, s)
        else if (0 < scancode \<and> scancode < 0x3b) \<or> scancode = alt_r_make \<or> scancode = ctrl_r_make then
          rbind (key_char scancode k) (\<lambda>cur_char.
          if cur_char \<noteq> 0 then
            rbind (ioq_full q s) (\<lambda>full.
            if \<not> full then rbind (ioq_putchar cur_char q s) (\<lambda>(_, q, s). Inr (k, q, s))
            else Inr (k, q, s))
          else Inr (modifier_down (scancode AND 0x00ff) k, q, s))
        else Inr (k, q, s))"

definition keyboard_init :: "lock_id \<Rightarrow> byte list \<Rightarrow> 'a sched_scheme \<Rightarrow> (ioqueue \<times> 'a sched_scheme) res" where
  "keyboard_init l mem s = ioqueue_init l mem s"

section \<open>Properties\<close>

text \<open>
  What a key should type: a letter is capital exactly if one of shift and caps lock is on, another key gives its
  upper symbol with shift; ctrl with l, u or c gives a control code.
\<close>

definition letter :: "byte \<Rightarrow> bool" where
  "letter c \<longleftrightarrow> 0x61 \<le> c \<and> c \<le> 0x7a"

definition typed :: "byte \<times> byte \<Rightarrow> bool \<Rightarrow> bool \<Rightarrow> bool \<Rightarrow> byte" where
  "typed key shift caps ctrl =
     (let c = (if letter (fst key) then if shift \<noteq> caps then fst key - 0x20 else fst key
               else if shift then snd key else fst key) in
      if ctrl \<and> (c = 0x6c \<or> c = 0x75 \<or> c = 0x63) then c - 0x61 else c)"

definition key_state :: "bool \<Rightarrow> bool \<Rightarrow> bool \<Rightarrow> kbd" where
  "key_state shift caps ctrl =
     \<lparr>ctrl_status = ctrl, shift_status = shift, alt_status = False, caps_lock_status = caps, ext_scancode = False\<rparr>"

lemma key_char_state: "key_char c k = key_char c (key_state (shift_status k) (caps_lock_status k) (ctrl_status k))"
proof -
  let ?k = "key_state (shift_status k) (caps_lock_status k) (ctrl_status k)"
  have "use_shift c ?k = use_shift c k" "ctrl_status ?k = ctrl_status k" by (simp_all add: use_shift_def key_state_def)
  then show ?thesis by (simp only: key_char_def)
qed

lemma typed_table:
  "list_all (\<lambda>n. list_all (\<lambda>(sh, cl, ct).
      fst (keymap ! n) = 0 \<or> key_char (of_nat n) (key_state sh cl ct) = Inr (typed (keymap ! n) sh cl ct) \<and> typed (keymap ! n) sh cl ct \<noteq> 0)
    [(False, False, False), (False, False, True), (False, True, False), (False, True, True),
     (True, False, False), (True, False, True), (True, True, False), (True, True, True)]) [1..<59]"
  by code_simp

lemma typed_char:
  assumes "0 < code" "code < 0x3b" "fst (keymap ! unat (code :: byte)) \<noteq> 0"
  shows "key_char (ucast code) k = Inr (typed (keymap ! unat code) (shift_status k) (caps_lock_status k) (ctrl_status k))"
    "typed (keymap ! unat code) (shift_status k) (caps_lock_status k) (ctrl_status k) \<noteq> 0"
proof -
  have "0 < unat code" "unat code < 59" using assms(1,2) by (simp_all add: word_less_nat_alt)
  then have n: "unat code \<in> set [1..<59]" by simp
  have c: "(of_nat (unat code) :: u16) = ucast code" by simp
  have "key_char (ucast code) (key_state sh cl ct) = Inr (typed (keymap ! unat code) sh cl ct) \<and> typed (keymap ! unat code) sh cl ct \<noteq> 0"
    for sh cl ct
    using typed_table [unfolded list_all_iff, THEN bspec, OF n, THEN bspec, of "(sh, cl, ct)"] assms(3)
    unfolding c by (cases sh; cases cl; cases ct) auto
  then show "key_char (ucast code) k = Inr (typed (keymap ! unat code) (shift_status k) (caps_lock_status k) (ctrl_status k))"
    "typed (keymap ! unat code) (shift_status k) (caps_lock_status k) (ctrl_status k) \<noteq> 0"
    by (simp_all add: key_char_state [of _ k])
qed

lemma make_code:
  assumes "0 < code" "code < (0x3b :: byte)"
  shows "code \<noteq> 0xe0" "(ucast code :: u16) AND 0x80 = 0" "0 < (ucast code :: u16)" "(ucast code :: u16) < 0x3b"
proof -
  have n: "unat code \<in> set [1..<59]" using assms by (simp add: word_less_nat_alt)
  have "list_all (\<lambda>n. (of_nat n :: u16) AND 0x80 = 0 \<and> 0 < (of_nat n :: u16) \<and> (of_nat n :: u16) < 0x3b) [1..<59]" by code_simp
  then have "(of_nat (unat code) :: u16) AND 0x80 = 0 \<and> 0 < (of_nat (unat code) :: u16) \<and> (of_nat (unat code) :: u16) < 0x3b"
    using n unfolding list_all_iff by blast
  then show "(ucast code :: u16) AND 0x80 = 0" "0 < (ucast code :: u16)" "(ucast code :: u16) < 0x3b" by simp_all
  show "code \<noteq> 0xe0" using assms(2) by auto
qed

text \<open>
  The keyboard types what the keys say: for every key with a character, pressed alone or with shift, caps lock or
  ctrl, the handler appends the right character to the queue and leaves the modifiers alone, waking the reader that
  waits; when the queue is full the key is dropped and nothing else happens.
\<close>
theorem keyboard_types_characters:
  assumes "chan_ok q s" "\<not> ext_scancode k" "0 < code" "code < 0x3b" "fst (keymap ! unat code) \<noteq> 0"
  shows "\<exists>q' s'. intr_keyboard_hdl code k q s = Inr (k, q', s') \<and> chan_ok q' s' \<and>
    (if ioq_length q < bufsize - 1
     then contents q' = contents q @ [typed (keymap ! unat code) (shift_status k) (caps_lock_status k) (ctrl_status k)] \<and>
       ready_threads_list s' = (case consumer q of None \<Rightarrow> [] | Some t \<Rightarrow> [General t]) @ ready_threads_list s
     else q' = q \<and> s' = s)"
proof -
  let ?c = "typed (keymap ! unat code) (shift_status k) (caps_lock_status k) (ctrl_status k)"
  note mk = make_code [OF assms(3,4)] and ch = typed_char [OF assms(3-5), of k]
  have k: "k\<lparr>ext_scancode := False\<rparr> = k" using assms(2) by (cases k) simp
  have ok: "ioq_ok q" "intr s = intr_off" using assms(1) by (simp_all add: chan_ok_def)
  have "ioq_length q \<le> bufsize - 1" using ok(1) by (auto simp: ioq_ok_def ioq_length_def bufsize_def)
  then have full: "ioq_full q s = Inr (\<not> ioq_length q < bufsize - 1)"
    using full_iff [OF ok(1)] ok(2) by (auto simp: ioq_full_def)
  have run: "intr_keyboard_hdl code k q s = rbind (ioq_full q s) (\<lambda>full.
      if \<not> full then rbind (ioq_putchar ?c q s) (\<lambda>(_, q, s). Inr (k, q, s)) else Inr (k, q, s))"
    using mk assms(2) unfolding intr_keyboard_hdl_def Let_def k by (simp add: ch)
  show ?thesis
  proof (cases "ioq_length q < bufsize - 1")
    case True
    then show ?thesis using putchar_spec [OF assms(1) True, of ?c] run full by auto
  next
    case False
    then show ?thesis using run full assms(1) by simp
  qed
qed

theorem keyboard_types_characters_witness:
  "\<exists>q' s'. intr_keyboard_hdl 0x1e (key_state True False False) (demo_queue 0) demo_off = Inr (key_state True False False, q', s') \<and>
    contents q' = [0x41]"
proof -
  have pre: "\<not> ext_scancode (key_state True False False)" "0 < (0x1e :: byte)" "(0x1e :: byte) < 0x3b"
    "fst (keymap ! unat (0x1e :: byte)) \<noteq> 0"
    by (simp_all add: key_state_def keymap_def)
  have len: "ioq_length (demo_queue 0) < bufsize - 1" by (simp add: ioq_length_def demo_queue_def bufsize_def)
  have ch: "typed (keymap ! unat (0x1e :: byte)) True False False = 0x41" by (simp add: keymap_def typed_def letter_def)
  have st: "shift_status (key_state True False False)" "\<not> caps_lock_status (key_state True False False)"
    "\<not> ctrl_status (key_state True False False)" by (simp_all add: key_state_def)
  show ?thesis using keyboard_types_characters [OF demo_chan(1) [of 0] pre, unfolded if_P [OF len]] demo_chan(2) [of 0] st ch
    by auto
qed

end
