(* ===== verification/Timer.thy ===== *)
theory Timer
  imports Sched
begin

text \<open>
  The timer (\<^verbatim>\<open>device/timer.c\<close>) apart from its interrupt handler, which is in theory \<open>Sched\<close>: programming the
  interval timer, sleeping, and reading the tick counter. A port write is a pair of port and byte.
\<close>

definition IRQ0_FREQUENCY :: nat where "IRQ0_FREQUENCY = 100"
definition INPUT_FREQUENCY :: nat where "INPUT_FREQUENCY = 1193180"
definition CONTER0_VALUE :: nat where "CONTER0_VALUE = INPUT_FREQUENCY div IRQ0_FREQUENCY"
definition CONTER0_PORT :: u16 where "CONTER0_PORT = 0x40"
definition PIT_CONTROL_PORT :: u16 where "PIT_CONTROL_PORT = 0x43"
definition CONTER_MODE :: byte where "CONTER_MODE = 2"
definition READ_WRITE_LATCH :: byte where "READ_WRITE_LATCH = 3"
definition mil_seconds_per_intr :: u64 where "mil_seconds_per_intr = of_nat (1000 div IRQ0_FREQUENCY)"

text \<open>The counter value is a \<^verbatim>\<open>uint8_t\<close>.\<close>

definition freqc_set :: "u16 \<Rightarrow> byte \<Rightarrow> byte \<Rightarrow> byte \<Rightarrow> byte \<Rightarrow> (u16 \<times> byte) list" where
  "freqc_set port counter_no rwl mode val =
     [(PIT_CONTROL_PORT, push_bit 6 counter_no OR push_bit 4 rwl OR push_bit 1 mode),
      (port, val), (port, drop_bit 8 val)]"

definition timer_init :: "(u16 \<times> byte) list" where
  "timer_init = freqc_set CONTER0_PORT 0 READ_WRITE_LATCH CONTER_MODE (of_nat CONTER0_VALUE)"

text \<open>
  What the timer makes of the writes: mode 2 with both bytes of the divisor, low byte first; a divisor of 0
  counts as 65536.
\<close>

definition pit_divisor :: "(u16 \<times> byte) list \<Rightarrow> nat option" where
  "pit_divisor ws = (case ws of
     [(c, m), (p, lo), (p', hi)] \<Rightarrow>
       if c = PIT_CONTROL_PORT \<and> m = 0x34 \<and> p = CONTER0_PORT \<and> p' = CONTER0_PORT then
         let d = unat lo + 256 * unat hi in Some (if d = 0 then 65536 else d)
       else None
   | _ \<Rightarrow> None)"

text \<open>
  \<^verbatim>\<open>ticks_to_sleep\<close> with the values of the tick counter its loop reads, one per round: how often it yields, \<open>None\<close>
  if it is still waiting after the last.
\<close>

fun ticks_to_sleep :: "u64 \<Rightarrow> u64 \<Rightarrow> u64 list \<Rightarrow> nat option" where
  "ticks_to_sleep start_tick sleep_ticks [] = None"
| "ticks_to_sleep start_tick sleep_ticks (t # ts) =
     (if t - start_tick < sleep_ticks then map_option Suc (ticks_to_sleep start_tick sleep_ticks ts) else Some 0)"

definition mtime_sleep :: "u64 \<Rightarrow> u64 \<Rightarrow> u64 list \<Rightarrow> nat option res" where
  "mtime_sleep m_seconds start_tick ts =
     (let sleep_ticks = (m_seconds + mil_seconds_per_intr - 1) div mil_seconds_per_intr in
      rbind (kassert (0 < sleep_ticks) ''sleep_ticks > 0'') (\<lambda>_. Inr (ticks_to_sleep start_tick sleep_ticks ts)))"

definition sys_getticks :: "'a sched_scheme \<Rightarrow> u64 res" where
  "sys_getticks s = rbind (kassert (intr s = intr_off) ''intr_off == get_intr_stat()'') (\<lambda>_. Inr (timer_ticks s))"

section \<open>Properties\<close>

text \<open>
  The timer does not run at the 100 Hz it is meant to: the divisor 11931 is passed as a \<^verbatim>\<open>uint8_t\<close>, so its low
  byte 155 is programmed with a high byte of 0, which is a tick about every 130 microseconds; a tick counted as ten
  milliseconds by \<^verbatim>\<open>mtime_sleep\<close> is 76 times shorter.
\<close>
theorem timer_divisor_truncated:
  "CONTER0_VALUE = 11931 \<and> pit_divisor timer_init = Some 155 \<and>
   INPUT_FREQUENCY div 155 = 7697 \<and> 76 * 155 < CONTER0_VALUE"
  by (simp add: CONTER0_VALUE_def INPUT_FREQUENCY_def IRQ0_FREQUENCY_def timer_init_def freqc_set_def pit_divisor_def
      PIT_CONTROL_PORT_def CONTER0_PORT_def READ_WRITE_LATCH_def CONTER_MODE_def)

text \<open>
  Sleeping ends, and not early: if the tick counter, read with wrap-around, advances by at least one between
  the reads of the loop, \<^verbatim>\<open>mtime_sleep\<close> of a positive time comes back after at most as many reads as the ticks it
  sleeps, and when it does the ticks passed are at least those asked for, also across the overflow of the counter.
\<close>
theorem mtime_sleep_ends:
  assumes "0 < m" "unat m < 2 ^ 63" "\<And>j. j < length ts \<Longrightarrow> ts ! j = start + of_nat (c j)"
    and "\<And>j. j < length ts \<Longrightarrow> j \<le> c j \<and> c j < 2 ^ 64"
    and "(unat m + 9) div 10 < length ts"
  shows "\<exists>k \<le> (unat m + 9) div 10. mtime_sleep m start ts = Inr (Some k) \<and> (unat m + 9) div 10 \<le> c k \<and>
    (\<forall>j < k. c j < (unat m + 9) div 10)"
proof -
  define n where "n = (unat m + 9) div 10"
  have ms: "mil_seconds_per_intr = 10" by (simp add: mil_seconds_per_intr_def IRQ0_FREQUENCY_def)
  have "unat (m + 9) = unat m + 9" using assms(2) by (subst unat_add_lem [THEN iffD1]) simp_all
  then have "unat ((m + 9) div 10) = n" by (simp add: unat_div n_def)
  moreover have "m + mil_seconds_per_intr - 1 = m + 9" unfolding ms by simp
  ultimately obtain w where w: "(m + mil_seconds_per_intr - 1) div mil_seconds_per_intr = w" "unat w = n"
    using ms by simp
  have "0 < unat m" using assms(1) by (simp add: word_less_nat_alt)
  then have n0: "0 < n" unfolding n_def by linarith
  have less: "ts ! j - start < w \<longleftrightarrow> c j < n" if "j < length ts" for j
  proof -
    have "ts ! j - start = of_nat (c j)" using assms(3) [OF that] by simp
    then have "unat (ts ! j - start) = c j" using assms(4) [OF that] by (simp add: unsigned_of_nat take_bit_nat_eq_self)
    then show ?thesis using w(2) by (simp add: word_less_nat_alt)
  qed
  have loop: "\<exists>k. ticks_to_sleep start w (drop i ts) = Some k \<and> i + k \<le> n \<and> n \<le> c (i + k) \<and> (\<forall>j. i \<le> j \<longrightarrow> j < i + k \<longrightarrow> c j < n)"
    if "i \<le> n" for i
    using that
  proof (induction "n - i" arbitrary: i)
    case 0
    then have i: "i = n" by simp
    then have "drop i ts = ts ! i # drop (Suc i) ts" using assms(5) by (simp add: n_def Cons_nth_drop_Suc)
    moreover have "n \<le> c i" using assms(4) [of i] assms(5) i by (simp add: n_def)
    ultimately show ?case using less [of i] assms(5) i by (simp add: n_def)
  next
    case (Suc d)
    have lt: "i < length ts" using Suc(2) assms(5) by (simp add: n_def)
    have dr: "drop i ts = ts ! i # drop (Suc i) ts" using lt by (simp add: Cons_nth_drop_Suc)
    show ?case
    proof (cases "c i < n")
      case True
      have pre: "d = n - Suc i" "Suc i \<le> n" using Suc(2) by arith+
      obtain k where k: "ticks_to_sleep start w (drop (Suc i) ts) = Some k" "Suc i + k \<le> n" "n \<le> c (Suc i + k)"
          "\<forall>j. Suc i \<le> j \<longrightarrow> j < Suc i + k \<longrightarrow> c j < n"
        using Suc(1) [OF pre] by blast
      have "c j < n" if "i \<le> j" "j < i + Suc k" for j
        using k(4) that True by (cases "j = i") auto
      then show ?thesis using k dr less [OF lt] True by (intro exI [of _ "Suc k"]) auto
    next
      case False
      then show ?thesis using dr less [OF lt] Suc(3) by (intro exI [of _ 0]) auto
    qed
  qed
  obtain k where "ticks_to_sleep start w ts = Some k" "k \<le> n" "n \<le> c k" "\<forall>j < k. c j < n"
    using loop [of 0] by auto
  moreover have "0 < w" using w(2) n0 by (simp add: word_less_nat_alt)
  ultimately show ?thesis unfolding n_def [symmetric]
    by (intro exI [of _ k]) (simp add: mtime_sleep_def w(1))
qed

theorem mtime_sleep_ends_witness:
  "\<exists>k \<le> 2. mtime_sleep 15 (-1) [-1, 0, 2] = Inr (Some k) \<and> 2 \<le> [0, 1, 3 :: nat] ! k"
proof -
  have n: "(unat (15 :: u64) + 9) div 10 = 2" by simp
  have "\<exists>k \<le> (unat (15 :: u64) + 9) div 10. mtime_sleep 15 (-1) [-1, 0, 2] = Inr (Some k) \<and>
      (unat (15 :: u64) + 9) div 10 \<le> [0, 1, 3 :: nat] ! k \<and> (\<forall>j < k. [0, 1, 3 :: nat] ! j < (unat (15 :: u64) + 9) div 10)"
    by (rule mtime_sleep_ends) (auto simp: less_Suc_eq numeral_3_eq_3)
  then show ?thesis unfolding n by blast
qed

end
