(* ===== verification/Console.thy ===== *)
theory Console
  imports Sync
begin

text \<open>
  The text screen (\<^verbatim>\<open>lib/kernel/print.c\<close>) and the locked access to it (\<^verbatim>\<open>device/console.c\<close>). The video memory is
  a map from cell numbers, counted from \<^verbatim>\<open>D_BASE_ADDR\<close>, to cells of a character and a colour; 2000 cells are on
  the screen, and the code also reaches some outside. The cursor is the 16-bit register of the display controller.
\<close>

section \<open>The screen\<close>

record screen =
  cells :: "int \<Rightarrow> u16"
  cursor :: u16
  d_property :: byte
  change_property :: bool

text \<open>\<^verbatim>\<open>memcpy\<close> moves 26 rows up by one, the first into the row before the video memory.\<close>

definition set_cur :: "u16 \<Rightarrow> screen \<Rightarrow> screen" where
  "set_cur cur s =
     (if 80 * 25 \<le> cur
      then s\<lparr>cells := (\<lambda>k. if -80 \<le> k \<and> k < 2000 then cells s (k + 80) else cells s k), cursor := cur - 80\<rparr>
      else s\<lparr>cursor := cur\<rparr>)"

definition put_cell :: "u16 \<Rightarrow> byte \<Rightarrow> screen \<Rightarrow> screen" where
  "put_cell cur c s = s\<lparr>cells := (cells s)(int (unat cur) := scast c + push_bit 8 (ucast (d_property s)))\<rparr>"

text \<open>The loop that clears the cells up to the tab stop, the stop included.\<close>

fun put_blanks :: "nat \<Rightarrow> u16 \<Rightarrow> screen \<Rightarrow> screen" where
  "put_blanks 0 cur s = s"
| "put_blanks (Suc n) cur s = put_blanks n (cur + 1) (put_cell cur 0x20 s)"

definition put_char :: "byte \<Rightarrow> screen \<Rightarrow> screen" where
  "put_char c s =
     (if change_property s then s\<lparr>d_property := c, change_property := False\<rparr>
      else
        let cur = cursor s in
        if c = 0x1b then s\<lparr>change_property := True\<rparr>
        else if c = 0x0d then set_cur (cur div 80 * 80) s
        else if c = 0x0a then set_cur ((cur div 80 + 1) * 80) s
        else if c = 0x08 then put_cell (cur - 1) 0x20 (set_cur (cur - 1) s)
        else if c = 0x09 then
          let new_cur = (cur div 8 + 1) * 8 in
          set_cur new_cur (put_blanks (unat new_cur + 1 - unat cur) cur s)
        else set_cur (cur + 1) (put_cell cur c s))"

fun put_str :: "byte list \<Rightarrow> screen \<Rightarrow> screen" where
  "put_str [] s = s"
| "put_str (c # cs) s = put_str cs (put_char c s)"

text \<open>The sixteen digits of \<^verbatim>\<open>put_num\<close>, least significant first, and the loop that skips leading zeros.\<close>

fun num_digits :: "nat \<Rightarrow> u64 \<Rightarrow> byte list" where
  "num_digits 0 num = []"
| "num_digits (Suc n) num =
     (let c = ucast (num mod 16) + 0x30; c = (if 0x39 < c then c + (0x61 - 0x39 - 1) else c) in
      c # num_digits n (num div 16))"

definition num_text :: "u64 \<Rightarrow> byte list" where
  "num_text num =
     (let dbuf = num_digits 16 num in dropWhile (\<lambda>c. c = 0x30) (rev (tl dbuf)) @ [dbuf ! 0])"

definition put_num :: "u64 \<Rightarrow> screen \<Rightarrow> screen" where
  "put_num num s = put_str (num_text num) s"

definition put_info :: "byte list \<Rightarrow> u64 \<Rightarrow> screen \<Rightarrow> screen" where
  "put_info message num s = put_char 0x0a (put_num num (put_str message s))"

definition cls_screen :: "screen \<Rightarrow> screen" where
  "cls_screen s =
     set_cur 0 (s\<lparr>cells := (\<lambda>k. if 0 \<le> k \<and> k < 80 * 25 then 0x20 + push_bit 8 (ucast (d_property s)) else cells s k)\<rparr>)"

section \<open>The console\<close>

text \<open>
  Every console function prints with the console lock held; the result is \<open>None\<close> when the thread has to wait for
  it.
\<close>

definition console_init :: "lock_id \<Rightarrow> 'a sched_scheme \<Rightarrow> 'a sched_scheme res" where
  "console_init console_lock s = lock_init console_lock s"

definition with_console :: "lock_id \<Rightarrow> (screen \<Rightarrow> screen) \<Rightarrow> screen \<Rightarrow> 'a sched_scheme \<Rightarrow> (screen option \<times> 'a sched_scheme) res" where
  "with_console console_lock print scr s =
     rbind (lock_acquire console_lock s) (\<lambda>(got, s).
     if got then rbind (lock_release console_lock s) (\<lambda>s. Inr (Some (print scr), s)) else Inr (None, s))"

definition console_put_char :: "lock_id \<Rightarrow> byte \<Rightarrow> screen \<Rightarrow> 'a sched_scheme \<Rightarrow> (screen option \<times> 'a sched_scheme) res" where
  "console_put_char l c = with_console l (put_char c)"

definition console_put_str :: "lock_id \<Rightarrow> byte list \<Rightarrow> screen \<Rightarrow> 'a sched_scheme \<Rightarrow> (screen option \<times> 'a sched_scheme) res" where
  "console_put_str l str = with_console l (put_str str)"

definition console_put_num :: "lock_id \<Rightarrow> u64 \<Rightarrow> screen \<Rightarrow> 'a sched_scheme \<Rightarrow> (screen option \<times> 'a sched_scheme) res" where
  "console_put_num l num = with_console l (put_num num)"

definition console_put_info :: "lock_id \<Rightarrow> byte list \<Rightarrow> u64 \<Rightarrow> screen \<Rightarrow> 'a sched_scheme \<Rightarrow> (screen option \<times> 'a sched_scheme) res" where
  "console_put_info l message num = with_console l (put_info message num)"

definition sys_clear :: "lock_id \<Rightarrow> screen \<Rightarrow> 'a sched_scheme \<Rightarrow> (screen option \<times> 'a sched_scheme) res" where
  "sys_clear l = with_console l cls_screen"

section \<open>Properties\<close>

definition on_screen :: "screen \<Rightarrow> bool" where
  "on_screen s \<longleftrightarrow> unat (cursor s) < 2000"

text \<open>Cells from the row before the screen to the one cell after it.\<close>

definition near :: "int \<Rightarrow> bool" where
  "near k \<longleftrightarrow> -80 \<le> k \<and> k \<le> 2000"

definition far_same :: "screen \<Rightarrow> screen \<Rightarrow> bool" where
  "far_same s t \<longleftrightarrow> (\<forall>k. \<not> near k \<longrightarrow> cells t k = cells s k)"

lemma far_same_trans: "far_same s t \<Longrightarrow> far_same t u \<Longrightarrow> far_same s u"
  by (simp add: far_same_def)

lemma set_cur_spec:
  assumes "unat c \<le> 2000"
  shows "on_screen (set_cur c s)" "far_same s (set_cur c s)"
proof -
  have "unat (c - 80) = unat c - 80" if "80 * 25 \<le> c" using that by (simp add: unat_sub word_le_nat_alt)
  moreover have "80 * 25 \<le> c \<longleftrightarrow> 2000 \<le> unat c" by (simp add: word_le_nat_alt)
  ultimately show "on_screen (set_cur c s)" using assms by (auto simp: on_screen_def set_cur_def)
  show "far_same s (set_cur c s)" by (simp add: far_same_def near_def set_cur_def)
qed

lemma put_cell_spec: "unat c \<le> 2000 \<Longrightarrow> far_same s (put_cell c b s)" "cursor (put_cell c b s) = cursor s"
proof -
  assume "unat c \<le> 2000"
  then have "int (unat c) \<le> 2000" by linarith
  then have "near (int (unat c))" unfolding near_def by linarith
  then show "far_same s (put_cell c b s)" by (auto simp: far_same_def put_cell_def)
qed (simp add: put_cell_def)

lemma unat_plus_1: "unat (c :: u16) \<le> 2000 \<Longrightarrow> unat (c + 1) = unat c + 1"
  by (subst unat_add_lem [THEN iffD1]) simp_all

lemma put_blanks_spec: "unat c + n \<le> 2001 \<Longrightarrow> far_same s (put_blanks n c s)"
proof (induction n arbitrary: c s)
  case (Suc n)
  have "unat (c + 1) + n \<le> 2001" using Suc.prems unat_plus_1 [of c] by simp
  then have "far_same (put_cell c 32 s) (put_blanks n (c + 1) (put_cell c 32 s))" by (rule Suc.IH)
  then show ?case using put_cell_spec(1) [of c s 32] Suc.prems by (auto intro: far_same_trans)
qed (simp add: far_same_def)

text \<open>The positions the control characters go to, for rows and tab stops of \<open>w\<close> cells.\<close>

lemma next_stop:
  assumes "unat (c :: u16) < 2000" "w = 80 \<or> w = 8"
  shows "unat (c div w * w) \<le> unat c" "unat ((c div w + 1) * w) = (unat c div unat w + 1) * unat w"
    "unat c < unat ((c div w + 1) * w)" "unat ((c div w + 1) * w) \<le> 2000"
proof -
  let ?q = "unat c div unat w"
  have w: "unat w = 80 \<or> unat w = 8" using assms(2) by auto
  have q: "?q * unat w \<le> unat c" "unat c < (?q + 1) * unat w" "(?q + 1) * unat w \<le> 2000"
    using assms(1) w by (auto simp: mult.commute)
  have d: "unat (c div w) = ?q" by (simp add: unat_div)
  have "?q * unat w < 2 ^ 16" using q assms(1) by simp
  then show "unat (c div w * w) \<le> unat c"
    using q(1) d by (subst unat_mult_lem [THEN iffD1]) simp_all
  have "?q \<le> 2000" using assms(1) w by auto
  then have d1: "unat (c div w + 1) = ?q + 1" using d by (subst unat_add_lem [THEN iffD1]) simp_all
  then show e: "unat ((c div w + 1) * w) = (?q + 1) * unat w"
    using q(3) by (subst unat_mult_lem [THEN iffD1]) (simp_all del: mult_Suc)
  show "unat c < unat ((c div w + 1) * w)" "unat ((c div w + 1) * w) \<le> 2000" unfolding e using q by simp_all
qed

lemma put_char_spec:
  assumes "on_screen s" "c \<noteq> 0x08 \<or> cursor s \<noteq> 0"
  shows "on_screen (put_char c s) \<and> far_same s (put_char c s)"
proof -
  let ?c = "cursor s"
  have c: "unat ?c < 2000" using assms(1) by (simp add: on_screen_def)
  have keep: "on_screen (s\<lparr>d_property := x, change_property := y\<rparr>)" "on_screen (s\<lparr>change_property := y\<rparr>)"
    "far_same s (s\<lparr>d_property := x, change_property := y\<rparr>)" "far_same s (s\<lparr>change_property := y\<rparr>)" for x y
    using assms(1) by (simp_all add: on_screen_def far_same_def)
  have ret: "unat (?c div 80 * 80) \<le> 2000" using next_stop(1) [OF c, of 80] c by simp
  have nl: "unat ((?c div 80 + 1) * 80) \<le> 2000" using next_stop(4) [OF c, of 80] by simp
  have nxt: "unat (?c + 1) \<le> 2000" using unat_plus_1 [of ?c] c by simp
  consider "change_property s" | "\<not> change_property s" "c = 0x08" | "\<not> change_property s" "c = 0x09"
    | "\<not> change_property s" "c \<noteq> 0x08" "c \<noteq> 0x09" by blast
  then show ?thesis
  proof cases
    case 1
    then show ?thesis using keep by (simp add: put_char_def)
  next
    case 2
    then have "0 < unat ?c" using assms(2) by (simp add: unat_gt_0)
    then have b: "unat (?c - 1) \<le> 2000" using c by (simp add: unat_sub word_le_nat_alt)
    then have "on_screen (put_cell (?c - 1) 32 (set_cur (?c - 1) s))"
      using set_cur_spec(1) [OF b, of s] put_cell_spec(2) by (simp add: on_screen_def)
    moreover have "far_same s (put_cell (?c - 1) 32 (set_cur (?c - 1) s))"
      using set_cur_spec(2) [OF b, of s] put_cell_spec(1) [OF b] far_same_trans by blast
    ultimately show ?thesis using 2 by (simp add: put_char_def Let_def)
  next
    case 3
    let ?n = "(?c div 8 + 1) * 8"
    let ?m = "unat ?n + 1 - unat ?c"
    have n: "unat ?c < unat ?n" "unat ?n \<le> 2000" using next_stop(3,4) [OF c, of 8] by simp_all
    then have "far_same s (put_blanks ?m ?c s)" by (intro put_blanks_spec) simp
    then have "far_same s (set_cur ?n (put_blanks ?m ?c s))"
      using set_cur_spec(2) [OF n(2)] far_same_trans by blast
    then show ?thesis using set_cur_spec(1) [OF n(2)] 3 by (simp add: put_char_def Let_def)
  next
    case 4
    have "far_same s (set_cur (?c + 1) (put_cell ?c c s))"
      using set_cur_spec(2) [OF nxt] put_cell_spec(1) [of ?c s c] c far_same_trans [of s "put_cell ?c c s"] by simp
    then show ?thesis
      using 4 keep set_cur_spec [OF ret, of s] set_cur_spec [OF nl, of s] set_cur_spec(1) [OF nxt, of "put_cell ?c c s"]
      by (simp add: put_char_def Let_def)
  qed
qed

text \<open>
  C22. The cursor stays on the screen: printing a string without backspaces leaves it on one of the 2000 cells, for
  every tab, line end and scroll, and no memory is written beyond the row before the screen and the one cell behind it.
\<close>
theorem console_stays_on_screen:
  assumes "on_screen s" "0x08 \<notin> set str"
  shows "on_screen (put_str str s) \<and> (\<forall>k. \<not> near k \<longrightarrow> cells (put_str str s) k = cells s k)"
  using assms
proof (induction str arbitrary: s)
  case (Cons c str)
  have c: "on_screen (put_char c s)" "far_same s (put_char c s)"
    using put_char_spec [OF Cons.prems(1)] Cons.prems(2) by auto
  then show ?case using Cons.IH [OF c(1)] Cons.prems(2) by (simp add: far_same_def)
qed simp

definition blank_screen :: screen where
  "blank_screen = \<lparr>cells = (\<lambda>_. 0x0720), cursor = 1999, d_property = 7, change_property = False\<rparr>"

theorem console_stays_on_screen_witness:
  "on_screen (put_str [0x61, 0x09, 0x0a] blank_screen) \<and>
   cells (put_str [0x61, 0x09, 0x0a] blank_screen) 2160 = cells blank_screen 2160"
  using console_stays_on_screen [of blank_screen "[0x61, 0x09, 0x0a]"]
  by (auto simp: on_screen_def blank_screen_def near_def)

text \<open>
  A backspace in the first cell leaves the screen: the 16-bit position wraps to 65535, the screen scrolls, the
  cursor register becomes 65455 and a blank is written 65535 cells behind the start of the video memory.
\<close>
theorem backspace_leaves_screen:
  assumes "cursor s = 0" "\<not> change_property s"
  shows "\<not> on_screen (put_char 0x08 s) \<and> cursor (put_char 0x08 s) = 65455 \<and>
    cells (put_char 0x08 s) 65535 = 0x20 + push_bit 8 (ucast (d_property s))"
proof -
  have e: "(0 - 1 :: u16) = 65535" by simp
  then have "put_char 0x08 s = put_cell 65535 0x20 (set_cur 65535 s)"
    using assms unfolding put_char_def by (simp only: Let_def) simp
  then show ?thesis by (simp add: put_cell_def set_cur_def on_screen_def)
qed

theorem backspace_leaves_screen_witness:
  "\<not> on_screen (put_char 0x08 (blank_screen\<lparr>cursor := 0\<rparr>))"
  using backspace_leaves_screen [of "blank_screen\<lparr>cursor := 0\<rparr>"] by (simp add: blank_screen_def)

end
