(* ===== verification/Stdio.thy ===== *)
theory Stdio
  imports Dir
begin

text \<open>
  The string functions (\<^verbatim>\<open>lib/string.c\<close>) and formatted output (\<^verbatim>\<open>lib/stdio.c\<close>, \<^verbatim>\<open>printk\<close>). Memory that holds a
  C string is a list of bytes; running past its end is a fault. An argument of \<^verbatim>\<open>vsprintf\<close> is an 8-byte slot or
  the string a slot points to. \<^verbatim>\<open>char\<close> is signed.
\<close>

section \<open>Strings\<close>

fun strlen :: "byte list \<Rightarrow> nat res" where
  "strlen [] = Inl (Fault ''str'')"
| "strlen (c # cs) = (if c = 0 then Inr 0 else rbind (strlen cs) (\<lambda>n. Inr (Suc n)))"

fun strcmp :: "byte list \<Rightarrow> byte list \<Rightarrow> int res" where
  "strcmp (a # as) (b # bs) = (if a \<noteq> 0 \<and> a = b then strcmp as bs else Inr (sint a - sint b))"
| "strcmp as bs = Inl (Fault ''str'')"

text \<open>The memory at \<^verbatim>\<open>dst\<close> after the copy.\<close>

fun strcpy :: "byte list \<Rightarrow> byte list \<Rightarrow> byte list res" where
  "strcpy (d # ds) (c # cs) = (if c = 0 then Inr (0 # ds) else rbind (strcpy ds cs) (\<lambda>r. Inr (c # r)))"
| "strcpy ds cs = Inl (Fault ''dst'')"

fun strcat :: "byte list \<Rightarrow> byte list \<Rightarrow> byte list res" where
  "strcat [] src = Inl (Fault ''dst'')"
| "strcat (d # ds) src = (if d = 0 then strcpy (d # ds) src else rbind (strcat ds src) (\<lambda>r. Inr (d # r)))"

text \<open>The index of the byte found; \<open>strrchr_from\<close> carries the current one and the last one seen.\<close>

fun strchr :: "byte list \<Rightarrow> byte \<Rightarrow> nat option res" where
  "strchr [] ch = Inl (Fault ''str'')"
| "strchr (c # cs) ch =
     (if c = 0 then Inr None else if c = ch then Inr (Some 0)
      else rbind (strchr cs ch) (\<lambda>r. Inr (map_option Suc r)))"

fun strrchr_from :: "nat \<Rightarrow> nat option \<Rightarrow> byte list \<Rightarrow> byte \<Rightarrow> nat option res" where
  "strrchr_from i last_char [] ch = Inl (Fault ''str'')"
| "strrchr_from i last_char (c # cs) ch =
     (if c = 0 then Inr last_char else strrchr_from (Suc i) (if c = ch then Some i else last_char) cs ch)"

definition strrchr :: "byte list \<Rightarrow> byte \<Rightarrow> nat option res" where
  "strrchr str ch = strrchr_from 0 None str ch"

fun memcmp :: "byte list \<Rightarrow> byte list \<Rightarrow> nat \<Rightarrow> int res" where
  "memcmp as bs 0 = Inr 0"
| "memcmp (a # as) (b # bs) (Suc n) = (if a \<noteq> b then Inr (sint a - sint b) else memcmp as bs n)"
| "memcmp as bs (Suc n) = Inl (Fault ''memcmp'')"

text \<open>
  \<^verbatim>\<open>memcpy\<close> copies byte by byte from low to high addresses, in one memory, so an overlapping copy to a higher address
  reads what it wrote. \<^verbatim>\<open>memset\<close> fills.
\<close>

fun memcpy :: "nat \<Rightarrow> nat \<Rightarrow> nat \<Rightarrow> byte list \<Rightarrow> byte list res" where
  "memcpy dst src 0 m = Inr m"
| "memcpy dst src (Suc n) m =
     (if dst < length m \<and> src < length m then memcpy (Suc dst) (Suc src) n (m[dst := m ! src]) else Inl (Fault ''memcpy''))"

fun memset :: "nat \<Rightarrow> byte \<Rightarrow> nat \<Rightarrow> byte list \<Rightarrow> byte list res" where
  "memset dst v 0 m = Inr m"
| "memset dst v (Suc n) m = (if dst < length m then memset (Suc dst) v n (m[dst := v]) else Inl (Fault ''memset''))"

section \<open>Formatted output\<close>

definition digit :: "u64 \<Rightarrow> byte" where
  "digit m = (if m < 10 then ucast m + 0x30 else ucast m + 0x41 - 10)"

lemma itoa_smaller: "(v :: u64) div base \<noteq> 0 \<Longrightarrow> 1 < base \<Longrightarrow> unat (v div base) < unat v"
proof -
  assume a: "v div base \<noteq> 0" "1 < base"
  then have "unat v \<noteq> 0" by (auto simp: unat_eq_0)
  moreover have "1 < unat base" using a(2) by (simp add: word_less_nat_alt)
  ultimately show ?thesis by (simp add: unat_div div_less_dividend)
qed

text \<open>The base is 10 or 16 in every call.\<close>

function itoa :: "u64 \<Rightarrow> u64 \<Rightarrow> byte list" where
  "itoa v base = (let m = v mod base; i = v div base in (if i \<noteq> 0 \<and> 1 < base then itoa i base else []) @ [digit m])"
  by pat_completeness auto

termination
  by (relation "measure (\<lambda>(v, base). unat v)") (auto intro: itoa_smaller)

declare itoa.simps [simp del]

datatype arg = Slot u64 | Pointer "byte list"

fun the_slot :: "arg list \<Rightarrow> (u64 \<times> arg list) res" where
  "the_slot (Slot w # as) = Inr (w, as)"
| "the_slot as = Inl (Fault ''args'')"

fun the_str :: "arg list \<Rightarrow> (byte list \<times> arg list) res" where
  "the_str (Pointer bs # as) = Inr (bs, as)"
| "the_str as = Inl (Fault ''args'')"

text \<open>The conversions: \<open>%d\<close>, \<open>%x\<close> read 32 bits of the slot, \<open>%ld\<close>, \<open>%lx\<close> all of it.\<close>

definition fmt_d :: "u64 \<Rightarrow> byte list" where
  "fmt_d w = (let arg_int = ucast w :: u32; neg = sint arg_int < 0; arg_int = (if neg then 0 - arg_int else arg_int) in
     (if neg then [0x2d] else []) @ itoa (scast arg_int) 10)"

definition fmt_x :: "u64 \<Rightarrow> byte list" where
  "fmt_x w = itoa (scast (ucast w :: u32)) 16"

definition fmt_ld :: "u64 \<Rightarrow> byte list" where
  "fmt_ld arg_64 = (if sint arg_64 < 0 then 0x2d # itoa (0 - arg_64) 10 else itoa arg_64 10)"

text \<open>
  The bytes written before the final zero. After a \<open>%\<close> a character that is no conversion is not consumed: it is
  handled as if it stood alone.
\<close>

fun vsprintf :: "byte list \<Rightarrow> arg list \<Rightarrow> byte list res" where
  "vsprintf [] args = Inr []"
| "vsprintf (c # fmt) args =
     (if c \<noteq> 0x25 then rbind (vsprintf fmt args) (\<lambda>r. Inr (c # r))
      else (case fmt of
          [] \<Rightarrow> Inr []
        | d # rest \<Rightarrow>
            if d = 0x6c then
              (case rest of
                 [] \<Rightarrow> Inr []
               | e # rest' \<Rightarrow>
                   if e = 0x64 then rbind (the_slot args) (\<lambda>(w, args). rbind (vsprintf rest' args) (\<lambda>r. Inr (fmt_ld w @ r)))
                   else if e = 0x78 then rbind (the_slot args) (\<lambda>(w, args). rbind (vsprintf rest' args) (\<lambda>r. Inr (itoa w 16 @ r)))
                   else vsprintf rest args)
            else if d = 0x73 then
              rbind (the_str args) (\<lambda>(str, args).
              rbind (strlen str) (\<lambda>n. rbind (vsprintf rest args) (\<lambda>r. Inr (take n str @ r))))
            else if d = 0x63 then rbind (the_slot args) (\<lambda>(w, args). rbind (vsprintf rest args) (\<lambda>r. Inr (ucast w # r)))
            else if d = 0x64 then rbind (the_slot args) (\<lambda>(w, args). rbind (vsprintf rest args) (\<lambda>r. Inr (fmt_d w @ r)))
            else if d = 0x78 then rbind (the_slot args) (\<lambda>(w, args). rbind (vsprintf rest args) (\<lambda>r. Inr (fmt_x w @ r)))
            else vsprintf fmt args))"

text \<open>\<^verbatim>\<open>printk\<close> formats into 1024 bytes on the stack; the bytes printed, and \<^verbatim>\<open>strlen\<close> of them.\<close>

definition printk :: "byte list \<Rightarrow> arg list \<Rightarrow> (byte list \<times> nat) res" where
  "printk fmt args =
     rbind (vsprintf fmt args) (\<lambda>out.
     if length out < 1024 then Inr (cstr out, length (cstr out)) else Inl (Fault ''buf''))"

text \<open>The bytes of a string literal, without the final zero.\<close>

definition chars :: "string \<Rightarrow> byte list" where
  "chars str = map of_char str"

text \<open>
  \<^verbatim>\<open>printf\<close> formats into 2048 bytes of the heap; the bytes it writes to descriptor 1. \<^verbatim>\<open>sprintf\<close> formats into the memory
  \<open>mem\<close> from index \<open>pos\<close> on; the memory afterwards, and the length of the string there.
\<close>

definition printf :: "byte list \<Rightarrow> arg list \<Rightarrow> byte list res" where
  "printf format args =
     rbind (vsprintf format args) (\<lambda>r. if length r < 2048 then rbind (strlen (r @ [0])) (\<lambda>n. Inr (take n r)) else Inl (Fault ''buf''))"

definition sprintf :: "byte list \<Rightarrow> nat \<Rightarrow> byte list \<Rightarrow> arg list \<Rightarrow> (byte list \<times> nat) res" where
  "sprintf mem pos format args =
     rbind (vsprintf format args) (\<lambda>r.
     if pos + length r < length mem then
       let mem = take pos mem @ r @ 0 # drop (pos + length r + 1) mem in rbind (strlen (drop pos mem)) (\<lambda>n. Inr (mem, n))
     else Inl (Fault ''buf''))"

section \<open>The string functions and their reference\<close>

lemma strlen_cstr: "0 \<in> set bs \<Longrightarrow> strlen bs = Inr (length (cstr bs))"
  by (induction bs) (auto simp: cstr_def)

text \<open>What \<^verbatim>\<open>sprintf\<close> leaves in memory when it has room.\<close>

lemma sprintf_ok:
  assumes "vsprintf f args = Inr r" "pos + length r < length mem"
  obtains n where "sprintf mem pos f args = Inr (take pos mem @ r @ 0 # drop (pos + length r + 1) mem, n)"
proof -
  have "0 \<in> set (drop pos (take pos mem @ r @ 0 # drop (pos + length r + 1) mem))" using assms(2) by simp
  from strlen_cstr [OF this] that show ?thesis using assms by (simp add: sprintf_def Let_def)
qed

lemma sprintf_fits:
  assumes "vsprintf f args = Inr r" "pos + length r < length mem"
  obtains mem' n where "sprintf mem pos f args = Inr (mem', n)" "length mem' = length mem"
  using assms by (elim sprintf_ok) (auto intro: that)

lemma byte_of_u64: "ucast (ucast b :: u64) = (b :: byte)"
  by (rule bit_word_eqI) (simp add: bit_simps)

lemma strcmp_cstr:
  assumes "0 \<in> set as" "0 \<in> set bs"
  shows "\<exists>r. strcmp as bs = Inr r \<and> (r = 0 \<longleftrightarrow> cstr as = cstr bs)"
  using assms
proof (induction as bs rule: strcmp.induct)
  case (1 a as b bs)
  show ?case
  proof (cases "a \<noteq> 0 \<and> a = b")
    case True
    then show ?thesis using 1 by (auto simp: cstr_def)
  next
    case False
    have "sint a - sint b = 0 \<longleftrightarrow> a = b" using signed_word_eqI [of a b] by auto
    with False show ?thesis by (auto simp: cstr_def)
  qed
qed auto

lemma strcpy_cstr:
  assumes "0 \<in> set src" "length (cstr src) < length dst"
  shows "strcpy dst src = Inr (cstr src @ 0 # drop (Suc (length (cstr src))) dst)"
  using assms by (induction dst src rule: strcpy.induct) (auto simp: cstr_def)

lemma length_takeWhile_mem: "x \<in> set xs \<Longrightarrow> \<not> P x \<Longrightarrow> length (takeWhile P xs) < length xs"
  by (induction xs) auto

lemma strrchr_from_spec:
  assumes "0 \<in> set cs" "ch \<noteq> 0"
  shows "strrchr_from i last_char cs ch =
    Inr (if ch \<in> set (cstr cs) then Some (i + (length (cstr cs) - 1 - length (takeWhile (\<lambda>c. c \<noteq> ch) (rev (cstr cs))))) else last_char)"
  using assms(1)
proof (induction cs arbitrary: i last_char)
  case (Cons c cs)
  let ?s = "cstr cs" and ?w = "\<lambda>xs. length (takeWhile (\<lambda>c. c \<noteq> ch) xs)"
  show ?case
  proof (cases "c = 0")
    case False
    then have s: "cstr (c # cs) = c # ?s" by (simp add: cstr_def)
    have IH: "strrchr_from (Suc i) l cs ch = Inr (if ch \<in> set ?s then Some (Suc i + (length ?s - 1 - ?w (rev ?s))) else l)" for l
      using Cons False by simp
    show ?thesis
    proof (cases "ch \<in> set ?s")
      case True
      have w: "?w (rev ?s @ [c]) = ?w (rev ?s)" using True by (subst takeWhile_append1) auto
      have "?w (rev ?s) < length ?s" using True length_takeWhile_mem [of ch "rev ?s" "\<lambda>c. c \<noteq> ch"] by simp
      then show ?thesis using True IH False w unfolding s by auto
    next
      case no: False
      then have "takeWhile (\<lambda>c. c \<noteq> ch) (rev ?s) = rev ?s" by (auto simp: takeWhile_eq_all_conv)
      then have "?w (rev ?s @ [c]) = length ?s + (if c = ch then 0 else 1)" by (simp add: takeWhile_append)
      then show ?thesis using no IH False unfolding s by auto
    qed
  qed (simp add: cstr_def)
qed simp

section \<open>Numbers and their digits\<close>

definition digit_value :: "byte \<Rightarrow> nat" where
  "digit_value c = (if c < 0x3a then unat c - 0x30 else unat c - 0x37)"

definition num_value :: "nat \<Rightarrow> byte list \<Rightarrow> nat" where
  "num_value base ds = foldl (\<lambda>n c. n * base + digit_value c) 0 ds"

definition int_value :: "byte list \<Rightarrow> int" where
  "int_value ds = (case ds of c # cs \<Rightarrow> if c = 0x2d then - int (num_value 10 cs) else int (num_value 10 ds) | [] \<Rightarrow> 0)"

lemma digit_value_digit: "unat m < 16 \<Longrightarrow> digit_value (digit m) = unat m \<and> digit m \<noteq> 0x2d"
proof -
  assume "unat m < 16"
  then have "unat m \<in> set [0..<16]" by simp
  moreover have "\<forall>n \<in> set [0..<16]. digit_value (digit (of_nat n)) = n \<and> digit (of_nat n) \<noteq> 0x2d"
    by (simp add: upt_rec digit_def digit_value_def)
  ultimately show ?thesis by fastforce
qed

lemma num_value_snoc: "num_value base (ds @ [d]) = num_value base ds * base + digit_value d"
  by (simp add: num_value_def)

lemma itoa_value:
  assumes "1 < base" "base \<le> 16"
  shows "num_value (unat base) (itoa v base) = unat v \<and> itoa v base \<noteq> [] \<and> 0x2d \<notin> set (itoa v base)"
proof (induction "unat v" arbitrary: v rule: less_induct)
  case less
  let ?m = "v mod base" and ?i = "v div base"
  have b: "1 < unat base" "unat base \<le> 16" using assms by (simp_all add: word_less_nat_alt word_le_nat_alt)
  have m: "unat ?m = unat v mod unat base" "unat ?i = unat v div unat base" by (simp_all add: unat_mod unat_div)
  moreover have "unat v mod unat base < unat base" using b(1) by simp
  ultimately have d: "digit_value (digit ?m) = unat v mod unat base" "digit ?m \<noteq> 0x2d"
    using digit_value_digit [of ?m] b(2) by simp_all
  show ?case
  proof (cases "?i = 0")
    case True
    then have "itoa v base = [digit ?m]" by (subst itoa.simps) simp
    moreover have "unat v mod unat base = unat v" using True m(2) b(1) by (metis div_eq_0_iff mod_less not_one_less_zero unat_0)
    ultimately show ?thesis using d by (simp add: num_value_def)
  next
    case False
    then have it: "itoa v base = itoa ?i base @ [digit ?m]" using assms(1) by (subst itoa.simps) simp
    show ?thesis using less [of ?i] itoa_smaller [OF False assms(1)] d unfolding it num_value_snoc by (simp add: m)
  qed
qed

lemma uint_nonneg: "0 \<le> sint (w :: u64) \<Longrightarrow> uint w = sint w"
  using sint_lt [of w] by (simp add: uint_sint take_bit_int_eq_self)

lemma uint_neg_neg:
  assumes "sint (w :: u64) < 0"
  shows "uint (- w) = - sint w"
proof -
  have "- w = word_of_int (- sint w)" by simp
  then have "uint (- w) = take_bit 64 (- sint w)" by (simp only: uint_word_of_int_eq) simp
  then show ?thesis using assms sint_ge [of w] by (simp add: take_bit_int_eq_self)
qed

lemma sint_minus_u32:
  assumes "sint (a :: u32) \<noteq> - (2 ^ 31)"
  shows "sint (- a) = - sint a"
proof -
  have "- a = word_of_int (- sint a)" by simp
  then have "sint (- a) = signed_take_bit 31 (- sint a)" by (simp only: signed_of_int) simp
  then show ?thesis using assms sint_ge [of a] sint_lt [of a] by (simp add: signed_take_bit_int_eq_self)
qed

lemma scast_u32_nonneg:
  assumes "0 \<le> sint (a :: u32)"
  shows "uint (scast a :: u64) = sint a"
proof -
  have "(scast a :: u64) = word_of_int (sint a)" by simp
  then have "uint (scast a :: u64) = take_bit 64 (sint a)" by (simp only: uint_word_of_int_eq) simp
  then show ?thesis using assms sint_lt [of a] by (simp add: take_bit_int_eq_self)
qed

lemma int_value_plain: "int_value (itoa v 10) = int (unat v)"
  using itoa_value [of 10 v] by (cases "itoa v 10") (auto simp: int_value_def)

lemma int_value_minus: "int_value (0x2d # itoa v 10) = - int (unat v)"
  using itoa_value [of 10 v] by (simp add: int_value_def)

lemma fmt_ld_value: "int_value (fmt_ld w) = sint w"
proof (cases "sint w < 0")
  case True
  then show ?thesis using int_value_minus [of "0 - w"] by (simp add: fmt_ld_def uint_neg_neg)
next
  case False
  then show ?thesis using int_value_plain [of w] by (simp add: fmt_ld_def uint_nonneg)
qed

lemma fmt_d_value:
  assumes "sint (ucast w :: u32) \<noteq> - (2 ^ 31)"
  shows "int_value (fmt_d w) = sint (ucast w :: u32)"
proof -
  define a where "a = (ucast w :: u32)"
  show ?thesis
  proof (cases "sint a < 0")
    case True
    have "sint (- a) = - sint a" using assms sint_lt [of a] sint_ge [of a] by (simp add: a_def sint_minus_u32)
    then have "int (unat (scast (- a) :: u64)) = - sint a" using True by (simp add: scast_u32_nonneg)
    then show ?thesis using True int_value_minus [of "scast (- a)"] by (simp add: fmt_d_def a_def [symmetric])
  next
    case False
    then have "int (unat (scast a :: u64)) = sint a" by (simp add: scast_u32_nonneg)
    then show ?thesis using False int_value_plain [of "scast a"] by (simp add: fmt_d_def a_def [symmetric])
  qed
qed

lemma hex_value: "num_value 16 (itoa v 16) = unat v"
  using itoa_value [of 16 v] by simp

lemma conversions:
  "chars ''%ld'' = [0x25, 0x6c, 0x64]" "chars ''%lx'' = [0x25, 0x6c, 0x78]" "chars ''%d'' = [0x25, 0x64]"
  "chars ''%x'' = [0x25, 0x78]" "chars ''%s'' = [0x25, 0x73]" "chars ''%c'' = [0x25, 0x63]"
  by code_simp+

text \<open>
  C21. \<^verbatim>\<open>vsprintf\<close> prints each argument as its conversion says, in order, between the rest of the text, and numbers
  read back: \<open>%ld\<close> prints the signed value of all 64 bits of its argument in decimal, \<open>%d\<close> the signed value of the low
  32 bits unless that is the smallest one, \<open>%lx\<close> the 64 bits in hexadecimal, \<open>%x\<close> the low 32 bits with their sign
  extended to 64; \<open>%s\<close> prints the bytes of its string before the final zero, \<open>%c\<close> the low byte.
\<close>
theorem printed_numbers_read_back:
  "(\<exists>ds. int_value ds = sint w \<and>
     vsprintf (chars ''%ld'' @ fmt) (Slot w # args) = rbind (vsprintf fmt args) (\<lambda>r. Inr (ds @ r))) \<and>
   (sint (ucast w :: u32) \<noteq> - (2 ^ 31) \<longrightarrow> (\<exists>ds. int_value ds = sint (ucast w :: u32) \<and>
     vsprintf (chars ''%d'' @ fmt) (Slot w # args) = rbind (vsprintf fmt args) (\<lambda>r. Inr (ds @ r)))) \<and>
   (\<exists>ds. num_value 16 ds = unat w \<and>
     vsprintf (chars ''%lx'' @ fmt) (Slot w # args) = rbind (vsprintf fmt args) (\<lambda>r. Inr (ds @ r))) \<and>
   (\<exists>ds. num_value 16 ds = unat (scast (ucast w :: u32) :: u64) \<and>
     vsprintf (chars ''%x'' @ fmt) (Slot w # args) = rbind (vsprintf fmt args) (\<lambda>r. Inr (ds @ r))) \<and>
   vsprintf (chars ''%c'' @ fmt) (Slot w # args) = rbind (vsprintf fmt args) (\<lambda>r. Inr (ucast w # r)) \<and>
   vsprintf (chars ''%s'' @ fmt) (Pointer (str @ [0]) # args) = rbind (vsprintf fmt args) (\<lambda>r. Inr (cstr (str @ [0]) @ r)) \<and>
   (c \<noteq> 0x25 \<longrightarrow> vsprintf (c # fmt) args = rbind (vsprintf fmt args) (\<lambda>r. Inr (c # r)))"
proof (intro conjI impI)
  show "\<exists>ds. int_value ds = sint w \<and>
     vsprintf (chars ''%ld'' @ fmt) (Slot w # args) = rbind (vsprintf fmt args) (\<lambda>r. Inr (ds @ r))"
    by (rule exI [of _ "fmt_ld w"]) (simp add: conversions fmt_ld_value)
  show "\<exists>ds. int_value ds = sint (ucast w :: u32) \<and>
     vsprintf (chars ''%d'' @ fmt) (Slot w # args) = rbind (vsprintf fmt args) (\<lambda>r. Inr (ds @ r))"
    if "sint (ucast w :: u32) \<noteq> - (2 ^ 31)"
    by (rule exI [of _ "fmt_d w"]) (simp add: conversions fmt_d_value [OF that])
  show "\<exists>ds. num_value 16 ds = unat w \<and>
     vsprintf (chars ''%lx'' @ fmt) (Slot w # args) = rbind (vsprintf fmt args) (\<lambda>r. Inr (ds @ r))"
    by (rule exI [of _ "itoa w 16"]) (simp add: conversions hex_value)
  show "\<exists>ds. num_value 16 ds = unat (scast (ucast w :: u32) :: u64) \<and>
     vsprintf (chars ''%x'' @ fmt) (Slot w # args) = rbind (vsprintf fmt args) (\<lambda>r. Inr (ds @ r))"
    by (rule exI [of _ "fmt_x w"]) (simp only: conversions fmt_x_def hex_value, simp add: fmt_x_def)
  show "vsprintf (chars ''%c'' @ fmt) (Slot w # args) = rbind (vsprintf fmt args) (\<lambda>r. Inr (ucast w # r))"
    by (simp add: conversions)
  have "take (length (cstr (str @ [0]))) (str @ [0]) = cstr (str @ [0])" by (simp only: cstr_def takeWhile_eq_take [symmetric])
  moreover have "strlen (str @ [0]) = Inr (length (cstr (str @ [0])))" by (rule strlen_cstr) simp
  ultimately show "vsprintf (chars ''%s'' @ fmt) (Pointer (str @ [0]) # args) = rbind (vsprintf fmt args) (\<lambda>r. Inr (cstr (str @ [0]) @ r))"
    by (simp add: conversions del: take_append)
qed simp

theorem printed_numbers_read_back_witness:
  "\<exists>d1 d2 d3. vsprintf (chars ''%ld'' @ chars ''%d'' @ chars ''%lx'' @ []) [Slot (- 5), Slot (- 7), Slot 0xbeef] = Inr (d1 @ d2 @ d3 @ []) \<and>
    int_value d1 = - 5 \<and> int_value d2 = - 7 \<and> num_value 16 d3 = 0xbeef"
proof -
  have ne: "sint (ucast (- 7 :: u64) :: u32) \<noteq> - (2 ^ 31)" by simp
  obtain d3 where 3: "num_value 16 d3 = unat (0xbeef :: u64)"
      "vsprintf (chars ''%lx'' @ []) (Slot 0xbeef # []) = rbind (vsprintf [] []) (\<lambda>r. Inr (d3 @ r))"
    using printed_numbers_read_back [of "0xbeef" "[]" "[]"] by blast
  obtain d2 where 2: "int_value d2 = sint (ucast (- 7 :: u64) :: u32)"
      "vsprintf (chars ''%d'' @ chars ''%lx'' @ []) (Slot (- 7) # [Slot 0xbeef]) = rbind (vsprintf (chars ''%lx'' @ []) [Slot 0xbeef]) (\<lambda>r. Inr (d2 @ r))"
    using printed_numbers_read_back [of "- 7" "chars ''%lx'' @ []" "[Slot 0xbeef]"] ne by blast
  obtain d1 where 1: "int_value d1 = sint (- 5 :: u64)"
      "vsprintf (chars ''%ld'' @ chars ''%d'' @ chars ''%lx'' @ []) (Slot (- 5) # [Slot (- 7), Slot 0xbeef]) =
        rbind (vsprintf (chars ''%d'' @ chars ''%lx'' @ []) [Slot (- 7), Slot 0xbeef]) (\<lambda>r. Inr (d1 @ r))"
    using printed_numbers_read_back [of "- 5" "chars ''%d'' @ chars ''%lx'' @ []" "[Slot (- 7), Slot 0xbeef]"] by blast
  have "vsprintf [] [] = Inr []" by simp
  then show ?thesis using 1 2 3 by (intro exI [of _ d1] exI [of _ d2] exI [of _ d3]) (simp del: vsprintf.simps)
qed

text \<open>
  The smallest 32-bit integer is printed wrongly: negating it overflows, so \<open>%d\<close> prints -18446744071562067968
  for -2147483648; and \<open>%x\<close> extends the sign, so 0x80000000 comes out as FFFFFFFF80000000.
\<close>
theorem printed_int_overflows:
  "vsprintf [0x25, 0x64] [Slot 0x80000000] = Inr (0x2d # itoa 18446744071562067968 10) \<and>
   int_value (fmt_d 0x80000000) = - 18446744071562067968 \<and> sint (ucast (0x80000000 :: u64) :: u32) = - 2147483648 \<and>
   num_value 16 (fmt_x 0x80000000) = 0xffffffff80000000"
proof -
  have b: "1 < (10 :: u64)" "(10 :: u64) \<le> 16" "1 < (16 :: u64)" "(16 :: u64) \<le> 16" by simp_all
  have s: "sint (0x80000000 :: u32) = - 2147483648" by simp
  have eq: "(- 2147483648 :: u64) = 18446744071562067968" by simp
  have d: "fmt_d 0x80000000 = 0x2d # itoa 18446744071562067968 10"
    unfolding eq [symmetric] by (simp add: fmt_d_def)
  have "num_value 10 (itoa 18446744071562067968 10) = 18446744071562067968"
    using itoa_value [OF b(1,2), of 18446744071562067968] by simp
  then have "int_value (fmt_d 0x80000000) = - 18446744071562067968" unfolding d by (simp add: int_value_def)
  moreover have "fmt_x 0x80000000 = itoa 0xffffffff80000000 16"
    unfolding eq [symmetric] by (simp add: fmt_x_def)
  then have "num_value 16 (fmt_x 0x80000000) = 0xffffffff80000000"
    using itoa_value [OF b(3,4), of "0xffffffff80000000"] by simp
  ultimately show ?thesis using d by simp
qed

text \<open>
  The string functions agree with the lists of bytes they stand for: on terminated strings \<^verbatim>\<open>strlen\<close> is the
  length, \<^verbatim>\<open>strcmp\<close> is zero exactly for equal strings, \<^verbatim>\<open>strcpy\<close> leaves the string, its terminator and the rest of
  the buffer when it fits, and \<^verbatim>\<open>strrchr\<close> finds the last occurrence.
\<close>
theorem strings_refine_lists:
  assumes "0 \<in> set as" "0 \<in> set bs" "length (cstr as) < length dst" "ch \<noteq> 0"
  shows "strlen as = Inr (length (cstr as)) \<and>
    (\<exists>r. strcmp as bs = Inr r \<and> (r = 0 \<longleftrightarrow> cstr as = cstr bs)) \<and>
    (\<exists>m. strcpy dst as = Inr m \<and> length m = length dst \<and> cstr m = cstr as \<and> drop (Suc (length (cstr as))) m = drop (Suc (length (cstr as))) dst) \<and>
    (\<exists>r. strrchr as ch = Inr r \<and> (case r of None \<Rightarrow> ch \<notin> set (cstr as)
       | Some i \<Rightarrow> i < length (cstr as) \<and> as ! i = ch \<and> (\<forall>j < length (cstr as). as ! j = ch \<longrightarrow> j \<le> i)))"
proof (intro conjI)
  show "strlen as = Inr (length (cstr as))" by (rule strlen_cstr [OF assms(1)])
  show "\<exists>r. strcmp as bs = Inr r \<and> (r = 0 \<longleftrightarrow> cstr as = cstr bs)" by (rule strcmp_cstr [OF assms(1,2)])
  have z: "0 \<notin> set (cstr as)" by (auto simp: cstr_def dest: set_takeWhileD)
  show "\<exists>m. strcpy dst as = Inr m \<and> length m = length dst \<and> cstr m = cstr as \<and> drop (Suc (length (cstr as))) m = drop (Suc (length (cstr as))) dst"
    unfolding strcpy_cstr [OF assms(1,3)] using assms(3) cstr_name(1) [OF z] by auto
  show "\<exists>r. strrchr as ch = Inr r \<and> (case r of None \<Rightarrow> ch \<notin> set (cstr as)
       | Some i \<Rightarrow> i < length (cstr as) \<and> as ! i = ch \<and> (\<forall>j < length (cstr as). as ! j = ch \<longrightarrow> j \<le> i))"
  proof (cases "ch \<in> set (cstr as)")
    case False
    then show ?thesis using strrchr_from_spec [OF assms(1,4), of 0 None] by (simp add: strrchr_def)
  next
    case True
    let ?s = "cstr as"
    define w where "w = length (takeWhile (\<lambda>c. c \<noteq> ch) (rev ?s))"
    have w: "w < length ?s" using True length_takeWhile_mem [of ch "rev ?s" "\<lambda>c. c \<noteq> ch"] by (simp add: w_def)
    have nth: "as ! i = ?s ! i" if "i < length ?s" for i
      using that by (simp add: cstr_def takeWhile_nth)
    have "rev ?s ! w = ch" using w nth_length_takeWhile [of "\<lambda>c. c \<noteq> ch" "rev ?s"] by (simp add: w_def)
    then have at: "?s ! (length ?s - 1 - w) = ch" using w by (simp add: rev_nth)
    have "j \<le> length ?s - 1 - w" if j: "j < length ?s" "?s ! j = ch" for j
    proof (rule ccontr)
      assume "\<not> j \<le> length ?s - 1 - w"
      then have lt: "length ?s - 1 - j < w" using j(1) by arith
      then have "takeWhile (\<lambda>c. c \<noteq> ch) (rev ?s) ! (length ?s - 1 - j) = rev ?s ! (length ?s - 1 - j)"
        unfolding w_def by (rule takeWhile_nth)
      also have "\<dots> = ch" using j by (simp add: rev_nth)
      finally show False using lt nth_mem [of "length ?s - 1 - j" "takeWhile (\<lambda>c. c \<noteq> ch) (rev ?s)"]
        unfolding w_def by (auto dest: set_takeWhileD)
    qed
    then show ?thesis using strrchr_from_spec [OF assms(1,4), of 0 None] True at nth w
      by (intro exI [of _ "Some (length ?s - 1 - w)"]) (simp add: strrchr_def w_def)
  qed
qed

theorem strings_refine_lists_witness:
  "strlen [0x2f, 0x61, 0x2f, 0x62, 0] = Inr 4 \<and> (\<exists>r. strcmp [0x2f, 0x61, 0x2f, 0x62, 0] [0x2f, 0] = Inr r \<and> r \<noteq> 0) \<and>
   (\<exists>m. strcpy (replicate 8 7) [0x2f, 0x61, 0x2f, 0x62, 0] = Inr m \<and> drop 5 m = [7, 7, 7])"
proof -
  have c: "cstr [0x2f, 0x61, 0x2f, 0x62, 0] = [0x2f, 0x61, 0x2f, 0x62]" "cstr [0x2f, 0] = [0x2f]"
    by (simp_all add: cstr_def)
  have d: "drop 5 (replicate 8 7) = [7, 7, 7 :: byte]" by (simp add: numeral_eq_Suc)
  have n: "Suc (length (cstr [0x2f, 0x61, 0x2f, 0x62, 0])) = 5" "length (cstr [0x2f, 0x61, 0x2f, 0x62, 0]) = 4"
    unfolding c by simp_all
  have pre: "0 \<in> set [0x2f, 0x61, 0x2f, 0x62, 0 :: byte]" "0 \<in> set [0x2f, 0 :: byte]"
    "length (cstr [0x2f, 0x61, 0x2f, 0x62, 0]) < length (replicate 8 (7 :: byte))" "(0x2f :: byte) \<noteq> 0"
    unfolding n by simp_all
  have ne: "cstr [0x2f, 0x61, 0x2f, 0x62, 0] \<noteq> cstr [0x2f, 0]" unfolding c by simp
  have five: "Suc 4 = (5 :: nat)" by simp
  note w = strings_refine_lists [OF pre, unfolded n five d]
  have "strlen [0x2f, 0x61, 0x2f, 0x62, 0] = Inr 4" using w by (elim conjE)
  moreover have "\<exists>r. strcmp [0x2f, 0x61, 0x2f, 0x62, 0] [0x2f, 0] = Inr r \<and> r \<noteq> 0"
    using w ne by (elim conjE exE) (intro exI conjI, assumption, simp only: not_False_eq_True)
  moreover have "\<exists>m. strcpy (replicate 8 7) [0x2f, 0x61, 0x2f, 0x62, 0] = Inr m \<and> drop 5 m = [7, 7, 7]"
    using w by (elim conjE exE) (intro exI conjI, assumption+)
  ultimately show ?thesis by (intro conjI)
qed

end
