(* ===== verification/DiskInit.thy ===== *)
theory DiskInit
  imports Intr Stdio
begin

text \<open>
  The start of the disk driver (\<^verbatim>\<open>ide_init\<close> of \<^verbatim>\<open>device/ide.c\<close>): the channels, the identification of each drive and
  the scan of its partition table. What a drive answers is an argument. As in \<open>Disk\<close> the outer option is the end of
  the loops with wrapping counters, and the waits on \<^verbatim>\<open>disk_done\<close> are those of \<open>Sync\<close>.
\<close>

section \<open>Identification\<close>

definition CMD_IDENTIFY :: byte where "CMD_IDENTIFY = 0xec"

definition obind :: "'a res option \<Rightarrow> ('a \<Rightarrow> 'b res option) \<Rightarrow> 'b res option" where
  "obind m f = (case m of None \<Rightarrow> None | Some (Inl e) \<Rightarrow> Some (Inl e) | Some (Inr x) \<Rightarrow> f x)"

lemma obind_simps [simp]: "obind None f = None" "obind (Some (Inl e)) f = Some (Inl e)" "obind (Some (Inr x)) f = f x"
  by (simp_all add: obind_def)

text \<open>
  The port operations, and what is printed: name, serial number, model, sectors and capacity. \<open>stack\<close> is what the
  64 bytes of \<^verbatim>\<open>buf\<close> hold first, \<open>id_at\<close> where \<^verbatim>\<open>id_info\<close> lies. The capacity is computed in 32 bits.
\<close>

definition capacity :: "u32 \<Rightarrow> u32" where
  "capacity n = n * 512 div 1024 div 1024"

definition identify_disk :: "disk \<Rightarrow> byte list \<Rightarrow> (nat \<Rightarrow> byte) \<Rightarrow> byte list \<Rightarrow> byte list \<Rightarrow> u64 \<Rightarrow> (port_op list \<times> byte list) res option" where
  "identify_disk dk nm st id_info stack id_at =
     (let ops = select_disk dk @ cmd_out dk CMD_IDENTIFY in
      if \<not> fst (busy_wait st) then Some (Inl (Panic ''identify failed''))
      else
        let ops = ops @ read_from_sector dk id_at 1 in
        obind (swap_pairs_bytes (drop (10 * 2) id_info) stack 20) (\<lambda>buf.
        obind (Some (printk (chars ''disk %s info:'' @ [0x0a] @ chars ''SN:'' @ [0x09] @ chars ''%s'' @ [0x0a]) [Pointer nm, Pointer buf])) (\<lambda>(o1, _).
        let buf = replicate 64 0 in
        obind (swap_pairs_bytes (drop (27 * 2) id_info) buf 40) (\<lambda>buf.
        obind (Some (printk (chars ''MODULE:'' @ [0x09] @ chars ''%s'' @ [0x0a]) [Pointer buf])) (\<lambda>(o2, _).
        let n = le32 id_info (60 * 2) in
        obind (Some (printk (chars ''SECTORS:'' @ [0x09] @ chars ''%d'' @ [0x0a]) [Slot (ucast n)])) (\<lambda>(o3, _).
        obind (Some (printk (chars ''CAPACITY:'' @ [0x09] @ chars ''%dMB'' @ [0x0a]) [Slot (ucast (capacity n))])) (\<lambda>(o4, _).
        Some (Inr (ops, o1 @ o2 @ o3 @ o4)))))))))"

section \<open>The channels\<close>

text \<open>What a drive answers: status words and data of the identification and of the read of its first sector.\<close>

record drive =
  id_status :: "nat \<Rightarrow> byte"
  id_data :: "byte list"
  read_status :: "u32 \<Rightarrow> nat \<Rightarrow> byte"
  boot_sector :: "byte list"

record device =
  dev_name :: string
  drive_no :: byte
  on_channel :: nat
  prim_parts :: "partition list"

definition channel_lock :: "nat \<Rightarrow> lock_id" where "channel_lock i = 16 + i"

record ide_sys =
  sys :: disk_sys
  hdls :: "u64 list"
  devices :: "device list"
  printed :: "byte list"

definition channel_init :: "nat \<Rightarrow> u64 \<Rightarrow> ide_sys \<Rightarrow> ide_sys res" where
  "channel_init i intr_hd x =
     (if length (channels (sys x)) \<le> i then Inl (Fault ''channels'')
      else
        let c = channels (sys x) ! i;
            c = (if i = 0 then c\<lparr>port_base := 0x1f0, irq_no := 0x20 + 14\<rparr>
                 else if i = 1 then c\<lparr>port_base := 0x170, irq_no := 0x20 + 15\<rparr> else c)\<lparr>expecting_intr := False\<rparr> in
        rbind (lock_init (channel_lock i) ((sys x)\<lparr>channels := (channels (sys x))[i := c]\<rparr>)) (\<lambda>s.
        rbind (sema_init (DiskDone i) 0 s) (\<lambda>s.
        rbind (register_intr_hdl (uint (irq_no c)) intr_hd (hdls x)) (\<lambda>h.
        Inr (x\<lparr>sys := s, hdls := h\<rparr>)))))"

text \<open>The two devices of channel \<open>i\<close>; \<open>True\<close> when the last drive was passed, which ends \<^verbatim>\<open>channels_init\<close>.\<close>

definition device_init :: "byte list \<Rightarrow> u64 \<Rightarrow> u64 \<Rightarrow> (nat \<Rightarrow> drive) \<Rightarrow> nat \<Rightarrow> byte \<Rightarrow> ide_sys \<Rightarrow> ide_sys res option" where
  "device_init stack id_at bs_buf drives i no x =
     (let dk = \<lparr>my_channel = channels (sys x) ! i, dev_no = no\<rparr>; nm = ''sd'' @ [char_of (97 + unat no)]; d = drives (unat no) in
      obind (identify_disk dk (chars nm @ [0]) (id_status d) (id_data d) stack id_at) (\<lambda>(_, out).
      obind (ide_read dk 0 bs_buf 1 (read_status d)) (\<lambda>_.
      Some (Inr (x\<lparr>devices := devices x @ [\<lparr>dev_name = nm, drive_no = no, on_channel = i, prim_parts = partition_scan nm (boot_sector d)\<rparr>],
        printed := printed x @ out\<rparr>)))))"

fun devices_init :: "byte list \<Rightarrow> u64 \<Rightarrow> u64 \<Rightarrow> (nat \<Rightarrow> drive) \<Rightarrow> byte \<Rightarrow> nat \<Rightarrow> nat list \<Rightarrow> ide_sys \<Rightarrow> (bool \<times> ide_sys) res option" where
  "devices_init stack id_at bs_buf drives hd_cnt i [] x = Some (Inr (False, x))"
| "devices_init stack id_at bs_buf drives hd_cnt i (j # js) x =
     (let no = of_nat (i * 2 + j) in
      if hd_cnt \<le> no then Some (Inr (True, x))
      else obind (device_init stack id_at bs_buf drives i no x) (devices_init stack id_at bs_buf drives hd_cnt i js))"

fun channels_from :: "byte list \<Rightarrow> u64 \<Rightarrow> u64 \<Rightarrow> u64 \<Rightarrow> (nat \<Rightarrow> drive) \<Rightarrow> byte \<Rightarrow> nat \<Rightarrow> nat \<Rightarrow> ide_sys \<Rightarrow> ide_sys res option" where
  "channels_from stack id_at bs_buf intr_hd drives hd_cnt i 0 x = Some (Inr x)"
| "channels_from stack id_at bs_buf intr_hd drives hd_cnt i (Suc n) x =
     obind (Some (channel_init i intr_hd x)) (\<lambda>x.
     obind (devices_init stack id_at bs_buf drives hd_cnt i [0, 1] x) (\<lambda>(last_passed, x).
     if last_passed then Some (Inr x) else channels_from stack id_at bs_buf intr_hd drives hd_cnt (Suc i) n x))"

definition channels_init :: "byte list \<Rightarrow> u64 \<Rightarrow> u64 \<Rightarrow> u64 \<Rightarrow> (nat \<Rightarrow> drive) \<Rightarrow> byte \<Rightarrow> ide_sys \<Rightarrow> ide_sys res option" where
  "channels_init stack id_at bs_buf intr_hd drives hd_cnt x =
     (if hd_cnt = 0 then Some (Inl (Panic ''hd_cnt > 0''))
      else channels_from stack id_at bs_buf intr_hd drives hd_cnt 0 ((unat hd_cnt + 1) div 2) (x\<lparr>devices := []\<rparr>))"

definition partition_info :: "partition \<Rightarrow> byte list res" where
  "partition_info part =
     rbind (printk (chars ''%s start_lba: 0x%x, sec_cnt: 0x%x'' @ [0x0a])
       [Pointer (chars (part_name part) @ [0]), Slot (ucast (start_lba part)), Slot (ucast (partition.sec_cnt part))]) (\<lambda>(out, _). Inr out)"

section \<open>What is printed\<close>

text \<open>The words of the identification hold two characters each, the first in the high byte.\<close>

fun pairs :: "byte list \<Rightarrow> byte list" where
  "pairs (a # b # r) = b # a # pairs r"
| "pairs r = []"

lemma swap_step:
  assumes "unat ix = p" "unat (ix + 1) = p + 1" "ucast ix < len" "p + 1 < length dst" "p + 1 < length buf"
  shows "swap_loop dst buf len ix p = swap_loop dst (buf[p + 1 := dst ! p, p := dst ! (p + 1)]) len (ix + 2) (p + 2)"
  using assms by (subst swap_loop.simps) simp

lemma swap_loop_swaps:
  assumes "k \<le> m" "m \<le> 120" "2 * m < length buf" "2 * m \<le> length dst"
  shows "swap_loop dst buf (of_nat (2 * m)) (of_nat (2 * k)) (2 * k) =
    Some (Inr (take (2 * k) buf @ pairs (take (2 * (m - k)) (drop (2 * k) dst)) @ 0 # drop (2 * m + 1) buf))"
  using assms
proof (induction "m - k" arbitrary: k buf)
  case 0
  then have "k = m" by simp
  moreover have "unat (of_nat (2 * m) :: byte) = 2 * m"
    unfolding unsigned_of_nat of_nat_id using 0 by (intro take_bit_nat_eq_self) simp
  moreover have "ucast (of_nat (2 * m) :: byte) = (of_nat (2 * m) :: u64)"
    unfolding unsigned_of_nat using 0 by (subst take_bit_nat_eq_self) simp_all
  ultimately show ?case using 0 by (subst swap_loop.simps) (simp add: upd_conv_take_nth_drop)
next
  case (Suc n)
  then have k: "k < m" "n = m - Suc k" by simp_all
  have u: "unat (of_nat (2 * k) :: byte) = 2 * k" "unat (of_nat (2 * k) + 1 :: byte) = 2 * k + 1"
  proof -
    show "unat (of_nat (2 * k) :: byte) = 2 * k"
      unfolding unsigned_of_nat of_nat_id using k Suc.prems by (intro take_bit_nat_eq_self) simp
    have "unat (of_nat (2 * k + 1) :: byte) = 2 * k + 1"
      unfolding unsigned_of_nat of_nat_id using k Suc.prems by (intro take_bit_nat_eq_self) simp
    then show "unat (of_nat (2 * k) + 1 :: byte) = 2 * k + 1" by (simp add: add.commute)
  qed
  have "(ucast (of_nat (2 * k) :: byte) :: u64) = of_nat (2 * k)"
    unfolding unsigned_of_nat using k Suc.prems by (subst take_bit_nat_eq_self) simp_all
  moreover have "(of_nat (2 * k) :: u64) < of_nat (2 * m)"
    unfolding word_less_nat_alt unsigned_of_nat of_nat_id using k Suc.prems by (subst (1 2) take_bit_nat_eq_self) simp_all
  ultimately have lt: "ucast (of_nat (2 * k) :: byte) < (of_nat (2 * m) :: u64)" by simp
  let ?b = "buf[2 * k + 1 := dst ! (2 * k), 2 * k := dst ! (2 * k + 1)]"
  have step: "swap_loop dst buf (of_nat (2 * m)) (of_nat (2 * k)) (2 * k) = swap_loop dst ?b (of_nat (2 * m)) (of_nat (2 * Suc k)) (2 * Suc k)"
    using swap_step [OF u lt, of dst buf] k Suc.prems by (simp add: add.commute)
  have rest: "swap_loop dst ?b (of_nat (2 * m)) (of_nat (2 * Suc k)) (2 * Suc k) =
      Some (Inr (take (2 * Suc k) ?b @ pairs (take (2 * (m - Suc k)) (drop (2 * Suc k) dst)) @ 0 # drop (2 * m + 1) ?b))"
    by (rule Suc.hyps(1)) (use Suc.prems k in simp_all)
  have t: "take (2 * Suc k) ?b = take (2 * k) buf @ [dst ! (2 * k + 1), dst ! (2 * k)]"
    by (rule nth_equalityI) (use Suc.prems k in \<open>auto simp: nth_append nth_list_update less_Suc_eq\<close>)
  have d: "take (2 * (m - k)) (drop (2 * k) dst) = dst ! (2 * k) # dst ! (2 * k + 1) # take (2 * (m - Suc k)) (drop (2 * Suc k) dst)"
  proof -
    have "drop (2 * k) dst = dst ! (2 * k) # dst ! (2 * k + 1) # drop (2 * Suc k) dst"
      using Suc.prems k by (simp add: Cons_nth_drop_Suc)
    moreover have "2 * (m - k) = Suc (Suc (2 * (m - Suc k)))" using k by simp
    ultimately show ?thesis by simp
  qed
  have "drop (2 * m + 1) ?b = drop (2 * m + 1) buf" using k by simp
  then show ?case unfolding step rest t d by simp
qed

lemma swap_pairs_bytes_swaps:
  assumes "m \<le> 120" "2 * m < length buf" "2 * m \<le> length dst"
  shows "swap_pairs_bytes dst buf (of_nat (2 * m)) = Some (Inr (pairs (take (2 * m) dst) @ 0 # drop (2 * m + 1) buf))"
  using swap_loop_swaps [of 0 m buf dst] assms by (simp add: swap_pairs_bytes_def)

text \<open>The capacity in MB is right below 4 GB and wraps there.\<close>

lemma capacity_wraps: "unat (capacity n) = unat n mod 2 ^ 23 div 2048"
proof -
  have "unat (n * 512) = 512 * (unat n mod 2 ^ 23)"
    by (simp add: unat_word_ariths mult.commute mult_mod_right)
  then show ?thesis by (simp add: capacity_def unat_div)
qed

end
