(* ===== verification/Process.thy ===== *)
theory Process
  imports FileCall
begin

text \<open>
  Threads and processes: creation and end of a thread (\<^verbatim>\<open>thread/thread.c\<close>), user processes
  (\<^verbatim>\<open>userprog/process.c\<close>), \<^verbatim>\<open>fork\<close> (\<^verbatim>\<open>userprog/fork.c\<close>), \<^verbatim>\<open>exit\<close> and \<^verbatim>\<open>wait\<close> (\<^verbatim>\<open>userprog/wait_exit.c\<close>). The state
  adds to the kernel's the user memory of each process: which pages are mapped, the bytes in them, and the
  bitmap of its pool (theory \<open>Paging\<close> has the page tables behind it). \<open>frames\<close> counts the page frames left,
  \<open>fresh\<close> is what a new page holds. \<open>entry\<close> is the \<^verbatim>\<open>thread_stack\<close> at the upper end of the page of a thread, from
  which \<^verbatim>\<open>switch_to\<close> starts it; code addresses in it are the names of the functions. All functions run with interrupts off, so no other thread holds
  \<^verbatim>\<open>pid_lock\<close> when they take it; taking it while it is held would end in \<open>Fault\<close>.
\<close>

section \<open>State\<close>

definition PG_SIZE :: u64 where "PG_SIZE = 4096"
definition USER_START_ADDR :: u64 where "USER_START_ADDR = 0x1000"
definition USER_STACK_VADDR :: u64 where "USER_STACK_VADDR = 0x800000000000"
definition STACK_PAGE_CNT :: nat where "STACK_PAGE_CNT = 2"
definition pid_lock :: lock_id where "pid_lock = 1"

record space =
  mapped :: "u64 \<Rightarrow> bool"
  umem :: "u64 \<Rightarrow> byte"
  upool :: bitmap

record thread_stack =
  st_rsi :: u64
  st_rdi :: "string option"
  st_rbp :: u64
  st_rip :: string

record proc = kern +
  spaces :: "tid \<Rightarrow> space"
  frames :: nat
  fresh :: "u64 \<Rightarrow> byte"
  entry :: "tid \<Rightarrow> thread_stack"
  ist1 :: u64
  fork_rbp :: u64

definition page_of :: "u64 \<Rightarrow> u64" where
  "page_of v = v AND 0xfffffffffffff000"

text \<open>\<^verbatim>\<open>get_pages\<close> in the address space of \<open>t\<close>: \<open>False\<close> when the frames run out.\<close>

fun get_upages :: "tid \<Rightarrow> u64 \<Rightarrow> nat \<Rightarrow> proc \<Rightarrow> (bool \<times> proc) res" where
  "get_upages t vaddr 0 s = Inr (True, s)"
| "get_upages t vaddr (Suc n) s =
     (if frames s = 0 then Inr (False, s)
      else
        rbind (kassert (\<not> mapped (spaces s t) (page_of vaddr)) ''stat != 4'') (\<lambda>_.
        let sp = spaces s t;
            sp = sp\<lparr>mapped := (mapped sp)(page_of vaddr := True),
                    umem := (\<lambda>a. if page_of a = page_of vaddr then fresh s a else umem sp a)\<rparr> in
        get_upages t (vaddr + PG_SIZE) n (s\<lparr>spaces := (spaces s)(t := sp), frames := frames s - 1\<rparr>)))"

section \<open>Process numbers\<close>

definition with_pid_lock :: "('a kern_scheme \<Rightarrow> ('b \<times> 'a kern_scheme) res) \<Rightarrow> 'a kern_scheme \<Rightarrow> ('b \<times> 'a kern_scheme) res" where
  "with_pid_lock f s =
     rbind (lock_acquire pid_lock s) (\<lambda>(got, s).
     if \<not> got then Inl (Fault ''pid_lock'')
     else rbind (f s) (\<lambda>(x, s). rbind (lock_release pid_lock s) (\<lambda>s. Inr (x, s))))"

definition pid_pool_init :: "'a kern_scheme \<Rightarrow> 'a kern_scheme res" where
  "pid_pool_init s =
     rbind (bitmap_init \<lparr>bytes_len = 128, bits = replicate 128 0\<rparr>) (\<lambda>b. lock_init pid_lock (s\<lparr>pid_bitmap := b\<rparr>))"

definition alloc_pid :: "'a kern_scheme \<Rightarrow> (pid_t \<times> 'a kern_scheme) res" where
  "alloc_pid = with_pid_lock (\<lambda>s.
     rbind (bitmap_alloc_a_bit (pid_bitmap s)) (\<lambda>(b, bit_idx). Inr (of_int (bit_idx + 1), s\<lparr>pid_bitmap := b\<rparr>)))"

text \<open>The difference of the two numbers is an \<^verbatim>\<open>int\<close>, the index of \<^verbatim>\<open>bitmap_set\<close> a \<^verbatim>\<open>size_t\<close>.\<close>

definition release_pid :: "pid_t \<Rightarrow> 'a kern_scheme \<Rightarrow> 'a kern_scheme res" where
  "release_pid p s =
     rbind (with_pid_lock (\<lambda>s.
       let idx = (of_int (sint p - 1) :: u64) in
       rbind (bitmap_set (pid_bitmap s) (unat idx) False) (\<lambda>b. Inr ((), s\<lparr>pid_bitmap := b\<rparr>))) s)
     (\<lambda>(_, s). Inr s)"

section \<open>Threads\<close>

text \<open>\<open>k\<close> is what the new page holds: \<^verbatim>\<open>parent_pid\<close> and \<^verbatim>\<open>exit_status\<close> are not set.\<close>

definition init_thread :: "task \<Rightarrow> string \<Rightarrow> byte \<Rightarrow> 'a kern_scheme \<Rightarrow> (task \<times> 'a kern_scheme) res" where
  "init_thread k nm pr s =
     rbind (alloc_pid s) (\<lambda>(p, s).
     rbind (if length nm < TASK_NAME_LEN then Inr () else Inl (Fault ''name'')) (\<lambda>_.
     Inr (k\<lparr>pid := p, name := nm, prio := pr, ticks := pr, stat := TASK_READY, pml4 := None,
            stack_magic := STACK_MAGIC, istack_magic := STACK_MAGIC, cwd_i_no := 0,
            fd_table := [0, 1, 2] @ replicate (MAX_FILES_OPEN_PER_PROC - 3) (-1)\<rparr>, s)))"

text \<open>\<^verbatim>\<open>rbp\<close> and the other registers keep what the page holds.\<close>

definition create_thread :: "tid \<Rightarrow> string \<Rightarrow> u64 \<Rightarrow> proc \<Rightarrow> proc" where
  "create_thread t func arg s =
     s\<lparr>entry := (entry s)(t := (entry s t)\<lparr>st_rsi := arg, st_rdi := Some func, st_rip := ''kernel_thread''\<rparr>)\<rparr>"

text \<open>The page the kernel allocates for a thread, with its old contents \<open>k\<close>; \<open>func\<close> and \<open>arg\<close> go to its stack.\<close>

definition thread_start :: "task \<Rightarrow> string \<Rightarrow> byte \<Rightarrow> string \<Rightarrow> u64 \<Rightarrow> proc \<Rightarrow> (tid \<times> proc) res" where
  "thread_start k nm pr func arg s =
     (let (page, s) = alloc_page s; t = unat page in
      rbind (kassert (page \<noteq> 0) ''thread != NULL'') (\<lambda>_.
      rbind (init_thread k nm pr s) (\<lambda>(k, s).
      let s = create_thread t func arg (put_task t k s) in
      rbind (kassert (AllTag t \<notin> set (all_threads_list s)) ''!elem_find(&all_threads_list)'') (\<lambda>_.
      let s = s\<lparr>all_threads_list := all_threads_list s @ [AllTag t]\<rparr> in
      rbind (kassert (General t \<notin> set (ready_threads_list s)) ''!elem_find(&ready_threads_list)'') (\<lambda>_.
      Inr (t, s\<lparr>ready_threads_list := ready_threads_list s @ [General t]\<rparr>))))))"

text \<open>
  \<^verbatim>\<open>elem_find\<close> looks for the ready-list link in the list of all threads. The page of the thread is freed, so its
  structure is gone, before \<^verbatim>\<open>schedule\<close> is called.
\<close>

definition thread_exit :: "tid \<Rightarrow> bool \<Rightarrow> 'a kern_scheme \<Rightarrow> 'a kern_scheme res" where
  "thread_exit t need_schedule s =
     (let (old_stat, s) = set_intr_stat intr_off s in
      rbind (the_task s t) (\<lambda>k.
      let s = put_task t (k\<lparr>stat := TASK_DIED\<rparr>) s;
          s = (if General t \<in> set (all_threads_list s) then s\<lparr>all_threads_list := remove1 (General t) (all_threads_list s)\<rparr> else s);
          s = (case pml4 k of None \<Rightarrow> s | Some p \<Rightarrow> s\<lparr>pages_freed := p # pages_freed s\<rparr>);
          s = s\<lparr>all_threads_list := remove1 (AllTag t) (all_threads_list s)\<rparr> in
      rbind (release_pid (pid k) s) (\<lambda>s.
      let s = (if t \<noteq> main_thread s then s\<lparr>tasks := (tasks s)(t := None), pages_freed := t # pages_freed s\<rparr> else s) in
      if need_schedule then rbind (schedule s) (\<lambda>s. Inl (Panic ''thread_exit: should not be here''))
      else Inr (snd (set_intr_stat old_stat s)))))"

text \<open>\<^verbatim>\<open>list_traversal\<close> over the list of all threads: the first thread that satisfies \<open>P\<close>.\<close>

fun find_thread :: "(task \<Rightarrow> bool) \<Rightarrow> tag list \<Rightarrow> 'a sched_scheme \<Rightarrow> tid option res" where
  "find_thread P [] s = Inr None"
| "find_thread P (AllTag t # ts) s = rbind (the_task s t) (\<lambda>k. if P k then Inr (Some t) else find_thread P ts s)"
| "find_thread P (General t # ts) s = Inl (Fault ''all_list_tag'')"

definition pid2thread :: "pid_t \<Rightarrow> 'a sched_scheme \<Rightarrow> tid option res" where
  "pid2thread p s = find_thread (\<lambda>k. pid k = p) (all_threads_list s) s"

definition make_main_thread :: "proc \<Rightarrow> proc res" where
  "make_main_thread s =
     rbind (the_task s (main_thread s)) (\<lambda>k.
     rbind (init_thread k ''main'' 31 s) (\<lambda>(k, s).
     let s = put_task (main_thread s) (k\<lparr>stat := TASK_RUNNING\<rparr>) s in
     rbind (kassert (AllTag (main_thread s) \<notin> set (all_threads_list s)) ''!elem_find(&all_threads_list)'') (\<lambda>_.
     Inr (s\<lparr>all_threads_list := all_threads_list s @ [AllTag (main_thread s)], ist2 := main_thread s\<rparr>))))"

section \<open>Processes\<close>

text \<open>A page for the top-level table; its entries are the business of theory \<open>Paging\<close>.\<close>

definition create_pml4 :: "'a kern_scheme \<Rightarrow> nat option \<times> 'a kern_scheme" where
  "create_pml4 s = (let (page, s) = alloc_page s in (if page = 0 then None else Some (unat page), s))"

definition empty_upool :: bitmap where
  "empty_upool = \<lparr>bytes_len = 256, bits = replicate 256 0\<rparr>"

definition process_execute :: "task \<Rightarrow> u64 \<Rightarrow> string \<Rightarrow> proc \<Rightarrow> (tid \<times> proc) res" where
  "process_execute k fname nm s =
     (let (old_stat, s) = set_intr_stat intr_off s in
      rbind (thread_start k nm 31 ''start_process'' fname s) (\<lambda>(t, s).
      let (p, s) = create_pml4 s in
      rbind (the_task s t) (\<lambda>k.
      rbind (kassert (p \<noteq> None) ''thread->pml4'') (\<lambda>_.
      let s = put_task t (k\<lparr>pml4 := p\<rparr>) s;
          s = s\<lparr>spaces := (spaces s)(t := (spaces s t)\<lparr>mapped := (\<lambda>_. False), upool := empty_upool\<rparr>)\<rparr> in
      Inr (t, snd (set_intr_stat old_stat s))))))"

text \<open>\<^verbatim>\<open>thread_init\<close>; \<open>k\<close> and \<open>k'\<close> are the old contents of the two pages, \<open>init\<close> the address of the first program.\<close>

definition thread_init :: "task \<Rightarrow> task \<Rightarrow> u64 \<Rightarrow> proc \<Rightarrow> proc res" where
  "thread_init k k' init s =
     (let s = s\<lparr>all_threads_list := [], ready_threads_list := []\<rparr> in
      rbind (pid_pool_init s) (\<lambda>s.
      rbind (process_execute k init ''init'' s) (\<lambda>(t, s).
      let s = s\<lparr>init_proc := t\<rparr> in
      rbind (make_main_thread s) (\<lambda>s.
      rbind (thread_start k' ''idle'' 10 ''idle'' 0 s) (\<lambda>(t, s).
      let (page, s) = alloc_page (s\<lparr>idle_thread := t\<rparr>) in
      Inr (s\<lparr>ist1 := page + PG_SIZE\<rparr>))))))"

text \<open>
  \<^verbatim>\<open>start_process\<close> up to the jump to user code: the frame the processor returns with, and whether the process is
  the first one, which blocks before it starts.
\<close>

record intr_frame =
  rip :: u64
  cs :: u64
  ss :: u64
  rflags :: u64
  rsp :: u64

definition start_process :: "u64 \<Rightarrow> proc \<Rightarrow> (intr_frame \<times> proc) res" where
  "start_process fname s =
     (let cur = running_thread s in
      rbind (get_upages cur (USER_STACK_VADDR - of_nat STACK_PAGE_CNT * PG_SIZE) STACK_PAGE_CNT s) (\<lambda>(ok, s).
      rbind (kassert ok ''get_pages != NULL'') (\<lambda>_.
      let f = \<lparr>rip = fname, cs = 0x33, ss = 0x2b, rflags = 0x202, rsp = USER_STACK_VADDR\<rparr> in
      if cur = init_proc s then rbind (thread_block TASK_BLOCKED s) (\<lambda>(_, s). Inr (f, s)) else Inr (f, s))))"

section \<open>Fork\<close>

text \<open>
  The copy of the page of the parent, then the fields that differ. The free lists of the heap of the process
  (\<^verbatim>\<open>u_v_pool.descs\<close>) are not part of \<open>task\<close>.
\<close>

definition copy_pcb :: "tid \<Rightarrow> tid \<Rightarrow> proc \<Rightarrow> proc res" where
  "copy_pcb child parent s =
     rbind (the_task s parent) (\<lambda>pk.
     rbind (alloc_pid s) (\<lambda>(p, s).
     let s = put_task child (pk\<lparr>pid := p, stat := TASK_READY, ticks := prio pk, parent_pid := pid pk\<rparr>) s in
     Inr (s\<lparr>spaces := (spaces s)(child := (spaces s child)\<lparr>upool := upool (spaces s parent)\<rparr>)\<rparr>)))"

text \<open>Eight bytes of the memory of a process.\<close>

definition store_u64 :: "tid \<Rightarrow> u64 \<Rightarrow> u64 \<Rightarrow> proc \<Rightarrow> proc res" where
  "store_u64 t a v s =
     (let sp = spaces s t in
      if mapped sp (page_of a) \<and> mapped sp (page_of (a + 7))
      then Inr (s\<lparr>spaces := (spaces s)(t := sp\<lparr>umem := (\<lambda>x. if x - a < 8 then le 8 v ! unat (x - a) else umem sp x)\<rparr>)\<rparr>)
      else Inl (Fault ''user page''))"

definition load_u64 :: "tid \<Rightarrow> u64 \<Rightarrow> proc \<Rightarrow> u64 res" where
  "load_u64 t a s =
     (let sp = spaces s t in
      if mapped sp (page_of a) \<and> mapped sp (page_of (a + 7))
      then Inr (unle (map (\<lambda>i. umem sp (a + of_nat i)) [0..<8])) else Inl (Fault ''user page''))"

text \<open>
  The child continues in the frame that \<^verbatim>\<open>system_call\<close> has built on the user stack; the global \<^verbatim>\<open>rbp\<close> is its frame
  pointer. The word below it is where \<^verbatim>\<open>system_ret\<close> finds the value the call returns. The store changes the memory of
  the process that runs, the parent, before its stack is copied.
\<close>

definition build_child_environment :: "tid \<Rightarrow> proc \<Rightarrow> proc res" where
  "build_child_environment child s =
     (let s = s\<lparr>entry := (entry s)(child :=
            \<lparr>st_rsi = 0, st_rdi = None, st_rbp = fork_rbp s, st_rip = ''system_ret''\<rparr>)\<rparr> in
      store_u64 (running_thread s) (fork_rbp s - 8) 0 s)"

text \<open>
  The first run of a thread whose stack \<^verbatim>\<open>fork\<close> has built: \<^verbatim>\<open>switch_to\<close> pops the frame pointer and returns to
  \<^verbatim>\<open>system_ret\<close>, which loads the value that the system call returns from the word below it.
\<close>

definition first_return :: "tid \<Rightarrow> proc \<Rightarrow> u64 res" where
  "first_return t s =
     (if st_rip (entry s t) = ''system_ret'' then load_u64 t (st_rbp (entry s t) - 8) s else Inl (Fault ''system_ret''))"

fun update_fds :: "nat list \<Rightarrow> int list \<Rightarrow> 'a kern_scheme \<Rightarrow> 'a kern_scheme res" where
  "update_fds [] fds s = Inr s"
| "update_fds (i # is) fds s =
     (let g = fds ! i in
      rbind (kassert (g < int MAX_FILES_OPEN) ''global_fd < MAX_FILES_OPEN'') (\<lambda>_.
      rbind
        (if g = -1 then Inr s
         else rbind (is_pipe (int i) s) (\<lambda>pipe.
           if g < 0 then Inl (Fault ''file_table'')
           else rbind (the_file (nat g) s) (\<lambda>f.
             if pipe then Inr (put_file (nat g) (f\<lparr>fd_pos := fd_pos f + 1\<rparr>) s)
             else rbind (the_inode (fd_inode f) (kfs s)) (\<lambda>i.
               Inr (s\<lparr>kfs := put_inode (fd_inode f) (i\<lparr>i_open_cnts := i_open_cnts i + 1\<rparr>) (kfs s)\<rparr>)))))
      (update_fds is fds)))"

definition update_inode_open_cnts :: "tid \<Rightarrow> 'a kern_scheme \<Rightarrow> 'a kern_scheme res" where
  "update_inode_open_cnts t s = rbind (the_task s t) (\<lambda>k. update_fds [3..<MAX_FILES_OPEN_PER_PROC] (fd_table k) s)"

text \<open>
  \<open>copy_upages c p v n\<close>: \<open>n\<close> pages from \<open>v\<close> on of the memory of \<open>p\<close>, which must be mapped, to that of \<open>c\<close>, where
  \<^verbatim>\<open>get_pages\<close> has mapped them.
\<close>

definition copy_upages :: "tid \<Rightarrow> tid \<Rightarrow> u64 \<Rightarrow> nat \<Rightarrow> proc \<Rightarrow> proc res" where
  "copy_upages child parent v n s =
     (let pgs = map (\<lambda>i. v + of_nat i * PG_SIZE) [0..<n] in
      if \<not> list_all (mapped (spaces s parent)) pgs then Inl (Fault ''user page'')
      else
        rbind (get_upages child v n s) (\<lambda>(ok, s).
        if \<not> list_all (mapped (spaces s child)) pgs then Inl (Fault ''user page'')
        else
          let sp = spaces s child in
          Inr (s\<lparr>spaces := (spaces s)(child :=
            sp\<lparr>umem := (\<lambda>a. if page_of a \<in> set pgs then umem (spaces s parent) a else umem sp a)\<rparr>)\<rparr>)))"

fun copy_pool :: "tid \<Rightarrow> tid \<Rightarrow> nat list \<Rightarrow> proc \<Rightarrow> proc res" where
  "copy_pool child parent [] s = Inr s"
| "copy_pool child parent (i # is) s =
     rbind (bitmap_read (upool (spaces s child)) i) (\<lambda>used.
     rbind (if used then copy_upages child parent (of_nat i * PG_SIZE + USER_START_ADDR) 1 s else Inr s)
       (copy_pool child parent is))"

definition copy_body_stack :: "tid \<Rightarrow> tid \<Rightarrow> proc \<Rightarrow> proc res" where
  "copy_body_stack child parent s =
     rbind (copy_upages child parent (USER_STACK_VADDR - of_nat STACK_PAGE_CNT * PG_SIZE) STACK_PAGE_CNT s) (\<lambda>s.
     copy_pool child parent [0..<8 * bytes_len (upool (spaces s child))] s)"

text \<open>
  The buffer pages and the temporary stack come from the list of kernel pages and go back; \<open>False\<close> is -1. What the
  kernel's own calls leave on the user stack below the frame of \<^verbatim>\<open>system_call\<close> is not tracked.
\<close>

definition copy_process :: "tid \<Rightarrow> tid \<Rightarrow> proc \<Rightarrow> (bool \<times> proc) res" where
  "copy_process child parent s =
     (let (buf_page, s) = alloc_page s in
      if buf_page = 0 then Inr (False, s)
      else
        rbind (copy_pcb child parent s) (\<lambda>s.
        let (p, s) = create_pml4 s in
        rbind (the_task s child) (\<lambda>k.
        let s = put_task child (k\<lparr>pml4 := p\<rparr>) s;
            s = s\<lparr>spaces := (spaces s)(child := (spaces s child)\<lparr>mapped := (\<lambda>_. False)\<rparr>)\<rparr> in
        if p = None then Inr (False, s)
        else
          let (tmp_stack, s) = alloc_page s in
          if tmp_stack = 0 then Inr (False, s)
          else
            rbind (build_child_environment child s) (\<lambda>s.
            rbind (copy_body_stack child parent s) (\<lambda>s.
            let s = s\<lparr>pages_freed := unat tmp_stack # pages_freed s\<rparr> in
            rbind (update_inode_open_cnts child s) (\<lambda>s.
            Inr (True, s\<lparr>pages_freed := unat buf_page # pages_freed s\<rparr>)))))))"

text \<open>\<open>fp\<close> is the frame pointer of the caller, \<^verbatim>\<open>system_call\<close>, which \<^verbatim>\<open>movq (%rbp)\<close> reads.\<close>

definition sys_fork :: "u64 \<Rightarrow> proc \<Rightarrow> (pid_t \<times> proc) res" where
  "sys_fork fp s =
     (let s = s\<lparr>fork_rbp := fp\<rparr>; parent = running_thread s; (page, s) = alloc_page s; child = unat page in
      if page = 0 then Inr (-1, s)
      else
        rbind (the_task s parent) (\<lambda>pk.
        rbind (kassert (intr s = intr_off \<and> pml4 pk \<noteq> None) ''intr_off == get_intr_stat() && parent_thread->pml4 != NULL'') (\<lambda>_.
        rbind (copy_process child parent s) (\<lambda>(ok, s).
        if \<not> ok then Inr (-1, s)
        else
          rbind (kassert (General child \<notin> set (ready_threads_list s)) ''!elem_find(&ready_threads_list)'') (\<lambda>_.
          let s = s\<lparr>ready_threads_list := ready_threads_list s @ [General child]\<rparr> in
          rbind (kassert (AllTag child \<notin> set (all_threads_list s)) ''!elem_find(&all_threads_list)'') (\<lambda>_.
          let s = s\<lparr>all_threads_list := all_threads_list s @ [AllTag child]\<rparr> in
          rbind (the_task s child) (\<lambda>k. Inr (pid k, s))))))))"

section \<open>Exit and wait\<close>

definition hanging_child :: "pid_t \<Rightarrow> task \<Rightarrow> bool" where
  "hanging_child ppid k \<longleftrightarrow> parent_pid k = ppid \<and> stat k = TASK_HANGING"

fun init_adopt :: "pid_t \<Rightarrow> tag list \<Rightarrow> 'a sched_scheme \<Rightarrow> 'a sched_scheme res" where
  "init_adopt p [] s = Inr s"
| "init_adopt p (AllTag t # ts) s =
     rbind (the_task s t) (\<lambda>k. init_adopt p ts (if parent_pid k = p then put_task t (k\<lparr>parent_pid := 1\<rparr>) s else s))"
| "init_adopt p (General t # ts) s = Inl (Fault ''all_list_tag'')"

fun release_fds :: "nat list \<Rightarrow> 'a kern_scheme \<Rightarrow> 'a kern_scheme res" where
  "release_fds [] s = Inr s"
| "release_fds (i # is) s =
     rbind (the_task s (running_thread s)) (\<lambda>k.
     rbind
       (if fd_table k ! i = -1 then Inr s
        else rbind (is_pipe (int i) s) (\<lambda>pipe.
          if pipe then
            rbind (fd_local2global (int i) s) (\<lambda>g.
            rbind (the_file g s) (\<lambda>f.
            let f = f\<lparr>fd_pos := fd_pos f - 1\<rparr> in
            Inr (if fd_pos f = 0
                 then put_file g (f\<lparr>fd_inode := 0\<rparr>)
                   (s\<lparr>pipes := (pipes s)(fd_inode f := None), pages_freed := unat (fd_inode f) # pages_freed s\<rparr>)
                 else put_file g f s)))
          else rbind (sys_close (int i) s) (\<lambda>(_, s). Inr s)))
     (release_fds is))"

text \<open>The pages of the pool are unmapped; how the frames are given back is in theory \<open>Paging\<close>.\<close>

definition release_prog_resource :: "tid \<Rightarrow> proc \<Rightarrow> proc res" where
  "release_prog_resource t s =
     rbind (the_task s t) (\<lambda>k.
     rbind (kassert (pml4 k \<noteq> None) ''pthread->pml4'') (\<lambda>_.
     let sp = spaces s t;
         pool = set (map (\<lambda>i. of_nat i * PG_SIZE + USER_START_ADDR) [0..<8 * bytes_len (upool sp)]) in
     release_fds [3..<MAX_FILES_OPEN_PER_PROC]
       (s\<lparr>spaces := (spaces s)(t := sp\<lparr>mapped := (\<lambda>a. a \<notin> pool \<and> mapped sp a)\<rparr>)\<rparr>)))"

text \<open>\<^verbatim>\<open>exit\<close>; the thread never runs again after it has blocked as \<^verbatim>\<open>TASK_HANGING\<close>.\<close>

definition sys_exit :: "int \<Rightarrow> proc \<Rightarrow> proc res" where
  "sys_exit status s =
     (let t = running_thread s in
      rbind (the_task s t) (\<lambda>k.
      let s = put_task t (k\<lparr>exit_status := of_int status\<rparr>) s in
      rbind (kassert (parent_pid k \<noteq> -1) ''child_thread->parent_pid != -1'') (\<lambda>_.
      rbind (init_adopt (pid k) (all_threads_list s) s) (\<lambda>s.
      rbind (release_prog_resource t s) (\<lambda>s.
      rbind (the_task s t) (\<lambda>k.
      rbind (pid2thread (parent_pid k) s) (\<lambda>parent.
      case parent of
        None \<Rightarrow> Inl (Fault ''parent_thread'')
      | Some p \<Rightarrow>
          rbind (the_task s p) (\<lambda>pk.
          rbind (if stat pk = TASK_WAITING then thread_unblock p s else Inr s) (\<lambda>s.
          rbind (thread_block TASK_HANGING s) (\<lambda>(_, s). Inr s))))))))))"

text \<open>
  One round of the loop of \<^verbatim>\<open>wait\<close>: \<open>Finished\<close> with the number of the child and its status, or with -1; or the
  thread waits, and goes round again when it runs next.
\<close>

definition sys_wait :: "'a kern_scheme \<Rightarrow> ((pid_t \<times> int option) option \<times> 'a kern_scheme) res" where
  "sys_wait s =
     rbind (the_task s (running_thread s)) (\<lambda>parent.
     rbind (find_thread (hanging_child (pid parent)) (all_threads_list s) s) (\<lambda>child.
     case child of
       Some c \<Rightarrow>
         rbind (the_task s c) (\<lambda>k.
         rbind (thread_exit c False s) (\<lambda>s. Inr (Some (pid k, Some (sint (exit_status k))), s)))
     | None \<Rightarrow>
         rbind (find_thread (\<lambda>k. parent_pid k = pid parent) (all_threads_list s) s) (\<lambda>child.
         case child of
           None \<Rightarrow> Inr (Some (-1, None), s)
         | Some _ \<Rightarrow> rbind (thread_block TASK_WAITING s) (\<lambda>(_, s). Inr (None, s)))))"

end
