(* ===== verification/ProcSpec.thy ===== *)
theory ProcSpec
  imports Process PipeSpec
begin

text \<open>
  What the operations on processes do: the numbers of processes, the copy of the memory and of the descriptors that
  \<^verbatim>\<open>fork\<close> makes, and the way of the exit status from \<^verbatim>\<open>exit\<close> to the \<^verbatim>\<open>wait\<close> of the parent.
\<close>

section \<open>Mapping pages\<close>

definition upages :: "u64 \<Rightarrow> nat \<Rightarrow> u64 set" where
  "upages v n = (\<lambda>i. v + of_nat i * PG_SIZE) ` {..<n}"

lemma upages_simps: "upages v 0 = {}" "upages v (Suc n) = insert v (upages (v + PG_SIZE) n)"
proof -
  have "{..<Suc n} = insert 0 (Suc ` {..<n})" by (auto simp: image_iff less_Suc_eq_0_disj)
  then show "upages v (Suc n) = insert v (upages (v + PG_SIZE) n)"
    by (simp add: upages_def image_image algebra_simps)
qed (simp add: upages_def)

lemma page_of_bits: "page_of v = push_bit 12 (drop_bit 12 v)"
proof -
  have m: "(0xfffffffffffff000 :: u64) = NOT (mask 12)" by (simp add: mask_eq_exp_minus_1)
  show ?thesis unfolding page_of_def m by (rule bit_eqI) (auto simp: bit_simps)
qed

lemma page_of_push [simp]: "page_of (push_bit 12 u) = push_bit 12 u"
  unfolding page_of_bits by (rule bit_eqI) (auto simp: bit_simps)

lemma page_of_next:
  assumes "page_of v = v"
  shows "page_of (v + PG_SIZE) = v + PG_SIZE"
proof -
  obtain u where "v = push_bit 12 u" using assms unfolding page_of_bits by metis
  then have "v + PG_SIZE = push_bit 12 (u + 1)" by (simp add: PG_SIZE_def push_bit_eq_mult algebra_simps)
  then show ?thesis by simp
qed

lemma upages_aligned:
  assumes "page_of v = v" "a \<in> upages v n"
  shows "page_of a = a"
  using assms
proof (induction n arbitrary: v)
  case (Suc n)
  then show ?case using Suc.IH [OF page_of_next [OF Suc.prems(1)]] by (auto simp: upages_simps)
qed (simp add: upages_simps)

lemma upages_apart:
  assumes "n < 2 ^ 51"
  shows "v \<notin> upages (v + PG_SIZE) n"
proof
  assume "v \<in> upages (v + PG_SIZE) n"
  then obtain i where i: "i < n" "v = v + PG_SIZE + of_nat i * PG_SIZE" by (auto simp: upages_def)
  then have "(of_nat (4096 * Suc i) :: u64) = 0" by (simp add: PG_SIZE_def algebra_simps)
  moreover have "unat (of_nat (4096 * Suc i) :: u64) = 4096 * Suc i" by (rule unat_of_nat_u64) (use i assms in simp)
  ultimately show False by simp
qed

lemma page_of_add:
  assumes "page_of v = v" "i < 4096"
  shows "page_of (v + of_nat i) = v"
proof -
  obtain u where u: "v = push_bit 12 u" using assms(1) unfolding page_of_bits by metis
  have nb: "\<not> bit (of_nat i :: u64) n" if "12 \<le> n" for n
  proof -
    have "i < 2 ^ n" using assms(2) power_increasing [OF that, of "2 :: nat"] by simp
    then have "\<not> bit i n" by (simp add: bit_iff_odd)
    then show ?thesis by (simp add: bit_of_nat_iff)
  qed
  have "v AND of_nat i = 0" unfolding u by (rule bit_eqI) (use nb in \<open>auto simp: bit_simps not_le\<close>)
  then have "v + of_nat i = v OR of_nat i" by (simp add: disjunctive_add_eq_or)
  moreover have "page_of (v OR of_nat i) = v"
    unfolding page_of_bits u by (rule bit_eqI) (use nb in \<open>auto simp: bit_simps\<close>)
  ultimately show ?thesis by simp
qed

lemma page_of_offset: "\<exists>r < 4096. a = page_of a + of_nat r"
proof -
  have "unat (take_bit 12 a) = take_bit 12 (unat a)" by (simp add: unsigned_take_bit_eq)
  then have "unat (take_bit 12 a) < 4096" using take_bit_nat_less_exp [of 12 "unat a"] by simp
  moreover have "a = page_of a + of_nat (unat (take_bit 12 a))"
    by (simp add: page_of_bits bits_ident)
  ultimately show ?thesis by blast
qed

text \<open>Eight bytes lie in at most two pages, those of the first and of the last.\<close>

lemma page_of_eight:
  assumes "i \<le> 7"
  shows "page_of (a + of_nat i) \<in> {page_of a, page_of (a + 7)}"
proof -
  obtain r where r: "r < 4096" "a = page_of a + of_nat r" using page_of_offset by blast
  have al: "page_of (page_of a) = page_of a" unfolding page_of_bits by (rule bit_eqI) (auto simp: bit_simps)
  have at: "page_of (a + of_nat j) = (if r + j < 4096 then page_of a else page_of a + PG_SIZE)" if "j \<le> 7" for j
  proof (cases "r + j < 4096")
    case True
    have "a + of_nat j = page_of a + of_nat (r + j)" by (subst r(2)) simp
    then show ?thesis using page_of_add [OF al True] True by metis
  next
    case False
    have "(of_nat (r + j) :: u64) = PG_SIZE + of_nat (r + j - 4096)" using False by (simp add: PG_SIZE_def of_nat_diff)
    then have "a + of_nat j = page_of a + PG_SIZE + of_nat (r + j - 4096)" by (subst r(2)) (simp add: algebra_simps)
    moreover have "r + j - 4096 < 4096" using r(1) that by simp
    ultimately show ?thesis using page_of_add [OF page_of_next [OF al], of "r + j - 4096"] False by metis
  qed
  show ?thesis using at [of 0] at [of i] at [of 7] assms by (auto split: if_splits)
qed

text \<open>\<^verbatim>\<open>get_pages\<close> maps exactly the pages asked for, as long as there are frames.\<close>

lemma get_upages_ok:
  assumes "page_of v = v" "n \<le> frames s" "n < 2 ^ 51" "\<forall>a \<in> upages v n. \<not> mapped (spaces s t) a"
  shows "\<exists>sp. get_upages t v n s = Inr (True, s\<lparr>spaces := (spaces s)(t := sp), frames := frames s - n\<rparr>) \<and>
    mapped sp = (\<lambda>a. a \<in> upages v n \<or> mapped (spaces s t) a) \<and> upool sp = upool (spaces s t) \<and>
    (\<forall>a. page_of a \<notin> upages v n \<longrightarrow> umem sp a = umem (spaces s t) a)"
  using assms
proof (induction n arbitrary: v s)
  case 0
  then show ?case by (intro exI [of _ "spaces s t"]) (simp add: upages_simps)
next
  case (Suc n)
  let ?sp = "(spaces s t)\<lparr>mapped := (mapped (spaces s t))(v := True),
     umem := (\<lambda>a. if page_of a = v then fresh s a else umem (spaces s t) a)\<rparr>"
  let ?s = "s\<lparr>spaces := (spaces s)(t := ?sp), frames := frames s - 1\<rparr>"
  have step: "get_upages t v (Suc n) s = get_upages t (v + PG_SIZE) n ?s"
    using Suc.prems by (simp add: upages_simps Let_def)
  have pre: "page_of (v + PG_SIZE) = v + PG_SIZE" "n \<le> frames ?s" "n < 2 ^ 51" using Suc.prems page_of_next by simp_all
  have "\<forall>a \<in> upages (v + PG_SIZE) n. \<not> mapped (spaces ?s t) a"
    using Suc.prems(4) upages_apart [of n v] Suc.prems(3) by (auto simp: upages_simps)
  then obtain sp where sp: "get_upages t (v + PG_SIZE) n ?s = Inr (True, ?s\<lparr>spaces := (spaces ?s)(t := sp), frames := frames ?s - n\<rparr>)"
    "mapped sp = (\<lambda>a. a \<in> upages (v + PG_SIZE) n \<or> mapped (spaces ?s t) a)" "upool sp = upool (spaces ?s t)"
    "\<forall>a. page_of a \<notin> upages (v + PG_SIZE) n \<longrightarrow> umem sp a = umem (spaces ?s t) a"
    using Suc.IH [OF pre] by blast
  have "?s\<lparr>spaces := (spaces ?s)(t := sp), frames := frames ?s - n\<rparr> = s\<lparr>spaces := (spaces s)(t := sp), frames := frames s - Suc n\<rparr>"
    by (simp add: fun_upd_def [symmetric])
  then have run: "get_upages t v (Suc n) s = Inr (True, s\<lparr>spaces := (spaces s)(t := sp), frames := frames s - Suc n\<rparr>)"
    using step sp(1) by argo
  show ?case
    by (intro exI [of _ sp] conjI, rule run) (use sp in \<open>auto simp: upages_simps\<close>)
qed

text \<open>Copying pages between two processes.\<close>

lemma copy_upages_ok:
  assumes "c \<noteq> p" "page_of v = v" "n \<le> frames s" "n < 2 ^ 51" "\<forall>a \<in> upages v n. \<not> mapped (spaces s c) a"
    "\<forall>a \<in> upages v n. mapped (spaces s p) a"
  shows "\<exists>sp. copy_upages c p v n s = Inr (s\<lparr>spaces := (spaces s)(c := sp), frames := frames s - n\<rparr>) \<and>
    mapped sp = (\<lambda>a. a \<in> upages v n \<or> mapped (spaces s c) a) \<and> upool sp = upool (spaces s c) \<and>
    (\<forall>a. umem sp a = (if page_of a \<in> upages v n then umem (spaces s p) a else umem (spaces s c) a))"
proof -
  have pgs: "set (map (\<lambda>i. v + of_nat i * PG_SIZE) [0..<n]) = upages v n" by (auto simp: upages_def)
  obtain sp where sp: "get_upages c v n s = Inr (True, s\<lparr>spaces := (spaces s)(c := sp), frames := frames s - n\<rparr>)"
    "mapped sp = (\<lambda>a. a \<in> upages v n \<or> mapped (spaces s c) a)" "upool sp = upool (spaces s c)"
    "\<forall>a. page_of a \<notin> upages v n \<longrightarrow> umem sp a = umem (spaces s c) a"
    using get_upages_ok [OF assms(2-5)] by blast
  have all: "list_all (mapped (spaces s p)) (map (\<lambda>i. v + of_nat i * PG_SIZE) [0..<n])"
    "list_all (mapped sp) (map (\<lambda>i. v + of_nat i * PG_SIZE) [0..<n])"
    unfolding list_all_iff pgs using assms(6) sp(2) by simp_all
  have "copy_upages c p v n s = Inr (s\<lparr>spaces := (spaces s)(c := sp\<lparr>umem := (\<lambda>a. if page_of a \<in> upages v n
      then umem (spaces s p) a else umem sp a)\<rparr>), frames := frames s - n\<rparr>)"
    unfolding copy_upages_def pgs Let_def using sp(1) all assms(1) by (simp cong: if_cong)
  then show ?thesis using sp
    by (intro exI [of _ "sp\<lparr>umem := (\<lambda>a. if page_of a \<in> upages v n then umem (spaces s p) a else umem sp a)\<rparr>"]) simp
qed

text \<open>The pages that the bitmap of a pool marks as used.\<close>

definition pool_page :: "nat \<Rightarrow> u64" where
  "pool_page i = of_nat i * PG_SIZE + USER_START_ADDR"

definition pool_pages :: "space \<Rightarrow> nat list \<Rightarrow> u64 set" where
  "pool_pages sp is = pool_page ` {i \<in> set is. i \<in> used_bits (upool sp)}"

lemma pool_page_aligned: "page_of (pool_page i) = pool_page i"
proof -
  have "pool_page i = push_bit 12 (of_nat i + 1)"
    by (simp add: pool_page_def PG_SIZE_def USER_START_ADDR_def push_bit_eq_mult algebra_simps)
  then show ?thesis by simp
qed

lemma pool_page_inj: "i < 2 ^ 51 \<Longrightarrow> j < 2 ^ 51 \<Longrightarrow> pool_page i = pool_page j \<Longrightarrow> i = j"
proof -
  assume a: "i < 2 ^ 51" "j < 2 ^ 51" "pool_page i = pool_page j"
  then have "(of_nat (i * 4096) :: u64) = of_nat (j * 4096)" by (simp add: pool_page_def PG_SIZE_def)
  moreover have "unat (of_nat (i * 4096) :: u64) = i * 4096" "unat (of_nat (j * 4096) :: u64) = j * 4096"
    by (rule unat_of_nat_u64, use a in simp)+
  ultimately show "i = j" by simp
qed

lemma copy_pool_ok:
  assumes "c \<noteq> p" "distinct is" "\<forall>i \<in> set is. i < 8 * bytes_len (upool (spaces s c)) \<and> i < 2 ^ 51"
    "bitmap_wf (upool (spaces s c))"
    "card (pool_pages (spaces s c) is) \<le> frames s" "\<forall>a \<in> pool_pages (spaces s c) is. \<not> mapped (spaces s c) a \<and> mapped (spaces s p) a"
  shows "\<exists>sp n. copy_pool c p is s = Inr (s\<lparr>spaces := (spaces s)(c := sp), frames := n\<rparr>) \<and>
    mapped sp = (\<lambda>a. a \<in> pool_pages (spaces s c) is \<or> mapped (spaces s c) a) \<and> upool sp = upool (spaces s c) \<and>
    (\<forall>a. umem sp a = (if page_of a \<in> pool_pages (spaces s c) is then umem (spaces s p) a else umem (spaces s c) a))"
  using assms(2-)
proof (induction "is" arbitrary: s)
  case Nil
  then show ?case by (intro exI [of _ "spaces s c"] exI [of _ "frames s"]) (simp add: pool_pages_def)
next
  case (Cons i "is")
  let ?P = "pool_pages (spaces s c)"
  have i: "i < 8 * length (bits (upool (spaces s c)))" using Cons.prems(2,3) by (fastforce simp: bitmap_wf_def)
  show ?case
  proof (cases "i \<in> used_bits (upool (spaces s c))")
    case False
    then have "?P (i # is) = ?P is" by (auto simp: pool_pages_def)
    then show ?thesis using Cons.IH [of s] Cons.prems False i by auto
  next
    case True
    have P: "?P (i # is) = insert (pool_page i) (?P is)" using True by (auto simp: pool_pages_def)
    have new: "pool_page i \<notin> ?P is"
      using Cons.prems(1,2) pool_page_inj [of i] by (auto simp: pool_pages_def)
    have fin: "finite (?P is)" by (simp add: pool_pages_def)
    have fr: "Suc (card (?P is)) \<le> frames s" using Cons.prems(4) P new fin by simp
    have up: "upages (pool_page i) 1 = {pool_page i}" by (auto simp: upages_def)
    have pre: "1 \<le> frames s" "(1 :: nat) < 2 ^ 51" "\<forall>a \<in> upages (pool_page i) 1. \<not> mapped (spaces s c) a"
      "\<forall>a \<in> upages (pool_page i) 1. mapped (spaces s p) a"
      using fr Cons.prems(5) unfolding up P by auto
    from copy_upages_ok [OF assms(1) pool_page_aligned this] obtain sp where sp:
      "copy_upages c p (pool_page i) 1 s = Inr (s\<lparr>spaces := (spaces s)(c := sp), frames := frames s - 1\<rparr>)"
      "mapped sp = (\<lambda>a. a = pool_page i \<or> mapped (spaces s c) a)" "upool sp = upool (spaces s c)"
      "\<forall>a. umem sp a = (if page_of a = pool_page i then umem (spaces s p) a else umem (spaces s c) a)"
      unfolding up by auto
    let ?s = "s\<lparr>spaces := (spaces s)(c := sp), frames := frames s - 1\<rparr>"
    have same: "pool_pages (spaces ?s c) is = ?P is" using sp(3) by (simp add: pool_pages_def)
    have "distinct is" "\<forall>i \<in> set is. i < 8 * bytes_len (upool (spaces ?s c)) \<and> i < 2 ^ 51" "bitmap_wf (upool (spaces ?s c))"
      "card (pool_pages (spaces ?s c) is) \<le> frames ?s"
      "\<forall>a \<in> pool_pages (spaces ?s c) is. \<not> mapped (spaces ?s c) a \<and> mapped (spaces ?s p) a"
      unfolding same using Cons.prems fr new sp(2,3) assms(1) P by auto
    from Cons.IH [OF this, unfolded same] obtain sp' n where sp':
      "copy_pool c p is ?s = Inr (?s\<lparr>spaces := (spaces ?s)(c := sp'), frames := n\<rparr>)"
      "mapped sp' = (\<lambda>a. a \<in> ?P is \<or> mapped (spaces ?s c) a)" "upool sp' = upool (spaces ?s c)"
      "\<forall>a. umem sp' a = (if page_of a \<in> ?P is then umem (spaces ?s p) a else umem (spaces ?s c) a)"
      by blast
    have "copy_pool c p (i # is) s = Inr (s\<lparr>spaces := (spaces s)(c := sp'), frames := n\<rparr>)"
      using sp(1) sp'(1) i True by (simp add: pool_page_def [symmetric])
    then show ?thesis unfolding P
      by (intro exI [of _ sp'] exI [of _ n] conjI, assumption)
        (use sp(2-4) sp'(2-4) assms(1) in \<open>auto cong: if_cong\<close>)
  qed
qed

section \<open>Process numbers\<close>

lemma with_pid_lock_ok:
  assumes "lock_free pid_lock s"
    and "\<And>lk sm. f (s\<lparr>locks := lk, semas := sm\<rparr>) = Inr (x, s\<lparr>locks := lk, semas := sm, pid_bitmap := b\<rparr>)"
  shows "with_pid_lock f s = Inr (x, s\<lparr>pid_bitmap := b\<rparr>)"
proof -
  let ?k = "\<lparr>holder = Some (current s), holder_repeat_nr = 1\<rparr>"
  define t where "t = s\<lparr>locks := (locks s)(pid_lock := ?k), semas := (semas s)(LockSema pid_lock := \<lparr>sval = 0, waiters = []\<rparr>)\<rparr>"
  have free: "locks s pid_lock = \<lparr>holder = None, holder_repeat_nr = 0\<rparr>" "semas s (LockSema pid_lock) = \<lparr>sval = 1, waiters = []\<rparr>"
    using assms(1) by (simp_all add: lock_free_def)
  have acq: "lock_acquire pid_lock s = Inr (True, t)"
    using lock_acquire_free [of s pid_lock] free by (simp add: put_lock_def put_sema_def t_def)
  have t: "locks t pid_lock = ?k" "semas t (LockSema pid_lock) = \<lparr>sval = 0, waiters = []\<rparr>" "current t = current s"
    by (simp_all add: t_def)
  have "lock_release pid_lock (t\<lparr>pid_bitmap := b\<rparr>) = sema_up (LockSema pid_lock) (put_lock pid_lock \<lparr>holder = None, holder_repeat_nr = 0\<rparr> (t\<lparr>pid_bitmap := b\<rparr>))"
    using t by (simp add: lock_release_def running_thread_def Let_def)
  also have "\<dots> = Inr (put_sema (LockSema pid_lock) \<lparr>sval = 1, waiters = []\<rparr> (put_lock pid_lock \<lparr>holder = None, holder_repeat_nr = 0\<rparr> (t\<lparr>pid_bitmap := b\<rparr>)))"
    using t by (subst sema_up_empty) (simp_all add: put_lock_def)
  also have "put_sema (LockSema pid_lock) \<lparr>sval = 1, waiters = []\<rparr> (put_lock pid_lock \<lparr>holder = None, holder_repeat_nr = 0\<rparr> (t\<lparr>pid_bitmap := b\<rparr>)) = s\<lparr>pid_bitmap := b\<rparr>"
    unfolding put_lock_def put_sema_def t_def using free by (simp add: fun_upd_idem)
  finally have "lock_release pid_lock (t\<lparr>pid_bitmap := b\<rparr>) = Inr (s\<lparr>pid_bitmap := b\<rparr>)" .
  moreover have "f t = Inr (x, t\<lparr>pid_bitmap := b\<rparr>)" unfolding t_def by (rule assms(2))
  ultimately show ?thesis using acq by (simp add: with_pid_lock_def)
qed

lemma alloc_pid_free:
  assumes "lock_free pid_lock s" "bitmap_wf (pid_bitmap s)" "\<not> {..<8 * bytes_len (pid_bitmap s)} \<subseteq> used_bits (pid_bitmap s)"
  shows "\<exists>b i. alloc_pid s = Inr (of_nat (i + 1), s\<lparr>pid_bitmap := b\<rparr>) \<and> i < 8 * bytes_len (pid_bitmap s) \<and>
    i \<notin> used_bits (pid_bitmap s) \<and> used_bits b = insert i (used_bits (pid_bitmap s)) \<and> same_shape (pid_bitmap s) b"
proof -
  obtain b i where b: "bitmap_alloc_a_bit (pid_bitmap s) = Inr (b, int i)" "i < 8 * bytes_len (pid_bitmap s)"
      "i \<notin> used_bits (pid_bitmap s)" "same_shape (pid_bitmap s) b" "used_bits b = insert i (used_bits (pid_bitmap s))"
    using bitmap_alloc_a_bit_free [OF assms(2,3)] by blast
  have "alloc_pid s = Inr (of_nat (i + 1), s\<lparr>pid_bitmap := b\<rparr>)" unfolding alloc_pid_def
    by (rule with_pid_lock_ok [OF assms(1)]) (simp add: b(1))
  then show ?thesis using b by blast
qed

lemma alloc_pid_full:
  assumes "lock_free pid_lock s" "bitmap_wf (pid_bitmap s)" "{..<8 * bytes_len (pid_bitmap s)} \<subseteq> used_bits (pid_bitmap s)"
  shows "alloc_pid s = Inr (0, s)"
proof -
  have "alloc_pid s = Inr (0, s\<lparr>pid_bitmap := pid_bitmap s\<rparr>)" unfolding alloc_pid_def
    by (rule with_pid_lock_ok [OF assms(1)]) (simp add: bitmap_alloc_a_bit_full [OF assms(2,3)])
  then show ?thesis by simp
qed

lemma release_pid_used:
  assumes "lock_free pid_lock s" "bitmap_wf (pid_bitmap s)" "sint p = int (Suc i)" "i < 8 * bytes_len (pid_bitmap s)"
  shows "\<exists>b. release_pid p s = Inr (s\<lparr>pid_bitmap := b\<rparr>) \<and> used_bits b = used_bits (pid_bitmap s) - {i} \<and> same_shape (pid_bitmap s) b"
proof -
  have "i < 8 * length (bits (pid_bitmap s))" using assms(2,4) by (simp add: bitmap_wf_def)
  then obtain b where b: "bitmap_set (pid_bitmap s) i False = Inr b" "used_bits b = used_bits (pid_bitmap s) - {i}" "same_shape (pid_bitmap s) b"
    using bitmap_set_used [of i "pid_bitmap s" False] by auto
  have "sint p < 2 ^ 15" using sint_lt [of p] by simp
  then have "i < 2 ^ 64" using assms(3) by simp
  then have idx: "unat (of_int (sint p - 1) :: u64) = i" using unat_of_nat_u64 [of i] by (simp add: assms(3))
  have "release_pid p s = Inr (s\<lparr>pid_bitmap := b\<rparr>)" unfolding release_pid_def Let_def idx
    by (subst with_pid_lock_ok [OF assms(1), of _ "()" b]) (simp_all add: b(1))
  then show ?thesis using b by blast
qed

section \<open>Descriptors of a child\<close>

definition refs :: "int list \<Rightarrow> nat list \<Rightarrow> nat \<Rightarrow> nat" where
  "refs fds is g = length (filter (\<lambda>i. fds ! i = int g) is)"

definition irefs :: "kfile list \<Rightarrow> int list \<Rightarrow> nat list \<Rightarrow> u64 \<Rightarrow> nat" where
  "irefs ft fds is a = length (filter (\<lambda>i. fds ! i \<noteq> -1 \<and> flag (ft ! nat (fds ! i)) \<noteq> PIPE_FLAG \<and> fd_inode (ft ! nat (fds ! i)) = a) is)"

definition fd_ok :: "'a kern_scheme \<Rightarrow> int \<Rightarrow> bool" where
  "fd_ok s d \<longleftrightarrow> d = -1 \<or> (0 \<le> d \<and> nat d < MAX_FILES_OPEN \<and>
     (flag (file_table s ! nat d) = PIPE_FLAG \<or> inodes (kfs s) (fd_inode (file_table s ! nat d)) \<noteq> None))"

definition counted :: "kfile list \<Rightarrow> int list \<Rightarrow> nat list \<Rightarrow> kfile list \<Rightarrow> bool" where
  "counted ft fds is ft' \<longleftrightarrow> length ft' = length ft \<and>
     (\<forall>g < length ft. ft' ! g = (if flag (ft ! g) = PIPE_FLAG then (ft ! g)\<lparr>fd_pos := fd_pos (ft ! g) + of_nat (refs fds is g)\<rparr> else ft ! g))"

lemma update_fds_ok:
  assumes "tasks s (current s) = Some k" "length (file_table s) = MAX_FILES_OPEN"
    and "\<forall>i \<in> set is. i < length (fd_table k) \<and> fd_ok s (fd_table k ! i)"
  shows "\<exists>ft m. update_fds is (fd_table k) s = Inr (s\<lparr>kfs := (kfs s)\<lparr>inodes := m\<rparr>, file_table := ft\<rparr>) \<and>
    counted (file_table s) (fd_table k) is ft \<and>
    (\<forall>a. m a = map_option (\<lambda>i. i\<lparr>i_open_cnts := i_open_cnts i + of_nat (irefs (file_table s) (fd_table k) is a)\<rparr>) (inodes (kfs s) a))"
  using assms
proof (induction "is" arbitrary: s)
  case Nil
  then show ?case
    by (intro exI [of _ "file_table s"] exI [of _ "inodes (kfs s)"]) (simp add: counted_def refs_def irefs_def option.map_ident)
next
  case (Cons i "is")
  let ?d = "fd_table k ! i"
  show ?case
  proof (cases "?d = -1")
    case True
    then have "refs (fd_table k) (i # is) g = refs (fd_table k) is g" "irefs ft (fd_table k) (i # is) a = irefs ft (fd_table k) is a" for g ft a
      by (simp_all add: refs_def irefs_def)
    moreover from this have "counted ft (fd_table k) (i # is) = counted ft (fd_table k) is" for ft
      by (simp add: counted_def fun_eq_iff)
    moreover have "update_fds (i # is) (fd_table k) s = update_fds is (fd_table k) s" using True by (simp add: MAX_FILES_OPEN_def)
    ultimately show ?thesis using Cons.IH [of s] Cons.prems by simp
  next
    case False
    then obtain g where g: "?d = int g" "g < MAX_FILES_OPEN" using Cons.prems(3) by (auto simp: fd_ok_def intro: that [of "nat ?d"])
    let ?f = "file_table s ! g"
    have gl: "g < length (file_table s)" using Cons.prems(2) g(2) by simp
    then have tf: "the_file g s = Inr ?f" by (simp add: the_file_def)
    have slot: "fd_slot (int i) (int g) s" using Cons.prems(1,3) g by (simp add: fd_slot_def)
    have fd: "is_pipe (int i) s = Inr (flag ?f = PIPE_FLAG)" using fd_local2global_ok [OF slot g(2)] tf by (simp add: is_pipe_def)
    show ?thesis
    proof (cases "flag ?f = PIPE_FLAG")
      case True
      let ?s = "put_file g (?f\<lparr>fd_pos := fd_pos ?f + 1\<rparr>) s"
      have s: "file_table ?s = (file_table s)[g := ?f\<lparr>fd_pos := fd_pos ?f + 1\<rparr>]" "kfs ?s = kfs s" "tasks ?s (current ?s) = Some k"
        using Cons.prems(1) by (simp_all add: put_file_def)
      have same: "flag (file_table ?s ! h) = flag (file_table s ! h)" "fd_inode (file_table ?s ! h) = fd_inode (file_table s ! h)" for h
        unfolding s(1) nth_list_update_if [OF gl] by simp_all
      have "\<forall>i \<in> set is. i < length (fd_table k) \<and> fd_ok ?s (fd_table k ! i)"
        using Cons.prems(3) by (simp add: fd_ok_def same)
      then obtain ft m where ft: "update_fds is (fd_table k) ?s = Inr (?s\<lparr>kfs := (kfs ?s)\<lparr>inodes := m\<rparr>, file_table := ft\<rparr>)"
          "counted (file_table ?s) (fd_table k) is ft"
          "\<forall>a. m a = map_option (\<lambda>i. i\<lparr>i_open_cnts := i_open_cnts i + of_nat (irefs (file_table ?s) (fd_table k) is a)\<rparr>) (inodes (kfs ?s) a)"
        using Cons.IH [of ?s] s Cons.prems(2) by auto
      have ir: "irefs (file_table ?s) (fd_table k) is a = irefs (file_table s) (fd_table k) (i # is) a" for a
        unfolding irefs_def same using True g by simp
      have "counted (file_table s) (fd_table k) (i # is) ft"
        using ft(2) Cons.prems(2) g True unfolding counted_def s(1)
        by (auto simp: nth_list_update refs_def)
      moreover have "update_fds (i # is) (fd_table k) s = Inr (s\<lparr>kfs := (kfs s)\<lparr>inodes := m\<rparr>, file_table := ft\<rparr>)"
        using ft(1) fd tf True g by (simp add: MAX_FILES_OPEN_def) (simp add: put_file_def)
      ultimately show ?thesis using ft(3) unfolding ir s(2) by blast
    next
      case False
      then obtain j where j: "inodes (kfs s) (fd_inode ?f) = Some j" using Cons.prems(3) g by (auto simp: fd_ok_def)
      let ?s = "s\<lparr>kfs := put_inode (fd_inode ?f) (j\<lparr>i_open_cnts := i_open_cnts j + 1\<rparr>) (kfs s)\<rparr>"
      have "\<forall>i \<in> set is. i < length (fd_table k) \<and> fd_ok ?s (fd_table k ! i)"
        using Cons.prems(3) by (auto simp: fd_ok_def)
      then obtain ft m where ft: "update_fds is (fd_table k) ?s = Inr (?s\<lparr>kfs := (kfs ?s)\<lparr>inodes := m\<rparr>, file_table := ft\<rparr>)"
          "counted (file_table ?s) (fd_table k) is ft"
          "\<forall>a. m a = map_option (\<lambda>i. i\<lparr>i_open_cnts := i_open_cnts i + of_nat (irefs (file_table ?s) (fd_table k) is a)\<rparr>) (inodes (kfs ?s) a)"
        using Cons.IH [of ?s] Cons.prems(1,2) by auto
      have "refs (fd_table k) (i # is) h = refs (fd_table k) is h" if "flag (file_table s ! h) = PIPE_FLAG" for h
        using that False g by (auto simp: refs_def)
      then have "counted (file_table s) (fd_table k) (i # is) ft" using ft(2) by (simp add: counted_def)
      moreover have "m a = map_option (\<lambda>i'. i'\<lparr>i_open_cnts := i_open_cnts i' + of_nat (irefs (file_table s) (fd_table k) (i # is) a)\<rparr>) (inodes (kfs s) a)" for a
        using ft(3) j False g by (simp add: irefs_def algebra_simps)
      moreover have "update_fds (i # is) (fd_table k) s = Inr (s\<lparr>kfs := (kfs s)\<lparr>inodes := m\<rparr>, file_table := ft\<rparr>)"
        using ft(1) fd tf False g j by (simp add: MAX_FILES_OPEN_def the_inode_def) (simp add: put_inode_def)
      ultimately show ?thesis by blast
    qed
  qed
qed

section \<open>Fork\<close>

definition STACK_BASE :: u64 where
  "STACK_BASE = USER_STACK_VADDR - of_nat STACK_PAGE_CNT * PG_SIZE"

text \<open>The pages of the pool and of the stack of a process: what \<^verbatim>\<open>fork\<close> copies.\<close>

definition all_pool :: "space \<Rightarrow> u64 set" where
  "all_pool sp = pool_pages sp [0..<8 * bytes_len (upool sp)]"

definition stack_pages :: "u64 set" where
  "stack_pages = upages STACK_BASE STACK_PAGE_CNT"

lemma stack_pages_eq: "stack_pages = {0x7fffffffe000, 0x7ffffffff000}"
  by (simp add: stack_pages_def STACK_BASE_def STACK_PAGE_CNT_def numeral_2_eq_2 upages_simps)
    (simp add: USER_STACK_VADDR_def PG_SIZE_def)

lemma stack_apart: "bytes_len (upool sp) \<le> 256 \<Longrightarrow> stack_pages \<inter> all_pool sp = {}"
proof -
  assume a: "bytes_len (upool sp) \<le> 256"
  have "unat (pool_page i) \<le> 8392704" if "i < 8 * bytes_len (upool sp)" for i
  proof -
    have "pool_page i = of_nat (i * 4096 + 4096)" by (simp add: pool_page_def PG_SIZE_def USER_START_ADDR_def)
    moreover have "unat (of_nat (i * 4096 + 4096) :: u64) = i * 4096 + 4096" by (rule unat_of_nat_u64) (use that a in simp)
    ultimately show ?thesis using that a by simp
  qed
  then have "unat v \<le> 8392704" if "v \<in> all_pool sp" for v using that by (auto simp: all_pool_def pool_pages_def)
  from this [of "0x7fffffffe000"] this [of "0x7ffffffff000"] show ?thesis by (auto simp: stack_pages_eq)
qed

lemma copy_body_stack_ok:
  assumes "c \<noteq> p" "bitmap_wf (upool (spaces s c))" "bytes_len (upool (spaces s c)) \<le> 256" "mapped (spaces s c) = (\<lambda>_. False)"
    and "STACK_PAGE_CNT + card (all_pool (spaces s c)) \<le> frames s" "\<forall>a \<in> stack_pages \<union> all_pool (spaces s c). mapped (spaces s p) a"
  shows "\<exists>sp n. copy_body_stack c p s = Inr (s\<lparr>spaces := (spaces s)(c := sp), frames := n\<rparr>) \<and>
    mapped sp = (\<lambda>a. a \<in> stack_pages \<union> all_pool (spaces s c)) \<and> upool sp = upool (spaces s c) \<and>
    (\<forall>a. page_of a \<in> stack_pages \<union> all_pool (spaces s c) \<longrightarrow> umem sp a = umem (spaces s p) a)"
proof -
  have base: "page_of STACK_BASE = STACK_BASE"
    by (simp add: page_of_def STACK_BASE_def USER_STACK_VADDR_def STACK_PAGE_CNT_def PG_SIZE_def)
  obtain sp where sp: "copy_upages c p STACK_BASE STACK_PAGE_CNT s = Inr (s\<lparr>spaces := (spaces s)(c := sp), frames := frames s - STACK_PAGE_CNT\<rparr>)"
    "mapped sp = (\<lambda>a. a \<in> stack_pages \<or> mapped (spaces s c) a)" "upool sp = upool (spaces s c)"
    "\<forall>a. umem sp a = (if page_of a \<in> stack_pages then umem (spaces s p) a else umem (spaces s c) a)"
    using copy_upages_ok [OF assms(1) base, of STACK_PAGE_CNT s] assms(4-6)
    unfolding stack_pages_def [symmetric] by (auto simp: STACK_PAGE_CNT_def)
  let ?s = "s\<lparr>spaces := (spaces s)(c := sp), frames := frames s - STACK_PAGE_CNT\<rparr>" and ?is = "[0..<8 * bytes_len (upool (spaces s c))]"
  have P: "pool_pages (spaces ?s c) ?is = all_pool (spaces s c)" by (simp add: pool_pages_def all_pool_def sp(3))
  have ap: "stack_pages \<inter> all_pool (spaces s c) = {}" by (rule stack_apart [OF assms(3)])
  have "distinct ?is" "\<forall>i \<in> set ?is. i < 8 * bytes_len (upool (spaces ?s c)) \<and> i < 2 ^ 51" "bitmap_wf (upool (spaces ?s c))"
    "card (pool_pages (spaces ?s c) ?is) \<le> frames ?s"
    "\<forall>a \<in> pool_pages (spaces ?s c) ?is. \<not> mapped (spaces ?s c) a \<and> mapped (spaces ?s p) a"
    unfolding P using assms ap sp(2,3) by auto
  from copy_pool_ok [OF assms(1) this, unfolded P] obtain sp' n where sp':
    "copy_pool c p ?is ?s = Inr (?s\<lparr>spaces := (spaces ?s)(c := sp'), frames := n\<rparr>)"
    "mapped sp' = (\<lambda>a. a \<in> all_pool (spaces s c) \<or> mapped (spaces ?s c) a)" "upool sp' = upool (spaces ?s c)"
    "\<forall>a. umem sp' a = (if page_of a \<in> all_pool (spaces s c) then umem (spaces ?s p) a else umem (spaces ?s c) a)"
    by blast
  have e: "?s\<lparr>spaces := (spaces ?s)(c := sp'), frames := n\<rparr> = s\<lparr>spaces := (spaces s)(c := sp'), frames := n\<rparr>"
    by (simp add: fun_upd_def [symmetric])
  have u: "upool (spaces ?s c) = upool (spaces s c)" using sp(3) by simp
  have run: "copy_body_stack c p s = Inr (s\<lparr>spaces := (spaces s)(c := sp'), frames := n\<rparr>)"
    unfolding copy_body_stack_def STACK_BASE_def [symmetric] sp(1) rbind_Inr u sp'(1) e ..
  show ?thesis
    by (intro exI [of _ sp'] exI [of _ n] conjI, rule run) (use sp(2-4) sp'(2-4) assms(1,4) in \<open>auto cong: if_cong\<close>)
qed

text \<open>The word below the frame pointer, where \<^verbatim>\<open>system_ret\<close> finds what the call returns, set to 0.\<close>

definition zeroed :: "u64 \<Rightarrow> space \<Rightarrow> space" where
  "zeroed a sp = sp\<lparr>umem := (\<lambda>x. if x - a < 8 then 0 else umem sp x)\<rparr>"

lemma zeroed_simps [simp]:
  "mapped (zeroed a sp) = mapped sp" "upool (zeroed a sp) = upool sp" "all_pool (zeroed a sp) = all_pool sp"
  by (simp_all add: zeroed_def all_pool_def pool_pages_def)

lemma le_zero: "n < m \<Longrightarrow> le m 0 ! n = 0"
  by (induction m arbitrary: n) (auto simp: nth_Cons split: nat.split)

lemma store_zero:
  assumes "mapped (spaces s t) (page_of a)" "mapped (spaces s t) (page_of (a + 7))"
  shows "store_u64 t a 0 s = Inr (s\<lparr>spaces := (spaces s)(t := zeroed a (spaces s t))\<rparr>)"
proof -
  have "(if x - a < 8 then le 8 (0 :: u64) ! unat (x - a) else y) = (if x - a < 8 then 0 else y)" for x y
    using le_zero [where 'a = 64, of "unat (x - a)" 8] by (simp add: word_less_nat_alt)
  then show ?thesis using assms by (simp add: store_u64_def zeroed_def Let_def)
qed

lemma unle_zeros: "unle (replicate n 0) = 0"
  by (induction n) simp_all

lemma load_zero:
  assumes "mapped (spaces s t) (page_of a)" "mapped (spaces s t) (page_of (a + 7))"
    and "\<forall>i < 8. umem (spaces s t) (a + of_nat i) = 0"
  shows "load_u64 t a s = Inr 0"
proof -
  have "map (\<lambda>i. umem (spaces s t) (a + of_nat i)) [0..<8] = map (\<lambda>_. 0) [0..<8]"
    by (rule map_cong) (use assms(3) in auto)
  also have "\<dots> = replicate 8 0" by (simp add: map_replicate_const)
  finally show ?thesis using assms(1,2) unle_zeros [of 8] unfolding load_u64_def Let_def by simp
qed

definition fork_stack :: "u64 \<Rightarrow> thread_stack" where
  "fork_stack fp = \<lparr>st_rsi = 0, st_rdi = None, st_rbp = fp, st_rip = ''system_ret''\<rparr>"

text \<open>
  What \<^verbatim>\<open>fork\<close> finds in a consistent kernel with memory left: four kernel pages and frames; the frame of
  \<^verbatim>\<open>system_call\<close> is on the user stack.
\<close>

definition forkable :: "u64 \<Rightarrow> task \<Rightarrow> u64 \<Rightarrow> u64 \<Rightarrow> u64 \<Rightarrow> u64 \<Rightarrow> proc \<Rightarrow> bool" where
  "forkable fp pk page bp pm tmp s \<longleftrightarrow> tasks s (current s) = Some pk \<and> pml4 pk \<noteq> None \<and> intr s = intr_off \<and>
     take 4 (kpages s) = [page, bp, pm, tmp] \<and> 0 \<notin> set (take 4 (kpages s)) \<and>
     unat page \<noteq> current s \<and> General (unat page) \<notin> set (ready_threads_list s) \<and> AllTag (unat page) \<notin> set (all_threads_list s) \<and>
     lock_free pid_lock s \<and> bitmap_wf (pid_bitmap s) \<and> page_of (fp - 8) \<in> stack_pages \<and> page_of (fp - 1) \<in> stack_pages \<and>
     bitmap_wf (upool (spaces s (current s))) \<and> bytes_len (upool (spaces s (current s))) \<le> 256 \<and>
     STACK_PAGE_CNT + card (all_pool (spaces s (current s))) \<le> frames s \<and>
     (\<forall>a \<in> stack_pages \<union> all_pool (spaces s (current s)). mapped (spaces s (current s)) a) \<and>
     length (file_table s) = MAX_FILES_OPEN \<and> length (fd_table pk) = MAX_FILES_OPEN_PER_PROC \<and>
     (\<forall>i < MAX_FILES_OPEN_PER_PROC. 3 \<le> i \<longrightarrow> fd_ok s (fd_table pk ! i))"

definition child_of :: "task \<Rightarrow> pid_t \<Rightarrow> u64 \<Rightarrow> task" where
  "child_of pk p pm = pk\<lparr>pid := p, stat := TASK_READY, ticks := prio pk, parent_pid := pid pk, pml4 := Some (unat pm)\<rparr>"

lemma copy_process_ok:
  assumes "forkable fp pk page bp pm tmp s0" "kpages s0 = page # bp # pm # tmp # rest"
    "s = s0\<lparr>fork_rbp := fp, kpages := bp # pm # tmp # rest\<rparr>" "s1 = s\<lparr>kpages := pm # tmp # rest\<rparr>"
    "alloc_pid s1 = Inr (x, s1\<lparr>pid_bitmap := b\<rparr>)"
  defines "p \<equiv> current s0" and "c \<equiv> unat page"
  shows "\<exists>sp n ft m. copy_process c p s = Inr (True, s\<lparr>kpages := rest, pid_bitmap := b,
      tasks := (tasks s)(c \<mapsto> child_of pk x pm), spaces := (spaces s)(p := zeroed (fp - 8) (spaces s p), c := sp), frames := n,
      entry := (entry s)(c := fork_stack fp), pages_freed := unat bp # unat tmp # pages_freed s,
      kfs := (kfs s)\<lparr>inodes := m\<rparr>, file_table := ft\<rparr>) \<and>
    mapped sp = (\<lambda>a. a \<in> stack_pages \<union> all_pool (spaces s p)) \<and> upool sp = upool (spaces s p) \<and>
    (\<forall>a. page_of a \<in> stack_pages \<union> all_pool (spaces s p) \<longrightarrow> umem sp a = umem (zeroed (fp - 8) (spaces s p)) a) \<and>
    counted (file_table s) (fd_table pk) [3..<MAX_FILES_OPEN_PER_PROC] ft \<and>
    (\<forall>a. m a = map_option (\<lambda>i. i\<lparr>i_open_cnts := i_open_cnts i + of_nat (irefs (file_table s) (fd_table pk) [3..<MAX_FILES_OPEN_PER_PROC] a)\<rparr>) (inodes (kfs s) a))"
proof -
  note f = assms(1) [unfolded forkable_def assms(2)]
  have cp: "c \<noteq> p" using f by (simp add: c_def p_def)
  have nz: "bp \<noteq> 0" "pm \<noteq> 0" "tmp \<noteq> 0" using f by auto
  note s1_def = assms(4)
  have s1: "tasks s1 p = Some pk" using f by (simp add: s1_def assms(3) p_def)
  let ?ck = "child_of pk x pm" and ?z = "zeroed (fp - 8) (spaces s p)"
  define s2 where "s2 = s\<lparr>kpages := rest, pid_bitmap := b, tasks := (tasks s)(c \<mapsto> ?ck),
    spaces := (spaces s)(c := (spaces s c)\<lparr>upool := upool (spaces s p), mapped := (\<lambda>_. False)\<rparr>)\<rparr>"
  define s2' where "s2' = s2\<lparr>entry := (entry s)(c := fork_stack fp), spaces := (spaces s2)(p := ?z)\<rparr>"
  have pcb: "copy_pcb c p s1 = Inr (s1\<lparr>pid_bitmap := b, tasks := (tasks s)(c \<mapsto> ?ck\<lparr>pml4 := pml4 pk\<rparr>),
      spaces := (spaces s)(c := (spaces s c)\<lparr>upool := upool (spaces s p)\<rparr>)\<rparr>)"
    using s1 assms(5) by (simp add: copy_pcb_def put_task_def child_of_def) (simp add: s1_def)
  have "mapped (spaces s2 p) (page_of (fp - 8))" "mapped (spaces s2 p) (page_of (fp - 8 + 7))" "fork_rbp s2 = fp" "current s2 = p"
    "spaces s2 p = spaces s p" "entry s2 = entry s"
    using f cp by (simp_all add: s2_def assms(3) p_def)
  then have env: "build_child_environment c s2 = Inr s2'"
    using store_zero [of "s2\<lparr>entry := (entry s2)(c := fork_stack fp)\<rparr>" p "fp - 8"]
    by (simp add: build_child_environment_def running_thread_def fork_stack_def [symmetric] s2'_def Let_def)
  have step: "copy_process c p s = rbind (build_child_environment c s2) (\<lambda>s. rbind (copy_body_stack c p s) (\<lambda>s.
      let s = s\<lparr>pages_freed := unat tmp # pages_freed s\<rparr> in
      rbind (update_inode_open_cnts c s) (\<lambda>s. Inr (True, s\<lparr>pages_freed := unat bp # pages_freed s\<rparr>))))"
    using nz pcb by (simp add: copy_process_def alloc_page_def assms(3) s1_def [unfolded assms(3), simplified, symmetric] create_pml4_def Let_def)
      (simp add: alloc_page_def s1_def s2_def assms(3) put_task_def the_task_def child_of_def fun_upd_def [symmetric],
        intro arg_cong2 [where f = rbind] arg_cong [where f = "build_child_environment c"] refl, simp)
  have sp2: "spaces s2' c = (spaces s c)\<lparr>upool := upool (spaces s p), mapped := (\<lambda>_. False)\<rparr>" "spaces s2' p = ?z"
    using cp by (simp_all add: s2'_def s2_def)
  have P: "all_pool (spaces s2' c) = all_pool (spaces s p)" by (simp add: all_pool_def pool_pages_def sp2)
  have "bitmap_wf (upool (spaces s2' c))" "bytes_len (upool (spaces s2' c)) \<le> 256" "mapped (spaces s2' c) = (\<lambda>_. False)"
    "STACK_PAGE_CNT + card (all_pool (spaces s2' c)) \<le> frames s2'" "\<forall>a \<in> stack_pages \<union> all_pool (spaces s2' c). mapped (spaces s2' p) a"
    unfolding P unfolding sp2 using f by (simp_all add: s2'_def s2_def assms(3) p_def)
  from copy_body_stack_ok [OF cp this, unfolded P sp2(2)] obtain sp n where sp:
    "copy_body_stack c p s2' = Inr (s2'\<lparr>spaces := (spaces s2')(c := sp), frames := n\<rparr>)"
    "mapped sp = (\<lambda>a. a \<in> stack_pages \<union> all_pool (spaces s p))" "upool sp = upool (spaces s2' c)"
    "\<forall>a. page_of a \<in> stack_pages \<union> all_pool (spaces s p) \<longrightarrow> umem sp a = umem ?z a"
    by blast
  define s3 where "s3 = s2'\<lparr>spaces := (spaces s)(p := ?z, c := sp), frames := n, pages_freed := unat tmp # pages_freed s\<rparr>"
  have s3: "s2'\<lparr>spaces := (spaces s2')(c := sp), frames := n, pages_freed := unat tmp # pages_freed s2'\<rparr> = s3"
    using cp by (simp add: s3_def s2'_def s2_def fun_upd_twist)
  have in3: "tasks s3 c = Some ?ck" "tasks s3 (current s3) = Some pk" "file_table s3 = file_table s" "kfs s3 = kfs s"
    using f cp by (simp_all add: s3_def s2'_def s2_def assms(3) p_def)
  have "\<forall>i \<in> set [3..<MAX_FILES_OPEN_PER_PROC]. i < length (fd_table pk) \<and> fd_ok s3 (fd_table pk ! i)"
    using f in3(3,4) by (simp add: fd_ok_def assms(3) del: upt_rec_numeral)
  moreover have "length (file_table s3) = MAX_FILES_OPEN" using f in3(3) by (simp add: assms(3))
  ultimately obtain ft m where ft: "update_fds [3..<MAX_FILES_OPEN_PER_PROC] (fd_table pk) s3 = Inr (s3\<lparr>kfs := (kfs s3)\<lparr>inodes := m\<rparr>, file_table := ft\<rparr>)"
      "counted (file_table s3) (fd_table pk) [3..<MAX_FILES_OPEN_PER_PROC] ft"
      "\<forall>a. m a = map_option (\<lambda>i. i\<lparr>i_open_cnts := i_open_cnts i + of_nat (irefs (file_table s3) (fd_table pk) [3..<MAX_FILES_OPEN_PER_PROC] a)\<rparr>) (inodes (kfs s3) a)"
    using update_fds_ok [OF in3(2)] by blast
  have upd: "update_inode_open_cnts c s3 = Inr (s3\<lparr>kfs := (kfs s3)\<lparr>inodes := m\<rparr>, file_table := ft\<rparr>)"
    using in3(1) ft(1) by (simp add: update_inode_open_cnts_def child_of_def del: upt_rec_numeral)
  have run: "copy_process c p s = Inr (True, s3\<lparr>kfs := (kfs s3)\<lparr>inodes := m\<rparr>, file_table := ft, pages_freed := unat bp # pages_freed s3\<rparr>)"
    unfolding step env rbind_Inr sp(1) using s3 upd by (simp add: Let_def)
  have fin: "s3\<lparr>kfs := (kfs s3)\<lparr>inodes := m\<rparr>, file_table := ft, pages_freed := unat bp # pages_freed s3\<rparr> = s\<lparr>kpages := rest, pid_bitmap := b,
      tasks := (tasks s)(c \<mapsto> ?ck), spaces := (spaces s)(p := ?z, c := sp), frames := n,
      entry := (entry s)(c := fork_stack fp), pages_freed := unat bp # unat tmp # pages_freed s,
      kfs := (kfs s)\<lparr>inodes := m\<rparr>, file_table := ft\<rparr>"
    by (simp add: s3_def s2'_def s2_def)
  have up: "upool sp = upool (spaces s p)" using sp(3) sp2(1) by simp
  show ?thesis
    using run [unfolded fin] sp(2,4) up ft(2,3) [unfolded in3(3,4)] by blast
qed

text \<open>The call as a whole, whatever number it gets; the child then returns 0.\<close>

lemma sys_fork_ok:
  assumes "forkable fp pk page bp pm tmp s"
    and "\<And>kp. alloc_pid (s\<lparr>fork_rbp := fp, kpages := kp\<rparr>) = Inr (x, s\<lparr>fork_rbp := fp, kpages := kp, pid_bitmap := b\<rparr>)"
  shows "\<exists>s' sp. sys_fork fp s = Inr (x, s') \<and> pid_bitmap s' = b \<and>
    tasks s' = (tasks s)(unat page \<mapsto> child_of pk x pm) \<and> current s' = current s \<and>
    ready_threads_list s' = ready_threads_list s @ [General (unat page)] \<and>
    all_threads_list s' = all_threads_list s @ [AllTag (unat page)] \<and>
    spaces s' = (spaces s)(current s := zeroed (fp - 8) (spaces s (current s)), unat page := sp) \<and>
    entry s' = (entry s)(unat page := fork_stack fp) \<and> first_return (unat page) s' = Inr 0 \<and>
    mapped sp = (\<lambda>a. a \<in> stack_pages \<union> all_pool (spaces s (current s))) \<and> upool sp = upool (spaces s (current s)) \<and>
    (\<forall>a. page_of a \<in> stack_pages \<union> all_pool (spaces s (current s)) \<longrightarrow> umem sp a = umem (spaces s' (current s)) a) \<and>
    counted (file_table s) (fd_table pk) [3..<MAX_FILES_OPEN_PER_PROC] (file_table s') \<and>
    (\<forall>a. inodes (kfs s') a = map_option (\<lambda>i. i\<lparr>i_open_cnts :=
       i_open_cnts i + of_nat (irefs (file_table s) (fd_table pk) [3..<MAX_FILES_OPEN_PER_PROC] a)\<rparr>) (inodes (kfs s) a)) \<and>
    locks s' = locks s \<and> semas s' = semas s"
proof -
  let ?c = "unat page" and ?p = "current s"
  note f = assms(1) [unfolded forkable_def]
  define rest where "rest = drop 4 (kpages s)"
  have kp: "kpages s = page # bp # pm # tmp # rest"
    using f append_take_drop_id [of 4 "kpages s"] unfolding rest_def by (metis append_Cons append_Nil)
  define s1 where "s1 = s\<lparr>fork_rbp := fp, kpages := bp # pm # tmp # rest\<rparr>"
  have al: "alloc_pid (s1\<lparr>kpages := pm # tmp # rest\<rparr>) = Inr (x, (s1\<lparr>kpages := pm # tmp # rest\<rparr>)\<lparr>pid_bitmap := b\<rparr>)"
    using assms(2) [of "pm # tmp # rest"] by (simp add: s1_def)
  obtain sp n ft m where cp: "copy_process ?c ?p s1 = Inr (True, s1\<lparr>kpages := rest, pid_bitmap := b,
      tasks := (tasks s1)(?c \<mapsto> child_of pk x pm), spaces := (spaces s1)(?p := zeroed (fp - 8) (spaces s1 ?p), ?c := sp), frames := n,
      entry := (entry s1)(?c := fork_stack fp), pages_freed := unat bp # unat tmp # pages_freed s1,
      kfs := (kfs s1)\<lparr>inodes := m\<rparr>, file_table := ft\<rparr>)"
    "mapped sp = (\<lambda>a. a \<in> stack_pages \<union> all_pool (spaces s1 ?p))" "upool sp = upool (spaces s1 ?p)"
    "\<forall>a. page_of a \<in> stack_pages \<union> all_pool (spaces s1 ?p) \<longrightarrow> umem sp a = umem (zeroed (fp - 8) (spaces s1 ?p)) a"
    "counted (file_table s1) (fd_table pk) [3..<MAX_FILES_OPEN_PER_PROC] ft"
    "\<forall>a. m a = map_option (\<lambda>i. i\<lparr>i_open_cnts := i_open_cnts i + of_nat (irefs (file_table s1) (fd_table pk) [3..<MAX_FILES_OPEN_PER_PROC] a)\<rparr>) (inodes (kfs s1) a)"
    using copy_process_ok [OF assms(1) kp s1_def refl al] by blast
  define s2 where "s2 = s1\<lparr>kpages := rest, pid_bitmap := b,
      tasks := (tasks s1)(?c \<mapsto> child_of pk x pm), spaces := (spaces s1)(?p := zeroed (fp - 8) (spaces s1 ?p), ?c := sp), frames := n,
      entry := (entry s1)(?c := fork_stack fp), pages_freed := unat bp # unat tmp # pages_freed s1,
      kfs := (kfs s1)\<lparr>inodes := m\<rparr>, file_table := ft\<rparr>"
  define s3 where "s3 = s2\<lparr>ready_threads_list := ready_threads_list s @ [General ?c], all_threads_list := all_threads_list s @ [AllTag ?c]\<rparr>"
  have in2: "ready_threads_list s2 = ready_threads_list s" "all_threads_list s2 = all_threads_list s" "pid (child_of pk y pm) = y"
    "tasks s2 ?c = Some (child_of pk x pm)" for y
    by (simp_all add: s2_def s1_def child_of_def)
  have "page \<noteq> 0" using f kp by auto
  then have run: "sys_fork fp s = Inr (x, s3)"
    using f cp(1) in2 kp
    by (simp add: sys_fork_def alloc_page_def running_thread_def s1_def [symmetric] s2_def [symmetric] the_task_def Let_def)
      (simp add: s3_def s2_def the_task_def s1_def)
  have pc: "?p \<noteq> ?c" using f by simp
  have sps: "spaces s3 = (spaces s)(?p := zeroed (fp - 8) (spaces s ?p), ?c := sp)" "entry s3 ?c = fork_stack fp"
    by (simp_all add: s3_def s2_def s1_def)
  have st: "page_of (fp - 8) \<in> stack_pages" "page_of (fp - 8 + 7) \<in> stack_pages" using f by simp_all
  have "umem sp (fp - 8 + of_nat i) = 0" if "i < 8" for i
  proof -
    have "i \<le> 7" using that by simp
    from page_of_eight [OF this, of "fp - 8"] have "page_of (fp - 8 + of_nat i) \<in> stack_pages" using st by auto
    moreover have "(of_nat i :: u64) < 8" using that by (simp add: word_less_nat_alt unat_of_nat_u64)
    ultimately show ?thesis using cp(4) by (simp add: zeroed_def)
  qed
  then have "load_u64 ?c (fp - 8) s3 = Inr 0"
    using st cp(2) by (intro load_zero) (simp_all add: sps)
  then have "first_return ?c s3 = Inr 0" by (simp add: first_return_def sps(2) fork_stack_def)
  then show ?thesis using cp(2-) run pc
    by (intro exI [of _ s3] exI [of _ sp]) (simp add: s3_def s2_def s1_def)
qed

section \<open>Properties\<close>

text \<open>
  C25. \<^verbatim>\<open>fork\<close> makes a copy of the process: the child gets a number nobody has, its parent's structure with that number,
  ready to run, and an address space of its own whose pages are exactly the stack and the pages of the pool. The
  word of the parent's stack that is to hold the result of the call (below the frame pointer of \<^verbatim>\<open>system_call\<close>) is set
  to 0 first; apart from these eight bytes the parent's memory is not touched, and the child's pages hold the same
  bytes. The child is last in both lists of threads; it starts in \<^verbatim>\<open>system_ret\<close> with the parent's frame pointer and
  finds the 0 there, so that its call returns 0. Every file open in the parent is counted once more, pipes by their
  descriptors and other files by their inode.
\<close>
theorem fork_copies_process:
  assumes "forkable fp pk page bp pm tmp s" "\<not> {..<8 * bytes_len (pid_bitmap s)} \<subseteq> used_bits (pid_bitmap s)"
  shows "\<exists>i s' sp. sys_fork fp s = Inr (of_nat (i + 1), s') \<and> i \<notin> used_bits (pid_bitmap s) \<and>
    used_bits (pid_bitmap s') = insert i (used_bits (pid_bitmap s)) \<and>
    tasks s' = (tasks s)(unat page \<mapsto> child_of pk (of_nat (i + 1)) pm) \<and> current s' = current s \<and>
    ready_threads_list s' = ready_threads_list s @ [General (unat page)] \<and>
    all_threads_list s' = all_threads_list s @ [AllTag (unat page)] \<and>
    spaces s' = (spaces s)(current s := zeroed (fp - 8) (spaces s (current s)), unat page := sp) \<and>
    entry s' = (entry s)(unat page := fork_stack fp) \<and> first_return (unat page) s' = Inr 0 \<and>
    mapped sp = (\<lambda>a. a \<in> stack_pages \<union> all_pool (spaces s (current s))) \<and> upool sp = upool (spaces s (current s)) \<and>
    (\<forall>a. page_of a \<in> stack_pages \<union> all_pool (spaces s (current s)) \<longrightarrow> umem sp a = umem (spaces s' (current s)) a) \<and>
    counted (file_table s) (fd_table pk) [3..<MAX_FILES_OPEN_PER_PROC] (file_table s') \<and>
    (\<forall>a. inodes (kfs s') a = map_option (\<lambda>i. i\<lparr>i_open_cnts :=
       i_open_cnts i + of_nat (irefs (file_table s) (fd_table pk) [3..<MAX_FILES_OPEN_PER_PROC] a)\<rparr>) (inodes (kfs s) a))"
proof -
  have f: "lock_free pid_lock s" "bitmap_wf (pid_bitmap s)" using assms(1) by (simp_all add: forkable_def)
  obtain b i where b: "bitmap_alloc_a_bit (pid_bitmap s) = Inr (b, int i)" "i < 8 * bytes_len (pid_bitmap s)"
      "i \<notin> used_bits (pid_bitmap s)" "used_bits b = insert i (used_bits (pid_bitmap s))"
    using bitmap_alloc_a_bit_free [OF f(2) assms(2)] by blast
  have "alloc_pid (s\<lparr>fork_rbp := fp, kpages := kp\<rparr>) = Inr (of_nat (i + 1), s\<lparr>fork_rbp := fp, kpages := kp, pid_bitmap := b\<rparr>)" for kp
    unfolding alloc_pid_def by (rule with_pid_lock_ok) (use f(1) b(1) in \<open>simp_all add: lock_free_def\<close>)
  from sys_fork_ok [OF assms(1) this] b(3,4) show ?thesis
    by (elim exE conjE) (intro exI conjI; (assumption | simp))
qed

text \<open>A process with one page of memory besides its stack, and a file open on descriptor 3.\<close>

definition demo_forker :: task where
  "demo_forker = (demo_task TASK_RUNNING 1 1)\<lparr>fd_table := [0, 1, 2, 3, -1, -1, -1, -1], pml4 := Some 0x8000\<rparr>"

definition demo_space :: space where
  "demo_space = \<lparr>mapped = (\<lambda>a. a = 0x1000 \<or> a \<in> stack_pages), umem = (\<lambda>a. of_nat (unat a)),
     upool = \<lparr>bytes_len = 256, bits = 1 # replicate 255 0\<rparr>\<rparr>"

definition demo_proc :: proc where
  "demo_proc = kern.extend (demo_kern\<lparr>tasks := (tasks demo_kern)(1 \<mapsto> demo_forker)\<rparr>)
     \<lparr>spaces = (\<lambda>_. demo_space), frames = 10, fresh = (\<lambda>_. 0), 
      entry = (\<lambda>_. \<lparr>st_rsi = 0, st_rdi = None, st_rbp = 0, st_rip = ''kernel_thread''\<rparr>), ist1 = 0, fork_rbp = 0\<rparr>"

lemma first_bit_used: "used_bits \<lparr>bytes_len = n, bits = 1 # replicate m 0\<rparr> = {0}"
proof -
  have "bit ((1 # replicate m (0 :: byte)) ! (i div 8)) (i mod 8) \<longleftrightarrow> i = 0" if "i < 8 * Suc m" for i
    using that by (cases "i div 8") (auto simp: nth_append bit_1_iff)
  then show ?thesis by (auto simp: used_bits_def)
qed

lemma demo_pool: "all_pool demo_space = {0x1000}"
  by (simp add: all_pool_def pool_pages_def demo_space_def first_bit_used conj_commute cong: conj_cong del: upt_rec_numeral)
    (auto simp: pool_page_def USER_START_ADDR_def)

lemma demo_proc_simps [simp]:
  "tasks demo_proc = (tasks demo_kern)(1 \<mapsto> demo_forker)" "current demo_proc = 1" "spaces demo_proc = (\<lambda>_. demo_space)"
  "kfs demo_proc = demo_fs" "file_table demo_proc = demo_files" "kpages demo_proc = [0x9000, 0xa000, 0xb000, 0xc000]"
  "intr demo_proc = intr_off" "frames demo_proc = 10" "lock_free pid_lock demo_proc"
  "ready_threads_list demo_proc = [General 2]" "all_threads_list demo_proc = [AllTag 1, AllTag 2, AllTag 3]"
  "pid_bitmap demo_proc = \<lparr>bytes_len = 128, bits = 7 # replicate 127 0\<rparr>"
  by (simp_all add: demo_proc_def demo_kern_def kern.extend_def lock_free_def)

lemma demo_not_full: "\<not> {..<8 * bytes_len (pid_bitmap demo_proc)} \<subseteq> used_bits (pid_bitmap demo_proc)"
proof -
  have "3 < 8 * bytes_len (pid_bitmap demo_proc)" "3 \<notin> used_bits (pid_bitmap demo_proc)"
    by (simp_all add: used_bits_def bit_iff_odd)
  then show ?thesis by blast
qed

lemma demo_frame: "page_of (0x7fffffffff00 - 8) = 0x7ffffffff000" "page_of (0x7fffffffff00 - 1) = 0x7ffffffff000"
  by (simp_all add: page_of_def)

lemma demo_forkable: "forkable 0x7fffffffff00 demo_forker 0x9000 0xa000 0xb000 0xc000 demo_proc"
proof -
  have "fd_ok demo_proc (fd_table demo_forker ! i)" if "i < 8" "3 \<le> i" for i
  proof -
    have "i = 3 \<or> i = 4 \<or> i = 5 \<or> i = 6 \<or> i = 7" using that by linarith
    then show ?thesis using demo_file(1)
      by (elim disjE) (simp_all add: fd_ok_def demo_forker_def MAX_FILES_OPEN_def)
  qed
  then show ?thesis unfolding forkable_def demo_frame
    by (simp add: demo_pool MAX_FILES_OPEN_def MAX_FILES_OPEN_PER_PROC_def STACK_PAGE_CNT_def bitmap_wf_def)
      (simp add: demo_forker_def demo_space_def stack_pages_eq)
qed

theorem fork_copies_process_witness:
  "\<exists>i s' sp. sys_fork 0x7fffffffff00 demo_proc = Inr (of_nat (i + 1), s') \<and> tasks s' 0x9000 = Some (child_of demo_forker (of_nat (i + 1)) 0xb000) \<and>
     ready_threads_list s' = [General 2, General 0x9000] \<and> spaces s' 0x9000 = sp \<and> first_return 0x9000 s' = Inr 0 \<and>
     mapped sp 0x1000 \<and> umem sp 0x1005 = 5 \<and> umem sp 0x7fffffffffff = 0xff \<and> umem sp 0x7ffffffffef9 = 0 \<and>
     umem (spaces s' 1) 0x7ffffffffef9 = 0 \<and> umem (spaces s' 1) 0x7fffffffff01 = 1"
proof -
  have p: "page_of 0x1005 = 0x1000" "page_of 0x7fffffffffff = 0x7ffffffff000" "page_of 0x7ffffffffef9 = 0x7ffffffff000"
    by (simp_all add: page_of_def)
  have "unat (0x9000 :: u64) = 0x9000" "(1 :: nat) \<noteq> 0x9000" by simp_all
  with fork_copies_process [OF demo_forkable demo_not_full] show ?thesis
    by (auto simp: demo_pool stack_pages_eq) (auto simp: demo_space_def p zeroed_def)
qed

section \<open>Exit and wait\<close>

definition threads_are :: "tid list \<Rightarrow> 'a sched_scheme \<Rightarrow> bool" where
  "threads_are ts s \<longleftrightarrow> all_threads_list s = map AllTag ts \<and> distinct ts \<and> (\<forall>t \<in> set ts. tasks s t \<noteq> None) \<and>
     inj_on (\<lambda>t. pid (the (tasks s t))) (set ts)"

lemma find_thread_eq:
  assumes "\<forall>t \<in> set ts. tasks s t \<noteq> None"
  shows "find_thread P (map AllTag ts) s = Inr (List.find (\<lambda>t. P (the (tasks s t))) ts)"
  using assms by (induction ts) auto

lemma find_unique:
  assumes "c \<in> set ts" "P c" "\<forall>t \<in> set ts. P t \<longrightarrow> t = c"
  shows "List.find P ts = Some c"
  using assms
proof (induction ts)
  case (Cons t ts)
  show ?case
  proof (cases "P t")
    case True
    then have "t = c" by (intro bspec [OF Cons.prems(3), THEN mp]) auto
    with True show ?thesis by simp
  next
    case False
    then have "c \<noteq> t" using Cons.prems(2) by blast
    have "\<forall>u \<in> set ts. P u \<longrightarrow> u = c" using Cons.prems(3) by (metis list.set_intros(2))
    then have "List.find P ts = Some c" using Cons.prems(1,2) \<open>c \<noteq> t\<close> by (metis Cons.IH set_ConsD)
    with False show ?thesis by simp
  qed
qed simp

definition adopt :: "pid_t \<Rightarrow> task \<Rightarrow> task" where
  "adopt p k = (if parent_pid k = p then k\<lparr>parent_pid := 1\<rparr> else k)"

lemma adopt_simps [simp]:
  "stat (adopt p k) = stat k" "pid (adopt p k) = pid k" "pml4 (adopt p k) = pml4 k" "fd_table (adopt p k) = fd_table k"
  "exit_status (adopt p k) = exit_status k" "parent_pid k \<noteq> p \<Longrightarrow> adopt p k = k"
  by (simp_all add: adopt_def)

lemma adopt_twice [simp]: "adopt p (adopt p k) = adopt p k"
  by (simp add: adopt_def)

lemma init_adopt_eq:
  assumes "\<forall>t \<in> set ts. tasks s t \<noteq> None"
  shows "init_adopt p (map AllTag ts) s = Inr (s\<lparr>tasks := (\<lambda>t. if t \<in> set ts then map_option (adopt p) (tasks s t) else tasks s t)\<rparr>)"
  using assms
proof (induction ts arbitrary: s)
  case (Cons t ts)
  obtain k where k: "tasks s t = Some k" using Cons.prems by auto
  have step: "(if parent_pid k = p then put_task t (k\<lparr>parent_pid := 1\<rparr>) s else s) = s\<lparr>tasks := (tasks s)(t \<mapsto> adopt p k)\<rparr>"
    using k by (simp add: adopt_def put_task_def fun_upd_idem [of "tasks s" t "Some k"])
  have "\<forall>u \<in> set ts. tasks (s\<lparr>tasks := (tasks s)(t \<mapsto> adopt p k)\<rparr>) u \<noteq> None" using Cons.prems by simp
  from Cons.IH [OF this] show ?case using k step
    by (simp add: fun_eq_iff)
qed simp

lemma release_fds_closed:
  assumes "tasks s (current s) = Some k" "\<forall>i \<in> set is. fd_table k ! i = -1"
  shows "release_fds is s = Inr s"
  using assms by (induction "is") (simp_all add: running_thread_def)

lemma sched_wf_cong:
  assumes "\<forall>t. tstat s' t = tstat s t" "ready_threads_list s' = ready_threads_list s" "semas s' = semas s" "current s' = current s"
    "idle_thread s' = idle_thread s" "ist2 s' = ist2 s"
  shows "sched_wf s' = sched_wf s"
  using assms by (simp add: sched_wf_def sched_core_def ready_ok_def waiters_ok_def run_ok_def idle_ok_def)

text \<open>
  A thread \<open>current s\<close> about to exit whose parent \<open>p\<close> waits, in a system with distinct process numbers; its
  files are closed, and neither it nor its parent has another child that hangs.
\<close>

definition exiting :: "tid list \<Rightarrow> task \<Rightarrow> tid \<Rightarrow> task \<Rightarrow> 'a sched_scheme \<Rightarrow> bool" where
  "exiting ts ck p pk s \<longleftrightarrow> sched_wf s \<and> threads_are ts s \<and> current s \<in> set ts \<and> p \<in> set ts \<and>
     tasks s (current s) = Some ck \<and> tasks s p = Some pk \<and> parent_pid ck = pid pk \<and> parent_pid ck \<noteq> -1 \<and>
     stat pk = TASK_WAITING \<and> pml4 ck \<noteq> None \<and> (\<forall>i \<in> {3..<8}. fd_table ck ! i = -1) \<and> current s \<noteq> main_thread s \<and> current s \<noteq> idle_thread s \<and>
     (\<forall>t \<in> set ts. \<not> hanging_child (pid pk) (the (tasks s t)) \<and> \<not> hanging_child (pid ck) (the (tasks s t))) \<and>
     lock_free pid_lock s \<and> bitmap_wf (pid_bitmap s) \<and> 0 < sint (pid ck) \<and> sint (pid ck) \<le> int (8 * bytes_len (pid_bitmap s))"

lemma exitingE:
  assumes "exiting ts ck p pk s"
  obtains "sched_wf s" "threads_are ts s" "current s \<in> set ts" "p \<in> set ts" "tasks s (current s) = Some ck" "tasks s p = Some pk"
    "parent_pid ck = pid pk" "parent_pid ck \<noteq> -1" "stat pk = TASK_WAITING" "pml4 ck \<noteq> None" "p \<noteq> current s"
    "stat ck = TASK_RUNNING" "pid pk \<noteq> pid ck"
proof -
  note e = assms [unfolded exiting_def]
  have st: "stat ck = TASK_RUNNING" using e running_task [of s] by auto
  then have "p \<noteq> current s" using e by auto
  moreover from this have "pid pk \<noteq> pid ck" using e by (auto simp: threads_are_def inj_on_def)
  ultimately show ?thesis by (intro that) (use e st in blast)+
qed

definition after_exit :: "int \<Rightarrow> tid list \<Rightarrow> task \<Rightarrow> proc \<Rightarrow> proc" where
  "after_exit status ts ck s = s\<lparr>tasks := (\<lambda>t. if t = current s then Some (ck\<lparr>exit_status := of_int status\<rparr>)
       else if t \<in> set ts then map_option (adopt (pid ck)) (tasks s t) else tasks s t),
     spaces := (spaces s)(current s := (spaces s (current s))\<lparr>mapped := (\<lambda>a. a \<notin> set (map (\<lambda>i. of_nat i * PG_SIZE + USER_START_ADDR)
       [0..<8 * bytes_len (upool (spaces s (current s)))]) \<and> mapped (spaces s (current s)) a)\<rparr>)\<rparr>"

lemma sys_exit_start:
  assumes "exiting ts ck p pk s"
  shows "sys_exit status s = rbind (thread_unblock p (after_exit status ts ck s)) (\<lambda>s. rbind (thread_block TASK_HANGING s) (\<lambda>(_, s). Inr s))"
proof -
  note e = assms [unfolded exiting_def threads_are_def]
  obtain u: "sched_wf s" "threads_are ts s" "current s \<in> set ts" "p \<in> set ts" "tasks s (current s) = Some ck" "tasks s p = Some pk"
    "parent_pid ck = pid pk" "parent_pid ck \<noteq> -1" "stat pk = TASK_WAITING" "pml4 ck \<noteq> None" "p \<noteq> current s"
    "stat ck = TASK_RUNNING" "pid pk \<noteq> pid ck" by (rule exitingE [OF assms])
  let ?ck = "ck\<lparr>exit_status := of_int status\<rparr>"
  let ?s1 = "put_task (current s) ?ck s"
  let ?s2 = "s\<lparr>tasks := (\<lambda>t. if t = current s then Some ?ck else if t \<in> set ts then map_option (adopt (pid ck)) (tasks s t) else tasks s t)\<rparr>"
  have "init_adopt (pid ck) (map AllTag ts) ?s1 = Inr ?s2"
    using e u by (subst init_adopt_eq) (auto simp: put_task_def fun_eq_iff)
  then have ad: "init_adopt (pid ck) (all_threads_list s) ?s1 = Inr ?s2" using e by simp
  have rel: "release_prog_resource (current s) ?s2 = Inr (after_exit status ts ck s)"
    using e u by (simp add: release_prog_resource_def the_task_def Let_def del: upt_rec_numeral)
      (subst release_fds_closed, auto simp: MAX_FILES_OPEN_PER_PROC_def after_exit_def)
  have tk: "tasks (after_exit status ts ck s) (current s) = Some ?ck" "tasks (after_exit status ts ck s) p = Some (adopt (pid ck) pk)"
    "all_threads_list (after_exit status ts ck s) = map AllTag ts"
    using u e by (simp_all add: after_exit_def)
  have "find_thread (\<lambda>k. pid k = pid pk) (map AllTag ts) (after_exit status ts ck s) = Inr (Some p)"
  proof (subst find_thread_eq)
    show "\<forall>t \<in> set ts. tasks (after_exit status ts ck s) t \<noteq> None" using e by (auto simp: after_exit_def)
    have "List.find (\<lambda>t. pid (the (tasks (after_exit status ts ck s) t)) = pid pk) ts = Some p"
    proof (rule find_unique; (intro ballI impI)?)
      fix t
      assume t: "t \<in> set ts" "pid (the (tasks (after_exit status ts ck s) t)) = pid pk"
      then have "pid (the (tasks s t)) = pid pk" using e by (auto simp: after_exit_def split: if_splits)
      then show "t = p" using e u t(1) by (auto simp: inj_on_def)
    qed (use u tk in auto)
    then show "Inr (List.find (\<lambda>t. pid (the (tasks (after_exit status ts ck s) t)) = pid pk) ts) = Inr (Some p)" by simp
  qed
  then have fp: "pid2thread (pid pk) (after_exit status ts ck s) = Inr (Some p)" by (simp add: pid2thread_def tk)
  show ?thesis using ad rel fp tk u
    by (simp add: sys_exit_def running_thread_def the_task_def put_task_def Let_def)
qed

lemma remove_map_AllTag: "remove1 (AllTag c) (map AllTag ts) = map AllTag (remove1 c ts)"
  by (induction ts) auto

lemma thread_exit_child:
  assumes "tasks s c = Some k" "all_threads_list s = map AllTag ts" "pml4 k = Some q" "c \<noteq> main_thread s" "lock_free pid_lock s"
    and "bitmap_wf (pid_bitmap s)" "0 < sint (pid k)" "sint (pid k) \<le> int (8 * bytes_len (pid_bitmap s))"
  shows "\<exists>b. thread_exit c False s = Inr (s\<lparr>tasks := (tasks s)(c := None), all_threads_list := map AllTag (remove1 c ts),
      pages_freed := c # q # pages_freed s, pid_bitmap := b\<rparr>) \<and> used_bits b = used_bits (pid_bitmap s) - {nat (sint (pid k)) - 1}"
proof -
  let ?t = "s\<lparr>intr := intr_off, tasks := (tasks s)(c \<mapsto> k\<lparr>stat := TASK_DIED\<rparr>), pages_freed := q # pages_freed s, all_threads_list := map AllTag (remove1 c ts)\<rparr>"
  have "sint (pid k) = int (Suc (nat (sint (pid k)) - 1))" "nat (sint (pid k)) - 1 < 8 * bytes_len (pid_bitmap ?t)"
    "lock_free pid_lock ?t" "bitmap_wf (pid_bitmap ?t)" using assms by (simp_all add: lock_free_def)
  from release_pid_used [OF this(3,4,1,2)] obtain b where
    b: "release_pid (pid k) ?t = Inr (?t\<lparr>pid_bitmap := b\<rparr>)" "used_bits b = used_bits (pid_bitmap s) - {nat (sint (pid k)) - 1}" by auto
  have "General c \<notin> set (map AllTag ts)" by auto
  then have "thread_exit c False s = Inr (s\<lparr>tasks := (tasks s)(c := None), all_threads_list := map AllTag (remove1 c ts),
      pages_freed := c # q # pages_freed s, pid_bitmap := b\<rparr>)"
    using assms(1-4) b(1) by (simp add: thread_exit_def put_task_def remove_map_AllTag Let_def)
  with b(2) show ?thesis by blast
qed

lemma sched_wf_hanging_gone:
  assumes "sched_wf s" "tstat s c = Some TASK_HANGING" "c \<noteq> idle_thread s" "\<forall>t. tstat s' t = (if t = c then None else tstat s t)"
    and "ready_threads_list s' = ready_threads_list s" "semas s' = semas s" "current s' = current s"
    "idle_thread s' = idle_thread s" "ist2 s' = ist2 s"
  shows "sched_wf s'"
proof -
  note core = sched_coreD [OF sched_wfD(1) [OF assms(1)]]
  have "ready_ok s'" using core(1) assms(2,4,5) by (auto simp: ready_ok_def)
  moreover have "waiters_ok s'"
    using waiters_okD [OF core(2)] core(2) assms(2,4,6,8) unfolding waiters_ok_def by fastforce
  moreover have "run_ok s'" using core(3) assms(4,7) by (simp add: run_ok_def)
  moreover have "idle_ok s'" using core(4) assms(3,4,8) by (simp add: idle_ok_def)
  moreover have "c \<noteq> current s" using sched_wfD(2) [OF assms(1)] assms(2) by auto
  ultimately show ?thesis using sched_wfD(2,3) [OF assms(1)] assms(4,7,9) by (simp add: sched_wf_def sched_core_def)
qed

text \<open>
  C26. The exit status reaches the parent: \<^verbatim>\<open>exit\<close> of a process whose parent waits wakes the parent, which runs
  next, and its \<^verbatim>\<open>wait\<close> returns the number of the child with the status (cut to a signed byte). The child is then
  gone: its structure and its page table are freed, its number is free again, it is in no list, and the scheduler is
  consistent.
\<close>
theorem exit_status_reaches_parent:
  assumes "exiting ts ck p pk s"
  shows "\<exists>s1 s2. sys_exit status s = Inr s1 \<and> current s1 = p \<and> tstat s1 (current s) = Some TASK_HANGING \<and>
    sys_wait s1 = Inr (Some (pid ck, Some (sint (of_int status :: byte))), s2) \<and>
    tasks s2 (current s) = None \<and> all_threads_list s2 = map AllTag (remove1 (current s) ts) \<and>
    used_bits (pid_bitmap s2) = used_bits (pid_bitmap s) - {nat (sint (pid ck)) - 1} \<and>
    pages_freed s2 = current s # the (pml4 ck) # pages_freed s \<and> sched_wf s2"
proof -
  let ?c = "current s" and ?a = "after_exit status ts ck s"
  note e = assms [unfolded exiting_def threads_are_def]
  obtain u: "sched_wf s" "threads_are ts s" "?c \<in> set ts" "p \<in> set ts" "tasks s ?c = Some ck" "tasks s p = Some pk"
    "parent_pid ck = pid pk" "parent_pid ck \<noteq> -1" "stat pk = TASK_WAITING" "pml4 ck \<noteq> None" "p \<noteq> ?c"
    "stat ck = TASK_RUNNING" "pid pk \<noteq> pid ck" by (rule exitingE [OF assms])
  have ta: "tstat ?a t = tstat s t" for t
    using u e by (auto simp: tstat_def after_exit_def option.map_comp o_def)
  have wf: "sched_wf ?a" by (subst sched_wf_cong [of _ s]) (simp_all add: ta, simp_all add: after_exit_def u)
  have pst: "tstat ?a p = Some TASK_WAITING" unfolding ta using u by (simp add: tstat_def)
  have "General p \<notin> set (waiters (semas ?a q))" for q
    using waiters_okD [OF sched_coreD(2) [OF sched_wfD(1) [OF wf]]] pst by fastforce
  from thread_unblock_wf [OF wf pst _ this] obtain s0 where s0: "thread_unblock p ?a = Inr s0" "sched_wf s0" "sched_frame ?a s0"
    "current s0 = ?c" "ready_threads_list s0 = General p # ready_threads_list ?a" "\<forall>t. tstat s0 t = (if t = p then Some TASK_READY else tstat ?a t)"
    by (auto simp: after_exit_def)
  obtain s1 where s1: "thread_block TASK_HANGING s0 = Inr (intr s0, s1)" "sched_wf s1" "sched_frame (s0\<lparr>intr := intr_off\<rparr>) s1"
    "current s1 = p" "\<forall>t. tstat s1 t = (if t = p then Some TASK_RUNNING else if t = ?c then Some TASK_HANGING else tstat s0 t)"
    using thread_block_running [OF s0(2), of TASK_HANGING] s0(4,5) by (auto simp: head_or_idle_def)
  have ex: "sys_exit status s = Inr s1" using s0(1) s1(1) by (simp add: sys_exit_start [OF assms])
  have fr: "locks s1 = locks s" "semas s1 = semas s" "all_threads_list s1 = map AllTag ts" "pid_bitmap s1 = pid_bitmap s"
    "main_thread s1 = main_thread s" "idle_thread s1 = idle_thread s" "pages_freed s1 = pages_freed s"
    using s0(3) s1(3) e by (simp_all add: sched_frame_def after_exit_def)
  have task: "\<exists>k st n. tasks s1 t = Some (k\<lparr>stat := st, ticks := n\<rparr>) \<and> tasks ?a t = Some k" if "t \<in> set ts" for t
  proof -
    have "tasks s t \<noteq> None" using that e by blast
    then have "tasks ?a t \<noteq> None" by (simp add: after_exit_def)
    then obtain k where k: "tasks ?a t = Some k" by blast
    from sched_frame_task [OF s0(3) this] obtain k1 where k1: "tasks s0 t = Some k1" "task_frame k k1" by blast
    then have "tasks (s0\<lparr>intr := intr_off\<rparr>) t = Some k1" by simp
    from sched_frame_task [OF s1(3) this] k1 obtain k2 where "tasks s1 t = Some k2" "task_frame k k2"
      by (blast intro: task_frame_trans)
    with k show ?thesis unfolding task_frame_def by metis
  qed
  obtain ck' where ck': "tasks s1 ?c = Some ck'" "pid ck' = pid ck" "pml4 ck' = pml4 ck" "exit_status ck' = of_int status" "parent_pid ck' = pid pk"
    using task [OF u(3)] u(7) by (auto simp: after_exit_def)
  have "tstat s1 ?c = Some TASK_HANGING" using s1(5) u(11) by simp
  then have hang: "stat ck' = TASK_HANGING" using ck'(1) by (simp add: tstat_def)
  have hc: "hanging_child (pid pk) (the (tasks s1 t)) \<longleftrightarrow> t = ?c" if t: "t \<in> set ts" for t
  proof (cases "t = ?c")
    case True
    then show ?thesis using ck' hang by (simp add: hanging_child_def)
  next
    case False
    then have ts1: "tstat s1 t = (if t = p then Some TASK_RUNNING else tstat s t)" using s1(5) s0(6) ta by simp
    obtain k where k: "tasks s t = Some k" using e t by auto
    then have a: "parent_pid (the (tasks s1 t)) = parent_pid (adopt (pid ck) k)"
      using task [OF t] False t by (auto simp: after_exit_def)
    have "\<not> hanging_child (pid pk) k" "\<not> hanging_child (pid ck) k" using e t k by force+
    moreover have "stat (the (tasks s1 t)) = (if t = p then TASK_RUNNING else stat k)"
      using ts1 k by (auto simp: tstat_def split: if_splits)
    ultimately show ?thesis using False a by (auto simp: hanging_child_def adopt_def split: if_splits)
  qed
  obtain pk' where pk': "tasks s1 p = Some pk'" "pid pk' = pid pk"
    using task [OF u(4)] u by (auto simp: after_exit_def)
  obtain q where q: "pml4 ck = Some q" using u by auto
  have "List.find (\<lambda>t. hanging_child (pid pk) (the (tasks s1 t))) ts = Some ?c"
    using hc u(3) by (intro find_unique) blast+
  moreover have "\<forall>t \<in> set ts. tasks s1 t \<noteq> None" using task by blast
  ultimately have find: "find_thread (hanging_child (pid pk)) (all_threads_list s1) s1 = Inr (Some ?c)"
    by (simp add: fr find_thread_eq)
  obtain b where b: "thread_exit ?c False s1 = Inr (s1\<lparr>tasks := (tasks s1)(?c := None), all_threads_list := map AllTag (remove1 ?c ts),
      pages_freed := ?c # q # pages_freed s, pid_bitmap := b\<rparr>)" "used_bits b = used_bits (pid_bitmap s) - {nat (sint (pid ck)) - 1}"
    using thread_exit_child [OF ck'(1) fr(3), of q] ck' fr e q by (auto simp: lock_free_def)
  let ?s2 = "s1\<lparr>tasks := (tasks s1)(?c := None), all_threads_list := map AllTag (remove1 ?c ts), pages_freed := ?c # q # pages_freed s, pid_bitmap := b\<rparr>"
  have "sys_wait s1 = Inr (Some (pid ck, Some (sint (of_int status :: byte))), ?s2)"
    using s1(4) pk' ck' find b(1) by (simp add: sys_wait_def running_thread_def the_task_def)
  moreover have "sched_wf ?s2"
    by (rule sched_wf_hanging_gone [OF s1(2), of ?c]) (use s1(5) u e fr in \<open>simp_all add: tstat_def\<close>)
  ultimately show ?thesis using ex s1 b(2) q u(11) by (intro exI [of _ s1] exI [of _ ?s2]) simp
qed

definition demo_child :: task where
  "demo_child = (demo_task TASK_RUNNING 1 4)\<lparr>parent_pid := 2, pml4 := Some 0x8000\<rparr>"

definition demo_exit :: proc where
  "demo_exit = demo_proc\<lparr>tasks := [5 \<mapsto> demo_child, 1 \<mapsto> demo_task TASK_WAITING 1 2, 3 \<mapsto> demo_task TASK_BLOCKED 1 3],
     current := 5, ist2 := 5, all_threads_list := [AllTag 3, AllTag 1, AllTag 5], ready_threads_list := []\<rparr>"

lemma demo_exit_simps [simp]:
  "tasks demo_exit = [5 \<mapsto> demo_child, 1 \<mapsto> demo_task TASK_WAITING 1 2, 3 \<mapsto> demo_task TASK_BLOCKED 1 3]"
  "current demo_exit = 5" "ist2 demo_exit = 5" "all_threads_list demo_exit = [AllTag 3, AllTag 1, AllTag 5]"
  "ready_threads_list demo_exit = []" "main_thread demo_exit = 1" "idle_thread demo_exit = 3" "pages_freed demo_exit = []"
  "semas demo_exit = (\<lambda>_. \<lparr>sval = 1, waiters = []\<rparr>)" "locks demo_exit = (\<lambda>_. \<lparr>holder = None, holder_repeat_nr = 0\<rparr>)"
  "pid_bitmap demo_exit = \<lparr>bytes_len = 128, bits = 7 # replicate 127 0\<rparr>"
  by (simp_all add: demo_exit_def demo_proc_def demo_kern_def kern.extend_def)

lemma demo_exiting: "exiting [3, 1, 5] demo_child 1 (demo_task TASK_WAITING 1 2) demo_exit"
proof -
  have "sched_wf demo_exit"
    by (auto simp: sched_wf_def sched_core_def ready_ok_def waiters_ok_def run_ok_def idle_ok_def
        tstat_def demo_task_def demo_child_def split: if_splits)
  moreover have "fd_table demo_child ! i = -1" if "3 \<le> i" "i < 8" for i
  proof -
    have "i = 3 \<or> i = 4 \<or> i = 5 \<or> i = 6 \<or> i = 7" using that by linarith
    then show ?thesis by (elim disjE) (simp_all add: demo_child_def demo_task_def)
  qed
  ultimately show ?thesis
    by (simp add: exiting_def threads_are_def lock_free_def bitmap_wf_def hanging_child_def)
      (simp add: demo_child_def demo_task_def)
qed

theorem exit_status_reaches_parent_witness:
  "\<exists>s1 s2. sys_exit 300 demo_exit = Inr s1 \<and> current s1 = 1 \<and> sys_wait s1 = Inr (Some (4, Some 44), s2) \<and>
     tasks s2 5 = None \<and> all_threads_list s2 = [AllTag 3, AllTag 1] \<and> pages_freed s2 = [5, 0x8000] \<and> sched_wf s2"
proof -
  have "pid demo_child = 4" "pml4 demo_child = Some 0x8000" by (simp_all add: demo_child_def demo_task_def)
  with exit_status_reaches_parent [OF demo_exiting, of 300] show ?thesis by auto
qed

text \<open>
  C27. Process numbers run out silently: with all 1024 of them in use \<^verbatim>\<open>alloc_pid\<close> takes the -1 of the bitmap for an
  index. \<^verbatim>\<open>fork\<close> still makes a child, ready to run, whose number is 0, and returns 0 to the parent, which is what
  the child gets too. When that child is removed, \<^verbatim>\<open>release_pid\<close> passes 0 - 1 as a \<^verbatim>\<open>size_t\<close>: \<^verbatim>\<open>bitmap_set\<close> is to clear bit
  2^64 - 1, in the byte 2^61 - 1 behind the start of the map, and faults.
\<close>
theorem pid_exhaustion:
  assumes "forkable fp pk page bp pm tmp s" "bytes_len (pid_bitmap s) = 128" "{..<1024} \<subseteq> used_bits (pid_bitmap s)"
    and "length (bits (pid_bitmap s)) = 128"
  shows "\<exists>s'. sys_fork fp s = Inr (0, s') \<and> first_return (unat page) s' = Inr 0 \<and>
    tasks s' (unat page) = Some (child_of pk 0 pm) \<and> General (unat page) \<in> set (ready_threads_list s') \<and>
    release_pid 0 s' = rbind (with_pid_lock (\<lambda>s. rbind (bitmap_set (pid_bitmap s) (2 ^ 64 - 1) False)
      (\<lambda>b. Inr ((), s\<lparr>pid_bitmap := b\<rparr>))) s') (\<lambda>(_, s). Inr s) \<and>
    thread_exit (unat page) sched s' = Inl (Fault ''bitmap'')"
proof -
  have f: "lock_free pid_lock s" "bitmap_wf (pid_bitmap s)" using assms(1) by (simp_all add: forkable_def)
  have "alloc_pid (s\<lparr>fork_rbp := fp, kpages := kp\<rparr>) = Inr (0, s\<lparr>fork_rbp := fp, kpages := kp, pid_bitmap := pid_bitmap s\<rparr>)" for kp
    using alloc_pid_full [of "s\<lparr>fork_rbp := fp, kpages := kp\<rparr>"] f assms(2,3) by (simp add: lock_free_def)
  from sys_fork_ok [OF assms(1) this] obtain s' where s': "sys_fork fp s = Inr (0, s')" "pid_bitmap s' = pid_bitmap s"
      "tasks s' = (tasks s)(unat page \<mapsto> child_of pk 0 pm)" "ready_threads_list s' = ready_threads_list s @ [General (unat page)]"
      "first_return (unat page) s' = Inr 0" "locks s' = locks s" "semas s' = semas s"
    by (elim exE conjE) (rule that; assumption)
  have idx: "unat (of_int (sint (0 :: pid_t) - 1) :: u64) = 2 ^ 64 - 1" by (simp add: unsigned_minus_1_eq_mask mask_eq_exp_minus_1)
  have rel: "release_pid 0 t = Inl (Fault ''bitmap'')" if "lock_free pid_lock t" "pid_bitmap t = pid_bitmap s" for t :: proc
  proof -
    have "lock_acquire pid_lock t = Inr (True, put_lock pid_lock \<lparr>holder = Some (current t), holder_repeat_nr = 1\<rparr>
      (put_sema (LockSema pid_lock) \<lparr>sval = 0, waiters = []\<rparr> t))"
      using lock_acquire_free [of t pid_lock] that(1) by (simp add: lock_free_def)
    moreover have "bitmap_set (pid_bitmap s) (2 ^ 64 - 1) False = Inl (Fault ''bitmap'')"
      using assms(4) by (simp add: bitmap_set_def)
    ultimately show ?thesis unfolding release_pid_def with_pid_lock_def idx Let_def using that(2) by (simp add: put_lock_def put_sema_def)
  qed
  have "release_pid 0 s' = rbind (with_pid_lock (\<lambda>s. rbind (bitmap_set (pid_bitmap s) (2 ^ 64 - 1) False)
      (\<lambda>b. Inr ((), s\<lparr>pid_bitmap := b\<rparr>))) s') (\<lambda>(_, s). Inr s)"
    unfolding release_pid_def idx Let_def ..
  moreover have "thread_exit (unat page) sched s' = Inl (Fault ''bitmap'')"
    unfolding thread_exit_def Let_def set_intr_stat_simp split
    using s'(2,3,6,7) f(1) by (simp add: rel lock_free_def put_task_def child_of_def the_task_def)
  ultimately show ?thesis using s'(1,3-5) by (intro exI [of _ s']) simp
qed

definition demo_full :: proc where
  "demo_full = demo_proc\<lparr>pid_bitmap := \<lparr>bytes_len = 128, bits = replicate 128 0xff\<rparr>\<rparr>"

lemma demo_full_forkable: "forkable 0x7fffffffff00 demo_forker 0x9000 0xa000 0xb000 0xc000 demo_full"
proof -
  have same: "tasks demo_full = tasks demo_proc" "current demo_full = current demo_proc" "intr demo_full = intr demo_proc"
    "kpages demo_full = kpages demo_proc" "ready_threads_list demo_full = ready_threads_list demo_proc"
    "all_threads_list demo_full = all_threads_list demo_proc" "spaces demo_full = spaces demo_proc" "frames demo_full = frames demo_proc"
    "file_table demo_full = file_table demo_proc" "kfs demo_full = kfs demo_proc" "lock_free pid_lock demo_full = lock_free pid_lock demo_proc"
    by (simp_all add: demo_full_def lock_free_def)
  have "bitmap_wf (pid_bitmap demo_full)" by (simp add: demo_full_def bitmap_wf_def)
  then show ?thesis using demo_forkable unfolding forkable_def fd_ok_def same
    by (elim conjE) (intro conjI; assumption)
qed

theorem pid_exhaustion_witness:
  "\<exists>s'. sys_fork 0x7fffffffff00 demo_full = Inr (0, s') \<and> first_return 0x9000 s' = Inr 0 \<and>
    tasks s' 0x9000 = Some (child_of demo_forker 0 0xb000) \<and> thread_exit 0x9000 False s' = Inl (Fault ''bitmap'')"
proof -
  have "bit (0xff :: byte) i" if "i < 8" for i
  proof -
    have e: "(0xff :: byte) = -1" by simp
    show ?thesis unfolding e using that by simp
  qed
  then have "{..<1024} \<subseteq> used_bits (pid_bitmap demo_full)" by (auto simp: demo_full_def used_bits_def)
  moreover have "bytes_len (pid_bitmap demo_full) = 128" "length (bits (pid_bitmap demo_full)) = 128" "unat (0x9000 :: u64) = 0x9000" by (simp_all add: demo_full_def)
  ultimately show ?thesis using pid_exhaustion [OF demo_full_forkable, of False] by auto
qed

end
