(* ===== verification/Exec.thy ===== *)
theory Exec
  imports Process
begin

text \<open>
  Loading programs (\<^verbatim>\<open>userprog/exec.c\<close>): the ELF headers, \<^verbatim>\<open>segment_load\<close>, \<^verbatim>\<open>load\<close> and \<^verbatim>\<open>sys_execv\<close>. The
  program is read with the system calls of theory \<open>FileCall\<close> into the user memory of theory \<open>Process\<close>. The
  registers and the kernel stack that \<^verbatim>\<open>sys_execv\<close> changes appear as its result.
\<close>

section \<open>Headers\<close>

record elf_header =
  e_ident :: "byte list"
  e_type :: u16
  e_machine :: u16
  e_version :: u32
  e_entry :: u64
  e_phoff :: u64
  e_phentsize :: u16
  e_phnum :: u16

record prog_header =
  p_type :: u32
  p_offset :: u64
  p_vaddr :: u64
  p_filesz :: u64
  p_memsz :: u64

definition decode_ehdr :: "byte list \<Rightarrow> elf_header" where
  "decode_ehdr bs = \<lparr>e_ident = take 16 bs, e_type = unle (take 2 (drop 16 bs)), e_machine = unle (take 2 (drop 18 bs)),
     e_version = unle (take 4 (drop 20 bs)), e_entry = unle (take 8 (drop 24 bs)), e_phoff = unle (take 8 (drop 32 bs)),
     e_phentsize = unle (take 2 (drop 54 bs)), e_phnum = unle (take 2 (drop 56 bs))\<rparr>"

definition decode_phdr :: "byte list \<Rightarrow> prog_header" where
  "decode_phdr bs = \<lparr>p_type = unle (take 4 bs), p_offset = unle (take 8 (drop 8 bs)), p_vaddr = unle (take 8 (drop 16 bs)),
     p_filesz = unle (take 8 (drop 32 bs)), p_memsz = unle (take 8 (drop 40 bs))\<rparr>"

definition sizeof_ehdr :: nat where "sizeof_ehdr = 64"
definition sizeof_phdr :: nat where "sizeof_phdr = 56"
definition PT_LOAD :: u32 where "PT_LOAD = 1"

definition elf_ok :: "elf_header \<Rightarrow> bool" where
  "elf_ok h \<longleftrightarrow> take 7 (e_ident h) = [0x7f, 0x45, 0x4c, 0x46, 2, 1, 1] \<and> e_type h = 2 \<and> e_machine h = 62 \<and>
     e_version h = 1 \<and> e_phentsize h = of_nat sizeof_phdr"

section \<open>Operations\<close>

text \<open>The kernel writes to the memory of the running process; a page that is not mapped faults.\<close>

definition write_user :: "u64 \<Rightarrow> byte list \<Rightarrow> proc \<Rightarrow> proc res" where
  "write_user v bs s =
     (let t = running_thread s; sp = spaces s t in
      if list_all (\<lambda>i. mapped sp (page_of (v + of_nat i))) [0..<length bs]
      then Inr (s\<lparr>spaces := (spaces s)(t := sp\<lparr>umem := (\<lambda>a. if unat (a - v) < length bs then bs ! unat (a - v) else umem sp a)\<rparr>)\<rparr>)
      else Inl (Fault ''user page''))"

definition occupy_pages :: "u64 \<Rightarrow> u64 \<Rightarrow> u32" where
  "occupy_pages filesz vaddr =
     (let size_in_first_page = ucast (PG_SIZE - (vaddr AND 0xfff)) :: u32 in
      if ucast size_in_first_page < filesz then
        let left_size = ucast (filesz - ucast size_in_first_page) :: u32 in
        (left_size + 4096 - 1) div 4096 + 1
      else 1)"

text \<open>The loop that maps the pages of a segment; \<open>False\<close> when the frames run out.\<close>

fun map_segment :: "nat \<Rightarrow> u64 \<Rightarrow> proc \<Rightarrow> (bool \<times> proc) res" where
  "map_segment 0 vaddr_page s = Inr (True, s)"
| "map_segment (Suc n) vaddr_page s =
     (let t = running_thread s in
      if mapped (spaces s t) vaddr_page then map_segment n (vaddr_page + PG_SIZE) s
      else
        rbind (get_upages t vaddr_page 1 s) (\<lambda>(ok, s).
        if \<not> ok then Inr (False, s)
        else
          rbind (bitmap_set (upool (spaces s t)) (unat ((vaddr_page - USER_START_ADDR) div PG_SIZE)) True) (\<lambda>b.
          map_segment n (vaddr_page + PG_SIZE) (s\<lparr>spaces := (spaces s)(t := (spaces s t)\<lparr>upool := b\<rparr>)\<rparr>))))"

definition segment_load :: "int \<Rightarrow> u64 \<Rightarrow> u64 \<Rightarrow> u64 \<Rightarrow> proc \<Rightarrow> (bool \<times> proc) res" where
  "segment_load fd offset filesz vaddr s =
     rbind (map_segment (unat (occupy_pages filesz vaddr)) (page_of vaddr) s) (\<lambda>(ok, s).
     if \<not> ok then Inr (False, s)
     else
       rbind (sys_lseek fd offset SEEK_SET s) (\<lambda>(_, s).
       rbind (sys_read fd (unat filesz) s) (\<lambda>((ret, bs, park), s).
       rbind (write_user vaddr bs s) (\<lambda>s. Inr (True, s)))))"

fun load_segments :: "nat \<Rightarrow> u64 \<Rightarrow> u64 \<Rightarrow> int \<Rightarrow> proc \<Rightarrow> (bool \<times> proc) res" where
  "load_segments 0 off sz fd s = Inr (True, s)"
| "load_segments (Suc n) off sz fd s =
     rbind (sys_lseek fd off SEEK_SET s) (\<lambda>(_, s).
     rbind (sys_read fd (unat sz) s) (\<lambda>((ret, bs, park), s).
     if ret \<noteq> sz then Inr (False, s)
     else
       let ph = decode_phdr bs in
       if p_type ph = PT_LOAD then
         rbind (segment_load fd (p_offset ph) (p_filesz ph) (p_vaddr ph) s) (\<lambda>(ok, s).
         if \<not> ok then Inr (False, s) else load_segments n (off + sz) sz fd s)
       else load_segments n (off + sz) sz fd s))"

text \<open>The result is the entry point, or -1.\<close>

definition load :: "byte list \<Rightarrow> proc \<Rightarrow> (u64 \<times> proc) res" where
  "load pathname s =
     rbind (sys_open pathname 0 s) (\<lambda>(fd, s).
     if fd = -1 then Inr (-1, s)
     else
       rbind (sys_read fd sizeof_ehdr s) (\<lambda>((ret, bs, park), s).
       rbind
         (if ret \<noteq> of_nat sizeof_ehdr then Inr (-1, s)
          else
            let h = decode_ehdr bs in
            if \<not> elf_ok h then Inr (-1, s)
            else
              rbind (load_segments (unat (e_phnum h)) (e_phoff h) (ucast (e_phentsize h)) fd s) (\<lambda>(ok, s).
              Inr (if ok then e_entry h else -1, s))) (\<lambda>(entry_point, s).
       rbind (sys_close fd s) (\<lambda>(_, s). Inr (entry_point, s)))))"

text \<open>On success the entry point and the number of arguments, with which the process goes on; otherwise -1.\<close>

definition sys_execv :: "byte list \<Rightarrow> byte list list \<Rightarrow> proc \<Rightarrow> ((u64 \<times> nat) option \<times> proc) res" where
  "sys_execv path argv s =
     rbind (load path s) (\<lambda>(entry_point, s).
     if entry_point = -1 then Inr (None, s)
     else
       rbind (the_task s (running_thread s)) (\<lambda>cur.
       let nm = map (\<lambda>c. char_of (unat c)) (base_name path) in
       if length nm < TASK_NAME_LEN
       then Inr (Some (entry_point, length argv), put_task (running_thread s) (cur\<lparr>name := nm\<rparr>) s)
       else Inl (Fault ''cur->name'')))"

end
