(* ===== verification/ExecSpec.thy ===== *)
theory ExecSpec
  imports Exec FileSpec ProcSpec
begin

text \<open>
  What the loader leaves in memory: \<^verbatim>\<open>segment_load\<close> maps the pages of a segment and puts the bytes of the file there, and the loop of
  \<^verbatim>\<open>load\<close> does so for every loadable segment. What a segment has in memory beyond the file is not looked at.
\<close>

section \<open>Pages of a segment\<close>

lemma page_of_plus:
  assumes "page_of p = p" "r < 4096"
  shows "page_of (p + of_nat r) = p"
proof -
  obtain u where u: "p = push_bit 12 u" using assms(1) unfolding page_of_bits by metis
  have "p + of_nat r = p OR of_nat r"
  proof (rule disjunctive_add)
    fix n
    have "\<not> bit r n" if "12 \<le> n"
    proof -
      have "r < 2 ^ n" using assms(2) power_increasing [OF that, of "2 :: nat"] by simp
      then show ?thesis by (simp add: bit_iff_odd)
    qed
    then show "\<not> bit p n \<or> \<not> bit (of_nat r :: u64) n" by (auto simp: u bit_simps not_le)
  qed
  moreover have "page_of (p OR of_nat r) = p"
  proof -
    have "unat (of_nat r :: u64) = r" using assms(2) unfolding unsigned_of_nat of_nat_id by (intro take_bit_nat_eq_self) simp
    then have "unat (drop_bit 12 (of_nat r :: u64)) = 0" using assms(2) by (simp add: unat_div drop_bit_eq_div)
    then have "drop_bit 12 (of_nat r :: u64) = 0" by (simp only: unsigned_eq_0_iff)
    then show ?thesis using assms(1) by (simp add: page_of_bits)
  qed
  ultimately show ?thesis by simp
qed

definition page_off :: "u64 \<Rightarrow> nat" where
  "page_off v = unat (v AND 0xfff)"

lemma page_split: "v = page_of v + of_nat (page_off v)" "page_off v < 4096" "page_of (page_of v) = page_of v"
proof -
  have m: "(0xfff :: u64) = mask 12" by (simp add: mask_eq_exp_minus_1)
  show "page_of (page_of v) = page_of v" unfolding page_of_bits [of v] by (rule page_of_push)
  have "page_of v + (v AND mask 12) = page_of v OR (v AND mask 12)"
    by (rule disjunctive_add) (auto simp: page_of_bits bit_simps)
  also have "\<dots> = v" unfolding page_of_bits by (rule bit_word_eqI) (auto simp: bit_simps)
  finally show "v = page_of v + of_nat (page_off v)" by (simp add: page_off_def m)
  have "v AND mask 12 = take_bit 12 v" by (simp add: take_bit_eq_mask)
  then show "page_off v < 4096" using take_bit_nat_less_exp [of 12 "unat v"] by (simp add: page_off_def m unsigned_take_bit_eq)
qed

lemma page_in_segment:
  assumes "0 < unat n" "unat n \<le> 71680" "i < unat n"
  shows "page_of (v + of_nat i) \<in> upages (page_of v) (unat (occupy_pages n v))"
proof -
  let ?o = "page_off v"
  have o: "?o < 4096" by (rule page_split)
  have first: "unat (ucast (PG_SIZE - (v AND 0xfff)) :: u32) = 4096 - ?o"
  proof -
    have "(v AND 0xfff) \<le> PG_SIZE" using o by (simp add: page_off_def PG_SIZE_def word_le_nat_alt)
    then have "unat (PG_SIZE - (v AND 0xfff)) = 4096 - ?o" by (simp add: unat_sub page_off_def PG_SIZE_def)
    moreover have "take_bit LENGTH(32) (4096 - ?o) = 4096 - ?o" by (intro take_bit_nat_eq_self) simp
    moreover have "unat (ucast (PG_SIZE - (v AND 0xfff)) :: u32) = take_bit LENGTH(32) (unat (PG_SIZE - (v AND 0xfff)))"
      by (rule unsigned_ucast_eq)
    ultimately show ?thesis by metis
  qed
  have cnt: "unat (occupy_pages n v) = (if 4096 - ?o < unat n then (unat n - (4096 - ?o) + 4095) div 4096 + 1 else 1)"
  proof -
    let ?f = "ucast (PG_SIZE - (v AND 0xfff)) :: u32"
    have f: "unat (ucast ?f :: u64) = 4096 - ?o"
    proof -
      have "unat (ucast ?f :: u64) = take_bit LENGTH(64) (unat ?f)" by (rule unsigned_ucast_eq)
      also have "\<dots> = 4096 - ?o" unfolding first by (intro take_bit_nat_eq_self) simp
      finally show ?thesis .
    qed
    show ?thesis
    proof (cases "4096 - ?o < unat n")
      case True
      then have lt: "ucast ?f < n" using f by (simp add: word_less_nat_alt)
      then have "unat (n - ucast ?f) = unat n - (4096 - ?o)" by (simp only: unat_sub [OF less_imp_le [OF lt]] f)
      then have l: "unat (ucast (n - ucast ?f) :: u32) = unat n - (4096 - ?o)" using assms(2) by (simp add: unsigned_ucast_eq take_bit_nat_eq_self)
      let ?l = "ucast (n - ucast ?f) :: u32"
      have "?l + 4096 - 1 = of_nat (unat n - (4096 - ?o) + 4095)" unfolding l [symmetric] by simp
      moreover have "unat (of_nat (unat n - (4096 - ?o) + 4095) :: u32) = unat n - (4096 - ?o) + 4095"
        unfolding unsigned_of_nat of_nat_id using assms(2) by (intro take_bit_nat_eq_self) simp
      ultimately have "unat (?l + 4096 - 1) = unat n - (4096 - ?o) + 4095" by (simp only:)
      then have d: "unat ((?l + 4096 - 1) div 4096) = (unat n - (4096 - ?o) + 4095) div 4096" by (simp add: unat_div)
      have "unat ((?l + 4096 - 1) div 4096 + 1) = (unat n - (4096 - ?o) + 4095) div 4096 + 1"
      proof -
        have "(unat n - (4096 - ?o) + 4095) div 4096 + 1 < 2 ^ 32" using assms(2) by simp
        then show ?thesis using d by (simp add: unat_add_lem [THEN iffD1])
      qed
      then show ?thesis using True lt by (simp add: occupy_pages_def Let_def)
    next
      case False
      then have "\<not> ucast ?f < n" using f by (simp add: word_less_nat_alt)
      then show ?thesis using False by (simp add: occupy_pages_def Let_def)
    qed
  qed
  have "v + of_nat i = (page_of v + of_nat ((?o + i) div 4096) * PG_SIZE) + of_nat ((?o + i) mod 4096)"
  proof -
    have "(of_nat (?o + i) :: u64) = of_nat ((?o + i) div 4096 * 4096 + (?o + i) mod 4096)" by (simp only: div_mult_mod_eq)
    also have "\<dots> = of_nat ((?o + i) div 4096) * PG_SIZE + of_nat ((?o + i) mod 4096)"
      unfolding of_nat_add of_nat_mult by (simp add: PG_SIZE_def)
    finally have sum: "(of_nat (?o + i) :: u64) = of_nat ((?o + i) div 4096) * PG_SIZE + of_nat ((?o + i) mod 4096)" .
    have "v + of_nat i = (page_of v + of_nat ?o) + of_nat i" by (rule arg_cong [OF page_split(1), of "\<lambda>v. v + of_nat i"])
    also have "\<dots> = page_of v + of_nat (?o + i)" by simp
    finally have "v + of_nat i = page_of v + (of_nat ((?o + i) div 4096) * PG_SIZE + of_nat ((?o + i) mod 4096))" unfolding sum .
    then show ?thesis by (simp only: add.assoc)
  qed
  moreover have "page_of (page_of v + of_nat ((?o + i) div 4096) * PG_SIZE) = page_of v + of_nat ((?o + i) div 4096) * PG_SIZE"
  proof -
    have "page_of v + of_nat ((?o + i) div 4096) * PG_SIZE \<in> upages (page_of v) (Suc ((?o + i) div 4096))" by (auto simp: upages_def)
    then show ?thesis by (rule upages_aligned [OF page_split(3)])
  qed
  ultimately have p: "page_of (v + of_nat i) = page_of v + of_nat ((?o + i) div 4096) * PG_SIZE"
    using page_of_plus [of _ "(?o + i) mod 4096"] by simp
  have "(?o + i) div 4096 < unat (occupy_pages n v)"
  proof (cases "4096 - ?o < unat n")
    case True
    have "?o + i \<le> 4096 + (unat n - (4096 - ?o) - 1)" using assms(3) True o by linarith
    then have "(?o + i) div 4096 \<le> (4096 + (unat n - (4096 - ?o) - 1)) div 4096" by (rule div_le_mono)
    also have "4096 + (unat n - (4096 - ?o) - 1) = unat n - (4096 - ?o) + 4095" using True by linarith
    finally show ?thesis unfolding cnt using True by simp
  next
    case False
    then have "?o + i < 4096" using assms(3) o by linarith
    then show ?thesis unfolding cnt using False by simp
  qed
  then show ?thesis unfolding p upages_def by blast
qed

text \<open>The bit of the pool that stands for a page.\<close>

definition pool_bit :: "u64 \<Rightarrow> nat" where
  "pool_bit a = unat ((a - USER_START_ADDR) div PG_SIZE)"

lemma frames_spaces: "(s :: proc)\<lparr>frames := k, spaces := m\<rparr> = s\<lparr>spaces := m, frames := k\<rparr>"
  by (rule proc.equality) simp_all

lemma map_segment_ok:
  assumes "page_of v = v" "n \<le> frames s" "n < 2 ^ 51" "t = running_thread s"
    "\<forall>a \<in> upages v n. pool_bit a < 8 * length (bits (upool (spaces s t)))"
  shows "\<exists>sp k. map_segment n v s = Inr (True, s\<lparr>spaces := (spaces s)(t := sp), frames := k\<rparr>) \<and> frames s \<le> k + n \<and>
    mapped sp = (\<lambda>a. a \<in> upages v n \<or> mapped (spaces s t) a) \<and> same_shape (upool (spaces s t)) (upool sp) \<and>
    used_bits (upool sp) = used_bits (upool (spaces s t)) \<union> pool_bit ` {a \<in> upages v n. \<not> mapped (spaces s t) a} \<and>
    (\<forall>a. mapped (spaces s t) (page_of a) \<longrightarrow> umem sp a = umem (spaces s t) a)"
  using assms
proof (induction n arbitrary: v s)
  case 0
  then show ?case by (intro exI [of _ "spaces s t"] exI [of _ "frames s"]) (simp add: upages_simps same_shape_def)
next
  case (Suc n)
  have v': "page_of (v + PG_SIZE) = v + PG_SIZE" "n < 2 ^ 51" using Suc.prems(1,3) page_of_next by simp_all
  have apart: "v \<notin> upages (v + PG_SIZE) n" by (rule upages_apart) (rule v'(2))
  show ?case
  proof (cases "mapped (spaces s t) v")
    case True
    have pre: "n \<le> frames s" "\<forall>a \<in> upages (v + PG_SIZE) n. pool_bit a < 8 * length (bits (upool (spaces s t)))"
      using Suc.prems by (simp_all add: upages_simps)
    obtain sp k where sp: "map_segment n (v + PG_SIZE) s = Inr (True, s\<lparr>spaces := (spaces s)(t := sp), frames := k\<rparr>)" "frames s \<le> k + n"
      "mapped sp = (\<lambda>a. a \<in> upages (v + PG_SIZE) n \<or> mapped (spaces s t) a)" "same_shape (upool (spaces s t)) (upool sp)"
      "used_bits (upool sp) = used_bits (upool (spaces s t)) \<union> pool_bit ` {a \<in> upages (v + PG_SIZE) n. \<not> mapped (spaces s t) a}"
      "\<forall>a. mapped (spaces s t) (page_of a) \<longrightarrow> umem sp a = umem (spaces s t) a"
      using Suc.IH [OF v'(1) pre(1) v'(2) Suc.prems(4) pre(2)] by (elim exE conjE) (rule that; assumption)
    have "map_segment (Suc n) v s = map_segment n (v + PG_SIZE) s" using True Suc.prems(4) by simp
    then have run: "map_segment (Suc n) v s = Inr (True, s\<lparr>spaces := (spaces s)(t := sp), frames := k\<rparr>)" using sp(1) by (simp only:)
    have new: "{a \<in> upages v (Suc n). \<not> mapped (spaces s t) a} = {a \<in> upages (v + PG_SIZE) n. \<not> mapped (spaces s t) a}"
      using True by (auto simp: upages_simps)
    have m: "mapped sp = (\<lambda>a. a \<in> upages v (Suc n) \<or> mapped (spaces s t) a)"
      using sp(3) True by (auto simp: upages_simps)
    have k: "frames s \<le> k + Suc n" using sp(2) by simp
    show ?thesis by (intro exI [of _ sp] exI [of _ k] conjI run k m sp(4,6)) (unfold new, rule sp(5))
  next
    case False
    have "\<forall>a \<in> upages v 1. \<not> mapped (spaces s t) a" using False by (simp add: upages_def)
    then obtain sp where sp: "get_upages t v 1 s = Inr (True, s\<lparr>spaces := (spaces s)(t := sp), frames := frames s - 1\<rparr>)"
      "mapped sp = (\<lambda>a. a \<in> upages v 1 \<or> mapped (spaces s t) a)" "upool sp = upool (spaces s t)"
      "\<forall>a. page_of a \<notin> upages v 1 \<longrightarrow> umem sp a = umem (spaces s t) a"
    proof -
      have one: "(1 :: nat) < 2 ^ 51" "1 \<le> frames s" using Suc.prems(2) by simp_all
      show thesis
        using get_upages_ok [OF Suc.prems(1) one(2,1) \<open>\<forall>a \<in> upages v 1. \<not> mapped (spaces s t) a\<close>]
        by (elim exE conjE) (rule that; assumption)
    qed
    have one: "upages v 1 = {v}" by (auto simp: upages_def)
    have "pool_bit v < 8 * length (bits (upool sp))" using Suc.prems(5) sp(3) by (simp add: upages_simps)
    then obtain b where b: "bitmap_set (upool sp) (pool_bit v) True = Inr b" "same_shape (upool sp) b"
      "used_bits b = insert (pool_bit v) (used_bits (upool sp))"
      using bitmap_set_used [of "pool_bit v" "upool sp" True] by metis
    let ?s = "s\<lparr>spaces := (spaces s)(t := sp\<lparr>upool := b\<rparr>), frames := frames s - 1\<rparr>"
    have step: "map_segment (Suc n) v s = map_segment n (v + PG_SIZE) ?s"
      using False Suc.prems(4) sp(1) b(1) by (simp add: pool_bit_def Let_def frames_spaces del: get_upages.simps)
    have pre: "n \<le> frames ?s" "t = running_thread ?s"
      "\<forall>a \<in> upages (v + PG_SIZE) n. pool_bit a < 8 * length (bits (upool (spaces ?s t)))"
      using Suc.prems b(2) sp(3) by (simp_all add: upages_simps running_thread_def same_shape_def)
    obtain sp' k where sp': "map_segment n (v + PG_SIZE) ?s = Inr (True, ?s\<lparr>spaces := (spaces ?s)(t := sp'), frames := k\<rparr>)" "frames ?s \<le> k + n"
      "mapped sp' = (\<lambda>a. a \<in> upages (v + PG_SIZE) n \<or> mapped (spaces ?s t) a)" "same_shape (upool (spaces ?s t)) (upool sp')"
      "used_bits (upool sp') = used_bits (upool (spaces ?s t)) \<union> pool_bit ` {a \<in> upages (v + PG_SIZE) n. \<not> mapped (spaces ?s t) a}"
      "\<forall>a. mapped (spaces ?s t) (page_of a) \<longrightarrow> umem sp' a = umem (spaces ?s t) a"
      using Suc.IH [OF v'(1) pre(1) v'(2) pre(2) pre(3)] by (elim exE conjE) (rule that; assumption)
    have run: "map_segment (Suc n) v s = Inr (True, s\<lparr>spaces := (spaces s)(t := sp'), frames := k\<rparr>)"
      using step sp'(1) by (simp add: frames_spaces del: map_segment.simps)
    have k: "frames s \<le> k + Suc n" using sp'(2) Suc.prems(2) by simp
    have m: "mapped sp' = (\<lambda>a. a \<in> upages v (Suc n) \<or> mapped (spaces s t) a)"
      using sp'(3) sp(2) one by (auto simp: upages_simps)
    have shape: "same_shape (upool (spaces s t)) (upool sp')" using sp'(4) b(2) sp(3) by (simp add: same_shape_def)
    have new: "{a \<in> upages v (Suc n). \<not> mapped (spaces s t) a} = insert v {a \<in> upages (v + PG_SIZE) n. \<not> mapped (spaces ?s t) a}"
      using False sp(2) one apart by (auto simp: upages_simps)
    have used: "used_bits (upool sp') = used_bits (upool (spaces s t)) \<union> pool_bit ` {a \<in> upages v (Suc n). \<not> mapped (spaces s t) a}"
      unfolding new sp'(5) using b(3) sp(3) by simp
    have old: "\<forall>a. mapped (spaces s t) (page_of a) \<longrightarrow> umem sp' a = umem (spaces s t) a"
      using sp'(6) sp(2,4) one False by auto
    show ?thesis by (intro exI [of _ sp'] exI [of _ k] conjI run k m shape used old)
  qed
qed

section \<open>One segment\<close>

lemma write_user_ok:
  assumes "t = running_thread s" "\<forall>i < length bs. mapped (spaces s t) (page_of (v + of_nat i))"
  shows "write_user v bs s = Inr (s\<lparr>spaces := (spaces s)(t := (spaces s t)\<lparr>umem :=
    (\<lambda>a. if unat (a - v) < length bs then bs ! unat (a - v) else umem (spaces s t) a)\<rparr>)\<rparr>)"
  using assms(2) unfolding assms(1) by (simp add: write_user_def list_all_iff Let_def)

definition in_segment :: "u64 \<Rightarrow> nat \<Rightarrow> u64 \<Rightarrow> bool" where
  "in_segment v n x \<longleftrightarrow> unat (x - v) < n"

text \<open>What a segment needs: its bytes are in the file, its pages belong to the pool.\<close>

definition loadable :: "nat \<Rightarrow> nat \<Rightarrow> u64 \<Rightarrow> nat \<Rightarrow> bitmap \<Rightarrow> bool" where
  "loadable off n v len b \<longleftrightarrow> off + n \<le> len \<and>
     (\<forall>a \<in> upages (page_of v) (unat (occupy_pages (of_nat n) v)). pool_bit a < 8 * length (bits b))"

text \<open>What a loaded segment is.\<close>

definition loaded :: "nat \<Rightarrow> nat \<Rightarrow> u64 \<Rightarrow> byte list \<Rightarrow> space \<Rightarrow> bool" where
  "loaded off n v bs sp \<longleftrightarrow> (\<forall>i < n. mapped sp (page_of (v + of_nat i)) \<and> umem sp (v + of_nat i) = bs ! (off + i))"

lemma regular_length: "regular fd g a s \<Longrightarrow> length (bytes_of a s) \<le> 71680"
  by (erule regularE) simp

lemma regular_spaces [simp]:
  "regular fd g a (s\<lparr>spaces := m\<rparr>) = regular fd g a s" "regular fd g a (s\<lparr>frames := k\<rparr>) = regular fd g a s"
  "bytes_of a (s\<lparr>spaces := m\<rparr>) = bytes_of a s" "bytes_of a (s\<lparr>frames := k\<rparr>) = bytes_of a s"
  "pos_of g (s\<lparr>spaces := m\<rparr>) = pos_of g s" "pos_of g (s\<lparr>frames := k\<rparr>) = pos_of g s"
  by (simp_all add: regular_def bytes_of_def pos_of_def fd_slot_def split: option.split)

lemma put_file_proc [simp]:
  "spaces (put_file g f s) = spaces s" "frames (put_file g f s) = frames s" "running_thread (put_file g f s) = running_thread s"
  "put_file g f (s\<lparr>spaces := m\<rparr>) = (put_file g f s)\<lparr>spaces := m\<rparr>"
  by (simp_all add: put_file_def running_thread_def)

lemma running_thread_simps [simp]:
  "running_thread (s\<lparr>spaces := m\<rparr>) = running_thread s" "running_thread (s\<lparr>frames := k\<rparr>) = running_thread s"
  by (simp_all add: running_thread_def)

text \<open>Reading a part of the file, as the loader does it.\<close>

lemma seek_and_read:
  assumes "regular fd g a s" "off + n \<le> length (bytes_of a s)"
  shows "\<exists>f s1 s2. sys_lseek fd (of_nat off) SEEK_SET s = Inr (of_nat off, s1) \<and>
    sys_read fd n s1 = Inr ((of_nat n, take n (drop off (bytes_of a s)), None), s2) \<and> s2 = put_file g f s \<and>
    regular fd g a s2 \<and> bytes_of a s2 = bytes_of a s"
proof -
  note len = regular_length [OF assms(1)]
  have off: "off \<le> length (bytes_of a s)" "off + n \<le> length (bytes_of a s)" using assms(2) by simp_all
  define s1 where "s1 = put_file g ((file_table s ! g)\<lparr>fd_pos := of_nat off\<rparr>) s"
  have r1: "regular fd g a s1" "bytes_of a s1 = bytes_of a s" "pos_of g s1 = off"
    unfolding s1_def by (rule regular_move [OF assms(1) off(1)])+
  define s2 where "s2 = put_file g ((file_table s1 ! g)\<lparr>fd_pos := of_nat (off + n)\<rparr>) s1"
  have r2: "regular fd g a s2" "bytes_of a s2 = bytes_of a s"
    unfolding s2_def using regular_move [OF r1(1)] r1(2) off(2) by metis+
  have n: "n < 2 ^ 61" using assms(2) len by simp
  have l: "length (take n (drop off (bytes_of a s))) = n" using off by simp
  have "\<not> (length (bytes_of a s) \<le> off \<and> 0 < n)" using assms(2) by linarith
  then have "sys_read fd n s1 = Inr ((of_nat n, take n (drop off (bytes_of a s)), None), s2)"
    unfolding sys_read_regular [OF r1(1) n] r1(2,3) s2_def Let_def l by simp
  moreover have "s2 = put_file g ((file_table s1 ! g)\<lparr>fd_pos := of_nat (off + n)\<rparr>) s"
    unfolding s2_def s1_def by (simp add: put_file_def)
  moreover have "sys_lseek fd (of_nat off) SEEK_SET s = Inr (of_nat off, s1)"
    unfolding s1_def by (rule sys_lseek_regular [OF assms(1) off(1)])
  ultimately show ?thesis using r2 by metis
qed

lemma segment_load_ok:
  assumes "regular fd g a s" "loadable off n v (length (bytes_of a s)) (upool (spaces s t))"
    "unat (occupy_pages (of_nat n) v) \<le> frames s" "t = running_thread s"
  shows "\<exists>s' sp. segment_load fd (of_nat off) (of_nat n) v s = Inr (True, s') \<and> regular fd g a s' \<and> bytes_of a s' = bytes_of a s \<and>
    running_thread s' = t \<and> spaces s' = (spaces s)(t := sp) \<and> frames s \<le> frames s' + unat (occupy_pages (of_nat n) v) \<and>
    loaded off n v (bytes_of a s) sp \<and> same_shape (upool (spaces s t)) (upool sp) \<and>
    (\<forall>x. mapped (spaces s t) (page_of x) \<longrightarrow> mapped sp (page_of x) \<and> (\<not> in_segment v n x \<longrightarrow> umem sp x = umem (spaces s t) x))"
proof -
  let ?n = "unat (occupy_pages (of_nat n) v)"
  note len = regular_length [OF assms(1)]
  have bnd: "off + n \<le> length (bytes_of a s)" using assms(2) by (simp add: loadable_def)
  then have n: "unat (of_nat n :: u64) = n" using len by (intro unat_of_nat_u64) simp
  have "?n < 2 ^ LENGTH(32)" by (rule unsigned_less)
  then have cnt: "?n < 2 ^ 51" by simp
  have pool: "\<forall>a \<in> upages (page_of v) ?n. pool_bit a < 8 * length (bits (upool (spaces s t)))"
    using assms(2) by (simp add: loadable_def)
  obtain sp k where m: "map_segment ?n (page_of v) s = Inr (True, s\<lparr>spaces := (spaces s)(t := sp), frames := k\<rparr>)" "frames s \<le> k + ?n"
    "mapped sp = (\<lambda>a. a \<in> upages (page_of v) ?n \<or> mapped (spaces s t) a)" "same_shape (upool (spaces s t)) (upool sp)"
    "\<forall>a. mapped (spaces s t) (page_of a) \<longrightarrow> umem sp a = umem (spaces s t) a"
    using map_segment_ok [OF page_split(3) assms(3) cnt assms(4) pool] by (elim exE conjE) (rule that; assumption)
  let ?s = "s\<lparr>spaces := (spaces s)(t := sp), frames := k\<rparr>"
  have r: "regular fd g a ?s" "bytes_of a ?s = bytes_of a s" using assms(1) by simp_all
  then obtain f s1 s2 where rd: "sys_lseek fd (of_nat off) SEEK_SET ?s = Inr (of_nat off, s1)"
    "sys_read fd n s1 = Inr ((of_nat n, take n (drop off (bytes_of a s)), None), s2)" "s2 = put_file g f ?s"
    "regular fd g a s2" "bytes_of a s2 = bytes_of a s"
    using seek_and_read [OF r(1)] bnd by metis
  have l: "length (take n (drop off (bytes_of a s))) = n" using bnd by simp
  have in_pages: "mapped sp (page_of (v + of_nat i))" if "i < n" for i
    using page_in_segment [of "of_nat n" i v] that bnd len n m(3) by simp
  have s2: "spaces s2 = (spaces s)(t := sp)" "frames s2 = k" "running_thread s2 = t" using rd(3) assms(4) by simp_all
  let ?sp = "sp\<lparr>umem := (\<lambda>x. if unat (x - v) < n then take n (drop off (bytes_of a s)) ! unat (x - v) else umem sp x)\<rparr>"
  have "write_user v (take n (drop off (bytes_of a s))) s2 = Inr (s2\<lparr>spaces := (spaces s)(t := ?sp)\<rparr>)"
    using write_user_ok [OF s2(3) [symmetric], of "take n (drop off (bytes_of a s))" v] in_pages unfolding l s2(1) fun_upd_same by simp
  then have run: "segment_load fd (of_nat off) (of_nat n) v s = Inr (True, s2\<lparr>spaces := (spaces s)(t := ?sp)\<rparr>)"
    unfolding segment_load_def using m(1) rd(1,2) n by simp
  have "loaded off n v (bytes_of a s) ?sp"
  proof -
    have "umem ?sp (v + of_nat i) = bytes_of a s ! (off + i)" if "i < n" for i
    proof -
      have "unat (of_nat i :: u64) = i" using that bnd len by (intro unat_of_nat_u64) simp
      then show ?thesis using that bnd by simp
    qed
    then show ?thesis using in_pages by (simp add: loaded_def)
  qed
  then show ?thesis using run rd(4,5) s2 m
    by (intro exI [of _ "s2\<lparr>spaces := (spaces s)(t := ?sp)\<rparr>"] exI [of _ ?sp]) (simp add: in_segment_def)
qed

section \<open>The program headers\<close>

primrec headers_at :: "byte list \<Rightarrow> nat \<Rightarrow> prog_header list \<Rightarrow> bool" where
  "headers_at bs off [] = True"
| "headers_at bs off (ph # phs) = (off + sizeof_phdr \<le> length bs \<and> decode_phdr (take sizeof_phdr (drop off bs)) = ph \<and>
     headers_at bs (off + sizeof_phdr) phs)"

abbreviation to_load :: "prog_header list \<Rightarrow> prog_header list" where
  "to_load phs \<equiv> filter (\<lambda>ph. p_type ph = PT_LOAD) phs"

definition pages_of :: "prog_header \<Rightarrow> nat" where
  "pages_of ph = unat (occupy_pages (p_filesz ph) (p_vaddr ph))"

definition ph_in :: "prog_header \<Rightarrow> u64 \<Rightarrow> bool" where
  "ph_in ph = in_segment (p_vaddr ph) (unat (p_filesz ph))"

definition ph_loadable :: "nat \<Rightarrow> bitmap \<Rightarrow> prog_header \<Rightarrow> bool" where
  "ph_loadable len b ph = loadable (unat (p_offset ph)) (unat (p_filesz ph)) (p_vaddr ph) len b"

definition ph_loaded :: "byte list \<Rightarrow> space \<Rightarrow> prog_header \<Rightarrow> bool" where
  "ph_loaded bs sp ph = loaded (unat (p_offset ph)) (unat (p_filesz ph)) (p_vaddr ph) bs sp"

definition apart :: "prog_header \<Rightarrow> prog_header \<Rightarrow> bool" where
  "apart p q \<longleftrightarrow> (\<forall>x. \<not> (ph_in p x \<and> ph_in q x))"

text \<open>Loading more leaves a loaded segment as it is when it lies apart.\<close>

lemma ph_loaded_kept:
  assumes "ph_loaded bs sp ph"
    "\<forall>x. mapped sp (page_of x) \<longrightarrow> mapped sp' (page_of x) \<and> (\<not> P x \<longrightarrow> umem sp' x = umem sp x)"
    "\<forall>x. \<not> (ph_in ph x \<and> P x)" "unat (p_filesz ph) < 2 ^ 64"
  shows "ph_loaded bs sp' ph"
  unfolding ph_loaded_def loaded_def
proof (intro allI impI)
  fix i assume i: "i < unat (p_filesz ph)"
  have "unat (of_nat i :: u64) = i" using i assms(4) by (intro unat_of_nat_u64) simp
  then have "ph_in ph (p_vaddr ph + of_nat i)" using i by (simp add: ph_in_def in_segment_def)
  moreover have "mapped sp (page_of (p_vaddr ph + of_nat i))" "umem sp (p_vaddr ph + of_nat i) = bs ! (unat (p_offset ph) + i)"
    using assms(1) i by (simp_all add: ph_loaded_def loaded_def)
  ultimately show "mapped sp' (page_of (p_vaddr ph + of_nat i)) \<and> umem sp' (p_vaddr ph + of_nat i) = bs ! (unat (p_offset ph) + i)"
    using assms(2,3) by metis
qed

lemma load_segments_ok:
  assumes "regular fd g a s" "headers_at (bytes_of a s) off phs" "t = running_thread s"
    "\<forall>ph \<in> set (to_load phs). ph_loadable (length (bytes_of a s)) (upool (spaces s t)) ph"
    "sum_list (map pages_of (to_load phs)) \<le> frames s" "sorted_wrt apart (to_load phs)"
  shows "\<exists>s'. load_segments (length phs) (of_nat off) (of_nat sizeof_phdr) fd s = Inr (True, s') \<and> regular fd g a s' \<and>
    bytes_of a s' = bytes_of a s \<and> running_thread s' = t \<and> (\<forall>u. u \<noteq> t \<longrightarrow> spaces s' u = spaces s u) \<and>
    (\<forall>ph \<in> set (to_load phs). ph_loaded (bytes_of a s) (spaces s' t) ph) \<and>
    (\<forall>x. mapped (spaces s t) (page_of x) \<longrightarrow> mapped (spaces s' t) (page_of x) \<and>
       (\<not> (\<exists>ph \<in> set (to_load phs). ph_in ph x) \<longrightarrow> umem (spaces s' t) x = umem (spaces s t) x))"
  using assms
proof (induction phs arbitrary: off s)
  case Nil
  then show ?case by simp
next
  case (Cons ph phs)
  note len = regular_length [OF Cons.prems(1)]
  have hd: "off + sizeof_phdr \<le> length (bytes_of a s)" "decode_phdr (take sizeof_phdr (drop off (bytes_of a s))) = ph"
    "headers_at (bytes_of a s) (off + sizeof_phdr) phs" using Cons.prems(2) by simp_all
  obtain f s1 s2 where rd: "sys_lseek fd (of_nat off) SEEK_SET s = Inr (of_nat off, s1)"
    "sys_read fd sizeof_phdr s1 = Inr ((of_nat sizeof_phdr, take sizeof_phdr (drop off (bytes_of a s)), None), s2)" "s2 = put_file g f s"
    "regular fd g a s2" "bytes_of a s2 = bytes_of a s"
    using seek_and_read [OF Cons.prems(1) hd(1)] by metis
  have s2: "spaces s2 = spaces s" "frames s2 = frames s" "running_thread s2 = t" using rd(3) Cons.prems(3) by simp_all
  have sz: "unat (of_nat sizeof_phdr :: u64) = sizeof_phdr" by (simp add: sizeof_phdr_def)
  have nxt: "(of_nat off :: u64) + of_nat sizeof_phdr = of_nat (off + sizeof_phdr)" by simp
  have step: "load_segments (length (ph # phs)) (of_nat off) (of_nat sizeof_phdr) fd s =
     (if p_type ph = PT_LOAD then
         rbind (segment_load fd (p_offset ph) (p_filesz ph) (p_vaddr ph) s2) (\<lambda>(ok, s).
         if \<not> ok then Inr (False, s) else load_segments (length phs) (of_nat (off + sizeof_phdr)) (of_nat sizeof_phdr) fd s)
       else load_segments (length phs) (of_nat (off + sizeof_phdr)) (of_nat sizeof_phdr) fd s2)"
    using rd(1,2) by (simp only: length_Cons load_segments.simps sz nxt) (simp add: hd(2) Let_def)
  show ?case
  proof (cases "p_type ph = PT_LOAD")
    case False
    then have tl: "to_load (ph # phs) = to_load phs" by simp
    have "\<exists>s'. load_segments (length phs) (of_nat (off + sizeof_phdr)) (of_nat sizeof_phdr) fd s2 = Inr (True, s') \<and> regular fd g a s' \<and>
      bytes_of a s' = bytes_of a s2 \<and> running_thread s' = t \<and> (\<forall>u. u \<noteq> t \<longrightarrow> spaces s' u = spaces s2 u) \<and>
      (\<forall>ph \<in> set (to_load phs). ph_loaded (bytes_of a s2) (spaces s' t) ph) \<and>
      (\<forall>x. mapped (spaces s2 t) (page_of x) \<longrightarrow> mapped (spaces s' t) (page_of x) \<and>
         (\<not> (\<exists>ph \<in> set (to_load phs). ph_in ph x) \<longrightarrow> umem (spaces s' t) x = umem (spaces s2 t) x))"
      by (rule Cons.IH) (use rd(4,5) s2 hd(3) Cons.prems(4-6) False in simp_all)
    then show ?thesis using False unfolding step tl s2 rd(5) by (simp only: if_False)
  next
    case True
    then have tl: "to_load (ph # phs) = ph # to_load phs" by simp
    let ?off = "unat (p_offset ph)" and ?n = "unat (p_filesz ph)"
    have "loadable ?off ?n (p_vaddr ph) (length (bytes_of a s2)) (upool (spaces s2 t))"
      using Cons.prems(4) tl rd(5) s2 by (simp add: ph_loadable_def)
    moreover have "unat (occupy_pages (of_nat ?n) (p_vaddr ph)) \<le> frames s2"
      using Cons.prems(5) tl s2 by (simp add: pages_of_def)
    ultimately obtain s3 sp where s3: "segment_load fd (of_nat ?off) (of_nat ?n) (p_vaddr ph) s2 = Inr (True, s3)"
      "regular fd g a s3" "bytes_of a s3 = bytes_of a s2" "running_thread s3 = t" "spaces s3 = (spaces s2)(t := sp)"
      "frames s2 \<le> frames s3 + unat (occupy_pages (of_nat ?n) (p_vaddr ph))" "loaded ?off ?n (p_vaddr ph) (bytes_of a s2) sp"
      "same_shape (upool (spaces s2 t)) (upool sp)"
      "\<forall>x. mapped (spaces s2 t) (page_of x) \<longrightarrow> mapped sp (page_of x) \<and> (\<not> in_segment (p_vaddr ph) ?n x \<longrightarrow> umem sp x = umem (spaces s2 t) x)"
      using segment_load_ok [OF rd(4) _ _ s2(3) [symmetric]] by metis
    have len3: "length (bits (upool (spaces s3 t))) = length (bits (upool (spaces s t)))"
      using s3(5,8) s2 by (simp add: same_shape_def)
    have "\<exists>s'. load_segments (length phs) (of_nat (off + sizeof_phdr)) (of_nat sizeof_phdr) fd s3 = Inr (True, s') \<and> regular fd g a s' \<and>
      bytes_of a s' = bytes_of a s3 \<and> running_thread s' = t \<and> (\<forall>u. u \<noteq> t \<longrightarrow> spaces s' u = spaces s3 u) \<and>
      (\<forall>ph \<in> set (to_load phs). ph_loaded (bytes_of a s3) (spaces s' t) ph) \<and>
      (\<forall>x. mapped (spaces s3 t) (page_of x) \<longrightarrow> mapped (spaces s' t) (page_of x) \<and>
         (\<not> (\<exists>ph \<in> set (to_load phs). ph_in ph x) \<longrightarrow> umem (spaces s' t) x = umem (spaces s3 t) x))"
    proof (rule Cons.IH)
      show "\<forall>ph \<in> set (to_load phs). ph_loadable (length (bytes_of a s3)) (upool (spaces s3 t)) ph"
        using Cons.prems(4) unfolding tl ph_loadable_def loadable_def len3 s3(3) rd(5) by simp
      show "sum_list (map pages_of (to_load phs)) \<le> frames s3"
        using Cons.prems(5) s3(6) s2(2) pages_of_def [of ph] unfolding tl by simp
    qed (use s3(2-4) rd(5) hd(3) Cons.prems(6) tl in simp_all)
    then obtain s' where s': "load_segments (length phs) (of_nat (off + sizeof_phdr)) (of_nat sizeof_phdr) fd s3 = Inr (True, s')"
      "regular fd g a s'" "bytes_of a s' = bytes_of a s3" "running_thread s' = t" "\<forall>u. u \<noteq> t \<longrightarrow> spaces s' u = spaces s3 u"
      "\<forall>ph \<in> set (to_load phs). ph_loaded (bytes_of a s3) (spaces s' t) ph"
      "\<forall>x. mapped (spaces s3 t) (page_of x) \<longrightarrow> mapped (spaces s' t) (page_of x) \<and>
         (\<not> (\<exists>ph \<in> set (to_load phs). ph_in ph x) \<longrightarrow> umem (spaces s' t) x = umem (spaces s3 t) x)" by metis
    have "ph_loaded (bytes_of a s3) (spaces s3 t) ph" using s3(3,5,7) by (simp add: ph_loaded_def)
    moreover have "\<forall>x. \<not> (ph_in ph x \<and> (\<exists>q \<in> set (to_load phs). ph_in q x))"
      using Cons.prems(6) unfolding tl by (auto simp: apart_def)
    ultimately have first: "ph_loaded (bytes_of a s3) (spaces s' t) ph"
      using ph_loaded_kept [OF _ s'(7)] unsigned_less [of "p_filesz ph"] by simp
    have "load_segments (length (ph # phs)) (of_nat off) (of_nat sizeof_phdr) fd s = Inr (True, s')"
      unfolding step using True s3(1) s'(1) by simp
    moreover have "\<forall>x. mapped (spaces s t) (page_of x) \<longrightarrow> mapped (spaces s' t) (page_of x) \<and>
       (\<not> (\<exists>ph \<in> set (to_load (ph # phs)). ph_in ph x) \<longrightarrow> umem (spaces s' t) x = umem (spaces s t) x)"
      using s'(7) s3(5,9) s2(1) unfolding tl by (simp add: ph_in_def)
    ultimately show ?thesis using s'(2-6) s3(3,5) s2(1) rd(5) first unfolding tl
      by (intro exI [of _ s'] conjI) simp_all
  qed
qed

section \<open>Property\<close>

text \<open>
  C38. The loop of \<^verbatim>\<open>load\<close> over the program headers: when the descriptor is a regular file with the headers at the
  given offset, the bytes of every loadable segment are in the file, its pages belong to the pool of the process,
  there are frames for all of them and the segments do not overlap, then the loop succeeds and the memory of the
  process holds the bytes of every loadable segment at its addresses, on mapped pages, whatever the addresses are to
  page boundaries. What was mapped stays mapped and keeps its contents outside the segments, the file and the memory
  of other processes stay as they are.
\<close>
theorem program_is_loaded:
  assumes "regular fd g a s" "headers_at (bytes_of a s) off phs" "t = running_thread s"
    "\<forall>ph \<in> set (to_load phs). ph_loadable (length (bytes_of a s)) (upool (spaces s t)) ph"
    "sum_list (map pages_of (to_load phs)) \<le> frames s" "sorted_wrt apart (to_load phs)"
  shows "\<exists>s'. load_segments (length phs) (of_nat off) (of_nat sizeof_phdr) fd s = Inr (True, s') \<and>
    regular fd g a s' \<and> bytes_of a s' = bytes_of a s \<and> (\<forall>u. u \<noteq> t \<longrightarrow> spaces s' u = spaces s u) \<and>
    (\<forall>ph \<in> set (to_load phs). \<forall>i < unat (p_filesz ph).
       mapped (spaces s' t) (page_of (p_vaddr ph + of_nat i)) \<and>
       umem (spaces s' t) (p_vaddr ph + of_nat i) = bytes_of a s ! (unat (p_offset ph) + i)) \<and>
    (\<forall>x. mapped (spaces s t) (page_of x) \<longrightarrow> mapped (spaces s' t) (page_of x) \<and>
       (\<not> (\<exists>ph \<in> set (to_load phs). ph_in ph x) \<longrightarrow> umem (spaces s' t) x = umem (spaces s t) x))"
proof -
  obtain s' where s': "load_segments (length phs) (of_nat off) (of_nat sizeof_phdr) fd s = Inr (True, s')" "regular fd g a s'"
    "bytes_of a s' = bytes_of a s" "running_thread s' = t" "\<forall>u. u \<noteq> t \<longrightarrow> spaces s' u = spaces s u"
    "\<forall>ph \<in> set (to_load phs). ph_loaded (bytes_of a s) (spaces s' t) ph"
    "\<forall>x. mapped (spaces s t) (page_of x) \<longrightarrow> mapped (spaces s' t) (page_of x) \<and>
       (\<not> (\<exists>ph \<in> set (to_load phs). ph_in ph x) \<longrightarrow> umem (spaces s' t) x = umem (spaces s t) x)"
    using load_segments_ok [OF assms] by (elim exE conjE) (rule that; assumption)
  show ?thesis by (intro exI [of _ s'] conjI s'(1,2,3,5,7)) (use s'(6) in \<open>simp only: ph_loaded_def loaded_def\<close>)
qed

text \<open>A file with one header at its start, of a segment of 4 bytes across a page boundary.\<close>

definition demo_phdr :: "byte list" where
  "demo_phdr = [1, 0, 0, 0, 5, 0, 0, 0] @ [60, 0, 0, 0, 0, 0, 0, 0] @ [0xfe, 0x2f, 0, 0, 0, 0, 0, 0] @ replicate 8 0 @
     [4, 0, 0, 0, 0, 0, 0, 0] @ [9, 0, 0, 0, 0, 0, 0, 0] @ replicate 8 0"

definition demo_head :: "byte list" where
  "demo_head = demo_phdr @ [0, 0, 0, 0, 11, 12, 13, 14]"

definition demo_elf_fs :: fs where
  "demo_elf_fs = demo_fs\<lparr>sectors := (\<lambda>l. if l = 1283 then demo_head @ replicate 448 0 else replicate 512 0)\<rparr>"

definition demo_loader :: proc where
  "demo_loader = demo_proc\<lparr>kfs := demo_elf_fs\<rparr>"

lemma demo_elf_file: "file_ok demo_elf_fs demo_inode"
proof -
  have b: "get_blocks_lba demo_inode demo_elf_fs = get_blocks_lba demo_inode demo_fs"
    by (simp add: get_blocks_lba_def demo_inode_def)
  have "length demo_head = 64" by (simp add: demo_head_def demo_phdr_def)
  then have "secs_ok demo_elf_fs" by (simp add: secs_ok_def demo_elf_fs_def BLOCK_SIZE_def)
  then have "blocks_ok demo_elf_fs 0 (get_blocks_lba demo_inode demo_fs)" if "blocks_ok demo_fs 0 (get_blocks_lba demo_inode demo_fs)"
    using that by (simp add: blocks_ok_def used_block_def demo_elf_fs_def layout_ok_def)
  then show ?thesis using demo_file(3) unfolding file_ok_def b by (simp add: demo_inode_def)
qed

lemma demo_elf_bytes: "k < 512 \<Longrightarrow> file_bytes demo_elf_fs demo_inode ! k = (demo_head @ replicate 448 0) ! k"
proof -
  assume k: "k < 512"
  then have "file_bytes demo_elf_fs demo_inode ! k = fbyte demo_elf_fs (get_blocks_lba demo_inode demo_elf_fs) k"
    by (intro nth_file_bytes) (simp add: demo_inode_def)
  also have "\<dots> = (demo_head @ replicate 448 0) ! k"
    using k by (simp add: fbyte_def block_of_def get_blocks_lba_def demo_elf_fs_def) (simp add: demo_inode_def)
  finally show ?thesis .
qed

lemma demo_loader_file: "bytes_of 0x2000 demo_loader = file_bytes demo_elf_fs demo_inode" "length (bytes_of 0x2000 demo_loader) = 1100"
  by (simp_all add: bytes_of_def demo_loader_def demo_elf_fs_def demo_file(1)) (simp add: demo_inode_def)

lemma demo_loader_regular: "regular 3 3 0x2000 demo_loader" "running_thread demo_loader = 1" "spaces demo_loader 1 = demo_space"
  "frames demo_loader = 10"
proof -
  show "regular 3 3 0x2000 demo_loader" using demo_elf_file demo_file(1,2)
    by (simp add: regular_def fd_slot_def demo_loader_def demo_forker_def MAX_FILES_OPEN_def PIPE_FLAG_def O_RDWR_def demo_elf_fs_def)
      (simp add: demo_inode_def)
qed (simp_all add: demo_loader_def running_thread_def)

definition demo_ph :: prog_header where
  "demo_ph = \<lparr>p_type = 1, p_offset = 60, p_vaddr = 0x2ffe, p_filesz = 4, p_memsz = 9\<rparr>"

lemma demo_headers: "headers_at (bytes_of 0x2000 demo_loader) 0 [demo_ph]"
proof -
  have "take sizeof_phdr (bytes_of 0x2000 demo_loader) = demo_phdr"
  proof (rule nth_equalityI)
    fix k assume "k < length (take sizeof_phdr (bytes_of 0x2000 demo_loader))"
    then have "k < 56" by (simp add: sizeof_phdr_def)
    then show "take sizeof_phdr (bytes_of 0x2000 demo_loader) ! k = demo_phdr ! k"
      using demo_elf_bytes [of k] by (simp add: sizeof_phdr_def demo_loader_file demo_head_def nth_append) (simp add: demo_phdr_def)
  qed (simp add: demo_loader_file(2) sizeof_phdr_def demo_phdr_def del: demo_loader_file(1))
  moreover have "decode_phdr demo_phdr = demo_ph" by code_simp
  ultimately show ?thesis by (simp add: sizeof_phdr_def demo_loader_file(2) del: demo_loader_file(1))
qed

theorem program_is_loaded_witness:
  "\<exists>s'. load_segments 1 0 56 3 demo_loader = Inr (True, s') \<and> mapped (spaces s' 1) 0x2000 \<and> mapped (spaces s' 1) 0x3000 \<and>
     map (umem (spaces s' 1)) [0x2ffe, 0x2fff, 0x3000, 0x3001] = [11, 12, 13, 14]"
proof -
  have pg: "occupy_pages 4 0x2ffe = 2" "page_of 0x2ffe = 0x2000" "page_of 0x3001 = 0x3000" by code_simp+
  have up: "upages 0x2000 2 = {0x2000, 0x3000}" by (auto simp: upages_def numeral_2_eq_2 lessThan_Suc PG_SIZE_def)
  have ld: "to_load [demo_ph] = [demo_ph]" by (simp add: demo_ph_def PT_LOAD_def)
  have "ph_loadable 1100 (upool demo_space) demo_ph"
    unfolding ph_loadable_def loadable_def
    by (simp add: demo_ph_def pg up) (simp add: pool_bit_def demo_space_def USER_START_ADDR_def PG_SIZE_def)
  then have pre1: "\<forall>ph \<in> set (to_load [demo_ph]). ph_loadable (length (bytes_of 0x2000 demo_loader)) (upool (spaces demo_loader 1)) ph"
    unfolding ld demo_loader_file(2) demo_loader_regular(3) by simp
  have pre2: "sum_list (map pages_of (to_load [demo_ph])) \<le> frames demo_loader"
    unfolding ld demo_loader_regular(4) by (simp add: pages_of_def demo_ph_def pg)
  have pre3: "sorted_wrt apart (to_load [demo_ph])" unfolding ld by simp
  have eqs: "length [demo_ph] = 1" "(of_nat 0 :: u64) = 0" "(of_nat sizeof_phdr :: u64) = 56" by (simp_all add: sizeof_phdr_def)
  obtain s' where s': "load_segments 1 0 56 3 demo_loader = Inr (True, s')"
    "\<forall>ph \<in> set (to_load [demo_ph]). \<forall>i < unat (p_filesz ph). mapped (spaces s' 1) (page_of (p_vaddr ph + of_nat i)) \<and>
       umem (spaces s' 1) (p_vaddr ph + of_nat i) = bytes_of 0x2000 demo_loader ! (unat (p_offset ph) + i)"
    using program_is_loaded [OF demo_loader_regular(1) demo_headers demo_loader_regular(2) [symmetric] pre1 pre2 pre3, unfolded eqs]
    by (elim exE conjE) (rule that)
  have b: "bytes_of 0x2000 demo_loader ! (60 + i) = (demo_head @ replicate 448 0) ! (60 + i)" if "i < 4" for i
    using demo_elf_bytes [of "60 + i"] that by (simp add: demo_loader_file)
  have "mapped (spaces s' 1) (page_of (0x2ffe + of_nat i)) \<and>
       umem (spaces s' 1) (0x2ffe + of_nat i) = (demo_head @ replicate 448 0) ! (60 + i)" if "i < 4" for i
    using s'(2) [unfolded ld] b [OF that] that by (simp add: demo_ph_def)
  from this [of 0] this [of 1] this [of 2] this [of 3] show ?thesis
    using s'(1) pg by (simp add: demo_head_def demo_phdr_def nth_append)
qed

end
