(* ===== verification/Syscall.thy ===== *)
theory Syscall
  imports Process Stdio
begin

text \<open>
  The system call interface: the numbers and stubs of \<^verbatim>\<open>lib/user/syscall.h\<close> and \<^verbatim>\<open>lib/user/syscall.c\<close>, the table of
  \<^verbatim>\<open>userprog/syscall-init.c\<close>, the jump through it in \<^verbatim>\<open>kernel/knl.S\<close>, and the two calls that have no component of
  their own, \<^verbatim>\<open>sys_getpid\<close> and \<^verbatim>\<open>sys_ps\<close>. A stub only loads the number; the arguments stay in their registers.
\<close>

section \<open>Numbers and stubs\<close>

datatype SYSCALL_NR =
  SYS_GETPID | SYS_WRITE | SYS_MALLOC | SYS_FREE | SYS_FORK | SYS_WAIT | SYS_EXIT | SYS_PS |
  SYS_OPEN | SYS_CLOSE | SYS_READ | SYS_LSEEK | SYS_EXECV | SYS_CLEAR |
  SYS_OPENDIR | SYS_CLOSEDIR | SYS_READDIR | SYS_STAT | SYS_UNLINK | SYS_PIPE | SYS_FD_REDIRECT |
  SYS_GETTICKS | SYS_SCHED_YIELD

definition SYSCALL_NRs :: "SYSCALL_NR list" where
  "SYSCALL_NRs =
     [SYS_GETPID, SYS_WRITE, SYS_MALLOC, SYS_FREE, SYS_FORK, SYS_WAIT, SYS_EXIT, SYS_PS,
      SYS_OPEN, SYS_CLOSE, SYS_READ, SYS_LSEEK, SYS_EXECV, SYS_CLEAR,
      SYS_OPENDIR, SYS_CLOSEDIR, SYS_READDIR, SYS_STAT, SYS_UNLINK, SYS_PIPE, SYS_FD_REDIRECT,
      SYS_GETTICKS, SYS_SCHED_YIELD]"

text \<open>The value of an enumerator is its place.\<close>

definition nr :: "SYSCALL_NR \<Rightarrow> nat" where
  "nr n = length (takeWhile (\<lambda>m. m \<noteq> n) SYSCALL_NRs)"

text \<open>The functions of the user library, and the number each puts into \<^verbatim>\<open>rax\<close>.\<close>

datatype stub =
  getpid | write_call | malloc | free | fork | wait | exit_call | ps | open_call | close_call | read_call | lseek | execv | clear |
  opendir | closedir | readdir | stat_call | unlink | pipe_call | fd_redirect | getticks | sched_yield

fun syscall_of :: "stub \<Rightarrow> SYSCALL_NR" where
  "syscall_of getpid = SYS_GETPID"
| "syscall_of write_call = SYS_WRITE"
| "syscall_of malloc = SYS_MALLOC"
| "syscall_of free = SYS_FREE"
| "syscall_of fork = SYS_FORK"
| "syscall_of wait = SYS_WAIT"
| "syscall_of exit_call = SYS_EXIT"
| "syscall_of ps = SYS_PS"
| "syscall_of open_call = SYS_OPEN"
| "syscall_of close_call = SYS_CLOSE"
| "syscall_of read_call = SYS_READ"
| "syscall_of lseek = SYS_LSEEK"
| "syscall_of execv = SYS_EXECV"
| "syscall_of clear = SYS_CLEAR"
| "syscall_of opendir = SYS_OPENDIR"
| "syscall_of closedir = SYS_CLOSEDIR"
| "syscall_of readdir = SYS_READDIR"
| "syscall_of stat_call = SYS_STAT"
| "syscall_of unlink = SYS_UNLINK"
| "syscall_of pipe_call = SYS_PIPE"
| "syscall_of fd_redirect = SYS_FD_REDIRECT"
| "syscall_of getticks = SYS_GETTICKS"
| "syscall_of sched_yield = SYS_SCHED_YIELD"

section \<open>The table\<close>

definition syscall_nr :: nat where "syscall_nr = 32"

text \<open>The kernel function that serves a library function, as a name.\<close>

type_synonym kernel_function = string

definition syscall_init :: "kernel_function option list \<Rightarrow> kernel_function option list" where
  "syscall_init syscall_table =
     foldl (\<lambda>t (n, f). t[nr n := Some f]) syscall_table
      [(SYS_GETPID, ''sys_getpid''), (SYS_WRITE, ''sys_write''), (SYS_MALLOC, ''sys_malloc''), (SYS_FREE, ''sys_free''),
       (SYS_FORK, ''sys_fork''), (SYS_WAIT, ''sys_wait''), (SYS_EXIT, ''sys_exit''), (SYS_PS, ''sys_ps''), (SYS_OPEN, ''sys_open''),
       (SYS_CLOSE, ''sys_close''), (SYS_READ, ''sys_read''), (SYS_LSEEK, ''sys_lseek''), (SYS_EXECV, ''sys_execv''),
       (SYS_CLEAR, ''sys_clear''), (SYS_OPENDIR, ''sys_opendir''), (SYS_CLOSEDIR, ''sys_closedir''), (SYS_READDIR, ''sys_readdir''),
       (SYS_STAT, ''sys_stat''), (SYS_UNLINK, ''sys_unlink''), (SYS_PIPE, ''sys_pipe''), (SYS_FD_REDIRECT, ''sys_fd_redirect''),
       (SYS_GETTICKS, ''sys_getticks''), (SYS_SCHED_YIELD, ''thread_yield'')]"

text \<open>\<^verbatim>\<open>system_call\<close> calls what it finds at \<^verbatim>\<open>syscall_table + 8 * rax\<close>; it does not compare \<^verbatim>\<open>rax\<close> with anything.\<close>

definition system_call :: "kernel_function option list \<Rightarrow> u64 \<Rightarrow> kernel_function res" where
  "system_call syscall_table rax =
     (let offset = push_bit 3 rax; i = unat offset div 8 in
      if length syscall_table \<le> i then Inl (Fault ''syscall_table'')
      else case syscall_table ! i of None \<Rightarrow> Inl (Fault ''null'') | Some f \<Rightarrow> Inr f)"

section \<open>The calls on processes\<close>

definition sys_getpid :: "'a sched_scheme \<Rightarrow> pid_t res" where
  "sys_getpid s = rbind (the_task s (running_thread s)) (\<lambda>k. Inr (pid k))"

fun stat_name :: "task_stat \<Rightarrow> string" where
  "stat_name TASK_READY = ''READY''"
| "stat_name TASK_DIED = ''DIED''"
| "stat_name TASK_BLOCKED = ''BLOCKED''"
| "stat_name TASK_HANGING = ''HANGING''"
| "stat_name TASK_RUNNING = ''RUNNING''"
| "stat_name TASK_WAITING = ''WAITING''"

definition print_thread_info :: "task \<Rightarrow> byte list res" where
  "print_thread_info thread =
     rbind (printk (chars ''%d'' @ [0x09] @ chars ''%d'' @ [0x09] @ chars ''%s'' @ [0x09] @ chars ''%d'' @ [0x09] @ chars ''%s'' @ [0x0a])
       [Slot (scast (pid thread)), Slot (scast (parent_pid thread)), Pointer (chars (stat_name (stat thread)) @ [0]),
        Slot (ucast (ticks thread)), Pointer (chars (name thread) @ [0])])
       (\<lambda>(out, _). Inr out)"

fun print_threads :: "'a sched_scheme \<Rightarrow> tag list \<Rightarrow> byte list res" where
  "print_threads s [] = Inr []"
| "print_threads s (General t # es) = Inl (Fault ''elem2entry'')"
| "print_threads s (AllTag t # es) =
     rbind (the_task s t) (\<lambda>k. rbind (print_thread_info k) (\<lambda>line. rbind (print_threads s es) (\<lambda>out. Inr (line @ out))))"

definition sys_ps :: "'a sched_scheme \<Rightarrow> byte list res" where
  "sys_ps s =
     rbind (printk (chars ''PID'' @ [0x09] @ chars ''PPID'' @ [0x09] @ chars ''STAT'' @ [0x09] @ chars ''TICKS'' @ [0x09] @ chars ''COMMAND'' @ [0x0a, 0x0a]) [])
       (\<lambda>(head, _). rbind (print_threads s (all_threads_list s)) (\<lambda>out. Inr (head @ out)))"

section \<open>Every stub reaches its function\<close>

fun serves :: "kernel_function \<Rightarrow> stub \<Rightarrow> bool" where
  "serves f getpid = (f = ''sys_getpid'')"
| "serves f write_call = (f = ''sys_write'')"
| "serves f malloc = (f = ''sys_malloc'')"
| "serves f free = (f = ''sys_free'')"
| "serves f fork = (f = ''sys_fork'')"
| "serves f wait = (f = ''sys_wait'')"
| "serves f exit_call = (f = ''sys_exit'')"
| "serves f ps = (f = ''sys_ps'')"
| "serves f open_call = (f = ''sys_open'')"
| "serves f close_call = (f = ''sys_close'')"
| "serves f read_call = (f = ''sys_read'')"
| "serves f lseek = (f = ''sys_lseek'')"
| "serves f execv = (f = ''sys_execv'')"
| "serves f clear = (f = ''sys_clear'')"
| "serves f opendir = (f = ''sys_opendir'')"
| "serves f closedir = (f = ''sys_closedir'')"
| "serves f readdir = (f = ''sys_readdir'')"
| "serves f stat_call = (f = ''sys_stat'')"
| "serves f unlink = (f = ''sys_unlink'')"
| "serves f pipe_call = (f = ''sys_pipe'')"
| "serves f fd_redirect = (f = ''sys_fd_redirect'')"
| "serves f getticks = (f = ''sys_getticks'')"
| "serves f sched_yield = (f = ''thread_yield'')"

lemma syscall_table_is:
  "syscall_init (replicate syscall_nr None) =
    map Some [''sys_getpid'', ''sys_write'', ''sys_malloc'', ''sys_free'', ''sys_fork'', ''sys_wait'', ''sys_exit'', ''sys_ps'', ''sys_open'',
      ''sys_close'', ''sys_read'', ''sys_lseek'', ''sys_execv'', ''sys_clear'', ''sys_opendir'', ''sys_closedir'', ''sys_readdir'',
      ''sys_stat'', ''sys_unlink'', ''sys_pipe'', ''sys_fd_redirect'', ''sys_getticks'', ''thread_yield''] @ replicate 9 None"
  by code_simp

lemma offset_small: "r < 2 ^ 61 \<Longrightarrow> unat (push_bit 3 (of_nat r :: u64)) div 8 = r"
proof -
  assume r: "r < 2 ^ 61"
  have "push_bit 3 (of_nat r :: u64) = of_nat (r * 8)" by (simp add: push_bit_eq_mult)
  moreover have "unat (of_nat (r * 8) :: u64) = r * 8"
    unfolding unsigned_of_nat of_nat_id using r by (intro take_bit_nat_eq_self) simp
  ultimately show ?thesis by simp
qed

lemma offset_of:
  fixes n :: u64
  shows "unat (push_bit 3 n) div 8 = unat n mod 2 ^ 61"
proof -
  have "take_bit 64 (8 * unat n) = 8 * take_bit 61 (unat n)"
    using push_bit_take_bit [of 3 61 "unat n"] by (simp add: push_bit_eq_mult mult.commute)
  moreover have "push_bit 3 n = of_nat (8 * unat n)" by (simp add: push_bit_eq_mult mult.commute)
  ultimately have "unat (push_bit 3 n) = 8 * take_bit 61 (unat n)" by (simp add: unsigned_of_nat del: of_nat_mult)
  then show ?thesis by (simp add: take_bit_eq_mod)
qed

lemma table_faults:
  assumes "length t = 23"
  shows "(\<exists>e. system_call (map Some t @ replicate 9 None) n = Inl (Fault e)) \<longleftrightarrow> 23 \<le> unat n mod 2 ^ 61"
  using assms unfolding system_call_def Let_def offset_of by (auto simp: nth_append)

text \<open>
  C37. Every function of the user library reaches the kernel function made for it. Because \<^verbatim>\<open>system_call\<close> does not check the
  number and shifts it by three in 64 bits, what counts is its remainder modulo 2^61: a number k + 2^61, which belongs to
  no function, reaches entry k as well, and with a remainder from 23 on the kernel calls a null pointer or what lies
  behind the table.
\<close>
theorem syscalls_dispatch:
  fixes n :: u64
  shows "(\<exists>f. system_call (syscall_init (replicate syscall_nr None)) (of_nat (nr (syscall_of u))) = Inr f \<and> serves f u) \<and>
    system_call (syscall_init (replicate syscall_nr None)) n =
      system_call (syscall_init (replicate syscall_nr None)) (of_nat (unat n mod 2 ^ 61)) \<and>
    ((\<exists>e. system_call (syscall_init (replicate syscall_nr None)) n = Inl (Fault e)) \<longleftrightarrow> 23 \<le> unat n mod 2 ^ 61)"
proof (intro conjI)
  have small: "nr m < 23" for m by (cases m) (simp_all add: nr_def SYSCALL_NRs_def)
  then have "unat (push_bit 3 (of_nat (nr (syscall_of u)) :: u64)) div 8 = nr (syscall_of u)"
    by (intro offset_small less_trans [OF small]) simp
  then show "\<exists>f. system_call (syscall_init (replicate syscall_nr None)) (of_nat (nr (syscall_of u))) = Inr f \<and> serves f u"
    unfolding syscall_table_is system_call_def Let_def by (cases u) (simp_all add: nr_def SYSCALL_NRs_def)
  have lt: "unat n mod 2 ^ 61 < 2 ^ 61" by simp
  show "system_call (syscall_init (replicate syscall_nr None)) n =
      system_call (syscall_init (replicate syscall_nr None)) (of_nat (unat n mod 2 ^ 61))"
    unfolding system_call_def Let_def offset_of [of n] offset_small [OF lt] ..
  show "(\<exists>e. system_call (syscall_init (replicate syscall_nr None)) n = Inl (Fault e)) \<longleftrightarrow> 23 \<le> unat n mod 2 ^ 61"
    unfolding syscall_table_is by (rule table_faults) simp
qed

theorem syscalls_dispatch_witness:
  "(\<exists>f. system_call (syscall_init (replicate syscall_nr None)) (of_nat (nr (syscall_of lseek))) = Inr f \<and> serves f lseek) \<and>
    system_call (syscall_init (replicate syscall_nr None)) (2 ^ 61) = system_call (syscall_init (replicate syscall_nr None)) 0 \<and>
    (\<exists>e. system_call (syscall_init (replicate syscall_nr None)) 31 = Inl (Fault e))"
  using syscalls_dispatch [of lseek "2 ^ 61"] syscalls_dispatch [of lseek 31] by simp

text \<open>The list of threads, in concrete terms.\<close>

lemma print_thread_info_line:
  assumes "pid k = 2" "parent_pid k = 1" "stat k = TASK_READY" "ticks k = 31" "name k = ''init''"
  shows "print_thread_info k = Inr (chars ''2'' @ [0x09] @ chars ''1'' @ [0x09] @ chars ''READY'' @ [0x09] @ chars ''31'' @ [0x09] @ chars ''init'' @ [0x0a])"
  unfolding print_thread_info_def assms by code_simp

end
