(* ===== verification/Shell.thy ===== *)
theory Shell
  imports Stdio
begin

text \<open>
  The shell (\<^verbatim>\<open>shell/shell.c\<close>): the line editor \<^verbatim>\<open>readline\<close>, the splitting of a line into arguments by
  \<^verbatim>\<open>cmd_parse\<close>, and what the main loop does with a line. The memory of \<^verbatim>\<open>cmd_line\<close> is a list of 512 bytes, pointers
  into it are indices, and \<^verbatim>\<open>argv\<close> is a list of 16 such pointers. What the keyboard delivers is an argument; what the
  shell shows and which system calls it makes are lists of events.
\<close>

section \<open>Reading a line\<close>

definition MAX_PATH_LEN :: nat where "MAX_PATH_LEN = 512"

datatype shown = Put byte | Clear | Prompt | Str "byte list"

text \<open>
  \<open>Line\<close> is the return of \<^verbatim>\<open>readline\<close>, \<open>Exceeded\<close> its end by the message, \<open>Waiting\<close> its state when the keys are used up.
\<close>

datatype reading = Line "byte list" "shown list" | Exceeded "byte list" "shown list" | Waiting "byte list" nat "shown list"

text \<open>Ctrl-U: back to the start of the buffer, with a zero in every place left.\<close>

fun kill_line :: "byte list \<Rightarrow> nat \<Rightarrow> byte list" where
  "kill_line buffer 0 = buffer"
| "kill_line buffer (Suc pos) = kill_line (buffer[Suc pos := 0]) pos"

fun readline :: "nat \<Rightarrow> byte list \<Rightarrow> byte list \<Rightarrow> nat \<Rightarrow> shown list \<Rightarrow> reading res" where
  "readline count [] buffer pos out = Inr (Waiting buffer pos out)"
| "readline count (c # keys) buffer pos out =
     (if length buffer \<le> pos then Inl (Fault ''cmd_line'')
      else
        let buffer = buffer[pos := c] in
        if \<not> pos < count then Inr (Exceeded buffer out)
        else if c = 0x0a \<or> c = 0x0d then Inr (Line (buffer[pos := 0]) (out @ [Put 0x0a]))
        else if c = 0x08 then
          if buffer ! 0 \<noteq> 0x08 then readline count keys buffer (pos - 1) (out @ [Put 0x08]) else readline count keys buffer pos out
        else if c = 0x0b then
          readline count keys (buffer[pos := 0]) pos (out @ [Clear, Prompt, Str (cstr (buffer[pos := 0]))])
        else if c = 0x14 then readline count keys (kill_line buffer pos) 0 (out @ replicate pos (Put 0x08))
        else readline count keys buffer (pos + 1) (out @ [Put c]))"

section \<open>Splitting a line\<close>

definition MAX_ARG_NR :: nat where "MAX_ARG_NR = 16"
definition SPACE :: byte where "SPACE = 0x20"
definition PIPE :: byte where "PIPE = 0x7c"

text \<open>
  The loop of \<^verbatim>\<open>cmd_parse\<close>; \<open>mem\<close> is the memory from \<^verbatim>\<open>next\<close>, which is at index \<open>pos\<close>, on. The third result is that
  memory afterwards. The number of arguments is compared with the size of \<^verbatim>\<open>argv\<close> after the pointer is stored.
\<close>

lemma rest_shorter:
  "dropWhile P xs = c # cs \<Longrightarrow> length cs < length xs"
  "dropWhile P (dropWhile Q xs) = c # cs \<Longrightarrow> length cs < length xs"
proof -
  show 1: "length cs < length xs" if "dropWhile P xs = c # cs" for P :: "'a \<Rightarrow> bool" and xs
    using length_dropWhile_le [of P xs] that by simp
  assume "dropWhile P (dropWhile Q xs) = c # cs"
  from 1 [OF this] show "length cs < length xs" using length_dropWhile_le [of Q xs] by simp
qed

function parse_from :: "byte \<Rightarrow> nat \<Rightarrow> byte list \<Rightarrow> nat \<Rightarrow> nat option list \<Rightarrow> (int \<times> nat option list \<times> byte list) res" where
  "parse_from token pos mem argc argv =
     (case mem of
        [] \<Rightarrow> Inl (Fault ''cmd_line'')
      | m # ms \<Rightarrow>
          if m = 0 then Inr (int argc, argv, mem)
          else
            let skipped = takeWhile (\<lambda>c. c = token) mem; mem1 = dropWhile (\<lambda>c. c = token) mem; pos = pos + length skipped in
            (case mem1 of
               [] \<Rightarrow> Inl (Fault ''cmd_line'')
             | a # as \<Rightarrow>
                 if a = 0 then Inr (int argc, argv, mem)
                 else if length argv \<le> argc then Inl (Fault ''argv'')
                 else
                   let argv = argv[argc := Some pos]; arg = takeWhile (\<lambda>c. c \<noteq> 0 \<and> c \<noteq> token) mem1; pos = pos + length arg in
                   (case dropWhile (\<lambda>c. c \<noteq> 0 \<and> c \<noteq> token) mem1 of
                      [] \<Rightarrow> Inl (Fault ''cmd_line'')
                    | c # cs \<Rightarrow>
                        let (front, pos, rest) = (if c \<noteq> 0 then (skipped @ arg @ [0], pos + 1, cs) else (skipped @ arg, pos, c # cs)) in
                        if MAX_ARG_NR < argc then Inr (-1, argv, front @ rest)
                        else rbind (parse_from token pos rest (argc + 1) argv) (\<lambda>(n, argv, mem). Inr (n, argv, front @ mem)))))"
  by pat_completeness auto
termination
  by (relation "measure (\<lambda>(token, pos, mem, argc, argv). length mem)")
    (auto split: if_splits dest: rest_shorter intro: less_SucI)

declare parse_from.simps [simp del]

definition cmd_parse :: "byte list \<Rightarrow> nat \<Rightarrow> byte \<Rightarrow> (int \<times> nat option list \<times> byte list) res" where
  "cmd_parse mem cmd_str token =
     rbind (parse_from token cmd_str (drop cmd_str mem) 0 (replicate MAX_ARG_NR None)) (\<lambda>(argc, argv, rest).
     Inr (argc, argv, take cmd_str mem @ rest))"

section \<open>Running a line\<close>

text \<open>
  What a command is: one of the shell itself, or a child that executes the file - or, when \<^verbatim>\<open>stat\<close> does not
  find it, prints a message and exits with -1. The shell waits for the child.
\<close>

datatype command = Help | Clear_screen | Ps | Child_exec "byte list" "byte list list" | Child_missing "byte list"

datatype fd_name = Std nat | Pipe_read | Pipe_write

datatype action = Open_pipe | Redirect nat fd_name | Run command | Close fd_name

text \<open>\<^verbatim>\<open>sys_execv\<close> counts the arguments up to the null pointer.\<close>

fun count_args :: "nat option list \<Rightarrow> nat res" where
  "count_args [] = Inl (Fault ''argv'')"
| "count_args (None # ps) = Inr 0"
| "count_args (Some p # ps) = rbind (count_args ps) (\<lambda>n. Inr (Suc n))"

definition cmd_execute :: "(byte list \<Rightarrow> bool) \<Rightarrow> nat option list \<Rightarrow> byte list \<Rightarrow> command res" where
  "cmd_execute found argv mem =
     (case argv of
        Some p # _ \<Rightarrow>
          rbind (strcmp [0x68, 0x65, 0x6c, 0x70, 0] (drop p mem)) (\<lambda>d.
          if d = 0 then Inr Help
          else
            rbind (strcmp [0x63, 0x6c, 0x65, 0x61, 0x72, 0] (drop p mem)) (\<lambda>d.
            if d = 0 then Inr Clear_screen
            else
              rbind (strcmp [0x70, 0x73, 0] (drop p mem)) (\<lambda>d.
              if d = 0 then Inr Ps
              else
                let path = cstr (drop p mem) in
                if \<not> found path then Inr (Child_missing path)
                else rbind (count_args argv) (\<lambda>argc. Inr (Child_exec path (map (\<lambda>q. cstr (drop (the q) mem)) (take argc argv)))))))
      | _ \<Rightarrow> Inl (Fault ''argv[0]''))"

definition parse_execute :: "(byte list \<Rightarrow> bool) \<Rightarrow> nat \<Rightarrow> byte list \<Rightarrow> (command \<times> byte list) res" where
  "parse_execute found each_cmd mem =
     rbind (cmd_parse mem each_cmd SPACE) (\<lambda>(argc, argv, mem). rbind (cmd_execute found argv mem) (\<lambda>c. Inr (c, mem)))"

text \<open>The loop over further pipe symbols; each round overwrites one, \<open>fuel\<close> bounds the rounds.\<close>

fun pipe_loop :: "nat \<Rightarrow> (byte list \<Rightarrow> bool) \<Rightarrow> nat \<Rightarrow> byte list \<Rightarrow> (nat \<times> byte list \<times> action list) res" where
  "pipe_loop 0 found each_cmd mem = Inl (Fault ''fuel'')"
| "pipe_loop (Suc fuel) found each_cmd mem =
     rbind (strchr mem PIPE) (\<lambda>pipe_symbol.
     case pipe_symbol of
       None \<Rightarrow> Inr (each_cmd, mem, [])
     | Some p \<Rightarrow>
         rbind (parse_execute found each_cmd (mem[p := 0])) (\<lambda>(c, mem).
         rbind (pipe_loop fuel found (p + 1) mem) (\<lambda>(each_cmd, mem, acts).
         Inr (each_cmd, mem, [Redirect 1 Pipe_write, Run c] @ acts))))"

text \<open>One round of the loop of \<^verbatim>\<open>main\<close>, with the line read.\<close>

definition run_line :: "(byte list \<Rightarrow> bool) \<Rightarrow> byte list \<Rightarrow> action list res" where
  "run_line found cmd_line =
     (if cmd_line ! 0 = 0 then Inr []
      else
        rbind (strchr cmd_line PIPE) (\<lambda>pipe_symbol.
        case pipe_symbol of
          Some p \<Rightarrow>
            rbind (parse_execute found 0 (cmd_line[p := 0])) (\<lambda>(c, mem).
            rbind (pipe_loop (Suc (length mem)) found (p + 1) mem) (\<lambda>(each_cmd, mem, acts).
            rbind (parse_execute found each_cmd mem) (\<lambda>(d, mem).
            Inr ([Open_pipe, Redirect 1 Pipe_write, Run c, Redirect 0 Pipe_read] @ acts @
                 [Redirect 1 (Std 1), Run d, Redirect 0 (Std 0), Close Pipe_read, Close Pipe_write]))))
        | None \<Rightarrow>
            rbind (cmd_parse cmd_line 0 SPACE) (\<lambda>(argc, argv, mem).
            if argc = -1 then Inr [] else rbind (cmd_execute found argv mem) (\<lambda>c. Inr [Run c]))))"

section \<open>Arguments\<close>

text \<open>The arguments of a line: its maximal pieces without the separator.\<close>

fun split_on :: "byte \<Rightarrow> byte list \<Rightarrow> byte list list" where
  "split_on t [] = [[]]"
| "split_on t (c # cs) =
     (if c = t then [] # split_on t cs else (case split_on t cs of [] \<Rightarrow> [[c]] | w # ws \<Rightarrow> (c # w) # ws))"

definition args_of :: "byte \<Rightarrow> byte list \<Rightarrow> byte list list" where
  "args_of t s = filter (\<lambda>w. w \<noteq> []) (split_on t s)"

lemma split_on_step: "split_on t s = takeWhile (\<lambda>c. c \<noteq> t) s # (case dropWhile (\<lambda>c. c \<noteq> t) s of [] \<Rightarrow> [] | _ # cs \<Rightarrow> split_on t cs)"
  by (induction s) auto

lemma args_of_simps [simp]:
  "args_of t [] = []" "args_of t (t # cs) = args_of t cs"
  by (simp_all add: args_of_def)

lemma args_of_skip: "args_of t (dropWhile (\<lambda>c. c = t) s) = args_of t s"
  by (induction s) auto

lemma args_of_step:
  assumes "a \<noteq> t"
  shows "args_of t (a # s) = takeWhile (\<lambda>c. c \<noteq> t) (a # s) # args_of t (dropWhile (\<lambda>c. c \<noteq> t) (a # s))"
proof -
  have "args_of t (dropWhile (\<lambda>c. c \<noteq> t) s) = filter (\<lambda>w. w \<noteq> []) (case dropWhile (\<lambda>c. c \<noteq> t) s of [] \<Rightarrow> [] | _ # cs \<Rightarrow> split_on t cs)"
  proof (cases "dropWhile (\<lambda>c. c \<noteq> t) s")
    case (Cons c cs)
    then have "c = t" using hd_dropWhile [of "\<lambda>c. c \<noteq> t" s] by auto
    with Cons show ?thesis by (simp add: args_of_def)
  next
    case Nil
    show ?thesis unfolding Nil by simp
  qed
  then show ?thesis using assms split_on_step [of t "a # s"] by (simp add: args_of_def)
qed

lemma dropWhile_tail: "\<not> P x \<Longrightarrow> dropWhile P (xs @ x # ys) = dropWhile P xs @ x # ys"
  by (induction xs) auto

text \<open>One round of the loop, on a string \<open>s\<close> that is in the memory with its final zero.\<close>

lemma parse_from_end:
  assumes "t \<noteq> 0" "0 \<notin> set s" "args_of t s = []"
  shows "parse_from t pos (s @ 0 # rest) argc argv = Inr (int argc, argv, s @ 0 # rest)"
proof -
  have "dropWhile (\<lambda>c. c = t) s = []"
  proof (rule ccontr)
    assume "dropWhile (\<lambda>c. c = t) s \<noteq> []"
    then obtain a as where a: "dropWhile (\<lambda>c. c = t) s = a # as" by (cases "dropWhile (\<lambda>c. c = t) s") auto
    then have "a \<noteq> t" using hd_dropWhile [of "\<lambda>c. c = t" s] by auto
    from args_of_step [OF this] args_of_skip [of t s] a assms(3) show False by simp
  qed
  then have "dropWhile (\<lambda>c. c = t) (s @ 0 # rest) = 0 # rest" using assms(1) by (simp add: dropWhile_tail)
  then show ?thesis using assms(2) by (subst parse_from.simps) (cases s; simp add: Let_def)
qed

lemma parse_from_eq:
  assumes "mem \<noteq> []" "hd mem \<noteq> 0" "d \<noteq> []" "hd d \<noteq> 0" "takeWhile (\<lambda>c. c = t) mem = sk" "dropWhile (\<lambda>c. c = t) mem = d"
    "takeWhile (\<lambda>c. c \<noteq> 0 \<and> c \<noteq> t) d = w" "dropWhile (\<lambda>c. c \<noteq> 0 \<and> c \<noteq> t) d = r" "argc \<le> MAX_ARG_NR"
  shows "parse_from t pos mem argc argv =
      (if length argv \<le> argc then Inl (Fault ''argv'')
       else case r of
              [] \<Rightarrow> Inl (Fault ''cmd_line'')
            | c # cs \<Rightarrow>
                let (front, p, rest) = (if c \<noteq> 0 then (sk @ w @ [0], pos + length sk + length w + 1, cs) else (sk @ w, pos + length sk + length w, c # cs)) in
                rbind (parse_from t p rest (argc + 1) (argv[argc := Some (pos + length sk)])) (\<lambda>(n, argv, mem). Inr (n, argv, front @ mem)))"
proof -
  obtain m ms a as where c: "mem = m # ms" "d = a # as" using assms(1,3) by (meson neq_Nil_conv)
  have n: "\<not> MAX_ARG_NR < argc" using assms(9) by simp
  have "m \<noteq> 0" "a \<noteq> 0" using assms(2,4) c by simp_all
  then show ?thesis
    by (subst parse_from.simps, unfold assms(5,6) Let_def, unfold assms(7,8)) (simp add: c(1) n, simp add: c(2) assms(7,8) [unfolded c(2)] n split: list.split)
qed

lemma parse_from_step:
  assumes "t \<noteq> 0" "0 \<notin> set s" "args_of t s = w # ws" "argc \<le> MAX_ARG_NR"
  obtains k s' z where "length s = k + length w + length z + length s'" "w \<noteq> []" "0 \<notin> set w" "0 \<notin> set s'" "args_of t s' = ws"
    "set z \<subseteq> {0}" "z \<noteq> [] \<or> s' = []" "set (replicate k t @ w @ z) \<subseteq> insert 0 (set s)" "set s' \<subseteq> set s"
    "parse_from t pos (s @ 0 # rest) argc argv =
      (if length argv \<le> argc then Inl (Fault ''argv'')
       else rbind (parse_from t (pos + k + length w + length z) (s' @ 0 # rest) (argc + 1) (argv[argc := Some (pos + k)])) (\<lambda>(n, argv, mem).
         Inr (n, argv, replicate k t @ w @ z @ mem)))"
proof -
  let ?sk = "takeWhile (\<lambda>c. c = t) s"
  obtain a as where a: "dropWhile (\<lambda>c. c = t) s = a # as"
    using args_of_skip [of t s] assms(3) by (cases "dropWhile (\<lambda>c. c = t) s") auto
  then have "a \<noteq> t" using hd_dropWhile [of "\<lambda>c. c = t" s] by auto
  note st = args_of_step [OF this, of as, folded a, unfolded args_of_skip assms(3)]
  let ?d = "dropWhile (\<lambda>c. c = t) s" and ?r = "dropWhile (\<lambda>c. c \<noteq> t) (dropWhile (\<lambda>c. c = t) s)"
  have w: "w = takeWhile (\<lambda>c. c \<noteq> t) ?d" "ws = args_of t ?r" using st by simp_all
  have s: "s = ?sk @ w @ ?r" unfolding w by simp
  define k where "k = length ?sk"
  have sk: "?sk = replicate k t" unfolding k_def by (rule replicate_length_same [symmetric]) (auto dest: set_takeWhileD)
  have wne: "w \<noteq> []" using \<open>a \<noteq> t\<close> a w(1) by simp
  have "0 \<notin> set (?sk @ w @ ?r)" using assms(2) s by metis
  then have nz: "0 \<notin> set w" "0 \<notin> set ?r" by simp_all
  have mem1: "takeWhile (\<lambda>c. c = t) (s @ 0 # rest) = replicate k t" "dropWhile (\<lambda>c. c = t) (s @ 0 # rest) = ?d @ 0 # rest"
    using assms(1) by (simp_all add: takeWhile_tail dropWhile_tail sk)
  have d: "?d = w @ ?r" unfolding w by simp
  have "0 \<notin> set ?d" using assms(2) by (auto dest: set_dropWhileD)
  then have cong: "takeWhile (\<lambda>c. c \<noteq> 0 \<and> c \<noteq> t) ?d = w" "dropWhile (\<lambda>c. c \<noteq> 0 \<and> c \<noteq> t) ?d = ?r"
    unfolding w by (auto intro!: takeWhile_cong dropWhile_cong)
  have mem2: "takeWhile (\<lambda>c. c \<noteq> 0 \<and> c \<noteq> t) (?d @ 0 # rest) = w" "dropWhile (\<lambda>c. c \<noteq> 0 \<and> c \<noteq> t) (?d @ 0 # rest) = ?r @ 0 # rest"
    using cong by (simp_all add: takeWhile_tail dropWhile_tail)
  have an: "a \<noteq> 0" using \<open>0 \<notin> set ?d\<close> a by auto
  have "s \<noteq> []" using a by auto
  then have "hd s \<noteq> 0" using assms(2) by (metis list.set_sel(1))
  with \<open>s \<noteq> []\<close> have hd: "s @ 0 # rest \<noteq> []" "hd (s @ 0 # rest) \<noteq> 0" by simp_all
  have hd': "?d @ 0 # rest \<noteq> []" "hd (?d @ 0 # rest) \<noteq> 0" unfolding a using an by simp_all
  note run = parse_from_eq [OF hd hd' mem1 mem2 assms(4)]
  have sub: "set (replicate k t) \<subseteq> set s" "set w \<subseteq> set s" "set ?r \<subseteq> set s"
    unfolding sk [symmetric] w by (auto dest: set_takeWhileD set_dropWhileD)
  have len: "length s = k + length w + length ?r" using arg_cong [OF s, of length] unfolding sk by simp
  have sets: "set (replicate k t @ w @ z) \<subseteq> insert 0 (set s)" if "set z \<subseteq> {0}" for z
    using sub that by auto
  show ?thesis
  proof (cases ?r)
    case Nil
    have 1: "parse_from t pos (s @ 0 # rest) argc argv =
      (if length argv \<le> argc then Inl (Fault ''argv'')
       else rbind (parse_from t (pos + k + length w + length ([] :: byte list)) ([] @ 0 # rest) (argc + 1) (argv[argc := Some (pos + k)])) (\<lambda>(n, argv, mem).
         Inr (n, argv, replicate k t @ w @ [] @ mem)))"
      by (subst run, unfold Nil) simp
    have 2: "length s = k + length w + length ([] :: byte list) + length ([] :: byte list)" using len unfolding Nil by simp
    have 3: "args_of t [] = ws" using w(2) unfolding Nil by simp
    show ?thesis by (rule that [OF 2 wne nz(1) _ 3 _ _ sets _ 1]) simp_all
  next
    case (Cons c s3)
    then have ct: "c = t" using hd_dropWhile [of "\<lambda>c. c \<noteq> t" ?d] by auto
    have 1: "parse_from t pos (s @ 0 # rest) argc argv =
      (if length argv \<le> argc then Inl (Fault ''argv'')
       else rbind (parse_from t (pos + k + length w + length [0 :: byte]) (s3 @ 0 # rest) (argc + 1) (argv[argc := Some (pos + k)])) (\<lambda>(n, argv, mem).
         Inr (n, argv, replicate k t @ w @ [0] @ mem)))"
      by (subst run, unfold Cons ct) (use assms(1) in simp)
    have 2: "length s = k + length w + length [0 :: byte] + length s3" using len unfolding Cons by simp
    have 3: "args_of t s3 = ws" using w(2) unfolding Cons ct by simp
    have 4: "0 \<notin> set s3" "set s3 \<subseteq> set s" using nz(2) sub(3) unfolding Cons by simp_all
    show ?thesis by (rule that [OF 2 wne nz(1) 4(1) 3 _ _ sets 4(2) 1]) simp_all
  qed
qed

lemma cstr_prefix: "0 \<notin> set w \<Longrightarrow> cstr (w @ 0 # bs) = w"
  by (simp add: cstr_def takeWhile_tail takeWhile_eq_all_conv) (metis takeWhile_eq_all_conv)

lemma cstr_word:
  assumes "0 \<notin> set w" "set z \<subseteq> {0}" "z \<noteq> [] \<or> bs = 0 # cs"
  shows "cstr (w @ z @ bs) = w"
  using assms by (cases z) (auto simp: cstr_prefix)

lemma drop_past: "drop (length xs + n) (xs @ ys) = drop n ys"
  by simp

lemma parse_from_spec:
  assumes "t \<noteq> 0" "0 \<notin> set s" "argc + length (args_of t s) \<le> length argv" "length argv = MAX_ARG_NR"
  shows "\<exists>ps m. parse_from t pos (s @ 0 # rest) argc argv =
      Inr (int (argc + length ps), take argc argv @ map Some ps @ drop (argc + length ps) argv, m @ 0 # rest) \<and>
    length m = length s \<and> (\<forall>p \<in> set ps. pos \<le> p \<and> p < pos + length s) \<and> set m \<subseteq> insert 0 (set s) \<and>
    map (\<lambda>p. cstr (drop (p - pos) (m @ 0 # rest))) ps = args_of t s"
  using assms(2-)
proof (induction "args_of t s" arbitrary: s pos argc argv)
  case Nil
  then show ?case using parse_from_end [OF assms(1) Nil.prems(1) Nil.hyps [symmetric]]
    by (intro exI [of _ "[]"] exI [of _ s]) (auto dest: set_takeWhileD)
next
  case (Cons w ws)
  have argc: "argc < length argv" "argc \<le> MAX_ARG_NR" using Cons.prems(2,3) Cons.hyps(2) [symmetric] by simp_all
  obtain k s' z where st: "length s = k + length w + length z + length s'" "w \<noteq> []" "0 \<notin> set w" "0 \<notin> set s'" "args_of t s' = ws" "set z \<subseteq> {0}"
    "z \<noteq> [] \<or> s' = []" "set (replicate k t @ w @ z) \<subseteq> insert 0 (set s)" "set s' \<subseteq> set s"
    and run: "parse_from t pos (s @ 0 # rest) argc argv =
      (if length argv \<le> argc then Inl (Fault ''argv'')
       else rbind (parse_from t (pos + k + length w + length z) (s' @ 0 # rest) (argc + 1) (argv[argc := Some (pos + k)])) (\<lambda>(n, argv, mem).
         Inr (n, argv, replicate k t @ w @ z @ mem)))"
    by (rule parse_from_step [OF assms(1) Cons.prems(1) Cons.hyps(2) [symmetric] argc(2)])
  let ?pos = "pos + k + length w + length z" and ?argv = "argv[argc := Some (pos + k)]"
  have "argc + 1 + length (args_of t s') \<le> length ?argv" "length ?argv = MAX_ARG_NR"
    using Cons.prems(2,3) Cons.hyps(2) [symmetric] st(5) by simp_all
  from Cons.hyps(1) [OF st(5) [symmetric] st(4) this] obtain ps m where ih: "parse_from t ?pos (s' @ 0 # rest) (argc + 1) ?argv =
      Inr (int (argc + 1 + length ps), take (argc + 1) ?argv @ map Some ps @ drop (argc + 1 + length ps) ?argv, m @ 0 # rest)"
    "length m = length s'" "\<forall>p \<in> set ps. ?pos \<le> p \<and> p < ?pos + length s'" "set m \<subseteq> insert 0 (set s')"
    "map (\<lambda>p. cstr (drop (p - ?pos) (m @ 0 # rest))) ps = ws" unfolding st(5) by blast
  let ?m = "replicate k t @ w @ z @ m"
  have "take (argc + 1) ?argv @ map Some ps @ drop (argc + 1 + length ps) ?argv =
      take argc argv @ map Some ((pos + k) # ps) @ drop (argc + length ((pos + k) # ps)) argv"
    using argc(1) by (simp add: take_Suc_conv_app_nth)
  with argc(1) have "parse_from t pos (s @ 0 # rest) argc argv = Inr (int (argc + length ((pos + k) # ps)),
      take argc argv @ map Some ((pos + k) # ps) @ drop (argc + length ((pos + k) # ps)) argv, ?m @ 0 # rest)"
    by (unfold run ih(1)) simp
  moreover have w: "cstr (drop (pos + k - pos) (?m @ 0 # rest)) = w"
    using cstr_word [OF st(3,6), of "m @ 0 # rest" rest] st(7) ih(2) by auto
  have d: "drop (p - pos) (?m @ 0 # rest) = drop (p - ?pos) (m @ 0 # rest)" if "p \<in> set ps" for p
  proof -
    have "p - pos = length (replicate k t @ w @ z) + (p - ?pos)" using ih(3) that by auto
    moreover have "?m @ 0 # rest = (replicate k t @ w @ z) @ (m @ 0 # rest)" by simp
    ultimately show ?thesis by (simp only: drop_past)
  qed
  have "map (\<lambda>p. cstr (drop (p - pos) (?m @ 0 # rest))) ps = map (\<lambda>p. cstr (drop (p - ?pos) (m @ 0 # rest))) ps"
    by (rule map_cong [OF refl], subst d) simp_all
  then have "map (\<lambda>p. cstr (drop (p - pos) (?m @ 0 # rest))) ((pos + k) # ps) = args_of t s"
    unfolding list.map w ih(5) Cons.hyps(2) [symmetric] by (simp only:)
  moreover have "length ?m = length s" "\<forall>p \<in> set ((pos + k) # ps). pos \<le> p \<and> p < pos + length s" "set ?m \<subseteq> insert 0 (set s)"
    using st ih(2-4) by auto
  ultimately show ?case by blast
qed

text \<open>One argument too many is stored behind \<open>argv\<close>.\<close>

lemma parse_from_overflow:
  assumes "t \<noteq> 0" "0 \<notin> set s" "length argv < argc + length (args_of t s)" "length argv = MAX_ARG_NR" "argc \<le> length argv"
  shows "parse_from t pos (s @ 0 # rest) argc argv = Inl (Fault ''argv'')"
  using assms(2-)
proof (induction "args_of t s" arbitrary: s pos argc argv)
  case (Cons w ws)
  have argc: "argc \<le> MAX_ARG_NR" using Cons.prems by simp
  obtain k s' z where st: "0 \<notin> set s'" "args_of t s' = ws"
    and run: "parse_from t pos (s @ 0 # rest) argc argv =
      (if length argv \<le> argc then Inl (Fault ''argv'')
       else rbind (parse_from t (pos + k + length w + length z) (s' @ 0 # rest) (argc + 1) (argv[argc := Some (pos + k)])) (\<lambda>(n, argv, mem).
         Inr (n, argv, replicate k t @ w @ z @ mem)))"
    by (rule parse_from_step [OF assms(1) Cons.prems(1) Cons.hyps(2) [symmetric] argc])
  show ?case
  proof (cases "length argv \<le> argc")
    case False
    have "parse_from t (pos + k + length w + length z) (s' @ 0 # rest) (argc + 1) (argv[argc := Some (pos + k)]) = Inl (Fault ''argv'')"
      using Cons.prems Cons.hyps(2) [symmetric] st False by (intro Cons.hyps(1)) simp_all
    then show ?thesis by (simp add: run)
  qed (simp add: run)
qed simp

lemma cmd_parse_spec:
  assumes "t \<noteq> 0" "0 \<notin> set s" "length (args_of t s) \<le> MAX_ARG_NR"
  shows "\<exists>ps m. cmd_parse (pre @ s @ 0 # rest) (length pre) t =
      Inr (int (length ps), map Some ps @ replicate (MAX_ARG_NR - length ps) None, pre @ m @ 0 # rest) \<and>
    length m = length s \<and> set m \<subseteq> insert 0 (set s) \<and> (\<forall>p \<in> set ps. p < length pre + length s) \<and> map (\<lambda>p. cstr (drop p (pre @ m @ 0 # rest))) ps = args_of t s"
proof -
  have "0 + length (args_of t s) \<le> length (replicate MAX_ARG_NR None)" using assms(3) by simp
  from parse_from_spec [OF assms(1,2) this, of "length pre" rest] obtain ps m where
    p: "parse_from t (length pre) (s @ 0 # rest) 0 (replicate MAX_ARG_NR None) =
      Inr (int (length ps), map Some ps @ replicate (MAX_ARG_NR - length ps) None, m @ 0 # rest)"
    "length m = length s" "\<forall>p \<in> set ps. length pre \<le> p \<and> p < length pre + length s" "set m \<subseteq> insert 0 (set s)"
    "map (\<lambda>p. cstr (drop (p - length pre) (m @ 0 # rest))) ps = args_of t s" by auto
  have "drop p (pre @ m @ 0 # rest) = drop (p - length pre) (m @ 0 # rest)" if "p \<in> set ps" for p
    using p(3) that by simp
  then have "map (\<lambda>p. cstr (drop p (pre @ m @ 0 # rest))) ps = args_of t s" using p(5) by (simp cong: map_cong)
  with p show ?thesis by (intro exI [of _ ps] exI [of _ m]) (simp add: cmd_parse_def)
qed

lemma cmd_parse_overflow:
  assumes "t \<noteq> 0" "0 \<notin> set s" "MAX_ARG_NR < length (args_of t s)"
  shows "cmd_parse (pre @ s @ 0 # rest) (length pre) t = Inl (Fault ''argv'')"
  using parse_from_overflow [OF assms(1,2), of "replicate MAX_ARG_NR None" 0 "length pre" rest] assms(3)
  by (simp add: cmd_parse_def)

lemma args_of_nonempty: "w \<in> set (args_of t s) \<Longrightarrow> w \<noteq> []"
  by (simp add: args_of_def)

text \<open>What a list of arguments means.\<close>

definition command_of :: "(byte list \<Rightarrow> bool) \<Rightarrow> byte list list \<Rightarrow> command" where
  "command_of found ws =
     (if hd ws = [0x68, 0x65, 0x6c, 0x70] then Help else if hd ws = [0x63, 0x6c, 0x65, 0x61, 0x72] then Clear_screen
      else if hd ws = [0x70, 0x73] then Ps else if found (hd ws) then Child_exec (hd ws) ws else Child_missing (hd ws))"

text \<open>
  What becomes of it: without an argument \<^verbatim>\<open>argv[0]\<close> is null, more than 16 overrun \<^verbatim>\<open>argv\<close>, and 16 leave it without the
  null pointer at which \<^verbatim>\<open>execv\<close> stops to count.
\<close>

definition command_run :: "(byte list \<Rightarrow> bool) \<Rightarrow> byte list list \<Rightarrow> command res" where
  "command_run found ws =
     (if ws = [] then Inl (Fault ''argv[0]'')
      else if 16 < length ws then Inl (Fault ''argv'')
      else case command_of found ws of
          Child_exec path args \<Rightarrow> if length ws = 16 then Inl (Fault ''argv'') else Inr (Child_exec path args)
        | c \<Rightarrow> Inr c)"

lemma count_args_eq: "count_args (map Some ps @ replicate n None) = (if n = 0 then Inl (Fault ''argv'') else Inr (length ps))"
  by (induction ps) (cases n, simp_all)+

lemma strcmp_word:
  assumes "0 \<in> set m" "0 \<notin> set w"
  shows "\<exists>d. strcmp (w @ [0]) m = Inr d \<and> (d = 0 \<longleftrightarrow> cstr m = w)"
  using strcmp_cstr [of "w @ [0]" m] assms by (auto simp: cstr_prefix)

lemma cmd_execute_spec:
  assumes "ps \<noteq> []" "length ps \<le> MAX_ARG_NR" "map (\<lambda>p. cstr (drop p mem)) ps = ws" "\<forall>p \<in> set ps. 0 \<in> set (drop p mem)"
  shows "cmd_execute found (map Some ps @ replicate (MAX_ARG_NR - length ps) None) mem = command_run found ws"
proof -
  obtain p qs where p: "ps = p # qs" using assms(1) by (cases ps) auto
  let ?w = "cstr (drop p mem)"
  have z: "0 \<in> set (drop p mem)" and ws: "hd ws = ?w" using assms(3,4) p by auto
  obtain d1 d2 d3 where d: "strcmp [0x68, 0x65, 0x6c, 0x70, 0] (drop p mem) = Inr d1" "d1 = 0 \<longleftrightarrow> ?w = [0x68, 0x65, 0x6c, 0x70]"
    "strcmp [0x63, 0x6c, 0x65, 0x61, 0x72, 0] (drop p mem) = Inr d2" "d2 = 0 \<longleftrightarrow> ?w = [0x63, 0x6c, 0x65, 0x61, 0x72]"
    "strcmp [0x70, 0x73, 0] (drop p mem) = Inr d3" "d3 = 0 \<longleftrightarrow> ?w = [0x70, 0x73]"
    using strcmp_word [OF z, of "[0x68, 0x65, 0x6c, 0x70]"] strcmp_word [OF z, of "[0x63, 0x6c, 0x65, 0x61, 0x72]"]
      strcmp_word [OF z, of "[0x70, 0x73]"] by auto
  have l: "length ws = length ps" "ws \<noteq> []" "\<not> 16 < length ws" "MAX_ARG_NR - length ps = 0 \<longleftrightarrow> length ws = 16"
    using assms(1-3) arg_cong [OF assms(3), of length] by (auto simp: MAX_ARG_NR_def)
  have "map (\<lambda>q. cstr (drop (the q) mem)) (take (length ps) (map Some ps @ replicate (MAX_ARG_NR - length ps) None)) = ws"
    using assms(3) by (simp add: o_def)
  then show ?thesis using d ws l count_args_eq [of ps "MAX_ARG_NR - length ps"]
    by (simp add: cmd_execute_def command_of_def command_run_def p del: strcmp.simps)
qed

lemma parse_execute_spec:
  assumes "0 \<notin> set s"
  shows "case command_run found (args_of SPACE s) of
      Inl e \<Rightarrow> parse_execute found (length pre) (pre @ s @ 0 # rest) = Inl e
    | Inr c \<Rightarrow> \<exists>m. parse_execute found (length pre) (pre @ s @ 0 # rest) = Inr (c, pre @ m @ 0 # rest) \<and>
        length m = length s \<and> set m \<subseteq> insert 0 (set s)"
proof -
  have sp: "SPACE \<noteq> 0" by (simp add: SPACE_def)
  consider (none) "args_of SPACE s = []" | (many) "MAX_ARG_NR < length (args_of SPACE s)"
    | (fits) "args_of SPACE s \<noteq> []" "length (args_of SPACE s) \<le> MAX_ARG_NR" by linarith
  then show ?thesis
  proof cases
    case none
    have "cmd_execute found (replicate MAX_ARG_NR None) mem = Inl (Fault ''argv[0]'')" for mem
      by (simp add: cmd_execute_def MAX_ARG_NR_def numeral_eq_Suc)
    then show ?thesis using parse_from_end [OF sp assms none]
      by (simp add: parse_execute_def cmd_parse_def command_run_def none)
  next
    case many
    then show ?thesis using cmd_parse_overflow [OF sp assms many, of pre rest]
      by (auto simp: parse_execute_def command_run_def MAX_ARG_NR_def)
  next
    case fits
    from cmd_parse_spec [OF sp assms fits(2), of pre rest] obtain ps m where
      p: "cmd_parse (pre @ s @ 0 # rest) (length pre) SPACE =
        Inr (int (length ps), map Some ps @ replicate (MAX_ARG_NR - length ps) None, pre @ m @ 0 # rest)"
      "length m = length s" "set m \<subseteq> insert 0 (set s)" "\<forall>p \<in> set ps. p < length pre + length s"
      "map (\<lambda>p. cstr (drop p (pre @ m @ 0 # rest))) ps = args_of SPACE s" by (auto simp del: drop_append)
    have "length ps = length (args_of SPACE s)" using arg_cong [OF p(5), of length] by simp
    then have "ps \<noteq> []" "length ps \<le> MAX_ARG_NR" using fits by auto
    moreover have "0 \<in> set (drop p (pre @ m @ 0 # rest))" if "p \<in> set ps" for p
    proof -
      have "p \<le> length (pre @ m)" using p(2,4) that by auto
      then have "drop p ((pre @ m) @ 0 # rest) = drop p (pre @ m) @ 0 # rest" by simp
      then show ?thesis by simp
    qed
    ultimately have "cmd_execute found (map Some ps @ replicate (MAX_ARG_NR - length ps) None) (pre @ m @ 0 # rest) = command_run found (args_of SPACE s)"
      using p(5) by (intro cmd_execute_spec) simp_all
    with p show ?thesis by (cases "command_run found (args_of SPACE s)") (simp_all add: parse_execute_def)
  qed
qed

text \<open>
  C28. \<^verbatim>\<open>cmd_parse\<close> splits a line into its arguments: each pointer it stores points to one maximal piece without the
  separator, closed by a zero, in their order; the rest of \<^verbatim>\<open>argv\<close> is null and the memory behind the line is not
  touched. With more than 16 arguments the 17th pointer is stored behind \<^verbatim>\<open>argv\<close>, before the number is checked.
\<close>
theorem cmd_parse_splits:
  assumes "t \<noteq> 0" "0 \<notin> set s"
  shows "if length (args_of t s) \<le> MAX_ARG_NR
    then \<exists>ps m. cmd_parse (s @ 0 # rest) 0 t = Inr (int (length ps), map Some ps @ replicate (MAX_ARG_NR - length ps) None, m @ 0 # rest) \<and>
      length m = length s \<and> map (\<lambda>p. cstr (drop p (m @ 0 # rest))) ps = args_of t s
    else cmd_parse (s @ 0 # rest) 0 t = Inl (Fault ''argv'')"
  using cmd_parse_spec [OF assms, of "[]" rest] cmd_parse_overflow [OF assms, of "[]" rest] by (auto simp del: drop_append)

theorem cmd_parse_splits_witness:
  "\<exists>ps m. cmd_parse [0x6c, 0x73, 0x20, 0x20, 0x2d, 0x6c, 0, 7] 0 SPACE = Inr (int (length ps), map Some ps @ replicate (16 - length ps) None, m @ [0, 7]) \<and>
     length m = 6 \<and> map (\<lambda>p. cstr (drop p (m @ [0, 7]))) ps = [[0x6c, 0x73], [0x2d, 0x6c]]"
proof -
  have "SPACE \<noteq> 0" "(0 :: byte) \<notin> set [0x6c, 0x73, 0x20, 0x20, 0x2d, 0x6c]" "length [0x6c, 0x73, 0x20, 0x20, 0x2d, 0x6c :: byte] = 6"
    "args_of SPACE [0x6c, 0x73, 0x20, 0x20, 0x2d, 0x6c] = [[0x6c, 0x73], [0x2d, 0x6c]]" "[0x6c, 0x73, 0x20, 0x20, 0x2d, 0x6c] @ 0 # [7] = [0x6c, 0x73, 0x20, 0x20, 0x2d, 0x6c, 0, 7 :: byte]"
    by (simp_all add: SPACE_def args_of_def)
  from cmd_parse_splits [OF this(1,2), of "[7]", unfolded this(3,4,5)] show ?thesis by (simp del: drop_append add: MAX_ARG_NR_def)
qed

section \<open>Editing\<close>

text \<open>The line that a sequence of keys makes, and what the events leave on the line of the prompt.\<close>

fun edit :: "byte list \<Rightarrow> byte \<Rightarrow> byte list" where
  "edit l c = (if c = 0x08 then butlast l else if c = 0x14 then [] else if c = 0x0b then l else l @ [c])"

text \<open>
  \<^verbatim>\<open>put_char\<close> moves the cursor for a tab, and takes the byte after an escape for the colour: the text behind the prompt is
  then not known any more.
\<close>

fun show_event :: "byte list option \<Rightarrow> shown \<Rightarrow> byte list option" where
  "show_event None e = None"
| "show_event (Some l) (Put c) =
     (if c = 0x09 \<or> c = 0x1b then None else if c = 0x08 then Some (butlast l) else Some (l @ [c]))"
| "show_event (Some l) Clear = Some []"
| "show_event (Some l) Prompt = Some []"
| "show_event (Some l) (Str bs) = (if 0x09 \<in> set bs \<or> 0x1b \<in> set bs then None else Some (l @ bs))"

lemma kill_line_length [simp]: "length (kill_line b n) = length b"
  by (induction n arbitrary: b) simp_all

lemma show_backspaces: "length l = n \<Longrightarrow> foldl show_event (Some l) (replicate n (Put 0x08)) = Some []"
  by (induction n arbitrary: l) auto

text \<open>With \<open>plain\<close> no tab and no escape has been typed.\<close>

definition editing :: "bool \<Rightarrow> byte list \<Rightarrow> nat \<Rightarrow> shown list \<Rightarrow> byte list \<Rightarrow> bool" where
  "editing plain buffer pos out l \<longleftrightarrow> pos = length l \<and> take pos buffer = l \<and> 0 \<notin> set l \<and> 0x08 \<notin> set l \<and>
     (plain \<longrightarrow> 0x09 \<notin> set l \<and> 0x1b \<notin> set l \<and> foldl show_event (Some []) out = Some l)"

text \<open>One key that does not end the line.\<close>

lemma readline_key:
  assumes "editing plain buffer pos out l" "pos < count" "count \<le> length buffer" "c \<noteq> 0" "c \<noteq> 0x0a" "c \<noteq> 0x0d"
    and "plain \<longrightarrow> c \<noteq> 0x09 \<and> c \<noteq> 0x1b"
  obtains b o' where "readline count (c # keys) buffer pos out = readline count keys b (length (edit l c)) o'"
    "editing plain b (length (edit l c)) o' (edit l c)" "length b = length buffer"
proof -
  note e = assms(1) [unfolded editing_def]
  have lt: "pos < length buffer" using assms(2,3) by simp
  let ?b = "buffer[pos := c]"
  have "take pos ?b = l" using e by simp metis
  then have tk: "take pos ?b = l" "take (Suc pos) ?b = l @ [c]" using lt by (simp_all add: take_Suc_conv_app_nth)
  consider "c = 0x08" | "c = 0x0b" | "c = 0x14" | "c \<noteq> 0x08" "c \<noteq> 0x0b" "c \<noteq> 0x14" by blast
  then show ?thesis
  proof cases
    case 1
    show ?thesis
    proof (cases l)
      case Nil
      then show ?thesis using that [of ?b out] assms 1 e lt by (simp add: editing_def)
    next
      case (Cons a as)
      then have p0: "pos \<noteq> 0" "l ! 0 = a" "a \<noteq> 0x08" using e by auto
      have "take pos ?b ! 0 = l ! 0" using tk(1) by simp
      then have nb: "?b ! 0 \<noteq> 0x08" using p0 by simp
      have "take (pos - 1) (take pos ?b) = butlast l" unfolding tk(1) by (simp add: butlast_conv_take e)
      then have "editing plain ?b (pos - 1) (out @ [Put 0x08]) (butlast l)"
        using e by (auto simp: editing_def min_def dest: in_set_butlastD)
      then show ?thesis using that [of ?b "out @ [Put 0x08]"] assms(2-) 1 e lt nb by simp
    qed
  next
    case 2
    let ?b2 = "?b[pos := 0]"
    have "cstr ?b2 = l"
    proof -
      have "?b2 = l @ 0 # drop (Suc pos) buffer" using e lt by (metis id_take_nth_drop list_update_overwrite upd_conv_take_nth_drop)
      then show ?thesis using e by (simp add: cstr_prefix)
    qed
    then show ?thesis using that [of ?b2 "out @ [Clear, Prompt, Str l]"] assms 2 e lt
      by (simp add: editing_def)
  next
    case 3
    then show ?thesis using that [of "kill_line ?b pos" "out @ replicate pos (Put 0x08)"] assms e lt
      by (simp add: editing_def show_backspaces)
  next
    case 4
    then show ?thesis using that [of ?b "out @ [Put c]"] assms e lt tk by (simp add: editing_def)
  qed
qed

lemma readline_keys:
  assumes "editing plain buffer pos out l" "count \<le> length buffer" "\<forall>c \<in> set keys. c \<noteq> 0 \<and> c \<noteq> 0x0a \<and> c \<noteq> 0x0d"
    and "plain \<longrightarrow> 0x09 \<notin> set keys \<and> 0x1b \<notin> set keys"
    and "\<forall>n < length keys. length (foldl edit l (take n keys)) < count"
  shows "\<exists>b o'. readline count (keys @ later) buffer pos out = readline count later b (length (foldl edit l keys)) o' \<and>
    editing plain b (length (foldl edit l keys)) o' (foldl edit l keys) \<and> length b = length buffer"
  using assms
proof (induction keys arbitrary: buffer pos out l)
  case (Cons c keys)
  have "pos < count" using Cons.prems(1,5) by (force simp: editing_def)
  moreover have "c \<noteq> 0" "c \<noteq> 0x0a" "c \<noteq> 0x0d" "plain \<longrightarrow> c \<noteq> 0x09 \<and> c \<noteq> 0x1b" using Cons.prems(3,4) by auto
  ultimately obtain b o' where s: "readline count (c # keys @ later) buffer pos out = readline count (keys @ later) b (length (edit l c)) o'"
    "editing plain b (length (edit l c)) o' (edit l c)" "length b = length buffer"
    using readline_key [OF Cons.prems(1) _ Cons.prems(2)] by metis
  have "\<forall>n < length keys. length (foldl edit (edit l c) (take n keys)) < count"
    using Cons.prems(5) by (metis Suc_less_eq foldl_Cons length_Cons take_Suc_Cons)
  with Cons.IH [OF s(2)] Cons.prems(2-4) s show ?case by (simp del: edit.simps)
qed (auto simp: editing_def)

text \<open>
  C29. The line editor keeps buffer and screen in step: after any keys, the line that the return key hands over is what the
  keys make of it - backspace, Ctrl-U and Ctrl-L included - and, if neither tab nor escape is among the keys, the same
  text stands behind the prompt (a tab moves the cursor, and the byte after an escape sets the colour instead of being
  shown). When the line has filled the buffer, the next key is written behind it before the length is compared.
\<close>
theorem readline_edits:
  assumes "\<forall>c \<in> set keys. c \<noteq> 0 \<and> c \<noteq> 0x0a \<and> c \<noteq> 0x0d" "\<forall>n < length keys. length (foldl edit [] (take n keys)) < length buffer"
  shows "if length (foldl edit [] keys) < length buffer
    then \<exists>b out. readline (length buffer) (keys @ 0x0d # later) buffer 0 [] = Inr (Line b (out @ [Put 0x0a])) \<and>
      cstr b = foldl edit [] keys \<and> length b = length buffer \<and>
      (0x09 \<notin> set keys \<and> 0x1b \<notin> set keys \<longrightarrow> foldl show_event (Some []) out = Some (foldl edit [] keys))
    else readline (length buffer) (keys @ 0x0d # later) buffer 0 [] = Inl (Fault ''cmd_line'')"
proof -
  let ?l = "foldl edit [] keys" and ?p = "0x09 \<notin> set keys \<and> 0x1b \<notin> set keys"
  have "editing ?p buffer 0 [] []" by (simp add: editing_def)
  from readline_keys [OF this order_refl assms(1) _ assms(2)] obtain b out where
    r: "readline (length buffer) (keys @ 0x0d # later) buffer 0 [] = readline (length buffer) (0x0d # later) b (length ?l) out"
    "editing ?p b (length ?l) out ?l" "length b = length buffer" by blast
  have e: "take (length ?l) b = ?l" "0 \<notin> set ?l" "?p \<longrightarrow> foldl show_event (Some []) out = Some ?l"
    using r(2) by (auto simp: editing_def)
  have "cstr (b[length ?l := 0]) = ?l" if "length ?l < length b"
  proof -
    have "b[length ?l := 0] = ?l @ 0 # drop (Suc (length ?l)) b" using e(1) that by (metis upd_conv_take_nth_drop)
    then show ?thesis using e(2) by (simp add: cstr_prefix)
  qed
  then show ?thesis using r(1,3) e(3) by auto
qed

theorem readline_edits_witness:
  "(\<exists>b out. readline 8 ([0x6c, 0x78, 0x08, 0x73] @ 0x0d # []) (replicate 8 0) 0 [] = Inr (Line b (out @ [Put 0x0a])) \<and>
     cstr b = [0x6c, 0x73] \<and> foldl show_event (Some []) out = Some [0x6c, 0x73]) \<and>
   readline 2 ([0x6c, 0x73] @ 0x0d # []) (replicate 2 0) 0 [] = Inl (Fault ''cmd_line'')"
  using readline_edits [of "[0x6c, 0x78, 0x08, 0x73]" "replicate 8 0" "[]"] readline_edits [of "[0x6c, 0x73]" "replicate 2 0" "[]"]
  by (simp add: All_less_Suc del: readline.simps) blast

section \<open>Lines with a pipe\<close>

lemma strchr_found: "0 \<notin> set a \<Longrightarrow> ch \<notin> set a \<Longrightarrow> ch \<noteq> 0 \<Longrightarrow> strchr (a @ ch # bs) ch = Inr (Some (length a))"
  by (induction a) auto

lemma strchr_none: "ch \<notin> set a \<Longrightarrow> strchr (a @ 0 # bs) ch = Inr None"
  by (induction a) auto

text \<open>
  C30. What the shell does with any line (\<open>command_run\<close> says what becomes of a command with its
  arguments). Nothing happens on an empty line. Without a pipe symbol the command runs with the arguments of the
  line. With one, the text before the first symbol runs to its end with its output in the pipe, and only then the
  text behind it with its input from the pipe, and the standard descriptors are restored. Further pipe symbols are
  arguments of the second command: the loop that looks for them searches the line from its start, where the first
  one is now a zero. The shell crashes when a line that is not empty, or a side of the pipe symbol, has no argument
  (it compares the null pointer \<^verbatim>\<open>argv[0]\<close>) or more than 16 (they overrun
  \<^verbatim>\<open>argv\<close>); with 16 arguments an external command has no null pointer at the end of
  \<^verbatim>\<open>argv\<close> and is not run properly.
\<close>
theorem shell_runs_line:
  assumes "0 \<notin> set a" "PIPE \<notin> set a" "0 \<notin> set b"
  shows "run_line found (a @ 0 # rest) =
      (if a = [] then Inr [] else rbind (command_run found (args_of SPACE a)) (\<lambda>c. Inr [Run c])) \<and>
    run_line found (a @ PIPE # b @ 0 # rest) =
      rbind (command_run found (args_of SPACE a)) (\<lambda>c. rbind (command_run found (args_of SPACE b)) (\<lambda>d.
        Inr [Open_pipe, Redirect 1 Pipe_write, Run c, Redirect 0 Pipe_read, Redirect 1 (Std 1), Run d,
          Redirect 0 (Std 0), Close Pipe_read, Close Pipe_write]))"
proof
  have p0: "PIPE \<noteq> 0" "SPACE \<noteq> 0" by (simp_all add: PIPE_def SPACE_def)
  have single: "run_line found (a @ 0 # rest) = rbind (parse_execute found 0 (a @ 0 # rest)) (\<lambda>(c, m). Inr [Run c])" if "a \<noteq> []"
  proof -
    have "(a @ 0 # rest) ! 0 \<noteq> 0" using assms(1) that by (cases a) auto
    moreover have "argc \<noteq> -1" if "cmd_parse (a @ 0 # rest) 0 SPACE = Inr (argc, argv, m)" for argc argv m
      using cmd_parse_spec [OF p0(2) assms(1), of "[]" rest] cmd_parse_overflow [OF p0(2) assms(1), of "[]" rest] that
      by (cases "length (args_of SPACE a) \<le> MAX_ARG_NR") auto
    ultimately show ?thesis using assms(2)
      by (cases "cmd_parse (a @ 0 # rest) 0 SPACE") (auto simp: run_line_def strchr_none parse_execute_def rbind_def split: sum.splits)
  qed
  show "run_line found (a @ 0 # rest) =
      (if a = [] then Inr [] else rbind (command_run found (args_of SPACE a)) (\<lambda>c. Inr [Run c]))"
  proof (cases "a = []")
    case False
    then show ?thesis using single parse_execute_spec [OF assms(1), of found "[]" rest]
      by (auto split: sum.splits)
  qed (simp add: run_line_def)
  have a0: "(a @ PIPE # b @ 0 # rest) ! 0 \<noteq> 0" using assms(1) p0 by (cases a) auto
  have cut: "(a @ PIPE # b @ 0 # rest)[length a := 0] = a @ 0 # b @ 0 # rest" by simp
  note found = strchr_found [OF assms(1,2) p0(1)]
  show "run_line found (a @ PIPE # b @ 0 # rest) =
      rbind (command_run found (args_of SPACE a)) (\<lambda>c. rbind (command_run found (args_of SPACE b)) (\<lambda>d.
        Inr [Open_pipe, Redirect 1 Pipe_write, Run c, Redirect 0 Pipe_read, Redirect 1 (Std 1), Run d,
          Redirect 0 (Std 0), Close Pipe_read, Close Pipe_write]))"
  proof (cases "command_run found (args_of SPACE a)")
    case (Inl e)
    then show ?thesis using parse_execute_spec [OF assms(1), of found "[]" "b @ 0 # rest"] a0 cut found
      by (simp add: run_line_def)
  next
    case (Inr c)
    then obtain m where
      2: "parse_execute found 0 (a @ 0 # b @ 0 # rest) = Inr (c, m @ 0 # b @ 0 # rest)" "length m = length a" "set m \<subseteq> insert 0 (set a)"
      using parse_execute_spec [OF assms(1), of found "[]" "b @ 0 # rest"] by auto
    have "PIPE \<notin> set m" using 2(3) assms(2) p0 by auto
    then have 3: "pipe_loop (Suc n) found e (m @ 0 # b @ 0 # rest) = Inr (e, m @ 0 # b @ 0 # rest, [])" for n e
      by (simp add: strchr_none)
    have "case command_run found (args_of SPACE b) of
        Inl e \<Rightarrow> parse_execute found (Suc (length a)) (m @ 0 # b @ 0 # rest) = Inl e
      | Inr d \<Rightarrow> \<exists>m2. parse_execute found (Suc (length a)) (m @ 0 # b @ 0 # rest) = Inr (d, m2)"
      using parse_execute_spec [OF assms(3), of found "m @ [0]" rest] 2(2) by (auto split: sum.splits)
    then show ?thesis using a0 cut found 2(1) 3 Inr
      by (auto simp: run_line_def simp del: pipe_loop.simps split: sum.splits)
  qed
qed

text \<open>
  The line \<open>ls|cat | rm\<close>: one pipe, and \<open>cat\<close> gets the arguments \<open>|\<close> and \<open>rm\<close>. A space crashes the shell, also in front
  of a pipe symbol.
\<close>

theorem shell_runs_line_witness:
  "run_line (\<lambda>_. True) ([0x6c, 0x73] @ PIPE # [0x63, 0x61, 0x74, 0x20, 0x7c, 0x20, 0x72, 0x6d] @ 0 # []) =
     Inr [Open_pipe, Redirect 1 Pipe_write, Run (Child_exec [0x6c, 0x73] [[0x6c, 0x73]]), Redirect 0 Pipe_read, Redirect 1 (Std 1),
       Run (Child_exec [0x63, 0x61, 0x74] [[0x63, 0x61, 0x74], [0x7c], [0x72, 0x6d]]), Redirect 0 (Std 0), Close Pipe_read, Close Pipe_write] \<and>
   run_line (\<lambda>_. True) ([0x20] @ 0 # []) = Inl (Fault ''argv[0]'') \<and>
   run_line (\<lambda>_. True) ([0x20] @ PIPE # [0x6c] @ 0 # []) = Inl (Fault ''argv[0]'')"
proof -
  have w: "args_of SPACE [0x6c, 0x73] = [[0x6c, 0x73]]" "args_of SPACE [0x20] = []"
    "args_of SPACE [0x63, 0x61, 0x74, 0x20, 0x7c, 0x20, 0x72, 0x6d] = [[0x63, 0x61, 0x74], [0x7c], [0x72, 0x6d]]"
    by (simp_all add: SPACE_def args_of_def)
  have z: "(0 :: byte) \<notin> set [0x6c, 0x73]" "PIPE \<notin> set [0x6c, 0x73]" "(0 :: byte) \<notin> set [0x63, 0x61, 0x74, 0x20, 0x7c, 0x20, 0x72, 0x6d]"
    "(0 :: byte) \<notin> set [0x20]" "PIPE \<notin> set [0x20]" "(0 :: byte) \<notin> set [0x6c]"
    by (simp_all add: PIPE_def)
  note 1 = shell_runs_line [OF z(1-3), of "\<lambda>_. True" "[]", THEN conjunct2, unfolded w]
  note 2 = shell_runs_line [OF z(4-6), of "\<lambda>_. True" "[]", unfolded w]
  show ?thesis using 1 2 by (simp add: command_run_def command_of_def)
qed

end
