(* ===== verification/Commands.thy ===== *)
theory Commands
  imports Stdio FileSpec
begin

text \<open>
  The small commands (\<^verbatim>\<open>command/echo.c\<close>, \<^verbatim>\<open>rm.c\<close>, \<^verbatim>\<open>ls.c\<close>, \<^verbatim>\<open>cat.c\<close>) on the system calls of theory \<open>FileCall\<close>. An
  argument is a list of bytes without the final zero. What \<^verbatim>\<open>malloc\<close> gives and what uninitialised memory holds are
  arguments; a failed \<^verbatim>\<open>assert\<close>, which ends the program, is a panic. Keys are a list, each read by one call of \<^verbatim>\<open>read\<close>.
\<close>

definition uprintf :: "string \<Rightarrow> arg list \<Rightarrow> 'a kern_scheme \<Rightarrow> 'a kern_scheme res" where
  "uprintf format args s = rbind (printf (chars format) args) (\<lambda>r. rbind (sys_write 1 r s) (\<lambda>(_, s). Inr s))"

definition cstring :: "byte list \<Rightarrow> arg" where
  "cstring bs = Pointer (bs @ [0])"

definition newline :: string where "newline = [CHR 0x0a]"
definition tab :: string where "tab = [CHR 0x09]"

section \<open>echo\<close>

fun echo_args :: "byte list list \<Rightarrow> 'a kern_scheme \<Rightarrow> 'a kern_scheme res" where
  "echo_args [] s = uprintf newline [] s"
| "echo_args (a # as) s = rbind (uprintf ''%s '' [cstring a] s) (echo_args as)"

definition echo_main :: "byte list list \<Rightarrow> 'a kern_scheme \<Rightarrow> 'a kern_scheme res" where
  "echo_main argv s = echo_args (tl argv) s"

section \<open>rm\<close>

text \<open>The second message names \<^verbatim>\<open>argv[i]\<close>, which is the argument before the one that could not be removed.\<close>

fun rm_loop :: "byte list \<Rightarrow> byte list list \<Rightarrow> 'a kern_scheme \<Rightarrow> 'a kern_scheme res" where
  "rm_loop before [] s = Inr s"
| "rm_loop before (a # as) s =
     rbind (sys_stat a s) (\<lambda>(st, s).
     rbind (if st = None then uprintf (''rm can't remove %s: no such file or directory'' @ newline) [cstring a] s else Inr s) (\<lambda>s.
     rbind (sys_unlink a s) (\<lambda>(r, s).
     rbind (if r \<noteq> 0 then uprintf (''rm can't remove %s'' @ newline) [cstring before] s else Inr s) (\<lambda>s.
     rm_loop a as s))))"

definition rm_main :: "bool \<Rightarrow> byte list list \<Rightarrow> 'a kern_scheme \<Rightarrow> (int \<times> 'a kern_scheme) res" where
  "rm_main got argv s =
     (if length argv = 1 then rbind (uprintf (''rm: need at least 2 args'' @ newline) [] s) (\<lambda>s. Inr (-1, s))
      else
        rbind (kassert got ''files_stat'') (\<lambda>_.
        rbind (rm_loop (hd argv) (tl argv) s) (\<lambda>s. Inr (0, s))))"

section \<open>ls\<close>

definition type_str :: "string list" where
  "type_str = [''unknown'', ''regular'', ''directory'']"

definition ls_line :: "byte list \<Rightarrow> u64 \<Rightarrow> u32 \<Rightarrow> u64 \<Rightarrow> 'a kern_scheme \<Rightarrow> 'a kern_scheme res" where
  "ls_line nm nr ty sz s =
     (if length type_str \<le> unat ty then Inl (Fault ''type_str'')
      else uprintf (''%s:'' @ tab @ ''inode_no %d'' @ tab @ ''file_type %s'' @ tab @ ''file_size %d'' @ newline)
        [Pointer nm, Slot nr, cstring (chars (type_str ! unat ty)), Slot sz] s)"

text \<open>
  The loop over the entries of the root directory; \<open>junk\<close> is what \<^verbatim>\<open>buf\<close> holds when \<^verbatim>\<open>stat\<close> fails, and \<open>None\<close> that the
  loop does not end. The name of an entry is 16 bytes, followed by the rest of the entry.
\<close>

partial_function (option) ls_entries :: "stat_buf \<Rightarrow> bool \<Rightarrow> u64 \<Rightarrow> 'a kern_scheme \<Rightarrow> 'a kern_scheme res option" where
  "ls_entries junk is_stat p s =
     Option.bind (sys_readdir p s) (\<lambda>r.
     case r of
       Inl e \<Rightarrow> Some (Inl e)
     | Inr (None, s) \<Rightarrow> Some (Inr s)
     | Inr (Some e, s) \<Rightarrow>
         (case
            (if is_stat then
               rbind (sys_stat (cstr e) s) (\<lambda>(st, s).
               ls_line e (de_i_no (decode_entry e)) (de_f_type (decode_entry e)) (st_size (case st of None \<Rightarrow> junk | Some b \<Rightarrow> b)) s)
             else uprintf (''%s'' @ tab) [Pointer e] s)
          of Inl x \<Rightarrow> Some (Inl x) | Inr s \<Rightarrow> ls_entries junk is_stat p s))"

definition list_root_dir :: "stat_buf \<Rightarrow> bool \<Rightarrow> 'a kern_scheme \<Rightarrow> 'a kern_scheme res option" where
  "list_root_dir junk is_stat s =
     (case sys_opendir [0x2f] s of
        Inl e \<Rightarrow> Some (Inl e)
      | Inr (p, s) \<Rightarrow>
          if p = 0 then Some (Inl (Panic ''pdir''))
          else map_option (\<lambda>r. rbind r (\<lambda>s. rbind (uprintf newline [] s) (sys_closedir p))) (ls_entries junk is_stat p s))"

text \<open>The first loop of \<^verbatim>\<open>main\<close>. \<open>argidx\<close> is a \<^verbatim>\<open>bool\<close>, so it becomes 1 whatever the position of \<^verbatim>\<open>-l\<close> is.\<close>

fun ls_stats :: "nat \<Rightarrow> byte list list \<Rightarrow> nat \<Rightarrow> stat_buf list \<Rightarrow> 'a kern_scheme \<Rightarrow> (nat \<times> stat_buf list \<times> 'a kern_scheme) res" where
  "ls_stats i [] argidx files s = Inr (argidx, files, s)"
| "ls_stats i (a # as) argidx files s =
     rbind (strcmp [0x2d, 0x6c, 0] (a @ [0])) (\<lambda>d.
     if d = 0 then ls_stats (i + 1) as (of_bool (i \<noteq> 0)) files s
     else
       rbind (sys_stat a s) (\<lambda>(st, s).
       ls_stats (i + 1) as argidx
         (files[i - 1 := (case st of None \<Rightarrow> (files ! (i - 1))\<lparr>st_inode_no := 4097\<rparr> | Some b \<Rightarrow> b)]) s))"

fun ls_lines :: "nat \<Rightarrow> byte list list \<Rightarrow> nat \<Rightarrow> stat_buf list \<Rightarrow> 'a kern_scheme \<Rightarrow> 'a kern_scheme res" where
  "ls_lines i [] argidx files s = Inr s"
| "ls_lines i (a # as) argidx files s =
     (let f = files ! (i - 1) in
      rbind
        (if i \<noteq> argidx \<and> st_inode_no f \<noteq> 4097 then
           if argidx \<noteq> 0 then ls_line (a @ [0]) (st_inode_no f) (st_file_type f) (st_size f) s
           else uprintf (''%s'' @ tab) [cstring a] s
         else Inr s) (\<lambda>s.
      ls_lines (i + 1) as argidx files s))"

text \<open>\<open>mem\<close> is what the memory for the results of \<^verbatim>\<open>stat\<close> holds before.\<close>

definition ls_main :: "bool \<Rightarrow> (nat \<Rightarrow> stat_buf) \<Rightarrow> stat_buf \<Rightarrow> byte list list \<Rightarrow> 'a kern_scheme \<Rightarrow> 'a kern_scheme res option" where
  "ls_main got mem junk argv s =
     (if length argv = 1 then list_root_dir junk False s
      else if \<not> got then Some (Inl (Panic ''files''))
      else
        (case ls_stats 1 (tl argv) 0 (map mem [0..<length argv - 1]) s of
           Inl e \<Rightarrow> Some (Inl e)
         | Inr (argidx, files, s) \<Rightarrow>
             if argidx \<noteq> 0 \<and> length argv = 2 then list_root_dir junk True s
             else Some (rbind (ls_lines 1 (tl argv) argidx files s) (uprintf newline []))))"

section \<open>cat\<close>

text \<open>The buffer has the size of the file; \<open>junk\<close> is what it holds before.\<close>

definition cat_read_file :: "(nat \<Rightarrow> byte) \<Rightarrow> byte list \<Rightarrow> 'a kern_scheme \<Rightarrow> (int \<times> 'a kern_scheme) res" where
  "cat_read_file junk file_name s =
     rbind (sys_stat file_name s) (\<lambda>(st, s).
     case st of
       None \<Rightarrow> rbind (uprintf (''no such file or directory'' @ newline) [] s) (\<lambda>s. Inr (-1, s))
     | Some st \<Rightarrow>
         rbind (sys_open file_name 0 s) (\<lambda>(fd, s).
         if fd = -1 then rbind (uprintf (''read_file: open failed'' @ newline) [] s) (\<lambda>s. Inr (-1, s))
         else
           rbind (sys_read fd (unat (st_size st)) s) (\<lambda>((ret, bs, park), s).
           rbind (uprintf ''%s'' [Pointer (bs @ map junk [length bs..<unat (st_size st)])] s) (\<lambda>s.
           rbind (sys_close fd s) (\<lambda>(_, s). Inr (0, s))))))"

definition cat_open :: "byte list \<Rightarrow> 'a kern_scheme \<Rightarrow> (int \<times> 'a kern_scheme) res" where
  "cat_open pathname s =
     rbind (sys_stat pathname s) (\<lambda>(st, s). sys_open pathname (if st = None then O_CREAT OR O_WRONLY else O_WRONLY) s)"

text \<open>Every argument goes to the file as a line of its own, by way of a buffer of \<open>len + 1\<close> bytes.\<close>

fun cat_write_args :: "int \<Rightarrow> byte list list \<Rightarrow> 'a kern_scheme \<Rightarrow> 'a kern_scheme res" where
  "cat_write_args fd [] s = Inr s"
| "cat_write_args fd (a # as) s =
     rbind (strlen (a @ [0])) (\<lambda>len.
     rbind (sprintf (replicate (len + 1) 0) 0 (chars (''%s'' @ newline)) [cstring a]) (\<lambda>(buf, _).
     rbind (sys_write fd (take (len + 1) buf) s) (\<lambda>(_, s). cat_write_args fd as s)))"

definition cat_write_file :: "byte list \<Rightarrow> byte list list \<Rightarrow> 'a kern_scheme \<Rightarrow> (int \<times> 'a kern_scheme) res" where
  "cat_write_file pathname args s =
     rbind (cat_open pathname s) (\<lambda>(fd, s).
     if fd = -1 then Inr (-1, s)
     else rbind (cat_write_args fd args s) (\<lambda>s. rbind (sys_close fd s) (\<lambda>(_, s). Inr (0, s))))"

text \<open>
  \<open>cat file word\<close>: lines typed on the keyboard go to the file up to the line that equals \<open>word\<close>. \<open>typed_line\<close> collects the
  keys up to the return key in the 512 bytes of \<^verbatim>\<open>str_buf\<close>; \<open>None\<close>: it waits for another key.
\<close>

fun typed_line :: "byte list \<Rightarrow> byte list \<Rightarrow> 'a kern_scheme \<Rightarrow> ((byte list \<times> byte list) option \<times> 'a kern_scheme) res" where
  "typed_line str [] s = Inr (None, s)"
| "typed_line str (c # keys) s =
     rbind (sys_write 1 [c] s) (\<lambda>(_, s).
     if length str = 512 then Inl (Fault ''str_buf'')
     else if c = 0x0d then Inr (Some (str, keys), s) else typed_line (str @ [c]) keys s)"

lemma typed_line_shorter: "typed_line str keys s = Inr (Some (line, rest), t) \<Longrightarrow> length rest < length keys"
proof (induction str keys s rule: typed_line.induct)
  case (2 str c keys s)
  then show ?case by (auto simp: rbind_eq_Inr split: if_splits prod.splits intro: less_SucI)
qed simp

function cat_lines :: "int \<Rightarrow> byte list \<Rightarrow> byte list \<Rightarrow> 'a kern_scheme \<Rightarrow> (bool \<times> 'a kern_scheme) res" where
  "cat_lines fd word keys s =
     (case typed_line [] keys s of
        Inl e \<Rightarrow> Inl e
      | Inr (None, s) \<Rightarrow> Inr (False, s)
      | Inr (Some (line, keys'), s) \<Rightarrow>
          rbind (uprintf newline [] s) (\<lambda>s.
          rbind (strcmp (line @ [0]) (word @ [0])) (\<lambda>d.
          if d = 0 then Inr (True, s)
          else if length line = 511 then Inl (Fault ''str_buf'')
          else
            rbind (strlen (line @ [0x0a, 0])) (\<lambda>n.
            rbind (sys_write fd (take n (line @ [0x0a, 0])) s) (\<lambda>(_, s). cat_lines fd word keys' s)))))"
  by pat_completeness auto
termination
  by (relation "measure (\<lambda>(fd, word, keys, s). length keys)") (auto dest: typed_line_shorter)

declare cat_lines.simps [simp del]

text \<open>\<open>False\<close>: the program waits for a key.\<close>

definition cat_input_file :: "byte list \<Rightarrow> byte list \<Rightarrow> byte list \<Rightarrow> 'a kern_scheme \<Rightarrow> (bool \<times> int \<times> 'a kern_scheme) res" where
  "cat_input_file pathname word keys s =
     rbind (cat_open pathname s) (\<lambda>(fd, s).
     if fd = -1 then Inr (True, -1, s)
     else
       rbind (cat_lines fd word keys s) (\<lambda>(ended, s).
       if ended then rbind (sys_close fd s) (\<lambda>(_, s). Inr (True, 0, s)) else Inr (False, 0, s)))"

text \<open>Without a file name the keys are echoed up to the return key.\<close>

fun cat_input :: "byte list \<Rightarrow> 'a kern_scheme \<Rightarrow> (bool \<times> 'a kern_scheme) res" where
  "cat_input [] s = Inr (False, s)"
| "cat_input (c # keys) s =
     (let c = (if c = 0x0d then 0x0a else c) in
      rbind (sys_write 1 [c] s) (\<lambda>(_, s). if c = 0x0a then Inr (True, s) else cat_input keys s))"

definition cat_main :: "(nat \<Rightarrow> byte) \<Rightarrow> byte list \<Rightarrow> byte list list \<Rightarrow> 'a kern_scheme \<Rightarrow> (bool \<times> int \<times> 'a kern_scheme) res" where
  "cat_main junk keys argv s =
     (if length argv = 1 then rbind (cat_input keys s) (\<lambda>(ended, s). Inr (ended, 0, s))
      else if length argv = 2 then rbind (cat_read_file junk (argv ! 1) s) (\<lambda>r. Inr (True, r))
      else if length argv = 3 then cat_input_file (argv ! 1) (argv ! 2) keys s
      else rbind (cat_write_file (argv ! 1) (drop 2 argv) s) (\<lambda>r. Inr (True, r)))"

section \<open>What goes wrong\<close>

lemma strlen_terminated: "0 \<notin> set a \<Longrightarrow> strlen (a @ 0 # r) = Inr (length a)"
  by (induction a) auto

lemma strlen_unterminated: "0 \<notin> set a \<Longrightarrow> strlen a = Inl (Fault ''str'')"
  by (induction a) auto

text \<open>The buffer for an argument has no room for the final zero that \<^verbatim>\<open>sprintf\<close> writes behind the new line.\<close>

lemma cat_write_overflows:
  assumes "0 \<notin> set a"
  shows "cat_write_args fd (a # as) s = Inl (Fault ''buf'')"
proof -
  have f: "chars (CHR ''%'' # CHR ''s'' # newline) = [0x25, 0x73, 0x0a]" by code_simp
  show ?thesis using strlen_terminated [OF assms, of "[]"] by (simp add: sprintf_def f cstring_def)
qed

text \<open>The contents of a file without a zero byte are printed as a string that has no end.\<close>

lemma cat_read_unterminated:
  assumes "sys_stat path s = Inr (Some st, s1)" "sys_open path 0 s1 = Inr (fd, s2)" "fd \<noteq> -1"
    "sys_read fd (unat (st_size st)) s2 = Inr ((ret, bs, park), s3)" "length bs = unat (st_size st)" "0 \<notin> set bs"
  shows "cat_read_file junk path s = Inl (Fault ''str'')"
proof -
  have f: "chars ''%s'' = [0x25, 0x73]" by code_simp
  show ?thesis using assms strlen_unterminated [OF assms(6)] by (simp add: cat_read_file_def uprintf_def printf_def f)
qed

text \<open>\<^verbatim>\<open>-l\<close> behind another argument: that argument is not listed, as \<^verbatim>\<open>argidx\<close> is 1.\<close>

lemma ls_skips_first:
  assumes "strcmp [0x2d, 0x6c, 0] (a @ [0]) = Inr d" "d \<noteq> 0" "sys_stat a s = Inr (Some st, t)"
  shows "ls_stats 1 [a, [0x2d, 0x6c]] 0 [f1, f2] s = Inr (1, [st, f2], t)"
    "ls_lines 1 [a, [0x2d, 0x6c]] 1 [st, f2] t = ls_lines 2 [[0x2d, 0x6c]] 1 [st, f2] t"
proof -
  have "strcmp [0x2d, 0x6c, 0] ([0x2d, 0x6c] @ [0]) = Inr 0" by simp
  then show "ls_stats 1 [a, [0x2d, 0x6c]] 0 [f1, f2] s = Inr (1, [st, f2], t)" using assms by (simp del: strcmp.simps)
  show "ls_lines 1 [a, [0x2d, 0x6c]] 1 [st, f2] t = ls_lines 2 [[0x2d, 0x6c]] 1 [st, f2] t" by (simp add: Let_def numeral_2_eq_2)
qed

end
