(* ===== verification/Game2048.thy ===== *)
theory Game2048
  imports Stdio
begin

text \<open>
  The game 2048 (\<^verbatim>\<open>command/2048.c\<close>). The grid is a list of 16 integers, 1 standing for a space; doubling past the range
  of \<^verbatim>\<open>int\<close> is a fault. The moves work in place on memory that is longer than a row: \<^verbatim>\<open>rmv\<close> reads one integer
  behind the row it shifts, which for the last row lies behind the grid, so a model of a grid in memory
  is a list of 17 integers. The keys, the tick counter and what the stack held before are arguments.
\<close>

definition ROW :: nat where "ROW = 4"
definition COL :: nat where "COL = 4"

type_synonym grid = "int list"

datatype dire = LEFT | DOWN | UP | RIGHT | QUIT

section \<open>Cells\<close>

definition getcnt :: "grid \<Rightarrow> int \<Rightarrow> nat" where
  "getcnt grid val = length (filter (\<lambda>(i, j). grid ! (i * ROW + j) = val) (List.product [0..<ROW] [0..<COL]))"

text \<open>Keys that mean nothing are skipped; \<open>None\<close>: the program waits for another key.\<close>

fun input :: "byte list \<Rightarrow> (dire \<times> byte list) option" where
  "input [] = None"
| "input (c # keys) =
     (if c = 0x68 then Some (LEFT, keys) else if c = 0x6a then Some (DOWN, keys) else if c = 0x6b then Some (UP, keys)
      else if c = 0x6c then Some (RIGHT, keys) else if c = 0x71 then Some (QUIT, keys) else input keys)"

text \<open>\<^verbatim>\<open>n *= 2\<close> of an \<^verbatim>\<open>int\<close>.\<close>

definition twice :: "int \<Rightarrow> int res" where
  "twice n = (if - (2 ^ 31) \<le> 2 * n \<and> 2 * n < 2 ^ 31 then Inr (2 * n) else Inl (Fault ''overflow''))"

function num2idx_from :: "int \<Rightarrow> nat \<Rightarrow> int \<Rightarrow> nat res" where
  "num2idx_from num idx n =
     (if n = num then Inr idx
      else if n \<le> 0 then Inl (Fault ''n'')
      else case twice n of Inl e \<Rightarrow> Inl e | Inr n \<Rightarrow> num2idx_from num (idx + 1) n)"
  by pat_completeness auto
termination by (relation "measure (\<lambda>(num, idx, n). nat (2 ^ 31 - n))") (auto simp: twice_def split: if_splits)

declare num2idx_from.simps [simp del]

definition num2idx :: "int \<Rightarrow> nat res" where
  "num2idx num = num2idx_from num 0 1"

definition property :: "byte list" where
  "property = [0b01111000, 0b01001101, 0b00101101, 0b00011110, 0b01101100, 0b00111100, 0b01011010, 0b01101000,
     0b00100100, 0b00011100, 0b01100100, 0b00111010]"

section \<open>Output\<close>

text \<open>
  One third of a cell: two bytes of colour, and six bytes that hold the number in the middle third. \<open>fill_spaces\<close> is
  the loop that replaces the zeros \<^verbatim>\<open>sprintf\<close> leaves.
\<close>

fun fill_spaces :: "byte list \<Rightarrow> nat \<Rightarrow> nat \<Rightarrow> byte list" where
  "fill_spaces mem buf 0 = mem"
| "fill_spaces mem buf (Suc n) =
     fill_spaces (if mem ! buf = 0 then mem[buf := 0x20] else mem) (buf + 1) n"

definition output_cell :: "grid \<Rightarrow> nat \<Rightarrow> nat \<Rightarrow> nat \<Rightarrow> byte list \<Rightarrow> nat \<Rightarrow> (byte list \<times> nat) res" where
  "output_cell grid i i2 j mem buf =
     (let cell = grid ! (i * ROW + j) in
      rbind (sprintf mem buf [0x1b] []) (\<lambda>(mem, _). let buf = buf + 1 in
      rbind (num2idx cell) (\<lambda>k.
      if length property \<le> k then Inl (Fault ''property'')
      else
        rbind (sprintf mem buf [0x25, 0x63] [Slot (ucast (property ! k))]) (\<lambda>(mem, _). let buf = buf + 1 in
        rbind (sprintf mem buf (replicate 6 0x20) []) (\<lambda>(mem, _).
        rbind (if i2 = 1 \<and> cell \<noteq> 1 then sprintf mem (buf + 1) [0x25, 0x64] [Slot (word_of_int cell)] else Inr (mem, 0)) (\<lambda>(mem, _).
        if length mem < buf + 6 then Inl (Fault ''buf'') else Inr (fill_spaces mem buf 6, buf + 6)))))))"

fun output_cells :: "grid \<Rightarrow> (nat \<times> nat \<times> nat) list \<Rightarrow> byte list \<Rightarrow> nat \<Rightarrow> (byte list \<times> nat) res" where
  "output_cells grid [] mem buf = Inr (mem, buf)"
| "output_cells grid ((i, i2, j) # cs) mem buf =
     rbind (output_cell grid i i2 j mem buf) (\<lambda>(mem, buf).
     rbind (if j = COL - 1 then rbind (sprintf mem buf [0x0a] []) (\<lambda>(mem, _). Inr (mem, buf + 1)) else Inr (mem, buf)) (\<lambda>(mem, buf).
     output_cells grid cs mem buf))"

definition output_grid :: "grid \<Rightarrow> byte list \<Rightarrow> byte list res" where
  "output_grid grid mem =
     rbind (output_cells grid (List.product [0..<ROW] (List.product [0..<3] [0..<COL])) mem 0) (\<lambda>(mem, _). Inr mem)"

section \<open>Random tiles\<close>

definition rand :: "u32 \<Rightarrow> u32" where
  "rand seed = (seed * 6807) mod 2147483647"

text \<open>The loop of \<^verbatim>\<open>badd\<close>: space number \<open>random\<close> becomes \<open>v\<close>, which is drawn when it is met.\<close>

fun badd_loop :: "grid \<Rightarrow> nat \<Rightarrow> nat \<Rightarrow> int \<Rightarrow> grid" where
  "badd_loop [] idx random v = []"
| "badd_loop (c # cs) idx random v =
     (if c = 1 then if idx = random then v # cs else c # badd_loop cs (idx + 1) random v
      else c # badd_loop cs idx random v)"

definition badd :: "u64 \<Rightarrow> grid \<Rightarrow> int \<times> grid" where
  "badd ticks grid =
     (let space_var = getcnt grid 1 in
      if space_var = 0 then (-1, grid)
      else
        let seed = rand (ucast ticks); random = unat (seed mod of_nat space_var) in
        (0, badd_loop grid 0 random (uint (2 * (rand seed mod 2 + 1)))))"

section \<open>Moves\<close>

function rmv_loop :: "int list \<Rightarrow> nat \<Rightarrow> nat \<Rightarrow> nat \<Rightarrow> int list res" where
  "rmv_loop mem arr idx len =
     (if length mem \<le> arr + idx + 1 then Inl (Fault ''grid'')
      else
        let mem = mem[arr + idx := mem ! (arr + idx + 1)] in
        if idx + 1 \<noteq> len then rmv_loop mem arr (idx + 1) len else Inr mem)"
  by pat_completeness auto
termination by (relation "measure (\<lambda>(mem, arr, idx, len). length mem - (arr + idx))") auto

declare rmv_loop.simps [simp del]

definition rmv :: "int list \<Rightarrow> nat \<Rightarrow> nat \<Rightarrow> nat \<Rightarrow> int list res" where
  "rmv mem arr idx len = rbind (rmv_loop mem arr idx len) (\<lambda>mem. Inr (mem[arr + len - 1 := 1]))"

text \<open>The two loops of \<^verbatim>\<open>mvleft\<close> over a row: spaces are removed from the right, then equal neighbours merge from the left.\<close>

fun rmv_spaces :: "int list \<Rightarrow> nat \<Rightarrow> nat \<Rightarrow> nat \<Rightarrow> int list res" where
  "rmv_spaces mem arr col 0 = Inr mem"
| "rmv_spaces mem arr col (Suc i) =
     rbind (if mem ! (arr + i) = 1 then rmv mem arr i col else Inr mem) (\<lambda>mem. rmv_spaces mem arr col i)"

function merge_cells :: "int list \<Rightarrow> nat \<Rightarrow> nat \<Rightarrow> nat \<Rightarrow> int list res" where
  "merge_cells mem arr col i =
     (if col - 1 \<le> i then Inr mem
      else
        rbind (if mem ! (arr + i) = mem ! (arr + i + 1) \<and> mem ! (arr + i) \<noteq> 1 then
            rbind (twice (mem ! (arr + i))) (\<lambda>v. rmv (mem[arr + i := v]) arr (i + 1) col)
          else Inr mem) (\<lambda>mem.
        merge_cells mem arr col (i + 1)))"
  by pat_completeness auto
termination by (relation "measure (\<lambda>(mem, arr, col, i). col - i)") auto

declare merge_cells.simps [simp del]

fun mvleft :: "int list \<Rightarrow> nat \<Rightarrow> nat \<Rightarrow> nat \<Rightarrow> int list res" where
  "mvleft mem arr col 0 = Inr mem"
| "mvleft mem arr col (Suc row) =
     rbind (rmv_spaces mem arr col col) (\<lambda>mem. rbind (merge_cells mem arr col 0) (\<lambda>mem. mvleft mem (arr + col) col row))"

definition trans_cells :: "int list \<Rightarrow> int list \<Rightarrow> nat \<Rightarrow> nat \<Rightarrow> int list" where
  "trans_cells dst src row col =
     foldl (\<lambda>dst (i, j). dst[i * col + j := src ! (j * row + i)]) dst (List.product [0..<col] [0..<row])"

definition tover :: "int list \<Rightarrow> int list \<Rightarrow> nat \<Rightarrow> nat \<Rightarrow> int list" where
  "tover dst src row col =
     foldl (\<lambda>dst (i, j). dst[i * row + j := src ! (i * row + col - 1 - j)]) dst (List.product [0..<row] [0..<col])"

text \<open>
  The grid of \<^verbatim>\<open>main\<close> is followed by an integer that belongs to somebody else, and so are the local arrays, whose
  first contents are what the stack holds.
\<close>

definition pleft :: "int \<Rightarrow> grid \<Rightarrow> grid res" where
  "pleft behind grid = rbind (mvleft (grid @ [behind]) 0 COL ROW) (\<lambda>mem. Inr (take (ROW * COL) mem))"

definition pup :: "int list \<Rightarrow> grid \<Rightarrow> grid res" where
  "pup gtmp grid = rbind (mvleft (trans_cells gtmp grid ROW COL) 0 ROW COL) (\<lambda>gtmp. Inr (trans_cells grid gtmp COL ROW))"

definition pright :: "int list \<Rightarrow> grid \<Rightarrow> grid res" where
  "pright gtmp grid = rbind (mvleft (tover gtmp grid ROW COL) 0 COL ROW) (\<lambda>gtmp. Inr (tover grid gtmp ROW COL))"

definition pdown :: "int list \<Rightarrow> int list \<Rightarrow> grid \<Rightarrow> grid res" where
  "pdown gtmp1 gtmp2 grid =
     (let gtmp1 = trans_cells gtmp1 grid ROW COL in
      rbind (mvleft (tover gtmp2 gtmp1 COL ROW) 0 ROW COL) (\<lambda>gtmp2.
      Inr (trans_cells grid (tover gtmp1 gtmp2 COL ROW) COL ROW)))"

type_synonym stack = "int \<times> int list \<times> int list"

fun func :: "stack \<Rightarrow> dire \<Rightarrow> grid \<Rightarrow> grid res" where
  "func (behind, t1, t2) LEFT grid = pleft behind grid"
| "func (behind, t1, t2) DOWN grid = pdown t1 t2 grid"
| "func (behind, t1, t2) UP grid = pup t1 grid"
| "func (behind, t1, t2) RIGHT grid = pright t1 grid"
| "func st QUIT grid = Inl (Fault ''func'')"

section \<open>The game\<close>

datatype outcome = Game_over grid | You_win grid | Quit_game grid | Waiting_key grid

lemma input_shorter [termination_simp]: "input keys = Some (d, rest) \<Longrightarrow> length rest < length keys"
  by (induction keys) (auto split: if_splits intro: less_SucI)

text \<open>The loop of \<^verbatim>\<open>main\<close>; \<open>tick k\<close> is what call \<open>k\<close> of \<^verbatim>\<open>getticks\<close> returns and \<open>st k\<close> the stack in round \<open>k\<close>.\<close>

function play :: "(nat \<Rightarrow> u64) \<Rightarrow> (nat \<Rightarrow> stack) \<Rightarrow> nat \<Rightarrow> byte list \<Rightarrow> grid \<Rightarrow> byte list \<Rightarrow> outcome res" where
  "play tick st k keys grid buf =
     (let (ret, grid) = badd (tick k) grid in
      if ret \<noteq> 0 then Inr (Game_over grid)
      else
        rbind (output_grid grid buf) (\<lambda>buf.
        if getcnt grid 2048 \<noteq> 0 then Inr (You_win grid)
        else
          case input keys of
            None \<Rightarrow> Inr (Waiting_key grid)
          | Some (d, keys') \<Rightarrow>
              if d = QUIT then Inr (Quit_game grid) else rbind (func (st k) d grid) (\<lambda>grid. play tick st (k + 1) keys' grid buf)))"
  by pat_completeness auto
termination by (relation "measure (\<lambda>(tick, st, k, keys, grid, buf). length keys)") (auto dest: input_shorter)

declare play.simps [simp del]

definition main :: "(nat \<Rightarrow> u64) \<Rightarrow> (nat \<Rightarrow> stack) \<Rightarrow> byte list \<Rightarrow> outcome res" where
  "main tick st keys =
     play tick st 1 keys (snd (badd (tick 0) (replicate (ROW * COL) 1))) (replicate (COL * ROW * 7 * 6) 0)"

section \<open>A row is slid\<close>

lemma rmv_loop_shifts:
  assumes "length pre = arr" "length xs = idx" "length (xs @ x # ys) = len"
  shows "rmv_loop (pre @ xs @ x # ys @ e # post) arr idx len = Inr (pre @ xs @ ys @ [e, e] @ post)"
  using assms
proof (induction ys arbitrary: xs x idx)
  case Nil
  then show ?case by (subst rmv_loop.simps) (simp add: nth_append list_update_append)
next
  case (Cons y ys)
  have "rmv_loop (pre @ (xs @ [y]) @ y # ys @ e # post) arr (Suc idx) len = Inr (pre @ (xs @ [y]) @ ys @ [e, e] @ post)"
    using Cons.prems by (intro Cons.IH) simp_all
  then show ?case using Cons.prems by (subst rmv_loop.simps) (simp add: nth_append list_update_append Let_def)
qed

lemma rmv_removes:
  assumes "length pre = arr" "length xs = idx" "length (xs @ x # ys) = len"
  shows "rmv (pre @ xs @ x # ys @ e # post) arr idx len = Inr (pre @ xs @ ys @ 1 # e # post)"
proof -
  have "(pre @ xs @ ys @ e # e # post)[length pre + (length xs + length ys) := 1] = pre @ xs @ ys @ 1 # e # post"
    by (simp add: list_update_append)
  moreover have "arr + len - 1 = length pre + (length xs + length ys)" using assms by auto
  ultimately show ?thesis using rmv_loop_shifts [OF assms, of e post] by (simp add: rmv_def)
qed

lemma rmv_spaces_filters:
  assumes "length pre = arr" "length (xs @ ys) = col" "length xs = i"
  shows "rmv_spaces (pre @ xs @ ys @ e # post) arr col i =
    Inr (pre @ filter (\<lambda>c. c \<noteq> 1) xs @ ys @ replicate (count_list xs 1) 1 @ e # post)"
  using assms
proof (induction xs arbitrary: ys i rule: rev_induct)
  case Nil
  then show ?case by simp
next
  case (snoc x xs)
  from snoc.prems obtain j where j: "i = Suc j" "j = length xs" by simp
  have nth: "(pre @ xs @ x # ys @ e # post) ! (arr + j) = x" using snoc.prems(1) j(2) by (simp add: nth_append)
  show ?case
  proof (cases "x = 1")
    case True
    have "rmv (pre @ xs @ 1 # ys @ e # post) arr j col = Inr (pre @ xs @ (ys @ [1]) @ e # post)"
      using rmv_removes [OF snoc.prems(1) j(2) [symmetric], of 1 ys col e post] snoc.prems(2) by simp
    moreover have "rmv_spaces (pre @ xs @ (ys @ [1]) @ e # post) arr col j =
        Inr (pre @ filter (\<lambda>c. c \<noteq> 1) xs @ (ys @ [1]) @ replicate (count_list xs 1) 1 @ e # post)"
      by (rule snoc.IH) (use snoc.prems j in simp_all)
    ultimately show ?thesis using True j nth by (simp add: replicate_append_same [symmetric])
  next
    case False
    have "rmv_spaces (pre @ xs @ (x # ys) @ e # post) arr col j =
        Inr (pre @ filter (\<lambda>c. c \<noteq> 1) xs @ (x # ys) @ replicate (count_list xs 1) 1 @ e # post)"
      by (rule snoc.IH) (use snoc.prems j in simp_all)
    then show ?thesis using False j nth by simp
  qed
qed

text \<open>
  The reference: equal neighbours of a list without spaces merge pairwise from the left; a row is slid by dropping
  its spaces, merging, and filling up with spaces.
\<close>

fun merge :: "int list \<Rightarrow> int list" where
  "merge (x # y # r) = (if x = y then 2 * x # merge r else x # merge (y # r))"
| "merge xs = xs"

definition slide :: "int list \<Rightarrow> int list" where
  "slide row = (let m = merge (filter (\<lambda>c. c \<noteq> 1) row) in m @ replicate (length row - length m) 1)"

lemma length_merge [simp]: "length (merge xs) \<le> length xs"
  by (induction xs rule: merge.induct) auto

lemma length_slide [simp]: "length (slide row) = length row"
proof -
  have "length (merge (filter (\<lambda>c. c \<noteq> 1) row)) \<le> length row"
    by (rule order_trans [OF length_merge]) simp
  then show ?thesis by (simp add: slide_def Let_def)
qed

lemma merge_cells_end: "col - 1 \<le> i \<Longrightarrow> merge_cells mem arr col i = Inr mem"
  by (subst merge_cells.simps) simp

lemma merge_cells_spaces:
  assumes "length pre = arr" "length xs = i" "length (xs @ ys) = col" "set ys \<subseteq> {1}"
  shows "merge_cells (pre @ xs @ ys @ post) arr col i = Inr (pre @ xs @ ys @ post)"
  using assms
proof (induction ys arbitrary: xs i)
  case Nil
  then show ?case by (simp add: merge_cells_end)
next
  case (Cons y ys)
  have "merge_cells (pre @ (xs @ [y]) @ ys @ post) arr col (Suc i) = Inr (pre @ (xs @ [y]) @ ys @ post)"
    by (rule Cons.IH) (use Cons.prems in simp_all)
  moreover have "(pre @ xs @ y # ys @ post) ! (arr + i) = 1" using Cons.prems by (simp add: nth_append)
  ultimately show ?case by (subst merge_cells.simps) (simp add: rbind_def)
qed

lemma merge_cells_merges:
  assumes "length pre = arr" "length xs = i" "length (xs @ ws) + k = col" "1 \<notin> set ws" "\<forall>w \<in> set ws. \<bar>w\<bar> < 2 ^ 30"
  shows "merge_cells (pre @ xs @ ws @ replicate k 1 @ e # post) arr col i =
    Inr (pre @ xs @ merge ws @ replicate (k + length ws - length (merge ws)) 1 @ e # post)"
  using assms
proof (induction ws arbitrary: xs i k rule: merge.induct [case_names two none one])
  case (two x y r)
  have at: "(pre @ xs @ x # y # zs) ! (arr + i) = x" "(pre @ xs @ x # y # zs) ! (arr + i + 1) = y"
      "(pre @ xs @ x # y # zs)[arr + i := v] = pre @ xs @ v # y # zs" for zs v
    using two.prems(1,2) by (simp_all add: nth_append list_update_append)
  have go: "\<not> col - 1 \<le> i" using two.prems(2,3) by auto
  show ?case
  proof (cases "x = y")
    case True
    have tw: "twice x = Inr (2 * x)" using two.prems(5) by (auto simp: twice_def)
    have "rmv (pre @ (xs @ [2 * x]) @ y # (r @ replicate k 1) @ e # post) arr (i + 1) col =
        Inr (pre @ (xs @ [2 * x]) @ (r @ replicate k 1) @ 1 # e # post)"
      by (rule rmv_removes) (use two.prems in simp_all)
    moreover have "merge_cells (pre @ (xs @ [2 * x]) @ r @ replicate (Suc k) 1 @ e # post) arr col (i + 1) =
        Inr (pre @ (xs @ [2 * x]) @ merge r @ replicate (Suc k + length r - length (merge r)) 1 @ e # post)"
      by (rule two.IH(1) [OF True]) (use two.prems in simp_all)
    moreover have "Suc k + length r - length (merge r) = k + length (x # y # r) - length (2 * x # merge r)" by simp
    ultimately show ?thesis
      using True tw go at two.prems(4) by (subst merge_cells.simps) (simp add: replicate_append_same [symmetric])
  next
    case False
    have "merge_cells (pre @ (xs @ [x]) @ (y # r) @ replicate k 1 @ e # post) arr col (i + 1) =
        Inr (pre @ (xs @ [x]) @ merge (y # r) @ replicate (k + length (y # r) - length (merge (y # r))) 1 @ e # post)"
      by (rule two.IH(2) [OF False]) (use two.prems in simp_all)
    then show ?thesis using False go at by (subst merge_cells.simps) simp
  qed
next
  case none
  then show ?case using merge_cells_spaces [of pre arr xs i "replicate k 1" col "e # post"] by (auto simp: set_replicate_conv_if)
next
  case (one v)
  show ?case
  proof (cases k)
    case 0
    then show ?thesis using one by (simp add: merge_cells_end)
  next
    case (Suc n)
    have "merge_cells (pre @ (xs @ [v]) @ replicate k 1 @ e # post) arr col (i + 1) = Inr (pre @ (xs @ [v]) @ replicate k 1 @ e # post)"
      by (rule merge_cells_spaces) (use one in \<open>auto\<close>)
    moreover have "(pre @ xs @ v # replicate k 1 @ e # post) ! (arr + i) = v" "(pre @ xs @ v # replicate k 1 @ e # post) ! (arr + i + 1) = 1"
      using one Suc by (simp_all add: nth_append)
    moreover have "\<not> col - 1 \<le> i" using one Suc by auto
    ultimately show ?thesis using one(4) by (subst merge_cells.simps) simp
  qed
qed

lemma row_slides:
  assumes "length pre = arr" "length row = col" "\<forall>c \<in> set row. \<bar>c\<bar> < 2 ^ 30"
  shows "rbind (rmv_spaces (pre @ row @ e # post) arr col col) (\<lambda>mem. merge_cells mem arr col 0) = Inr (pre @ slide row @ e # post)"
proof -
  have len: "length row = length (filter (\<lambda>c. c \<noteq> 1) row) + count_list row 1"
    by (induction row) auto
  have "merge_cells (pre @ [] @ filter (\<lambda>c. c \<noteq> 1) row @ replicate (count_list row 1) 1 @ e # post) arr col 0 = Inr (pre @ [] @ slide row @ e # post)"
    unfolding slide_def Let_def append_assoc
    by (subst merge_cells_merges) (use assms len in auto)
  then show ?thesis using rmv_spaces_filters [of pre arr row "[]" col col e post] assms by simp
qed

lemma mvleft_slides:
  assumes "length pre = arr" "\<forall>r \<in> set rows. length r = col \<and> (\<forall>c \<in> set r. \<bar>c\<bar> < 2 ^ 30)"
  shows "mvleft (pre @ concat rows @ e # post) arr col (length rows) = Inr (pre @ concat (map slide rows) @ e # post)"
  using assms
proof (induction rows arbitrary: pre arr)
  case Nil
  then show ?case by simp
next
  case (Cons r rows)
  obtain d ds where d: "concat rows @ e # post = d # ds" by (cases "concat rows") auto
  have "mvleft ((pre @ slide r) @ concat rows @ e # post) (arr + col) col (length rows) = Inr ((pre @ slide r) @ concat (map slide rows) @ e # post)"
    by (rule Cons.IH) (use Cons.prems in simp_all)
  moreover have "rbind (rmv_spaces (pre @ r @ d # ds) arr col col) (\<lambda>mem. merge_cells mem arr col 0) = Inr (pre @ slide r @ d # ds)"
    by (rule row_slides) (use Cons.prems in simp_all)
  ultimately show ?case by (simp add: d rbind_assoc [symmetric])
qed

section \<open>The moves\<close>

text \<open>Line \<open>i\<close> of a grid, seen in the direction of a move: it begins where the tiles gather.\<close>

fun line :: "dire \<Rightarrow> grid \<Rightarrow> nat \<Rightarrow> int list" where
  "line LEFT g i = map (\<lambda>j. g ! (4 * i + j)) [0..<4]"
| "line RIGHT g i = map (\<lambda>j. g ! (4 * i + (3 - j))) [0..<4]"
| "line UP g i = map (\<lambda>j. g ! (4 * j + i)) [0..<4]"
| "line DOWN g i = map (\<lambda>j. g ! (4 * (3 - j) + i)) [0..<4]"
| "line QUIT g i = []"

lemma list_4: "length xs = 4 \<Longrightarrow> (\<And>a b c d. xs = [a, b, c, d] \<Longrightarrow> P) \<Longrightarrow> P"
  by (auto simp: numeral_eq_Suc length_Suc_conv)

lemma list_16:
  assumes "length (xs :: 'a list) = 16"
  obtains a b c d where "xs = concat [a, b, c, d]" "length a = 4" "length b = 4" "length c = 4" "length d = 4"
proof
  show "xs = concat [take 4 xs, take 4 (drop 4 xs), take 4 (drop 8 xs), drop 12 xs]"
    using append_take_drop_id [of 4 xs] append_take_drop_id [of 4 "drop 4 xs"] append_take_drop_id [of 4 "drop 8 xs"] by simp
qed (use assms in simp_all)

lemma upt_4: "[0..<4] = [0, 1, 2, 3 :: nat]"
  by (simp add: upt_rec)

lemma trans_4:
  assumes "length dst = 4" "length dst2 = 4" "length dst3 = 4" "length dst4 = 4"
  shows "trans_cells (dst @ dst2 @ dst3 @ dst4 @ rest) ([a, b, c, d] @ [e, f, g, h] @ [i, j, k, l] @ [m, n, p, q] @ zs) 4 4 =
    [a, e, i, m] @ [b, f, j, n] @ [c, g, k, p] @ [d, h, l, q] @ rest"
  using assms by (elim list_4) (simp add: trans_cells_def upt_4)

lemma tover_4:
  assumes "length dst = 4" "length dst2 = 4" "length dst3 = 4" "length dst4 = 4"
  shows "tover (dst @ dst2 @ dst3 @ dst4 @ rest) ([a, b, c, d] @ [e, f, g, h] @ [i, j, k, l] @ [m, n, p, q] @ zs) 4 4 =
    [d, c, b, a] @ [h, g, f, e] @ [l, k, j, i] @ [q, p, n, m] @ rest"
  using assms by (elim list_4) (simp add: tover_def upt_4)

lemma mvleft_4:
  assumes "length a = 4" "length b = 4" "length c = 4" "length d = 4" "\<forall>x \<in> set (a @ b @ c @ d). \<bar>x\<bar> < 2 ^ 30"
  shows "mvleft (a @ b @ c @ d @ e # post) 0 4 4 = Inr (slide a @ slide b @ slide c @ slide d @ e # post)"
proof -
  have "mvleft ([] @ concat [a, b, c, d] @ e # post) 0 4 (length [a, b, c, d]) = Inr ([] @ concat (map slide [a, b, c, d]) @ e # post)"
    by (rule mvleft_slides) (use assms in auto)
  then show ?thesis by (simp add: numeral_eq_Suc)
qed

definition moved :: "dire \<Rightarrow> grid \<Rightarrow> grid \<Rightarrow> bool" where
  "moved d g g' \<longleftrightarrow> length g' = 16 \<and> (\<forall>i < 4. line d g' i = slide (line d g i))"

definition stack_ok :: "stack \<Rightarrow> bool" where
  "stack_ok st \<longleftrightarrow> length (fst (snd st)) = 17 \<and> length (snd (snd st)) = 17"

lemma slide_4: "length r = 4 \<Longrightarrow> (\<And>a b c d. slide r = [a, b, c, d] \<Longrightarrow> P) \<Longrightarrow> P"
  by (rule list_4 [of "slide r"]) simp_all

lemma list_17:
  assumes "length (xs :: 'a list) = 17"
  obtains a b c d e where "xs = a @ b @ c @ d @ [e]" "length a = 4" "length b = 4" "length c = 4" "length d = 4"
proof -
  obtain a b c d where x: "take 16 xs = concat [a, b, c, d]" "length a = 4" "length b = 4" "length c = 4" "length d = 4"
    by (rule list_16 [of "take 16 xs"]) (use assms in simp_all)
  have "length (drop 16 xs) = 1" using assms by simp
  then obtain e where "drop 16 xs = [e]" by (cases "drop 16 xs") auto
  with x(1) append_take_drop_id [of 16 xs] have "xs = a @ b @ c @ d @ [e]" by simp
  then show ?thesis using x that by blast
qed

lemma less_4: "(\<forall>i < 4. P i) \<longleftrightarrow> P 0 \<and> P 1 \<and> P 2 \<and> P (3 :: nat)"
  by (auto simp: numeral_eq_Suc less_Suc_eq)

text \<open>A grid of four rows given by their cells, with its lines in each direction.\<close>

lemma line_rows:
  fixes a b c d e f g h i j k l m n p q :: int
  defines "G \<equiv> [a, b, c, d] @ [e, f, g, h] @ [i, j, k, l] @ [m, n, p, q]"
  shows "line LEFT G 0 = [a, b, c, d]" "line LEFT G 1 = [e, f, g, h]" "line LEFT G 2 = [i, j, k, l]" "line LEFT G 3 = [m, n, p, q]"
    and "line RIGHT G 0 = [d, c, b, a]" "line RIGHT G 1 = [h, g, f, e]" "line RIGHT G 2 = [l, k, j, i]" "line RIGHT G 3 = [q, p, n, m]"
    and "line UP G 0 = [a, e, i, m]" "line UP G 1 = [b, f, j, n]" "line UP G 2 = [c, g, k, p]" "line UP G 3 = [d, h, l, q]"
    and "line DOWN G 0 = [m, i, e, a]" "line DOWN G 1 = [n, j, f, b]" "line DOWN G 2 = [p, k, g, c]" "line DOWN G 3 = [q, l, h, d]"
  by (simp_all add: G_def upt_4)

lemma ROW_COL [simp]: "ROW = 4" "COL = 4"
  by (simp_all add: ROW_def COL_def)

lemma square:
  assumes "length (xs :: 'a list) = 16"
  obtains a b c d e f g h i j k l m n p q where "xs = [a, b, c, d] @ [e, f, g, h] @ [i, j, k, l] @ [m, n, p, q]"
proof -
  obtain A B C D where x: "xs = concat [A, B, C, D]" "length A = 4" "length B = 4" "length C = 4" "length D = 4"
    using assms by (rule list_16)
  show ?thesis using x(2-5) by (elim list_4) (rule that, simp add: x(1))
qed

lemma slid_square:
  assumes "\<forall>x \<in> set ([a, b, c, d] @ [e, f, g, h] @ [i, j, k, l] @ [m, n, p, q]). \<bar>x :: int\<bar> < 2 ^ 30"
  obtains a' b' c' d' e' f' g' h' i' j' k' l' m' n' p' q' where
    "slide [a, b, c, d] = [a', b', c', d']" "slide [e, f, g, h] = [e', f', g', h']"
    "slide [i, j, k, l] = [i', j', k', l']" "slide [m, n, p, q] = [m', n', p', q']"
    "\<forall>z. mvleft ([a, b, c, d] @ [e, f, g, h] @ [i, j, k, l] @ [m, n, p, q] @ [z]) 0 4 4 =
      Inr ([a', b', c', d'] @ [e', f', g', h'] @ [i', j', k', l'] @ [m', n', p', q'] @ [z])"
proof -
  have len: "length [w, x, y, z] = 4" for w x y z :: int by simp
  note mv = mvleft_4 [OF len len len len assms]
  note s = slide_4 [OF len]
  obtain a' b' c' d' where 1: "slide [a, b, c, d] = [a', b', c', d']" by (rule s)
  obtain e' f' g' h' where 2: "slide [e, f, g, h] = [e', f', g', h']" by (rule s)
  obtain i' j' k' l' where 3: "slide [i, j, k, l] = [i', j', k', l']" by (rule s)
  obtain m' n' p' q' where 4: "slide [m, n, p, q] = [m', n', p', q']" by (rule s)
  show ?thesis by (rule that [OF 1 2 3 4]) (use mv [of _ "[]", unfolded 1 2 3 4] in simp)
qed

lemma left_slides:
  assumes "length g = 16" "\<forall>x \<in> set g. \<bar>x\<bar> < 2 ^ 30"
  shows "\<exists>g'. pleft behind g = Inr g' \<and> moved LEFT g g'"
proof -
  obtain a b c d e f g0 h i j k l m n p q where g: "g = [a, b, c, d] @ [e, f, g0, h] @ [i, j, k, l] @ [m, n, p, q]"
    using assms(1) by (rule square)
  have bound: "\<forall>x \<in> set ([a, b, c, d] @ [e, f, g0, h] @ [i, j, k, l] @ [m, n, p, q]). \<bar>x\<bar> < 2 ^ 30" using assms(2) by (simp add: g)
  obtain a' b' c' d' e' f' g' h' i' j' k' l' m' n' p' q' where s:
    "slide [a, b, c, d] = [a', b', c', d']" "slide [e, f, g0, h] = [e', f', g', h']"
    "slide [i, j, k, l] = [i', j', k', l']" "slide [m, n, p, q] = [m', n', p', q']"
    and mv: "\<forall>z. mvleft ([a, b, c, d] @ [e, f, g0, h] @ [i, j, k, l] @ [m, n, p, q] @ [z]) 0 4 4 =
      Inr ([a', b', c', d'] @ [e', f', g', h'] @ [i', j', k', l'] @ [m', n', p', q'] @ [z])"
    by (rule slid_square [OF bound])
  let ?g' = "[a', b', c', d'] @ [e', f', g', h'] @ [i', j', k', l'] @ [m', n', p', q']"
  have "moved LEFT g ?g'" unfolding g moved_def less_4 line_rows s by simp
  moreover have "pleft behind g = Inr ?g'" using mv by (simp add: pleft_def g)
  ultimately show ?thesis by blast
qed

lemma right_slides:
  assumes "length g = 16" "\<forall>x \<in> set g. \<bar>x\<bar> < 2 ^ 30" "length gtmp = 17"
  shows "\<exists>g'. pright gtmp g = Inr g' \<and> moved RIGHT g g'"
proof -
  obtain a b c d e f g0 h i j k l m n p q where g: "g = [a, b, c, d] @ [e, f, g0, h] @ [i, j, k, l] @ [m, n, p, q]"
    using assms(1) by (rule square)
  have bound: "\<forall>x \<in> set ([d, c, b, a] @ [h, g0, f, e] @ [l, k, j, i] @ [q, p, n, m]). \<bar>x\<bar> < 2 ^ 30" using assms(2) by (simp add: g)
  obtain a' b' c' d' e' f' g' h' i' j' k' l' m' n' p' q' where s:
    "slide [d, c, b, a] = [a', b', c', d']" "slide [h, g0, f, e] = [e', f', g', h']"
    "slide [l, k, j, i] = [i', j', k', l']" "slide [q, p, n, m] = [m', n', p', q']"
    and mv: "\<forall>z. mvleft ([d, c, b, a] @ [h, g0, f, e] @ [l, k, j, i] @ [q, p, n, m] @ [z]) 0 4 4 =
      Inr ([a', b', c', d'] @ [e', f', g', h'] @ [i', j', k', l'] @ [m', n', p', q'] @ [z])"
    by (rule slid_square [OF bound])
  obtain t1 t2 t3 t4 z where t: "gtmp = t1 @ t2 @ t3 @ t4 @ [z]" "length t1 = 4" "length t2 = 4" "length t3 = 4" "length t4 = 4"
    using assms(3) by (rule list_17)
  note tov = tover_4 [OF t(2-5), where zs = "[]", unfolded append_Nil2] tover_4 [where rest = "[]", unfolded append_Nil2]
  let ?g' = "[d', c', b', a'] @ [h', g', f', e'] @ [l', k', j', i'] @ [q', p', n', m']"
  have "moved RIGHT g ?g'" unfolding g moved_def less_4 line_rows s by simp
  moreover have "pright gtmp g = Inr ?g'"
    unfolding pright_def ROW_COL t(1) g tov mv [rule_format] rbind_Inr by (subst tov) simp_all
  ultimately show ?thesis by blast
qed

lemma up_slides:
  assumes "length g = 16" "\<forall>x \<in> set g. \<bar>x\<bar> < 2 ^ 30" "length gtmp = 17"
  shows "\<exists>g'. pup gtmp g = Inr g' \<and> moved UP g g'"
proof -
  obtain a b c d e f g0 h i j k l m n p q where g: "g = [a, b, c, d] @ [e, f, g0, h] @ [i, j, k, l] @ [m, n, p, q]"
    using assms(1) by (rule square)
  have bound: "\<forall>x \<in> set ([a, e, i, m] @ [b, f, j, n] @ [c, g0, k, p] @ [d, h, l, q]). \<bar>x\<bar> < 2 ^ 30" using assms(2) by (simp add: g)
  obtain a' b' c' d' e' f' g' h' i' j' k' l' m' n' p' q' where s:
    "slide [a, e, i, m] = [a', b', c', d']" "slide [b, f, j, n] = [e', f', g', h']"
    "slide [c, g0, k, p] = [i', j', k', l']" "slide [d, h, l, q] = [m', n', p', q']"
    and mv: "\<forall>z. mvleft ([a, e, i, m] @ [b, f, j, n] @ [c, g0, k, p] @ [d, h, l, q] @ [z]) 0 4 4 =
      Inr ([a', b', c', d'] @ [e', f', g', h'] @ [i', j', k', l'] @ [m', n', p', q'] @ [z])"
    by (rule slid_square [OF bound])
  obtain t1 t2 t3 t4 z where t: "gtmp = t1 @ t2 @ t3 @ t4 @ [z]" "length t1 = 4" "length t2 = 4" "length t3 = 4" "length t4 = 4"
    using assms(3) by (rule list_17)
  note tr = trans_4 [OF t(2-5), where zs = "[]", unfolded append_Nil2] trans_4 [where rest = "[]", unfolded append_Nil2]
  let ?g' = "[a', e', i', m'] @ [b', f', j', n'] @ [c', g', k', p'] @ [d', h', l', q']"
  have "moved UP g ?g'" unfolding g moved_def less_4 line_rows s by simp
  moreover have "pup gtmp g = Inr ?g'"
    unfolding pup_def ROW_COL t(1) g tr mv [rule_format] rbind_Inr by (subst tr) simp_all
  ultimately show ?thesis by blast
qed

lemma down_slides:
  assumes "length g = 16" "\<forall>x \<in> set g. \<bar>x\<bar> < 2 ^ 30" "length gtmp1 = 17" "length gtmp2 = 17"
  shows "\<exists>g'. pdown gtmp1 gtmp2 g = Inr g' \<and> moved DOWN g g'"
proof -
  obtain a b c d e f g0 h i j k l m n p q where g: "g = [a, b, c, d] @ [e, f, g0, h] @ [i, j, k, l] @ [m, n, p, q]"
    using assms(1) by (rule square)
  have bound: "\<forall>x \<in> set ([m, i, e, a] @ [n, j, f, b] @ [p, k, g0, c] @ [q, l, h, d]). \<bar>x\<bar> < 2 ^ 30" using assms(2) by (simp add: g)
  obtain a' b' c' d' e' f' g' h' i' j' k' l' m' n' p' q' where s:
    "slide [m, i, e, a] = [a', b', c', d']" "slide [n, j, f, b] = [e', f', g', h']"
    "slide [p, k, g0, c] = [i', j', k', l']" "slide [q, l, h, d] = [m', n', p', q']"
    and mv: "\<forall>z. mvleft ([m, i, e, a] @ [n, j, f, b] @ [p, k, g0, c] @ [q, l, h, d] @ [z]) 0 4 4 =
      Inr ([a', b', c', d'] @ [e', f', g', h'] @ [i', j', k', l'] @ [m', n', p', q'] @ [z])"
    by (rule slid_square [OF bound])
  obtain t1 t2 t3 t4 z where t: "gtmp1 = t1 @ t2 @ t3 @ t4 @ [z]" "length t1 = 4" "length t2 = 4" "length t3 = 4" "length t4 = 4"
    using assms(3) by (rule list_17)
  obtain u1 u2 u3 u4 y where u: "gtmp2 = u1 @ u2 @ u3 @ u4 @ [y]" "length u1 = 4" "length u2 = 4" "length u3 = 4" "length u4 = 4"
    using assms(4) by (rule list_17)
  have len: "length [w, x, y, z] = 4" for w x y z :: int by simp
  note steps = trans_4 [OF t(2-5), where zs = "[]", unfolded append_Nil2] tover_4 [OF u(2-5)] tover_4 [OF len len len len]
    trans_4 [OF len len len len, where rest = "[]", unfolded append_Nil2]
  let ?g' = "[d', h', l', q'] @ [c', g', k', p'] @ [b', f', j', n'] @ [a', e', i', m']"
  have "moved DOWN g ?g'" unfolding g moved_def less_4 line_rows s by simp
  moreover have "pdown gtmp1 gtmp2 g = Inr ?g'"
    unfolding pdown_def ROW_COL t(1) u(1) g Let_def steps mv [rule_format] rbind_Inr by (rule refl)
  ultimately show ?thesis by blast
qed

lemma moves_slide:
  assumes "length g = 16" "\<forall>x \<in> set g. \<bar>x\<bar> < 2 ^ 30" "stack_ok st" "d \<noteq> QUIT"
  shows "\<exists>g'. func st d g = Inr g' \<and> moved d g g'"
proof -
  obtain z t1 t2 where st: "st = (z, t1, t2)" by (cases st)
  have t: "length t1 = 17" "length t2 = 17" using assms(3) by (simp_all add: stack_ok_def st)
  show ?thesis
    using left_slides [OF assms(1,2)] right_slides [OF assms(1,2) t(1)] up_slides [OF assms(1,2) t(1)] down_slides [OF assms(1,2) t] assms(4)
    by (cases d) (simp_all add: st)
qed

text \<open>
  C34. A move slides every line: seen in the direction of the move, each row or column of the new grid is the old one
  with its spaces dropped, equal neighbours merged pairwise from the wall, and filled up with spaces; what lies
  behind the grid and in the local arrays does not matter.
\<close>
theorem moves_slide_lines:
  assumes "length g = 16" "\<forall>x \<in> set g. \<bar>x\<bar> < 2 ^ 30" "stack_ok st" "d \<noteq> QUIT"
  shows "\<exists>g'. func st d g = Inr g' \<and> length g' = 16 \<and> (\<forall>i < 4. line d g' i = slide (line d g i))"
  using moves_slide [OF assms] unfolding moved_def .

theorem moves_slide_lines_witness:
  "\<exists>g'. func (7, replicate 17 3, replicate 17 5) UP [2, 1, 4, 1, 2, 1, 4, 1, 2, 1, 8, 1, 2, 1, 16, 4] = Inr g' \<and>
    line UP g' 0 = [4, 4, 1, 1] \<and> line UP g' 2 = [8, 8, 16, 1] \<and> line UP g' 3 = [4, 1, 1, 1]"
proof -
  let ?g = "[2, 1, 4, 1, 2, 1, 4, 1, 2, 1, 8, 1, 2, 1, 16, 4] :: int list"
  obtain g' where g': "func (7, replicate 17 3, replicate 17 5) UP ?g = Inr g'" "\<forall>i < 4. line UP g' i = slide (line UP ?g i)"
    using moves_slide_lines [of ?g "(7, replicate 17 3, replicate 17 5)" UP] by (auto simp: stack_ok_def simp del: line.simps func.simps)
  have "slide (line UP ?g 0) = [4, 4, 1, 1]" "slide (line UP ?g 2) = [8, 8, 16, 1]" "slide (line UP ?g 3) = [4, 1, 1, 1]" by code_simp+
  then show ?thesis using g' by (metis zero_less_numeral num.distinct numeral_less_iff semiring_norm(76,78,81))
qed

section \<open>Tiles\<close>

text \<open>What a cell may hold: \<open>tiles n\<close> are the powers of two up to \<open>2\<^sup>n\<close>; 1 is the space.\<close>

definition tiles :: "nat \<Rightarrow> int set" where
  "tiles n = (\<lambda>k. 2 ^ k) ` {..n}"

lemma tilesI: "k \<le> n \<Longrightarrow> 2 ^ k \<in> tiles n"
  by (simp add: tiles_def)

lemma tiles_small [simp]: "1 \<in> tiles n" "2 \<in> tiles (Suc n)" "4 \<in> tiles (Suc (Suc n))"
  using tilesI [of 0 n] tilesI [of 1 "Suc n"] tilesI [of 2 "Suc (Suc n)"] by simp_all

lemma tiles_twice: "x \<in> tiles n \<Longrightarrow> 2 * x \<in> tiles (Suc n)"
  by (auto simp: tiles_def image_iff intro: bexI [where x = "Suc _"])

lemma tiles_mono: "x \<in> tiles n \<Longrightarrow> n \<le> m \<Longrightarrow> x \<in> tiles m"
  by (auto simp: tiles_def)

lemma tiles_less: "x \<in> tiles (Suc n) \<Longrightarrow> x \<noteq> 2 ^ Suc n \<Longrightarrow> x \<in> tiles n"
  by (auto simp: tiles_def le_Suc_eq)

lemma tiles_bound: "x \<in> tiles n \<Longrightarrow> 0 < x \<and> x \<le> 2 ^ n"
  by (auto simp: tiles_def)

lemma merge_keeps:
  "x \<in> set (merge xs) \<Longrightarrow> x \<in> set xs \<or> (\<exists>y \<in> set xs. x = 2 * y) \<and> length (merge xs) < length xs"
proof (induction xs rule: merge.induct)
  case (1 a b r)
  have "length (merge r) < Suc (length r)" by (rule le_imp_less_Suc) simp
  with 1 show ?case by (auto split: if_splits)
qed simp_all

lemma slide_keeps:
  assumes "x \<in> set (slide row)"
  shows "x = 1 \<or> x \<in> set row \<or> (\<exists>y \<in> set row. x = 2 * y) \<and> 1 \<in> set (slide row)"
proof -
  let ?f = "filter (\<lambda>c. c \<noteq> 1) row"
  have le: "length ?f \<le> length row" by (rule length_filter_le)
  consider "x = 1" | "x \<in> set (merge ?f)" using assms by (auto simp: slide_def Let_def set_replicate_conv_if split: if_splits)
  then show ?thesis
  proof cases
    case 2
    from merge_keeps [OF this] show ?thesis
    proof
      assume "(\<exists>y \<in> set ?f. x = 2 * y) \<and> length (merge ?f) < length ?f"
      moreover from calculation le have "length (merge ?f) < length row" by linarith
    ultimately show ?thesis by (auto simp: slide_def Let_def)
    qed auto
  qed simp
qed

lemma set_lines: "length g = 16 \<Longrightarrow> d \<noteq> QUIT \<Longrightarrow> set g = (\<Union>i \<in> {0, 1, 2, 3}. set (line d g i))"
  by (erule square, hypsubst, cases d) (simp_all only: line_rows UN_insert UN_empty, auto)

lemma moved_tiles:
  assumes "moved d g g'" "length g = 16" "d \<noteq> QUIT" "set g \<subseteq> tiles n"
  shows "set g' \<subseteq> tiles (Suc n)" "2 ^ Suc n \<in> set g' \<Longrightarrow> 1 \<in> set g'"
proof -
  have len: "length g' = 16" and line: "i < 4 \<Longrightarrow> line d g' i = slide (line d g i)" for i
    using assms(1) by (simp_all add: moved_def del: line.simps)
  have cell: "x \<in> tiles n \<or> x \<in> tiles (Suc n) \<and> 1 \<in> set g'" if x: "x \<in> set g'" for x
  proof -
    obtain i where i: "i \<in> {0, 1, 2, 3}" "x \<in> set (line d g' i)" using x set_lines [OF len assms(3)] by auto
    have sub: "set (line d g i) \<subseteq> set g" "set (line d g' i) \<subseteq> set g'"
      using i(1) set_lines [OF assms(2,3)] set_lines [OF len assms(3)] by blast+
    have "i < 4" using i(1) by auto
    with i(2) line have "x \<in> set (slide (line d g i))" by simp
    from slide_keeps [OF this] show ?thesis using sub assms(4) line [OF \<open>i < 4\<close>] tiles_twice [of _ n] by (metis subsetD tiles_small(1))
  qed
  show "set g' \<subseteq> tiles (Suc n)" using cell tiles_mono [of _ n "Suc n"] by auto
  have "2 ^ Suc n \<notin> tiles n" using tiles_bound [of "2 ^ Suc n" n] by auto
  then show "1 \<in> set g'" if "2 ^ Suc n \<in> set g'" using cell [OF that] by auto
qed

lemma getcnt_count:
  assumes "length g = 16"
  shows "getcnt g v = count_list g v"
proof -
  have e: "map (\<lambda>(i, j). i * 4 + j) (List.product [0..<4] [0..<4]) = [0..<16 :: nat]" by code_simp
  have "filter (\<lambda>k. g ! k = v) [0..<16] = map (\<lambda>(i, j). i * 4 + j) (filter (\<lambda>(i, j). g ! (i * 4 + j) = v) (List.product [0..<4] [0..<4]))"
    unfolding e [symmetric] filter_map by (simp add: comp_def case_prod_unfold)
  then have "length (filter (\<lambda>k. g ! k = v) [0..<16]) = getcnt g v" by (simp add: getcnt_def)
  moreover have "count_list (map ((!) g) [0..<16]) v = length (filter (\<lambda>k. g ! k = v) [0..<16])"
  proof -
    have "(\<lambda>k. v = g ! k) = (\<lambda>k. g ! k = v)" by auto
    then show ?thesis by (simp add: count_list_eq_length_filter filter_map comp_def)
  qed
  ultimately show ?thesis using map_nth [of g] assms by simp
qed

lemma badd_loop_places:
  assumes "random < idx + count_list g 1" "idx \<le> random"
  shows "\<exists>i. i < length g \<and> g ! i = 1 \<and> badd_loop g idx random v = g[i := v]"
  using assms
proof (induction g arbitrary: idx)
  case (Cons c cs)
  show ?case
  proof (cases "c = 1 \<and> idx = random")
    case True
    then show ?thesis by (intro exI [of _ 0]) simp
  next
    case False
    let ?k = "if c = 1 then idx + 1 else idx"
    obtain i where "i < length cs" "cs ! i = 1" "badd_loop cs ?k random v = cs[i := v]"
      using Cons.IH [of ?k] Cons.prems False by (auto split: if_splits)
    then show ?thesis using False by (intro exI [of _ "Suc i"]) (auto split: if_splits)
  qed
qed simp

lemma two_or_four: "r = 0 \<or> r = 1 \<Longrightarrow> uint (2 * (r + 1) :: u32) = 2 \<or> uint (2 * (r + 1) :: u32) = 4"
  by auto

lemma badd_adds:
  assumes "length g = 16" "1 \<in> set g"
  obtains i v where "i < 16" "g ! i = 1" "v = 2 \<or> v = 4" "badd ticks g = (0, g[i := v])"
proof -
  let ?n = "count_list g 1" and ?s = "rand (ucast ticks)"
  have "?n \<noteq> 0" using assms(2) by (simp add: count_list_0_iff)
  then have n: "0 < ?n" "?n \<le> 16" using assms(1) count_le_length [of g 1] by simp_all
  have u: "unat (of_nat ?n :: u32) = ?n" using n by (simp add: unat_of_nat take_bit_nat_eq_self)
  have r: "unat (?s mod of_nat ?n) < ?n" using n u by (simp add: unat_mod)
  have v: "uint (2 * (rand ?s mod 2 + 1)) = 2 \<or> uint (2 * (rand ?s mod 2 + 1)) = 4"
  proof -
    have "unat (rand ?s mod 2) < 2" by (simp add: unat_mod)
    then have "rand ?s mod 2 = 0 \<or> rand ?s mod 2 = 1" by (auto simp: less_2_cases_iff word_unat_eq_iff)
    then show ?thesis by (rule two_or_four)
  qed
  obtain i where "i < length g" "g ! i = 1" "badd_loop g 0 (unat (?s mod of_nat ?n)) (uint (2 * (rand ?s mod 2 + 1))) = g[i := uint (2 * (rand ?s mod 2 + 1))]"
    using badd_loop_places [of "unat (?s mod of_nat ?n)" 0 g] r by auto
  then show ?thesis using that [OF _ _ v, of i] n assms(1) by (simp add: badd_def getcnt_count Let_def)
qed

lemma badd_full: "length g = 16 \<Longrightarrow> 1 \<notin> set g \<Longrightarrow> badd ticks g = (-1, g)"
  by (simp add: badd_def getcnt_count)

section \<open>Output stays in its buffer\<close>

lemma num2idx_power: "k \<le> 30 \<Longrightarrow> num2idx (2 ^ k) = Inr k"
proof -
  have "num2idx_from (2 ^ k) j (2 ^ j) = Inr k" if "j \<le> k" "k \<le> 30" for j
    using that
  proof (induction "k - j" arbitrary: j)
    case 0
    then show ?case by (subst num2idx_from.simps) simp
  next
    case (Suc d)
    then have j: "j < k" by simp
    have "(2 :: int) ^ Suc j \<le> 2 ^ 30" using j Suc.prems(2) by (intro power_increasing) simp_all
    then have r: "2 * (2 :: int) ^ j < 2 ^ 31" by simp
    have l: "- (2 ^ 31) \<le> 2 * (2 :: int) ^ j" by (rule order_trans [of _ 0]) simp_all
    have tw: "twice (2 ^ j) = Inr (2 ^ Suc j)" by (simp only: twice_def l r simp_thms if_True power_Suc)
    have "num2idx_from (2 ^ k) (Suc j) (2 ^ Suc j) = Inr k" by (rule Suc.hyps(1)) (use Suc j in simp_all)
    moreover have "(2 :: int) ^ j \<noteq> 2 ^ k" using j by simp
    moreover have "\<not> (2 :: int) ^ j \<le> 0" by (simp add: not_le)
    ultimately show ?case by (subst num2idx_from.simps) (simp only: tw if_False sum.case Suc_eq_plus1 [symmetric])
  qed
  from this [of 0] show "k \<le> 30 \<Longrightarrow> num2idx (2 ^ k) = Inr k" by (simp add: num2idx_def)
qed

lemma length_fill_spaces [simp]: "length (fill_spaces mem b n) = length mem"
  by (induction n arbitrary: mem b) simp_all

text \<open>A tile is at most four digits long.\<close>

lemma tile_digits: "x \<in> tiles 11 \<Longrightarrow> length (fmt_d (word_of_int x)) \<le> 4"
proof -
  have "\<forall>k \<in> set [0..<12]. length (fmt_d (word_of_int (2 ^ k))) \<le> 4" by code_simp
  then show "x \<in> tiles 11 \<Longrightarrow> length (fmt_d (word_of_int x)) \<le> 4" by (auto simp: tiles_def)
qed

lemma output_cell_fits:
  assumes "grid ! (i * ROW + j) \<in> tiles 11" "buf + 8 < length mem"
  obtains mem' where "output_cell grid i i2 j mem buf = Inr (mem', buf + 8)" "length mem' = length mem"
proof -
  let ?c = "grid ! (i * ROW + j)"
  obtain k where k: "?c = 2 ^ k" "k \<le> 11" using assms(1) by (auto simp: tiles_def)
  then have n: "num2idx ?c = Inr k" by (simp add: num2idx_power)
  have pk: "\<not> length property \<le> k" using k(2) by (simp add: property_def)
  have "vsprintf [0x1b] [] = Inr [0x1b]" by code_simp
  then obtain m1 n1 where 1: "sprintf mem buf [0x1b] [] = Inr (m1, n1)" "length m1 = length mem"
    by (rule sprintf_fits [where pos = buf and mem = mem]) (use assms(2) in simp)
  have "vsprintf [0x25, 0x63] [Slot (ucast (property ! k))] = Inr [property ! k]" by (simp add: byte_of_u64)
  then obtain m2 n2 where 2: "sprintf m1 (buf + 1) [0x25, 0x63] [Slot (ucast (property ! k))] = Inr (m2, n2)" "length m2 = length m1"
    by (rule sprintf_fits [where pos = "buf + 1" and mem = m1]) (use assms(2) 1 in simp)
  have "vsprintf (replicate 6 0x20) [] = Inr (replicate 6 0x20)" by code_simp
  then obtain m3 n3 where 3: "sprintf m2 (buf + 1 + 1) (replicate 6 0x20) [] = Inr (m3, n3)" "length m3 = length m2"
    by (rule sprintf_fits [where pos = "buf + 1 + 1" and mem = m2]) (use assms(2) 1 2 in simp)
  have "vsprintf [0x25, 0x64] [Slot (word_of_int ?c)] = Inr (fmt_d (word_of_int ?c))" by simp
  then obtain m4 n4 where 4: "sprintf m3 (buf + 1 + 1 + 1) [0x25, 0x64] [Slot (word_of_int ?c)] = Inr (m4, n4)" "length m4 = length m3"
    by (rule sprintf_fits [where pos = "buf + 1 + 1 + 1" and mem = m3]) (use assms(2) 1 2 3 tile_digits [OF assms(1)] in simp)
  let ?m = "if i2 = 1 \<and> ?c \<noteq> 1 then m4 else m3"
  have "output_cell grid i i2 j mem buf = Inr (fill_spaces ?m (buf + 1 + 1) 6, buf + 1 + 1 + 6)"
    unfolding output_cell_def Let_def 1(1) n rbind_Inr prod.case if_not_P [OF pk] 2(1) 3(1)
    using 4 assms(2) 1(2) 2(2) 3(2) by simp
  then show ?thesis using that 1(2) 2(2) 3(2) 4(2) by simp
qed

lemma output_cells_fit:
  assumes "\<forall>(i, i2, j) \<in> set cs. grid ! (i * ROW + j) \<in> tiles 11" "buf + 9 * length cs < length mem"
  shows "\<exists>mem' b. output_cells grid cs mem buf = Inr (mem', b) \<and> length mem' = length mem"
  using assms
proof (induction cs arbitrary: mem buf)
  case (Cons c cs)
  obtain i i2 j where c: "c = (i, i2, j)" by (cases c)
  obtain m1 where 1: "output_cell grid i i2 j mem buf = Inr (m1, buf + 8)" "length m1 = length mem"
    by (rule output_cell_fits [of grid i j buf mem i2]) (use Cons.prems c in simp_all)
  have "vsprintf [0x0a] [] = Inr [0x0a]" by code_simp
  then obtain m2 n2 where 2: "sprintf m1 (buf + 8) [0x0a] [] = Inr (m2, n2)" "length m2 = length m1"
    by (rule sprintf_fits [where pos = "buf + 8" and mem = m1]) (use Cons.prems 1 in simp)
  have "\<exists>m b. output_cells grid cs m2 (buf + 8 + 1) = Inr (m, b) \<and> length m = length m2"
    "\<exists>m b. output_cells grid cs m1 (buf + 8) = Inr (m, b) \<and> length m = length m1"
    by (rule Cons.IH; use Cons.prems 1 2 c in simp)+
  then show ?case using 1 2 c by auto
qed simp

lemma output_fits:
  assumes "length grid = 16" "set grid \<subseteq> tiles 11" "length mem = 672"
  obtains mem' where "output_grid grid mem = Inr mem'" "length mem' = 672"
proof -
  let ?cs = "List.product [0..<ROW] (List.product [0..<3] [0..<COL])"
  have "\<forall>(i, i2, j) \<in> set ?cs. grid ! (i * ROW + j) \<in> tiles 11"
  proof (clarify, rule subsetD [OF assms(2)], rule nth_mem)
    fix i i2 j assume "(i, i2, j) \<in> set ?cs"
    then have "i < 4" "j < 4" by auto
    then show "i * ROW + j < length grid" using assms(1) by simp
  qed
  moreover have "length ?cs = 48" by simp
  ultimately show ?thesis using output_cells_fit [of ?cs grid 0 mem] that assms(3) by (auto simp: output_grid_def)
qed

section \<open>The game runs well\<close>

text \<open>What the game may end with: a grid of tiles, won exactly with a 2048, lost only when no space is left.\<close>

fun proper :: "outcome \<Rightarrow> bool" where
  "proper (You_win g) \<longleftrightarrow> length g = 16 \<and> set g \<subseteq> tiles 11 \<and> 2048 \<in> set g"
| "proper (Game_over g) \<longleftrightarrow> length g = 16 \<and> set g \<subseteq> tiles 10 \<and> 1 \<notin> set g"
| "proper (Quit_game g) \<longleftrightarrow> length g = 16 \<and> set g \<subseteq> tiles 10"
| "proper (Waiting_key g) \<longleftrightarrow> length g = 16 \<and> set g \<subseteq> tiles 10"

lemma tiles_11: "x \<in> tiles 11 \<Longrightarrow> x \<noteq> 2048 \<Longrightarrow> x \<in> tiles 10"
  using tiles_less [of x 10] by simp

lemma input_not_quit: "input keys = Some (d, rest) \<Longrightarrow> d \<noteq> QUIT \<Longrightarrow> d \<in> {LEFT, DOWN, UP, RIGHT}"
  by (cases d) simp_all

lemma play_proper:
  assumes "\<And>k. stack_ok (st k)" "length g = 16" "set g \<subseteq> tiles 11" "2048 \<in> set g \<longrightarrow> 1 \<in> set g" "length buf = 672"
  shows "\<exists>r. play tick st k keys g buf = Inr r \<and> proper r"
  using assms(2-5)
proof (induction keys arbitrary: k g buf rule: length_induct)
  case (1 keys)
  show ?case
  proof (cases "1 \<in> set g")
    case False
    then have "set g \<subseteq> tiles 10" using "1.prems"(2,3) tiles_11 by blast
    with False "1.prems" show ?thesis by (subst play.simps) (simp add: badd_full)
  next
    case True
    obtain i v where iv: "i < 16" "v = 2 \<or> v = 4" "badd (tick k) g = (0, g[i := v])"
      by (rule badd_adds [OF "1.prems"(1) True])
    define g' where "g' = g[i := v]"
    have "v \<in> tiles 11" using iv(2) tilesI [of 1 11] tilesI [of 2 11] by auto
    then have g': "length g' = 16" "set g' \<subseteq> tiles 11" using "1.prems"(1,2) set_update_subset_insert [of g i v] by (auto simp: g'_def)
    obtain buf' where out: "output_grid g' buf = Inr buf'" "length buf' = 672" by (rule output_fits [OF g' "1.prems"(4)])
    note step = play.simps [of tick st k keys g buf, unfolded iv(3), folded g'_def, simplified, unfolded out(1) rbind_Inr getcnt_count [OF g'(1)]]
    show ?thesis
    proof (cases "2048 \<in> set g'")
      case True
      then have "count_list g' 2048 \<noteq> 0" by (simp add: count_list_0_iff)
      then show ?thesis using True g' by (simp add: step)
    next
      case False
      then have c: "count_list g' 2048 = 0" and t: "set g' \<subseteq> tiles 10" using g'(2) tiles_11 by (auto simp: count_list_0_iff)
      show ?thesis
      proof (cases "input keys")
        case None
        then show ?thesis using c t g' by (simp add: step)
      next
        case (Some p)
        obtain d rest where p: "p = (d, rest)" by (cases p)
        show ?thesis
        proof (cases "d = QUIT")
          case True
          then show ?thesis using Some p c t g' by (simp add: step)
        next
          case False
          have "\<forall>x \<in> set g'. \<bar>x\<bar> < 2 ^ 30" using t tiles_bound [of _ 10] by fastforce
          then obtain g2 where g2: "func (st k) d g' = Inr g2" "moved d g' g2"
            using moves_slide g'(1) assms(1) False by blast
          note m = moved_tiles [OF g2(2) g'(1) False t]
          have "length rest < length keys" by (rule input_shorter) (use Some p in simp)
          moreover have "length g2 = 16" using g2(2) by (simp add: moved_def)
          ultimately have "\<exists>r. play tick st (k + 1) rest g2 buf' = Inr r \<and> proper r"
            using "1.IH" m out(2) by simp
          then show ?thesis using Some p False c g2(1) by (simp add: step)
        qed
      qed
    qed
  qed
qed

text \<open>
  C35. The game runs well whatever keys are typed and whatever the tick counter says: no table or buffer is left, no
  number overflows, and it ends won exactly with a 2048 on the grid and lost only with no space left. Every cell
  is a power of two, at most 2048.
\<close>
theorem game_runs_well:
  assumes "\<And>k. stack_ok (st k)"
  shows "\<exists>r. main tick st keys = Inr r \<and> proper r"
proof -
  let ?g = "replicate 16 1 :: int list"
  obtain i v where iv: "i < 16" "v = 2 \<or> v = 4" "badd (tick 0) ?g = (0, ?g[i := v])"
    by (rule badd_adds [of ?g "tick 0"]) simp_all
  have sub: "set (?g[i := v]) \<subseteq> insert v {1}" using set_update_subset_insert [of ?g i v] by (simp add: set_replicate_conv_if)
  have "v \<in> tiles 11" "1 \<in> tiles 11" using iv(2) tilesI [of 1 11] tilesI [of 2 11] tilesI [of 0 11] by auto
  then have "set (?g[i := v]) \<subseteq> tiles 11" "2048 \<notin> set (?g[i := v])" using sub iv(2) by auto
  then have "\<exists>r. play tick st 1 keys (?g[i := v]) (replicate 672 0) = Inr r \<and> proper r"
    by (intro play_proper [OF assms]) simp_all
  then show ?thesis by (simp add: main_def iv(3))
qed

theorem game_runs_well_witness:
  "\<exists>r. main (\<lambda>k. of_nat (7 * k)) (\<lambda>_. (9, replicate 17 0, replicate 17 3)) [0x68, 0x78, 0x6a, 0x6c, 0x6b, 0x71] = Inr r \<and> proper r"
  by (rule game_runs_well) (simp add: stack_ok_def)

end
