(* ===== verification/Snake.thy ===== *)
theory Snake
  imports Stdio
begin

text \<open>
  The game snake (\<^verbatim>\<open>command/snake.c\<close>). The board is a list of 400 cells, row by row; the snake is the sequence of the
  cells its nodes stand for, from the head (the pointer lists of this program are those of theory \<open>IList\<close>). An index
  outside the board is a fault. What \<^verbatim>\<open>getticks\<close>, \<^verbatim>\<open>malloc\<close> and \<^verbatim>\<open>read\<close> return are arguments: a byte from the pipe, or
  \<open>None\<close> when \<^verbatim>\<open>read\<close> finds the pipe empty and leaves the static variable of \<^verbatim>\<open>input\<close> as it was.
\<close>

definition WID :: nat where "WID = 20"
definition HEI :: nat where "HEI = 20"

datatype direct = LEFT | DOWN | UP | RIGHT | QUIT

datatype status = SPACE | BLOCK | FOOD

record game =
  board :: "status list"
  sites :: "int list"
  score :: int
  pred :: direct

primrec direct_code :: "direct \<Rightarrow> nat" where
  "direct_code LEFT = 0"
| "direct_code DOWN = 1"
| "direct_code UP = 2"
| "direct_code RIGHT = 3"
| "direct_code QUIT = 4"

primrec status_code :: "status \<Rightarrow> nat" where
  "status_code SPACE = 0"
| "status_code BLOCK = 1"
| "status_code FOOD = 2"

definition snake_property :: "byte list" where
  "snake_property = [0b01110000, 0b01000100, 0b00100000]"

definition cell_at :: "int \<Rightarrow> status list \<Rightarrow> status res" where
  "cell_at i b = (if 0 \<le> i \<and> i < int (length b) then Inr (b ! nat i) else Inl (Fault ''map''))"

definition put_cell :: "int \<Rightarrow> status \<Rightarrow> status list \<Rightarrow> status list res" where
  "put_cell i v b = (if 0 \<le> i \<and> i < int (length b) then Inr (b[nat i := v]) else Inl (Fault ''map''))"

section \<open>Screen and keys\<close>

text \<open>A cell is a colour and two spaces; a row ends with a new line.\<close>

definition snake_cell :: "status list \<Rightarrow> nat \<Rightarrow> nat \<Rightarrow> byte list \<Rightarrow> nat \<Rightarrow> (byte list \<times> nat) res" where
  "snake_cell b i j mem buf =
     rbind (cell_at (int (i * HEI + j)) b) (\<lambda>c.
     rbind (sprintf mem buf [0x1b, 0x25, 0x63] [Slot (ucast (snake_property ! status_code c))]) (\<lambda>(mem, _). let buf = buf + 2 in
     rbind (sprintf mem buf [0x20] []) (\<lambda>(mem, _). let buf = buf + 1 in
     rbind (sprintf mem buf [0x20] []) (\<lambda>(mem, _). let buf = buf + 1 in
     if j = WID - 1 then rbind (sprintf mem buf [0x0a] []) (\<lambda>(mem, _). Inr (mem, buf + 1)) else Inr (mem, buf)))))"

fun snake_cells :: "status list \<Rightarrow> (nat \<times> nat) list \<Rightarrow> byte list \<Rightarrow> nat \<Rightarrow> (byte list \<times> nat) res" where
  "snake_cells b [] mem buf = Inr (mem, buf)"
| "snake_cells b ((i, j) # cs) mem buf = rbind (snake_cell b i j mem buf) (\<lambda>(mem, buf). snake_cells b cs mem buf)"

text \<open>The escape sequence of a colour, \<^verbatim>\<open>score:\<close>, a tab, and the number.\<close>

definition score_fmt :: "byte list" where
  "score_fmt = [0x1b, 0x07] @ chars ''score:'' @ [0x09, 0x25, 0x64]"

definition snake_output :: "status list \<Rightarrow> int \<Rightarrow> byte list \<Rightarrow> byte list res" where
  "snake_output b sc mem =
     rbind (snake_cells b (List.product [0..<HEI] [0..<WID]) mem 0) (\<lambda>(mem, buf).
     rbind (sprintf mem buf [0x0a] []) (\<lambda>(mem, _). let buf = buf + 1 in
     rbind (sprintf mem buf score_fmt [Slot (word_of_int sc)]) (\<lambda>(mem, _). Inr mem)))"

text \<open>\<open>byte\<close> is the static variable. \<open>None\<close>: the program goes on reading.\<close>

fun snake_input :: "byte \<Rightarrow> byte option list \<Rightarrow> (direct \<times> byte) option" where
  "snake_input byte [] = None"
| "snake_input byte (r # rs) =
     (let byte = (case r of None \<Rightarrow> byte | Some c \<Rightarrow> c) in
      if byte = 0x68 then Some (LEFT, byte) else if byte = 0x6a then Some (DOWN, byte)
      else if byte = 0x6b then Some (UP, byte) else if byte = 0x6c then Some (RIGHT, byte)
      else if byte = 0x71 then Some (QUIT, byte) else snake_input byte rs)"

text \<open>\<^verbatim>\<open>sleep\<close>, with what \<^verbatim>\<open>getticks\<close> returns, first for \<open>start\<close>; \<open>False\<close>: still waiting.\<close>

fun sleep_loop :: "u64 \<Rightarrow> u64 \<Rightarrow> u64 list \<Rightarrow> bool" where
  "sleep_loop start ticks [] = False"
| "sleep_loop start ticks (t # ts) = (if t - start < ticks then sleep_loop start ticks ts else True)"

definition snake_sleep :: "u64 \<Rightarrow> u64 list \<Rightarrow> bool" where
  "snake_sleep ticks ts = (case ts of [] \<Rightarrow> False | start # ts \<Rightarrow> sleep_loop start ticks ts)"

section \<open>Food\<close>

definition snake_rand :: "u32 \<Rightarrow> u32" where
  "snake_rand seed = (seed * 6807) mod 2147483647"

definition snake_getcnt :: "status list \<Rightarrow> status \<Rightarrow> nat" where
  "snake_getcnt b val = length (filter (\<lambda>(i, j). b ! (i * HEI + j) = val) (List.product [0..<HEI] [0..<WID]))"

text \<open>The loop of \<^verbatim>\<open>add_food\<close>, with the index it ends with.\<close>

fun food_loop :: "status list \<Rightarrow> nat \<Rightarrow> nat \<Rightarrow> nat \<Rightarrow> nat \<times> status list" where
  "food_loop [] idx random i = (i, [])"
| "food_loop (c # cs) idx random i =
     (if c = SPACE \<and> idx = random then (i, FOOD # cs)
      else let (k, r) = food_loop cs (if c = SPACE then idx + 1 else idx) random (i + 1) in (k, c # r))"

definition add_food :: "u64 \<Rightarrow> status list \<Rightarrow> int \<times> status list" where
  "add_food ticks b =
     (let space_var = snake_getcnt b SPACE in
      if space_var = 0 then (-1, b)
      else
        let random = unat (snake_rand (ucast ticks) mod of_nat space_var); (i, b) = food_loop b 0 random 0 in
        (int i, b))"

section \<open>The snake\<close>

definition turn :: "int \<Rightarrow> direct \<Rightarrow> int" where
  "turn idx d =
     (let row = idx div int HEI; col = idx mod int HEI;
          (row, col) =
            (case d of
               LEFT \<Rightarrow> (row, (col + int WID - 1) mod int WID)
             | DOWN \<Rightarrow> ((row + 1) mod int WID, col)
             | UP \<Rightarrow> ((row + int HEI - 1) mod int HEI, col)
             | RIGHT \<Rightarrow> (row, (col + 1) mod int WID)
             | QUIT \<Rightarrow> (row, col)) in
      row * int HEI + col)"

text \<open>\<open>beg\<close>, \<open>end\<close>: whether \<^verbatim>\<open>malloc\<close> gave memory for the two nodes.\<close>

definition snake_init :: "u64 \<Rightarrow> bool \<Rightarrow> bool \<Rightarrow> status list \<Rightarrow> (int list \<times> status list) res" where
  "snake_init ticks got_beg got_end b =
     rbind (kassert (got_beg \<and> got_end) ''snake && beg && end'') (\<lambda>_.
     let (beg_site, b) = add_food ticks b; end_site = turn beg_site RIGHT in
     rbind (put_cell beg_site BLOCK b) (\<lambda>b.
     rbind (put_cell end_site BLOCK b) (\<lambda>b. Inr ([beg_site, end_site], b))))"

text \<open>The loop from the last node to the second: each takes the site of the one before.\<close>

definition shift_sites :: "int list \<Rightarrow> int list" where
  "shift_sites ss = foldl (\<lambda>ss i. ss[i := ss ! (i - 1)]) ss (rev [1..<length ss])"

text \<open>\<open>True\<close> is that the snake has run into itself.\<close>

definition snake_move :: "u64 \<Rightarrow> bool \<Rightarrow> direct \<Rightarrow> game \<Rightarrow> (bool \<times> game) res" where
  "snake_move ticks got_node d g =
     (if sites g = [] then Inl (Fault ''snake'')
      else
        let d = (if (direct_code d mod 3 = 0) = (direct_code (pred g) mod 3 = 0) \<and> d \<noteq> pred g then pred g else d) in
        rbind (put_cell (last (sites g)) SPACE (board g)) (\<lambda>b.
        let ss = shift_sites (sites g); beg_site = turn (ss ! 0) d; ss = ss[0 := beg_site] in
        rbind (cell_at beg_site b) (\<lambda>c.
        if c = BLOCK then Inr (True, g\<lparr>board := b, sites := ss\<rparr>)
        else if c = FOOD then
          if 2 ^ 31 \<le> score g + 1 then Inl (Fault ''overflow'')
          else
            rbind (put_cell beg_site BLOCK b) (\<lambda>b.
            rbind (kassert got_node ''newbeg'') (\<lambda>_.
            let newbeg_site = turn beg_site d in
            rbind (put_cell newbeg_site BLOCK b) (\<lambda>b.
            Inr (False, g\<lparr>board := snd (add_food ticks b), sites := newbeg_site # ss, score := score g + 1, pred := d\<rparr>))))
        else rbind (put_cell beg_site BLOCK b) (\<lambda>b. Inr (False, g\<lparr>board := b, sites := ss, pred := d\<rparr>)))))"

section \<open>The program\<close>

text \<open>What the parent process meets in one round of its loop.\<close>

record round =
  food_ticks :: u64
  got_node :: bool
  reads :: "byte option list"
  waits :: "u64 list"

datatype result = Crashed game | Left game | Going_on game

fun snake_play :: "round list \<Rightarrow> byte \<Rightarrow> direct \<Rightarrow> game \<Rightarrow> byte list \<Rightarrow> result res" where
  "snake_play [] byte d g buf = Inr (Going_on g)"
| "snake_play (r # rs) byte d g buf =
     rbind (snake_move (food_ticks r) (got_node r) d g) (\<lambda>(crash, g).
     if crash then Inr (Crashed g)
     else
       rbind (snake_output (board g) (score g) buf) (\<lambda>buf.
       rbind (printf [0x25, 0x73, 0x1b, 0x07] [Pointer buf]) (\<lambda>_.
       case snake_input byte (reads r) of
         None \<Rightarrow> Inr (Going_on g)
       | Some (d, byte) \<Rightarrow>
           if d = QUIT then Inr (Left g)
           else if \<not> snake_sleep 10000 (waits r) then Inr (Going_on g)
           else snake_play rs byte d g buf)))"

text \<open>
  The child process sends every key it reads through the pipe; the bytes sent, and whether it has ended, which it does
  after \<^verbatim>\<open>q\<close>.
\<close>

fun snake_child :: "byte list \<Rightarrow> byte list \<times> bool" where
  "snake_child [] = ([], False)"
| "snake_child (c # keys) = (if c = 0x71 then ([c], True) else let (sent, ended) = snake_child keys in (c # sent, ended))"

text \<open>
  \<open>got\<close> tells which of the calls of \<^verbatim>\<open>malloc\<close> before the loop give memory: for \<^verbatim>\<open>buf\<close>, \<^verbatim>\<open>snake\<close>, \<^verbatim>\<open>beg\<close> and \<^verbatim>\<open>end\<close>. Only the
  last two are checked. \<open>tick\<close> is what \<^verbatim>\<open>getticks\<close> returns in the first two calls of \<^verbatim>\<open>add_food\<close>.
\<close>

definition snake_main :: "(nat \<Rightarrow> bool) \<Rightarrow> (nat \<Rightarrow> u64) \<Rightarrow> round list \<Rightarrow> result res" where
  "snake_main got tick rs =
     (if \<not> got 0 then Inl (Fault ''buf'')
      else if \<not> got 1 then Inl (Fault ''snake'')
      else
        rbind (snake_init (tick 0) (got 2) (got 3) (replicate (WID * HEI) SPACE)) (\<lambda>(ss, b).
        snake_play rs 0 LEFT \<lparr>board = snd (add_food (tick 1) b), sites = ss, score = 0, pred = RIGHT\<rparr>
          (replicate (WID * HEI * 20) 0)))"

section \<open>Places on the board\<close>

definition on_board :: "int \<Rightarrow> bool" where
  "on_board i \<longleftrightarrow> 0 \<le> i \<and> i < 400"

lemma row_col: "0 \<le> (r :: int) \<Longrightarrow> r < 20 \<Longrightarrow> 0 \<le> c \<Longrightarrow> c < 20 \<Longrightarrow> on_board (r * 20 + c)"
  by (simp add: on_board_def)

lemma turn_on_board: "on_board i \<Longrightarrow> on_board (turn i d)"
proof -
  assume i: "on_board i"
  then have "0 \<le> i div 20" "i div 20 < 20" by (auto simp: on_board_def)
  then show ?thesis using i by (cases d) (simp_all add: turn_def HEI_def WID_def row_col)
qed

lemma step_ne: "(x + 1) mod 20 \<noteq> (x :: int)" "(19 + x) mod 20 \<noteq> (x :: int)"
  by presburger+

lemma place_ne: "c \<noteq> d \<Longrightarrow> r * 20 + c \<noteq> r * 20 + (d :: int)" "r \<noteq> q \<Longrightarrow> r * 20 + c \<noteq> q * 20 + (c :: int)"
  by simp_all

lemma turn_moves:
  assumes "d \<noteq> QUIT"
  shows "turn i d \<noteq> i"
proof -
  define r c where "r = i div 20" and "c = i mod 20"
  have i: "i = r * 20 + c" unfolding r_def c_def by (rule div_mult_mod_eq [symmetric])
  have "turn i d \<in> {r * 20 + (19 + c) mod 20, (r + 1) mod 20 * 20 + c, (19 + r) mod 20 * 20 + c, r * 20 + (c + 1) mod 20}"
    using assms by (cases d) (simp_all add: turn_def HEI_def WID_def r_def c_def)
  moreover have "i \<notin> {r * 20 + (19 + c) mod 20, (r + 1) mod 20 * 20 + c, (19 + r) mod 20 * 20 + c, r * 20 + (c + 1) mod 20}"
    unfolding i by (simp only: insert_iff empty_iff place_ne(1) [OF step_ne(1) [symmetric]] place_ne(1) [OF step_ne(2) [symmetric]]
      place_ne(2) [OF step_ne(1) [symmetric]] place_ne(2) [OF step_ne(2) [symmetric]] simp_thms)
  ultimately show ?thesis by metis
qed

lemma cell_at_in: "on_board i \<Longrightarrow> length b = 400 \<Longrightarrow> cell_at i b = Inr (b ! nat i)"
  by (simp add: cell_at_def on_board_def)

lemma put_cell_in: "on_board i \<Longrightarrow> length b = 400 \<Longrightarrow> put_cell i v b = Inr (b[nat i := v])"
  by (simp add: put_cell_def on_board_def)

lemma nth_put: "on_board i \<Longrightarrow> on_board j \<Longrightarrow> length b = 400 \<Longrightarrow> b[nat i := v] ! nat j = (if i = j then v else b ! nat j)"
  by (auto simp: on_board_def nth_list_update)

text \<open>The cell next to another one: rows are 20 cells long, and the edges of the board are joined.\<close>

definition ahead :: "int \<Rightarrow> direct \<Rightarrow> int" where
  "ahead i d =
     (case d of
        LEFT \<Rightarrow> if i mod 20 = 0 then i + 19 else i - 1
      | RIGHT \<Rightarrow> if i mod 20 = 19 then i - 19 else i + 1
      | UP \<Rightarrow> if i < 20 then i + 380 else i - 20
      | DOWN \<Rightarrow> if 380 \<le> i then i - 380 else i + 20
      | QUIT \<Rightarrow> i)"

lemma mod_20:
  assumes "0 \<le> c" "c < 20"
  shows "(19 + c) mod 20 = (if c = 0 then 19 else c - (1 :: int))" "(c + 1) mod 20 = (if c = 19 then 0 else c + (1 :: int))"
proof -
  have "(19 + c) mod 20 = (c - 1 + 20) mod 20" by (simp add: add.commute)
  also have "\<dots> = (c - 1) mod 20" by (rule mod_add_self2)
  finally show "(19 + c) mod 20 = (if c = 0 then 19 else c - 1)" using assms by simp
qed (use assms in simp)

lemma turn_ahead:
  assumes "on_board i"
  shows "turn i d = ahead i d"
proof -
  define r c where "r = i div 20" and "c = i mod 20"
  have i: "i = r * 20 + c" unfolding r_def c_def by (rule div_mult_mod_eq [symmetric])
  have c: "0 \<le> c" "c < 20" by (simp_all add: c_def)
  have r: "0 \<le> r" "r < 20" using assms by (auto simp: on_board_def r_def)
  have edge: "i < 20 \<longleftrightarrow> r = 0" "380 \<le> i \<longleftrightarrow> r = 19" using r c unfolding i by auto
  have "turn i d = (case d of LEFT \<Rightarrow> r * 20 + (19 + c) mod 20 | DOWN \<Rightarrow> (r + 1) mod 20 * 20 + c
      | UP \<Rightarrow> (19 + r) mod 20 * 20 + c | RIGHT \<Rightarrow> r * 20 + (c + 1) mod 20 | QUIT \<Rightarrow> i)"
    by (cases d) (simp_all add: turn_def HEI_def WID_def r_def c_def)
  also have "\<dots> = ahead i d"
    unfolding mod_20 [OF c] mod_20 [OF r] ahead_def edge c_def [symmetric] by (cases d) (simp_all add: i)
  finally show ?thesis .
qed

text \<open>The code compares remainders; what it finds are opposite directions.\<close>

definition opposite :: "direct \<Rightarrow> direct \<Rightarrow> bool" where
  "opposite d e \<longleftrightarrow> (d, e) \<in> {(LEFT, RIGHT), (RIGHT, LEFT), (UP, DOWN), (DOWN, UP)}"

definition heading :: "direct \<Rightarrow> direct \<Rightarrow> direct" where
  "heading d e = (if opposite d e then e else d)"

lemma heading_code:
  assumes "d \<noteq> QUIT" "e \<noteq> QUIT"
  shows "(if (direct_code d mod 3 = 0) = (direct_code e mod 3 = 0) \<and> d \<noteq> e then e else d) = heading d e"
  using assms by (cases d; cases e) (simp_all add: heading_def opposite_def)

lemma heading_not_quit: "d \<noteq> QUIT \<Longrightarrow> e \<noteq> QUIT \<Longrightarrow> heading d e \<noteq> QUIT"
  by (simp add: heading_def)

section \<open>Food is put on a space\<close>

lemma snake_getcnt_count:
  assumes "length b = 400"
  shows "snake_getcnt b v = count_list b v"
proof -
  have e: "map (\<lambda>(i, j). i * 20 + j) (List.product [0..<20] [0..<20]) = [0..<400 :: nat]" by code_simp
  have "filter (\<lambda>k. b ! k = v) [0..<400] = map (\<lambda>(i, j). i * 20 + j) (filter (\<lambda>(i, j). b ! (i * 20 + j) = v) (List.product [0..<20] [0..<20]))"
    unfolding e [symmetric] filter_map by (simp add: comp_def case_prod_unfold)
  then have "length (filter (\<lambda>k. b ! k = v) [0..<400]) = snake_getcnt b v" by (simp add: snake_getcnt_def HEI_def WID_def)
  moreover have "count_list (map ((!) b) [0..<400]) v = length (filter (\<lambda>k. b ! k = v) [0..<400])"
  proof -
    have "(\<lambda>k. v = b ! k) = (\<lambda>k. b ! k = v)" by auto
    then show ?thesis by (simp add: count_list_eq_length_filter filter_map comp_def del: upt_rec_numeral)
  qed
  ultimately show ?thesis using map_nth [of b] assms by (simp del: upt_rec_numeral)
qed

lemma food_loop_places:
  assumes "random < idx + count_list b SPACE" "idx \<le> random"
  shows "\<exists>k. k < length b \<and> b ! k = SPACE \<and> food_loop b idx random i = (i + k, b[k := FOOD])"
  using assms
proof (induction b arbitrary: idx i)
  case (Cons c cs)
  show ?case
  proof (cases "c = SPACE \<and> idx = random")
    case True
    then show ?thesis by (intro exI [of _ 0]) simp
  next
    case False
    let ?k = "if c = SPACE then idx + 1 else idx"
    obtain k where "k < length cs" "cs ! k = SPACE" "food_loop cs ?k random (i + 1) = (i + 1 + k, cs[k := FOOD])"
      using Cons.IH [of ?k "i + 1"] Cons.prems False by (auto split: if_splits)
    then show ?thesis using False by (intro exI [of _ "Suc k"]) (auto split: if_splits)
  qed
qed simp

lemma add_food_places:
  assumes "length b = 400" "SPACE \<in> set b"
  obtains k where "k < 400" "b ! k = SPACE" "add_food ticks b = (int k, b[k := FOOD])"
proof -
  let ?n = "count_list b SPACE" and ?s = "snake_rand (ucast ticks)"
  have "?n \<noteq> 0" using assms(2) by (simp add: count_list_0_iff)
  then have n: "0 < ?n" "?n \<le> 400" using assms(1) count_le_length [of b SPACE] by simp_all
  have u: "unat (of_nat ?n :: u32) = ?n" using n by (simp add: unat_of_nat take_bit_nat_eq_self)
  have r: "unat (?s mod of_nat ?n) < ?n" using n u by (simp add: unat_mod)
  obtain k where "k < length b" "b ! k = SPACE" "food_loop b 0 (unat (?s mod of_nat ?n)) 0 = (k, b[k := FOOD])"
    using food_loop_places [of "unat (?s mod of_nat ?n)" 0 b 0] r by auto
  then show ?thesis using that [of k] n assms(1) by (simp add: add_food_def snake_getcnt_count Let_def)
qed

lemma add_food_full: "length b = 400 \<Longrightarrow> SPACE \<notin> set b \<Longrightarrow> add_food ticks b = (-1, b)"
  by (simp add: add_food_def snake_getcnt_count)

lemma add_food_keeps:
  assumes "length b = 400"
  shows "length (snd (add_food ticks b)) = 400" "j < 400 \<Longrightarrow> (snd (add_food ticks b) ! j = BLOCK) = (b ! j = BLOCK)"
proof -
  consider "SPACE \<notin> set b" | k where "k < 400" "b ! k = SPACE" "add_food ticks b = (int k, b[k := FOOD])"
    using add_food_places [OF assms] by metis
  then have "length (snd (add_food ticks b)) = 400 \<and> (j < 400 \<longrightarrow> (snd (add_food ticks b) ! j = BLOCK) = (b ! j = BLOCK))"
    by cases (auto simp: add_food_full assms nth_list_update)
  then show "length (snd (add_food ticks b)) = 400" "j < 400 \<Longrightarrow> (snd (add_food ticks b) ! j = BLOCK) = (b ! j = BLOCK)" by simp_all
qed

section \<open>The body follows the head\<close>

lemma shift_nth:
  assumes "n \<le> length ss" "i < length ss"
  shows "foldl (\<lambda>ss i. ss[i := ss ! (i - 1)]) ss (rev [1..<n]) ! i = (if 1 \<le> i \<and> i < n then ss ! (i - 1) else ss ! i)"
  using assms
proof (induction n arbitrary: ss)
  case (Suc n)
  show ?case
  proof (cases "n = 0")
    case False
    then have "rev [1..<Suc n] = n # rev [1..<n]" by simp
    then have "foldl (\<lambda>ss i. ss[i := ss ! (i - 1)]) ss (rev [1..<Suc n]) ! i =
        foldl (\<lambda>ss i. ss[i := ss ! (i - 1)]) (ss[n := ss ! (n - 1)]) (rev [1..<n]) ! i" by simp
    also have "\<dots> = (if 1 \<le> i \<and> i < n then ss[n := ss ! (n - 1)] ! (i - 1) else ss[n := ss ! (n - 1)] ! i)"
      by (rule Suc.IH) (use Suc.prems in simp_all)
    also have "\<dots> = (if 1 \<le> i \<and> i < Suc n then ss ! (i - 1) else ss ! i)"
      using Suc.prems False by (auto simp: nth_list_update)
    finally show ?thesis .
  qed simp
qed simp

lemma shift_length: "length (foldl (\<lambda>ss i. ss[i := ss ! (i - 1)]) ss is) = length ss"
  by (induction "is" arbitrary: ss) simp_all

lemma shift_sites_eq:
  assumes "ss \<noteq> []"
  shows "(shift_sites ss)[0 := x] = x # butlast ss" "shift_sites ss ! 0 = hd ss"
proof -
  show "shift_sites ss ! 0 = hd ss" using assms shift_nth [of "length ss" ss 0] by (simp add: shift_sites_def hd_conv_nth)
  show "(shift_sites ss)[0 := x] = x # butlast ss"
  proof (rule nth_equalityI)
    fix i assume "i < length ((shift_sites ss)[0 := x])"
    then show "(shift_sites ss)[0 := x] ! i = (x # butlast ss) ! i"
      by (cases i) (simp_all add: shift_sites_def shift_length [unfolded One_nat_def] shift_nth [unfolded One_nat_def] nth_butlast)
  qed (use assms in \<open>simp add: shift_sites_def shift_length [unfolded One_nat_def]\<close>)
qed

section \<open>A move\<close>

text \<open>The cells of the snake are the blocks of the board, each once.\<close>

definition snake_ok :: "game \<Rightarrow> bool" where
  "snake_ok g \<longleftrightarrow> length (board g) = 400 \<and> sites g \<noteq> [] \<and> (\<forall>x \<in> set (sites g). on_board x) \<and> distinct (sites g) \<and>
     (\<forall>i. on_board i \<longrightarrow> (board g ! nat i = BLOCK) = (i \<in> set (sites g))) \<and> pred g \<noteq> QUIT"

text \<open>\<^verbatim>\<open>snake_move\<close>, with the lists of the nodes written out.\<close>

lemma snake_move_eq:
  assumes "length (board g) = 400" "sites g \<noteq> []" "\<forall>x \<in> set (sites g). on_board x" "pred g \<noteq> QUIT" "d \<noteq> QUIT" "score g + 1 < 2 ^ 31"
  shows "snake_move ticks True d g =
    (let d = heading d (pred g); b = (board g)[nat (last (sites g)) := SPACE]; n = turn (hd (sites g)) d; ss = n # butlast (sites g) in
     Inr (if b ! nat n = BLOCK then (True, g\<lparr>board := b, sites := ss\<rparr>)
       else if b ! nat n = FOOD
       then (False, g\<lparr>board := snd (add_food ticks (b[nat n := BLOCK, nat (turn n d) := BLOCK])), sites := turn n d # ss,
              score := score g + 1, pred := d\<rparr>)
       else (False, g\<lparr>board := b[nat n := BLOCK], sites := ss, pred := d\<rparr>)))"
proof -
  let ?d = "heading d (pred g)" and ?l = "last (sites g)" and ?n = "turn (hd (sites g)) (heading d (pred g))"
  have "on_board ?l" "on_board (hd (sites g))" using assms(2,3) by simp_all
  then have on: "on_board ?l" "on_board ?n" "on_board (turn ?n ?d)" by (simp_all add: turn_on_board)
  have len: "length (board g) = 400" "length ((board g)[nat ?l := SPACE]) = 400"
    "length ((board g)[nat ?l := SPACE, nat ?n := BLOCK]) = 400" using assms(1) by simp_all
  have sc: "\<not> 2 ^ 31 \<le> score g + 1" using assms(6) by simp
  show ?thesis
    unfolding snake_move_def heading_code [OF assms(5,4)] Let_def if_not_P [OF assms(2)] put_cell_in [OF on(1) len(1)] rbind_Inr
      shift_sites_eq [OF assms(2)] cell_at_in [OF on(2) len(2)] put_cell_in [OF on(2) len(2)] if_not_P [OF sc]
      put_cell_in [OF on(3) len(3)]
    by simp
qed

lemma in_butlast: "distinct xs \<Longrightarrow> xs \<noteq> [] \<Longrightarrow> (x \<in> set (butlast xs)) = (x \<in> set xs \<and> x \<noteq> last xs)"
  by (induction xs) auto

lemma snake_moves_ok:
  assumes "snake_ok g" "d \<noteq> QUIT" "score g + 1 < 2 ^ 31" "h = heading d (pred g)" "n = turn (hd (sites g)) h"
    "body = butlast (sites g)" "eat \<longleftrightarrow> board g ! nat n = FOOD"
  shows "\<exists>g'. snake_move ticks True d g = Inr (n \<in> set body, g') \<and>
    sites g' = (if eat then turn n h # n # body else n # body) \<and> score g' = (if eat then score g + 1 else score g) \<and>
    (n \<notin> set body \<longrightarrow> pred g' = h \<and> ((eat \<longrightarrow> turn n h \<notin> set body) \<longrightarrow> snake_ok g'))"
proof -
  let ?l = "last (sites g)" and ?b = "(board g)[nat (last (sites g)) := SPACE]"
  note ok = assms(1) [unfolded snake_ok_def]
  have pre: "length (board g) = 400" "sites g \<noteq> []" "\<forall>x \<in> set (sites g). on_board x" "pred g \<noteq> QUIT" "distinct (sites g)"
    "\<And>i. on_board i \<Longrightarrow> (board g ! nat i = BLOCK) = (i \<in> set (sites g))" using ok by simp_all
  have h: "h \<noteq> QUIT" using assms(2,4) pre(4) heading_not_quit by metis
  have on: "on_board ?l" "on_board n" "on_board (turn n h)" using pre(2,3) by (simp_all add: assms(5) turn_on_board)
  have blen: "length ?b = 400" using pre(1) by simp
  have body: "x \<in> set body \<longleftrightarrow> x \<in> set (sites g) \<and> x \<noteq> ?l" for x unfolding assms(6) by (rule in_butlast [OF pre(5,2)])
  have b: "(?b ! nat i = BLOCK) = (i \<in> set body)" if "on_board i" for i
    using nth_put [OF on(1) that pre(1)] pre(6) [OF that] body by auto
  have f: "(?b ! nat n = FOOD) = eat"
  proof (cases "?l = n")
    case True
    have "board g ! nat ?l = BLOCK" using pre(6) [OF on(1)] pre(2) by simp
    then have "\<not> eat" using True assms(7) by simp
    moreover have "?b ! nat n = SPACE" unfolding nth_put [OF on(1,2) pre(1), of SPACE] using True by simp
    ultimately show ?thesis by simp
  next
    case False
    then show ?thesis unfolding nth_put [OF on(1,2) pre(1), of SPACE] assms(7) by (simp only: if_False)
  qed
  have "n \<in> set body \<Longrightarrow> board g ! nat n = BLOCK" using pre(6) [OF on(2)] body [of n] by simp
  then have eat: "\<not> (eat \<and> n \<in> set body)" unfolding assms(7) by (metis status.distinct(5))
  have dist: "distinct body" unfolding assms(6) using pre(5) by (rule distinct_butlast)
  have sub: "\<forall>x \<in> set body. on_board x" using body pre(3) by simp
  have mv: "snake_move ticks True d g = Inr (if n \<in> set body then (True, g\<lparr>board := ?b, sites := n # body\<rparr>)
       else if eat then (False, g\<lparr>board := snd (add_food ticks (?b[nat n := BLOCK, nat (turn n h) := BLOCK])), sites := turn n h # n # body,
              score := score g + 1, pred := h\<rparr>)
       else (False, g\<lparr>board := ?b[nat n := BLOCK], sites := n # body, pred := h\<rparr>))"
    unfolding snake_move_eq [OF pre(1-4) assms(2,3)] Let_def assms(4,6) [symmetric] assms(5) [symmetric] b [OF on(2)] f ..
  have b1: "(?b[nat n := BLOCK] ! nat i = BLOCK) = (i \<in> set (n # body))" if "on_board i" for i
    using nth_put [OF on(2) that blen] b [OF that] by auto
  have b1len: "length (?b[nat n := BLOCK]) = 400" using pre(1) by simp
  have b2: "(?b[nat n := BLOCK, nat (turn n h) := BLOCK] ! nat i = BLOCK) = (i \<in> set (turn n h # n # body))" if "on_board i" for i
    using nth_put [OF on(3) that b1len] b1 [OF that] by auto
  have b2len: "length (?b[nat n := BLOCK, nat (turn n h) := BLOCK]) = 400" using pre(1) by simp
  consider (crash) "n \<in> set body" | (eats) "n \<notin> set body" "eat" | (goes) "n \<notin> set body" "\<not> eat" by blast
  then show ?thesis
  proof cases
    case crash
    then show ?thesis using mv eat by (intro exI [of _ "g\<lparr>board := ?b, sites := n # body\<rparr>"]) simp
  next
    case eats
    let ?g = "g\<lparr>board := snd (add_food ticks (?b[nat n := BLOCK, nat (turn n h) := BLOCK])), sites := turn n h # n # body,
       score := score g + 1, pred := h\<rparr>"
    have "(board ?g ! nat i = BLOCK) = (i \<in> set (turn n h # n # body))" if "on_board i" for i
    proof -
      have "nat i < 400" using that by (auto simp: on_board_def nat_less_iff)
      then show ?thesis using add_food_keeps(2) [OF b2len] b2 [OF that] by simp
    qed
    then have "snake_ok ?g" if "turn n h \<notin> set body"
      unfolding snake_ok_def using add_food_keeps(1) [OF b2len] dist sub on h eats that turn_moves [OF h, of n] by simp
    then show ?thesis using mv eats by (intro exI [of _ ?g]) simp
  next
    case goes
    let ?g = "g\<lparr>board := ?b[nat n := BLOCK], sites := n # body, pred := h\<rparr>"
    have "snake_ok ?g" unfolding snake_ok_def using b1 dist sub on h goes b1len by simp
    then show ?thesis using mv goes by (intro exI [of _ ?g]) simp
  qed
qed

section \<open>The screen\<close>

lemma itoa_length:
  assumes "unat v < 10 ^ Suc k"
  shows "length (itoa v 10) \<le> Suc k"
  using assms
proof (induction k arbitrary: v)
  case 0
  then have "v div 10 = 0" by (simp add: word_unat_eq_iff unat_div)
  then show ?case by (subst itoa.simps) (simp add: Let_def)
next
  case (Suc k)
  have "unat (v div 10) < 10 ^ Suc k" using Suc.prems by (simp add: unat_div)
  then have "length (itoa (v div 10) 10) \<le> Suc k" by (rule Suc.IH)
  then show ?case by (subst itoa.simps) (simp add: Let_def)
qed

lemma score_digits:
  assumes "0 \<le> sc" "sc < 2 ^ 31"
  shows "length (fmt_d (word_of_int sc)) \<le> 10"
proof -
  let ?v = "ucast (word_of_int sc :: u64) :: u32"
  have v: "?v = word_of_int sc" by (rule bit_word_eqI) (simp add: bit_simps)
  have s: "sint ?v = sc" unfolding v sint_uint using assms by (simp add: unsigned_of_int take_bit_int_eq_self signed_take_bit_int_eq_self)
  have "(scast ?v :: u64) = word_of_int (sint ?v)" by simp
  then have "(scast ?v :: u64) = word_of_int sc" unfolding s .
  then have u: "unat (scast ?v :: u64) = nat sc" using assms by (simp add: unsigned_of_int take_bit_int_eq_self)
  then have "unat (scast ?v :: u64) < 10 ^ Suc 9" using assms by simp
  then have "length (itoa (scast ?v) 10) \<le> Suc 9" by (rule itoa_length)
  then show ?thesis using s assms(1) by (simp add: fmt_d_def Let_def)
qed

lemma status_property: "vsprintf [0x1b, 0x25, 0x63] [Slot (ucast (snake_property ! status_code c))] = Inr [0x1b, snake_property ! status_code c]"
  by (simp add: byte_of_u64)

lemma snake_cell_fits:
  assumes "i < 20" "j < 20" "length b = 400" "buf + 6 < length mem"
  obtains mem' k where "snake_cell b i j mem buf = Inr (mem', buf + k)" "length mem' = length mem" "k \<le> 5"
proof -
  have on: "on_board (int (i * HEI + j))" using assms(1,2) by (simp add: on_board_def HEI_def)
  obtain m1 n1 where 1: "sprintf mem buf [0x1b, 0x25, 0x63] [Slot (ucast (snake_property ! status_code (b ! nat (int (i * HEI + j)))))] = Inr (m1, n1)"
    "length m1 = length mem"
    by (rule sprintf_fits [OF status_property, where pos = buf and mem = mem]) (use assms(4) in simp)
  have sp: "vsprintf [0x20] [] = Inr [0x20]" "vsprintf [0x0a] [] = Inr [0x0a]" by code_simp+
  obtain m2 n2 where 2: "sprintf m1 (buf + 2) [0x20] [] = Inr (m2, n2)" "length m2 = length m1"
    by (rule sprintf_fits [OF sp(1), where pos = "buf + 2" and mem = m1]) (use assms(4) 1 in simp)
  obtain m3 n3 where 3: "sprintf m2 (buf + 2 + 1) [0x20] [] = Inr (m3, n3)" "length m3 = length m2"
    by (rule sprintf_fits [OF sp(1), where pos = "buf + 2 + 1" and mem = m2]) (use assms(4) 1 2 in simp)
  obtain m4 n4 where 4: "sprintf m3 (buf + 2 + 1 + 1) [0x0a] [] = Inr (m4, n4)" "length m4 = length m3"
    by (rule sprintf_fits [OF sp(2), where pos = "buf + 2 + 1 + 1" and mem = m3]) (use assms(4) 1 2 3 in simp)
  have run: "snake_cell b i j mem buf = Inr (if j = WID - 1 then (m4, buf + 2 + 1 + 1 + 1) else (m3, buf + 2 + 1 + 1))"
    unfolding snake_cell_def cell_at_in [OF on assms(3)] rbind_Inr 1(1) prod.case Let_def 2(1) 3(1) 4(1) by simp
  show ?thesis
  proof (cases "j = WID - 1")
    case True
    then show ?thesis using run 1(2) 2(2) 3(2) 4(2) that [of m4 5] by simp
  next
    case False
    then show ?thesis using run 1(2) 2(2) 3(2) that [of m3 4] by simp
  qed
qed

lemma snake_cells_fit:
  assumes "\<forall>(i, j) \<in> set cs. i < 20 \<and> j < 20" "length b = 400" "buf + 5 * length cs + 1 < length mem"
  shows "\<exists>mem' k. snake_cells b cs mem buf = Inr (mem', k) \<and> length mem' = length mem \<and> k \<le> buf + 5 * length cs"
  using assms
proof (induction cs arbitrary: mem buf)
  case (Cons c cs)
  obtain i j where c: "c = (i, j)" by (cases c)
  obtain m1 k1 where 1: "snake_cell b i j mem buf = Inr (m1, buf + k1)" "length m1 = length mem" "k1 \<le> 5"
    by (rule snake_cell_fits [of i j b buf mem]) (use Cons.prems c in simp_all)
  have "\<exists>m k. snake_cells b cs m1 (buf + k1) = Inr (m, k) \<and> length m = length m1 \<and> k \<le> buf + k1 + 5 * length cs"
    by (rule Cons.IH) (use Cons.prems 1 in auto)
  then show ?case using 1 c by fastforce
qed simp

lemma cstr_short: "n < length m \<Longrightarrow> m ! n = 0 \<Longrightarrow> length (cstr m) \<le> n"
  unfolding cstr_def by (metis (mono_tags, lifting) leI nth_length_takeWhile nth_mem set_takeWhileD takeWhile_nth)

text \<open>The text of the board ends within the first 2020 bytes of the buffer, which \<^verbatim>\<open>printf\<close> has room for.\<close>

lemma snake_output_fits:
  assumes "length b = 400" "0 \<le> sc" "sc < 2 ^ 31" "length mem = 8000"
  obtains mem' r where "snake_output b sc mem = Inr mem'" "length mem' = 8000" "printf [0x25, 0x73, 0x1b, 0x07] [Pointer mem'] = Inr r"
proof -
  have "\<exists>m k. snake_cells b (List.product [0..<HEI] [0..<WID]) mem 0 = Inr (m, k) \<and> length m = length mem \<and>
      k \<le> 0 + 5 * length (List.product [0..<HEI] [0..<WID])"
    by (rule snake_cells_fit) (use assms in \<open>auto simp: HEI_def WID_def\<close>)
  then obtain m k where 1: "snake_cells b (List.product [0..<HEI] [0..<WID]) mem 0 = Inr (m, k)" "length m = 8000" "k \<le> 2000"
    using assms(4) by (auto simp: HEI_def WID_def)
  have "vsprintf [0x0a] [] = Inr [0x0a]" by code_simp
  then obtain m2 n2 where 2: "sprintf m k [0x0a] [] = Inr (m2, n2)" "length m2 = length m"
    by (rule sprintf_fits [where pos = k and mem = m]) (use 1 in simp)
  let ?r = "[0x1b, 0x07] @ chars ''score:'' @ [0x09] @ fmt_d (word_of_int sc)"
  have "vsprintf score_fmt [Slot (word_of_int sc)] = Inr ?r" by (simp add: score_fmt_def chars_def of_char_def)
  note fmt = this
  have r: "length ?r \<le> 19" using score_digits [OF assms(2,3)] by (simp add: chars_def)
  obtain n3 where 3: "sprintf m2 (k + 1) score_fmt [Slot (word_of_int sc)] =
      Inr (take (k + 1) m2 @ ?r @ 0 # drop (k + 1 + length ?r + 1) m2, n3)"
    by (rule sprintf_ok [OF fmt, where pos = "k + 1" and mem = m2]) (use 1 2 r in linarith)
  let ?m = "take (k + 1) m2 @ ?r @ 0 # drop (k + 1 + length ?r + 1) m2"
  have len: "length ?m = 8000" using 1 2 r by simp
  have z: "?m ! (k + 1 + length ?r) = 0" using 1 2 by (simp add: nth_append)
  have lt: "k + 1 + length ?r < length ?m" using len 1(3) r by linarith
  then have "0 \<in> set ?m" using z nth_mem by metis
  then have n: "strlen ?m = Inr (length (cstr ?m))" by (rule strlen_cstr)
  have c: "length (cstr ?m) \<le> 2020" using cstr_short [OF lt z] 1(3) r by linarith
  have out: "snake_output b sc mem = Inr ?m"
    unfolding snake_output_def 1(1) rbind_Inr prod.case 2(1) Let_def 3 ..
  let ?s = "take (length (cstr ?m)) ?m @ [0x1b, 0x07]"
  have v: "vsprintf [0x25, 0x73, 0x1b, 0x07] [Pointer ?m] = Inr ?s"
    by (simp only: vsprintf.simps list.case the_str.simps rbind_Inr prod.case n) simp
  have "length ?s \<le> length (cstr ?m) + 2" by (simp only: length_append length_take list.size)
  then have room: "length ?s < 2048" using c by linarith
  have "0 \<in> set (?s @ [0])" by (simp only: set_append set_simps) blast
  note strlen_cstr [OF this]
  then have "printf [0x25, 0x73, 0x1b, 0x07] [Pointer ?m] = Inr (take (length (cstr (?s @ [0]))) ?s)"
    by (simp only: printf_def v rbind_Inr if_P [OF room])
  then show ?thesis by (rule that [OF out len])
qed

section \<open>The game goes on without a fault\<close>

text \<open>The snake is two cells longer than the score; it may cross itself.\<close>

definition game_ok :: "game \<Rightarrow> bool" where
  "game_ok g \<longleftrightarrow> length (board g) = 400 \<and> (\<forall>x \<in> set (sites g). on_board x) \<and> 0 \<le> score g \<and>
     int (length (sites g)) = score g + 2 \<and> pred g \<noteq> QUIT"

lemma snake_move_keeps:
  assumes "game_ok g" "d \<noteq> QUIT" "score g + 1 < 2 ^ 31"
  shows "\<exists>c g'. snake_move ticks True d g = Inr (c, g') \<and> game_ok g' \<and> score g' \<le> score g + 1"
proof -
  let ?h = "heading d (pred g)" and ?n = "turn (hd (sites g)) (heading d (pred g))" and ?b = "(board g)[nat (last (sites g)) := SPACE]"
  note ok = assms(1) [unfolded game_ok_def]
  have pre: "length (board g) = 400" "sites g \<noteq> []" "\<forall>x \<in> set (sites g). on_board x" "pred g \<noteq> QUIT" using ok by auto
  have on: "on_board ?n" "on_board (turn ?n ?h)" using pre(2,3) by (simp_all add: turn_on_board)
  have sub: "\<forall>x \<in> set (butlast (sites g)). on_board x" using pre(3) by (meson in_set_butlastD)
  have h: "?h \<noteq> QUIT" by (rule heading_not_quit [OF assms(2) pre(4)])
  have ln: "int (length (butlast (sites g))) = score g + 1" using ok pre(2) by (cases "sites g" rule: rev_cases) auto
  have fl: "length (snd (add_food ticks (?b[nat ?n := BLOCK, nat (turn ?n ?h) := BLOCK]))) = 400"
    by (rule add_food_keeps) (simp add: pre(1))
  consider (crash) "?b ! nat ?n = BLOCK" | (eats) "?b ! nat ?n = FOOD" | (goes) "?b ! nat ?n = SPACE" by (cases "?b ! nat ?n") auto
  then show ?thesis
  proof cases
    case crash
    have "game_ok (g\<lparr>board := ?b, sites := ?n # butlast (sites g)\<rparr>)" unfolding game_ok_def using ok on sub ln by simp
    then show ?thesis using snake_move_eq [OF pre assms(2,3), of ticks] crash by (simp add: Let_def) blast
  next
    case eats
    have "game_ok (g\<lparr>board := snd (add_food ticks (?b[nat ?n := BLOCK, nat (turn ?n ?h) := BLOCK])),
        sites := turn ?n ?h # ?n # butlast (sites g), score := score g + 1, pred := ?h\<rparr>)"
      unfolding game_ok_def using ok on sub ln fl h by simp
    then show ?thesis using snake_move_eq [OF pre assms(2,3), of ticks] eats by (simp add: Let_def) blast
  next
    case goes
    have "game_ok (g\<lparr>board := ?b[nat ?n := BLOCK], sites := ?n # butlast (sites g), pred := ?h\<rparr>)"
      unfolding game_ok_def using ok on sub ln h by simp
    then show ?thesis using snake_move_eq [OF pre assms(2,3), of ticks] goes by (simp add: Let_def) blast
  qed
qed

fun outcome_ok :: "result \<Rightarrow> bool" where
  "outcome_ok (Crashed g) = game_ok g"
| "outcome_ok (Left g) = game_ok g"
| "outcome_ok (Going_on g) = game_ok g"

lemma snake_play_ok:
  assumes "game_ok g" "d \<noteq> QUIT" "length buf = 8000" "score g + int (length rs) < 2 ^ 31" "\<forall>r \<in> set rs. got_node r"
  shows "\<exists>r. snake_play rs byte d g buf = Inr r \<and> outcome_ok r"
  using assms
proof (induction rs arbitrary: byte d g buf)
  case (Cons r rs)
  have sc: "score g + 1 < 2 ^ 31" using Cons.prems(4) by simp
  obtain c g1 where mv: "snake_move (food_ticks r) True d g = Inr (c, g1)" "game_ok g1" "score g1 \<le> score g + 1"
    using snake_move_keeps [OF Cons.prems(1,2) sc] by metis
  have g1: "length (board g1) = 400" "0 \<le> score g1" "score g1 < 2 ^ 31" using mv sc by (auto simp: game_ok_def)
  obtain mem out where o: "snake_output (board g1) (score g1) buf = Inr mem" "length mem = 8000"
    "printf [0x25, 0x73, 0x1b, 0x07] [Pointer mem] = Inr out"
    by (rule snake_output_fits [OF g1 Cons.prems(3)])
  have got: "got_node r = True" using Cons.prems(5) by simp
  show ?case
  proof (cases "c \<or> snake_input byte (reads r) = None")
    case True
    then show ?thesis using mv o got by auto
  next
    case False
    then obtain d' byte' where i: "snake_input byte (reads r) = Some (d', byte')" by auto
    have "\<exists>q. snake_play rs byte' d' g1 mem = Inr q \<and> outcome_ok q" if "d' \<noteq> QUIT"
      by (rule Cons.IH [OF mv(2) that o(2)]) (use Cons.prems(4,5) mv(3) in auto)
    then show ?thesis using False mv o got i by auto
  qed
qed simp

lemma snake_init_ok:
  obtains i b where "snake_init t True True (replicate 400 SPACE) = Inr ([i, turn i RIGHT], b)" "on_board i" "length b = 400"
    "\<And>j. on_board j \<Longrightarrow> (b ! nat j = BLOCK) = (j \<in> {i, turn i RIGHT})"
proof -
  obtain k where k: "k < 400" "add_food t (replicate 400 SPACE) = (int k, (replicate 400 SPACE)[k := FOOD])"
    by (rule add_food_places [of "replicate 400 SPACE" t]) simp_all
  let ?b = "(replicate 400 SPACE)[k := FOOD]" and ?e = "turn (int k) RIGHT"
  have on: "on_board (int k)" "on_board ?e" using k(1) turn_on_board by (simp_all add: on_board_def)
  have len: "length ?b = 400" "length (?b[nat (int k) := BLOCK]) = 400" by simp_all
  have run: "snake_init t True True (replicate 400 SPACE) = Inr ([int k, ?e], ?b[nat (int k) := BLOCK, nat ?e := BLOCK])"
    unfolding snake_init_def k(2) by (simp only: Let_def prod.case put_cell_in [OF on(1) len(1)] put_cell_in [OF on(2) len(2)] rbind_Inr) simp
  have blocks: "(?b[nat (int k) := BLOCK, nat ?e := BLOCK] ! nat j = BLOCK) = (j \<in> {int k, ?e})" if "on_board j" for j
  proof -
    have j: "nat j < 400" using that by (auto simp: on_board_def nat_less_iff)
    have "?b ! nat j \<noteq> BLOCK" using j by (cases "nat j = k") simp_all
    then show ?thesis
      unfolding nth_put [OF on(2) that len(2)] nth_put [OF on(1) that len(1)] by auto
  qed
  have l: "length (?b[nat (int k) := BLOCK, nat ?e := BLOCK]) = 400" by simp
  show ?thesis by (rule that [OF run on(1) l blocks])
qed

section \<open>Properties\<close>

text \<open>
  C39. A move of the snake: a snake whose nodes stand on different cells, which are the blocks of the board, goes one
  cell in the given direction (left and right within the row, up and down within the column, over the edge to the
  opposite side), or straight on when that is the opposite of the last direction. It crashes
  exactly when that cell belongs to its body without the tail, which moves away. Otherwise every node takes the place
  of the one before it, food makes the score one higher and the snake one longer, by a second step in the same
  direction, and nodes and blocks still agree - when it ate, provided the second step does not end on the body.
\<close>
theorem snake_moves:
  assumes "snake_ok g" "d \<noteq> QUIT" "score g + 1 < 2 ^ 31" "h = heading d (pred g)" "n = ahead (hd (sites g)) h"
    "body = butlast (sites g)" "eat \<longleftrightarrow> board g ! nat n = FOOD"
  shows "\<exists>g'. snake_move ticks True d g = Inr (n \<in> set body, g') \<and>
    sites g' = (if eat then ahead n h # n # body else n # body) \<and> score g' = (if eat then score g + 1 else score g) \<and>
    (n \<notin> set body \<longrightarrow> pred g' = h \<and> ((eat \<longrightarrow> ahead n h \<notin> set body) \<longrightarrow> snake_ok g'))"
proof -
  have "on_board (hd (sites g))" using assms(1) by (auto simp: snake_ok_def)
  from turn_ahead [OF this] turn_on_board [OF this] have n: "n = turn (hd (sites g)) h" "on_board n" using assms(5) by simp_all
  show ?thesis using snake_moves_ok [OF assms(1-4) n(1) assms(6,7)] unfolding turn_ahead [OF n(2)] .
qed

text \<open>A snake that lies in a hook: the food is in front of its head, its body behind the food.\<close>

definition demo_game :: game where
  "demo_game = \<lparr>board = (replicate 400 SPACE)[45 := BLOCK, 65 := BLOCK, 66 := BLOCK, 67 := BLOCK, 47 := BLOCK, 27 := BLOCK, 46 := FOOD],
     sites = [45, 65, 66, 67, 47, 27], score = 4, pred = UP\<rparr>"

lemma demo_game_board: "i < 400 \<Longrightarrow> board demo_game ! i =
  (if i \<in> {45, 65, 66, 67, 47, 27} then BLOCK else if i = 46 then FOOD else SPACE)"
  by (simp add: demo_game_def nth_list_update)

lemma demo_game_ok: "snake_ok demo_game" "sites demo_game = [45, 65, 66, 67, 47, 27]" "score demo_game = 4" "pred demo_game = UP"
proof -
  have "(board demo_game ! nat i = BLOCK) = (i \<in> {45, 65, 66, 67, 47, 27})" if "on_board i" for i
  proof -
    have "nat i < 400" using that by (auto simp: on_board_def nat_less_iff)
    then show ?thesis using that unfolding demo_game_board [OF \<open>nat i < 400\<close>] by (auto simp: on_board_def nat_eq_iff)
  qed
  then show "snake_ok demo_game" unfolding snake_ok_def by (simp add: demo_game_def on_board_def)
qed (simp_all add: demo_game_def)

theorem snake_moves_witness:
  "\<exists>g'. snake_move 7 True UP demo_game = Inr (False, g') \<and> sites g' = [25, 45, 65, 66, 67, 47] \<and> score g' = 4 \<and> pred g' = UP \<and> snake_ok g'"
proof -
  have h: "heading UP UP = UP" "ahead 45 UP = 25" by (simp_all add: heading_def opposite_def ahead_def)
  have b: "butlast (sites demo_game) = [45, 65, 66, 67, 47]" by (simp add: demo_game_ok)
  have e: "(board demo_game ! nat (25 :: int) = FOOD) = False" by (simp add: demo_game_board)
  show ?thesis
    using snake_moves [OF demo_game_ok(1), of UP UP 25 "[45, 65, 66, 67, 47]" False 7] h b e by (simp add: demo_game_ok)
qed

text \<open>
  Eating can hide a crash: the new head is put two cells ahead of the old one without a look at what is there. When
  the body lies behind the food, the game goes on with a higher score although the head is on the body, and two nodes
  of the snake stand on one cell.
\<close>
theorem eating_hides_crash:
  assumes "snake_ok g" "d \<noteq> QUIT" "score g + 1 < 2 ^ 31" "h = heading d (pred g)" "n = turn (hd (sites g)) h"
    "board g ! nat n = FOOD" "turn n h \<in> set (butlast (sites g))"
  shows "\<exists>g'. snake_move ticks True d g = Inr (False, g') \<and> hd (sites g') = turn n h \<and> score g' = score g + 1 \<and> \<not> distinct (sites g')"
proof -
  obtain g' where g': "snake_move ticks True d g = Inr (n \<in> set (butlast (sites g)), g')" "sites g' = turn n h # n # butlast (sites g)"
    "score g' = score g + 1"
    using snake_moves_ok [OF assms(1-5) refl, of True ticks] assms(6) by auto
  have "sites g \<noteq> []" "on_board n" using assms(1) by (simp_all add: snake_ok_def assms(5) turn_on_board)
  then have "n \<notin> set (sites g)" using assms(1,6) by (auto simp: snake_ok_def)
  then have "n \<notin> set (butlast (sites g))" by (meson in_set_butlastD)
  then show ?thesis using g' assms(7) by simp
qed

theorem eating_hides_crash_witness:
  "\<exists>g'. snake_move 7 True RIGHT demo_game = Inr (False, g') \<and> hd (sites g') = 47 \<and> score g' = 5 \<and> \<not> distinct (sites g')"
proof -
  have h: "heading RIGHT UP = RIGHT" "turn 45 RIGHT = 46" "turn 46 RIGHT = 47"
    by (simp_all add: heading_def opposite_def turn_def HEI_def WID_def)
  show ?thesis
    using eating_hides_crash [OF demo_game_ok(1), of RIGHT RIGHT 46 7] h by (simp add: demo_game_ok demo_game_board)
qed

text \<open>
  C40. The game runs without a fault: with memory for the nodes and fewer than 2^31 rounds, whatever keys arrive or
  are missing and whatever the tick counter says, no cell outside the board is touched, no buffer overflows - neither the
  8000 bytes of the screen nor the 2048 of \<^verbatim>\<open>printf\<close> -, and when it stops or waits the snake has two nodes more than
  the score, all of them on the board.
\<close>
theorem snake_runs:
  assumes "\<And>k. k < 4 \<Longrightarrow> got k" "\<And>r. r \<in> set rs \<Longrightarrow> got_node r" "length rs < 2 ^ 31"
  shows "\<exists>r. snake_main got tick rs = Inr r \<and> outcome_ok r"
proof -
  obtain i b where i: "snake_init (tick 0) True True (replicate 400 SPACE) = Inr ([i, turn i RIGHT], b)" "on_board i" "length b = 400"
    by (rule snake_init_ok) blast
  let ?g = "\<lparr>board = snd (add_food (tick 1) b), sites = [i, turn i RIGHT], score = 0, pred = RIGHT\<rparr>"
  have "game_ok ?g" using i(2) add_food_keeps(1) [OF i(3)] turn_on_board [OF i(2)] by (simp add: game_ok_def)
  then have "\<exists>r. snake_play rs 0 LEFT ?g (replicate 8000 0) = Inr r \<and> outcome_ok r"
    by (rule snake_play_ok) (use assms(2,3) in simp_all)
  moreover have "got 0" "got 1" "got 2" "got 3" using assms(1) by simp_all
  ultimately show ?thesis using i(1) by (simp add: snake_main_def WID_def HEI_def)
qed

theorem snake_runs_witness:
  "\<exists>r. snake_main (\<lambda>_. True) (\<lambda>k. of_nat (7 * k))
     [\<lparr>food_ticks = 3, got_node = True, reads = [Some 0x6a], waits = [1, 20000]\<rparr>,
      \<lparr>food_ticks = 5, got_node = True, reads = [None], waits = [1, 20000]\<rparr>] = Inr r \<and> outcome_ok r"
  by (rule snake_runs) auto

end
