(* ===== verification/Spec2Isabelle.thy ===== *)
theory Spec2Isabelle
  imports Prelude Bitmap IList Sched Sync Paging Arena Disk Intr IoQueue Inode FileData Dir Path PathSpec Mount MountSpec File Pipe
    FileCall FileSpec PipeSpec Keyboard Timer Console Stdio DiskInit Process ProcSpec Exec ExecSpec Syscall Shell Commands Game2048 Snake
begin

text \<open>
  A model of the RecoverOS kernel, a 64-bit teaching kernel in C for one processor, and the theorems that make its
  parts correct. File names are under \<^verbatim>\<open>src/\<close>.

  \<^bold>\<open>How the program is built.\<close> Threads are scheduled round robin on timer ticks; semaphores and locks block and wake
  them. Physical frames, virtual pages and a heap of size classes give memory. A disk driver moves sectors; on them
  lies a file system of inodes, directories and two bitmaps, under paths, a table of open files and the system
  calls. Keyboard, pipes and console are character devices over locked ring buffers. Processes are made by fork,
  replaced by exec, and end by exit and wait.

  \<^bold>\<open>Conventions\<close> (theory \<open>Prelude\<close>). C integers are words of their width. A function that can fail returns
  \<open>'a res\<close>: \<open>Inl (Panic m)\<close> is a failed \<^verbatim>\<open>ASSERT\<close> or \<^verbatim>\<open>PANIC\<close>, \<open>Inl (Fault m)\<close> an access outside the memory the C
  code may use, \<open>Inr\<close> a return. State is passed explicitly; each theory has its state as a record, and later ones
  extend earlier ones: \<open>sched\<close> (scheduler and synchronisation), \<open>kern = sched + \<dots>\<close> (file system, file
  table, pipes, keyboard, streams) and \<open>proc = kern + \<dots>\<close> (user memory).

  \<^bold>\<open>Theories\<close>, in the order of their dependence:
  \<^item> \<open>Bitmap\<close> (\<^verbatim>\<open>lib/kernel/bitmap.c\<close>): bitmaps as byte lists; first fit, the missing check of the end of a run.
  \<^item> \<open>IList\<close> (\<^verbatim>\<open>lib/kernel/list.c\<close>): the doubly linked lists on a memory of links refine sequences; the theories
    after it use sequences.
  \<^item> \<open>Sched\<close> (\<^verbatim>\<open>thread/thread.c\<close>, \<^verbatim>\<open>intr_time_hdl\<close>, interrupt flag): \<open>schedule\<close>, blocking, yielding; the scheduler
    invariant, round robin without starvation.
  \<^item> \<open>Sync\<close> (\<^verbatim>\<open>thread/sync.c\<close>): semaphores and locks cut at the points where other threads run, and the step relation
    \<open>lock_step\<close> of all interleavings; mutual exclusion, no lost wake-up, no failing assertion.
  \<^item> \<open>Paging\<close>, \<open>Arena\<close> (\<^verbatim>\<open>kernel/memory.c\<close>): the four-level tables through the recursive slot, frames, virtual pools,
    page allocation, and the heap \<open>sys_malloc\<close> and \<open>sys_free\<close>.
  \<^item> \<open>Disk\<close>, \<open>DiskInit\<close> (\<^verbatim>\<open>device/ide.c\<close>): port traffic of the driver against a small model of an ATA controller,
    partitions, the disk interrupt; the channels and the identification of the drives.
  \<^item> \<open>Intr\<close> (\<^verbatim>\<open>kernel/intr.c\<close>, \<^verbatim>\<open>kernel/tss.c\<close>): what is written into the interrupt controllers, the interrupt
    descriptor table and the descriptor of the task state segment, against how the hardware reads it.
  \<^item> \<open>IoQueue\<close> (\<^verbatim>\<open>device/ioqueue.c\<close>): the ring buffer with its lock and two waiters; it is a bounded channel.
  \<^item> \<open>Inode\<close>, \<open>FileData\<close> (\<^verbatim>\<open>fs/inode.c\<close>): operations on inodes, then what they do to the contents of files; the
    disk below is the map of sectors that the theorems of \<open>Disk\<close> justify.
  \<^item> \<open>Dir\<close>, \<open>Path\<close>, \<open>Mount\<close> (\<^verbatim>\<open>fs/dir.c\<close>, \<^verbatim>\<open>fs/fs.c\<close>, end of \<^verbatim>\<open>fs/inode.c\<close>): directories as finite maps, path names, and
    the format a partition gets; \<open>PathSpec\<close> shows that a search walks the tree of directories, \<open>MountSpec\<close> that a
    formatted partition is mounted with an empty root directory.
  \<^item> \<open>File\<close>, \<open>Pipe\<close>, \<open>FileCall\<close> (\<^verbatim>\<open>fs/file.c\<close>, \<^verbatim>\<open>pipe/pipe.c\<close>, \<^verbatim>\<open>fs/fs.c\<close>): descriptors, pipes, and the system calls;
    \<open>FileSpec\<close> and \<open>PipeSpec\<close> show what the calls do to the bytes of a file and of a pipe.
  \<^item> \<open>Keyboard\<close>, \<open>Timer\<close>, \<open>Console\<close>, \<open>Stdio\<close> (\<^verbatim>\<open>device/\<close>, \<^verbatim>\<open>lib/\<close>): scan codes, ticks, the screen, strings and
    formatted output.
  \<^item> \<open>Process\<close>, \<open>Exec\<close> (\<^verbatim>\<open>thread/thread.c\<close>, \<^verbatim>\<open>userprog/\<close>): threads and processes from creation to the wait of their
    parent, and the ELF loader; \<open>ProcSpec\<close> shows what \<^verbatim>\<open>fork\<close> copies, what it writes to the stack of the parent, what the
    child returns, what happens when the process numbers run out, and how an exit status reaches the parent, \<open>ExecSpec\<close> that the bytes of a program reach its memory.
  \<^item> \<open>Syscall\<close> (\<^verbatim>\<open>userprog/syscall-init.c\<close>, \<^verbatim>\<open>lib/user/syscall.c\<close>): the numbers of the system calls, from the stub to
    the function that serves it.
  \<^item> \<open>Shell\<close>, \<open>Game2048\<close>, \<open>Snake\<close> (\<^verbatim>\<open>shell/shell.c\<close>, \<^verbatim>\<open>command/2048.c\<close>, \<^verbatim>\<open>command/snake.c\<close>): the user programs with logic
    of their own: line editing, splitting and running a line; the moves of the games and their loops.
  \<^item> \<open>Commands\<close> (\<^verbatim>\<open>command/echo.c\<close>, \<^verbatim>\<open>rm.c\<close>, \<^verbatim>\<open>ls.c\<close>, \<^verbatim>\<open>cat.c\<close>): the small commands, on the system calls.

  \<^bold>\<open>Interfaces.\<close> What a component promises to its clients is a locale, with an interpretation on the model's own
  functions in the theory that provides them; the clients' lemmas are proved once inside it.

  \<^bold>\<open>Interleaving and termination.\<close> One processor and disabled interrupts make each piece of code between two calls of
  \<open>schedule\<close> atomic. Where a function can block, its model is cut there: the part before ends with the thread
  parked, and a second function continues it. Loops whose end depends on data are total functions with a measure;
  those that may run for ever, \<open>readdir_loop\<close> and \<open>ls_entries\<close>, have options as results, with \<open>None\<close> for divergence. Two
  loops that wait for time, \<open>busy_wait\<close> and \<open>ticks_to_sleep\<close>, consume a list of what they read; their theorems say
  how long a list is enough.

  \<^bold>\<open>Not modelled.\<close> Assembly (\<^verbatim>\<open>boot/\<close>, \<^verbatim>\<open>kernel/knl.S\<close>: context switch and the transition between user and kernel,
  except the look-up in \<^verbatim>\<open>system_call\<close> and the load of its result in \<^verbatim>\<open>system_ret\<close>),
  \<^verbatim>\<open>kernel/main.c\<close>, which calls the initialisers and copies programs into files, most messages on the console, and
  \<^verbatim>\<open>command/shell.c\<close>, which echoes keys for ever. Speculative or weakly ordered memory plays no role on one processor.
\<close>

end
